(* ===== verification/Prelude.thy ===== *)
theory Prelude
  imports Main "HOL-Library.Word" "HOL-Library.Monad_Syntax"
begin

text \<open>
  Shared vocabulary of the development.

  \<^item> the Go integer types the sources use, as words of their width;
  \<^item> a run-time panic (an index or slice out of range) as \<^term>\<open>None\<close>: a function that may panic
    returns an \<open>option\<close>, and its callers are written in the option monad;
  \<^item> byte buffers: bounded reads and writes, and the little-endian integers of
    \<open>encoding/binary\<close> on them, with the round-trip lemmas every codec proof uses;
  \<^item> Go's number formatting (\<open>%d\<close>, \<open>%02X\<close>);
  \<^item> the lemma collections \<open>le_simps\<close> and \<open>buf_simps\<close>.
\<close>

unbundle bit_operations_syntax

named_theorems le_simps "little-endian integers"
named_theorems buf_simps "bounded buffer access"

type_synonym byte = "8 word"
type_synonym u16 = "16 word"
type_synonym u32 = "32 word"
type_synonym u64 = "64 word"

section \<open>Widths\<close>

lemma unat_byte_less [simp]: "unat (b :: byte) < 256"
  using unsigned_less [of b] by simp

lemma unat_u16_less [simp]: "unat (v :: u16) < 65536"
  using unsigned_less [of v] by simp

lemma unat_u32_less [simp]: "unat (v :: u32) < 4294967296"
  using unsigned_less [of v] by simp

lemma unat_u64_less [simp]: "unat (v :: u64) < 18446744073709551616"
  using unsigned_less [of v] by simp

text \<open>\<open>int(uint32)\<close> on a 32-bit target: the signed reading, which agrees when it is not negative.\<close>

lemma uint_eq_sint_u32:
  assumes "0 \<le> sint (v :: u32)"
  shows "uint v = sint v"
proof -
  have "sint v < 2 ^ 31"
    using sint_less [of v] by simp
  then have "take_bit 32 (sint v) = sint v"
    using assms by (simp add: take_bit_int_eq_self)
  then show ?thesis by (simp add: uint_sint)
qed

lemma sint_eq_uint_u32:
  assumes "uint (v :: u32) < 2147483648"
  shows "sint v = uint v"
proof -
  have "0 \<le> uint v" by simp
  then have "- 2147483648 \<le> uint v" by linarith
  then have "signed_take_bit 31 (uint v) = uint v"
    using assms by (intro signed_take_bit_int_eq_self) (linarith | simp)+
  then show ?thesis by (simp add: sint_uint)
qed

section \<open>Little-endian integers\<close>

fun le_bytes :: "nat \<Rightarrow> nat \<Rightarrow> byte list" where
  "le_bytes 0 v = []"
| "le_bytes (Suc n) v = word_of_nat v # le_bytes n (v div 256)"

fun le_val :: "byte list \<Rightarrow> nat" where
  "le_val [] = 0"
| "le_val (b # bs) = unat b + 256 * le_val bs"

lemma length_le_bytes [simp, le_simps]: "length (le_bytes n v) = n"
  by (induction n arbitrary: v) auto

lemma le_val_le_bytes [le_simps]: "le_val (le_bytes n v) = v mod 256 ^ n"
  by (induction n arbitrary: v) (auto simp: unat_of_nat mod_mult2_eq)

lemma le_bytes_le_val: "le_bytes (length bs) (le_val bs) = bs"
proof (induction bs)
  case (Cons b bs)
  have "(unat b + 256 * le_val bs) div 256 = le_val bs"
    by (simp add: div_add1_eq)
  moreover have "word_of_nat (unat b + 256 * le_val bs) = b"
    by (simp only: word_unat_eq_iff unat_of_nat) simp
  ultimately show ?case using Cons by simp
qed simp

lemma le_val_bound: "le_val bs < 256 ^ length bs"
proof (induction bs)
  case (Cons b bs)
  then show ?case using unat_byte_less [of b] by (simp del: unat_byte_less)
qed simp

section \<open>Bounded buffers\<close>

text \<open>Reading and writing a run of bytes at an offset; \<^term>\<open>None\<close> is Go's index-out-of-range panic.\<close>

definition rd :: "nat \<Rightarrow> byte list \<Rightarrow> nat \<Rightarrow> byte list option" where
  "rd n b off = (if off + n \<le> length b then Some (take n (drop off b)) else None)"

definition put :: "byte list \<Rightarrow> nat \<Rightarrow> byte list \<Rightarrow> byte list option" where
  "put b off s = (if off + length s \<le> length b
     then Some (take off b @ s @ drop (off + length s) b) else None)"

definition PutUint16 :: "byte list \<Rightarrow> nat \<Rightarrow> u16 \<Rightarrow> byte list option" where
  "PutUint16 b off v = put b off (le_bytes 2 (unat v))"

definition PutUint32 :: "byte list \<Rightarrow> nat \<Rightarrow> u32 \<Rightarrow> byte list option" where
  "PutUint32 b off v = put b off (le_bytes 4 (unat v))"

definition PutUint64 :: "byte list \<Rightarrow> nat \<Rightarrow> u64 \<Rightarrow> byte list option" where
  "PutUint64 b off v = put b off (le_bytes 8 (unat v))"

definition PutByte :: "byte list \<Rightarrow> nat \<Rightarrow> byte \<Rightarrow> byte list option" where
  "PutByte b off v = put b off [v]"

definition Uint16 :: "byte list \<Rightarrow> nat \<Rightarrow> u16 option" where
  "Uint16 b off = map_option (\<lambda>s. word_of_nat (le_val s)) (rd 2 b off)"

definition Uint32 :: "byte list \<Rightarrow> nat \<Rightarrow> u32 option" where
  "Uint32 b off = map_option (\<lambda>s. word_of_nat (le_val s)) (rd 4 b off)"

definition Uint64 :: "byte list \<Rightarrow> nat \<Rightarrow> u64 option" where
  "Uint64 b off = map_option (\<lambda>s. word_of_nat (le_val s)) (rd 8 b off)"

definition ByteAt :: "byte list \<Rightarrow> nat \<Rightarrow> byte option" where
  "ByteAt b off = (if off < length b then Some (b ! off) else None)"

lemma length_put: "put b off s = Some b' \<Longrightarrow> length b' = length b"
  by (auto simp: put_def split: if_splits)

lemma take_put: "put b off s = Some b' \<Longrightarrow> take (off + length s) b' = take off b @ s"
  by (auto simp: put_def split: if_splits)

lemma take_put_before: "put b off s = Some b' \<Longrightarrow> n \<le> off \<Longrightarrow> take n b' = take n b"
  by (auto simp: put_def min_def split: if_splits)

lemma put_Some_iff: "(\<exists>b'. put b off s = Some b') \<longleftrightarrow> off + length s \<le> length b"
  by (auto simp: put_def)

text \<open>Two writes next to each other are one write of both runs.\<close>

lemma put_put_adjacent [buf_simps]:
  "off2 = off + length s \<Longrightarrow>
   Option.bind (put b off s) (\<lambda>b'. put b' off2 t) = put b off (s @ t)"
  by (auto simp: put_def ac_simps)

lemma put_bind_adjacent:
  "off2 = off + length s \<Longrightarrow>
   Option.bind (put b off s) (\<lambda>b'. Option.bind (put b' off2 t) f) = Option.bind (put b off (s @ t)) f"
  by (auto simp: put_def ac_simps)

lemma put_Nil [simp]: "off \<le> length b \<Longrightarrow> put b off [] = Some b"
  by (simp add: put_def)

lemmas Put_defs = PutByte_def PutUint16_def PutUint32_def PutUint64_def
lemmas Get_defs = Uint16_def Uint32_def Uint64_def ByteAt_def

text \<open>Reading back, from a buffer whose bytes are known as an append.\<close>

lemma rd_append [buf_simps]:
  "length p = off \<Longrightarrow> length s = n \<Longrightarrow> rd n (p @ s @ r) off = Some s"
  by (simp add: rd_def)

lemma rd_append_end [buf_simps]:
  "length p = off \<Longrightarrow> length s = n \<Longrightarrow> rd n (p @ s) off = Some s"
  by (simp add: rd_def)

lemma of_le_val_u16 [le_simps]: "(word_of_nat (le_val (le_bytes 2 (unat v))) :: u16) = v"
  by (simp add: le_val_le_bytes word_unat_eq_iff unat_of_nat)

lemma of_le_val_u32 [le_simps]: "(word_of_nat (le_val (le_bytes 4 (unat v))) :: u32) = v"
  by (simp add: le_val_le_bytes word_unat_eq_iff unat_of_nat)

lemma of_le_val_u64 [le_simps]: "(word_of_nat (le_val (le_bytes 8 (unat v))) :: u64) = v"
  by (simp add: le_val_le_bytes word_unat_eq_iff unat_of_nat)

lemma rd_ok [simp]: "off + n \<le> length b \<Longrightarrow> rd n b off = Some (take n (drop off b))"
  by (simp add: rd_def)

section \<open>Characters and bytes\<close>

text \<open>A Go string is a sequence of bytes, and so is an Isabelle \<open>string\<close>.\<close>

definition byte_of_char :: "char \<Rightarrow> byte" where
  "byte_of_char c = word_of_nat (of_char c)"

definition char_of_byte :: "byte \<Rightarrow> char" where
  "char_of_byte b = char_of (unat b)"

lemma of_char_nat_less: "(of_char c :: nat) < 256"
  using of_char_of [of "of_char c :: nat"] by simp

lemma char_of_byte_of_char [simp]: "char_of_byte (byte_of_char c) = c"
  by (simp add: char_of_byte_def byte_of_char_def unat_of_nat of_char_nat_less)

lemma byte_of_char_of_byte [simp]: "byte_of_char (char_of_byte b) = b"
  by (simp add: char_of_byte_def byte_of_char_def)

lemma map_char_byte_id [simp]: "map (char_of_byte \<circ> byte_of_char) s = s"
  by (induction s) auto

section \<open>Number formatting\<close>

definition hex_digit :: "nat \<Rightarrow> char" where
  "hex_digit n = ''0123456789ABCDEF'' ! (n mod 16)"

text \<open>\<open>%02X\<close> of a byte value.\<close>

definition hex2 :: "nat \<Rightarrow> string" where
  "hex2 n = [hex_digit (n div 16), hex_digit n]"

fun dec_str :: "nat \<Rightarrow> string" where
  "dec_str n = (if n < 10 then [char_of (48 + n)] else dec_str (n div 10) @ [char_of (48 + n mod 10)])"

declare dec_str.simps [simp del]

lemma dec_str_nonempty [simp]: "dec_str n \<noteq> []"
  by (subst dec_str.simps) simp

lemma length_hex2 [simp]: "length (hex2 n) = 2"
  by (simp add: hex2_def)

end
