(* ===== verification/DecodedEvent.thy ===== *)
theory DecodedEvent
  imports Prelude
begin

text \<open>
  The decoded-event transport record of \<open>sramcapture/decoded_event.go\<close>: the event type, its header
  validation, and the fixed 32-byte encoding that the acquisition worker and the web decoder
  exchange (\<open>MarshalTo\<close>, \<open>ParseDecodedEvent\<close>).
\<close>

section \<open>The event\<close>

definition DecodedEventBytes :: nat where "DecodedEventBytes = 32"

definition EventStart :: byte where "EventStart = 1"
definition EventData :: byte where "EventData = 2"
definition EventEnd :: byte where "EventEnd = 3"
definition EventError :: byte where "EventError = 4"
definition EventLoss :: byte where "EventLoss = 5"
definition EventTrigger :: byte where "EventTrigger = 6"
definition EventRetained :: byte where "EventRetained = 7"

lemmas Event_kinds = EventStart_def EventData_def EventEnd_def EventError_def EventLoss_def
  EventTrigger_def EventRetained_def

record decoded_event =
  ev_Epoch :: u32
  ev_Sequence :: u32
  ev_Sample :: u64
  ev_Record :: u32
  ev_Value :: u32
  ev_Count :: u32
  ev_Protocol :: byte
  ev_Kind :: byte
  ev_Channels :: byte
  ev_Valid :: bool
  ev_RecordValid :: bool

datatype event_error =
    InvalidHeader
  | ProtocolRequired
  | LossOrErrorValid
  | RetainedNeedsRecord
  | InvalidOutputSize
  | InvalidFraming

text \<open>\<open>validate\<close>: \<^term>\<open>None\<close> accepts, \<^term>\<open>Some e\<close> is the error returned.\<close>

definition validate_event :: "decoded_event \<Rightarrow> event_error option" where
  "validate_event e =
     (if ev_Kind e < EventStart \<or> EventRetained < ev_Kind e \<or> 10 < ev_Protocol e \<or> 3 < ev_Channels e
      then Some InvalidHeader
      else if ev_Protocol e = 0 \<and> ev_Kind e \<noteq> EventLoss \<and> ev_Kind e \<noteq> EventRetained
      then Some ProtocolRequired
      else if (ev_Kind e = EventLoss \<or> ev_Kind e = EventError) \<and> ev_Valid e
      then Some LossOrErrorValid
      else if ev_Kind e = EventRetained \<and> (\<not> ev_RecordValid e \<or> ev_Count e = 0)
      then Some RetainedNeedsRecord
      else None)"

section \<open>Encoding\<close>

definition flag_byte :: "decoded_event \<Rightarrow> byte" where
  "flag_byte e =
     (let b = ev_Channels e;
          b = (if ev_Valid e then b OR 4 else b);
          b = (if ev_RecordValid e then b OR 8 else b)
      in b)"

text \<open>
  \<open>MarshalTo\<close> writes into the caller's buffer; the result is the buffer after the call, or the error
  with the buffer untouched. The outer option is a panic of a slice write.
\<close>

definition MarshalTo :: "decoded_event \<Rightarrow> byte list \<Rightarrow> (event_error + byte list) option" where
  "MarshalTo e b =
     (if length b \<noteq> DecodedEventBytes then Some (Inl InvalidOutputSize)
      else case validate_event e of
        Some err \<Rightarrow> Some (Inl err)
      | None \<Rightarrow> do {
          b \<leftarrow> PutByte b 0 1;
          b \<leftarrow> PutByte b 1 (ev_Kind e);
          b \<leftarrow> PutByte b 2 (ev_Protocol e);
          b \<leftarrow> PutByte b 3 (flag_byte e);
          b \<leftarrow> PutUint32 b 4 (ev_Epoch e);
          b \<leftarrow> PutUint32 b 8 (ev_Sequence e);
          b \<leftarrow> PutUint64 b 12 (ev_Sample e);
          b \<leftarrow> PutUint32 b 20 (ev_Record e);
          b \<leftarrow> PutUint32 b 24 (ev_Value e);
          b \<leftarrow> PutUint32 b 28 (ev_Count e);
          Some (Inr b)
        })"

definition ParseDecodedEvent :: "byte list \<Rightarrow> (event_error + decoded_event) option" where
  "ParseDecodedEvent b =
     (if length b \<noteq> DecodedEventBytes \<or> b ! 0 \<noteq> 1 \<or> b ! 3 AND 0xf0 \<noteq> 0
      then Some (Inl InvalidFraming)
      else do {
        kind \<leftarrow> ByteAt b 1;
        proto \<leftarrow> ByteAt b 2;
        fl \<leftarrow> ByteAt b 3;
        epoch \<leftarrow> Uint32 b 4;
        sequence \<leftarrow> Uint32 b 8;
        sample \<leftarrow> Uint64 b 12;
        record \<leftarrow> Uint32 b 20;
        value \<leftarrow> Uint32 b 24;
        count \<leftarrow> Uint32 b 28;
        let e = \<lparr>ev_Epoch = epoch, ev_Sequence = sequence, ev_Sample = sample, ev_Record = record,
                 ev_Value = value, ev_Count = count, ev_Protocol = proto, ev_Kind = kind,
                 ev_Channels = fl AND 3, ev_Valid = (fl AND 4 \<noteq> 0), ev_RecordValid = (fl AND 8 \<noteq> 0)\<rparr>;
        case validate_event e of Some err \<Rightarrow> Some (Inl err) | None \<Rightarrow> Some (Inr e)
      })"

section \<open>Round trip and totality\<close>

text \<open>The bytes an accepted event becomes, whatever the buffer held.\<close>

definition event_bytes :: "decoded_event \<Rightarrow> byte list" where
  "event_bytes e = [1, ev_Kind e, ev_Protocol e, flag_byte e]
     @ le_bytes 4 (unat (ev_Epoch e)) @ le_bytes 4 (unat (ev_Sequence e)) @ le_bytes 8 (unat (ev_Sample e))
     @ le_bytes 4 (unat (ev_Record e)) @ le_bytes 4 (unat (ev_Value e)) @ le_bytes 4 (unat (ev_Count e))"

lemma MarshalTo_bytes:
  assumes "length b = 32" "validate_event e = None"
  shows "MarshalTo e b = Some (Inr (event_bytes e))"
  using assms by (simp add: MarshalTo_def DecodedEventBytes_def Put_defs put_def event_bytes_def)

lemma event_flags:
  assumes "ev_Channels e \<le> 3"
  shows "flag_byte e AND 3 = ev_Channels e"
    and "flag_byte e AND 4 \<noteq> 0 \<longleftrightarrow> ev_Valid e"
    and "flag_byte e AND 8 \<noteq> 0 \<longleftrightarrow> ev_RecordValid e"
    and "flag_byte e AND 0xf0 = 0"
proof -
  have "ev_Channels e \<in> {0, 1, 2, 3}"
    using assms by (simp add: word_le_nat_alt word_unat_eq_iff) linarith
  then show "flag_byte e AND 3 = ev_Channels e"
    and "flag_byte e AND 4 \<noteq> 0 \<longleftrightarrow> ev_Valid e"
    and "flag_byte e AND 8 \<noteq> 0 \<longleftrightarrow> ev_RecordValid e"
    and "flag_byte e AND 0xf0 = 0"
    by (cases "ev_Valid e"; cases "ev_RecordValid e"; auto simp: flag_byte_def Let_def)+
qed

lemma validate_channels: "validate_event e = None \<Longrightarrow> ev_Channels e \<le> 3"
  by (auto simp: validate_event_def not_less split: if_splits)

lemma parse_event_bytes:
  assumes v: "validate_event e = None"
  shows "ParseDecodedEvent (event_bytes e) = Some (Inr e)"
proof -
  note fl = event_flags [OF validate_channels [OF v]]
  have rd: "ByteAt (event_bytes e) (Suc 0) = Some (ev_Kind e)" "ByteAt (event_bytes e) 2 = Some (ev_Protocol e)"
    "ByteAt (event_bytes e) 3 = Some (flag_byte e)"
    "Uint32 (event_bytes e) 4 = Some (ev_Epoch e)" "Uint32 (event_bytes e) 8 = Some (ev_Sequence e)"
    "Uint64 (event_bytes e) 12 = Some (ev_Sample e)" "Uint32 (event_bytes e) 20 = Some (ev_Record e)"
    "Uint32 (event_bytes e) 24 = Some (ev_Value e)" "Uint32 (event_bytes e) 28 = Some (ev_Count e)"
    by (simp_all add: event_bytes_def Get_defs le_simps)
  have "length (event_bytes e) = 32" "event_bytes e ! 0 = 1" "event_bytes e ! 3 = flag_byte e"
    by (simp_all add: event_bytes_def)
  moreover have "\<lparr>ev_Epoch = ev_Epoch e, ev_Sequence = ev_Sequence e, ev_Sample = ev_Sample e,
      ev_Record = ev_Record e, ev_Value = ev_Value e, ev_Count = ev_Count e,
      ev_Protocol = ev_Protocol e, ev_Kind = ev_Kind e, ev_Channels = flag_byte e AND 3,
      ev_Valid = (flag_byte e AND 4 \<noteq> 0), ev_RecordValid = (flag_byte e AND 8 \<noteq> 0)\<rparr> = e"
    unfolding fl by simp
  ultimately show ?thesis
    using v fl(4) by (simp add: ParseDecodedEvent_def DecodedEventBytes_def rd Let_def)
qed

lemma ParseDecodedEvent_total: "ParseDecodedEvent b \<noteq> None"
  by (auto simp: ParseDecodedEvent_def DecodedEventBytes_def Get_defs Let_def split: option.splits)

lemma ParseDecodedEvent_validates: "ParseDecodedEvent b = Some (Inr e) \<Longrightarrow> validate_event e = None"
  by (auto simp: ParseDecodedEvent_def Let_def split: if_splits option.splits
      Option.bind_splits)

text \<open>
  C14: Marshalling an accepted event into any 32-byte buffer succeeds, and parsing the buffer gives
  the event back, field for field.
\<close>

theorem event_roundtrip:
  assumes "length b = DecodedEventBytes" and "validate_event e = None"
  shows "\<exists>b'. MarshalTo e b = Some (Inr b') \<and> length b' = DecodedEventBytes
    \<and> ParseDecodedEvent b' = Some (Inr e)"
  using assms MarshalTo_bytes [of b e] parse_event_bytes [of e]
  by (simp add: DecodedEventBytes_def event_bytes_def)

definition sample_event :: decoded_event where
  "sample_event = \<lparr>ev_Epoch = 7, ev_Sequence = 0x01020304, ev_Sample = 0x1122334455667788, ev_Record = 9,
     ev_Value = 0x41, ev_Count = 1, ev_Protocol = 2, ev_Kind = EventData, ev_Channels = 3,
     ev_Valid = True, ev_RecordValid = False\<rparr>"

lemma event_roundtrip_witness:
  "\<exists>b'. MarshalTo sample_event (replicate 32 0xff) = Some (Inr b') \<and> length b' = DecodedEventBytes
    \<and> ParseDecodedEvent b' = Some (Inr sample_event)"
proof (rule event_roundtrip)
  show "length (replicate 32 (0xff :: byte)) = DecodedEventBytes"
    by (simp add: DecodedEventBytes_def)
  show "validate_event sample_event = None"
    by (simp add: validate_event_def sample_event_def Event_kinds)
qed

text \<open>
  Parsing never panics, whatever bytes arrive and however many; a buffer of the wrong size, an
  unknown version or a reserved flag is a framing error; and an event it accepts passes the same
  validation a marshalled event does, so it can be marshalled again.
\<close>

theorem ParseDecodedEvent_safe:
  "\<exists>r. ParseDecodedEvent b = Some r
    \<and> (length b \<noteq> DecodedEventBytes \<longrightarrow> r = Inl InvalidFraming)
    \<and> (\<forall>e. r = Inr e \<longrightarrow> (\<forall>out. length out = DecodedEventBytes \<longrightarrow> (\<exists>b'. MarshalTo e out = Some (Inr b'))))"
proof -
  obtain r where r: "ParseDecodedEvent b = Some r"
    using ParseDecodedEvent_total [of b] by blast
  moreover have "length b \<noteq> DecodedEventBytes \<longrightarrow> r = Inl InvalidFraming"
    using r by (auto simp: ParseDecodedEvent_def)
  ultimately show ?thesis
    using ParseDecodedEvent_validates [of b] MarshalTo_bytes by (auto simp: DecodedEventBytes_def)
qed

lemma ParseDecodedEvent_safe_witness:
  "ParseDecodedEvent [1] = Some (Inl InvalidFraming)"
  using ParseDecodedEvent_safe [of "[1]"] by (auto simp: DecodedEventBytes_def)

end
