(* ===== verification/BoundedLog.thy ===== *)
theory BoundedLog
  imports Prelude
begin

text \<open>
  The contract of a bounded history with absolute indices, as the decoded-stream transcript keeps it:
  pushing never fails, keeps at most \<open>cap\<close> newest entries and counts what it dropped, so an absolute
  index names the same entry until that entry is dropped. The facts a client needs (what an index
  reads after a push, what a whole run of pushes leaves) are proved here once.
\<close>

locale bounded_log =
  fixes push :: "'t \<Rightarrow> 'l \<Rightarrow> 't option"
    and held :: "'t \<Rightarrow> 'l list"
    and base :: "'t \<Rightarrow> nat"
    and cap :: "'t \<Rightarrow> nat"
    and inv :: "'t \<Rightarrow> bool"
  assumes push_ok: "inv t \<Longrightarrow> \<exists>t'. push t l = Some t' \<and> inv t' \<and> cap t' = cap t
      \<and> held t' = drop (Suc (length (held t)) - cap t) (held t @ [l])
      \<and> base t' = base t + (Suc (length (held t)) - cap t)"
    and held_le_cap: "inv t \<Longrightarrow> length (held t) \<le> cap t"
    and cap_pos: "inv t \<Longrightarrow> 0 < cap t"
begin

definition entry :: "'t \<Rightarrow> nat \<Rightarrow> 'l option" where
  "entry t i = (if base t \<le> i \<and> i < base t + length (held t) then Some (held t ! (i - base t)) else None)"

definition log_next :: "'t \<Rightarrow> nat" where
  "log_next t = base t + length (held t)"

fun push_all :: "'t \<Rightarrow> 'l list \<Rightarrow> 't option" where
  "push_all t [] = Some t"
| "push_all t (l # ls) = Option.bind (push t l) (\<lambda>t'. push_all t' ls)"

lemma push_next: "inv t \<Longrightarrow> push t l = Some t' \<Longrightarrow> log_next t' = Suc (log_next t)"
  using push_ok [of t l] held_le_cap [of t] cap_pos [of t] by (auto simp: log_next_def)

lemma push_entry:
  assumes "inv t" "push t l = Some t'"
  shows "entry t' i = (if i = log_next t then Some l else if i < base t' then None else entry t i)"
proof -
  have p: "inv t'" "held t' = drop (Suc (length (held t)) - cap t) (held t @ [l])"
    "base t' = base t + (Suc (length (held t)) - cap t)"
    using push_ok [of t l] assms by auto
  have "length (held t) \<le> cap t" "0 < cap t"
    using held_le_cap cap_pos assms by auto
  then show ?thesis
    using p(2,3) by (auto simp: entry_def log_next_def nth_append)
qed

lemma push_keeps_entry:
  assumes "inv t" "push t l = Some t'" "entry t i = Some x" "base t' \<le> i"
  shows "entry t' i = Some x"
proof -
  have "i \<noteq> log_next t"
    using assms(3) by (auto simp: entry_def log_next_def split: if_splits)
  then show ?thesis
    using assms by (simp add: push_entry)
qed

lemma push_all_ok:
  "inv t \<Longrightarrow> \<exists>t'. push_all t ls = Some t' \<and> inv t' \<and> cap t' = cap t
     \<and> held t' = drop (length (held t) + length ls - cap t) (held t @ ls)
     \<and> base t' = base t + (length (held t) + length ls - cap t)"
proof (induction ls arbitrary: t)
  case Nil
  then show ?case using held_le_cap [of t] by simp
next
  case (Cons l ls)
  from push_ok [OF Cons.prems, of l] obtain t1 where t1: "push t l = Some t1" "inv t1" "cap t1 = cap t"
    "held t1 = drop (Suc (length (held t)) - cap t) (held t @ [l])"
    "base t1 = base t + (Suc (length (held t)) - cap t)"
    by blast
  from Cons.IH [OF t1(2)] obtain t' where t': "push_all t1 ls = Some t'" "inv t'" "cap t' = cap t"
    "held t' = drop (length (held t1) + length ls - cap t) (held t1 @ ls)"
    "base t' = base t1 + (length (held t1) + length ls - cap t)"
    using t1(3) by auto
  have le: "length (held t) \<le> cap t" "0 < cap t"
    using held_le_cap cap_pos Cons.prems by auto
  then have "held t' = drop (length (held t) + length (l # ls) - cap t) (held t @ l # ls)"
    unfolding t'(4) t1(4) by (cases "length (held t) = cap t") (auto simp: Suc_diff_le)
  moreover have "base t' = base t + (length (held t) + length (l # ls) - cap t)"
    using le unfolding t'(5) t1(4,5) by auto
  ultimately show ?case
    using t1(1) t'(1,2,3) by simp
qed

end

end
