(* ===== verification/Transcript.thy ===== *)
theory Transcript
  imports DecodedEvent BoundedLog
begin

text \<open>
  The decoded-stream transcript of \<open>decodedlines/lines.go\<close>: hexdump lines built from decoded events
  (\<open>Add\<close>, \<open>slot\<close>, \<open>Flush\<close>), kept in a ring whose absolute line indices survive the wrap (\<open>push\<close>,
  \<open>At\<close>, \<open>Base\<close>, \<open>Next\<close>), appended to from another builder's lines (\<open>Append\<close>) and searched for the
  trigger (\<open>TriggerLine\<close>). A Go index panic is \<^term>\<open>None\<close>. The counters that Go declares \<open>uint64\<close> wrap;
  its \<open>int\<close> line counts are natural numbers here, and the conversion \<open>int(uint32)\<close> is the signed
  one of the 32-bit ARM the program runs on.
\<close>

section \<open>Lines and the transcript\<close>

record tline =
  ln_Sample :: u64
  ln_Vals :: "u32 list"
  ln_N :: byte
  ln_Errs :: u16
  ln_Naks :: u16
  ln_Note :: string

definition zero_line :: tline where
  "zero_line = \<lparr>ln_Sample = 0, ln_Vals = replicate 16 0, ln_N = 0, ln_Errs = 0, ln_Naks = 0, ln_Note = []\<rparr>"

record counters =
  ct_Events :: u64
  ct_Units :: u64
  ct_Lost :: u64
  ct_Errors :: u64

record transcript =
  tr_proto :: int
  tr_perLine :: nat
  tr_hexDigits :: nat
  tr_ascii :: bool
  tr_capacity :: nat
  tr_lines :: "tline list"
  tr_head :: nat
  tr_dropped :: nat
  tr_cur :: tline
  tr_first :: u64
  tr_haveFirst :: bool
  tr_counters :: counters
  tr_trig :: u64
  tr_recFirst :: u64
  tr_recLast :: u64
  tr_marked :: bool
  tr_triggerHint :: bool
  tr_Cut :: u64
  tr_lineUnits :: int

definition zero_counters :: counters where
  "zero_counters = \<lparr>ct_Events = 0, ct_Units = 0, ct_Lost = 0, ct_Errors = 0\<rparr>"

definition Reset :: "transcript \<Rightarrow> int \<Rightarrow> transcript" where
  "Reset t proto =
     (let (per, dig, asc) =
        (if proto = 5 then (16, 1, False)
         else if proto = 7 then (8, 4, False)
         else if proto = 8 then (4, 8, False)
         else if proto = 29 \<or> proto = 30 then (8, 4, False)
         else if proto = 26 then (4, 6, False)
         else if proto = 28 \<or> proto = 49 then (4, 8, False)
         else if proto = 52 then (8, 4, False)
         else if proto = 31 \<or> proto = 32 \<or> proto = 35 then (16, 1, False)
         else (16, 2, True))
      in \<lparr>tr_proto = proto, tr_perLine = per, tr_hexDigits = dig, tr_ascii = asc,
          tr_capacity = tr_capacity t, tr_lines = [], tr_head = 0, tr_dropped = 0, tr_cur = zero_line,
          tr_first = 0, tr_haveFirst = False, tr_counters = zero_counters, tr_trig = 0, tr_recFirst = 0,
          tr_recLast = 0, tr_marked = False, tr_triggerHint = False, tr_Cut = 0, tr_lineUnits = 0\<rparr>)"

definition NewTranscript :: "int \<Rightarrow> int \<Rightarrow> transcript" where
  "NewTranscript proto capacity =
     Reset \<lparr>tr_proto = 0, tr_perLine = 0, tr_hexDigits = 0, tr_ascii = False,
          tr_capacity = nat (max capacity 1), tr_lines = [], tr_head = 0, tr_dropped = 0, tr_cur = zero_line,
          tr_first = 0, tr_haveFirst = False, tr_counters = zero_counters, tr_trig = 0, tr_recFirst = 0,
          tr_recLast = 0, tr_marked = False, tr_triggerHint = False, tr_Cut = 0, tr_lineUnits = 0\<rparr> proto"

definition HistorySamples :: u64 where "HistorySamples = 524288"

definition startNotes :: "string list" where
  "startNotes = ['''', ''LDR'', ''REP'', ''SIRC'', ''RC5'', ''RC6'', ''RST'', ''START'', ''SOF'', ''BRK'',
     ''B'', ''SOP'', ''SOP'' @ [CHR 0x27], ''SOP'' @ [CHR 0x22], ''SOP'' @ [CHR 0x27] @ ''D'',
     ''SOP'' @ [CHR 0x22] @ ''D'', ''HRST'', ''CRST'', ''MATSUSH'', ''KASEIKYO'', ''SAMSUNG'', ''DENON'',
     ''SAMSG32'', ''JVC'', ''NEC16'', ''NEC42'']"

definition usbPIDs :: "u32 \<Rightarrow> string option" where
  "usbPIDs = map_of [(0xE1, ''OUT''), (0x69, ''IN''), (0xA5, ''SOF''), (0x2D, ''SETUP''),
     (0xC3, ''DATA0''), (0x4B, ''DATA1''), (0x87, ''DATA2''), (0x0F, ''MDATA''), (0xD2, ''ACK''),
     (0x5A, ''NAK''), (0x1E, ''STALL''), (0x96, ''NYET''), (0x3C, ''PRE'')]"

text \<open>\<open>strconv.FormatUint(v, 16)\<close> followed by \<open>strings.ToUpper\<close>: upper-case hex without padding.\<close>

fun hex_str :: "nat \<Rightarrow> string" where
  "hex_str n = (if n < 16 then [hex_digit n] else hex_str (n div 16) @ [hex_digit n])"

declare hex_str.simps [simp del]

lemma hex_str_code [code]: "hex_str n = (if n < 16 then [hex_digit n] else hex_str (n div 16) @ [hex_digit n])"
  by (rule hex_str.simps)

definition canNote :: "u32 \<Rightarrow> string" where
  "canNote v =
     (let n = hex_str (unat (v AND 0x1fffffff));
          n = (if v AND push_bit 29 1 \<noteq> 0 then ''X'' @ n else n);
          n = (if v AND push_bit 30 1 \<noteq> 0 then n @ '' FD'' else n);
          n = (if v AND push_bit 31 1 \<noteq> 0 then n @ '' RTR'' else n)
      in n)"

fun note_code_from :: "nat \<Rightarrow> string list \<Rightarrow> string \<Rightarrow> u32" where
  "note_code_from i [] text = 0"
| "note_code_from i (s # ss) text =
     (if 0 < i \<and> s = text then word_of_nat i else note_code_from (Suc i) ss text)"

definition StartNoteCode :: "string \<Rightarrow> u32" where
  "StartNoteCode text = note_code_from 0 startNotes text"

lemma length_startNotes: "length startNotes = 26"
  by (simp add: startNotes_def)

section \<open>The ring\<close>

definition tCount :: "transcript \<Rightarrow> nat" where "tCount t = length (tr_lines t)"
definition tBase :: "transcript \<Rightarrow> nat" where "tBase t = tr_dropped t"
definition tNext :: "transcript \<Rightarrow> nat" where "tNext t = tr_dropped t + length (tr_lines t)"

definition tAt :: "transcript \<Rightarrow> nat \<Rightarrow> tline option" where
  "tAt t i = (if tr_lines t = [] then None
     else Some (tr_lines t ! ((tr_head t + i) mod length (tr_lines t))))"

definition OnesCount16 :: "u16 \<Rightarrow> nat" where
  "OnesCount16 w = length (filter (bit w) [0..<16])"

definition line_units :: "tline \<Rightarrow> int" where
  "line_units l = int (unat (ln_N l)) - int (OnesCount16 (ln_Errs l))"

definition push :: "transcript \<Rightarrow> tline \<Rightarrow> transcript option" where
  "push t l =
     (let t = t\<lparr>tr_lineUnits := tr_lineUnits t + line_units l\<rparr> in
      if length (tr_lines t) < tr_capacity t
      then Some (t\<lparr>tr_lines := tr_lines t @ [l]\<rparr>)
      else if tr_head t < length (tr_lines t)
      then Some (t\<lparr>tr_lines := (tr_lines t)[tr_head t := l],
                   tr_head := (tr_head t + 1) mod length (tr_lines t),
                   tr_dropped := tr_dropped t + 1\<rparr>)
      else None)"

definition Flush :: "transcript \<Rightarrow> transcript option" where
  "Flush t =
     (if ln_N (tr_cur t) = 0 \<and> ln_Note (tr_cur t) = [] then Some t
      else do { t \<leftarrow> push t (tr_cur t); Some (t\<lparr>tr_cur := zero_line\<rparr>) })"

definition Pending :: "transcript \<Rightarrow> bool" where
  "Pending t \<longleftrightarrow> 0 < ln_N (tr_cur t) \<or> ln_Note (tr_cur t) \<noteq> []"

definition TakeTriggerHint :: "transcript \<Rightarrow> bool \<times> transcript" where
  "TakeTriggerHint t = (tr_triggerHint t, t\<lparr>tr_triggerHint := False\<rparr>)"

definition SetCounters :: "transcript \<Rightarrow> counters \<Rightarrow> transcript" where
  "SetCounters t c = t\<lparr>tr_counters := c\<rparr>"

definition Mark :: "transcript \<Rightarrow> u64 \<Rightarrow> u64 \<Rightarrow> u64 \<Rightarrow> transcript" where
  "Mark t trig fst_s lst_s = t\<lparr>tr_trig := trig, tr_recFirst := fst_s, tr_recLast := lst_s, tr_marked := True\<rparr>"

section \<open>Building lines from events\<close>

definition set_cur :: "transcript \<Rightarrow> u64 \<Rightarrow> string \<Rightarrow> transcript" where
  "set_cur t sample note = t\<lparr>tr_cur := (tr_cur t)\<lparr>ln_Sample := sample, ln_Note := note\<rparr>\<rparr>"

definition slot :: "transcript \<Rightarrow> u64 \<Rightarrow> u32 \<Rightarrow> bool \<Rightarrow> transcript option" where
  "slot t sample v isErr =
     (let c = tr_cur t;
          c = (if ln_N c = 0 \<and> ln_Note c = [] then c\<lparr>ln_Sample := sample\<rparr> else c);
          c = (if isErr then c\<lparr>ln_Errs := ln_Errs c OR push_bit (unat (ln_N c)) 1\<rparr> else c)
      in if unat (ln_N c) < length (ln_Vals c)
         then let c = c\<lparr>ln_Vals := (ln_Vals c)[unat (ln_N c) := v]\<rparr>;
                  c = c\<lparr>ln_N := ln_N c + 1\<rparr>;
                  t = t\<lparr>tr_cur := c\<rparr>
              in if tr_perLine t \<le> unat (ln_N c) then Flush t else Some t
         else None)"

text \<open>The branches of \<open>Add\<close>'s switch, one definition each.\<close>

definition add_start :: "transcript \<Rightarrow> decoded_event \<Rightarrow> transcript option" where
  "add_start t e = do {
     t \<leftarrow> Flush t;
     let t = (case usbPIDs (ev_Value e AND 0xff) of
                Some name \<Rightarrow> if tr_proto t = 9 then set_cur t (ev_Sample e) name else t
              | None \<Rightarrow> t);
     if 10 < tr_proto t \<and> 0 < ev_Value e \<and> sint (ev_Value e) < int (length startNotes)
     then (if unat (ev_Value e) < length startNotes
           then Some (set_cur t (ev_Sample e) (startNotes ! unat (ev_Value e)))
           else None)
     else Some t
   }"

definition add_data :: "transcript \<Rightarrow> decoded_event \<Rightarrow> transcript option" where
  "add_data t e =
     (let t = t\<lparr>tr_counters := (tr_counters t)\<lparr>ct_Units := ct_Units (tr_counters t) + 1\<rparr>\<rparr> in
      if tr_proto t = 2 \<and> ev_Count e AND 1 \<noteq> 0
      then do {
        t \<leftarrow> Flush t;
        let rw = (if ev_Value e AND 1 \<noteq> 0 then ''R'' else ''W'');
        let note = ''@'' @ hex2 (unat (drop_bit 1 (ev_Value e) AND 0x7f)) @ rw;
        let note = (if ev_Count e AND 2 \<noteq> 0 then note @ ''!'' else note);
        Some (set_cur t (ev_Sample e) note)
      }
      else
        let t = (if tr_proto t = 2 \<and> ev_Count e AND 2 \<noteq> 0
                 then t\<lparr>tr_cur := (tr_cur t)\<lparr>ln_Naks := ln_Naks (tr_cur t) OR push_bit (unat (ln_N (tr_cur t))) 1\<rparr>\<rparr>
                 else t)
        in slot t (ev_Sample e) (ev_Value e) False)"

definition add_end :: "transcript \<Rightarrow> decoded_event \<Rightarrow> transcript option" where
  "add_end t e =
     (let t = (if tr_proto t = 6 \<and> ln_Note (tr_cur t) = []
               then t\<lparr>tr_cur := (tr_cur t)\<lparr>ln_Note := canNote (ev_Value e),
                        ln_Sample := (if ln_N (tr_cur t) = 0 then ev_Sample e else ln_Sample (tr_cur t))\<rparr>\<rparr>
               else t)
      in Flush t)"

definition add_error :: "transcript \<Rightarrow> decoded_event \<Rightarrow> transcript option" where
  "add_error t e =
     (if (tr_proto t \<le> 10 \<or> tr_proto t = 13) \<and> ev_Sample e < tr_first t + HistorySamples
      then Some (t\<lparr>tr_Cut := tr_Cut t + 1\<rparr>)
      else
        let t = t\<lparr>tr_counters := (tr_counters t)\<lparr>ct_Errors := ct_Errors (tr_counters t) + 1\<rparr>\<rparr> in
        if tr_proto t \<le> 10 \<and> ln_N (tr_cur t) = 0 \<and> ln_Note (tr_cur t) \<noteq> []
        then Flush (t\<lparr>tr_cur := (tr_cur t)\<lparr>ln_Note := ln_Note (tr_cur t) @ ''!''\<rparr>\<rparr>)
        else slot t (ev_Sample e) 0 True)"

definition add_loss :: "transcript \<Rightarrow> decoded_event \<Rightarrow> transcript option" where
  "add_loss t e = do {
     let t = t\<lparr>tr_counters := (tr_counters t)\<lparr>ct_Lost := ct_Lost (tr_counters t) + word_of_nat (unat (ev_Count e))\<rparr>\<rparr>;
     t \<leftarrow> Flush t;
     Flush (set_cur t (ev_Sample e) (''LOST '' @ dec_str (unat (ev_Count e))))
   }"

definition add_event :: "transcript \<Rightarrow> decoded_event \<Rightarrow> transcript option" where
  "add_event t e =
     (let t = t\<lparr>tr_counters := (tr_counters t)\<lparr>ct_Events := ct_Events (tr_counters t) + 1\<rparr>\<rparr>;
          t = (if ev_Kind e \<noteq> EventLoss \<and> \<not> tr_haveFirst t
               then t\<lparr>tr_first := ev_Sample e, tr_haveFirst := True\<rparr> else t)
      in if ev_Kind e = EventStart then add_start t e
         else if ev_Kind e = EventData then add_data t e
         else if ev_Kind e = EventEnd then add_end t e
         else if ev_Kind e = EventError then add_error t e
         else if ev_Kind e = EventTrigger \<or> ev_Kind e = EventRetained then Some (t\<lparr>tr_triggerHint := True\<rparr>)
         else if ev_Kind e = EventLoss then add_loss t e
         else Some t)"

fun Add :: "transcript \<Rightarrow> decoded_event list \<Rightarrow> transcript option" where
  "Add t [] = Some t"
| "Add t (e # es) = Option.bind (add_event t e) (\<lambda>t'. Add t' es)"

section \<open>Appending another builder's lines\<close>

text \<open>The gap loop runs \<open>index - Next\<close> times, since each push advances \<open>Next\<close> by one.\<close>

fun push_gaps :: "nat \<Rightarrow> transcript \<Rightarrow> u64 \<Rightarrow> transcript option" where
  "push_gaps 0 t sample = Some t"
| "push_gaps (Suc n) t sample =
     Option.bind (push t (zero_line\<lparr>ln_Sample := sample, ln_Note := ''GAP''\<rparr>)) (\<lambda>t. push_gaps n t sample)"

definition Append :: "transcript \<Rightarrow> int \<Rightarrow> tline \<Rightarrow> transcript option" where
  "Append t index l =
     (if index < int (tNext t) then Some t
      else
        let i = nat index;
            t = (if tr_lines t = [] \<or> tr_capacity t \<le> i - tNext t
                 then t\<lparr>tr_lines := [], tr_head := 0, tr_dropped := i\<rparr> else t)
        in do {
          t \<leftarrow> push_gaps (i - tNext t) t (ln_Sample l);
          let t = (if \<not> tr_haveFirst t then t\<lparr>tr_first := ln_Sample l, tr_haveFirst := True\<rparr> else t);
          push t l
        })"

section \<open>The trigger's line\<close>

text \<open>\<open>TriggerLine\<close>'s binary search over held positions \<open>lo..hi\<close>.\<close>

function trig_search :: "transcript \<Rightarrow> nat \<Rightarrow> nat \<Rightarrow> nat option" where
  "trig_search t lo hi =
     (if lo < hi
      then let mid = (lo + hi + 1) div 2 in
           do { l \<leftarrow> tAt t mid;
                if ln_Sample l \<le> tr_trig t then trig_search t mid hi else trig_search t lo (mid - 1) }
      else Some lo)"
  by pat_completeness auto
termination
  by (relation "measure (\<lambda>(t, lo, hi). hi - lo)") auto

declare trig_search.simps [simp del]

definition TriggerLine :: "transcript \<Rightarrow> int option" where
  "TriggerLine t =
     (if \<not> tr_marked t \<or> tr_lines t = [] then Some (-1)
      else do {
        l \<leftarrow> tAt t 0;
        if tr_trig t < ln_Sample l then Some (-1)
        else map_option int (trig_search t 0 (length (tr_lines t) - 1))
      })"

section \<open>The ring implements the bounded log\<close>

definition held :: "transcript \<Rightarrow> tline list" where
  "held t = rotate (tr_head t) (tr_lines t)"

definition wf_ring :: "transcript \<Rightarrow> bool" where
  "wf_ring t \<longleftrightarrow> 0 < tr_capacity t \<and> length (tr_lines t) \<le> tr_capacity t
     \<and> (length (tr_lines t) < tr_capacity t \<longrightarrow> tr_head t = 0)
     \<and> (tr_lines t \<noteq> [] \<longrightarrow> tr_head t < length (tr_lines t))"

lemma length_held [simp]: "length (held t) = length (tr_lines t)"
  by (simp add: held_def)

lemma tAt_held: "i < length (tr_lines t) \<Longrightarrow> tAt t i = Some (held t ! i)"
  by (auto simp: tAt_def held_def nth_rotate)

text \<open>Overwriting the oldest entry and moving the head on is dropping it and appending.\<close>

lemma rotate_overwrite:
  assumes "h < length xs"
  shows "rotate (Suc h mod length xs) (xs[h := l]) = tl (rotate h xs) @ [l]"
proof (rule nth_equalityI)
  show len: "length (rotate (Suc h mod length xs) (xs[h := l])) = length (tl (rotate h xs) @ [l])"
    using assms by auto
  fix i assume i: "i < length (rotate (Suc h mod length xs) (xs[h := l]))"
  let ?n = "length xs"
  have idx: "rotate (Suc h mod ?n) (xs[h := l]) ! i = xs[h := l] ! ((Suc h + i) mod ?n)"
    using i by (simp add: nth_rotate mod_add_left_eq)
  show "rotate (Suc h mod ?n) (xs[h := l]) ! i = (tl (rotate h xs) @ [l]) ! i"
  proof (cases "Suc i = ?n")
    case True
    then have "Suc h + i = h + ?n" by simp
    then have e: "(Suc h + i) mod ?n = h" using assms by (simp only: mod_add_self2 mod_less)
    have "\<not> i < length (tl (rotate h xs))" "i - length (tl (rotate h xs)) = 0"
      using True by auto
    then show ?thesis
      using assms unfolding idx e by (simp add: nth_append)
  next
    case False
    then have lt: "Suc i < ?n" using i by simp
    have ne: "(Suc h + i) mod ?n \<noteq> h"
    proof
      assume "(Suc h + i) mod ?n = h"
      then show False
        using assms lt by (cases "Suc h + i < ?n") (auto simp: mod_if split: if_splits)
    qed
    have "i < length (tl (rotate h xs))"
      using lt by simp
    then have "(tl (rotate h xs) @ [l]) ! i = rotate h xs ! Suc i"
      by (simp only: nth_append nth_tl if_True)
    also have "\<dots> = xs ! ((h + Suc i) mod ?n)"
      using lt by (simp add: nth_rotate)
    finally show ?thesis
      using ne unfolding idx by (simp add: nth_list_update)
  qed
qed

interpretation tlog: bounded_log push held tBase tr_capacity wf_ring
proof unfold_locales
  fix t l assume w: "wf_ring t"
  show "\<exists>t'. push t l = Some t' \<and> wf_ring t' \<and> tr_capacity t' = tr_capacity t
      \<and> held t' = drop (Suc (length (held t)) - tr_capacity t) (held t @ [l])
      \<and> tBase t' = tBase t + (Suc (length (held t)) - tr_capacity t)"
  proof (cases "length (tr_lines t) < tr_capacity t")
    case True
    then show ?thesis
      using w by (auto simp: push_def wf_ring_def held_def tBase_def Let_def)
  next
    case False
    then have h: "tr_head t < length (tr_lines t)" "length (tr_lines t) = tr_capacity t"
      using w by (auto simp: wf_ring_def)
    note over = rotate_overwrite [OF h(1), of l, unfolded h(2)]
    show ?thesis
      using w h False by (auto simp: push_def wf_ring_def held_def tBase_def Let_def over drop_Suc tl_append split: list.splits)
  qed
next
  fix t assume "wf_ring t"
  then show "length (held t) \<le> tr_capacity t" "0 < tr_capacity t"
    by (auto simp: wf_ring_def)
qed


section \<open>Well-formed transcripts\<close>

definition wf_cur :: "transcript \<Rightarrow> bool" where
  "wf_cur t \<longleftrightarrow> 0 < tr_perLine t \<and> tr_perLine t \<le> 16 \<and> unat (ln_N (tr_cur t)) < tr_perLine t
     \<and> length (ln_Vals (tr_cur t)) = 16 \<and> (\<forall>n. bit (ln_Errs (tr_cur t)) n \<longrightarrow> n < unat (ln_N (tr_cur t)))"

definition wf_t :: "transcript \<Rightarrow> bool" where
  "wf_t t \<longleftrightarrow> wf_ring t \<and> wf_cur t"

text \<open>Units placed in lines, the line being built included.\<close>

definition placed_units :: "transcript \<Rightarrow> int" where
  "placed_units t = tr_lineUnits t + line_units (tr_cur t)"

text \<open>The fields a push leaves alone.\<close>

definition tctx :: "transcript \<Rightarrow> int \<times> nat \<times> counters \<times> u64 \<times> bool" where
  "tctx t = (tr_proto t, tr_perLine t, tr_counters t, tr_first t, tr_haveFirst t)"

lemma wf_updates [simp]:
  "wf_t (t\<lparr>tr_counters := c\<rparr>) = wf_t t" "wf_t (t\<lparr>tr_first := f\<rparr>) = wf_t t" "wf_t (t\<lparr>tr_haveFirst := b\<rparr>) = wf_t t"
  "wf_t (t\<lparr>tr_triggerHint := b\<rparr>) = wf_t t" "wf_t (t\<lparr>tr_Cut := k\<rparr>) = wf_t t"
  by (simp_all add: wf_t_def wf_ring_def wf_cur_def)

lemma placed_updates [simp]:
  "placed_units (t\<lparr>tr_counters := c\<rparr>) = placed_units t" "placed_units (t\<lparr>tr_first := f\<rparr>) = placed_units t"
  "placed_units (t\<lparr>tr_haveFirst := b\<rparr>) = placed_units t"
  "placed_units (t\<lparr>tr_triggerHint := b\<rparr>) = placed_units t" "placed_units (t\<lparr>tr_Cut := k\<rparr>) = placed_units t"
  by (simp_all add: placed_units_def)

lemma OnesCount16_0 [simp]: "OnesCount16 0 = 0"
  by (simp add: OnesCount16_def)

lemma OnesCount16_set:
  assumes "n < 16" "\<not> bit w n"
  shows "OnesCount16 (w OR push_bit n 1) = Suc (OnesCount16 w)"
proof -
  have b: "bit (w OR push_bit n 1) i = (i = n \<or> bit w i)" if "i < 16" for i
    using that assms(1) by (auto simp: bit_or_iff bit_exp_iff)
  have "filter (bit (w OR push_bit n 1)) [0..<16] = filter (\<lambda>i. i = n \<or> bit w i) [0..<16]"
    by (rule filter_cong [OF refl]) (rule b, simp)
  then have "OnesCount16 (w OR push_bit n 1) = card {i. i < 16 \<and> (i = n \<or> bit w i)}"
    by (simp add: OnesCount16_def length_filter_conv_card atLeast0LessThan conj_commute cong: conj_cong)
  also have "{i. i < 16 \<and> (i = n \<or> bit w i)} = insert n {i. i < 16 \<and> bit w i}"
    using assms(1) by auto
  also have "card \<dots> = Suc (card {i. i < 16 \<and> bit w i})"
    using assms(2) by simp
  also have "card {i. i < 16 \<and> bit w i} = OnesCount16 w"
    by (simp add: OnesCount16_def length_filter_conv_card atLeast0LessThan conj_commute cong: conj_cong)
  finally show ?thesis .
qed

lemma zero_line_units [simp]: "line_units zero_line = 0"
  by (simp add: line_units_def zero_line_def)

lemma push_frame:
  assumes "push t l = Some t'"
  shows "tr_cur t' = tr_cur t" "tctx t' = tctx t" "tr_lineUnits t' = tr_lineUnits t + line_units l"
  using assms by (auto simp: push_def tctx_def Let_def split: if_splits)

lemma wf_NewTranscript: "wf_t (NewTranscript p c)"
  by (auto simp: NewTranscript_def Reset_def wf_t_def wf_ring_def wf_cur_def zero_line_def Let_def)

lemma Flush_ok:
  assumes "wf_ring t" "tr_perLine t \<in> {1..16}" "length (ln_Vals (tr_cur t)) = 16"
    and "\<forall>n. bit (ln_Errs (tr_cur t)) n \<longrightarrow> n < unat (ln_N (tr_cur t))"
  obtains t' where "Flush t = Some t'" "wf_t t'" "placed_units t' = placed_units t" "tctx t' = tctx t"
    "ln_N (tr_cur t') = 0"
proof (cases "ln_N (tr_cur t) = 0 \<and> ln_Note (tr_cur t) = []")
  case True
  then show ?thesis
    using assms that [of t] by (auto simp: Flush_def wf_t_def wf_cur_def)
next
  case False
  obtain t1 where t1: "push t (tr_cur t) = Some t1" "wf_ring t1"
    using tlog.push_ok [OF assms(1)] by blast
  note fr = push_frame [OF t1(1)]
  have "Flush t = Some (t1\<lparr>tr_cur := zero_line\<rparr>)"
    using False t1(1) by (auto simp: Flush_def)
  moreover have "wf_t (t1\<lparr>tr_cur := zero_line\<rparr>)"
    using t1(2) fr(2) assms(2) by (auto simp: wf_t_def wf_ring_def wf_cur_def zero_line_def tctx_def)
  moreover have "placed_units (t1\<lparr>tr_cur := zero_line\<rparr>) = placed_units t"
    using fr(3) by (simp add: placed_units_def)
  moreover have "tctx (t1\<lparr>tr_cur := zero_line\<rparr>) = tctx t"
    using fr(2) by (simp add: tctx_def)
  moreover have "ln_N (tr_cur (t1\<lparr>tr_cur := zero_line\<rparr>)) = 0"
    by (simp add: zero_line_def)
  ultimately show ?thesis by (rule that)
qed

lemma wf_Flush:
  assumes "wf_t t"
  obtains t' where "Flush t = Some t'" "wf_t t'" "placed_units t' = placed_units t" "tctx t' = tctx t"
    "ln_N (tr_cur t') = 0"
  using assms by (auto simp: wf_t_def wf_cur_def intro: Flush_ok [of t])

lemma wf_set_cur: "wf_t t \<Longrightarrow> wf_t (set_cur t s n)"
  and placed_set_cur [simp]: "placed_units (set_cur t s n) = placed_units t"
  and tctx_set_cur [simp]: "tctx (set_cur t s n) = tctx t"
  by (auto simp: wf_t_def wf_ring_def wf_cur_def set_cur_def placed_units_def line_units_def tctx_def)

lemma set_cur_fields [simp]:
  "tr_proto (set_cur t s n) = tr_proto t" "tr_first (set_cur t s n) = tr_first t"
  "tr_counters (set_cur t s n) = tr_counters t"
  by (simp_all add: set_cur_def)

lemma wf_slot:
  assumes "wf_t t"
  obtains t' where "slot t s v isErr = Some t'" "wf_t t'"
    "placed_units t' = placed_units t + (if isErr then 0 else 1)" "tctx t' = tctx t"
proof -
  define c where "c = (if ln_N (tr_cur t) = 0 \<and> ln_Note (tr_cur t) = []
      then (tr_cur t)\<lparr>ln_Sample := s\<rparr> else tr_cur t)"
  define c1 where "c1 = (if isErr then c\<lparr>ln_Errs := ln_Errs c OR push_bit (unat (ln_N c)) 1\<rparr> else c)"
  define c2 where "c2 = c1\<lparr>ln_Vals := (ln_Vals c1)[unat (ln_N c1) := v], ln_N := ln_N c1 + 1\<rparr>"
  have w: "wf_ring t" "0 < tr_perLine t" "tr_perLine t \<le> 16" "unat (ln_N (tr_cur t)) < tr_perLine t"
    "length (ln_Vals (tr_cur t)) = 16" "\<forall>n. bit (ln_Errs (tr_cur t)) n \<longrightarrow> n < unat (ln_N (tr_cur t))"
    using assms by (auto simp: wf_t_def wf_cur_def)
  have c1: "ln_N c1 = ln_N (tr_cur t)" "ln_Vals c1 = ln_Vals (tr_cur t)"
    "ln_Errs c1 = (if isErr then ln_Errs (tr_cur t) OR push_bit (unat (ln_N (tr_cur t))) 1 else ln_Errs (tr_cur t))"
    by (auto simp: c1_def c_def)
  have N1: "unat (ln_N (tr_cur t) + 1) = Suc (unat (ln_N (tr_cur t)))"
    using w(3,4) by (simp add: unat_word_ariths)
  have c2: "unat (ln_N c2) = Suc (unat (ln_N (tr_cur t)))" "length (ln_Vals c2) = 16"
    "\<forall>n. bit (ln_Errs c2) n \<longrightarrow> n < unat (ln_N c2)"
    using w N1 by (auto simp: c2_def c1 bit_or_iff bit_exp_iff less_Suc_eq)
  have u: "line_units c2 = line_units (tr_cur t) + (if isErr then 0 else 1)"
  proof -
    have "\<not> bit (ln_Errs (tr_cur t)) (unat (ln_N (tr_cur t)))" "unat (ln_N (tr_cur t)) < 16"
      using w(3,4,6) by auto
    from OnesCount16_set [OF this(2,1)] show ?thesis
      using N1 by (auto simp: line_units_def c2_def c1)
  qed
  let ?t = "t\<lparr>tr_cur := c2\<rparr>"
  have st: "slot t s v isErr = (if tr_perLine t \<le> unat (ln_N c2) then Flush ?t else Some ?t)"
    unfolding slot_def Let_def unfolding c_def [symmetric] unfolding c1_def [symmetric]
    using w(3,4,5) by (simp add: c1 c2_def)
  have pu: "placed_units ?t = placed_units t + (if isErr then 0 else 1)" "tctx ?t = tctx t" "wf_ring ?t"
    using u w(1) by (simp_all add: placed_units_def tctx_def wf_ring_def)
  show ?thesis
  proof (cases "tr_perLine t \<le> unat (ln_N c2)")
    case True
    then show ?thesis
      using Flush_ok [of ?t] pu w c2 st that by auto
  next
    case False
    then show ?thesis
      using that [of ?t] pu w c2 st by (simp add: wf_t_def wf_cur_def)
  qed
qed


section \<open>What \<open>Add\<close> keeps\<close>

text \<open>
  On the 32-bit target \<open>int(e.Value)\<close> of a value from 2^31 on is negative, passes the bound check
  against the note table and the table read panics; \<open>start_safe\<close> excludes it.
\<close>

definition start_safe :: "int \<Rightarrow> decoded_event \<Rightarrow> bool" where
  "start_safe p e \<longleftrightarrow> (10 < p \<and> ev_Kind e = EventStart \<longrightarrow> 0 \<le> sint (ev_Value e))"

text \<open>A data event that becomes a unit of a line: not an I2C address byte, which becomes a note.\<close>

definition is_unit :: "int \<Rightarrow> decoded_event \<Rightarrow> bool" where
  "is_unit p e \<longleftrightarrow> ev_Kind e = EventData \<and> \<not> (p = 2 \<and> ev_Count e AND 1 \<noteq> 0)"

lemma add_start_ok:
  assumes "wf_t t" "10 < tr_proto t \<Longrightarrow> 0 \<le> sint (ev_Value e)"
  shows "\<exists>t'. add_start t e = Some t' \<and> wf_t t' \<and> tctx t' = tctx t \<and> placed_units t' = placed_units t"
proof -
  obtain t1 where t1: "Flush t = Some t1" "wf_t t1" "placed_units t1 = placed_units t" "tctx t1 = tctx t"
    using wf_Flush [OF assms(1)] by blast
  define t2 where "t2 = (case usbPIDs (ev_Value e AND 0xff) of
      Some name \<Rightarrow> if tr_proto t1 = 9 then set_cur t1 (ev_Sample e) name else t1 | None \<Rightarrow> t1)"
  have t2: "wf_t t2" "placed_units t2 = placed_units t" "tctx t2 = tctx t"
    using t1 by (auto simp: t2_def wf_set_cur split: option.splits)
  have p: "tr_proto t2 = tr_proto t"
    using t2(3) by (simp add: tctx_def)
  have v: "unat (ev_Value e) < length startNotes"
    if "10 < tr_proto t" "sint (ev_Value e) < int (length startNotes)"
  proof -
    have "uint (ev_Value e) = sint (ev_Value e)"
      using assms(2) that(1) by (intro uint_eq_sint_u32)
    then show ?thesis using that(2) by (simp add: unat_eq_nat_uint nat_less_iff startNotes_def)
  qed
  show ?thesis
    using t2 p v by (auto simp: add_start_def t1(1) Let_def t2_def [symmetric] wf_set_cur)
qed


lemma add_data_ok:
  assumes "wf_t t" "ev_Kind e = EventData"
  shows "\<exists>t'. add_data t e = Some t' \<and> wf_t t' \<and> tr_proto t' = tr_proto t \<and> tr_first t' = tr_first t
      \<and> placed_units t' = placed_units t + of_bool (is_unit (tr_proto t) e)
      \<and> tr_counters t' = (tr_counters t)\<lparr>ct_Units := ct_Units (tr_counters t) + 1\<rparr>"
proof -
  define t0 where "t0 = t\<lparr>tr_counters := (tr_counters t)\<lparr>ct_Units := ct_Units (tr_counters t) + 1\<rparr>\<rparr>"
  have t0: "wf_t t0" "placed_units t0 = placed_units t" "tr_proto t0 = tr_proto t" "tr_first t0 = tr_first t"
    "tr_counters t0 = (tr_counters t)\<lparr>ct_Units := ct_Units (tr_counters t) + 1\<rparr>"
    using assms by (simp_all add: t0_def)
  show ?thesis
  proof (cases "tr_proto t = 2 \<and> ev_Count e AND 1 \<noteq> 0")
    case True
    obtain t1 where "Flush t0 = Some t1" "wf_t t1" "placed_units t1 = placed_units t0" "tctx t1 = tctx t0"
      using wf_Flush [OF t0(1)] by blast
    then show ?thesis
      using True t0 assms(2) unfolding add_data_def t0_def [symmetric] Let_def
      by (auto simp: is_unit_def tctx_def wf_set_cur)
  next
    case False
    define t1 where "t1 = (if tr_proto t0 = 2 \<and> ev_Count e AND 2 \<noteq> 0
        then t0\<lparr>tr_cur := (tr_cur t0)\<lparr>ln_Naks := ln_Naks (tr_cur t0) OR push_bit (unat (ln_N (tr_cur t0))) 1\<rparr>\<rparr>
        else t0)"
    have t1: "wf_t t1" "placed_units t1 = placed_units t0" "tctx t1 = tctx t0"
      using t0(1) by (auto simp: t1_def wf_t_def wf_ring_def wf_cur_def placed_units_def line_units_def tctx_def)
    obtain t2 where "slot t1 (ev_Sample e) (ev_Value e) False = Some t2" "wf_t t2"
      "placed_units t2 = placed_units t1 + 1" "tctx t2 = tctx t1"
      using wf_slot [OF t1(1), of "ev_Sample e" "ev_Value e" False] by auto
    then show ?thesis
      using False t0 t1 assms(2) unfolding add_data_def t0_def [symmetric] Let_def t1_def [symmetric]
      by (auto simp: is_unit_def tctx_def)
  qed
qed

lemma add_end_ok:
  assumes "wf_t t"
  shows "\<exists>t'. add_end t e = Some t' \<and> wf_t t' \<and> tctx t' = tctx t \<and> placed_units t' = placed_units t"
proof -
  define t1 where "t1 = (if tr_proto t = 6 \<and> ln_Note (tr_cur t) = []
      then t\<lparr>tr_cur := (tr_cur t)\<lparr>ln_Note := canNote (ev_Value e),
               ln_Sample := (if ln_N (tr_cur t) = 0 then ev_Sample e else ln_Sample (tr_cur t))\<rparr>\<rparr>
      else t)"
  have t1: "wf_t t1" "placed_units t1 = placed_units t" "tctx t1 = tctx t"
    using assms by (auto simp: t1_def wf_t_def wf_ring_def wf_cur_def placed_units_def line_units_def tctx_def)
  obtain t2 where "Flush t1 = Some t2" "wf_t t2" "placed_units t2 = placed_units t1" "tctx t2 = tctx t1"
    using wf_Flush [OF t1(1)] by blast
  then show ?thesis
    using t1 unfolding add_end_def t1_def [symmetric] Let_def by auto
qed

lemma add_error_ok:
  assumes "wf_t t"
  shows "\<exists>t'. add_error t e = Some t' \<and> wf_t t' \<and> tr_proto t' = tr_proto t \<and> placed_units t' = placed_units t
      \<and> ct_Events (tr_counters t') = ct_Events (tr_counters t) \<and> ct_Units (tr_counters t') = ct_Units (tr_counters t)"
proof -
  define t1 where "t1 = t\<lparr>tr_counters := (tr_counters t)\<lparr>ct_Errors := ct_Errors (tr_counters t) + 1\<rparr>\<rparr>"
  have t1: "wf_t t1" "placed_units t1 = placed_units t" "tr_proto t1 = tr_proto t" "tr_cur t1 = tr_cur t"
    "ct_Events (tr_counters t1) = ct_Events (tr_counters t)" "ct_Units (tr_counters t1) = ct_Units (tr_counters t)"
    using assms by (simp_all add: t1_def)
  define t2 where "t2 = t1\<lparr>tr_cur := (tr_cur t1)\<lparr>ln_Note := ln_Note (tr_cur t1) @ ''!''\<rparr>\<rparr>"
  have t2: "wf_t t2" "placed_units t2 = placed_units t1" "tctx t2 = tctx t1"
    using t1(1) by (auto simp: t2_def wf_t_def wf_ring_def wf_cur_def placed_units_def line_units_def tctx_def)
  obtain t3 where t3: "Flush t2 = Some t3" "wf_t t3" "placed_units t3 = placed_units t2" "tctx t3 = tctx t2"
    using wf_Flush [OF t2(1)] by blast
  obtain t4 where t4: "slot t1 (ev_Sample e) 0 True = Some t4" "wf_t t4" "placed_units t4 = placed_units t1"
    "tctx t4 = tctx t1"
    using wf_slot [OF t1(1), of "ev_Sample e" 0 True] by auto
  have "add_error t e = Some (t\<lparr>tr_Cut := tr_Cut t + 1\<rparr>) \<or> add_error t e = Some t3 \<or> add_error t e = Some t4"
    unfolding add_error_def Let_def t1_def [symmetric] t2_def [symmetric] using t3(1) t4(1) by auto
  then show ?thesis
    using assms t1 t2 t3 t4 by (auto simp: tctx_def)
qed

lemma add_loss_ok:
  assumes "wf_t t"
  shows "\<exists>t'. add_loss t e = Some t' \<and> wf_t t' \<and> tr_proto t' = tr_proto t \<and> placed_units t' = placed_units t
      \<and> ct_Events (tr_counters t') = ct_Events (tr_counters t) \<and> ct_Units (tr_counters t') = ct_Units (tr_counters t)"
proof -
  define t1 where "t1 = t\<lparr>tr_counters := (tr_counters t)\<lparr>ct_Lost := ct_Lost (tr_counters t) + word_of_nat (unat (ev_Count e))\<rparr>\<rparr>"
  have t1: "wf_t t1" "placed_units t1 = placed_units t" "tr_proto t1 = tr_proto t"
    "ct_Events (tr_counters t1) = ct_Events (tr_counters t)" "ct_Units (tr_counters t1) = ct_Units (tr_counters t)"
    using assms by (simp_all add: t1_def)
  obtain t2 where t2: "Flush t1 = Some t2" "wf_t t2" "placed_units t2 = placed_units t1" "tctx t2 = tctx t1"
    using wf_Flush [OF t1(1)] by blast
  let ?n = "''LOST '' @ dec_str (unat (ev_Count e))"
  obtain t3 where t3: "Flush (set_cur t2 (ev_Sample e) ?n) = Some t3" "wf_t t3"
    "placed_units t3 = placed_units t2" "tctx t3 = tctx t2"
    using wf_Flush [OF wf_set_cur [OF t2(2)]] by (metis placed_set_cur tctx_set_cur)
  have "add_loss t e = Some t3"
    unfolding add_loss_def Let_def t1_def [symmetric] using t2(1) t3(1) by simp
  then show ?thesis
    using t1 t2 t3 by (auto simp: tctx_def)
qed

lemma add_event_ok:
  assumes "wf_t t" "start_safe (tr_proto t) e"
  shows "\<exists>t'. add_event t e = Some t' \<and> wf_t t' \<and> tr_proto t' = tr_proto t
      \<and> placed_units t' = placed_units t + of_bool (is_unit (tr_proto t) e)
      \<and> ct_Events (tr_counters t') = ct_Events (tr_counters t) + 1
      \<and> ct_Units (tr_counters t') = ct_Units (tr_counters t) + of_bool (ev_Kind e = EventData)"
proof -
  define t0 where "t0 = t\<lparr>tr_counters := (tr_counters t)\<lparr>ct_Events := ct_Events (tr_counters t) + 1\<rparr>\<rparr>"
  define t1 where "t1 = (if ev_Kind e \<noteq> EventLoss \<and> \<not> tr_haveFirst t0
      then t0\<lparr>tr_first := ev_Sample e, tr_haveFirst := True\<rparr> else t0)"
  have t1: "wf_t t1" "placed_units t1 = placed_units t" "tr_proto t1 = tr_proto t"
    "tr_counters t1 = (tr_counters t)\<lparr>ct_Events := ct_Events (tr_counters t) + 1\<rparr>"
    using assms(1) by (auto simp: t1_def t0_def)
  have s: "10 < tr_proto t1 \<Longrightarrow> ev_Kind e = EventStart \<Longrightarrow> 0 \<le> sint (ev_Value e)"
    using assms(2) t1(3) by (simp add: start_safe_def)
  have unf: "add_event t e = (if ev_Kind e = EventStart then add_start t1 e
      else if ev_Kind e = EventData then add_data t1 e
      else if ev_Kind e = EventEnd then add_end t1 e
      else if ev_Kind e = EventError then add_error t1 e
      else if ev_Kind e = EventTrigger \<or> ev_Kind e = EventRetained then Some (t1\<lparr>tr_triggerHint := True\<rparr>)
      else if ev_Kind e = EventLoss then add_loss t1 e else Some t1)"
    unfolding add_event_def Let_def t0_def [symmetric] t1_def [symmetric] ..
  consider "ev_Kind e = EventStart" | "ev_Kind e = EventData" | "ev_Kind e = EventEnd" | "ev_Kind e = EventError"
    | "ev_Kind e = EventLoss" | "ev_Kind e \<notin> {EventStart, EventData, EventEnd, EventError, EventLoss}"
    by auto
  then show ?thesis
  proof cases
    case 1
    then show ?thesis
      using add_start_ok [OF t1(1) s] t1 by (auto simp: unf is_unit_def Event_kinds tctx_def)
  next
    case 2
    then show ?thesis
      using add_data_ok [OF t1(1), of e] t1 by (auto simp: unf Event_kinds)
  next
    case 3
    then show ?thesis
      using add_end_ok [OF t1(1), of e] t1 by (auto simp: unf is_unit_def Event_kinds tctx_def)
  next
    case 4
    then show ?thesis
      using add_error_ok [OF t1(1), of e] t1 by (auto simp: unf is_unit_def Event_kinds)
  next
    case 5
    then show ?thesis
      using add_loss_ok [OF t1(1), of e] t1 by (auto simp: unf is_unit_def Event_kinds)
  next
    case 6
    then show ?thesis
      using t1 by (auto simp: unf is_unit_def)
  qed
qed


lemma Add_ok:
  "wf_t t \<Longrightarrow> \<forall>e \<in> set es. start_safe (tr_proto t) e \<Longrightarrow>
   \<exists>t'. Add t es = Some t' \<and> wf_t t' \<and> tr_proto t' = tr_proto t
      \<and> placed_units t' = placed_units t + int (length (filter (is_unit (tr_proto t)) es))
      \<and> ct_Events (tr_counters t') = ct_Events (tr_counters t) + word_of_nat (length es)
      \<and> ct_Units (tr_counters t') = ct_Units (tr_counters t)
           + word_of_nat (length (filter (\<lambda>e. ev_Kind e = EventData) es))"
proof (induction es arbitrary: t)
  case Nil
  then show ?case by simp
next
  case (Cons e es)
  then obtain t1 where t1: "add_event t e = Some t1" "wf_t t1" "tr_proto t1 = tr_proto t"
    "placed_units t1 = placed_units t + of_bool (is_unit (tr_proto t) e)"
    "ct_Events (tr_counters t1) = ct_Events (tr_counters t) + 1"
    "ct_Units (tr_counters t1) = ct_Units (tr_counters t) + of_bool (ev_Kind e = EventData)"
    using add_event_ok [of t e] by auto
  from Cons.IH [OF t1(2)] Cons.prems(2) t1(3) show ?case
    using t1 by (fastforce simp: algebra_simps)
qed

section \<open>Properties of the transcript\<close>

text \<open>
  C10: \<open>Add\<close> folds any list of events into a well-formed transcript without a panic, as long as no
  software stream's start carries a value with the top bit set. It loses nothing: every data event
  is counted in \<open>Units\<close>, and every data event that is not an I2C address byte is in a finished
  line or the line being built (\<open>lineUnits\<close> plus the pending units).
\<close>

theorem Add_conserves_units:
  assumes "wf_t t" and "\<forall>e \<in> set es. start_safe (tr_proto t) e"
  shows "\<exists>t'. Add t es = Some t' \<and> wf_t t'
    \<and> tr_lineUnits t' + line_units (tr_cur t')
        = tr_lineUnits t + line_units (tr_cur t) + int (length (filter (is_unit (tr_proto t)) es))
    \<and> ct_Events (tr_counters t') = ct_Events (tr_counters t) + word_of_nat (length es)
    \<and> ct_Units (tr_counters t') = ct_Units (tr_counters t)
        + word_of_nat (length (filter (\<lambda>e. ev_Kind e = EventData) es))"
  using Add_ok [OF assms] by (auto simp: placed_units_def)

definition demo_data :: "u32 \<Rightarrow> decoded_event" where
  "demo_data v = \<lparr>ev_Epoch = 0, ev_Sequence = 0, ev_Sample = 0, ev_Record = 0, ev_Value = v, ev_Count = 0,
     ev_Protocol = 1, ev_Kind = EventData, ev_Channels = 1, ev_Valid = True, ev_RecordValid = False\<rparr>"

theorem Add_conserves_units_witness:
  "\<exists>t'. Add (NewTranscript 1 4) [demo_data 7, demo_data 9] = Some t' \<and> wf_t t'
    \<and> tr_lineUnits t' + line_units (tr_cur t') = 2"
proof -
  have s: "\<forall>e \<in> set [demo_data 7, demo_data 9]. start_safe (tr_proto (NewTranscript 1 4)) e"
    by (simp add: start_safe_def demo_data_def Event_kinds NewTranscript_def Reset_def)
  show ?thesis
    using Add_conserves_units [OF wf_NewTranscript s]
    by (auto simp: is_unit_def demo_data_def NewTranscript_def Reset_def)
qed

text \<open>
  C16: The unguarded case: on the 32-bit target a start event of a software stream whose value has its top
  bit set passes the \<open>int(e.Value) < len(startNotes)\<close> check as a negative number, and the read of
  the note table panics, for every well-formed transcript.
\<close>

theorem Add_start_value_panics:
  assumes "wf_t t" and "10 < tr_proto t" and "ev_Kind e = EventStart" and "sint (ev_Value e) < 0"
  shows "Add t [e] = None"
proof -
  define t1 where "t1 = (if ev_Kind e \<noteq> EventLoss \<and> \<not> tr_haveFirst t
      then t\<lparr>tr_counters := (tr_counters t)\<lparr>ct_Events := ct_Events (tr_counters t) + 1\<rparr>,
             tr_first := ev_Sample e, tr_haveFirst := True\<rparr>
      else t\<lparr>tr_counters := (tr_counters t)\<lparr>ct_Events := ct_Events (tr_counters t) + 1\<rparr>\<rparr>)"
  have "wf_t t1" "tr_proto t1 = tr_proto t"
    using assms(1) by (auto simp: t1_def)
  then obtain t2 where t2: "Flush t1 = Some t2" "tr_proto t2 = tr_proto t"
    using wf_Flush [of t1] by (auto simp: tctx_def)
  have v: "0 < ev_Value e" "\<not> unat (ev_Value e) < length startNotes"
  proof -
    have "ev_Value e \<noteq> 0" using assms(4) by auto
    then show "0 < ev_Value e" by (simp add: word_gt_0)
    show "\<not> unat (ev_Value e) < length startNotes"
    proof
      assume "unat (ev_Value e) < length startNotes"
      then have "nat (uint (ev_Value e)) < 26"
        by (simp only: length_startNotes unat_eq_nat_uint)
      then have "uint (ev_Value e) < 2147483648"
        by linarith
      then have "sint (ev_Value e) = uint (ev_Value e)"
        by (rule sint_eq_uint_u32)
      then show False using assms(4) by simp
    qed
  qed
  have "add_event t e = add_start t1 e"
    using assms(3) by (simp add: add_event_def Let_def t1_def)
  also have "\<dots> = None"
  proof -
    have "tr_proto (case usbPIDs (ev_Value e AND 0xff) of
        Some name \<Rightarrow> if tr_proto t2 = 9 then set_cur t2 (ev_Sample e) name else t2 | None \<Rightarrow> t2) = tr_proto t"
      using t2(2) by (simp split: option.split)
    then show ?thesis
      using t2(1) v assms(2,4) by (simp add: add_start_def Let_def)
  qed
  finally show ?thesis by simp
qed

theorem Add_start_value_panics_witness:
  "Add (NewTranscript 11 4) [(demo_data 0x80000000)\<lparr>ev_Kind := EventStart\<rparr>] = None"
  by (rule Add_start_value_panics [OF wf_NewTranscript])
    (simp_all add: NewTranscript_def Reset_def demo_data_def)

lemma push_gaps_push_all:
  "push_gaps n t s = tlog.push_all t (replicate n (zero_line\<lparr>ln_Sample := s, ln_Note := ''GAP''\<rparr>))"
  by (induction n arbitrary: t) auto

lemma entry_tAt:
  "tBase t \<le> i \<Longrightarrow> i < tNext t \<Longrightarrow> tAt t (i - tBase t) = tlog.entry t i"
  by (auto simp: tlog.entry_def tNext_def tBase_def tAt_held)

lemma tNext_log_next: "tNext t = tlog.log_next t"
  by (simp add: tNext_def tlog.log_next_def tBase_def)

text \<open>
  C15: A push keeps absolute line indices: the new line gets index \<open>Next\<close>, and every line still held
  is read at the index it had before.
\<close>

theorem push_keeps_indices:
  assumes "wf_ring t" and "push t l = Some t'"
  shows "tNext t' = Suc (tNext t) \<and> tAt t' (tNext t - tBase t') = Some l
    \<and> (\<forall>i. tBase t' \<le> i \<and> i < tNext t \<longrightarrow> tAt t' (i - tBase t') = tAt t (i - tBase t))"
proof -
  obtain t'' where "push t l = Some t''" "wf_ring t''" "tBase t'' = tBase t + (Suc (length (held t)) - tr_capacity t)"
    using tlog.push_ok [OF assms(1)] by blast
  then have b: "wf_ring t'" "tBase t \<le> tBase t'" "tBase t' \<le> tNext t"
    using assms tlog.held_le_cap [OF assms(1)] tlog.cap_pos [OF assms(1)]
    by (auto simp: tNext_def tBase_def)
  have n: "tNext t' = Suc (tNext t)"
    using tlog.push_next [OF assms] by (simp add: tNext_log_next)
  note e = tlog.push_entry [OF assms]
  have "tAt t' (tNext t - tBase t') = tlog.entry t' (tNext t)"
    using b n by (intro entry_tAt) auto
  then have "tAt t' (tNext t - tBase t') = Some l"
    by (simp add: e tNext_log_next)
  moreover have "tAt t' (i - tBase t') = tAt t (i - tBase t)" if "tBase t' \<le> i" "i < tNext t" for i
  proof -
    have "tAt t' (i - tBase t') = tlog.entry t' i"
      using that n by (intro entry_tAt) auto
    also have "\<dots> = tlog.entry t i"
      using that by (auto simp: e tNext_log_next)
    also have "\<dots> = tAt t (i - tBase t)"
      using that b by (intro entry_tAt [symmetric]) auto
    finally show ?thesis .
  qed
  ultimately show ?thesis using n by blast
qed

theorem push_keeps_indices_witness:
  "\<exists>t'. push (NewTranscript 1 2) zero_line = Some t' \<and> tNext t' = 1 \<and> tAt t' 0 = Some zero_line"
proof -
  have w: "wf_ring (NewTranscript 1 2)"
    using wf_NewTranscript by (simp add: wf_t_def)
  obtain t' where p: "push (NewTranscript 1 2) zero_line = Some t'"
    using tlog.push_ok [OF w] by blast
  have "tNext (NewTranscript 1 2) = 0" by (simp add: tNext_def NewTranscript_def Reset_def)
  then show ?thesis
    using push_keeps_indices [OF w p] p by auto
qed


text \<open>What a run of pushes leaves, as \<open>Append\<close> uses it: the gap lines and then the line itself.\<close>

lemma push_gaps_ok:
  assumes "wf_ring t"
  obtains t' where "push_gaps n t s = Some t'" "wf_ring t'" "tr_capacity t' = tr_capacity t"
    "tNext t' = tNext t + n" "tBase t' = tBase t + (length (held t) + n - tr_capacity t)"
    "held t' = drop (length (held t) + n - tr_capacity t)
       (held t @ replicate n (zero_line\<lparr>ln_Sample := s, ln_Note := ''GAP''\<rparr>))"
proof -
  from tlog.push_all_ok [OF assms, of "replicate n (zero_line\<lparr>ln_Sample := s, ln_Note := ''GAP''\<rparr>)"]
  obtain t' where "push_gaps n t s = Some t'" "wf_ring t'" "tr_capacity t' = tr_capacity t"
    "tBase t' = tBase t + (length (held t) + n - tr_capacity t)"
    "held t' = drop (length (held t) + n - tr_capacity t)
       (held t @ replicate n (zero_line\<lparr>ln_Sample := s, ln_Note := ''GAP''\<rparr>))"
    by (auto simp: push_gaps_push_all)
  moreover from this have "tNext t' = tNext t + n"
    using tlog.held_le_cap [OF assms] tlog.cap_pos [OF assms] length_held [of t']
    by (simp add: tNext_def tBase_def)
  ultimately show ?thesis using that by blast
qed

lemma wf_ring_first [simp]:
  "wf_ring (t\<lparr>tr_first := f, tr_haveFirst := b\<rparr>) = wf_ring t"
  "tNext (t\<lparr>tr_first := f, tr_haveFirst := b\<rparr>) = tNext t"
  by (simp_all add: wf_ring_def tNext_def)

text \<open>
  \<open>Append\<close> never panics and keeps the indices of the builder: a line already held is ignored, and
  any other line is stored at its own absolute index, the last one.
\<close>

theorem Append_aligns:
  assumes "wf_ring t"
  shows "(index < int (tNext t) \<longrightarrow> Append t index l = Some t)
    \<and> (int (tNext t) \<le> index \<longrightarrow>
        (\<exists>t'. Append t index l = Some t' \<and> wf_ring t' \<and> tNext t' = Suc (nat index)
           \<and> tAt t' (nat index - tBase t') = Some l))"
proof (cases "index < int (tNext t)")
  case True
  then show ?thesis by (simp add: Append_def)
next
  case False
  define i where "i = nat index"
  define t0 where "t0 = (if tr_lines t = [] \<or> tr_capacity t \<le> i - tNext t
      then t\<lparr>tr_lines := [], tr_head := 0, tr_dropped := i\<rparr> else t)"
  have t0: "wf_ring t0" "tNext t0 \<le> i"
    using assms False by (auto simp: t0_def wf_ring_def tNext_def i_def)
  obtain t1 where t1: "push_gaps (i - tNext t0) t0 (ln_Sample l) = Some t1" "wf_ring t1" "tNext t1 = i"
    using push_gaps_ok [OF t0(1), of "i - tNext t0" "ln_Sample l"] t0(2) by force
  define t2 where "t2 = (if \<not> tr_haveFirst t1 then t1\<lparr>tr_first := ln_Sample l, tr_haveFirst := True\<rparr> else t1)"
  have t2: "wf_ring t2" "tNext t2 = i"
    using t1 by (simp_all add: t2_def)
  obtain t3 where t3: "push t2 l = Some t3" "wf_ring t3"
    using tlog.push_ok [OF t2(1)] by blast
  have "Append t index l = Some t3"
    using False t1(1) t3(1) unfolding Append_def i_def [symmetric] t0_def [symmetric] Let_def
    by (simp add: t2_def)
  then show ?thesis
    using False t3 t2(2) push_keeps_indices [OF t2(1) t3(1)] by (auto simp: i_def)
qed

theorem Append_aligns_witness:
  "\<exists>t'. Append (NewTranscript 1 4) 7 zero_line = Some t' \<and> tNext t' = 8"
proof -
  have "wf_ring (NewTranscript 1 4)"
    using wf_NewTranscript by (simp add: wf_t_def)
  moreover have "int (tNext (NewTranscript 1 4)) \<le> 7"
    by (simp add: tNext_def NewTranscript_def Reset_def)
  ultimately show ?thesis
    using Append_aligns [of "NewTranscript 1 4" 7 zero_line] by auto
qed

lemma trig_search_spec:
  assumes "lo \<le> hi" "hi < length (tr_lines t)" "ln_Sample (held t ! lo) \<le> tr_trig t"
    and "\<And>j. hi < j \<Longrightarrow> j < length (tr_lines t) \<Longrightarrow> tr_trig t < ln_Sample (held t ! j)"
    and "sorted (map ln_Sample (held t))"
  shows "\<exists>r. trig_search t lo hi = Some r \<and> r < length (tr_lines t) \<and> ln_Sample (held t ! r) \<le> tr_trig t
     \<and> (\<forall>j. r < j \<and> j < length (tr_lines t) \<longrightarrow> tr_trig t < ln_Sample (held t ! j))"
  using assms
proof (induction t lo hi rule: trig_search.induct)
  case (1 t lo hi)
  show ?case
  proof (cases "lo < hi")
    case False
    then show ?thesis
      using "1.prems" by (subst trig_search.simps) auto
  next
    case True
    define mid where "mid = (lo + hi + 1) div 2"
    have m: "lo < mid" "mid \<le> hi" using True by (auto simp: mid_def)
    have at: "tAt t mid = Some (held t ! mid)"
      using m "1.prems"(2) by (simp add: tAt_held)
    have step: "trig_search t lo hi = (if ln_Sample (held t ! mid) \<le> tr_trig t
        then trig_search t mid hi else trig_search t lo (mid - 1))"
      using True at by (subst trig_search.simps) (simp add: mid_def Let_def)
    show ?thesis
    proof (cases "ln_Sample (held t ! mid) \<le> tr_trig t")
      case le: True
      then show ?thesis
        using "1.IH"(1) [OF True mid_def at] "1.prems" m step by auto
    next
      case gt: False
      have "tr_trig t < ln_Sample (held t ! j)" if "mid - 1 < j" "j < length (tr_lines t)" for j
      proof -
        have "ln_Sample (held t ! mid) \<le> ln_Sample (held t ! j)"
          using sorted_nth_mono [OF "1.prems"(5), of mid j] that m by simp
        then show ?thesis using gt by simp
      qed
      then show ?thesis
        using "1.IH"(2) [OF True mid_def at gt] "1.prems" m step gt by auto
    qed
  qed
qed

text \<open>
  \<open>TriggerLine\<close>'s binary search, on a marked transcript whose lines are in sample order, is the last
  held line starting at or before the trigger: the lines up to it are the longest prefix that does
  not start after the trigger, and it is -1 when there is none.
\<close>

theorem TriggerLine_last_before:
  assumes "tr_marked t" and "sorted (map ln_Sample (held t))"
  shows "TriggerLine t = Some (int (length (takeWhile (\<lambda>l. ln_Sample l \<le> tr_trig t) (held t))) - 1)"
proof (cases "tr_lines t = [] \<or> tr_trig t < ln_Sample (held t ! 0)")
  case True
  then show ?thesis
  proof (cases "tr_lines t = []")
    case False
    then obtain x xs where x: "held t = x # xs"
      using length_held [of t] by (cases "held t") auto
    then show ?thesis
      using True False tAt_held [of 0 t] by (simp add: TriggerLine_def not_le)
  qed (simp add: TriggerLine_def held_def)
next
  case False
  let ?n = "length (tr_lines t)" and ?P = "\<lambda>l. ln_Sample l \<le> tr_trig t"
  have n: "0 < ?n" "?P (held t ! 0)" using False by auto
  have "\<exists>r. trig_search t 0 (?n - 1) = Some r \<and> r < ?n \<and> ?P (held t ! r)
     \<and> (\<forall>j. r < j \<and> j < ?n \<longrightarrow> tr_trig t < ln_Sample (held t ! j))"
    by (rule trig_search_spec) (use n assms(2) in auto)
  then obtain r where r: "trig_search t 0 (?n - 1) = Some r" "r < ?n" "?P (held t ! r)"
    "\<forall>j. r < j \<and> j < ?n \<longrightarrow> \<not> ?P (held t ! j)"
    unfolding not_le by blast
  have "takeWhile ?P (held t) = take (Suc r) (held t)"
  proof (rule takeWhile_eq_take_P_nth)
    fix j assume "j < Suc r" "j < length (held t)"
    then have "ln_Sample (held t ! j) \<le> ln_Sample (held t ! r)"
      using sorted_nth_mono [OF assms(2), of j r] r(2) by simp
    then show "?P (held t ! j)" using r(3) by simp
  next
    assume "Suc r < length (held t)"
    then show "\<not> ?P (held t ! Suc r)" using r(4) by simp
  qed
  then have "length (takeWhile ?P (held t)) = Suc r"
    using r(2) by simp
  moreover have "TriggerLine t = Some (int r)"
    using assms(1) n r(1) tAt_held [OF n(1)] by (auto simp: TriggerLine_def)
  ultimately show ?thesis by simp
qed

theorem TriggerLine_last_before_witness:
  "\<exists>t. tr_marked t \<and> sorted (map ln_Sample (held t)) \<and> TriggerLine t = Some 0"
proof -
  let ?t = "Mark ((NewTranscript 1 4)\<lparr>tr_lines := [zero_line, zero_line\<lparr>ln_Sample := 9\<rparr>]\<rparr>) 5 0 0"
  have h: "held ?t = [zero_line, zero_line\<lparr>ln_Sample := 9\<rparr>]"
    by (simp add: held_def Mark_def NewTranscript_def Reset_def)
  have m: "tr_marked ?t" "sorted (map ln_Sample (held ?t))"
    unfolding h by (simp_all add: Mark_def zero_line_def)
  have "TriggerLine ?t = Some 0"
    using TriggerLine_last_before [OF m] unfolding h by (simp add: Mark_def zero_line_def)
  then show ?thesis using m by blast
qed

end
