(* ===== verification/LineWire.thy ===== *)
theory LineWire
  imports Transcript
begin

text \<open>
  The worker-to-GUI wire format of transcript lines (\<open>decodedlines/lines.go\<close>): \<open>EncodeLines\<close> writes
  held lines into a caller's buffer until it is full, \<open>DecodeLines\<close> parses a batch, and
  \<open>appendHex\<close> with the hex and text columns of \<open>Format\<close> renders a line. The writer's \<open>uint32(i)\<close> of a
  line index is a word; the reader's \<open>int(uint32)\<close> is the signed reading of the 32-bit target.
\<close>

section \<open>Encoding\<close>

definition batchHeader :: nat where "batchHeader = 43"

definition MaxLineBytes :: nat where "MaxLineBytes = 4 + 8 + 1 + 2 + 2 + 1 + 255 + 16 * 4"

text \<open>The width scan reads \<open>Vals[k]\<close> for each \<open>k < N\<close> and stops at the first value over a byte.\<close>

fun scan_width :: "u32 list \<Rightarrow> nat list \<Rightarrow> nat option" where
  "scan_width vs [] = Some 1"
| "scan_width vs (k # ks) =
     (if k < length vs then (if 0xff < vs ! k then Some 4 else scan_width vs ks) else None)"

definition copy_at :: "byte list \<Rightarrow> nat \<Rightarrow> byte list \<Rightarrow> (byte list \<times> nat) option" where
  "copy_at dst off s =
     (if off \<le> length dst
      then map_option (\<lambda>d. (d, min (length s) (length dst - off))) (put dst off (take (length dst - off) s))
      else None)"

fun put_vals :: "byte list \<Rightarrow> nat \<Rightarrow> nat \<Rightarrow> u32 list \<Rightarrow> nat list \<Rightarrow> (byte list \<times> nat) option" where
  "put_vals dst off width vs [] = Some (dst, off)"
| "put_vals dst off width vs (k # ks) =
     (if k < length vs
      then if width = 1
        then do { dst \<leftarrow> PutByte dst off (ucast (vs ! k AND 0xff)); put_vals dst (off + 1) width vs ks }
        else do { dst \<leftarrow> PutUint32 dst off (vs ! k); put_vals dst (off + 4) width vs ks }
      else None)"

definition encode_line :: "byte list \<Rightarrow> nat \<Rightarrow> nat \<Rightarrow> tline \<Rightarrow> string \<Rightarrow> nat \<Rightarrow> (byte list \<times> nat) option" where
  "encode_line dst off i l note width = do {
     dst \<leftarrow> PutUint32 dst off (word_of_nat i);
     dst \<leftarrow> PutUint64 dst (off + 4) (ln_Sample l);
     dst \<leftarrow> PutByte dst (off + 12) (if width = 1 then ln_N l OR 0x80 else ln_N l);
     dst \<leftarrow> PutUint16 dst (off + 13) (ln_Errs l);
     dst \<leftarrow> PutUint16 dst (off + 15) (ln_Naks l);
     dst \<leftarrow> PutByte dst (off + 17) (word_of_nat (length note));
     (dst, n) \<leftarrow> copy_at dst (off + 18) (map byte_of_char note);
     put_vals dst (off + 18 + n) width (ln_Vals l) [0..<unat (ln_N l)]
   }"

fun encode_loop :: "transcript \<Rightarrow> nat list \<Rightarrow> byte list \<Rightarrow> nat \<Rightarrow> nat \<Rightarrow> (byte list \<times> nat \<times> nat) option" where
  "encode_loop t [] dst off count = Some (dst, off, count)"
| "encode_loop t (i # is) dst off count = do {
     l \<leftarrow> tAt t (i - tr_dropped t);
     let note = take 255 (ln_Note l);
     width \<leftarrow> scan_width (ln_Vals l) [0..<unat (ln_N l)];
     let need = 4 + 8 + 1 + 2 + 2 + 1 + length note + unat (ln_N l) * width;
     if length dst < off + need \<or> count = 0xffff then Some (dst, off, count)
     else do {
       (dst, off) \<leftarrow> encode_line dst off i l note width;
       encode_loop t is dst off (count + 1)
     }
   }"

definition put_header :: "transcript \<Rightarrow> nat \<Rightarrow> byte list \<Rightarrow> byte list option" where
  "put_header t count dst = do {
     dst \<leftarrow> PutUint32 dst 0 (word_of_nat (tBase t));
     dst \<leftarrow> PutUint32 dst 4 (word_of_nat (tNext t));
     dst \<leftarrow> PutUint64 dst 8 (ct_Events (tr_counters t));
     dst \<leftarrow> PutUint64 dst 16 (ct_Units (tr_counters t));
     dst \<leftarrow> PutUint64 dst 24 (ct_Lost (tr_counters t));
     dst \<leftarrow> PutUint64 dst 32 (ct_Errors (tr_counters t));
     dst \<leftarrow> PutByte dst 40 (if fst (TakeTriggerHint t) then 1 else 0);
     PutUint16 dst 41 (word_of_nat count)
   }"

text \<open>The result: the bytes used, the buffer, and the transcript with its trigger hint taken.\<close>

definition enc_start :: "transcript \<Rightarrow> int \<Rightarrow> nat" where
  "enc_start t start = nat (min (max start (int (tBase t))) (int (tNext t)))"

definition EncodeLines :: "transcript \<Rightarrow> int \<Rightarrow> byte list \<Rightarrow> (nat \<times> byte list \<times> transcript) option" where
  "EncodeLines t start dst =
     (if length dst < batchHeader then Some (0, dst, t)
      else do {
        (dst, off, count) \<leftarrow> encode_loop t [enc_start t start..<tNext t] dst batchHeader 0;
        dst \<leftarrow> put_header t count dst;
        Some (off, dst, snd (TakeTriggerHint t))
      })"

section \<open>Decoding\<close>

record batch =
  bt_Base :: int
  bt_Next :: int
  bt_Counters :: counters
  bt_TriggerHint :: bool
  bt_Indices :: "int list"
  bt_Lines :: "tline list"

datatype wire_error = ShortBatch | TruncatedLine nat | BadLine nat

definition zero_batch :: batch where
  "zero_batch = \<lparr>bt_Base = 0, bt_Next = 0, bt_Counters = zero_counters, bt_TriggerHint = False,
     bt_Indices = [], bt_Lines = []\<rparr>"

fun get_vals :: "byte list \<Rightarrow> nat \<Rightarrow> nat \<Rightarrow> u32 list \<Rightarrow> nat list \<Rightarrow> (u32 list \<times> nat) option" where
  "get_vals b off width vs [] = Some (vs, off)"
| "get_vals b off width vs (k # ks) =
     (if k < length vs
      then if width = 1
        then do { v \<leftarrow> ByteAt b off; get_vals b (off + 1) width (vs[k := ucast v]) ks }
        else do { v \<leftarrow> Uint32 b off; get_vals b (off + 4) width (vs[k := v]) ks }
      else None)"

fun decode_loop :: "byte list \<Rightarrow> nat \<Rightarrow> nat \<Rightarrow> nat \<Rightarrow> batch \<Rightarrow> (batch \<times> wire_error option) option" where
  "decode_loop b 0 c off bt = Some (bt, None)"
| "decode_loop b (Suc n) c off bt =
     (if length b < off + 18 then Some (bt, Some (TruncatedLine c))
      else do {
        idx \<leftarrow> Uint32 b off;
        sample \<leftarrow> Uint64 b (off + 4);
        nb \<leftarrow> ByteAt b (off + 12);
        let N = nb AND 0x7f;
        let width = (if nb AND 0x80 \<noteq> 0 then 1 else 4);
        errs \<leftarrow> Uint16 b (off + 13);
        naks \<leftarrow> Uint16 b (off + 15);
        nlb \<leftarrow> ByteAt b (off + 17);
        let nl = unat nlb;
        let off = off + 18;
        if 16 < N \<or> length b < off + nl + unat N * width then Some (bt, Some (BadLine c))
        else do {
          note \<leftarrow> (if 0 < nl then rd nl b off else Some []);
          let off = off + nl;
          (vs, off) \<leftarrow> get_vals b off width (replicate 16 0) [0..<unat N];
          let l = \<lparr>ln_Sample = sample, ln_Vals = vs, ln_N = N, ln_Errs = errs, ln_Naks = naks,
                   ln_Note = map char_of_byte note\<rparr>;
          decode_loop b n (c + 1) off
            (bt\<lparr>bt_Indices := bt_Indices bt @ [sint idx], bt_Lines := bt_Lines bt @ [l]\<rparr>)
        }
      })"

definition DecodeLines :: "byte list \<Rightarrow> (batch \<times> wire_error option) option" where
  "DecodeLines b =
     (if length b < batchHeader then Some (zero_batch, Some ShortBatch)
      else do {
        base \<leftarrow> Uint32 b 0;
        next \<leftarrow> Uint32 b 4;
        events \<leftarrow> Uint64 b 8;
        units \<leftarrow> Uint64 b 16;
        lost \<leftarrow> Uint64 b 24;
        errors \<leftarrow> Uint64 b 32;
        hint \<leftarrow> ByteAt b 40;
        count \<leftarrow> Uint16 b 41;
        decode_loop b (unat count) 0 batchHeader
          (zero_batch\<lparr>bt_Base := sint base, bt_Next := sint next,
             bt_Counters := \<lparr>ct_Events = events, ct_Units = units, ct_Lost = lost, ct_Errors = errors\<rparr>,
             bt_TriggerHint := (hint AND 1 \<noteq> 0)\<rparr>)
      })"

section \<open>Decoding never panics\<close>

lemma get_vals_total:
  "set ks \<subseteq> {..<length vs} \<Longrightarrow> off + length ks * width \<le> length b \<Longrightarrow> width \<in> {1, 4} \<Longrightarrow>
   \<exists>vs' off'. get_vals b off width vs ks = Some (vs', off')"
  by (induction ks arbitrary: vs off) (auto simp: ByteAt_def Uint32_def)

lemma decode_loop_total: "\<exists>r. decode_loop b n c off bt = Some r"
proof (induction n arbitrary: c off bt)
  case (Suc n)
  show ?case
  proof (cases "length b < off + 18")
    case False
    define nb where "nb = b ! (off + 12)"
    define w :: nat where "w = (if nb AND 0x80 \<noteq> 0 then 1 else 4)"
    define nl where "nl = unat (b ! (off + 17))"
    show ?thesis
    proof (cases "16 < nb AND 0x7f \<or> length b < off + 18 + nl + unat (nb AND 0x7f) * w")
      case bad: True
      then show ?thesis
        using False by (auto simp: Get_defs Let_def nb_def w_def nl_def)
    next
      case ok: False
      then have "unat (nb AND 0x7f) \<le> 16"
        by (simp add: not_less word_le_nat_alt)
      then have "\<exists>vs off'. get_vals b (off + 18 + nl) w (replicate 16 0) [0..<unat (nb AND 0x7f)] = Some (vs, off')"
        using ok by (intro get_vals_total) (auto simp: w_def)
      then show ?thesis
        using False ok Suc.IH by (auto simp: Get_defs Let_def nb_def [symmetric] w_def [symmetric] nl_def [symmetric])
    qed
  qed simp
qed simp

lemma DecodeLines_total: "\<exists>r. DecodeLines b = Some r"
  by (simp add: DecodeLines_def batchHeader_def Get_defs decode_loop_total del: split_paired_Ex)


section \<open>The bytes of a line\<close>

definition vals_of :: "tline \<Rightarrow> u32 list" where
  "vals_of l = take (unat (ln_N l)) (ln_Vals l)"

definition width_of :: "tline \<Rightarrow> nat" where
  "width_of l = (if \<exists>v \<in> set (vals_of l). 0xff < v then 4 else 1)"

definition val_bytes :: "nat \<Rightarrow> u32 \<Rightarrow> byte list" where
  "val_bytes width v = (if width = 1 then [ucast (v AND 0xff)] else le_bytes 4 (unat v))"

definition line_bytes :: "nat \<Rightarrow> tline \<Rightarrow> byte list" where
  "line_bytes i l = le_bytes 4 (unat (word_of_nat i :: u32)) @ le_bytes 8 (unat (ln_Sample l))
     @ [if width_of l = 1 then ln_N l OR 0x80 else ln_N l]
     @ le_bytes 2 (unat (ln_Errs l)) @ le_bytes 2 (unat (ln_Naks l))
     @ [word_of_nat (length (take 255 (ln_Note l)))] @ map byte_of_char (take 255 (ln_Note l))
     @ concat (map (val_bytes (width_of l)) (vals_of l))"

text \<open>A line as the reader gets it: the note cut to 255 bytes, unused values zero.\<close>

definition wire_line :: "tline \<Rightarrow> tline" where
  "wire_line l = l\<lparr>ln_Note := take 255 (ln_Note l),
     ln_Vals := vals_of l @ replicate (16 - unat (ln_N l)) 0\<rparr>"

definition wf_line :: "tline \<Rightarrow> bool" where
  "wf_line l \<longleftrightarrow> unat (ln_N l) \<le> 16 \<and> length (ln_Vals l) = 16"

lemma length_concat_val_bytes:
  "w \<in> {1, 4} \<Longrightarrow> length (concat (map (val_bytes w) vs)) = length vs * w"
  by (induction vs) (auto simp: val_bytes_def)

lemma width_of_cases: "width_of l \<in> {1, 4}"
  by (simp add: width_of_def)

lemma length_vals_of: "wf_line l \<Longrightarrow> length (vals_of l) = unat (ln_N l)"
  by (simp add: vals_of_def wf_line_def)

lemma length_line_bytes:
  "wf_line l \<Longrightarrow> length (line_bytes i l) = 18 + length (take 255 (ln_Note l)) + unat (ln_N l) * width_of l"
  using width_of_cases [of l] by (simp add: line_bytes_def length_concat_val_bytes length_vals_of)

lemma scan_width_ex:
  "set ks \<subseteq> {..<length vs} \<Longrightarrow> scan_width vs ks = Some (if \<exists>k \<in> set ks. 0xff < vs ! k then 4 else 1)"
  by (induction ks) auto

lemma scan_width_width_of:
  assumes "wf_line l"
  shows "scan_width (ln_Vals l) [0..<unat (ln_N l)] = Some (width_of l)"
proof -
  have "(\<exists>k \<in> set [0..<unat (ln_N l)]. 0xff < ln_Vals l ! k) = (\<exists>v \<in> set (vals_of l). 0xff < v)"
    using assms by (auto simp: vals_of_def wf_line_def in_set_conv_nth Bex_def)
  then show ?thesis
    using assms by (subst scan_width_ex) (auto simp: wf_line_def width_of_def)
qed

lemma put_vals_bytes:
  "set ks \<subseteq> {..<length vs} \<Longrightarrow> w \<in> {1, 4} \<Longrightarrow> off + length ks * w \<le> length dst \<Longrightarrow>
   put_vals dst off w vs ks =
     map_option (\<lambda>d. (d, off + length ks * w)) (put dst off (concat (map (\<lambda>k. val_bytes w (vs ! k)) ks)))"
proof (induction ks arbitrary: dst off)
  case Nil
  then show ?case by simp
next
  case (Cons k ks)
  let ?v = "val_bytes w (vs ! k)" and ?r = "concat (map (\<lambda>k. val_bytes w (vs ! k)) ks)"
  have lv: "length ?v = w" using Cons.prems(2) by (auto simp: val_bytes_def)
  have lr: "length ?r = length ks * w"
    using length_concat_val_bytes [OF Cons.prems(2), of "map ((!) vs) ks"] by (simp add: comp_def)
  have fit: "off + w + length ks * w \<le> length dst" using Cons.prems(3) by simp
  then obtain d where d: "put dst off ?v = Some d" using lv by (auto simp: put_def)
  have "put_vals dst off w vs (k # ks) = put_vals d (off + w) w vs ks"
    using Cons.prems(1,2) d by (auto simp: val_bytes_def PutByte_def PutUint32_def)
  also have "\<dots> = map_option (\<lambda>d. (d, off + w + length ks * w)) (put d (off + w) ?r)"
    using Cons.IH [of "off + w" d] Cons.prems fit length_put [OF d] by auto
  also have "put d (off + w) ?r = put dst off (?v @ ?r)"
    using put_put_adjacent [of "off + w" off ?v dst ?r] d lv by simp
  finally show ?case by (simp add: add.assoc)
qed

lemma encode_line_bytes:
  assumes "wf_line l" "off + length (line_bytes i l) \<le> length dst"
  shows "encode_line dst off i l (take 255 (ln_Note l)) (width_of l)
    = map_option (\<lambda>d. (d, off + length (line_bytes i l))) (put dst off (line_bytes i l))"
proof -
  let ?note = "map byte_of_char (take 255 (ln_Note l))" and ?w = "width_of l"
  let ?vs = "concat (map (val_bytes ?w) (vals_of l))"
  define h where "h = le_bytes 4 (unat (word_of_nat i :: u32)) @ le_bytes 8 (unat (ln_Sample l))
     @ [if ?w = 1 then ln_N l OR 0x80 else ln_N l]
     @ le_bytes 2 (unat (ln_Errs l)) @ le_bytes 2 (unat (ln_Naks l)) @ [word_of_nat (length (take 255 (ln_Note l)))]"
  have lb: "line_bytes i l = h @ ?note @ ?vs" by (simp add: line_bytes_def h_def)
  have lh: "length h = 18" by (simp add: h_def)
  have lv: "length ?vs = unat (ln_N l) * ?w"
    using length_concat_val_bytes [OF width_of_cases] length_vals_of [OF assms(1)] by simp
  have vk: "concat (map (\<lambda>k. val_bytes ?w (ln_Vals l ! k)) [0..<unat (ln_N l)]) = ?vs"
  proof -
    have "vals_of l = map ((!) (ln_Vals l)) [0..<unat (ln_N l)]"
      using assms(1) by (auto simp: vals_of_def wf_line_def take_map [symmetric] map_nth
          intro: nth_equalityI)
    then show ?thesis by (simp add: comp_def)
  qed
  have fit: "off + 18 + length ?note + unat (ln_N l) * ?w \<le> length dst"
    using assms(2) lb lh lv by simp
  obtain d where d: "put dst off h = Some d" using fit lh by (auto simp: put_def)
  have "encode_line dst off i l (take 255 (ln_Note l)) ?w
      = Option.bind (put dst off h) (\<lambda>d. Option.bind (copy_at d (off + 18) ?note)
          (\<lambda>(d, n). put_vals d (off + 18 + n) ?w (ln_Vals l) [0..<unat (ln_N l)]))"
    unfolding encode_line_def Put_defs h_def
    by (simp add: put_bind_adjacent put_bind_adjacent [of _ _ "_ @ _"] add.assoc)
  also have "\<dots> = Option.bind (copy_at d (off + 18) ?note)
          (\<lambda>(d, n). put_vals d (off + 18 + n) ?w (ln_Vals l) [0..<unat (ln_N l)])"
    by (simp add: d)
  finally have e1: "encode_line dst off i l (take 255 (ln_Note l)) ?w = \<dots>" .
  obtain d2 where d2: "put d (off + 18) ?note = Some d2"
    using fit length_put [OF d] by (auto simp: put_def)
  have cp: "copy_at d (off + 18) ?note = Some (d2, length ?note)"
    using fit length_put [OF d] d2 by (simp add: copy_at_def)
  have sub: "set [0..<unat (ln_N l)] \<subseteq> {..<length (ln_Vals l)}"
    using assms(1) by (auto simp: wf_line_def)
  have pv: "put_vals d2 (off + 18 + length ?note) ?w (ln_Vals l) [0..<unat (ln_N l)]
      = map_option (\<lambda>d. (d, off + 18 + length ?note + unat (ln_N l) * ?w)) (put d2 (off + 18 + length ?note) ?vs)"
    using put_vals_bytes [OF sub width_of_cases, of "off + 18 + length ?note" l d2]
      fit length_put [OF d] length_put [OF d2] vk by simp
  have "put d2 (off + 18 + length ?note) ?vs = put d (off + 18) (?note @ ?vs)"
    using put_put_adjacent [of "off + 18 + length ?note" "off + 18" ?note d ?vs] d2 by simp
  also have "\<dots> = put dst off (h @ ?note @ ?vs)"
    using put_put_adjacent [of "off + 18" off h dst "?note @ ?vs"] d lh by simp
  finally have "put d2 (off + 18 + length ?note) ?vs = put dst off (line_bytes i l)"
    by (simp add: lb)
  then show ?thesis
    using e1 cp pv lh lv lb by (simp add: add.assoc)
qed


section \<open>The encoding loop\<close>

abbreviation line_at :: "transcript \<Rightarrow> nat \<Rightarrow> tline" where
  "line_at t i \<equiv> held t ! (i - tBase t)"

lemma width_line_bytes_le: "wf_line l \<Longrightarrow> length (line_bytes i l) \<le> MaxLineBytes"
  using width_of_cases [of l] mult_le_mono [of "unat (ln_N l)" 16 "width_of l" 4]
  by (auto simp: length_line_bytes MaxLineBytes_def wf_line_def)

lemma encode_loop_bytes:
  assumes "\<forall>l \<in> set (held t). wf_line l"
    and "set is \<subseteq> {tBase t..<tNext t}" "off \<le> length dst" "count \<le> 0xffff"
  shows "\<exists>k d. k \<le> length is \<and> count + k \<le> 0xffff \<and> length d = length dst
    \<and> off + length (concat (map (\<lambda>i. line_bytes i (line_at t i)) (take k is))) \<le> length dst
    \<and> encode_loop t is dst off count
        = Some (d, off + length (concat (map (\<lambda>i. line_bytes i (line_at t i)) (take k is))), count + k)
    \<and> take (off + length (concat (map (\<lambda>i. line_bytes i (line_at t i)) (take k is)))) d
        = take off dst @ concat (map (\<lambda>i. line_bytes i (line_at t i)) (take k is))
    \<and> (k < length is \<longrightarrow> count + k = 0xffff \<or>
         length dst < off + length (concat (map (\<lambda>i. line_bytes i (line_at t i)) (take k is))) + MaxLineBytes)"
  using assms(2-)
proof (induction "is" arbitrary: dst off count)
  case Nil
  then show ?case by simp
next
  case (Cons i "is")
  let ?l = "line_at t i"
  let ?bs = "line_bytes i ?l"
  have i: "i - tBase t < length (tr_lines t)"
    using Cons.prems(1) by (auto simp: tNext_def tBase_def)
  then have at: "tAt t (i - tr_dropped t) = Some ?l"
    using tAt_held by (simp add: tBase_def)
  have w: "wf_line ?l"
    using assms(1) i by (simp add: nth_mem)
  have lb: "length ?bs = 4 + 8 + 1 + 2 + 2 + 1 + length (take 255 (ln_Note ?l)) + unat (ln_N ?l) * width_of ?l"
    using length_line_bytes [OF w] by simp
  have step: "encode_loop t (i # is) dst off count =
      (if length dst < off + length ?bs \<or> count = 0xffff then Some (dst, off, count)
       else Option.bind (put dst off ?bs) (\<lambda>d. encode_loop t is d (off + length ?bs) (count + 1)))"
  proof (cases "length dst < off + length ?bs \<or> count = 0xffff")
    case True
    then show ?thesis
      unfolding lb by (simp add: at scan_width_width_of [OF w] Let_def)
  next
    case False
    then have "encode_line dst off i ?l (take 255 (ln_Note ?l)) (width_of ?l)
        = map_option (\<lambda>d. (d, off + length ?bs)) (put dst off ?bs)"
      by (intro encode_line_bytes [OF w]) simp
    moreover obtain d where "put dst off ?bs = Some d"
      using False by (auto simp: put_def)
    ultimately show ?thesis
      using False unfolding lb by (simp add: at scan_width_width_of [OF w] Let_def)
  qed
  show ?case
  proof (cases "length dst < off + length ?bs \<or> count = 0xffff")
    case True
    then show ?thesis
      using Cons.prems width_line_bytes_le [OF w, of i]
      by (intro exI [of _ 0] exI [of _ dst]) (auto simp: step simp del: encode_loop.simps)
  next
    case False
    then obtain d where d: "put dst off ?bs = Some d" by (auto simp: put_def)
    have ld: "length d = length dst" by (rule length_put [OF d])
    from Cons.IH [of "off + length ?bs" d "count + 1"] Cons.prems False ld
    obtain k d' where k: "k \<le> length is" "count + 1 + k \<le> 0xffff" "length d' = length dst"
      "off + length ?bs + length (concat (map (\<lambda>i. line_bytes i (line_at t i)) (take k is))) \<le> length dst"
      "encode_loop t is d (off + length ?bs) (count + 1) = Some (d', off + length ?bs
          + length (concat (map (\<lambda>i. line_bytes i (line_at t i)) (take k is))), count + 1 + k)"
      "take (off + length ?bs + length (concat (map (\<lambda>i. line_bytes i (line_at t i)) (take k is)))) d'
          = take (off + length ?bs) d @ concat (map (\<lambda>i. line_bytes i (line_at t i)) (take k is))"
      "k < length is \<longrightarrow> count + 1 + k = 0xffff \<or> length dst < off + length ?bs
          + length (concat (map (\<lambda>i. line_bytes i (line_at t i)) (take k is))) + MaxLineBytes"
      by auto
    have "take (off + length ?bs) d = take off dst @ ?bs" by (rule take_put [OF d])
    then show ?thesis
      using k False by (intro exI [of _ "Suc k"] exI [of _ d']) (auto simp: step d add.assoc simp del: encode_loop.simps)
  qed
qed

section \<open>The header\<close>

definition header_bytes :: "transcript \<Rightarrow> nat \<Rightarrow> byte list" where
  "header_bytes t count = le_bytes 4 (unat (word_of_nat (tBase t) :: u32)) @ le_bytes 4 (unat (word_of_nat (tNext t) :: u32))
     @ le_bytes 8 (unat (ct_Events (tr_counters t))) @ le_bytes 8 (unat (ct_Units (tr_counters t)))
     @ le_bytes 8 (unat (ct_Lost (tr_counters t))) @ le_bytes 8 (unat (ct_Errors (tr_counters t)))
     @ [if tr_triggerHint t then 1 else 0] @ le_bytes 2 (unat (word_of_nat count :: u16))"

lemma length_header_bytes [simp]: "length (header_bytes t c) = 43"
  by (simp add: header_bytes_def)

lemma put_header_bytes: "put_header t c dst = put dst 0 (header_bytes t c)"
  unfolding put_header_def header_bytes_def Put_defs TakeTriggerHint_def
  by (simp add: put_bind_adjacent put_put_adjacent add.assoc)


section \<open>Reading the bytes back\<close>

lemma small_count_bits_all:
  "list_all (\<lambda>k. let n = word_of_nat k :: byte in (n OR 0x80) AND 0x7f = n \<and> (n OR 0x80) AND 0x80 \<noteq> 0
     \<and> n AND 0x7f = n \<and> n AND 0x80 = 0) [0..<17]"
  by code_simp

lemma small_count_bits:
  assumes "unat (n :: byte) \<le> 16"
  shows "(n OR 0x80) AND 0x7f = n" "(n OR 0x80) AND 0x80 \<noteq> 0" "n AND 0x7f = n" "n AND 0x80 = 0"
proof -
  have "unat n \<in> set [0..<17]" using assms by simp
  with small_count_bits_all
  have "let m = word_of_nat (unat n) :: byte in (m OR 0x80) AND 0x7f = m \<and> (m OR 0x80) AND 0x80 \<noteq> 0
     \<and> m AND 0x7f = m \<and> m AND 0x80 = 0"
    unfolding list_all_iff by blast
  then show "(n OR 0x80) AND 0x7f = n" "(n OR 0x80) AND 0x80 \<noteq> 0" "n AND 0x7f = n" "n AND 0x80 = 0"
    by (simp_all add: Let_def)
qed

lemma ucast_low_byte: "v \<le> (0xff :: u32) \<Longrightarrow> ucast (ucast (v AND 0xff) :: byte) = v"
proof -
  assume "v \<le> 0xff"
  then have l: "unat v < 256" by (simp add: word_le_nat_alt)
  have "v AND 0xff = take_bit 8 v" by (simp add: take_bit_eq_mask mask_eq_exp_minus_1)
  also have "\<dots> = v" using l by (simp add: word_unat_eq_iff unsigned_take_bit_eq take_bit_nat_eq_self)
  finally have e: "v AND 0xff = v" .
  show ?thesis unfolding e using l by (simp add: word_unat_eq_iff unsigned_ucast_eq unsigned_take_bit_eq take_bit_nat_eq_self)
qed

lemma get_vals_bytes:
  "w \<in> {1, 4} \<Longrightarrow> (w = 1 \<Longrightarrow> \<forall>u \<in> set us. u \<le> 0xff) \<Longrightarrow> k + length us \<le> length vs \<Longrightarrow>
   b = pre @ concat (map (val_bytes w) us) @ post \<Longrightarrow> off = length pre \<Longrightarrow>
   get_vals b off w vs [k..<k + length us]
     = Some (take k vs @ us @ drop (k + length us) vs, length pre + length us * w)"
proof (induction us arbitrary: pre k vs off)
  case Nil
  then show ?case by simp
next
  case (Cons u us)
  have up: "[k..<k + length (u # us)] = k # [Suc k..<Suc k + length us]"
    by (subst upt_conv_Cons) simp_all
  have b: "b = (pre @ val_bytes w u) @ concat (map (val_bytes w) us) @ post"
    using Cons.prems(4) by simp
  have lv: "length (val_bytes w u) = w" using Cons.prems(1) by (auto simp: val_bytes_def)
  have rec: "get_vals b (off + w) w (vs[k := u]) [Suc k..<Suc k + length us]
      = Some (take (Suc k) (vs[k := u]) @ us @ drop (Suc k + length us) (vs[k := u]),
              length (pre @ val_bytes w u) + length us * w)"
    using Cons.prems lv b by (intro Cons.IH [where pre = "pre @ val_bytes w u"]) auto
  have "get_vals b off w vs (k # [Suc k..<Suc k + length us])
      = get_vals b (off + w) w (vs[k := u]) [Suc k..<Suc k + length us]"
  proof (cases "w = 1")
    case True
    then have "ByteAt b off = Some (ucast (u AND 0xff))" "u \<le> 0xff"
      using Cons.prems by (auto simp: ByteAt_def val_bytes_def nth_append)
    then show ?thesis
      using True Cons.prems(3) by (simp add: ucast_low_byte)
  next
    case False
    then have "Uint32 b off = Some u"
      using Cons.prems by (simp add: Uint32_def val_bytes_def rd_append le_simps)
    then show ?thesis
      using False Cons.prems(1,3) by simp
  qed
  moreover have "take (Suc k) (vs[k := u]) = take k vs @ [u]"
    using Cons.prems(3) by (simp add: take_Suc_conv_app_nth)
  ultimately show ?case
    using rec lv unfolding up by (simp add: Cons.prems(5))
qed

lemma decode_loop_line:
  assumes w: "wf_line l" and b: "b = pre @ line_bytes i l @ post" and off: "off = length pre"
  shows "decode_loop b (Suc n) c off bt = decode_loop b n (c + 1) (off + length (line_bytes i l))
    (bt\<lparr>bt_Indices := bt_Indices bt @ [sint (word_of_nat i :: u32)], bt_Lines := bt_Lines bt @ [wire_line l]\<rparr>)"
proof -
  let ?note = "take 255 (ln_Note l)"
  let ?nb = "if width_of l = 1 then ln_N l OR 0x80 else ln_N l"
  let ?vs = "concat (map (val_bytes (width_of l)) (vals_of l))"
  have N: "unat (ln_N l) \<le> 16" using w by (simp add: wf_line_def)
  note nb = small_count_bits [OF N]
  have lvs: "length ?vs = unat (ln_N l) * width_of l"
    using length_concat_val_bytes [OF width_of_cases] length_vals_of [OF w] by simp
  have reads: "Uint32 b off = Some (word_of_nat i)" "Uint64 b (off + 4) = Some (ln_Sample l)"
    "ByteAt b (off + 12) = Some ?nb" "Uint16 b (off + 13) = Some (ln_Errs l)"
    "Uint16 b (off + 15) = Some (ln_Naks l)" "ByteAt b (off + 17) = Some (word_of_nat (length ?note))"
    by (simp_all add: b off line_bytes_def Get_defs le_simps nth_append)
  have nl: "unat (word_of_nat (length ?note) :: byte) = length ?note"
    by (simp add: unat_of_nat)
  have len: "\<not> length b < off + 18" "\<not> length b < off + 18 + length ?note + unat (ln_N l) * width_of l"
    using length_line_bytes [OF w, of i] by (simp_all add: b off)
  have rdn: "(if 0 < length ?note then rd (length ?note) b (off + 18) else Some []) = Some (map byte_of_char ?note)"
    by (simp add: b off line_bytes_def)
  obtain h where h: "line_bytes i l = h @ map byte_of_char ?note @ ?vs" "length h = 18"
    by (simp add: line_bytes_def)
  have gv: "get_vals b (off + 18 + length ?note) (width_of l) (replicate 16 0) [0..<unat (ln_N l)]
      = Some (vals_of l @ replicate (16 - unat (ln_N l)) 0, off + length (line_bytes i l))"
  proof -
    have small: "width_of l = 1 \<Longrightarrow> \<forall>u \<in> set (vals_of l). u \<le> 0xff"
      by (auto simp: width_of_def not_less split: if_splits)
    have bb: "b = (pre @ h @ map byte_of_char ?note) @ ?vs @ post"
      by (simp add: b h)
    have "off + 18 + length ?note = length (pre @ h @ map byte_of_char ?note)"
      using h(2) by (simp add: off)
    from get_vals_bytes [OF width_of_cases small _ bb this, of 0 "replicate 16 0"]
    show ?thesis
      using length_vals_of [OF w] N lvs h by (simp add: off)
  qed
  have wl: "\<lparr>ln_Sample = ln_Sample l, ln_Vals = vals_of l @ replicate (16 - unat (ln_N l)) 0, ln_N = ln_N l,
      ln_Errs = ln_Errs l, ln_Naks = ln_Naks l, ln_Note = map char_of_byte (map byte_of_char ?note)\<rparr> = wire_line l"
    by (cases l) (simp add: wire_line_def)
  have nN: "?nb AND 0x7f = ln_N l" "(if ?nb AND 0x80 \<noteq> 0 then 1 else 4) = width_of l"
    using nb width_of_cases [of l] by auto
  have g16: "\<not> 16 < ln_N l" using N by (simp add: word_less_nat_alt)
  show ?thesis
    by (simp only: decode_loop.simps len if_False reads Option.bind.bind_lunit Let_def nN nl g16 simp_thms rdn gv
        case_prod_conv wl)
qed


lemma decode_loop_lines:
  assumes "\<forall>i \<in> set is. wf_line (f i)" and "b = pre @ concat (map (\<lambda>i. line_bytes i (f i)) is)" and "off = length pre"
  shows "decode_loop b (length is) c off bt = Some
    (bt\<lparr>bt_Indices := bt_Indices bt @ map (\<lambda>i. sint (word_of_nat i :: u32)) is,
        bt_Lines := bt_Lines bt @ map (\<lambda>i. wire_line (f i)) is\<rparr>, None)"
  using assms
proof (induction "is" arbitrary: pre off c bt)
  case Nil
  then show ?case by simp
next
  case (Cons i "is")
  have w: "wf_line (f i)" using Cons.prems(1) by simp
  have b: "b = pre @ line_bytes i (f i) @ concat (map (\<lambda>i. line_bytes i (f i)) is)"
    using Cons.prems(2) by simp
  have "decode_loop b (length (i # is)) c off bt = decode_loop b (length is) (c + 1)
      (off + length (line_bytes i (f i)))
      (bt\<lparr>bt_Indices := bt_Indices bt @ [sint (word_of_nat i :: u32)], bt_Lines := bt_Lines bt @ [wire_line (f i)]\<rparr>)"
    using decode_loop_line [OF w b Cons.prems(3)] by simp
  also have "\<dots> = Some
    (bt\<lparr>bt_Indices := (bt_Indices bt @ [sint (word_of_nat i :: u32)]) @ map (\<lambda>i. sint (word_of_nat i :: u32)) is,
        bt_Lines := (bt_Lines bt @ [wire_line (f i)]) @ map (\<lambda>i. wire_line (f i)) is\<rparr>, None)"
    using Cons.prems b Cons.IH [of "pre @ line_bytes i (f i)" "off + length (line_bytes i (f i))"] by simp
  finally show ?case by simp
qed

lemma decode_header:
  assumes "b = header_bytes t c @ rest" "c \<le> 0xffff"
  shows "DecodeLines b = decode_loop b c 0 43
    (zero_batch\<lparr>bt_Base := sint (word_of_nat (tBase t) :: u32), bt_Next := sint (word_of_nat (tNext t) :: u32),
       bt_Counters := tr_counters t, bt_TriggerHint := tr_triggerHint t\<rparr>)"
proof -
  have "Uint32 b 0 = Some (word_of_nat (tBase t))" "Uint32 b 4 = Some (word_of_nat (tNext t))"
    "Uint64 b 8 = Some (ct_Events (tr_counters t))" "Uint64 b 16 = Some (ct_Units (tr_counters t))"
    "Uint64 b 24 = Some (ct_Lost (tr_counters t))" "Uint64 b 32 = Some (ct_Errors (tr_counters t))"
    "ByteAt b 40 = Some (if tr_triggerHint t then 1 else 0)" "Uint16 b 41 = Some (word_of_nat c)"
    by (simp_all add: assms(1) header_bytes_def Get_defs le_simps nth_append)
  moreover have "unat (word_of_nat c :: u16) = c" using assms(2) by (simp add: unat_of_nat)
  moreover have "\<not> length b < 43" by (simp add: assms(1))
  moreover have cs: "\<lparr>ct_Events = ct_Events (tr_counters t), ct_Units = ct_Units (tr_counters t),
      ct_Lost = ct_Lost (tr_counters t), ct_Errors = ct_Errors (tr_counters t)\<rparr> = tr_counters t"
    by simp
  ultimately show ?thesis by (simp add: DecodeLines_def batchHeader_def cs)
qed

section \<open>Properties of the wire format\<close>

text \<open>
  C9: What \<open>EncodeLines\<close> writes, \<open>DecodeLines\<close> reads back: for a buffer that holds a header and any
  transcript whose lines have at most sixteen units, encoding never panics, uses at most the
  buffer, and the used bytes decode without error to the counters, the trigger hint, the index
  bounds and the first \<open>k\<close> lines from \<open>from\<close> on, each with its index and with its note cut to 255
  bytes. Encoding stops early only at 65535 lines or when less than the longest line is left.
\<close>

theorem EncodeLines_DecodeLines:
  assumes "43 \<le> length dst" and "\<forall>l \<in> set (held t). wf_line l"
  shows "\<exists>n dst' k. EncodeLines t start dst = Some (n, dst', t\<lparr>tr_triggerHint := False\<rparr>)
    \<and> n \<le> length dst \<and> length dst' = length dst \<and> k \<le> tNext t - enc_start t start
    \<and> (k < tNext t - enc_start t start \<longrightarrow> k = 0xffff \<or> length dst < n + MaxLineBytes)
    \<and> DecodeLines (take n dst') = Some (\<lparr>bt_Base = sint (word_of_nat (tBase t) :: u32),
          bt_Next = sint (word_of_nat (tNext t) :: u32), bt_Counters = tr_counters t,
          bt_TriggerHint = tr_triggerHint t,
          bt_Indices = map (\<lambda>i. sint (word_of_nat i :: u32)) [enc_start t start..<enc_start t start + k],
          bt_Lines = map wire_line (take k (drop (enc_start t start - tBase t) (held t)))\<rparr>, None)"
proof -
  define lo where "lo = enc_start t start"
  let ?is = "[lo..<tNext t]"
  have lo: "tBase t \<le> lo" "lo \<le> tNext t"
    by (auto simp: lo_def enc_start_def tNext_def tBase_def)
  have sub: "set ?is \<subseteq> {tBase t..<tNext t}" using lo by auto
  obtain k d where k: "k \<le> tNext t - lo" "k \<le> 0xffff" "length d = length dst"
    "43 + length (concat (map (\<lambda>i. line_bytes i (line_at t i)) (take k ?is))) \<le> length dst"
    "encode_loop t ?is dst 43 0
        = Some (d, 43 + length (concat (map (\<lambda>i. line_bytes i (line_at t i)) (take k ?is))), k)"
    "take (43 + length (concat (map (\<lambda>i. line_bytes i (line_at t i)) (take k ?is)))) d
        = take 43 dst @ concat (map (\<lambda>i. line_bytes i (line_at t i)) (take k ?is))"
    "k < tNext t - lo \<longrightarrow> k = 0xffff \<or>
       length dst < 43 + length (concat (map (\<lambda>i. line_bytes i (line_at t i)) (take k ?is))) + MaxLineBytes"
    using encode_loop_bytes [OF assms(2) sub assms(1), of 0] by auto
  define js where "js = take k ?is"
  define body where "body = concat (map (\<lambda>i. line_bytes i (line_at t i)) js)"
  have js: "js = [lo..<lo + k]" using k(1) lo(2) by (simp add: js_def take_upt)
  note k = k [folded js_def, folded body_def]
  obtain d' where d': "put d 0 (header_bytes t k) = Some d'"
    using k(3) assms(1) by (auto simp: put_def)
  let ?n = "43 + length body"
  have enc: "EncodeLines t start dst = Some (?n, d', t\<lparr>tr_triggerHint := False\<rparr>)"
    using assms(1) k(5) d' unfolding EncodeLines_def batchHeader_def lo_def [symmetric]
    by (simp add: put_header_bytes TakeTriggerHint_def Let_def)
  have "take ?n d' = header_bytes t k @ take (length body) (drop 43 d)"
    using d' by (auto simp: put_def split: if_splits)
  also have "take (length body) (drop 43 d) = body"
  proof -
    have "drop 43 (take ?n d) = body" unfolding k(6) using assms(1) by simp
    then show ?thesis by (simp add: drop_take)
  qed
  finally have tk: "take ?n d' = header_bytes t k @ body" .
  have wj: "\<forall>i \<in> set js. wf_line (line_at t i)"
  proof
    fix i assume "i \<in> set js"
    then have "i - tBase t < length (held t)"
      using k(1) lo by (auto simp: js tNext_def tBase_def)
    then show "wf_line (line_at t i)" using assms(2) nth_mem by blast
  qed
  have "DecodeLines (take ?n d') = decode_loop (take ?n d') (length js) 0 43
    (zero_batch\<lparr>bt_Base := sint (word_of_nat (tBase t) :: u32), bt_Next := sint (word_of_nat (tNext t) :: u32),
       bt_Counters := tr_counters t, bt_TriggerHint := tr_triggerHint t\<rparr>)"
    using decode_header [OF tk k(2)] by (simp add: js)
  also have "\<dots> = Some (\<lparr>bt_Base = sint (word_of_nat (tBase t) :: u32),
          bt_Next = sint (word_of_nat (tNext t) :: u32), bt_Counters = tr_counters t,
          bt_TriggerHint = tr_triggerHint t,
          bt_Indices = map (\<lambda>i. sint (word_of_nat i :: u32)) js,
          bt_Lines = map (\<lambda>i. wire_line (line_at t i)) js\<rparr>, None)"
    using decode_loop_lines [OF wj tk [unfolded body_def], of 43] by (simp add: zero_batch_def body_def)
  also have "map (\<lambda>i. wire_line (line_at t i)) js = map wire_line (take k (drop (lo - tBase t) (held t)))"
  proof (rule nth_equalityI)
    show "length (map (\<lambda>i. wire_line (line_at t i)) js) = length (map wire_line (take k (drop (lo - tBase t) (held t))))"
      using k(1) lo by (simp add: js tNext_def tBase_def)
    fix m assume "m < length (map (\<lambda>i. wire_line (line_at t i)) js)"
    then have m: "m < k" by (simp add: js)
    then have "lo + m - tBase t = (lo - tBase t) + m" "lo - tBase t + m < length (tr_lines t)"
      using k(1) lo by (auto simp: tNext_def tBase_def)
    then show "map (\<lambda>i. wire_line (line_at t i)) js ! m = map wire_line (take k (drop (lo - tBase t) (held t))) ! m"
      using m by (simp add: js)
  qed
  finally show ?thesis
    using enc k(1,4,7) length_put [OF d'] k(3) unfolding js lo_def
    by (intro exI [of _ ?n] exI [of _ d'] exI [of _ k]) simp
qed

theorem EncodeLines_DecodeLines_witness:
  "\<exists>n dst'. EncodeLines (NewTranscript 1 2) 0 (replicate 100 0)
      = Some (n, dst', (NewTranscript 1 2)\<lparr>tr_triggerHint := False\<rparr>) \<and> n \<le> 100"
proof -
  have "43 \<le> length (replicate 100 (0 :: byte))" "\<forall>l \<in> set (held (NewTranscript 1 2)). wf_line l"
    by (simp_all add: held_def NewTranscript_def Reset_def)
  from EncodeLines_DecodeLines [OF this, of 0] show ?thesis by auto
qed

text \<open>
  \<open>DecodeLines\<close> never panics, whatever bytes it is given: a hostile or truncated batch is an error
  value, and so is every bad line in it.
\<close>

theorem DecodeLines_never_panics: "\<exists>bt err. DecodeLines b = Some (bt, err)"
  using DecodeLines_total [of b] by auto

end
