(* ===== verification/Stick.thy ===== *)
theory Stick
  imports Prelude
begin

text \<open>
  The file system under the agent, as the \<open>os\<close> package shows it: files by path, and for every call
  the outcome the kernel gives it. The outcomes come from a script, one per call and \<open>Succeed\<close> when
  the script is used up, so a theorem that holds for every script holds for every pattern of I/O
  errors and for a power cut at any point:

  \<^item> \<open>Fail\<close>: the call returns an error and changes nothing;
  \<^item> \<open>Short n\<close>: a write stops after \<open>n\<close> bytes and returns an error;
  \<^item> \<open>Cut n\<close>: the power goes, a write having reached \<open>n\<close> bytes, an atomic call having happened when
    \<open>n > 0\<close>; every later call then does nothing.

  What a process reads back (\<open>sy_files\<close>) is not what a boot finds after the power is cut: written data
  stays in memory until a \<open>Sync\<close> of the file. \<open>sy_synced\<close> are the paths whose file has all its data
  on the stick, and \<open>sy_boot\<close> is, per path, every content (\<^term>\<open>None\<close>: no file) that a boot may find if
  the power goes at this moment:

  \<^item> a file written, truncated or created and not synced since may be found with any content, or be missing;
  \<^item> a \<open>Sync\<close> that succeeds leaves the file's own content, or no file, its directory entry being possibly
    not out yet;
  \<^item> a rename may or may not have reached the stick: at the target is found what was to be found before, or
    the renamed file, whole only if it was synced;
  \<^item> nothing else ever settles a file, so these are all the contents since the start, not the likely ones.

  One thing is assumed of the stick: the directory entry a rename replaces is found old or new. FAT does
  not promise it (a comment at the top of \<open>slots.go\<close> says so); \<open>CopyExecutable\<close> relies on it.
  Directories hold no content and are not represented.
\<close>

type_synonym path = string

datatype outcome = Succeed | Fail | Short nat | Cut nat

record fnode =
  fl_data :: "byte list"
  fl_ino :: nat
  fl_mod :: int
  fl_mode :: nat
  fl_reg :: bool

record sys =
  sy_files :: "path \<rightharpoonup> fnode"
  sy_script :: "outcome list"
  sy_dead :: bool
  sy_now :: int
  sy_nextino :: nat
  sy_synced :: "path set"
  sy_boot :: "path \<Rightarrow> byte list option set"

definition pop :: "sys \<Rightarrow> outcome \<times> sys" where
  "pop s = (if sy_dead s then (Fail, s)
     else case sy_script s of [] \<Rightarrow> (Succeed, s) | x # xs \<Rightarrow> (x, s\<lparr>sy_script := xs\<rparr>))"

text \<open>A call that happens entirely or not at all, and one that may stop after \<open>n\<close> bytes.\<close>

definition atomic_op :: "(sys \<Rightarrow> sys) \<Rightarrow> sys \<Rightarrow> bool \<times> sys" where
  "atomic_op eff s = (case pop s of
       (Succeed, s) \<Rightarrow> (True, eff s)
     | (Cut n, s) \<Rightarrow> (False, (if n = 0 then s else eff s)\<lparr>sy_dead := True\<rparr>)
     | (_, s) \<Rightarrow> (False, s))"

definition partial_op :: "nat \<Rightarrow> (nat \<Rightarrow> sys \<Rightarrow> sys) \<Rightarrow> sys \<Rightarrow> nat \<times> bool \<times> sys" where
  "partial_op len eff s = (case pop s of
       (Succeed, s) \<Rightarrow> (len, True, eff len s)
     | (Fail, s) \<Rightarrow> (0, False, s)
     | (Short n, s) \<Rightarrow> (min n len, False, eff (min n len) s)
     | (Cut n, s) \<Rightarrow> (min n len, False, (eff (min n len) s)\<lparr>sy_dead := True\<rparr>))"

section \<open>Calls\<close>

text \<open>The file at a path has data that is not on the stick.\<close>

definition dirty :: "path \<Rightarrow> sys \<Rightarrow> sys" where
  "dirty p s = s\<lparr>sy_synced := sy_synced s - {p}, sy_boot := (sy_boot s)(p := UNIV)\<rparr>"

definition new_file :: "path \<Rightarrow> nat \<Rightarrow> sys \<Rightarrow> sys" where
  "new_file p mode s = (dirty p s)\<lparr>sy_nextino := Suc (sy_nextino s),
     sy_files := (sy_files s)(p \<mapsto> \<lparr>fl_data = [], fl_ino = sy_nextino s, fl_mod = sy_now s,
       fl_mode = mode, fl_reg = True\<rparr>)\<rparr>"

text \<open>\<open>O_CREATE|O_TRUNC\<close>: a file that exists keeps its inode and mode.\<close>

definition open_trunc :: "path \<Rightarrow> nat \<Rightarrow> sys \<Rightarrow> bool \<times> sys" where
  "open_trunc p mode = atomic_op (\<lambda>s. case sy_files s p of
       None \<Rightarrow> new_file p mode s
     | Some f \<Rightarrow> (dirty p s)\<lparr>sy_files := (sy_files s)(p \<mapsto> f\<lparr>fl_data := [], fl_mod := sy_now s\<rparr>)\<rparr>)"

text \<open>\<open>pwrite\<close>: a gap before the offset reads as zeros.\<close>

definition splice :: "byte list \<Rightarrow> nat \<Rightarrow> byte list \<Rightarrow> byte list" where
  "splice b off d = (if d = [] then b
     else take off (b @ replicate (off - length b) 0) @ d @ drop (off + length d) b)"

definition write_eff :: "path \<Rightarrow> nat \<Rightarrow> byte list \<Rightarrow> nat \<Rightarrow> sys \<Rightarrow> sys" where
  "write_eff p off d n s = (case sy_files s p of
       None \<Rightarrow> s
     | Some f \<Rightarrow> (dirty p s)\<lparr>sy_files := (sy_files s)(p \<mapsto>
         f\<lparr>fl_data := splice (fl_data f) off (take n d), fl_mod := sy_now s\<rparr>)\<rparr>)"

definition write_at :: "path \<Rightarrow> nat \<Rightarrow> byte list \<Rightarrow> sys \<Rightarrow> nat \<times> bool \<times> sys" where
  "write_at p off d = partial_op (length d) (write_eff p off d)"

text \<open>\<open>fsync\<close> of an open file; of a directory it is best effort, as FAT may not support it, and promises nothing.\<close>

definition sync :: "path \<Rightarrow> sys \<Rightarrow> bool \<times> sys" where
  "sync p = atomic_op (\<lambda>s. case sy_files s p of
       None \<Rightarrow> s
     | Some f \<Rightarrow> s\<lparr>sy_synced := insert p (sy_synced s), sy_boot := (sy_boot s)(p := {None, Some (fl_data f)})\<rparr>)"

definition sync_dir :: "sys \<Rightarrow> bool \<times> sys" where "sync_dir = atomic_op (\<lambda>s. s)"

definition close :: "sys \<Rightarrow> bool \<times> sys" where "close = atomic_op (\<lambda>s. s)"

definition mkdir_all :: "path \<Rightarrow> sys \<Rightarrow> bool \<times> sys" where "mkdir_all p = atomic_op (\<lambda>s. s)"

definition rename_eff :: "path \<Rightarrow> path \<Rightarrow> fnode \<Rightarrow> sys \<Rightarrow> sys" where
  "rename_eff a b f s = s\<lparr>sy_files := (sy_files s)(a := None, b \<mapsto> f),
     sy_synced := (if a \<in> sy_synced s then insert b (sy_synced s - {a}) else sy_synced s - {a, b}),
     sy_boot := (sy_boot s)(a := insert None (sy_boot s a),
       b := (if a \<in> sy_synced s then insert (Some (fl_data f)) (sy_boot s b) else UNIV))\<rparr>"

definition rename :: "path \<Rightarrow> path \<Rightarrow> sys \<Rightarrow> bool \<times> sys" where
  "rename a b s = (case sy_files s a of
       None \<Rightarrow> (False, snd (pop s))
     | Some f \<Rightarrow> atomic_op (rename_eff a b f) s)"

definition remove :: "path \<Rightarrow> sys \<Rightarrow> bool \<times> sys" where
  "remove p s = (case sy_files s p of
       None \<Rightarrow> (False, snd (pop s))
     | Some f \<Rightarrow> atomic_op (\<lambda>s. s\<lparr>sy_files := (sy_files s)(p := None), sy_synced := sy_synced s - {p},
         sy_boot := (sy_boot s)(p := insert None (sy_boot s p))\<rparr>) s)"

definition chmod :: "path \<Rightarrow> nat \<Rightarrow> sys \<Rightarrow> bool \<times> sys" where
  "chmod p mode s = (case sy_files s p of
       None \<Rightarrow> (False, snd (pop s))
     | Some f \<Rightarrow> atomic_op (\<lambda>s. s\<lparr>sy_files := (sy_files s)(p \<mapsto> f\<lparr>fl_mode := mode\<rparr>)\<rparr>) s)"

text \<open>\<open>os.Stat\<close> and \<open>os.ReadFile\<close>: \<^term>\<open>None\<close> is the error.\<close>

definition stat :: "path \<Rightarrow> sys \<Rightarrow> fnode option \<times> sys" where
  "stat p s = (let (ok, s') = atomic_op (\<lambda>s. s) s in (if ok then sy_files s p else None, s'))"

definition read_file :: "path \<Rightarrow> sys \<Rightarrow> byte list option \<times> sys" where
  "read_file p s = (let (f, s') = stat p s in (map_option fl_data f, s'))"

text \<open>\<open>os.WriteFile\<close>: create or truncate, write, close.\<close>

definition write_file :: "path \<Rightarrow> nat \<Rightarrow> byte list \<Rightarrow> sys \<Rightarrow> bool \<times> sys" where
  "write_file p mode d s =
     (let (ok, s) = open_trunc p mode s in
      if \<not> ok then (False, s)
      else let (n, ok, s) = write_at p 0 d s;
               (okc, s) = close s
           in (ok \<and> okc, s))"

section \<open>What each call leaves alone\<close>

named_theorems fs_simps "the files after a call"

text \<open>The files a call may touch are named by its arguments.\<close>

definition same_except :: "path set \<Rightarrow> sys \<Rightarrow> sys \<Rightarrow> bool" where
  "same_except P s s' \<longleftrightarrow> (\<forall>q. q \<notin> P \<longrightarrow> sy_files s' q = sy_files s q)"

lemma same_except_refl [simp]: "same_except P s s"
  by (simp add: same_except_def)

lemma same_except_trans: "same_except P s t \<Longrightarrow> same_except Q t u \<Longrightarrow> P \<union> Q \<subseteq> R \<Longrightarrow> same_except R s u"
  unfolding same_except_def by (metis UnCI subset_iff)

lemma pop_files [simp]: "sy_files (snd (pop s)) = sy_files s"
  by (auto simp: pop_def split: list.splits)

lemma pop_cases:
  obtains x s' where "pop s = (x, s')" "sy_files s' = sy_files s"
  by (metis pop_files prod.collapse)

lemma atomic_op_files:
  assumes "atomic_op eff s = (ok, s')"
  obtains s0 where "sy_files s0 = sy_files s"
    "ok \<and> s' = eff s0 \<or> \<not> ok \<and> (sy_files s' = sy_files s \<or> sy_files s' = sy_files (eff s0))"
proof -
  obtain x s0 where p: "pop s = (x, s0)" "sy_files s0 = sy_files s" by (rule pop_cases)
  have "ok \<and> s' = eff s0 \<or> \<not> ok \<and> (sy_files s' = sy_files s0 \<or> sy_files s' = sy_files (eff s0))"
    using assms p(1) by (auto simp: atomic_op_def split: outcome.splits if_splits)
  with p(2) show thesis by (intro that [of s0]) auto
qed

lemma atomic_op_id_files [fs_simps]: "atomic_op (\<lambda>s. s) s = (ok, s') \<Longrightarrow> sy_files s' = sy_files s"
  by (erule atomic_op_files) auto

lemma dirty_simps [simp]:
  "sy_files (dirty p s) = sy_files s" "sy_now (dirty p s) = sy_now s" "sy_nextino (dirty p s) = sy_nextino s"
  "sy_script (dirty p s) = sy_script s" "sy_dead (dirty p s) = sy_dead s"
  "sy_synced (dirty p s) = sy_synced s - {p}" "sy_boot (dirty p s) = (sy_boot s)(p := UNIV)"
  by (simp_all add: dirty_def)

lemma rename_eff_files [simp]: "sy_files (rename_eff a b f s) = (sy_files s)(a := None, b \<mapsto> f)"
  by (simp add: rename_eff_def)

lemma sync_files [fs_simps]: "sync p s = (ok, s') \<Longrightarrow> sy_files s' = sy_files s"
  unfolding sync_def by (erule atomic_op_files) (auto split: option.splits)

lemma sync_dir_files [fs_simps]: "sync_dir s = (ok, s') \<Longrightarrow> sy_files s' = sy_files s"
  by (auto simp: sync_dir_def dest: atomic_op_id_files)

lemma close_files [fs_simps]: "close s = (ok, s') \<Longrightarrow> sy_files s' = sy_files s"
  by (auto simp: close_def dest: atomic_op_id_files)

lemma mkdir_all_files [fs_simps]: "mkdir_all p s = (ok, s') \<Longrightarrow> sy_files s' = sy_files s"
  by (auto simp: mkdir_all_def dest: atomic_op_id_files)

lemma stat_files [fs_simps]: "stat p s = (r, s') \<Longrightarrow> sy_files s' = sy_files s"
  by (auto simp: stat_def split: prod.splits dest: atomic_op_id_files)

lemma stat_Some: "stat p s = (Some f, s') \<Longrightarrow> sy_files s p = Some f"
  by (auto simp: stat_def split: prod.splits if_splits)

lemma read_file_files [fs_simps]: "read_file p s = (r, s') \<Longrightarrow> sy_files s' = sy_files s"
  by (auto simp: read_file_def split: prod.splits dest: stat_files)

lemma read_file_Some: "read_file p s = (Some b, s') \<Longrightarrow> \<exists>f. sy_files s p = Some f \<and> fl_data f = b"
  by (auto simp: read_file_def split: prod.splits dest: stat_Some)

lemma write_eff_other [simp]: "q \<noteq> p \<Longrightarrow> sy_files (write_eff p off d n s) q = sy_files s q"
  by (simp add: write_eff_def split: option.split)

lemma write_eff_same: "sy_files s p = Some f \<Longrightarrow>
  sy_files (write_eff p off d n s) p =
    Some (f\<lparr>fl_data := splice (fl_data f) off (take n d), fl_mod := sy_now s\<rparr>)"
  by (simp add: write_eff_def)

lemma partial_op_files:
  assumes "partial_op len eff s = (n, ok, s')"
  obtains s0 where "sy_files s0 = sy_files s" "n \<le> len" "ok \<Longrightarrow> n = len"
    "sy_files s' = sy_files (eff n s0) \<or> (n = 0 \<and> \<not> ok \<and> sy_files s' = sy_files s)"
proof -
  obtain x s0 where p: "pop s = (x, s0)" "sy_files s0 = sy_files s" by (rule pop_cases)
  have "n \<le> len" "ok \<Longrightarrow> n = len"
    "sy_files s' = sy_files (eff n s0) \<or> (n = 0 \<and> \<not> ok \<and> sy_files s' = sy_files s0)"
    using assms p by (auto simp: partial_op_def split: outcome.splits)
  with p that show thesis by metis
qed

lemma open_trunc_files:
  assumes "open_trunc p mode s = (ok, s')"
  shows "same_except {p} s s'" and "ok \<Longrightarrow> \<exists>f. sy_files s' p = Some f \<and> fl_data f = []"
    and "sy_files s' p = sy_files s p \<or> (\<exists>f. sy_files s' p = Some f \<and> fl_data f = [])"
  using assms unfolding open_trunc_def
  by (auto elim!: atomic_op_files simp: same_except_def new_file_def split: option.splits)

lemma splice_full [simp]: "splice [] 0 d = d"
  by (simp add: splice_def)

lemma splice_end [simp]: "off = length b \<Longrightarrow> splice b off d = b @ d"
  by (simp add: splice_def)

lemma write_at_files:
  assumes "write_at p off d s = (n, ok, s')"
  shows "same_except {p} s s'" and "n \<le> length d" and "ok \<Longrightarrow> n = length d"
    and "sy_files s p = Some f \<Longrightarrow>
      \<exists>f'. sy_files s' p = Some f' \<and> fl_data f' = splice (fl_data f) off (take n d)"
    and "sy_files s p = None \<Longrightarrow> sy_files s' p = None"
proof -
  have *: "partial_op (length d) (write_eff p off d) s = (n, ok, s')"
    using assms by (simp add: write_at_def)
  obtain s0 where s0: "sy_files s0 = sy_files s" "n \<le> length d" "ok \<longrightarrow> n = length d"
    "sy_files s' = sy_files (write_eff p off d n s0) \<or> (n = 0 \<and> \<not> ok \<and> sy_files s' = sy_files s)"
    by (rule partial_op_files [OF *]) blast
  show "same_except {p} s s'" using s0 by (auto simp: same_except_def)
  show "n \<le> length d" "ok \<Longrightarrow> n = length d" using s0 by auto
  show "sy_files s p = Some f \<Longrightarrow>
      \<exists>f'. sy_files s' p = Some f' \<and> fl_data f' = splice (fl_data f) off (take n d)"
    using s0 by (auto simp: write_eff_def splice_def)
  show "sy_files s p = None \<Longrightarrow> sy_files s' p = None"
    using s0 by (auto simp: write_eff_def)
qed

lemma rename_files:
  assumes "rename a b s = (ok, s')" and "a \<noteq> b"
  shows "same_except {a, b} s s'"
    and "ok \<Longrightarrow> \<exists>f. sy_files s a = Some f \<and> sy_files s' b = Some f \<and> sy_files s' a = None"
    and "sy_files s' = sy_files s \<or>
      (\<exists>f. sy_files s a = Some f \<and> sy_files s' b = Some f \<and> sy_files s' a = None)"
  using assms unfolding rename_def
  by (auto elim!: atomic_op_files simp: same_except_def split: option.splits)

lemma rename_done:
  assumes "rename a b s = (True, s')"
  shows "same_except {a, b} s s'"
    and "\<exists>f. sy_files s a = Some f \<and> sy_files s' b = Some f \<and> (a \<noteq> b \<longrightarrow> sy_files s' a = None)"
  using assms unfolding rename_def
  by (auto elim!: atomic_op_files simp: same_except_def split: option.splits)

lemma remove_files:
  assumes "remove p s = (ok, s')"
  shows "same_except {p} s s'" and "ok \<Longrightarrow> sy_files s' p = None"
    and "sy_files s' = sy_files s \<or> sy_files s' p = None"
  using assms unfolding remove_def
  by (auto elim!: atomic_op_files simp: same_except_def split: option.splits)

lemma chmod_files:
  assumes "chmod p mode s = (ok, s')"
  shows "same_except {p} s s'"
    and "map_option fl_data (sy_files s' p) = map_option fl_data (sy_files s p)"
    and "ok \<Longrightarrow> \<exists>f. sy_files s' p = Some f \<and> fl_mode f = mode"
  using assms unfolding chmod_def
  by (auto elim!: atomic_op_files simp: same_except_def split: option.splits)

lemma write_file_files:
  assumes "write_file p mode d s = (ok, s')"
  shows "same_except {p} s s'" and "ok \<Longrightarrow> \<exists>f. sy_files s' p = Some f \<and> fl_data f = d"
proof -
  obtain ok1 s1 where o: "open_trunc p mode s = (ok1, s1)" by fastforce
  obtain n ok2 s2 where w: "write_at p 0 d s1 = (n, ok2, s2)" by (cases "write_at p 0 d s1") auto
  obtain ok3 s3 where c: "close s2 = (ok3, s3)" by fastforce
  have r: "(ok, s') = (if \<not> ok1 then (False, s1) else (ok2 \<and> ok3, s3))"
    using assms o w c by (auto simp: write_file_def)
  have f3: "sy_files s3 = sy_files s2" using c by (rule close_files)
  note O = open_trunc_files [OF o] and Wr = write_at_files [OF w]
  show "same_except {p} s s'"
    using r O(1) Wr(1) f3 by (auto simp: same_except_def split: if_splits)
  assume ok
  then obtain f where "sy_files s1 p = Some f" "fl_data f = []" "ok2"
    using r O(2) by (auto split: if_splits)
  then show "\<exists>f. sy_files s' p = Some f \<and> fl_data f = d"
    using Wr(4) [of f] Wr(3) f3 r \<open>ok\<close> by (auto split: if_splits)
qed

text \<open>A healthy system: no faults pending and the power on, so every call succeeds.\<close>

definition healthy :: "sys \<Rightarrow> bool" where
  "healthy s \<longleftrightarrow> \<not> sy_dead s \<and> sy_script s = []"

lemma pop_healthy [simp]: "healthy s \<Longrightarrow> pop s = (Succeed, s)"
  by (simp add: healthy_def pop_def)

lemma atomic_op_healthy [simp]: "healthy s \<Longrightarrow> atomic_op eff s = (True, eff s)"
  by (simp add: atomic_op_def)

lemma partial_op_healthy [simp]: "healthy s \<Longrightarrow> partial_op len eff s = (len, True, eff len s)"
  by (simp add: partial_op_def)

lemma stat_healthy [simp]: "healthy s \<Longrightarrow> stat p s = (sy_files s p, s)"
  by (simp add: stat_def)

lemma healthy_simps [simp]:
  "healthy (s\<lparr>sy_files := F\<rparr>) = healthy s" "healthy (s\<lparr>sy_nextino := n\<rparr>) = healthy s"
  "healthy (s\<lparr>sy_synced := P\<rparr>) = healthy s" "healthy (s\<lparr>sy_boot := B\<rparr>) = healthy s"
  "healthy (dirty p s) = healthy s" "healthy (rename_eff a b f s) = healthy s"
  by (simp_all add: healthy_def dirty_def rename_eff_def)

lemma read_file_healthy [simp]: "healthy s \<Longrightarrow> read_file p s = (map_option fl_data (sy_files s p), s)"
  by (simp add: read_file_def)

section \<open>What a boot may find\<close>

definition medium :: "sys \<Rightarrow> (path \<rightharpoonup> fnode) \<times> path set \<times> (path \<Rightarrow> byte list option set)" where
  "medium s = (sy_files s, sy_synced s, sy_boot s)"

definition boot_same_except :: "path set \<Rightarrow> sys \<Rightarrow> sys \<Rightarrow> bool" where
  "boot_same_except P s s' \<longleftrightarrow> (\<forall>q. q \<notin> P \<longrightarrow> sy_boot s' q = sy_boot s q)"

lemma boot_same_except_trans:
  "boot_same_except P s t \<Longrightarrow> boot_same_except Q t u \<Longrightarrow> P \<union> Q \<subseteq> R \<Longrightarrow> boot_same_except R s u"
  unfolding boot_same_except_def by (metis UnCI subset_iff)

lemma medium_eq:
  "medium s' = medium s \<longleftrightarrow> sy_files s' = sy_files s \<and> sy_synced s' = sy_synced s \<and> sy_boot s' = sy_boot s"
  by (simp add: medium_def)

lemma medium_dead [simp]: "medium (s\<lparr>sy_dead := d\<rparr>) = medium s"
  by (simp add: medium_def)

lemma pop_medium: "pop s = (x, s') \<Longrightarrow> medium s' = medium s"
  by (auto simp: pop_def medium_def split: if_splits list.splits)

lemma pop_boot [simp]: "sy_boot (snd (pop s)) = sy_boot s" "sy_synced (snd (pop s)) = sy_synced s"
  by (auto simp: pop_def split: list.splits)

lemma atomic_op_medium:
  assumes "atomic_op eff s = (ok, s')"
  obtains s0 where "medium s0 = medium s"
    "ok \<and> s' = eff s0 \<or> \<not> ok \<and> (medium s' = medium s \<or> medium s' = medium (eff s0))"
proof -
  obtain x s0 where p: "pop s = (x, s0)" by fastforce
  note m = pop_medium [OF p]
  have "ok \<and> s' = eff s0 \<or> \<not> ok \<and> (medium s' = medium s0 \<or> medium s' = medium (eff s0))"
    using assms p by (auto simp: atomic_op_def split: outcome.splits if_splits)
  with m show thesis by (intro that [of s0]) auto
qed

lemma atomic_op_id_medium: "atomic_op (\<lambda>s. s) s = (ok, s') \<Longrightarrow> medium s' = medium s"
  by (erule atomic_op_medium) auto

lemma close_medium: "close s = (ok, s') \<Longrightarrow> medium s' = medium s"
  by (auto simp: close_def dest: atomic_op_id_medium)

lemma mkdir_all_medium: "mkdir_all p s = (ok, s') \<Longrightarrow> medium s' = medium s"
  by (auto simp: mkdir_all_def dest: atomic_op_id_medium)

lemma sync_dir_medium: "sync_dir s = (ok, s') \<Longrightarrow> medium s' = medium s"
  by (auto simp: sync_dir_def dest: atomic_op_id_medium)

lemma stat_medium: "stat p s = (r, s') \<Longrightarrow> medium s' = medium s"
  by (auto simp: stat_def split: prod.splits dest: atomic_op_id_medium)

lemma open_trunc_boot: "open_trunc p mode s = (ok, s') \<Longrightarrow> boot_same_except {p} s s'"
  unfolding open_trunc_def
  by (erule atomic_op_medium) (auto simp: boot_same_except_def medium_eq new_file_def split: option.splits)

lemma write_at_boot:
  assumes "write_at p off d s = (n, ok, s')"
  shows "boot_same_except {p} s s'"
proof -
  obtain x s0 where p: "pop s = (x, s0)" by fastforce
  have e: "boot_same_except {p} s0 (write_eff p off d k s0)" for k
    by (simp add: boot_same_except_def write_eff_def split: option.split)
  have "boot_same_except {p} s0 s'"
    using assms p e by (auto simp: write_at_def partial_op_def boot_same_except_def split: outcome.splits)
  then show ?thesis using pop_medium [OF p] by (simp add: medium_eq boot_same_except_def)
qed

lemma remove_boot: "remove p s = (ok, s') \<Longrightarrow> boot_same_except {p} s s'"
  unfolding remove_def
  by (auto elim!: atomic_op_medium simp: boot_same_except_def medium_eq split: option.splits)

lemma chmod_boot:
  "chmod p mode s = (ok, s') \<Longrightarrow> sy_boot s' = sy_boot s \<and> sy_synced s' = sy_synced s"
  unfolding chmod_def
  by (auto elim!: atomic_op_medium simp: medium_eq split: option.splits)

text \<open>A sync that reports success leaves the file synced.\<close>

lemma sync_boot:
  assumes "sync p s = (ok, s')"
  shows "boot_same_except {p} s s'" and "ok \<Longrightarrow> sy_files s p = Some f \<Longrightarrow> p \<in> sy_synced s'"
proof -
  show "boot_same_except {p} s s'"
    using assms unfolding sync_def
    by (auto elim!: atomic_op_medium simp: boot_same_except_def medium_eq split: option.splits)
  show "ok \<Longrightarrow> sy_files s p = Some f \<Longrightarrow> p \<in> sy_synced s'"
    using assms unfolding sync_def
    by (auto elim!: atomic_op_medium simp: medium_eq split: option.splits)
qed

text \<open>A synced file renamed: the target is as before or the whole file.\<close>

lemma rename_boot:
  assumes "rename a b s = (ok, s')"
  shows "boot_same_except {a, b} s s'"
    and "a \<in> sy_synced s \<Longrightarrow> sy_files s a = Some f \<Longrightarrow> a \<noteq> b \<Longrightarrow> sy_boot s' b \<subseteq> insert (Some (fl_data f)) (sy_boot s b)"
    and "ok \<Longrightarrow> a \<notin> sy_synced s \<Longrightarrow> a \<noteq> b \<Longrightarrow> sy_boot s' b = UNIV"
  using assms unfolding rename_def
  by (auto elim!: atomic_op_medium simp: boot_same_except_def medium_eq rename_eff_def
      split: option.splits if_splits)

end
