(* ===== verification/SlotPointer.thy ===== *)
theory SlotPointer
  imports Main
begin

text \<open>
  The contract of a persistent pointer: it always reads as an admissible value, a write that reports
  success is what a read gives next, and a write that fails leaves either the old value or the new
  one. The clients' consequences are proved here once, for the \<open>active\<close> and the \<open>confirmed\<close> pointer.
\<close>

locale slot_pointer =
  fixes getp :: "'s \<Rightarrow> 'v"
    and setp :: "'v \<Rightarrow> 's \<Rightarrow> 'e option \<times> 's"
    and adm :: "'v \<Rightarrow> bool"
  assumes get_adm: "adm (getp s)"
    and set_done: "setp v s = (None, s') \<Longrightarrow> adm v \<and> getp s' = v"
    and set_any: "setp v s = (e, s') \<Longrightarrow> getp s' = getp s \<or> (adm v \<and> getp s' = v)"
begin

definition set_all :: "'v list \<Rightarrow> 's \<Rightarrow> 's" where
  "set_all vs s = fold (\<lambda>v s. snd (setp v s)) vs s"

lemma set_all_Cons: "set_all (v # vs) s = set_all vs (snd (setp v s))"
  by (simp add: set_all_def)

lemma set_all_history: "getp (set_all vs s) = getp s \<or> (getp (set_all vs s) \<in> set vs \<and> adm (getp (set_all vs s)))"
proof (induction vs arbitrary: s)
  case Nil
  then show ?case by (simp add: set_all_def)
next
  case (Cons v vs)
  obtain e s1 where "setp v s = (e, s1)" by fastforce
  then show ?case using set_any [of v s e s1] Cons [of s1] get_adm by (auto simp: set_all_Cons)
qed

lemma refused_keeps: "\<not> adm v \<Longrightarrow> getp (snd (setp v s)) = getp s"
  using set_any [of v s "fst (setp v s)" "snd (setp v s)"] by simp

lemma same_value_keeps: "getp (snd (setp (getp s) s)) = getp s"
  using set_any [of "getp s" s] by (metis prod.collapse)

end

end
