(* ===== verification/GoText.thy ===== *)
theory GoText
  imports Prelude
begin

text \<open>
  The text functions of Go's standard library that several components use, on strings of bytes:
  \<open>TrimSpace\<close>, the ASCII part of \<open>ToLower\<close> and \<open>ToUpper\<close>, \<open>Contains\<close>, \<open>HasPrefix\<close>, \<open>Atoi\<close> and
  \<open>ParseUint\<close> in base 16.
\<close>

section \<open>White space\<close>

text \<open>
  \<open>strings.TrimSpace\<close>: the UTF-8 encodings of the Unicode white space it removes at both ends.
\<close>

definition space_runes :: "nat list list" where
  "space_runes = [[9], [10], [11], [12], [13], [32], [0xC2, 0x85], [0xC2, 0xA0], [0xE1, 0x9A, 0x80],
     [0xE2, 0x80, 0xA8], [0xE2, 0x80, 0xA9], [0xE2, 0x80, 0xAF], [0xE2, 0x81, 0x9F], [0xE3, 0x80, 0x80]]
     @ map (\<lambda>k. [0xE2, 0x80, 0x80 + k]) [0..<11]"

definition strip_one :: "string \<Rightarrow> string option" where
  "strip_one s = (case filter (\<lambda>r. r \<noteq> [] \<and> take (length r) (map of_char s) = r) space_runes of
     [] \<Rightarrow> None | r # _ \<Rightarrow> Some (drop (length r) s))"

definition strip_last :: "string \<Rightarrow> string option" where
  "strip_last s = (case filter (\<lambda>r. r \<noteq> [] \<and> take (length r) (rev (map of_char s)) = rev r) space_runes of
     [] \<Rightarrow> None | r # _ \<Rightarrow> Some (take (length s - length r) s))"

lemma strip_one_shorter: "strip_one s = Some t \<Longrightarrow> length t < length s"
proof -
  assume a: "strip_one s = Some t"
  then obtain r rs where f: "filter (\<lambda>r. r \<noteq> [] \<and> take (length r) (map of_char s) = r) space_runes = r # rs"
    and t: "t = drop (length r) s"
    by (auto simp: strip_one_def split: list.splits)
  have "r \<noteq> [] \<and> take (length r) (map of_char s) = r"
    using f by (metis (mono_tags, lifting) filter_eq_ConsD)
  then have "r \<noteq> []" "length r \<le> length s"
    by (metis, metis length_map length_take min.cobounded1)
  with t show ?thesis by (cases r) auto
qed

lemma strip_last_shorter: "strip_last s = Some t \<Longrightarrow> length t < length s"
proof -
  assume a: "strip_last s = Some t"
  then obtain r rs where f: "filter (\<lambda>r. r \<noteq> [] \<and> take (length r) (rev (map of_char s)) = rev r) space_runes = r # rs"
    and t: "t = take (length s - length r) s"
    by (auto simp: strip_last_def split: list.splits)
  have r: "r \<noteq> [] \<and> take (length r) (rev (map of_char s)) = rev r"
    using f by (metis (mono_tags, lifting) filter_eq_ConsD)
  then have "length r = min (length s) (length r)"
    by (metis length_map length_rev length_take)
  with r t show ?thesis by (cases r) auto
qed

function trim_left :: "string \<Rightarrow> string" where
  "trim_left s = (case strip_one s of None \<Rightarrow> s | Some t \<Rightarrow> trim_left t)"
  by auto
termination by (relation "measure length") (auto dest: strip_one_shorter)

function trim_right :: "string \<Rightarrow> string" where
  "trim_right s = (case strip_last s of None \<Rightarrow> s | Some t \<Rightarrow> trim_right t)"
  by auto
termination by (relation "measure length") (auto dest: strip_last_shorter)

declare trim_left.simps [simp del] trim_right.simps [simp del]

definition TrimSpace :: "string \<Rightarrow> string" where
  "TrimSpace s = trim_right (trim_left s)"

section \<open>Case and search\<close>

text \<open>\<open>strings.ToLower\<close> on the ASCII letters a hexadecimal sum can have.\<close>

definition to_lower :: "string \<Rightarrow> string" where
  "to_lower s = map (\<lambda>c. let n = of_char c :: nat in if 65 \<le> n \<and> n \<le> 90 then char_of (n + 32) else c) s"

text \<open>\<open>strings.ToUpper\<close> on ASCII letters.\<close>

definition to_upper :: "string \<Rightarrow> string" where
  "to_upper s = map (\<lambda>c. let n = of_char c :: nat in if 97 \<le> n \<and> n \<le> 122 then char_of (n - 32) else c) s"

fun str_contains :: "string \<Rightarrow> string \<Rightarrow> bool" where
  "str_contains [] n \<longleftrightarrow> n = []"
| "str_contains (c # s) n \<longleftrightarrow> take (length n) (c # s) = n \<or> str_contains s n"

definition is_prefix :: "string \<Rightarrow> string \<Rightarrow> bool" where
  "is_prefix p s \<longleftrightarrow> take (length p) s = p"

section \<open>Numbers\<close>

text \<open>\<open>strconv.Atoi\<close> on a 32-bit target.\<close>

fun digits_val :: "string \<Rightarrow> int \<Rightarrow> int option" where
  "digits_val [] acc = Some acc"
| "digits_val (c # cs) acc = (let n = of_char c :: nat in
     if 48 \<le> n \<and> n \<le> 57 then digits_val cs (10 * acc + int (n - 48)) else None)"

definition Atoi :: "string \<Rightarrow> int option" where
  "Atoi s =
     (let (neg, ds) = (case s of c # cs \<Rightarrow> if c = CHR ''-'' then (True, cs) else if c = CHR ''+'' then (False, cs) else (False, s)
                       | [] \<Rightarrow> (False, []))
      in if ds = [] then None
         else case digits_val ds 0 of None \<Rightarrow> None
              | Some v \<Rightarrow> let v = (if neg then - v else v) in
                  if - (2 ^ 31) \<le> v \<and> v < 2 ^ 31 then Some v else None)"

text \<open>\<open>strconv.ParseUint\<close> in base 16 with a limit of 8 bits.\<close>

definition hex_val :: "char \<Rightarrow> nat option" where
  "hex_val c = (let n = of_char c :: nat in
     if 48 \<le> n \<and> n \<le> 57 then Some (n - 48)
     else if 65 \<le> n \<and> n \<le> 70 then Some (n - 55)
     else if 97 \<le> n \<and> n \<le> 102 then Some (n - 87) else None)"

fun hex_acc :: "string \<Rightarrow> nat \<Rightarrow> nat option" where
  "hex_acc [] acc = Some acc"
| "hex_acc (c # cs) acc = (case hex_val c of None \<Rightarrow> None | Some v \<Rightarrow> hex_acc cs (16 * acc + v))"

definition ParseHex8 :: "string \<Rightarrow> nat option" where
  "ParseHex8 s = (if s = [] then None else
     case hex_acc s 0 of None \<Rightarrow> None | Some v \<Rightarrow> if v < 256 then Some v else None)"

end
