(* ===== verification/SlotStore.thy ===== *)
theory SlotStore
  imports Stick SlotPointer GoText
begin

text \<open>
  The A/B slot store of \<open>ota/internal/slots/slots.go\<close>: the pointer files \<open>active\<close> and \<open>confirmed\<close>,
  the slot binaries and their installation by copy and rename, and the cached SHA-256 of the status.
  Every operation takes the system state and returns it; a returned error is \<^term>\<open>Inl\<close>. The hash is
  a parameter \<open>H\<close> (the hexadecimal SHA-256 of the bytes): the theorems hold for every function.
  A binary is synced before it is renamed into place, a pointer is not; what each leaves for the boot after a
  power cut is proved from \<open>sy_boot\<close> of \<open>Stick\<close>.
\<close>

datatype slot_error = InvalidSlot string | OsError

definition SlotA :: string where "SlotA = ''A''"
definition SlotB :: string where "SlotB = ''B''"
definition BinName :: string where "BinName = ''app''"

lemmas slot_names = SlotA_def SlotB_def BinName_def

record fileSum =
  fs_ino :: nat
  fs_size :: nat
  fs_mod :: int
  fs_sum :: string

record slot_store =
  st_root :: path
  st_sums :: "path \<rightharpoonup> fileSum"

definition valid_slot :: "string \<Rightarrow> bool" where
  "valid_slot v \<longleftrightarrow> v = SlotA \<or> v = SlotB"

text \<open>\<open>filepath.Join\<close> on a cleaned root and a plain name.\<close>

definition join :: "path \<Rightarrow> string \<Rightarrow> path" where
  "join a b = a @ ''/'' @ b"

definition New :: "path \<Rightarrow> slot_store" where
  "New root = \<lparr>st_root = root, st_sums = Map.empty\<rparr>"

definition SlotDir :: "slot_store \<Rightarrow> string \<Rightarrow> path" where "SlotDir st v = join (st_root st) v"
definition BinPath :: "slot_store \<Rightarrow> string \<Rightarrow> path" where "BinPath st v = join (SlotDir st v) BinName"
definition StagingDir :: "slot_store \<Rightarrow> path" where "StagingDir st = join (st_root st) ''staging''"

text \<open>\<open>Init\<close>: the directories in order, up to the first error.\<close>

fun mkdirs :: "path list \<Rightarrow> sys \<Rightarrow> bool \<times> sys" where
  "mkdirs [] s = (True, s)"
| "mkdirs (d # ds) s = (let (ok, s) = mkdir_all d s in if ok then mkdirs ds s else (False, s))"

definition Init :: "slot_store \<Rightarrow> sys \<Rightarrow> bool \<times> sys" where
  "Init st = mkdirs [st_root st, SlotDir st SlotA, SlotDir st SlotB, StagingDir st]"

section \<open>Pointers\<close>

definition pointer_value :: "string \<Rightarrow> byte list option \<Rightarrow> string" where
  "pointer_value def b = (case b of
       None \<Rightarrow> def
     | Some b \<Rightarrow> (let v = TrimSpace (map char_of_byte b) in
         if v \<noteq> SlotA \<and> v \<noteq> SlotB then def else v))"

definition readPointer :: "path \<Rightarrow> string \<Rightarrow> sys \<Rightarrow> string \<times> sys" where
  "readPointer p def s = (let (b, s) = read_file p s in (pointer_value def b, s))"

definition str_bytes :: "string \<Rightarrow> byte list" where
  "str_bytes v = map byte_of_char v"

definition writePointer :: "path \<Rightarrow> string \<Rightarrow> sys \<Rightarrow> bool \<times> sys" where
  "writePointer p v s =
     (let tmp = p @ ''.tmp'';
          (ok, s) = write_file tmp 0x180 (str_bytes (v @ [CHR 10])) s
      in if \<not> ok then (False, s) else rename tmp p s)"

definition active_path :: "slot_store \<Rightarrow> path" where "active_path st = join (st_root st) ''active''"
definition confirmed_path :: "slot_store \<Rightarrow> path" where "confirmed_path st = join (st_root st) ''confirmed''"

definition Active :: "slot_store \<Rightarrow> sys \<Rightarrow> string \<times> sys" where
  "Active st = readPointer (active_path st) SlotA"

definition Confirmed :: "slot_store \<Rightarrow> sys \<Rightarrow> string \<times> sys" where
  "Confirmed st s = (let (a, s) = Active st s in readPointer (confirmed_path st) a s)"

definition SetActive :: "slot_store \<Rightarrow> string \<Rightarrow> sys \<Rightarrow> slot_error option \<times> sys" where
  "SetActive st v s = (if v \<noteq> SlotA \<and> v \<noteq> SlotB then (Some (InvalidSlot v), s)
     else let (ok, s) = writePointer (active_path st) v s in (if ok then None else Some OsError, s))"

definition SetConfirmed :: "slot_store \<Rightarrow> string \<Rightarrow> sys \<Rightarrow> slot_error option \<times> sys" where
  "SetConfirmed st v s = (if v \<noteq> SlotA \<and> v \<noteq> SlotB then (Some (InvalidSlot v), s)
     else let (ok, s) = writePointer (confirmed_path st) v s in (if ok then None else Some OsError, s))"

definition Other :: "string \<Rightarrow> string" where
  "Other v = (if v = SlotA then SlotB else SlotA)"

section \<open>Binaries\<close>

definition has_binary :: "fnode option \<Rightarrow> bool" where
  "has_binary fi = (case fi of None \<Rightarrow> False | Some f \<Rightarrow> fl_reg f \<and> 0 < length (fl_data f))"

definition HasBinary :: "slot_store \<Rightarrow> string \<Rightarrow> sys \<Rightarrow> bool \<times> sys" where
  "HasBinary st v s = (let (fi, s) = stat (BinPath st v) s in (has_binary fi, s))"

definition file_bytes :: "path \<Rightarrow> sys \<Rightarrow> byte list" where
  "file_bytes p s = (case sy_files s p of None \<Rightarrow> [] | Some f \<Rightarrow> fl_data f)"

definition CopyExecutable ::
  "(byte list \<Rightarrow> string) \<Rightarrow> path \<Rightarrow> path \<Rightarrow> sys \<Rightarrow> (slot_error + string) \<times> sys" where
  "CopyExecutable H src dst s =
     (let (inp, s) = stat src s in
      case inp of None \<Rightarrow> (Inl OsError, s) | Some _ \<Rightarrow>
      let tmp = dst @ ''.tmp'';
          discard = (\<lambda>s. let (_, s) = close s; (_, s) = remove tmp s in (Inl OsError, s));
          (ok, s) = open_trunc tmp 0x1ED s in
      if \<not> ok then (Inl OsError, s) else
      let d = file_bytes src s;
          (n, ok, s) = write_at tmp 0 d s in
      if \<not> ok then discard s else
      let (ok, s) = sync tmp s in
      if \<not> ok then discard s else
      let (ok, s) = close s in
      if \<not> ok then (let (_, s) = remove tmp s in (Inl OsError, s)) else
      let (ok, s) = rename tmp dst s in
      if \<not> ok then (let (_, s) = remove tmp s in (Inl OsError, s)) else
      (Inr (H (take n d)), s))"

definition Install ::
  "(byte list \<Rightarrow> string) \<Rightarrow> slot_store \<Rightarrow> string \<Rightarrow> path \<Rightarrow> sys \<Rightarrow> (slot_error + string) \<times> sys" where
  "Install H st v src s =
     (if v \<noteq> SlotA \<and> v \<noteq> SlotB then (Inl (InvalidSlot v), s)
      else let (ok, s) = mkdir_all (SlotDir st v) s in
        if \<not> ok then (Inl OsError, s) else CopyExecutable H src (BinPath st v) s)"

definition FileSHA256 :: "(byte list \<Rightarrow> string) \<Rightarrow> path \<Rightarrow> sys \<Rightarrow> (slot_error + string) \<times> sys" where
  "FileSHA256 H p s =
     (let (f, s) = stat p s in
      case f of None \<Rightarrow> (Inl OsError, s) | Some _ \<Rightarrow>
      let (b, s) = read_file p s in
      case b of None \<Rightarrow> (Inl OsError, s) | Some b \<Rightarrow> (Inr (H b), s))"

definition cachedSHA256 ::
  "(byte list \<Rightarrow> string) \<Rightarrow> slot_store \<Rightarrow> path \<Rightarrow> sys \<Rightarrow> (slot_error + string) \<times> slot_store \<times> sys" where
  "cachedSHA256 H st p s =
     (let (fi, s) = stat p s in
      case fi of None \<Rightarrow> (Inl OsError, st, s) | Some f \<Rightarrow>
      let ident = \<lparr>fs_ino = fl_ino f, fs_size = length (fl_data f), fs_mod = fl_mod f, fs_sum = ''''\<rparr>;
          hit = (case st_sums st p of None \<Rightarrow> None
            | Some c \<Rightarrow> if fs_ino c = fs_ino ident \<and> fs_size c = fs_size ident \<and> fs_mod c = fs_mod ident
                then Some (fs_sum c) else None) in
      case hit of Some sha \<Rightarrow> (Inr sha, st, s) | None \<Rightarrow>
      let (r, s) = FileSHA256 H p s in
      case r of Inl e \<Rightarrow> (Inl e, st, s)
      | Inr sha \<Rightarrow> (Inr sha, st\<lparr>st_sums := (st_sums st)(p \<mapsto> ident\<lparr>fs_sum := sha\<rparr>)\<rparr>, s))"

text \<open>
  The status holds, per slot with a binary, the sha or the error (which the report prints after
  \<open>unreadable:\<close>). The modes are octal 600 and 755.
\<close>

record store_status =
  ss_Active :: string
  ss_Confirmed :: string
  ss_Binaries :: "(string \<times> (slot_error + string)) list"
  ss_Root :: path

fun status_binaries ::
  "(byte list \<Rightarrow> string) \<Rightarrow> string list \<Rightarrow> slot_store \<Rightarrow> sys
     \<Rightarrow> (string \<times> (slot_error + string)) list \<times> slot_store \<times> sys" where
  "status_binaries H [] st s = ([], st, s)"
| "status_binaries H (v # vs) st s =
     (let (has, s) = HasBinary st v s in
      if has then
        let (r, st, s) = cachedSHA256 H st (BinPath st v) s;
            (rest, st, s) = status_binaries H vs st s
        in ((v, r) # rest, st, s)
      else status_binaries H vs st s)"

definition Status :: "(byte list \<Rightarrow> string) \<Rightarrow> slot_store \<Rightarrow> sys \<Rightarrow> store_status \<times> slot_store \<times> sys" where
  "Status H st s =
     (let (a, s) = Active st s;
          (c, s) = Confirmed st s;
          (bs, st, s) = status_binaries H [SlotA, SlotB] st s
      in (\<lparr>ss_Active = a, ss_Confirmed = c, ss_Binaries = bs, ss_Root = st_root st\<rparr>, st, s))"

section \<open>Pointers survive faults\<close>

lemma TrimSpace_slot: "valid_slot v \<Longrightarrow> TrimSpace (v @ [CHR 10]) = v"
proof -
  have "TrimSpace ''A\<newline>'' = ''A''" "TrimSpace ''B\<newline>'' = ''B''" by code_simp+
  then show "valid_slot v \<Longrightarrow> TrimSpace (v @ [CHR 10]) = v"
    by (auto simp: valid_slot_def slot_names)
qed

lemma pointer_value_valid: "valid_slot d \<Longrightarrow> valid_slot (pointer_value d b)"
  by (auto simp: pointer_value_def valid_slot_def Let_def split: option.splits)

lemma chars_str_bytes [simp]: "map char_of_byte (str_bytes v) = v"
  by (simp add: str_bytes_def)

lemma pointer_value_written [simp]:
  "valid_slot v \<Longrightarrow> pointer_value d (Some (str_bytes (v @ [CHR 10]))) = v"
  by (auto simp: pointer_value_def TrimSpace_slot valid_slot_def Let_def)

text \<open>What a pointer file says, when it can be read.\<close>

definition pointer :: "path \<Rightarrow> string \<Rightarrow> sys \<Rightarrow> string" where
  "pointer p d s = pointer_value d (map_option fl_data (sy_files s p))"

definition active_ptr :: "slot_store \<Rightarrow> sys \<Rightarrow> string" where
  "active_ptr st s = pointer (active_path st) SlotA s"

definition confirmed_ptr :: "slot_store \<Rightarrow> sys \<Rightarrow> string" where
  "confirmed_ptr st s = pointer (confirmed_path st) (active_ptr st s) s"

lemma valid_SlotA [simp]: "valid_slot SlotA" and valid_SlotB [simp]: "valid_slot SlotB"
  by (simp_all add: valid_slot_def)

lemma active_ptr_valid [simp]: "valid_slot (active_ptr st s)"
  by (simp add: active_ptr_def pointer_def pointer_value_valid)

lemma confirmed_ptr_valid [simp]: "valid_slot (confirmed_ptr st s)"
  by (simp add: confirmed_ptr_def pointer_def pointer_value_valid)

lemma readPointer_healthy [simp]: "healthy s \<Longrightarrow> readPointer p d s = (pointer p d s, s)"
  by (simp add: readPointer_def pointer_def)

lemma Active_healthy [simp]: "healthy s \<Longrightarrow> Active st s = (active_ptr st s, s)"
  by (simp add: Active_def active_ptr_def)

lemma Confirmed_healthy [simp]: "healthy s \<Longrightarrow> Confirmed st s = (confirmed_ptr st s, s)"
  by (simp add: Confirmed_def confirmed_ptr_def)

lemma HasBinary_healthy [simp]:
  "healthy s \<Longrightarrow> HasBinary st v s = (has_binary (sy_files s (BinPath st v)), s)"
  by (simp add: HasBinary_def)

lemma readPointer_files [fs_simps]: "readPointer p d s = (v, s') \<Longrightarrow> sy_files s' = sy_files s"
  by (auto simp: readPointer_def split: prod.splits dest: read_file_files)

lemma readPointer_valid: "readPointer p d s = (v, s') \<Longrightarrow> valid_slot d \<Longrightarrow> valid_slot v"
  by (auto simp: readPointer_def pointer_value_valid split: prod.splits)

lemma Active_files [fs_simps]: "Active st s = (v, s') \<Longrightarrow> sy_files s' = sy_files s"
  by (auto simp: Active_def dest: readPointer_files)

lemma Active_valid: "Active st s = (v, s') \<Longrightarrow> valid_slot v"
  by (auto simp: Active_def dest: readPointer_valid)

lemma Confirmed_files [fs_simps]: "Confirmed st s = (v, s') \<Longrightarrow> sy_files s' = sy_files s"
  by (auto simp: Confirmed_def split: prod.splits dest!: readPointer_files Active_files)

lemma Confirmed_valid: "Confirmed st s = (v, s') \<Longrightarrow> valid_slot v"
  by (auto simp: Confirmed_def split: prod.splits dest!: Active_valid elim: readPointer_valid)

lemma HasBinary_files [fs_simps]: "HasBinary st v s = (b, s') \<Longrightarrow> sy_files s' = sy_files s"
  by (auto simp: HasBinary_def split: prod.splits dest: stat_files)

lemma HasBinary_True: "HasBinary st v s = (True, s') \<Longrightarrow> has_binary (sy_files s (BinPath st v))"
  by (auto simp: HasBinary_def has_binary_def split: prod.splits option.splits dest!: stat_Some)

lemma tmp_neq [simp]: "p @ ''.tmp'' \<noteq> p" "p \<noteq> p @ ''.tmp''"
  by simp_all

lemma writePointer_files:
  assumes w: "writePointer p v s = (ok, s')" and v: "valid_slot v"
  shows "same_except {p, p @ ''.tmp''} s s'"
    and "ok \<Longrightarrow> pointer p d s' = v"
    and "sy_files s' p = sy_files s p \<or> pointer p d s' = v"
proof -
  obtain ok1 s1 where f: "write_file (p @ ''.tmp'') 0x180 (str_bytes (v @ [CHR 10])) s = (ok1, s1)"
    by fastforce
  obtain ok2 s2 where r: "rename (p @ ''.tmp'') p s1 = (ok2, s2)" by fastforce
  have e: "(ok, s') = (if ok1 then (ok2, s2) else (False, s1))"
    using w f r by (auto simp: writePointer_def)
  note F = write_file_files [OF f] and R = rename_files [OF r tmp_neq(1)]
  show "same_except {p, p @ ''.tmp''} s s'"
    using e F(1) R(1) by (auto simp: same_except_def split: if_splits)
  show ok: "pointer p d s' = v" if ok
    using that e F(2) R(2) v by (auto simp: pointer_def split: if_splits)
  show "sy_files s' p = sy_files s p \<or> pointer p d s' = v"
  proof (cases ok1)
    case True
    then obtain g where g: "sy_files s1 (p @ ''.tmp'') = Some g" "fl_data g = str_bytes (v @ [CHR 10])"
      using F(2) by auto
    have "sy_files s1 p = sy_files s p" using F(1) by (auto simp: same_except_def)
    then show ?thesis using R(3) g e True v by (auto simp: pointer_def)
  next
    case False
    then show ?thesis using e F(1) by (auto simp: same_except_def)
  qed
qed

lemma join_inj [simp]: "join a b = join a c \<longleftrightarrow> b = c"
  by (simp add: join_def)

lemma paths_distinct [simp]:
  "active_path st \<noteq> confirmed_path st" "confirmed_path st \<noteq> active_path st"
  "active_path st @ ''.tmp'' \<noteq> confirmed_path st" "confirmed_path st @ ''.tmp'' \<noteq> active_path st"
  "confirmed_path st \<noteq> active_path st @ ''.tmp''" "active_path st \<noteq> confirmed_path st @ ''.tmp''"
  by (simp_all add: active_path_def confirmed_path_def join_def)

lemma bin_paths_distinct [simp]:
  "valid_slot v \<Longrightarrow> BinPath st v \<noteq> active_path st" "valid_slot v \<Longrightarrow> BinPath st v \<noteq> confirmed_path st"
  "valid_slot v \<Longrightarrow> BinPath st v \<noteq> active_path st @ ''.tmp''"
  "valid_slot v \<Longrightarrow> BinPath st v \<noteq> confirmed_path st @ ''.tmp''"
  "valid_slot v \<Longrightarrow> BinPath st v @ ''.tmp'' \<noteq> active_path st"
  "valid_slot v \<Longrightarrow> BinPath st v @ ''.tmp'' \<noteq> confirmed_path st"
  by (auto simp: BinPath_def SlotDir_def active_path_def confirmed_path_def join_def valid_slot_def slot_names)

lemma Other_neq [simp]: "valid_slot v \<Longrightarrow> Other v \<noteq> v" and Other_valid [simp]: "valid_slot (Other v)"
  by (auto simp: Other_def valid_slot_def slot_names)

lemma BinPath_inj [simp]: "BinPath st v = BinPath st w \<longleftrightarrow> v = w"
  by (auto simp: BinPath_def SlotDir_def join_def)

lemma BinPath_tmp_neq [simp]:
  "valid_slot v \<Longrightarrow> valid_slot w \<Longrightarrow> BinPath st v @ ''.tmp'' \<noteq> BinPath st w"
  by (auto simp: BinPath_def SlotDir_def join_def valid_slot_def slot_names)

text \<open>Setting one pointer, under any faults.\<close>

lemma SetActive_files:
  assumes "SetActive st v s = (e, s')"
  shows "same_except {active_path st, active_path st @ ''.tmp''} s s'"
    and "e = None \<Longrightarrow> valid_slot v \<and> active_ptr st s' = v"
    and "active_ptr st s' = active_ptr st s \<or> (valid_slot v \<and> active_ptr st s' = v)"
    and "sy_files s' (active_path st) = sy_files s (active_path st) \<or> valid_slot v"
proof -
  have bad: "\<not> valid_slot v \<Longrightarrow> e = Some (InvalidSlot v) \<and> s' = s"
    using assms by (auto simp: SetActive_def valid_slot_def)
  have good: "\<exists>ok. writePointer (active_path st) v s = (ok, s') \<and> (ok \<longleftrightarrow> e = None)" if "valid_slot v"
    using assms that by (auto simp: SetActive_def valid_slot_def split: prod.splits if_splits)
  show "same_except {active_path st, active_path st @ ''.tmp''} s s'"
    using bad good writePointer_files(1) by (cases "valid_slot v") force+
  show "e = None \<Longrightarrow> valid_slot v \<and> active_ptr st s' = v"
    using bad good writePointer_files(2) unfolding active_ptr_def by (cases "valid_slot v") force+
  show "active_ptr st s' = active_ptr st s \<or> (valid_slot v \<and> active_ptr st s' = v)"
    using bad good writePointer_files(3) [of "active_path st" v s _ s' SlotA]
    unfolding active_ptr_def pointer_def by (cases "valid_slot v") force+
  show "sy_files s' (active_path st) = sy_files s (active_path st) \<or> valid_slot v"
    using bad by (cases "valid_slot v") auto
qed

lemma SetConfirmed_files:
  assumes "SetConfirmed st v s = (e, s')"
  shows "same_except {confirmed_path st, confirmed_path st @ ''.tmp''} s s'"
    and "e = None \<Longrightarrow> valid_slot v \<and> confirmed_ptr st s' = v"
    and "confirmed_ptr st s' = confirmed_ptr st s \<or> (valid_slot v \<and> confirmed_ptr st s' = v)"
proof -
  have bad: "\<not> valid_slot v \<Longrightarrow> e = Some (InvalidSlot v) \<and> s' = s"
    using assms by (auto simp: SetConfirmed_def valid_slot_def)
  have good: "\<exists>ok. writePointer (confirmed_path st) v s = (ok, s') \<and> (ok \<longleftrightarrow> e = None)" if "valid_slot v"
    using assms that by (auto simp: SetConfirmed_def valid_slot_def split: prod.splits if_splits)
  show se: "same_except {confirmed_path st, confirmed_path st @ ''.tmp''} s s'"
    using bad good writePointer_files(1) by (cases "valid_slot v") force+
  then have act: "active_ptr st s' = active_ptr st s"
    by (simp add: active_ptr_def pointer_def same_except_def)
  show "e = None \<Longrightarrow> valid_slot v \<and> confirmed_ptr st s' = v"
    using bad good writePointer_files(2) unfolding confirmed_ptr_def by (cases "valid_slot v") force+
  show "confirmed_ptr st s' = confirmed_ptr st s \<or> (valid_slot v \<and> confirmed_ptr st s' = v)"
    using bad good writePointer_files(3) [of "confirmed_path st" v s _ s' "active_ptr st s'"] act
    unfolding confirmed_ptr_def pointer_def by (cases "valid_slot v") force+
qed

section \<open>The copy is all or nothing\<close>

lemma CopyExecutable_files:
  assumes c: "CopyExecutable H src dst s = (r, s')"
    and f: "sy_files s src = Some f" and ne: "src \<noteq> dst @ ''.tmp''"
  shows "same_except {dst, dst @ ''.tmp''} s s'"
    and "r = Inr h \<Longrightarrow> h = H (fl_data f) \<and> (\<exists>g. sy_files s' dst = Some g \<and> fl_data g = fl_data f)
      \<and> sy_files s' (dst @ ''.tmp'') = None"
    and "sy_files s' dst = sy_files s dst \<or> (\<exists>g. sy_files s' dst = Some g \<and> fl_data g = fl_data f)"
proof -
  let ?t = "dst @ ''.tmp''"
  obtain inp s1 where st: "stat src s = (inp, s1)" by fastforce
  obtain ok2 s2 where op: "open_trunc ?t 0x1ED s1 = (ok2, s2)" by fastforce
  obtain n ok3 s3 where wr: "write_at ?t 0 (file_bytes src s2) s2 = (n, ok3, s3)"
    by (cases "write_at ?t 0 (file_bytes src s2) s2") auto
  obtain x1 d1 where dc: "close s3 = (x1, d1)" by fastforce
  obtain x2 d2 where dr: "remove ?t d1 = (x2, d2)" by fastforce
  obtain ok4 s4 where sy: "sync ?t s3 = (ok4, s4)" by fastforce
  obtain ok5 s5 where cl: "close s4 = (ok5, s5)" by fastforce
  obtain x5 d5 where fr: "remove ?t s5 = (x5, d5)" by fastforce
  obtain ok6 s6 where rn: "rename ?t dst s5 = (ok6, s6)" by fastforce
  obtain x6 d6 where gr: "remove ?t s6 = (x6, d6)" by fastforce
  have res: "(r, s') = (case inp of None \<Rightarrow> (Inl OsError, s1) | Some _ \<Rightarrow>
     if \<not> ok2 then (Inl OsError, s2) else if \<not> ok3 then (Inl OsError, d2)
     else if \<not> ok4 then (Inl OsError, d5) else if \<not> ok5 then (Inl OsError, d5)
     else if \<not> ok6 then (Inl OsError, d6) else (Inr (H (take n (file_bytes src s2))), s6))"
    unfolding c [symmetric]
    by (simp add: CopyExecutable_def Let_def st op wr dc dr sy cl fr rn gr split: option.split)
  note fs = stat_files [OF st] close_files [OF dc] sync_files [OF sy] close_files [OF cl]
  note O = open_trunc_files [OF op] and Wr = write_at_files [OF wr] and R = rename_files [OF rn tmp_neq(1)]
  note D = remove_files [OF dr] remove_files [OF fr] remove_files [OF gr]
  have s2: "file_bytes src s2 = fl_data f"
    using O(1) ne f fs(1) by (auto simp: file_bytes_def same_except_def)
  have dst: "sy_files s2 dst = sy_files s dst" "sy_files s3 dst = sy_files s2 dst"
    "sy_files d2 dst = sy_files d1 dst" "sy_files d5 dst = sy_files s5 dst" "sy_files d6 dst = sy_files s6 dst"
    using O(1) Wr(1) D fs by (auto simp: same_except_def)
  have t3: "\<exists>g. sy_files s3 ?t = Some g \<and> fl_data g = fl_data f" if "ok2" "ok3"
    using O(2) [OF that(1)] Wr(3,4) that(2) s2 by auto
  have se: "same_except {dst, ?t} s x" if "x \<in> {s1, s2, s6, d2, d5, d6}" for x
    using that O(1) Wr(1) R(1) D fs by (auto simp: same_except_def)
  show "same_except {dst, ?t} s s'"
    using res by (auto intro!: se split: option.splits if_splits)
  have ren: "sy_files s6 dst = sy_files s dst \<or> (\<exists>g. sy_files s6 dst = Some g \<and> fl_data g = fl_data f)"
    if "ok2" "ok3"
    using t3 [OF that] R(3) fs dst by fastforce
  show "sy_files s' dst = sy_files s dst \<or> (\<exists>g. sy_files s' dst = Some g \<and> fl_data g = fl_data f)"
    using res ren dst fs by (auto split: option.splits if_splits)
  show "h = H (fl_data f) \<and> (\<exists>g. sy_files s' dst = Some g \<and> fl_data g = fl_data f) \<and> sy_files s' ?t = None"
    if "r = Inr h"
    using that res t3 R(2) fs Wr(3) s2 by (auto split: option.splits if_splits)
qed

text \<open>
  The power goes: the copy was synced before the rename, so a boot finds at \<open>dst\<close> what it could find
  before, or the whole file.
\<close>

lemma CopyExecutable_boot:
  assumes c: "CopyExecutable H src dst s = (r, s')"
    and f: "sy_files s src = Some f" and ne: "src \<noteq> dst @ ''.tmp''"
  shows "boot_same_except {dst, dst @ ''.tmp''} s s'"
    and "sy_boot s' dst \<subseteq> insert (Some (fl_data f)) (sy_boot s dst)"
proof -
  let ?t = "dst @ ''.tmp''"
  obtain inp s1 where st: "stat src s = (inp, s1)" by fastforce
  obtain ok2 s2 where op: "open_trunc ?t 0x1ED s1 = (ok2, s2)" by fastforce
  obtain n ok3 s3 where wr: "write_at ?t 0 (file_bytes src s2) s2 = (n, ok3, s3)"
    by (cases "write_at ?t 0 (file_bytes src s2) s2") auto
  obtain x1 d1 where dc: "close s3 = (x1, d1)" by fastforce
  obtain x2 d2 where dr: "remove ?t d1 = (x2, d2)" by fastforce
  obtain ok4 s4 where sy: "sync ?t s3 = (ok4, s4)" by fastforce
  obtain ok5 s5 where cl: "close s4 = (ok5, s5)" by fastforce
  obtain x5 d5 where fr: "remove ?t s5 = (x5, d5)" by fastforce
  obtain ok6 s6 where rn: "rename ?t dst s5 = (ok6, s6)" by fastforce
  obtain x6 d6 where gr: "remove ?t s6 = (x6, d6)" by fastforce
  have res: "(r, s') = (case inp of None \<Rightarrow> (Inl OsError, s1) | Some _ \<Rightarrow>
     if \<not> ok2 then (Inl OsError, s2) else if \<not> ok3 then (Inl OsError, d2)
     else if \<not> ok4 then (Inl OsError, d5) else if \<not> ok5 then (Inl OsError, d5)
     else if \<not> ok6 then (Inl OsError, d6) else (Inr (H (take n (file_bytes src s2))), s6))"
    unfolding c [symmetric]
    by (simp add: CopyExecutable_def Let_def st op wr dc dr sy cl fr rn gr split: option.split)
  note m = stat_medium [OF st] close_medium [OF dc] close_medium [OF cl]
  have b: "boot_same_except {dst, ?t} s x" if "x \<in> {s1, s2, s3, d2, s5, d5, s6, d6}" for x
    using that m open_trunc_boot [OF op] write_at_boot [OF wr] remove_boot [OF dr] sync_boot(1) [OF sy]
      remove_boot [OF fr] rename_boot(1) [OF rn] remove_boot [OF gr]
    by (auto simp: boot_same_except_def medium_eq)
  show "boot_same_except {dst, ?t} s s'"
    using res by (auto intro!: b split: option.splits if_splits)
  have d: "sy_boot x dst = sy_boot s dst" if "x \<in> {s1, s2, s3, d2, s5, d5}" for x
    using that m open_trunc_boot [OF op] write_at_boot [OF wr] remove_boot [OF dr] sync_boot(1) [OF sy]
      remove_boot [OF fr]
    by (auto simp: boot_same_except_def medium_eq)
  have d6: "sy_boot d6 dst = sy_boot s6 dst"
    using remove_boot [OF gr] by (simp add: boot_same_except_def)
  have r6: "sy_boot s6 dst \<subseteq> insert (Some (fl_data f)) (sy_boot s dst)" if ok: "ok2" "ok3" "ok4"
  proof -
    have "file_bytes src s2 = fl_data f"
      using open_trunc_files(1) [OF op] stat_files [OF st] ne f by (auto simp: file_bytes_def same_except_def)
    then obtain g where g: "sy_files s3 ?t = Some g" "fl_data g = fl_data f"
      using open_trunc_files(2) [OF op ok(1)] write_at_files(3,4) [OF wr] ok(2) by auto
    have "?t \<in> sy_synced s4" using sync_boot(2) [OF sy ok(3) g(1)] .
    moreover have "sy_files s5 ?t = Some g" using g sync_files [OF sy] close_files [OF cl] by simp
    ultimately show ?thesis
      using rename_boot(2) [OF rn] m d [of s5] g(2) by (auto simp: medium_eq)
  qed
  show "sy_boot s' dst \<subseteq> insert (Some (fl_data f)) (sy_boot s dst)"
    using res d d6 r6 by (auto split: option.splits if_splits)
qed

section \<open>Properties of the store\<close>

interpretation act: slot_pointer "active_ptr st" "SetActive st" valid_slot
  by unfold_locales (auto dest: SetActive_files)

interpretation conf: slot_pointer "confirmed_ptr st" "SetConfirmed st" valid_slot
  by unfold_locales (auto dest: SetConfirmed_files)

lemma active_ptr_cong:
  "sy_files s' (active_path st) = sy_files s (active_path st) \<Longrightarrow> active_ptr st s' = active_ptr st s"
  by (simp add: active_ptr_def pointer_def)

lemma confirmed_ptr_cong:
  "sy_files s' (active_path st) = sy_files s (active_path st) \<Longrightarrow>
   sy_files s' (confirmed_path st) = sy_files s (confirmed_path st) \<Longrightarrow>
   confirmed_ptr st s' = confirmed_ptr st s"
  by (simp add: confirmed_ptr_def active_ptr_def pointer_def)

text \<open>
  Whatever I/O errors, short writes or power cut hit the calls, any sequence of attempts to move
  the \<open>active\<close> pointer leaves it naming A or B, either the slot it named before or one that was asked
  for; an attempt that reports success is what \<open>Active\<close> reads next on a working stick; and neither
  binary nor the \<open>confirmed\<close> file is touched.
\<close>

theorem active_pointer_survives_faults:
  "valid_slot (active_ptr st (fold (\<lambda>v s. snd (SetActive st v s)) vs s))
   \<and> active_ptr st (fold (\<lambda>v s. snd (SetActive st v s)) vs s) \<in> insert (active_ptr st s) (set vs)
   \<and> (\<forall>v s'. SetActive st v s = (None, s') \<longrightarrow> healthy s' \<longrightarrow> Active st s' = (v, s'))
   \<and> (\<forall>v w e s'. SetActive st v s = (e, s') \<longrightarrow> valid_slot w \<longrightarrow>
        sy_files s' (BinPath st w) = sy_files s (BinPath st w)
        \<and> sy_files s' (confirmed_path st) = sy_files s (confirmed_path st))"
proof (intro conjI allI impI)
  show "valid_slot (active_ptr st (fold (\<lambda>v s. snd (SetActive st v s)) vs s))" by (rule act.get_adm)
  show "active_ptr st (fold (\<lambda>v s. snd (SetActive st v s)) vs s) \<in> insert (active_ptr st s) (set vs)"
    using act.set_all_history [of st vs s] by (auto simp: act.set_all_def)
next
  fix v s' assume "SetActive st v s = (None, s')" "healthy s'"
  then show "Active st s' = (v, s')" by (auto dest: SetActive_files(2))
next
  fix v w e s' assume "SetActive st v s = (e, s')" "valid_slot w"
  then show "sy_files s' (BinPath st w) = sy_files s (BinPath st w)"
    and "sy_files s' (confirmed_path st) = sy_files s (confirmed_path st)"
    by (auto dest!: SetActive_files(1) simp: same_except_def)
qed

definition blank_file :: "byte list \<Rightarrow> nat \<Rightarrow> fnode" where
  "blank_file d i = \<lparr>fl_data = d, fl_ino = i, fl_mod = 0, fl_mode = 0x1ED, fl_reg = True\<rparr>"

definition sample_sys :: "(path \<times> byte list) list \<Rightarrow> outcome list \<Rightarrow> sys" where
  "sample_sys fs script = \<lparr>sy_files = map_of (map (\<lambda>(p, d). (p, blank_file d 1)) fs), sy_script = script,
     sy_dead = False, sy_now = 0, sy_nextino = 2, sy_synced = fst ` set fs, sy_boot = (\<lambda>p. {map_of fs p})\<rparr>"

text \<open>A torn write of the temporary file, then a retry that succeeds.\<close>

lemma active_pointer_survives_faults_witness:
  "active_ptr (New ''/s'') (fold (\<lambda>v s. snd (SetActive (New ''/s'') v s)) [SlotB, ''C'', SlotB]
     (sample_sys [] [Succeed, Short 0])) \<in> {SlotA, SlotB, ''C''}"
  using active_pointer_survives_faults
      [of "New ''/s''" "[SlotB, ''C'', SlotB]" "sample_sys [] [Succeed, Short 0]"]
  by (simp add: valid_slot_def) blast

text \<open>What the power cut leaves: one content per path, out of those a boot may find there.\<close>

definition may_find :: "sys \<Rightarrow> (path \<rightharpoonup> byte list) \<Rightarrow> bool" where
  "may_find s m \<longleftrightarrow> (\<forall>p. m p \<in> sy_boot s p)"

lemma Install_boot:
  assumes i: "Install H st v src s = (r, s')" and v: "valid_slot v"
    and f: "sy_files s src = Some f" "src \<noteq> BinPath st v @ ''.tmp''"
  shows "boot_same_except {BinPath st v, BinPath st v @ ''.tmp''} s s'"
    and "sy_boot s' (BinPath st v) \<subseteq> insert (Some (fl_data f)) (sy_boot s (BinPath st v))"
proof -
  obtain ok s1 where m: "mkdir_all (SlotDir st v) s = (ok, s1)" by fastforce
  note m1 = mkdir_all_medium [OF m, unfolded medium_eq]
  have r: "(r, s') = (if ok then CopyExecutable H src (BinPath st v) s1 else (Inl OsError, s1))"
    using i v m by (auto simp: Install_def valid_slot_def)
  note C = CopyExecutable_boot [of H src "BinPath st v" s1 r s' f]
  show "boot_same_except {BinPath st v, BinPath st v @ ''.tmp''} s s'"
    using r C(1) f m1 by (cases ok) (auto simp: boot_same_except_def)
  show "sy_boot s' (BinPath st v) \<subseteq> insert (Some (fl_data f)) (sy_boot s (BinPath st v))"
    using r C(2) f m1 by (cases ok) auto
qed

text \<open>The files of the store other than slot \<open>v\<close>'s binary are none of the two an install writes.\<close>

lemma store_paths_neq:
  assumes "valid_slot v"
  shows "q \<in> {BinPath st (Other v), active_path st, confirmed_path st} \<Longrightarrow> q \<notin> {BinPath st v, BinPath st v @ ''.tmp''}"
  using bin_paths_distinct [OF assms, of st] BinPath_tmp_neq [OF assms Other_valid, of st v] assms
  by (metis BinPath_inj Other_neq empty_iff insert_iff)

text \<open>
  C3: Installing a file into a slot is all or nothing, for the running agent and across a power cut.
  Under any I/O errors, short writes and a cut at any call, the running agent sees the slot's binary
  either as it was or as the whole new file; and if the power goes, during the install or after it,
  what the next boot finds at the slot's binary is what it could have found before the install, or
  the whole new file, never a torn one. The other slot's binary and both pointers stay, for the agent
  and for the boot. A reported success is a complete binary, and the returned sum is the hash of it.
  Unsynced data may be found as anything at all; the one thing assumed of the stick is that a directory
  entry being renamed over is found old or new. The pointers are not synced by their own writes, so
  nothing is said here of a cut after a \<open>SetActive\<close>.
\<close>

theorem Install_all_or_nothing:
  assumes "Install H st v src s = (r, s')" and "valid_slot v"
    and "sy_files s src = Some f" and "src \<noteq> BinPath st v @ ''.tmp''"
  shows "(sy_files s' (BinPath st v) = sy_files s (BinPath st v)
        \<or> (\<exists>g. sy_files s' (BinPath st v) = Some g \<and> fl_data g = fl_data f))
    \<and> sy_files s' (BinPath st (Other v)) = sy_files s (BinPath st (Other v))
    \<and> active_ptr st s' = active_ptr st s \<and> confirmed_ptr st s' = confirmed_ptr st s
    \<and> (\<forall>h. r = Inr h \<longrightarrow> h = H (fl_data f)
        \<and> (\<exists>g. sy_files s' (BinPath st v) = Some g \<and> fl_data g = fl_data f))
    \<and> (\<forall>m. may_find s' m \<longrightarrow>
        (m (BinPath st v) \<in> sy_boot s (BinPath st v) \<or> m (BinPath st v) = Some (fl_data f))
        \<and> (\<forall>q \<in> {BinPath st (Other v), active_path st, confirmed_path st}. m q \<in> sy_boot s q))"
proof -
  note B = Install_boot [OF assms]
  have boot: "(m (BinPath st v) \<in> sy_boot s (BinPath st v) \<or> m (BinPath st v) = Some (fl_data f))
      \<and> (\<forall>q \<in> {BinPath st (Other v), active_path st, confirmed_path st}. m q \<in> sy_boot s q)"
    if m: "may_find s' m" for m
  proof (intro conjI ballI)
    show "m (BinPath st v) \<in> sy_boot s (BinPath st v) \<or> m (BinPath st v) = Some (fl_data f)"
      using m B(2) by (auto simp: may_find_def)
    show "m q \<in> sy_boot s q" if "q \<in> {BinPath st (Other v), active_path st, confirmed_path st}" for q
    proof -
      have "sy_boot s' q = sy_boot s q"
        using B(1) store_paths_neq [OF assms(2) that] unfolding boot_same_except_def by blast
      then show ?thesis using m unfolding may_find_def by metis
    qed
  qed
  obtain ok s1 where m: "mkdir_all (SlotDir st v) s = (ok, s1)" by fastforce
  have s1: "sy_files s1 = sy_files s" using m by (rule mkdir_all_files)
  have "sy_files s1 src = Some f" using s1 assms(3) by simp
  note C = CopyExecutable_files [OF _ this assms(4)]
  have r: "(r, s') = (if ok then CopyExecutable H src (BinPath st v) s1 else (Inl OsError, s1))"
    using assms(1,2) m by (auto simp: Install_def valid_slot_def)
  show ?thesis
  proof (cases ok)
    case False
    then show ?thesis
      using boot r s1 active_ptr_cong [of s' st s] confirmed_ptr_cong [of s' st s] by simp
  next
    case True
    with r have c: "CopyExecutable H src (BinPath st v) s1 = (r, s')" by simp
    have q: "sy_files s' q = sy_files s q" if "q \<in> {BinPath st (Other v), active_path st, confirmed_path st}" for q
      using C(1) [OF c] store_paths_neq [OF assms(2) that] unfolding same_except_def s1 by blast
    have "active_ptr st s' = active_ptr st s" "confirmed_ptr st s' = confirmed_ptr st s"
      using active_ptr_cong [of s' st s] confirmed_ptr_cong [of s' st s] q by simp_all
    moreover have "sy_files s' (BinPath st v) = sy_files s (BinPath st v)
        \<or> (\<exists>g. sy_files s' (BinPath st v) = Some g \<and> fl_data g = fl_data f)"
      using C(3) [OF c] unfolding s1 .
    moreover have "h = H (fl_data f) \<and> (\<exists>g. sy_files s' (BinPath st v) = Some g \<and> fl_data g = fl_data f)"
      if "r = Inr h" for h
      using C(2) [OF c that] by simp
    ultimately show ?thesis using q boot by blast
  qed
qed

text \<open>The power goes in the rename: the slot had an old binary, and a boot finds it or the new one.\<close>

lemma Install_all_or_nothing_witness:
  "\<exists>r s'. Install (\<lambda>b. ''x'') (New ''/s'') SlotB ''/u''
       (sample_sys [(''/u'', [1, 2, 3]), (''/s/B/app'', [9])] [Succeed, Succeed, Succeed, Succeed, Succeed, Succeed, Cut 1]) = (r, s')
     \<and> (\<forall>m. may_find s' m \<longrightarrow> m ''/s/B/app'' = Some [9] \<or> m ''/s/B/app'' = Some [1, 2, 3])"
proof -
  let ?s = "sample_sys [(''/u'', [1, 2, 3]), (''/s/B/app'', [9])] [Succeed, Succeed, Succeed, Succeed, Succeed, Succeed, Cut 1]"
  obtain r s' where i: "Install (\<lambda>b. ''x'') (New ''/s'') SlotB ''/u'' ?s = (r, s')" by fastforce
  have "BinPath (New ''/s'') SlotB = ''/s/B/app''" "sy_boot ?s ''/s/B/app'' = {Some [9]}"
    by (simp_all add: BinPath_def SlotDir_def New_def join_def slot_names sample_sys_def)
  then show ?thesis
    using Install_all_or_nothing [OF i, of "blank_file [1, 2, 3] 1"] i
    by (simp add: sample_sys_def valid_slot_def blank_file_def)
qed

text \<open>
  A pointer is renamed into place without a sync, so a cut soon after may leave anything in it: the
  running agent reads the new slot, the boot the default. What a boot reads is a slot all the same.
\<close>

lemma unsynced_pointer_may_be_lost:
  assumes "healthy s" and "valid_slot v" and "SetActive st v s = (e, s')"
  shows "e = None \<and> active_ptr st s' = v \<and> sy_boot s' (active_path st) = UNIV
    \<and> (\<forall>m. valid_slot (pointer_value SlotA (m (active_path st))))"
proof -
  let ?p = "active_path st" and ?t = "active_path st @ ''.tmp''" and ?d = "str_bytes (v @ [CHR 10])"
  obtain ok1 s1 where f: "write_file ?t 0x180 ?d s = (ok1, s1)" by fastforce
  obtain s0 where o: "open_trunc ?t 0x180 s = (True, s0)" "healthy s0" "\<exists>f. sy_files s0 ?t = Some f" "?t \<notin> sy_synced s0"
    using assms(1) by (auto simp: open_trunc_def new_file_def healthy_def split: option.split)
  define w where "w = write_eff ?t 0 ?d (length ?d) s0"
  have w: "healthy w" "\<exists>f. sy_files w ?t = Some f" "?t \<notin> sy_synced w"
    using o by (auto simp: w_def write_eff_def healthy_def)
  have "write_file ?t 0x180 ?d s = (True, w)"
    using o w(1) by (simp add: write_file_def write_at_def close_def w_def)
  moreover obtain ok s2 where r: "rename ?t ?p w = (ok, s2)" by fastforce
  moreover have ok: "ok" using r w(1,2) by (auto simp: rename_def)
  ultimately have e: "e = None" "s' = s2"
    using assms(2,3) by (auto simp: SetActive_def writePointer_def valid_slot_def)
  have "sy_boot s2 ?p = UNIV" using rename_boot(3) [OF r ok w(3) tmp_neq(1)] .
  then show ?thesis
    using e SetActive_files(2) [OF assms(3)] by (simp add: pointer_value_valid)
qed

text \<open>The status cache: an entry whose identity matches the file on the stick holds its hash.\<close>

definition coherent :: "(byte list \<Rightarrow> string) \<Rightarrow> slot_store \<Rightarrow> sys \<Rightarrow> bool" where
  "coherent H st s \<longleftrightarrow> (\<forall>p c f. st_sums st p = Some c \<longrightarrow> sy_files s p = Some f \<longrightarrow>
     fs_ino c = fl_ino f \<longrightarrow> fs_size c = length (fl_data f) \<longrightarrow> fs_mod c = fl_mod f \<longrightarrow>
     fs_sum c = H (fl_data f))"

lemma FileSHA256_files [fs_simps]: "FileSHA256 H p s = (r, s') \<Longrightarrow> sy_files s' = sy_files s"
  by (auto simp: FileSHA256_def split: prod.splits option.splits dest!: stat_files read_file_files)

lemma FileSHA256_sound:
  "FileSHA256 H p s = (Inr h, s') \<Longrightarrow> \<exists>f. sy_files s p = Some f \<and> h = H (fl_data f)"
  by (auto simp: FileSHA256_def split: prod.splits option.splits dest!: stat_files read_file_Some)

lemma coherent_hit:
  assumes "coherent H st s" "sy_files s p = Some f" "st_sums st p = Some c"
    "fs_ino c = fl_ino f" "fs_size c = length (fl_data f)" "fs_mod c = fl_mod f"
  shows "fs_sum c = H (fl_data f)"
  using assms unfolding coherent_def by blast

lemma coherent_insert:
  assumes "coherent H st s" "sy_files s p = Some f"
  shows "coherent H (st\<lparr>st_sums := (st_sums st)(p \<mapsto> \<lparr>fs_ino = i, fs_size = n, fs_mod = m, fs_sum = H (fl_data f)\<rparr>)\<rparr>) s"
  using assms by (simp add: coherent_def)

lemma coherent_cong: "sy_files s' = sy_files s \<Longrightarrow> coherent H st s' = coherent H st s"
  by (simp add: coherent_def)

lemma cachedSHA256_sound:
  assumes co: "coherent H st s" and c: "cachedSHA256 H st p s = (r, st', s')"
  shows "coherent H st' s' \<and> sy_files s' = sy_files s \<and> st_root st' = st_root st
    \<and> (\<forall>h. r = Inr h \<longrightarrow> (\<exists>f. sy_files s p = Some f \<and> h = H (fl_data f)))"
proof -
  obtain fi s1 where st: "stat p s = (fi, s1)" by fastforce
  obtain q s2 where fh: "FileSHA256 H p s1 = (q, s2)" by fastforce
  note f1 = stat_files [OF st] and f2 = FileSHA256_files [OF fh]
  show ?thesis
  proof (cases fi)
    case None
    then show ?thesis using c st co f1 coherent_cong [OF f1] by (auto simp: cachedSHA256_def)
  next
    case (Some f)
    then have f: "sy_files s p = Some f" using st stat_Some by simp
    let ?hit = "\<exists>c. st_sums st p = Some c \<and> fs_ino c = fl_ino f \<and> fs_size c = length (fl_data f) \<and> fs_mod c = fl_mod f"
    show ?thesis
    proof (cases ?hit)
      case True
      then obtain c' where c': "st_sums st p = Some c'" "fs_ino c' = fl_ino f"
        "fs_size c' = length (fl_data f)" "fs_mod c' = fl_mod f" by blast
      then have "r = Inr (fs_sum c')" "st' = st" "s' = s1"
        using c st Some by (simp_all add: cachedSHA256_def Let_def)
      with coherent_hit [OF co f c'] co f f1 show ?thesis by (simp add: coherent_cong [OF f1])
    next
      case False
      then have miss: "(r, st', s') = (case q of Inl e \<Rightarrow> (Inl e, st, s2)
        | Inr sha \<Rightarrow> (Inr sha, st\<lparr>st_sums := (st_sums st)(p \<mapsto> \<lparr>fs_ino = fl_ino f,
            fs_size = length (fl_data f), fs_mod = fl_mod f, fs_sum = sha\<rparr>)\<rparr>, s2))"
        unfolding c [symmetric] using st Some fh
        by (auto simp: cachedSHA256_def Let_def split: option.split sum.split)
      show ?thesis
      proof (cases q)
        case (Inl e)
        then show ?thesis using miss co f1 f2 coherent_cong [of s2 s] by simp
      next
        case (Inr h)
        then have "h = H (fl_data f)" using FileSHA256_sound [of H p s1 h s2] fh f f1 by simp
        then show ?thesis using miss Inr coherent_insert [OF co f] f f1 f2 coherent_cong [of s2 s] by simp
      qed
    qed
  qed
qed

lemma status_binaries_sound:
  "coherent H st s \<Longrightarrow> status_binaries H vs st s = (bs, st', s') \<Longrightarrow>
   coherent H st' s' \<and> sy_files s' = sy_files s \<and> st_root st' = st_root st
   \<and> (\<forall>v h. (v, Inr h) \<in> set bs \<longrightarrow> (\<exists>f. sy_files s (BinPath st v) = Some f \<and> h = H (fl_data f)))"
proof (induction H vs st s arbitrary: bs st' s' rule: status_binaries.induct)
  case (2 H v vs st s)
  obtain has s1 where hb: "HasBinary st v s = (has, s1)" by fastforce
  have s1: "sy_files s1 = sy_files s" using hb by (rule HasBinary_files)
  then have co: "coherent H st s1" using 2(3) by (simp add: coherent_def)
  show ?case
  proof (cases has)
    case False
    then have "status_binaries H vs st s1 = (bs, st', s')" using 2(4) hb by simp
    from 2(2) [OF hb [symmetric] refl False co this] s1 show ?thesis by simp
  next
    case True
    obtain r st2 s2 where ch: "cachedSHA256 H st (BinPath st v) s1 = (r, st2, s2)"
      by (cases "cachedSHA256 H st (BinPath st v) s1") auto
    obtain rest st3 s3 where re: "status_binaries H vs st2 s2 = (rest, st3, s3)"
      by (cases "status_binaries H vs st2 s2") auto
    note c = cachedSHA256_sound [OF co ch]
    have r: "bs = (v, r) # rest" "st' = st3" "s' = s3" using 2(4) hb True ch re by auto
    have root: "BinPath st2 w = BinPath st w" for w using c by (simp add: BinPath_def SlotDir_def)
    show ?thesis
      using 2(1) [OF hb [symmetric] refl True ch [symmetric] refl refl _ re] c r root s1
      by (auto simp del: status_binaries.simps)
  qed
qed simp

text \<open>
  With a coherent cache, every hash the status reports, cached or read again, is the hash of the
  binary the slot holds; the report names the slots the pointers name, and leaves the cache coherent
  and the stick untouched.
\<close>

theorem Status_reports_true_hashes:
  assumes "coherent H st s" and "Status H st s = (r, st', s')"
  shows "coherent H st' s' \<and> sy_files s' = sy_files s
    \<and> valid_slot (ss_Active r) \<and> valid_slot (ss_Confirmed r)
    \<and> (healthy s \<longrightarrow> ss_Active r = active_ptr st s \<and> ss_Confirmed r = confirmed_ptr st s)
    \<and> (\<forall>v h. (v, Inr h) \<in> set (ss_Binaries r) \<longrightarrow>
        (\<exists>f. sy_files s (BinPath st v) = Some f \<and> h = H (fl_data f)))"
proof -
  obtain a s1 where a: "Active st s = (a, s1)" by fastforce
  obtain c s2 where c: "Confirmed st s1 = (c, s2)" by fastforce
  obtain bs st3 s3 where b: "status_binaries H [SlotA, SlotB] st s2 = (bs, st3, s3)"
    by (cases "status_binaries H [SlotA, SlotB] st s2") auto
  have f: "sy_files s2 = sy_files s" using Active_files [OF a] Confirmed_files [OF c] by simp
  then have "coherent H st s2" using assms(1) by (simp add: coherent_def)
  note B = status_binaries_sound [OF this b]
  have r: "r = \<lparr>ss_Active = a, ss_Confirmed = c, ss_Binaries = bs, ss_Root = st_root st3\<rparr>" "st' = st3" "s' = s3"
    using assms(2) a c b by (auto simp: Status_def simp del: status_binaries.simps)
  have "healthy s \<Longrightarrow> a = active_ptr st s \<and> c = confirmed_ptr st s"
    using a c by auto
  then show ?thesis
    using B Active_valid [OF a] Confirmed_valid [OF c] unfolding r f by simp
qed

lemma Status_reports_true_hashes_witness:
  "\<exists>r st' s'. Status (\<lambda>b. ''x'') (New ''/s'') (sample_sys [] []) = (r, st', s') \<and> coherent (\<lambda>b. ''x'') st' s'
    \<and> ss_Active r = active_ptr (New ''/s'') (sample_sys [] [])"
proof -
  obtain r st' s' where s: "Status (\<lambda>b. ''x'') (New ''/s'') (sample_sys [] []) = (r, st', s')"
    by (cases "Status (\<lambda>b. ''x'') (New ''/s'') (sample_sys [] [])") auto
  have "coherent (\<lambda>b. ''x'') (New ''/s'') (sample_sys [] [])" by (simp add: coherent_def New_def)
  from Status_reports_true_hashes [OF this s] s show ?thesis
    by (simp add: healthy_def sample_sys_def del: split_paired_Ex)
qed

end
