(* ===== verification/Health.thy ===== *)
theory Health
  imports Stick
begin

text \<open>
  The health watcher of \<open>ota/internal/agent/health.go\<close>: the agent polls the app's token file and
  judges it by change, on its own monotonic clock. Times and durations are nanoseconds.
\<close>

record healthSig =
  hs_mod :: int
  hs_size :: nat
  hs_seen :: bool

record healthWatcher =
  hw_path :: path
  hw_lastSig :: healthSig
  hw_lastChange :: int
  hw_healthyOnce :: bool
  hw_started :: int
  hw_lastContent :: "byte list"

definition zero_sig :: healthSig where
  "zero_sig = \<lparr>hs_mod = 0, hs_size = 0, hs_seen = False\<rparr>"

definition fresh_watcher :: "path \<Rightarrow> int \<Rightarrow> healthWatcher" where
  "fresh_watcher p started = \<lparr>hw_path = p, hw_lastSig = zero_sig, hw_lastChange = 0, hw_healthyOnce = False,
     hw_started = started, hw_lastContent = []\<rparr>"

definition newHealthWatcher :: "path \<Rightarrow> int \<Rightarrow> sys \<Rightarrow> healthWatcher \<times> sys" where
  "newHealthWatcher p now s = (fresh_watcher p now, snd (remove p s))"

text \<open>The token's first 256 bytes, or as many as the read gives; nothing when it cannot be opened.\<close>

definition readPrefixInto :: "path \<Rightarrow> sys \<Rightarrow> byte list \<times> sys" where
  "readPrefixInto p s =
     (let (f, s) = stat p s in
      case f of None \<Rightarrow> ([], s)
      | Some f \<Rightarrow> (let (m, _, s) = partial_op (min 256 (length (fl_data f))) (\<lambda>_ s. s) s
                   in (take m (fl_data f), snd (close s))))"

definition poll :: "int \<Rightarrow> healthWatcher \<Rightarrow> sys \<Rightarrow> healthWatcher \<times> sys" where
  "poll now h s =
     (let (fi, s) = stat (hw_path h) s in
      case fi of None \<Rightarrow> (h, s)
      | Some f \<Rightarrow>
        (let sig = \<lparr>hs_mod = fl_mod f, hs_size = length (fl_data f), hs_seen = True\<rparr>;
             (content, s) = readPrefixInto (hw_path h) s
         in if sig \<noteq> hw_lastSig h \<or> content \<noteq> hw_lastContent h
            then (h\<lparr>hw_lastSig := sig, hw_lastContent := content, hw_lastChange := now, hw_healthyOnce := True\<rparr>, s)
            else (h, s)))"

record healthStatus =
  hst_HealthyOnce :: bool
  hst_SinceChange :: int
  hst_Token :: "byte list"

text \<open>\<open>Duration.Truncate\<close> rounds toward zero; the clock is monotonic, so the age is not negative.\<close>

definition health_status :: "int \<Rightarrow> healthWatcher \<Rightarrow> healthStatus" where
  "health_status now h = \<lparr>hst_HealthyOnce = hw_healthyOnce h,
     hst_SinceChange = (if hw_healthyOnce h then (now - hw_lastChange h) - (now - hw_lastChange h) mod 1000000 else 0),
     hst_Token = hw_lastContent h\<rparr>"

definition verdict :: "int \<Rightarrow> int \<Rightarrow> int \<Rightarrow> healthWatcher \<Rightarrow> bool \<times> string" where
  "verdict now grace staleness h =
     (if \<not> hw_healthyOnce h then
        (if now - hw_started h > grace then (False, ''no first health report within grace'')
         else (True, ''waiting first report''))
      else if now - hw_lastChange h > staleness then (False, ''health token stale'')
      else (True, ''ok''))"

section \<open>The verdict against the token's history\<close>

text \<open>
  The reference: what a poll can see of the token, and from a list of timed sightings the time of the
  last one that differed from the sighting before it.
\<close>

type_synonym token = "int \<times> nat \<times> byte list"

definition token_of :: "path \<Rightarrow> sys \<Rightarrow> token option" where
  "token_of p s = map_option (\<lambda>f. (fl_mod f, length (fl_data f), take 256 (fl_data f))) (sy_files s p)"

fun last_change :: "token option \<Rightarrow> (int \<times> token option) list \<Rightarrow> int option" where
  "last_change prev [] = None"
| "last_change prev ((t, None) # os) = last_change prev os"
| "last_change prev ((t, Some k) # os) = (case last_change (Some k) os of
     Some u \<Rightarrow> Some u | None \<Rightarrow> if prev \<noteq> Some k then Some t else None)"

definition watch :: "(int \<times> sys) list \<Rightarrow> healthWatcher \<Rightarrow> healthWatcher" where
  "watch obs h = fold (\<lambda>(now, s) h. fst (poll now h s)) obs h"

definition seen_token :: "healthWatcher \<Rightarrow> token option" where
  "seen_token h = (if hs_seen (hw_lastSig h)
     then Some (hs_mod (hw_lastSig h), hs_size (hw_lastSig h), hw_lastContent h) else None)"

lemma poll_healthy:
  assumes "healthy s"
  shows "fst (poll now h s) = (case sy_files s (hw_path h) of None \<Rightarrow> h
     | Some f \<Rightarrow> if seen_token h = token_of (hw_path h) s then h
         else h\<lparr>hw_lastSig := \<lparr>hs_mod = fl_mod f, hs_size = length (fl_data f), hs_seen = True\<rparr>,
                hw_lastContent := take 256 (fl_data f), hw_lastChange := now, hw_healthyOnce := True\<rparr>)"
proof (cases "sy_files s (hw_path h)")
  case None
  then show ?thesis using assms by (simp add: poll_def)
next
  case (Some f)
  have "\<lparr>hs_mod = fl_mod f, hs_size = length (fl_data f), hs_seen = True\<rparr> = hw_lastSig h
      \<and> take 256 (fl_data f) = hw_lastContent h \<longleftrightarrow> seen_token h = token_of (hw_path h) s"
    using Some by (cases "hw_lastSig h") (auto simp: seen_token_def token_of_def)
  moreover have "take (min 256 (length (fl_data f))) (fl_data f) = take 256 (fl_data f)" by (simp add: min_def)
  ultimately show ?thesis using Some assms by (auto simp: poll_def readPrefixInto_def Let_def)
qed

lemma watch_keeps: "\<forall>(t, s) \<in> set obs. healthy s \<Longrightarrow>
   hw_path (watch obs h) = hw_path h \<and> hw_started (watch obs h) = hw_started h"
  by (induction obs arbitrary: h) (auto simp: watch_def poll_healthy split: option.split)

lemma watch_last_change:
  assumes "\<forall>(t, s) \<in> set obs. healthy s"
  shows "hw_healthyOnce (watch obs h) = (hw_healthyOnce h \<or> last_change (seen_token h) (map (\<lambda>(t, s). (t, token_of (hw_path h) s)) obs) \<noteq> None)
   \<and> (case last_change (seen_token h) (map (\<lambda>(t, s). (t, token_of (hw_path h) s)) obs) of
        None \<Rightarrow> hw_lastChange (watch obs h) = hw_lastChange h
      | Some t \<Rightarrow> hw_lastChange (watch obs h) = t)"
  using assms
proof (induction obs arbitrary: h)
  case Nil
  then show ?case by (simp add: watch_def)
next
  case (Cons o1 obs)
  obtain t s where o1: "o1 = (t, s)" by fastforce
  let ?h1 = "fst (poll t h s)"
  have hs: "healthy s" using Cons.prems o1 by simp
  have w: "watch ((t, s) # obs) h = watch obs ?h1" by (simp add: watch_def)
  have path: "hw_path ?h1 = hw_path h" using hs by (simp add: poll_healthy split: option.split)
  have IH: "hw_healthyOnce (watch obs ?h1) = (hw_healthyOnce ?h1 \<or> last_change (seen_token ?h1) (map (\<lambda>(t, s). (t, token_of (hw_path h) s)) obs) \<noteq> None)
   \<and> (case last_change (seen_token ?h1) (map (\<lambda>(t, s). (t, token_of (hw_path h) s)) obs) of
        None \<Rightarrow> hw_lastChange (watch obs ?h1) = hw_lastChange ?h1
      | Some t \<Rightarrow> hw_lastChange (watch obs ?h1) = t)"
    using Cons.IH [of ?h1] Cons.prems by (simp add: path)
  show ?case
  proof (cases "sy_files s (hw_path h)")
    case None
    then have "?h1 = h" "token_of (hw_path h) s = None" using hs by (simp_all add: poll_healthy token_of_def)
    then show ?thesis using IH by (simp add: w o1 split: option.splits)
  next
    case (Some f)
    then obtain k where k: "token_of (hw_path h) s = Some k" by (simp add: token_of_def)
    have "seen_token ?h1 = Some k \<and> (if seen_token h = Some k then ?h1 = h
      else hw_lastChange ?h1 = t \<and> hw_healthyOnce ?h1)"
      using Some k hs by (auto simp: poll_healthy seen_token_def token_of_def)
    then show ?thesis
      using IH unfolding o1 w by (auto simp: k w split: option.splits if_splits)
  qed
qed

text \<open>
  C11: A freshly launched app is judged by its token's history alone. Over any run of polls of a
  readable token file, the verdict at a later time is unhealthy exactly when no token was ever seen
  and the grace period is over, or when the last sighting that differed from the one before it is
  longer ago than the staleness limit; a file that is rewritten within the same clock tick counts as
  changed when its size or its first 256 bytes differ.
\<close>

theorem verdict_follows_token_history:
  assumes "\<forall>(t, s) \<in> set obs. healthy s"
  shows "fst (verdict now grace staleness (watch obs (fresh_watcher p started))) \<longleftrightarrow>
     (case last_change None (map (\<lambda>(t, s). (t, token_of p s)) obs) of
        None \<Rightarrow> now - started \<le> grace
      | Some t \<Rightarrow> now - t \<le> staleness)"
proof -
  let ?h = "fresh_watcher p started"
  have init: "seen_token ?h = None" "hw_path ?h = p" "\<not> hw_healthyOnce ?h" "hw_started ?h = started"
    by (simp_all add: fresh_watcher_def seen_token_def zero_sig_def)
  show ?thesis
    using watch_last_change [OF assms, of ?h] watch_keeps [OF assms, of ?h] init
    by (auto simp: verdict_def split: option.splits)
qed

definition token_sys :: "int \<Rightarrow> byte list \<Rightarrow> sys" where
  "token_sys m d = \<lparr>sy_files = [''/h'' \<mapsto> \<lparr>fl_data = d, fl_ino = 1, fl_mod = m, fl_mode = 0, fl_reg = True\<rparr>],
     sy_script = [], sy_dead = False, sy_now = 0, sy_nextino = 2, sy_synced = {}, sy_boot = (\<lambda>_. UNIV)\<rparr>"

text \<open>Two sightings within one mtime tick: the second is a change, so at time 30 the token is fresh.\<close>

lemma verdict_follows_token_history_witness:
  "fst (verdict 30 5 10 (watch [(1, token_sys 0 [1]), (20, token_sys 0 [2])] (fresh_watcher ''/h'' 0)))
   \<and> \<not> fst (verdict 31 5 10 (watch [(1, token_sys 0 [1]), (20, token_sys 0 [2])] (fresh_watcher ''/h'' 0)))"
  by (subst (1 2) verdict_follows_token_history) (simp_all add: healthy_def token_sys_def token_of_def)

end
