(* ===== verification/Supervise.thy ===== *)
theory Supervise
  imports SlotStore Health
begin

text \<open>
  The app supervisor of \<open>ota/internal/agent/supervise.go\<close>: one function per method of the source, on
  an agent record that carries the slot store's system state, the signals sent and the events
  published. What a \<open>select\<close> receives is a list of events, in the order they arrive: a stop of the
  agent, a control request, the app's exit, or a tick of the 500 ms ticker at a time, with the health
  file as the tick finds it. A loop that has no event left is still waiting.
\<close>

datatype ctlOp = OpStart | OpStop | OpRestart | OpOther string

datatype run_reason = Exited | ByCtl ctlOp | Unhealthy string

text \<open>\<open>LastExit\<close> as a value; the source formats it as text.\<close>

datatype exit_note =
    NoNote | Note run_reason | FailNote run_reason bool int | StartFailed | NoBinary | AdoptedExited
  | AdoptedUnhealthy string

record appState =
  ap_Running :: bool
  ap_Adopted :: bool
  ap_PID :: int
  ap_Slot :: string
  ap_StartedAt :: int
  ap_Fails :: int
  ap_LastExit :: exit_note
  ap_Health :: "healthStatus option"

definition zero_app :: appState where
  "zero_app = \<lparr>ap_Running = False, ap_Adopted = False, ap_PID = 0, ap_Slot = [], ap_StartedAt = 0, ap_Fails = 0,
     ap_LastExit = NoNote, ap_Health = None\<rparr>"

datatype agent_event =
    AppStart string int | AppConfirmed string | AppConfirmFailed string
  | AppRollback string string int | AppCrashLoop string int

datatype signal = SIGTERM | SIGKILL

record sup_config =
  cf_MaxFails :: int
  cf_Stable :: int
  cf_AppGrace :: int
  cf_HealthTimeout :: int
  cf_HealthPath :: path
  cf_PidPath :: path

record agent =
  ag_cfg :: sup_config
  ag_store :: slot_store
  ag_sys :: sys
  ag_app :: appState
  ag_paused :: bool
  ag_confirmedRun :: string
  ag_confirmFailed :: string
  ag_events :: "agent_event list"
  ag_signals :: "(int \<times> signal) list"

definition emit :: "agent_event \<Rightarrow> agent \<Rightarrow> agent" where
  "emit e a = a\<lparr>ag_events := ag_events a @ [e]\<rparr>"

definition on_store :: "(slot_store \<Rightarrow> sys \<Rightarrow> 'r \<times> sys) \<Rightarrow> agent \<Rightarrow> 'r \<times> agent" where
  "on_store f a = (let (r, s) = f (ag_store a) (ag_sys a) in (r, a\<lparr>ag_sys := s\<rparr>))"

section \<open>Failure counting, rollback and confirmation\<close>

definition setAppState :: "(appState \<Rightarrow> appState) \<Rightarrow> agent \<Rightarrow> agent" where
  "setAppState f a = a\<lparr>ag_app := f (ag_app a)\<rparr>"

definition bumpFail :: "exit_note \<Rightarrow> agent \<Rightarrow> agent" where
  "bumpFail why = setAppState (\<lambda>p. p\<lparr>ap_Fails := ap_Fails p + 1, ap_Running := False, ap_PID := 0, ap_LastExit := why\<rparr>)"

definition clearFails :: "agent \<Rightarrow> agent" where
  "clearFails = setAppState (\<lambda>p. p\<lparr>ap_Fails := 0\<rparr>)"

definition rollbackIfNeeded :: "string \<Rightarrow> agent \<Rightarrow> agent" where
  "rollbackIfNeeded v a =
     (let fails = ap_Fails (ag_app a) in
      if fails < cf_MaxFails (ag_cfg a) then a else
      let (confirmed, a) = on_store Confirmed a;
          (has, a) = (if v \<noteq> confirmed then on_store (\<lambda>st. HasBinary st confirmed) a else (False, a)) in
      if v \<noteq> confirmed \<and> has then
        let (_, a) = on_store (\<lambda>st. SetActive st confirmed) a;
            a = emit (AppRollback v confirmed fails) a
        in setAppState (\<lambda>p. p\<lparr>ap_Fails := 0\<rparr>) a
      else emit (AppCrashLoop v fails) a)"

definition confirmIfStable :: "string \<Rightarrow> healthStatus \<Rightarrow> int \<Rightarrow> agent \<Rightarrow> agent" where
  "confirmIfStable v hs dur a =
     (if \<not> hst_HealthyOnce hs \<or> dur < cf_Stable (ag_cfg a) \<or> ag_confirmedRun a = v then a else
      let (confirmed, a) = on_store Confirmed a in
      if confirmed \<noteq> v then
        let (err, a) = on_store (\<lambda>st. SetConfirmed st v) a in
        case err of
          Some _ \<Rightarrow> (if ag_confirmFailed a \<noteq> v
             then emit (AppConfirmFailed v) (a\<lparr>ag_confirmFailed := v\<rparr>) else a)
        | None \<Rightarrow> (emit (AppConfirmed v) a)\<lparr>ag_confirmedRun := v, ag_confirmFailed := []\<rparr>
      else a\<lparr>ag_confirmedRun := v, ag_confirmFailed := []\<rparr>)"

definition pickSlot :: "agent \<Rightarrow> string \<times> agent" where
  "pickSlot a =
     (let (active, a) = on_store Active a;
          (has, a) = on_store (\<lambda>st. HasBinary st active) a in
      if has then (active, a) else
      let (conf, a) = on_store Confirmed a in
      if conf = active then ([], a) else
      let (has, a) = on_store (\<lambda>st. HasBinary st conf) a in
      if has then (conf, a) else ([], a))"

section \<open>Waiting and killing\<close>

datatype idle_event = IdleStopped | IdleCtl ctlOp | IdleTimeout

text \<open>\<open>idleWait\<close>: the second component is the error sent back for an unknown request.\<close>

definition idleWait :: "idle_event \<Rightarrow> agent \<Rightarrow> agent \<times> bool" where
  "idleWait e a = (case e of
       IdleStopped \<Rightarrow> (a, True)
     | IdleTimeout \<Rightarrow> (a, True)
     | IdleCtl OpStart \<Rightarrow> (a\<lparr>ag_paused := False\<rparr>, True)
     | IdleCtl OpStop \<Rightarrow> (a\<lparr>ag_paused := True\<rparr>, True)
     | IdleCtl OpRestart \<Rightarrow> (a\<lparr>ag_paused := False\<rparr>, True)
     | IdleCtl (OpOther _) \<Rightarrow> (a, False))"

text \<open>
  \<open>terminate\<close> signals the process group, \<open>killPid\<close> the process; \<open>quits\<close> says whether it ends within
  the three seconds after \<open>SIGTERM\<close>.
\<close>

definition send_signal :: "int \<Rightarrow> signal \<Rightarrow> agent \<Rightarrow> agent" where
  "send_signal pid sg a = a\<lparr>ag_signals := ag_signals a @ [(pid, sg)]\<rparr>"

definition terminate :: "int \<Rightarrow> bool \<Rightarrow> agent \<Rightarrow> agent" where
  "terminate pid quits a =
     (let a = send_signal (- pid) SIGTERM a in if quits then a else send_signal (- pid) SIGKILL a)"

definition killPid :: "int \<Rightarrow> bool \<Rightarrow> agent \<Rightarrow> agent" where
  "killPid pid quits a =
     (let a = send_signal pid SIGTERM a in if quits then a else send_signal pid SIGKILL a)"

definition on_sys :: "(sys \<Rightarrow> 'r \<times> sys) \<Rightarrow> agent \<Rightarrow> agent" where
  "on_sys f a = a\<lparr>ag_sys := snd (f (ag_sys a))\<rparr>"

definition orphanAppPid :: "(int \<Rightarrow> bool) \<Rightarrow> agent \<Rightarrow> int \<times> agent" where
  "orphanAppPid alive a =
     (let (b, s) = read_file (cf_PidPath (ag_cfg a)) (ag_sys a);
          a = a\<lparr>ag_sys := s\<rparr> in
      case b of None \<Rightarrow> (-1, a)
      | Some b \<Rightarrow> (case Atoi (TrimSpace (map char_of_byte b)) of
            None \<Rightarrow> (-1, a)
          | Some pid \<Rightarrow> if pid \<le> 1 \<or> \<not> alive pid then (-1, a) else (pid, a)))"

section \<open>One app generation\<close>

datatype run_event =
    Stopped
  | Exit bool int
  | Ctl ctlOp bool int
  | Tick int "fnode option" bool

text \<open>The health file as the app left it when the tick came.\<close>

definition set_token :: "fnode option \<Rightarrow> agent \<Rightarrow> agent" where
  "set_token tok a = a\<lparr>ag_sys := (ag_sys a)\<lparr>sy_files := (sy_files (ag_sys a))(cf_HealthPath (ag_cfg a) := tok)\<rparr>\<rparr>"

definition on_poll :: "int \<Rightarrow> healthWatcher \<Rightarrow> agent \<Rightarrow> healthWatcher \<times> agent" where
  "on_poll now h a = (let (h, s) = poll now h (ag_sys a) in (h, a\<lparr>ag_sys := s\<rparr>))"

datatype loop_end = Left | Waiting | Ended run_reason bool int

fun run_loop :: "string \<Rightarrow> int \<Rightarrow> int \<Rightarrow> run_event list \<Rightarrow> healthWatcher \<Rightarrow> agent
    \<Rightarrow> loop_end \<times> healthWatcher \<times> agent" where
  "run_loop v start pid [] h a = (Waiting, h, a)"
| "run_loop v start pid (Stopped # evs) h a = (Left, h, a)"
| "run_loop v start pid (Exit err now # evs) h a = (Ended Exited err now, h, a)"
| "run_loop v start pid (Ctl opr quits now # evs) h a =
     (let a = terminate pid quits a;
          a = (if opr = OpStop then a\<lparr>ag_paused := True\<rparr> else a)
      in (Ended (ByCtl opr) False now, h, a))"
| "run_loop v start pid (Tick now tok quits # evs) h a =
     (let (h, a) = on_poll now h (set_token tok a);
          hs = health_status now h;
          a = setAppState (\<lambda>p. p\<lparr>ap_Health := Some hs\<rparr>) a;
          (ok, why) = verdict now (cf_AppGrace (ag_cfg a)) (cf_HealthTimeout (ag_cfg a)) h
      in if \<not> ok then (Ended (Unhealthy why) False now, h, terminate pid quits a)
         else run_loop v start pid evs h (confirmIfStable v hs (now - start) a))"

text \<open>
  What follows the loop: the pid file goes, and the run is classified. \<open>idle\<close> is what the closing
  \<open>idleWait\<close> receives.
\<close>

definition classify_run :: "string \<Rightarrow> run_reason \<Rightarrow> bool \<Rightarrow> healthStatus \<Rightarrow> int \<Rightarrow> idle_event \<Rightarrow> agent \<Rightarrow> agent" where
  "classify_run v reason err hs dur idle a =
     (case reason of ByCtl _ \<Rightarrow> setAppState (\<lambda>p. zero_app\<lparr>ap_LastExit := Note reason\<rparr>) a
      | _ \<Rightarrow>
        (if hst_HealthyOnce hs \<and> dur \<ge> cf_Stable (ag_cfg a) then
           let a = confirmIfStable v hs dur a;
               a = setAppState (\<lambda>p. zero_app\<lparr>ap_LastExit := Note reason\<rparr>) a
           in fst (idleWait idle a)
         else
           let a = bumpFail (FailNote reason err dur) a;
               a = rollbackIfNeeded v a
           in fst (idleWait idle a)))"

text \<open>
  \<open>runAppOnce\<close>: \<open>started\<close> is the pid, or \<^term>\<open>None\<close> when the launch failed; the pid file holds the
  decimal pid and a newline. \<open>run_to_end\<close> is its second half, a run in its loop up to the end.
  \<^term>\<open>None\<close> is a run that has not ended.
\<close>

definition run_to_end ::
  "string \<Rightarrow> int \<Rightarrow> int \<Rightarrow> run_event list \<Rightarrow> idle_event \<Rightarrow> healthWatcher \<Rightarrow> agent \<Rightarrow> agent option" where
  "run_to_end v start pid evs idle h a =
     (let (res, h, a) = run_loop v start pid evs h a in
      case res of
        Left \<Rightarrow> Some a
      | Waiting \<Rightarrow> None
      | Ended reason err now \<Rightarrow>
          let a = on_sys (remove (cf_PidPath (ag_cfg a))) a
          in Some (classify_run v reason err (health_status now h) (now - start) idle a))"

definition runAppOnce ::
  "string \<Rightarrow> int \<Rightarrow> nat option \<Rightarrow> run_event list \<Rightarrow> idle_event \<Rightarrow> agent \<Rightarrow> agent option" where
  "runAppOnce v start started evs idle a =
     (let (h, s) = newHealthWatcher (cf_HealthPath (ag_cfg a)) start (ag_sys a);
          a = a\<lparr>ag_sys := s, ag_confirmedRun := [], ag_confirmFailed := []\<rparr> in
      case started of
        None \<Rightarrow> Some (fst (idleWait idle (bumpFail StartFailed a)))
      | Some pid \<Rightarrow>
        let a = on_sys (write_file (cf_PidPath (ag_cfg a)) 0x180 (str_bytes (dec_str pid @ [CHR 10]))) a;
            a = a\<lparr>ag_app := zero_app\<lparr>ap_Running := True, ap_PID := int pid, ap_Slot := v,
                     ap_StartedAt := start, ap_Fails := ap_Fails (ag_app a)\<rparr>\<rparr>;
            a = emit (AppStart v (int pid)) a
        in run_to_end v start (int pid) evs idle h a)"

section \<open>An adopted app\<close>

datatype adopted_event = AStopped | ACtl ctlOp bool | ATick int "fnode option" bool bool

fun adopted_loop :: "int \<Rightarrow> adopted_event list \<Rightarrow> healthWatcher \<Rightarrow> agent \<Rightarrow> agent option" where
  "adopted_loop pid [] h a = None"
| "adopted_loop pid (AStopped # evs) h a = Some a"
| "adopted_loop pid (ACtl opr quits # evs) h a =
     (let a = killPid pid quits a;
          a = on_sys (remove (cf_PidPath (ag_cfg a))) a
      in Some (if opr = OpStop then a\<lparr>ag_paused := True\<rparr> else a))"
| "adopted_loop pid (ATick now tok alive quits # evs) h a =
     (if \<not> alive then
        let a = on_sys (remove (cf_PidPath (ag_cfg a))) a in Some (bumpFail AdoptedExited a)
      else
        let (h, a) = on_poll now h (set_token tok a);
            a = setAppState (\<lambda>p. p\<lparr>ap_Health := Some (health_status now h)\<rparr>) a;
            (ok, why) = verdict now (cf_AppGrace (ag_cfg a)) (cf_HealthTimeout (ag_cfg a)) h
        in if \<not> ok then
             let a = killPid pid quits a;
                 a = on_sys (remove (cf_PidPath (ag_cfg a))) a
             in Some (bumpFail (AdoptedUnhealthy why) a)
           else adopted_loop pid evs h a)"

definition one_hour :: int where "one_hour = 3600 * 1000000000"

definition superviseAdopted :: "int \<Rightarrow> int \<Rightarrow> adopted_event list \<Rightarrow> agent \<Rightarrow> agent option" where
  "superviseAdopted now pid evs a =
     (let h = fresh_watcher (cf_HealthPath (ag_cfg a)) (now - one_hour);
          (h, a) = on_poll now h a;
          h = h\<lparr>hw_healthyOnce := hs_seen (hw_lastSig h), hw_lastChange := now\<rparr>;
          a = setAppState (\<lambda>p. zero_app\<lparr>ap_Running := True, ap_Adopted := True, ap_PID := pid, ap_StartedAt := now\<rparr>) a
      in adopted_loop pid evs h a)"

section \<open>The loop\<close>

text \<open>
  One round of \<open>superviseLoop\<close>: the persisted state, what \<open>/proc\<close> shows of factory processes, and
  the inputs of whichever wait or run the round enters. \<open>reclaim\<close> is \<open>reclaimBus\<close>.
\<close>

record round_input =
  ri_takenOver :: bool
  ri_candidates :: "int list"
  ri_alive :: "int \<Rightarrow> bool"
  ri_now :: int
  ri_adopted :: "adopted_event list"
  ri_started :: "nat option"
  ri_run :: "run_event list"
  ri_idle :: idle_event

definition supervise_round :: "(agent \<Rightarrow> agent) \<Rightarrow> round_input \<Rightarrow> agent \<Rightarrow> agent option" where
  "supervise_round reclaim x a =
     (if \<not> ri_takenOver x \<or> ag_paused a then Some (fst (idleWait (ri_idle x) a))
      else if ri_candidates x \<noteq> [] then Some (fst (idleWait (ri_idle x) (reclaim a)))
      else let (pid, a) = orphanAppPid (ri_alive x) a in
        if pid > 0 then superviseAdopted (ri_now x) pid (ri_adopted x) a
        else let (v, a) = pickSlot a in
          if v = [] then
            let a = setAppState (\<lambda>p. zero_app\<lparr>ap_LastExit := NoBinary\<rparr>) a
            in Some (fst (idleWait (ri_idle x) a))
          else runAppOnce v (ri_now x) (ri_started x) (ri_run x) (ri_idle x) a)"

fun superviseLoop :: "(agent \<Rightarrow> agent) \<Rightarrow> round_input list \<Rightarrow> agent \<Rightarrow> agent option" where
  "superviseLoop reclaim [] a = Some a"
| "superviseLoop reclaim (x # xs) a = Option.bind (supervise_round reclaim x a) (superviseLoop reclaim xs)"

section \<open>What a run leaves alone\<close>

text \<open>The health file and the pid file are not files of the slot store.\<close>

definition slot_paths :: "slot_store \<Rightarrow> path set" where
  "slot_paths st = {BinPath st SlotA, BinPath st SlotB, active_path st, confirmed_path st}"

definition paths_ok :: "agent \<Rightarrow> bool" where
  "paths_ok a \<longleftrightarrow> {cf_HealthPath (ag_cfg a), cf_PidPath (ag_cfg a)} \<inter> slot_paths (ag_store a) = {}"

text \<open>Same configuration, store and files at the given paths.\<close>

definition keeps :: "path set \<Rightarrow> agent \<Rightarrow> agent \<Rightarrow> bool" where
  "keeps P a a' \<longleftrightarrow> ag_cfg a' = ag_cfg a \<and> ag_store a' = ag_store a
     \<and> (\<forall>p \<in> P. sy_files (ag_sys a') p = sy_files (ag_sys a) p)"

named_theorems quiet "operations that leave the slot store alone"

lemma keeps_refl [simp]: "keeps P a a"
  by (simp add: keeps_def)

lemma keeps_trans: "keeps P a b \<Longrightarrow> keeps P b c \<Longrightarrow> keeps P a c"
  by (auto simp: keeps_def)

lemma keeps_mono: "keeps P a b \<Longrightarrow> Q \<subseteq> P \<Longrightarrow> keeps Q a b"
  by (auto simp: keeps_def)

lemma keeps_paths_ok: "keeps P a b \<Longrightarrow> paths_ok b = paths_ok a"
  by (simp add: keeps_def paths_ok_def)

lemma keeps_setAppState [quiet]: "keeps P a (setAppState f b) = keeps P a b"
  by (simp add: keeps_def setAppState_def)

lemma keeps_bumpFail [quiet]: "keeps P a (bumpFail w b) = keeps P a b"
  by (simp add: bumpFail_def quiet)

lemma keeps_emit [quiet]: "keeps P a (emit e b) = keeps P a b"
  by (simp add: keeps_def emit_def)

lemma keeps_idleWait [quiet]: "keeps P a (fst (idleWait e b)) = keeps P a b"
  by (simp add: keeps_def idleWait_def split: idle_event.split ctlOp.split)

lemma terminate_simps [simp]:
  "ag_sys (terminate pid q b) = ag_sys b" "ag_app (terminate pid q b) = ag_app b"
  "ag_cfg (terminate pid q b) = ag_cfg b" "ag_store (terminate pid q b) = ag_store b"
  by (simp_all add: terminate_def send_signal_def Let_def)

lemma keeps_terminate [quiet]: "keeps P a (terminate pid q b) = keeps P a b"
  by (simp add: keeps_def)

lemma keeps_paused [quiet]: "keeps P a (b\<lparr>ag_paused := x\<rparr>) = keeps P a b"
  by (simp add: keeps_def)

lemma keeps_run_fields [quiet]: "keeps P a (b\<lparr>ag_confirmedRun := x, ag_confirmFailed := y\<rparr>) = keeps P a b"
  by (simp add: keeps_def)

lemma keeps_app [quiet]: "keeps P a (b\<lparr>ag_app := x\<rparr>) = keeps P a b"
  by (simp add: keeps_def)

lemma keeps_confirmFailed [quiet]: "keeps P a (b\<lparr>ag_confirmFailed := y\<rparr>) = keeps P a b"
  by (simp add: keeps_def)

lemma keeps_set_token:
  "paths_ok b \<Longrightarrow> P \<subseteq> slot_paths (ag_store b) \<Longrightarrow> keeps P b (set_token tok b)"
  by (auto simp: keeps_def set_token_def paths_ok_def)

lemma partial_op_id_files: "partial_op n (\<lambda>_ s. s) s = (m, ok, s') \<Longrightarrow> sy_files s' = sy_files s"
  by (erule partial_op_files) auto

lemma readPrefixInto_files [fs_simps]: "readPrefixInto p s = (c, s') \<Longrightarrow> sy_files s' = sy_files s"
proof -
  have cl: "sy_files (snd (close x)) = sy_files x" for x
    by (metis close_files surjective_pairing)
  show "readPrefixInto p s = (c, s') \<Longrightarrow> sy_files s' = sy_files s"
    by (auto simp: readPrefixInto_def cl split: prod.splits option.splits dest!: stat_files partial_op_id_files)
qed

lemma poll_files [fs_simps]: "poll now h s = (h', s') \<Longrightarrow> sy_files s' = sy_files s"
  by (auto simp: poll_def Let_def split: prod.splits option.splits if_splits
      dest!: stat_files readPrefixInto_files)

lemma keeps_on_poll: "on_poll now h a = (h', a') \<Longrightarrow> keeps P a a'"
  by (auto simp: on_poll_def keeps_def split: prod.splits dest!: poll_files)

lemma keeps_on_sys:
  assumes "\<And>r s'. f (ag_sys a) = (r, s') \<Longrightarrow> same_except {cf_PidPath (ag_cfg a)} (ag_sys a) s'"
    and "paths_ok a" "P \<subseteq> slot_paths (ag_store a)"
  shows "keeps P a (on_sys f a)"
proof -
  have ne: "p \<noteq> cf_PidPath (ag_cfg a)" if "p \<in> P" for p
    using that assms(2,3) by (auto simp: paths_ok_def)
  show ?thesis
    using assms(1) [of "fst (f (ag_sys a))" "snd (f (ag_sys a))"] ne
    by (auto simp: on_sys_def keeps_def same_except_def)
qed

lemma keeps_pid_write:
  "paths_ok a \<Longrightarrow> P \<subseteq> slot_paths (ag_store a) \<Longrightarrow> keeps P a (on_sys (write_file (cf_PidPath (ag_cfg a)) m d) a)"
  by (rule keeps_on_sys) (auto dest: write_file_files(1))

lemma keeps_pid_remove:
  "paths_ok a \<Longrightarrow> P \<subseteq> slot_paths (ag_store a) \<Longrightarrow> keeps P a (on_sys (remove (cf_PidPath (ag_cfg a))) a)"
  by (rule keeps_on_sys) (auto dest: remove_files(1))

lemma on_store_read:
  assumes "on_store f a = (r, a')" and "\<And>st s r s'. f st s = (r, s') \<Longrightarrow> sy_files s' = sy_files s"
  shows "a' = a\<lparr>ag_sys := ag_sys a'\<rparr>" and "sy_files (ag_sys a') = sy_files (ag_sys a)" and "keeps P a a'"
proof -
  obtain s' where f: "f (ag_store a) (ag_sys a) = (r, s')" and a': "a' = a\<lparr>ag_sys := s'\<rparr>"
    using assms(1) by (auto simp: on_store_def split: prod.splits)
  then show "a' = a\<lparr>ag_sys := ag_sys a'\<rparr>" and "sy_files (ag_sys a') = sy_files (ag_sys a)" and "keeps P a a'"
    using assms(2) [OF f] by (auto simp: keeps_def)
qed

lemma on_Confirmed:
  assumes "on_store Confirmed a = (r, a')"
  shows "a' = a\<lparr>ag_sys := ag_sys a'\<rparr>" and "sy_files (ag_sys a') = sy_files (ag_sys a)" and "keeps P a a'"
    and "ag_app a' = ag_app a"
proof -
  show 1: "a' = a\<lparr>ag_sys := ag_sys a'\<rparr>" and "sy_files (ag_sys a') = sy_files (ag_sys a)" and "keeps P a a'"
    by (rule on_store_read [OF assms], erule Confirmed_files)+
  show "ag_app a' = ag_app a" by (subst 1) simp
qed

lemma on_HasBinary:
  assumes "on_store (\<lambda>st. HasBinary st v) a = (r, a')"
  shows "sy_files (ag_sys a') = sy_files (ag_sys a)" and "keeps P a a'"
  by (rule on_store_read [OF assms], erule HasBinary_files)+

lemma on_Active:
  assumes "on_store Active a = (r, a')"
  shows "sy_files (ag_sys a') = sy_files (ag_sys a)" and "keeps P a a'"
  by (rule on_store_read [OF assms], erule Active_files)+

definition bins :: "slot_store \<Rightarrow> path set" where
  "bins st = {BinPath st SlotA, BinPath st SlotB}"

lemma bins_sub [simp]: "bins st \<subseteq> slot_paths st" "active_path st \<in> slot_paths st"
  "confirmed_path st \<in> slot_paths st"
  by (auto simp: bins_def slot_paths_def)

lemma on_SetActive:
  assumes "on_store (\<lambda>st. SetActive st v) a = (e, a')"
  shows "keeps (insert (confirmed_path (ag_store a)) (bins (ag_store a))) a a'" and "ag_app a' = ag_app a"
proof -
  obtain s' where s: "SetActive (ag_store a) v (ag_sys a) = (e, s')" and a': "a' = a\<lparr>ag_sys := s'\<rparr>"
    using assms by (auto simp: on_store_def split: prod.splits)
  show "keeps (insert (confirmed_path (ag_store a)) (bins (ag_store a))) a a'" "ag_app a' = ag_app a"
    using SetActive_files(1) [OF s] a' by (auto simp: keeps_def bins_def same_except_def)
qed

lemma on_SetConfirmed:
  assumes "on_store (\<lambda>st. SetConfirmed st v) a = (e, a')"
  shows "keeps (insert (active_path (ag_store a)) (bins (ag_store a))) a a'" and "ag_app a' = ag_app a"
proof -
  obtain s' where s: "SetConfirmed (ag_store a) v (ag_sys a) = (e, s')" and a': "a' = a\<lparr>ag_sys := s'\<rparr>"
    using assms by (auto simp: on_store_def split: prod.splits)
  show "keeps (insert (active_path (ag_store a)) (bins (ag_store a))) a a'" "ag_app a' = ag_app a"
    using SetConfirmed_files(1) [OF s] a' by (auto simp: keeps_def bins_def same_except_def)
qed

lemma confirmIfStable_keeps:
  "keeps (insert (active_path (ag_store a)) (bins (ag_store a))) a (confirmIfStable v hs dur a)
   \<and> ag_app (confirmIfStable v hs dur a) = ag_app a"
proof -
  obtain c a1 where c: "on_store Confirmed a = (c, a1)" by fastforce
  obtain e a2 where e: "on_store (\<lambda>st. SetConfirmed st v) a1 = (e, a2)" by fastforce
  have k1: "keeps (insert (active_path (ag_store a)) (bins (ag_store a))) a a1" "ag_app a1 = ag_app a" "ag_store a1 = ag_store a"
    using on_Confirmed(3,4) [OF c] by (auto simp: keeps_def)
  have k2: "keeps (insert (active_path (ag_store a)) (bins (ag_store a))) a a2" "ag_app a2 = ag_app a"
    using keeps_trans [OF k1(1)] on_SetConfirmed [OF e] k1 by auto
  show ?thesis
    using k1 k2 by (auto simp: confirmIfStable_def Let_def c e quiet keeps_run_fields emit_def
        keeps_def split: option.split)
qed

lemma confirmIfStable_confirms:
  "sy_files (ag_sys (confirmIfStable v hs dur a)) (confirmed_path (ag_store a)) = sy_files (ag_sys a) (confirmed_path (ag_store a))
   \<or> (hst_HealthyOnce hs \<and> cf_Stable (ag_cfg a) \<le> dur)"
  by (simp add: confirmIfStable_def)

lemma rollbackIfNeeded_keeps:
  "keeps (insert (confirmed_path (ag_store a)) (bins (ag_store a))) a (rollbackIfNeeded v a)
   \<and> (ap_Fails (ag_app a) < cf_MaxFails (ag_cfg a) \<longrightarrow> rollbackIfNeeded v a = a)"
proof -
  obtain c a1 where c: "on_store Confirmed a = (c, a1)" by fastforce
  obtain h a2 where h: "(if v \<noteq> c then on_store (\<lambda>st. HasBinary st c) a1 else (False, a1)) = (h, a2)" by fastforce
  obtain e a3 where e: "on_store (\<lambda>st. SetActive st c) a2 = (e, a3)" by fastforce
  let ?P = "insert (confirmed_path (ag_store a)) (bins (ag_store a))"
  have k1: "keeps ?P a a1" using on_Confirmed(3) [OF c] .
  have "keeps ?P a1 a2" using h on_HasBinary(2) [of c a1 h a2] by (auto split: if_splits)
  with k1 have k2: "keeps ?P a a2" by (rule keeps_trans)
  then have "ag_store a2 = ag_store a" by (simp add: keeps_def)
  then have "keeps ?P a2 a3" using on_SetActive(1) [OF e] by simp
  with k2 have k3: "keeps ?P a a3" by (rule keeps_trans)
  show ?thesis
    using k2 k3 by (simp add: rollbackIfNeeded_def Let_def c h e quiet)
qed

fun ev_time :: "run_event \<Rightarrow> int option" where
  "ev_time Stopped = None"
| "ev_time (Exit e t) = Some t"
| "ev_time (Ctl opr q t) = Some t"
| "ev_time (Tick t tok q) = Some t"

text \<open>One tick, as far as the poll and the health report.\<close>

lemma tick_keeps:
  assumes "on_poll now h (set_token tok a) = (h1, a1)" "paths_ok a"
    and a2_def: "a2 = setAppState (\<lambda>p. p\<lparr>ap_Health := Some hs\<rparr>) a1"
  shows "keeps (slot_paths (ag_store a)) a a2" and "ap_Fails (ag_app a2) = ap_Fails (ag_app a)"
proof -
  have "keeps (slot_paths (ag_store a)) a a1"
    using keeps_trans [OF keeps_set_token keeps_on_poll [OF assms(1)]] assms(2) by blast
  then show "keeps (slot_paths (ag_store a)) a a2" by (simp add: a2_def quiet)
  show "ap_Fails (ag_app a2) = ap_Fails (ag_app a)"
    using assms(1) by (auto simp: a2_def setAppState_def on_poll_def set_token_def split: prod.splits)
qed

definition ev_times :: "run_event list \<Rightarrow> int set" where
  "ev_times evs = {t. \<exists>e \<in> set evs. ev_time e = Some t}"

lemma ev_times_Cons [simp]:
  "ev_times (e # evs) = (case ev_time e of None \<Rightarrow> ev_times evs | Some t \<Rightarrow> insert t (ev_times evs))"
  by (auto simp: ev_times_def split: option.split)

lemma run_loop_keeps:
  assumes "run_loop v start pid evs h a = (res, h', a')" "paths_ok a"
  shows "keeps (insert (active_path (ag_store a)) (bins (ag_store a))) a a' \<and> ap_Fails (ag_app a') = ap_Fails (ag_app a)
    \<and> (sy_files (ag_sys a') (confirmed_path (ag_store a)) = sy_files (ag_sys a) (confirmed_path (ag_store a))
       \<or> (\<exists>t \<in> ev_times evs. cf_Stable (ag_cfg a) \<le> t - start))
    \<and> (\<forall>reason err now. res = Ended reason err now \<longrightarrow> now \<in> ev_times evs)"
  using assms
proof (induction evs arbitrary: h a)
  case Nil
  then show ?case by simp
next
  case (Cons e evs)
  show ?case
  proof (cases e)
    case (Ctl opr quits now)
    then show ?thesis
      using Cons.prems by (cases "opr = OpStop") (auto simp: Let_def keeps_def)
  next
    case (Tick now tok quits)
    let ?Q = "insert (active_path (ag_store a)) (bins (ag_store a))"
    obtain h1 a1 where p: "on_poll now h (set_token tok a) = (h1, a1)" by fastforce
    define hs where "hs = health_status now h1"
    define a2 where "a2 = setAppState (\<lambda>p. p\<lparr>ap_Health := Some hs\<rparr>) a1"
    obtain ok why where vd: "verdict now (cf_AppGrace (ag_cfg a2)) (cf_HealthTimeout (ag_cfg a2)) h1 = (ok, why)"
      by fastforce
    note k2 = tick_keeps [OF p Cons.prems(2) a2_def]
    have st: "ag_store a2 = ag_store a" "ag_cfg a2 = ag_cfg a" using k2 by (simp_all add: keeps_def)
    have k2': "keeps ?Q a a2" by (rule keeps_mono [OF k2(1)]) simp
    have c2: "sy_files (ag_sys a2) (confirmed_path (ag_store a)) = sy_files (ag_sys a) (confirmed_path (ag_store a))"
      using k2(1) by (simp add: keeps_def slot_paths_def)
    have res: "(res, h', a') = (if \<not> ok then (Ended (Unhealthy why) False now, h1, terminate pid quits a2)
        else run_loop v start pid evs h1 (confirmIfStable v hs (now - start) a2))"
      unfolding Cons.prems(1) [symmetric] Tick
      by (simp add: p vd [unfolded a2_def hs_def] hs_def a2_def Let_def)
    show ?thesis
    proof (cases ok)
      case False
      then have "res = Ended (Unhealthy why) False now" "a' = terminate pid quits a2" using res by auto
      then show ?thesis
        using k2 k2' c2 Tick
        by (simp add: keeps_terminate)
    next
      case True
      let ?a3 = "confirmIfStable v hs (now - start) a2"
      have r: "run_loop v start pid evs h1 ?a3 = (res, h', a')" using res True by simp
      note c = confirmIfStable_keeps [of a2 v hs "now - start"] confirmIfStable_confirms [of v hs "now - start" a2]
      have k3: "keeps ?Q a ?a3" using keeps_trans [OF k2'] c st by simp
      have ok3: "paths_ok ?a3" using keeps_paths_ok [OF k3] Cons.prems(2) by simp
      have st3: "ag_store ?a3 = ag_store a" "ag_cfg ?a3 = ag_cfg a" using k3 by (simp_all add: keeps_def)
      note IH = Cons.IH [OF r ok3, unfolded st3]
      show ?thesis
        using IH keeps_trans [OF k3] c c2 st k2(2) Tick by auto
    qed
  qed (use Cons.prems in auto)
qed

lemma classify_run_keeps:
  "keeps (bins (ag_store a)) a (classify_run v reason err hs dur idle a)
   \<and> (sy_files (ag_sys (classify_run v reason err hs dur idle a)) (active_path (ag_store a)) = sy_files (ag_sys a) (active_path (ag_store a))
      \<or> cf_MaxFails (ag_cfg a) \<le> ap_Fails (ag_app a) + 1)
   \<and> (sy_files (ag_sys (classify_run v reason err hs dur idle a)) (confirmed_path (ag_store a)) = sy_files (ag_sys a) (confirmed_path (ag_store a))
      \<or> cf_Stable (ag_cfg a) \<le> dur)"
proof -
  let ?B = "bins (ag_store a)" and ?A = "active_path (ag_store a)" and ?C = "confirmed_path (ag_store a)"
  have good: "keeps (insert ?A ?B) a (confirmIfStable v hs dur a)"
    using confirmIfStable_keeps by blast
  let ?b = "bumpFail (FailNote reason err dur) a"
  have b: "ag_store ?b = ag_store a" "ag_cfg ?b = ag_cfg a" "ag_sys ?b = ag_sys a"
    "ap_Fails (ag_app ?b) = ap_Fails (ag_app a) + 1"
    by (simp_all add: bumpFail_def setAppState_def)
  have bad: "keeps (insert ?C ?B) a (rollbackIfNeeded v ?b)"
    "ap_Fails (ag_app a) + 1 < cf_MaxFails (ag_cfg a) \<Longrightarrow> rollbackIfNeeded v ?b = ?b"
    using rollbackIfNeeded_keeps [of ?b v] b by (auto simp: keeps_def)
  show ?thesis
  proof (cases "\<exists>opr. reason = ByCtl opr")
    case True
    then show ?thesis by (auto simp: classify_run_def setAppState_def keeps_def)
  next
    case False
    then have r: "classify_run v reason err hs dur idle a =
      (if hst_HealthyOnce hs \<and> dur \<ge> cf_Stable (ag_cfg a)
       then fst (idleWait idle (setAppState (\<lambda>p. zero_app\<lparr>ap_LastExit := Note reason\<rparr>) (confirmIfStable v hs dur a)))
       else fst (idleWait idle (rollbackIfNeeded v ?b)))"
      by (cases reason) (simp_all add: classify_run_def Let_def)
    have i: "sy_files (ag_sys (fst (idleWait idle x))) = sy_files (ag_sys x)" for x
      by (simp add: idleWait_def split: idle_event.split ctlOp.split)
    have sa: "ag_sys (setAppState f x) = ag_sys x" for f x by (simp add: setAppState_def)
    show ?thesis
    proof (cases "hst_HealthyOnce hs \<and> dur \<ge> cf_Stable (ag_cfg a)")
      case True
      have "keeps ?B a (confirmIfStable v hs dur a)" by (rule keeps_mono [OF good]) auto
      then show ?thesis using True good unfolding r by (simp add: quiet i sa) (simp add: keeps_def)
    next
      case False
      have "keeps ?B a (rollbackIfNeeded v ?b)" by (rule keeps_mono [OF bad(1)]) auto
      moreover have "sy_files (ag_sys (rollbackIfNeeded v ?b)) ?C = sy_files (ag_sys a) ?C"
        using bad(1) by (simp add: keeps_def)
      moreover have "sy_files (ag_sys (rollbackIfNeeded v ?b)) ?A = sy_files (ag_sys a) ?A
          \<or> cf_MaxFails (ag_cfg a) \<le> ap_Fails (ag_app a) + 1"
        using bad(2) b by (cases "ap_Fails (ag_app a) + 1 < cf_MaxFails (ag_cfg a)") auto
      moreover have r': "classify_run v reason err hs dur idle a = fst (idleWait idle (rollbackIfNeeded v ?b))"
        using r False by auto
      ultimately show ?thesis unfolding r' by (simp add: quiet i)
    qed
  qed
qed

text \<open>
  One app generation, from its launch over any sequence of ticks, control requests and exits, and
  under any I/O errors on the stick: the slot binaries are never touched; the \<open>active\<close> pointer can
  only move when the run is at least the \<open>MaxFails\<close>-th failure in a row; and the \<open>confirmed\<close> pointer
  can only move when the run was observed at a time at least \<open>Stable\<close> after its launch.
\<close>

theorem runAppOnce_pointers:
  assumes "runAppOnce v start started evs idle a = Some a'" and "paths_ok a"
  shows "(\<forall>w. valid_slot w \<longrightarrow> sy_files (ag_sys a') (BinPath (ag_store a) w) = sy_files (ag_sys a) (BinPath (ag_store a) w))
    \<and> (active_ptr (ag_store a) (ag_sys a') \<noteq> active_ptr (ag_store a) (ag_sys a)
        \<longrightarrow> cf_MaxFails (ag_cfg a) \<le> ap_Fails (ag_app a) + 1)
    \<and> (sy_files (ag_sys a') (confirmed_path (ag_store a)) \<noteq> sy_files (ag_sys a) (confirmed_path (ag_store a))
        \<longrightarrow> (\<exists>t \<in> ev_times evs. cf_Stable (ag_cfg a) \<le> t - start))"
proof -
  let ?S = "slot_paths (ag_store a)" and ?B = "bins (ag_store a)"
  let ?A = "active_path (ag_store a)" and ?C = "confirmed_path (ag_store a)"
  define a1 where "a1 = a\<lparr>ag_sys := snd (remove (cf_HealthPath (ag_cfg a)) (ag_sys a)), ag_confirmedRun := [], ag_confirmFailed := []\<rparr>"
  have ne: "p \<noteq> cf_HealthPath (ag_cfg a)" if "p \<in> ?S" for p using that assms(2) by (auto simp: paths_ok_def)
  have k1: "keeps ?S a a1"
    using remove_files(1) [OF surjective_pairing, of "cf_HealthPath (ag_cfg a)" "ag_sys a"] ne
    by (simp add: a1_def keeps_def same_except_def)
  have fails1: "ag_app a1 = ag_app a" by (simp add: a1_def)
  have fin: "?thesis" if "keeps ?B a x" "sy_files (ag_sys x) ?A = sy_files (ag_sys a) ?A \<or> cf_MaxFails (ag_cfg a) \<le> ap_Fails (ag_app a) + 1"
    "sy_files (ag_sys x) ?C = sy_files (ag_sys a) ?C \<or> (\<exists>t \<in> ev_times evs. cf_Stable (ag_cfg a) \<le> t - start)" "a' = x" for x
    using that active_ptr_cong [of "ag_sys x" "ag_store a" "ag_sys a"]
    by (auto simp: keeps_def bins_def valid_slot_def)
  show ?thesis
  proof (cases started)
    case None
    then have a': "a' = fst (idleWait idle (bumpFail StartFailed a1))"
      using assms(1) by (simp add: runAppOnce_def newHealthWatcher_def a1_def)
    have "keeps ?S a a'" unfolding a' by (simp add: quiet k1)
    then show ?thesis by (intro fin [of a']) (auto simp: keeps_def slot_paths_def bins_def)
  next
    case (Some pid)
    define a2 where "a2 = on_sys (write_file (cf_PidPath (ag_cfg a1)) 0x180 (str_bytes (dec_str pid @ [CHR 10]))) a1"
    define a3 where "a3 = emit (AppStart v (int pid)) (a2\<lparr>ag_app := zero_app\<lparr>ap_Running := True, ap_PID := int pid, ap_Slot := v,
                     ap_StartedAt := start, ap_Fails := ap_Fails (ag_app a2)\<rparr>\<rparr>)"
    have st1: "ag_store a1 = ag_store a" "ag_cfg a1 = ag_cfg a" by (simp_all add: a1_def)
    have "keeps ?S a1 a2" unfolding a2_def
      using keeps_pid_write [of a1 ?S] keeps_paths_ok [OF k1] assms(2) st1 by simp
    then have k3: "keeps ?S a a3" using keeps_trans [OF k1] by (simp add: a3_def quiet)
    have f3: "ap_Fails (ag_app a3) = ap_Fails (ag_app a)"
      by (simp add: a3_def a2_def emit_def on_sys_def fails1)
    obtain res h4 a4 where rl: "run_loop v start (int pid) evs (fresh_watcher (cf_HealthPath (ag_cfg a)) start) a3 = (res, h4, a4)"
      by (metis prod_cases3)
    have run: "Some a' = (case res of Left \<Rightarrow> Some a4 | Waiting \<Rightarrow> None | Ended reason err now \<Rightarrow>
        Some (classify_run v reason err (health_status now h4) (now - start) idle
          (on_sys (remove (cf_PidPath (ag_cfg a4))) a4)))"
      unfolding assms(1) [symmetric] runAppOnce_def run_to_end_def newHealthWatcher_def
      by (simp add: Some a1_def [symmetric] st1 rl [unfolded a3_def a2_def st1] Let_def split: loop_end.split)
    have st3: "ag_store a3 = ag_store a" "ag_cfg a3 = ag_cfg a" using k3 by (simp_all add: keeps_def)
    have ok3: "paths_ok a3" using keeps_paths_ok [OF k3] assms(2) by simp
    note R = run_loop_keeps [OF rl ok3, unfolded st3 f3]
    have "keeps (insert ?A ?B) a a3" by (rule keeps_mono [OF k3]) simp
    then have k4: "keeps (insert ?A ?B) a a4" using keeps_trans R by blast
    have c4: "sy_files (ag_sys a4) ?C = sy_files (ag_sys a) ?C \<or> (\<exists>t \<in> ev_times evs. cf_Stable (ag_cfg a) \<le> t - start)"
      using R k3 by (auto simp: keeps_def slot_paths_def)
    show ?thesis
    proof (cases res)
      case (Ended reason err now)
      define a5 where "a5 = on_sys (remove (cf_PidPath (ag_cfg a4))) a4"
      have st4: "ag_store a4 = ag_store a" "ag_cfg a4 = ag_cfg a" using k4 by (simp_all add: keeps_def)
      have k5: "keeps ?S a4 a5" unfolding a5_def
        using keeps_pid_remove [of a4 ?S] keeps_paths_ok [OF k4] assms(2) st4 by simp
      have f5: "ap_Fails (ag_app a5) = ap_Fails (ag_app a)" using R by (simp add: a5_def on_sys_def)
      have st5: "ag_store a5 = ag_store a" "ag_cfg a5 = ag_cfg a" using k5 st4 by (simp_all add: keeps_def)
      have a': "a' = classify_run v reason err (health_status now h4) (now - start) idle a5"
        using run Ended by (simp add: a5_def)
      note K = classify_run_keeps [of a5 v reason err "health_status now h4" "now - start" idle, unfolded st5 f5, folded a']
      have now: "now \<in> ev_times evs" using R Ended by blast
      show ?thesis
      proof (rule fin [of a'])
        show "keeps ?B a a'"
          using keeps_trans [OF keeps_mono [OF k4] keeps_trans [OF keeps_mono [OF k5]], of ?B a'] K
          by (simp add: subset_insertI)
        show "sy_files (ag_sys a') ?A = sy_files (ag_sys a) ?A \<or> cf_MaxFails (ag_cfg a) \<le> ap_Fails (ag_app a) + 1"
          using K k4 k5 by (auto simp: keeps_def slot_paths_def)
        show "sy_files (ag_sys a') ?C = sy_files (ag_sys a) ?C \<or> (\<exists>t \<in> ev_times evs. cf_Stable (ag_cfg a) \<le> t - start)"
          using K k5 c4 now by (auto simp: keeps_def slot_paths_def)
      qed simp
    next
      case Left
      then have "a' = a4" using run by simp
      then show ?thesis by (intro fin [of a4]) (use k4 c4 in \<open>auto simp: keeps_def\<close>)
    next
      case Waiting
      then show ?thesis using run by simp
    qed
  qed
qed

definition sample_agent :: "(path \<times> byte list) list \<Rightarrow> outcome list \<Rightarrow> agent" where
  "sample_agent fs script = \<lparr>ag_cfg = \<lparr>cf_MaxFails = 2, cf_Stable = 10, cf_AppGrace = 100, cf_HealthTimeout = 100,
       cf_HealthPath = ''/h'', cf_PidPath = ''/p''\<rparr>, ag_store = New ''/s'', ag_sys = sample_sys fs script,
     ag_app = zero_app, ag_paused = False, ag_confirmedRun = [], ag_confirmFailed = [], ag_events = [],
     ag_signals = []\<rparr>"

lemma paths_ok_sample [simp]: "paths_ok (sample_agent fs script)"
  by (simp add: paths_ok_def sample_agent_def slot_paths_def BinPath_def SlotDir_def active_path_def
      confirmed_path_def join_def New_def slot_names)

lemma runAppOnce_pointers_witness:
  "\<exists>a'. runAppOnce SlotB 0 (Some 77) [Exit True 5] IdleTimeout (sample_agent [] [Succeed, Fail]) = Some a'
     \<and> active_ptr (New ''/s'') (ag_sys a') = active_ptr (New ''/s'') (sample_sys [] [Succeed, Fail])"
proof -
  define a where "a = sample_agent [] [Succeed, Fail]"
  have "\<not> Option.is_none (runAppOnce SlotB 0 (Some 77) [Exit True 5] IdleTimeout a)"
    unfolding a_def by code_simp
  then obtain a' where r: "runAppOnce SlotB 0 (Some 77) [Exit True 5] IdleTimeout a = Some a'"
    by (auto simp: Option.is_none_def)
  have "paths_ok a" by (simp add: a_def)
  from runAppOnce_pointers [OF r this] r show ?thesis
    by (auto simp: a_def sample_agent_def zero_app_def)
qed

section \<open>A crash-looping update is rolled back\<close>

lemma healthy_open_trunc: "healthy s \<Longrightarrow> \<exists>s'. open_trunc p m s = (True, s') \<and> healthy s'"
  by (simp add: open_trunc_def new_file_def split: option.split)

lemma healthy_write_at: "healthy s \<Longrightarrow> \<exists>s'. write_at p off d s = (length d, True, s') \<and> healthy s'"
  by (simp add: write_at_def write_eff_def split: option.split)

lemma healthy_write_file: "healthy s \<Longrightarrow> \<exists>s'. write_file p m d s = (True, s') \<and> healthy s'"
proof -
  assume h: "healthy s"
  obtain s1 where o: "open_trunc p m s = (True, s1)" "healthy s1" using healthy_open_trunc [OF h] by blast
  obtain s2 where w: "write_at p 0 d s1 = (length d, True, s2)" "healthy s2" using healthy_write_at [OF o(2)] by blast
  show "\<exists>s'. write_file p m d s = (True, s') \<and> healthy s'"
    using o w by (simp add: write_file_def close_def)
qed

lemma healthy_remove: "healthy s \<Longrightarrow> healthy (snd (remove p s)) \<and> sy_files (snd (remove p s)) p = None"
  by (simp add: remove_def split: option.split)

lemma healthy_writePointer:
  assumes "healthy s"
  shows "\<exists>s'. writePointer p v s = (True, s') \<and> healthy s'"
proof -
  obtain s1 where w: "write_file (p @ ''.tmp'') 0x180 (str_bytes (v @ [CHR 10])) s = (True, s1)" "healthy s1"
    using healthy_write_file [OF assms] by blast
  obtain f where "sy_files s1 (p @ ''.tmp'') = Some f" using write_file_files(2) [OF w(1)] by blast
  then show ?thesis using w by (simp add: writePointer_def rename_def)
qed

lemma healthy_SetActive:
  assumes "healthy s" "valid_slot v"
  shows "\<exists>s'. SetActive st v s = (None, s') \<and> healthy s' \<and> active_ptr st s' = v"
proof -
  obtain s' where w: "writePointer (active_path st) v s = (True, s')" "healthy s'"
    using healthy_writePointer [OF assms(1)] by blast
  then have "SetActive st v s = (None, s')"
    using assms(2) by (auto simp: SetActive_def valid_slot_def)
  then show ?thesis using w(2) SetActive_files(2) by blast
qed

text \<open>An update \<open>bad\<close> is active, another slot \<open>good\<close> is confirmed, both have binaries.\<close>

definition crash_inv :: "string \<Rightarrow> string \<Rightarrow> agent \<Rightarrow> bool" where
  "crash_inv bad good a \<longleftrightarrow> healthy (ag_sys a) \<and> paths_ok a \<and> \<not> ag_paused a
     \<and> sy_files (ag_sys a) (cf_PidPath (ag_cfg a)) = None \<and> bad \<noteq> good
     \<and> cf_PidPath (ag_cfg a) \<noteq> active_path (ag_store a) @ ''.tmp''
     \<and> confirmed_ptr (ag_store a) (ag_sys a) = good
     \<and> (\<forall>v. valid_slot v \<longrightarrow> has_binary (sy_files (ag_sys a) (BinPath (ag_store a) v)))"

text \<open>The same, whatever the pid file holds.\<close>

definition update_ready :: "string \<Rightarrow> string \<Rightarrow> agent \<Rightarrow> bool" where
  "update_ready bad good a \<longleftrightarrow> healthy (ag_sys a) \<and> paths_ok a \<and> \<not> ag_paused a \<and> bad \<noteq> good
     \<and> cf_PidPath (ag_cfg a) \<noteq> active_path (ag_store a) @ ''.tmp''
     \<and> confirmed_ptr (ag_store a) (ag_sys a) = good
     \<and> (\<forall>v. valid_slot v \<longrightarrow> has_binary (sy_files (ag_sys a) (BinPath (ag_store a) v)))"

lemma crash_inv_ready:
  "crash_inv bad good a \<longleftrightarrow> update_ready bad good a \<and> sy_files (ag_sys a) (cf_PidPath (ag_cfg a)) = None"
  by (auto simp: crash_inv_def update_ready_def)

text \<open>
  A run that ends with the app's exit before it was stable, told by its events alone: any ticks, with
  whatever health file, at whatever times, then the exit; and neither at a tick nor at the exit had a health
  file been seen with \<open>age\<close>, the configured \<open>Stable\<close>, passed since the launch. When a tick's verdict kills the app the loop ends
  there, and what follows is not read.
\<close>

fun crashing :: "int \<Rightarrow> int \<Rightarrow> bool \<Rightarrow> run_event list \<Rightarrow> bool" where
  "crashing age start seen [] \<longleftrightarrow> False"
| "crashing age start seen (Stopped # evs) \<longleftrightarrow> False"
| "crashing age start seen (Ctl opr quits t # evs) \<longleftrightarrow> False"
| "crashing age start seen (Exit err t # evs) \<longleftrightarrow> \<not> seen \<or> t - start < age"
| "crashing age start seen (Tick t tok quits # evs) \<longleftrightarrow>
     (\<not> (seen \<or> tok \<noteq> None) \<or> t - start < age) \<and> crashing age start (seen \<or> tok \<noteq> None) evs"

text \<open>A wait that does not end in a stop, of the agent or of the app.\<close>

definition idles :: "idle_event \<Rightarrow> bool" where
  "idles e \<longleftrightarrow> e \<noteq> IdleStopped \<and> e \<noteq> IdleCtl OpStop"

definition launch_round :: "round_input \<Rightarrow> bool" where
  "launch_round x \<longleftrightarrow> ri_takenOver x \<and> ri_candidates x = [] \<and> idles (ri_idle x)"

definition crash_round :: "int \<Rightarrow> round_input \<Rightarrow> bool" where
  "crash_round age x \<longleftrightarrow> launch_round x \<and> ri_started x \<noteq> None \<and> crashing age (ri_now x) False (ri_run x)"

lemma idles_id: "idles e \<Longrightarrow> \<not> ag_paused a \<Longrightarrow> fst (idleWait e a) = a"
  by (cases a) (auto simp: idles_def idleWait_def split: idle_event.split ctlOp.split)

lemma on_store_healthy:
  "f (ag_store a) (ag_sys a) = (r, ag_sys a) \<Longrightarrow> on_store f a = (r, a)"
  by (simp add: on_store_def)

lemma pickSlot_active:
  assumes "healthy (ag_sys a)" "has_binary (sy_files (ag_sys a) (BinPath (ag_store a) (active_ptr (ag_store a) (ag_sys a))))"
  shows "pickSlot a = (active_ptr (ag_store a) (ag_sys a), a)"
  using assms by (simp add: pickSlot_def on_store_healthy Let_def)

lemma orphanAppPid_none:
  "healthy (ag_sys a) \<Longrightarrow> sy_files (ag_sys a) (cf_PidPath (ag_cfg a)) = None \<Longrightarrow> orphanAppPid alive a = (-1, a)"
  by (simp add: orphanAppPid_def)

lemma keeps_ptrs:
  assumes "keeps (slot_paths (ag_store a)) a b"
  shows "active_ptr (ag_store b) (ag_sys b) = active_ptr (ag_store a) (ag_sys a)"
    and "confirmed_ptr (ag_store b) (ag_sys b) = confirmed_ptr (ag_store a) (ag_sys a)"
    and "valid_slot v \<Longrightarrow> sy_files (ag_sys b) (BinPath (ag_store b) v) = sy_files (ag_sys a) (BinPath (ag_store a) v)"
  using assms active_ptr_cong [of "ag_sys b" "ag_store a" "ag_sys a"]
    confirmed_ptr_cong [of "ag_sys b" "ag_store a" "ag_sys a"]
  by (auto simp: keeps_def slot_paths_def valid_slot_def)

lemma update_ready_keeps:
  assumes "update_ready bad good a" and "keeps (slot_paths (ag_store a)) a b"
    and "healthy (ag_sys b)" "ag_paused b = ag_paused a"
  shows "update_ready bad good b"
proof -
  have st: "ag_store b = ag_store a" "ag_cfg b = ag_cfg a" using assms(2) by (simp_all add: keeps_def)
  show ?thesis
    using assms keeps_ptrs [OF assms(2), unfolded st] keeps_paths_ok [OF assms(2)]
    by (simp add: update_ready_def st)
qed

lemma on_store_paused: "on_store f a = (r, a') \<Longrightarrow> ag_paused a' = ag_paused a"
  by (auto simp: on_store_def split: prod.splits)

lemma rollbackIfNeeded_paused: "ag_paused (rollbackIfNeeded v a) = ag_paused a"
  by (auto simp: rollbackIfNeeded_def Let_def setAppState_def emit_def split: prod.splits if_splits dest!: on_store_paused)

lemma rollback_healthy:
  assumes h: "healthy (ag_sys a)" and c: "confirmed_ptr (ag_store a) (ag_sys a) = good" "bad \<noteq> good"
    and b: "has_binary (sy_files (ag_sys a) (BinPath (ag_store a) good))"
    and n: "cf_MaxFails (ag_cfg a) \<le> ap_Fails (ag_app a)"
  shows "\<exists>s. rollbackIfNeeded bad a = setAppState (\<lambda>p. p\<lparr>ap_Fails := 0\<rparr>)
      (emit (AppRollback bad good (ap_Fails (ag_app a))) (a\<lparr>ag_sys := s\<rparr>))
    \<and> healthy s \<and> SetActive (ag_store a) good (ag_sys a) = (None, s)"
proof -
  have "valid_slot good" using c(1) by auto
  then obtain s where s: "SetActive (ag_store a) good (ag_sys a) = (None, s)" "healthy s"
    using healthy_SetActive [OF h] by blast
  have "on_store Confirmed a = (good, a)" "on_store (\<lambda>st. HasBinary st good) a = (True, a)"
    using h c b by (auto intro!: on_store_healthy)
  then show ?thesis
    using s n c(2) by (intro exI [of _ s]) (simp add: rollbackIfNeeded_def on_store_def Let_def)
qed

text \<open>The run of a process that exits before it was stable.\<close>

lemma poll_healthy_sys:
  assumes "healthy s"
  shows "snd (poll now h s) = s"
proof -
  have "readPrefixInto p s = (case sy_files s p of None \<Rightarrow> [] | Some f \<Rightarrow> take 256 (fl_data f), s)" for p
    using assms by (simp add: readPrefixInto_def close_def min_def split: option.split)
  then show ?thesis using assms by (simp add: poll_def Let_def split: option.split)
qed

lemma poll_unseen: "healthy s \<Longrightarrow> sy_files s (hw_path h) = None \<Longrightarrow> fst (poll now h s) = h"
  by (simp add: poll_healthy)

lemma poll_path: "healthy s \<Longrightarrow> hw_path (fst (poll now h s)) = hw_path h"
  by (simp add: poll_healthy split: option.split)

lemma confirmIfStable_not_yet:
  "\<not> hst_HealthyOnce hs \<or> dur < cf_Stable (ag_cfg a) \<Longrightarrow> confirmIfStable v hs dur a = a"
  by (auto simp: confirmIfStable_def)

lemma run_loop_crashing:
  assumes "crashing (cf_Stable (ag_cfg a)) start seen evs" and "healthy (ag_sys a)" and "paths_ok a"
    and "hw_healthyOnce h \<longrightarrow> seen" and "hw_path h = cf_HealthPath (ag_cfg a)"
  shows "\<exists>reason err now h' a'. run_loop v start pid evs h a = (Ended reason err now, h', a')
    \<and> (\<forall>opr. reason \<noteq> ByCtl opr) \<and> \<not> (hw_healthyOnce h' \<and> cf_Stable (ag_cfg a) \<le> now - start)
    \<and> keeps (slot_paths (ag_store a)) a a' \<and> ap_Fails (ag_app a') = ap_Fails (ag_app a)
    \<and> ag_paused a' = ag_paused a \<and> healthy (ag_sys a')"
  using assms
proof (induction evs arbitrary: seen h a)
  case (Cons e evs)
  show ?case
  proof (cases e)
    case (Exit err t)
    then show ?thesis using Cons.prems by (auto intro!: exI [of _ Exited])
  next
    case (Tick t tok quits)
    let ?a1 = "set_token tok a" and ?seen = "seen \<or> tok \<noteq> None"
    have hl: "healthy (ag_sys ?a1)" using Cons.prems(2) by (simp add: set_token_def)
    define h1 where "h1 = fst (poll t h (ag_sys ?a1))"
    have p: "on_poll t h ?a1 = (h1, ?a1)"
      using poll_healthy_sys [OF hl, of t h] by (simp add: on_poll_def h1_def split_beta)
    define a2 where "a2 = setAppState (\<lambda>p. p\<lparr>ap_Health := Some (health_status t h1)\<rparr>) ?a1"
    note K = tick_keeps [OF p Cons.prems(3) a2_def]
    have a2: "ag_cfg a2 = ag_cfg a" "ag_store a2 = ag_store a" "ag_paused a2 = ag_paused a" "healthy (ag_sys a2)"
      using hl by (simp_all add: a2_def setAppState_def set_token_def)
    have seen1: "hw_healthyOnce h1 \<longrightarrow> ?seen"
    proof (cases tok)
      case None
      then have "sy_files (ag_sys ?a1) (hw_path h) = None" using Cons.prems(5) by (simp add: set_token_def)
      then show ?thesis using Cons.prems(4) poll_unseen [OF hl] by (simp add: h1_def)
    qed simp
    have path1: "hw_path h1 = cf_HealthPath (ag_cfg a2)"
      using Cons.prems(5) a2(1) poll_path [OF hl, of t h] by (simp add: h1_def)
    have young: "\<not> ?seen \<or> t - start < cf_Stable (ag_cfg a)" and rest: "crashing (cf_Stable (ag_cfg a)) start ?seen evs"
      using Cons.prems(1) Tick by simp_all
    have c: "confirmIfStable v (health_status t h1) (t - start) a2 = a2"
      using young seen1 a2(1) by (intro confirmIfStable_not_yet) (auto simp: health_status_def)
    obtain ok why where vd: "verdict t (cf_AppGrace (ag_cfg a2)) (cf_HealthTimeout (ag_cfg a2)) h1 = (ok, why)"
      by fastforce
    have r: "run_loop v start pid (e # evs) h a =
      (if \<not> ok then (Ended (Unhealthy why) False t, h1, terminate pid quits a2) else run_loop v start pid evs h1 a2)"
      unfolding Tick by (simp add: p vd [unfolded a2_def] c [unfolded a2_def] a2_def Let_def)
    show ?thesis
    proof (cases ok)
      case False
      have "ag_paused (terminate pid quits a2) = ag_paused a"
        using a2(3) by (simp add: terminate_def send_signal_def Let_def)
      then show ?thesis
        unfolding r using False K a2 seen1 young by (auto simp: keeps_terminate)
    next
      case True
      have "paths_ok a2" using keeps_paths_ok [OF K(1)] Cons.prems(3) by simp
      from Cons.IH [of a2 ?seen h1, unfolded a2, OF rest a2(4) this seen1 path1 [unfolded a2]]
      obtain reason err now h' a' where R: "run_loop v start pid evs h1 a2 = (Ended reason err now, h', a')"
        "\<forall>opr. reason \<noteq> ByCtl opr" "\<not> (hw_healthyOnce h' \<and> cf_Stable (ag_cfg a) \<le> now - start)"
        "keeps (slot_paths (ag_store a)) a2 a'" "ap_Fails (ag_app a') = ap_Fails (ag_app a2)"
        "ag_paused a' = ag_paused a" "healthy (ag_sys a')" by blast
      then show ?thesis unfolding r using True keeps_trans [OF K(1) R(4)] K(2) by auto
    qed
  qed (use Cons.prems in auto)
qed simp

lemma runAppOnce_crash:
  assumes x: "crashing (cf_Stable (ag_cfg a)) start False evs" and h: "healthy (ag_sys a)" and ok: "paths_ok a"
  shows "\<exists>b note. runAppOnce v start (Some pid) evs idle a = Some (fst (idleWait idle (rollbackIfNeeded v (bumpFail note b))))
    \<and> ap_Fails (ag_app b) = ap_Fails (ag_app a) \<and> ag_paused b = ag_paused a
    \<and> keeps (slot_paths (ag_store a)) a b
    \<and> healthy (ag_sys b) \<and> sy_files (ag_sys b) (cf_PidPath (ag_cfg a)) = None"
proof -
  let ?S = "slot_paths (ag_store a)"
  define a1 where "a1 = a\<lparr>ag_sys := snd (remove (cf_HealthPath (ag_cfg a)) (ag_sys a)), ag_confirmedRun := [], ag_confirmFailed := []\<rparr>"
  define a2 where "a2 = on_sys (write_file (cf_PidPath (ag_cfg a1)) 0x180 (str_bytes (dec_str pid @ [CHR 10]))) a1"
  define a3 where "a3 = emit (AppStart v (int pid)) (a2\<lparr>ag_app := zero_app\<lparr>ap_Running := True, ap_PID := int pid, ap_Slot := v,
                     ap_StartedAt := start, ap_Fails := ap_Fails (ag_app a2)\<rparr>\<rparr>)"
  have cfg: "ag_cfg a1 = ag_cfg a" "ag_cfg a2 = ag_cfg a" "ag_cfg a3 = ag_cfg a"
    "ag_store a1 = ag_store a" "ag_store a2 = ag_store a" "ag_store a3 = ag_store a"
    "ap_Fails (ag_app a3) = ap_Fails (ag_app a)" "ag_paused a3 = ag_paused a"
    by (simp_all add: a3_def a2_def a1_def on_sys_def emit_def)
  have ne: "p \<noteq> cf_HealthPath (ag_cfg a)" if "p \<in> ?S" for p using that ok by (auto simp: paths_ok_def)
  have k1: "keeps ?S a a1"
    using remove_files(1) [OF surjective_pairing, of "cf_HealthPath (ag_cfg a)" "ag_sys a"] ne
    by (simp add: a1_def keeps_def same_except_def)
  then have "keeps ?S a1 a2"
    unfolding a2_def using keeps_pid_write [of a1 ?S] keeps_paths_ok [OF k1] ok cfg by simp
  then have k3: "keeps ?S a a3" using keeps_trans [OF k1] by (simp add: a3_def quiet)
  have h1: "healthy (ag_sys a1)" using healthy_remove [OF h] by (simp add: a1_def)
  obtain s2 where "write_file (cf_PidPath (ag_cfg a1)) 0x180 (str_bytes (dec_str pid @ [CHR 10])) (ag_sys a1) = (True, s2)"
    "healthy s2" using healthy_write_file [OF h1] by blast
  then have h3: "healthy (ag_sys a3)" by (simp add: a3_def a2_def on_sys_def emit_def)
  have ok3: "paths_ok a3" using keeps_paths_ok [OF k3] ok by simp
  let ?h = "fresh_watcher (cf_HealthPath (ag_cfg a)) start"
  obtain reason err now h4 a4 where R: "run_loop v start (int pid) evs ?h a3 = (Ended reason err now, h4, a4)"
    "\<forall>opr. reason \<noteq> ByCtl opr" "\<not> (hw_healthyOnce h4 \<and> cf_Stable (ag_cfg a) \<le> now - start)"
    "keeps ?S a3 a4" "ap_Fails (ag_app a4) = ap_Fails (ag_app a)" "ag_paused a4 = ag_paused a" "healthy (ag_sys a4)"
    using run_loop_crashing [of a3 start False evs ?h v "int pid"] x h3 ok3 cfg by (auto simp: fresh_watcher_def)
  define b where "b = on_sys (remove (cf_PidPath (ag_cfg a4))) a4"
  have cfg4: "ag_cfg a4 = ag_cfg a" "ag_store a4 = ag_store a" using R(4) cfg by (simp_all add: keeps_def)
  have "runAppOnce v start (Some pid) evs idle a = run_to_end v start (int pid) evs idle ?h a3"
    by (simp add: runAppOnce_def newHealthWatcher_def a3_def a2_def a1_def Let_def)
  also have "\<dots> = Some (classify_run v reason err (health_status now h4) (now - start) idle b)"
    by (simp add: run_to_end_def R(1) b_def Let_def)
  also have "\<dots> = Some (fst (idleWait idle (rollbackIfNeeded v (bumpFail (FailNote reason err (now - start)) b))))"
  proof -
    have "\<not> (hst_HealthyOnce (health_status now h4) \<and> cf_Stable (ag_cfg b) \<le> now - start)"
      using R(3) cfg4 by (simp add: b_def on_sys_def health_status_def)
    then show ?thesis using R(2) by (cases reason) (auto simp: classify_run_def Let_def)
  qed
  finally have r: "runAppOnce v start (Some pid) evs idle a
    = Some (fst (idleWait idle (rollbackIfNeeded v (bumpFail (FailNote reason err (now - start)) b))))" .
  have k: "keeps ?S a b"
    unfolding b_def using keeps_pid_remove [of a4 ?S] keeps_trans [OF keeps_trans [OF k3 R(4) [unfolded cfg]]]
      keeps_paths_ok [OF R(4)] ok3 cfg4 by simp
  have "healthy (ag_sys b) \<and> sy_files (ag_sys b) (cf_PidPath (ag_cfg a)) = None"
    using healthy_remove [OF R(7), of "cf_PidPath (ag_cfg a)"] cfg4 by (simp add: b_def on_sys_def)
  moreover have "ap_Fails (ag_app b) = ap_Fails (ag_app a)" "ag_paused b = ag_paused a"
    using R(5,6) by (simp_all add: b_def on_sys_def)
  ultimately show ?thesis using r k by blast
qed

lemma crash_round_step:
  assumes inv: "crash_inv bad good a" and act: "active_ptr (ag_store a) (ag_sys a) = bad"
    and x: "crash_round (cf_Stable (ag_cfg a)) x"
  shows "\<exists>a'. supervise_round reclaim x a = Some a' \<and> crash_inv bad good a' \<and> keeps (bins (ag_store a)) a a'
    \<and> (if ap_Fails (ag_app a) + 1 < cf_MaxFails (ag_cfg a)
       then active_ptr (ag_store a') (ag_sys a') = bad \<and> ap_Fails (ag_app a') = ap_Fails (ag_app a) + 1
       else active_ptr (ag_store a') (ag_sys a') = good \<and> ap_Fails (ag_app a') = 0)"
proof -
  have h: "healthy (ag_sys a)" "paths_ok a" "\<not> ag_paused a"
    "sy_files (ag_sys a) (cf_PidPath (ag_cfg a)) = None" "bad \<noteq> good"
    "confirmed_ptr (ag_store a) (ag_sys a) = good"
    "cf_PidPath (ag_cfg a) \<noteq> active_path (ag_store a) @ ''.tmp''"
    "\<And>v. valid_slot v \<Longrightarrow> has_binary (sy_files (ag_sys a) (BinPath (ag_store a) v))"
    using inv by (auto simp: crash_inv_def)
  have vb: "valid_slot bad" "valid_slot good" using act h(6) by auto
  obtain pid where xr: "ri_started x = Some pid" "crashing (cf_Stable (ag_cfg a)) (ri_now x) False (ri_run x)"
    "ri_takenOver x" "ri_candidates x = []" "idles (ri_idle x)"
    using x by (auto simp: crash_round_def launch_round_def)
  obtain b note1 where b: "runAppOnce bad (ri_now x) (Some pid) (ri_run x) (ri_idle x) a
      = Some (fst (idleWait (ri_idle x) (rollbackIfNeeded bad (bumpFail note1 b))))"
    "ap_Fails (ag_app b) = ap_Fails (ag_app a)" "ag_paused b = ag_paused a"
    "keeps (slot_paths (ag_store a)) a b" "healthy (ag_sys b)"
    "sy_files (ag_sys b) (cf_PidPath (ag_cfg a)) = None"
    using runAppOnce_crash [OF xr(2) h(1,2)] by blast
  define c where "c = bumpFail note1 b"
  have cs: "ag_sys c = ag_sys b" "ag_store c = ag_store a" "ag_cfg c = ag_cfg a" "ag_paused c = ag_paused a"
    "ap_Fails (ag_app c) = ap_Fails (ag_app a) + 1"
    using b(2-4) by (simp_all add: c_def bumpFail_def setAppState_def keeps_def)
  have st: "ag_store b = ag_store a" using b(4) by (simp add: keeps_def)
  note P = keeps_ptrs [OF b(4), unfolded st]
  have "pickSlot a = (bad, a)" using pickSlot_active [OF h(1)] h(8) vb act by simp
  moreover have "bad \<noteq> []" using vb(1) by (auto simp: valid_slot_def slot_names)
  moreover have np: "\<not> ag_paused (rollbackIfNeeded bad c)"
    using h(3) cs by (simp add: rollbackIfNeeded_paused)
  ultimately have r: "supervise_round reclaim x a = Some (rollbackIfNeeded bad c)"
    using orphanAppPid_none [OF h(1,4)] h(3) xr b(1) idles_id [OF xr(5) np] by (simp add: supervise_round_def c_def Let_def)
  have pc: "paths_ok c" using h(2) cs by (simp add: paths_ok_def)
  have kb: "keeps (bins (ag_store a)) a (rollbackIfNeeded bad c)"
  proof (rule keeps_trans)
    show "keeps (bins (ag_store a)) a c"
      unfolding c_def keeps_bumpFail by (rule keeps_mono [OF b(4)]) simp
    show "keeps (bins (ag_store a)) c (rollbackIfNeeded bad c)"
      using rollbackIfNeeded_keeps [of c bad] cs by (auto elim: keeps_mono)
  qed
  show ?thesis
  proof (cases "ap_Fails (ag_app a) + 1 < cf_MaxFails (ag_cfg a)")
    case True
    then have "rollbackIfNeeded bad c = c" using rollbackIfNeeded_keeps [of c bad] cs by simp
    moreover have "crash_inv bad good c"
      using h P b(5,6) cs pc by (simp add: crash_inv_def)
    ultimately show ?thesis using r True cs P act kb by simp
  next
    case False
    have cg: "confirmed_ptr (ag_store c) (ag_sys c) = good" using P h(6) cs by simp
    obtain s where s: "rollbackIfNeeded bad c = setAppState (\<lambda>p. p\<lparr>ap_Fails := 0\<rparr>)
        (emit (AppRollback bad good (ap_Fails (ag_app c))) (c\<lparr>ag_sys := s\<rparr>))"
      "healthy s" "SetActive (ag_store c) good (ag_sys c) = (None, s)"
      using rollback_healthy [OF _ cg h(5)] b(5) cs P h(8) vb(2) False by fastforce
    define d where "d = rollbackIfNeeded bad c"
    have ds: "ag_sys d = s" "ag_store d = ag_store a" "ag_cfg d = ag_cfg a" "ag_paused d = ag_paused a"
      "ap_Fails (ag_app d) = 0"
      using cs by (simp_all add: d_def s(1) setAppState_def emit_def)
    have act': "active_ptr (ag_store a) s = good" using SetActive_files(2) [OF s(3)] cs by simp
    have se: "same_except {active_path (ag_store a), active_path (ag_store a) @ ''.tmp''} (ag_sys b) s"
      using SetActive_files(1) [OF s(3)] cs by simp
    have "confirmed_ptr (ag_store a) s = good"
    proof -
      have "sy_files s (confirmed_path (ag_store a)) = sy_files (ag_sys b) (confirmed_path (ag_store a))"
        using se by (simp add: same_except_def)
      moreover have "pointer (confirmed_path (ag_store a)) bad (ag_sys b) = good"
        using P(1,2) h(6) act by (simp add: confirmed_ptr_def)
      ultimately have "pointer (confirmed_path (ag_store a)) bad s = good" by (simp add: pointer_def)
      then show ?thesis using act' h(5)
        by (auto simp: confirmed_ptr_def pointer_def pointer_value_def Let_def split: option.splits if_splits)
    qed
    moreover have "has_binary (sy_files s (BinPath (ag_store a) v))" if "valid_slot v" for v
      using se h(8) [OF that] P(3) [OF that] that by (simp add: same_except_def)
    moreover have "sy_files s (cf_PidPath (ag_cfg a)) = None"
    proof -
      have "cf_PidPath (ag_cfg a) \<noteq> active_path (ag_store a)"
        using h(2) bins_sub(2) [of "ag_store a"] by (auto simp: paths_ok_def)
      then show ?thesis using b(6) se h(7) by (simp add: same_except_def)
    qed
    ultimately have "crash_inv bad good d"
      using s(2) h(3,5,7) ds h(2) by (simp add: crash_inv_def paths_ok_def)
    then show ?thesis using r False ds act' kb by (simp add: d_def [symmetric])
  qed
qed

lemma crash_loop:
  assumes "crash_inv bad good a" and "active_ptr (ag_store a) (ag_sys a) = bad"
    and "ap_Fails (ag_app a) = 0" and "0 < cf_MaxFails (ag_cfg a)"
    and "\<forall>x \<in> set xs. crash_round (cf_Stable (ag_cfg a)) x" and "int (length xs) \<le> cf_MaxFails (ag_cfg a)"
  shows "\<exists>a'. superviseLoop reclaim xs a = Some a' \<and> keeps (bins (ag_store a)) a a'
    \<and> (int (length xs) < cf_MaxFails (ag_cfg a) \<longrightarrow>
         active_ptr (ag_store a') (ag_sys a') = bad \<and> ap_Fails (ag_app a') = int (length xs))
    \<and> (int (length xs) = cf_MaxFails (ag_cfg a) \<longrightarrow>
         active_ptr (ag_store a') (ag_sys a') = good \<and> ap_Fails (ag_app a') = 0
         \<and> fst (pickSlot a') = good)"
proof -
  have "\<exists>a'. superviseLoop reclaim xs a = Some a' \<and> crash_inv bad good a' \<and> keeps (bins (ag_store a)) a a'
    \<and> (if n + int (length xs) < cf_MaxFails (ag_cfg a)
       then active_ptr (ag_store a') (ag_sys a') = bad \<and> ap_Fails (ag_app a') = n + int (length xs)
       else active_ptr (ag_store a') (ag_sys a') = good \<and> ap_Fails (ag_app a') = 0)"
    if "crash_inv bad good a" "active_ptr (ag_store a) (ag_sys a) = bad" "ap_Fails (ag_app a) = n"
      "n < cf_MaxFails (ag_cfg a)" "\<forall>x \<in> set xs. crash_round (cf_Stable (ag_cfg a)) x" "n + int (length xs) \<le> cf_MaxFails (ag_cfg a)"
    for a n xs
    using that
  proof (induction xs arbitrary: a n)
    case (Cons x xs)
    obtain b where b: "supervise_round reclaim x a = Some b" "crash_inv bad good b" "ag_cfg b = ag_cfg a"
      "if n + 1 < cf_MaxFails (ag_cfg a)
       then active_ptr (ag_store b) (ag_sys b) = bad \<and> ap_Fails (ag_app b) = n + 1
       else active_ptr (ag_store b) (ag_sys b) = good \<and> ap_Fails (ag_app b) = 0"
      and kb: "keeps (bins (ag_store a)) a b" "ag_store b = ag_store a"
      using crash_round_step [OF Cons.prems(1,2), of x reclaim] Cons.prems(3,5) by (auto simp: keeps_def)
    show ?case
    proof (cases "n + 1 < cf_MaxFails (ag_cfg a)")
      case True
      have n: "n + int (length (x # xs)) = n + 1 + int (length xs)" by simp
      have "active_ptr (ag_store b) (ag_sys b) = bad" "ap_Fails (ag_app b) = n + 1" using b(4) True by simp_all
      from Cons.IH [OF b(2) this] True Cons.prems(5,6)
      show ?thesis unfolding n using keeps_trans [OF kb(1)] by (auto simp: b(1,3) kb(2))
    next
      case False
      then have "int (length xs) \<le> 0" using Cons.prems(6) unfolding length_Cons of_nat_Suc by linarith
      then have "xs = []" by simp
      then show ?thesis using False b kb by simp
    qed
  qed simp
  from this [OF assms(1-3) assms(4,5)] assms(6) obtain a' where a':
    "superviseLoop reclaim xs a = Some a'" "crash_inv bad good a'" "keeps (bins (ag_store a)) a a'"
    "if int (length xs) < cf_MaxFails (ag_cfg a)
       then active_ptr (ag_store a') (ag_sys a') = bad \<and> ap_Fails (ag_app a') = int (length xs)
       else active_ptr (ag_store a') (ag_sys a') = good \<and> ap_Fails (ag_app a') = 0" by auto
  have "pickSlot a' = (active_ptr (ag_store a') (ag_sys a'), a')"
    using a'(2) by (intro pickSlot_active) (auto simp: crash_inv_def)
  then show ?thesis using a' by (auto split: if_splits)
qed


definition sample_crash :: round_input where
  "sample_crash = \<lparr>ri_takenOver = True, ri_candidates = [], ri_alive = (\<lambda>_. False), ri_now = 0, ri_adopted = [],
     ri_started = Some 77,
     ri_run = [Tick 3 (Some (blank_file [1] 5)) True, Tick 6 None True, Exit True 9], ri_idle = IdleTimeout\<rparr>"

definition sample_update :: agent where
  "sample_update = sample_agent [(''/s/active'', str_bytes ''B''), (''/s/confirmed'', str_bytes ''A''),
     (''/s/A/app'', [1]), (''/s/B/app'', [2])] []"


text \<open>
  Launches that fail: the failure is counted, but \<open>rollbackIfNeeded\<close> is not asked, so a slot whose binary
  cannot be started at all stays active, however often it is tried.
\<close>

definition failed_launch :: "round_input \<Rightarrow> bool" where
  "failed_launch x \<longleftrightarrow> launch_round x \<and> ri_started x = None"

lemma failed_launch_step:
  assumes inv: "crash_inv bad good a" and act: "active_ptr (ag_store a) (ag_sys a) = bad" and x: "failed_launch x"
  shows "\<exists>a'. supervise_round reclaim x a = Some a' \<and> crash_inv bad good a' \<and> active_ptr (ag_store a') (ag_sys a') = bad
    \<and> ap_Fails (ag_app a') = ap_Fails (ag_app a) + 1"
proof -
  have h: "healthy (ag_sys a)" "paths_ok a" "\<not> ag_paused a" "sy_files (ag_sys a) (cf_PidPath (ag_cfg a)) = None"
    "\<And>v. valid_slot v \<Longrightarrow> has_binary (sy_files (ag_sys a) (BinPath (ag_store a) v))"
    using inv by (auto simp: crash_inv_def)
  have vb: "valid_slot bad" using act by auto
  define b where "b = bumpFail StartFailed (a\<lparr>ag_sys := snd (remove (cf_HealthPath (ag_cfg a)) (ag_sys a)),
      ag_confirmedRun := [], ag_confirmFailed := []\<rparr>)"
  have bs: "ag_store b = ag_store a" "ag_cfg b = ag_cfg a" "ag_paused b = ag_paused a"
    "ap_Fails (ag_app b) = ap_Fails (ag_app a) + 1" "ag_sys b = snd (remove (cf_HealthPath (ag_cfg a)) (ag_sys a))"
    by (simp_all add: b_def bumpFail_def setAppState_def)
  have se: "same_except {cf_HealthPath (ag_cfg a)} (ag_sys a) (ag_sys b)"
    using remove_files(1) [OF surjective_pairing] bs(5) by simp
  have k: "keeps (slot_paths (ag_store a)) a b"
    unfolding keeps_def
  proof (intro conjI ballI)
    show "sy_files (ag_sys b) p = sy_files (ag_sys a) p" if "p \<in> slot_paths (ag_store a)" for p
    proof -
      have "p \<noteq> cf_HealthPath (ag_cfg a)" using that h(2) by (auto simp: paths_ok_def)
      then show ?thesis using se by (simp add: same_except_def)
    qed
  qed (simp_all add: bs)
  have pid: "sy_files (ag_sys b) (cf_PidPath (ag_cfg a)) = None"
    using se h(4) healthy_remove [OF h(1), of "cf_HealthPath (ag_cfg a)"] bs(5)
    by (cases "cf_PidPath (ag_cfg a) = cf_HealthPath (ag_cfg a)") (auto simp: same_except_def)
  note P = keeps_ptrs [OF k, unfolded bs]
  have "pickSlot a = (bad, a)" using pickSlot_active [OF h(1)] h(5) vb act by simp
  moreover have "bad \<noteq> []" using vb by (auto simp: valid_slot_def slot_names)
  moreover have "fst (idleWait (ri_idle x) b) = b" using x h(3) bs(3) by (intro idles_id) (auto simp: failed_launch_def launch_round_def)
  ultimately have "supervise_round reclaim x a = Some b"
    using orphanAppPid_none [OF h(1,4)] h(3) x
    by (simp add: supervise_round_def failed_launch_def launch_round_def runAppOnce_def newHealthWatcher_def b_def Let_def)
  moreover have "crash_inv bad good b"
    using inv P pid healthy_remove [OF h(1)] bs by (simp add: crash_inv_def paths_ok_def)
  ultimately show ?thesis using P(1) act bs by auto
qed

lemma failed_launches_never_roll_back:
  assumes "crash_inv bad good a" and "active_ptr (ag_store a) (ag_sys a) = bad" and "\<forall>x \<in> set xs. failed_launch x"
  shows "\<exists>a'. superviseLoop reclaim xs a = Some a' \<and> active_ptr (ag_store a') (ag_sys a') = bad
    \<and> ap_Fails (ag_app a') = ap_Fails (ag_app a) + int (length xs) \<and> fst (pickSlot a') = bad"
  using assms
proof (induction xs arbitrary: a)
  case Nil
  then show ?case
    using pickSlot_active [of a] active_ptr_valid [of "ag_store a" "ag_sys a"] by (auto simp: crash_inv_def)
next
  case (Cons x xs)
  obtain b where b: "supervise_round reclaim x a = Some b" "crash_inv bad good b" "active_ptr (ag_store b) (ag_sys b) = bad"
    "ap_Fails (ag_app b) = ap_Fails (ag_app a) + 1"
    using failed_launch_step [OF Cons.prems(1,2)] Cons.prems(3) by force
  from Cons.IH [OF b(2,3)] Cons.prems(3) b show ?case by auto
qed

end
