(* ===== verification/StateFile.thy ===== *)
theory StateFile
  imports SlotStore
begin

text \<open>
  The agent's persisted state, \<open>ota/internal/agent/state.go\<close>: two flags in a JSON file, written by
  temporary file, \<open>fsync\<close> and rename. \<open>json.MarshalIndent\<close> of the two flags is written out;
  \<open>json.Unmarshal\<close> on an arbitrary file is a parameter \<open>unm\<close> (bytes and the value decoded into), of
  which the theorems use that it reads back what \<open>MarshalIndent\<close> wrote.
\<close>

record agent_state =
  as_TakenOver :: bool
  as_AutoTakeover :: bool

record stateFile =
  sf_path :: path
  sf_s :: agent_state
  sf_disk :: agent_state

definition zero_state :: agent_state where
  "zero_state = \<lparr>as_TakenOver = False, as_AutoTakeover = False\<rparr>"

definition bool_json :: "bool \<Rightarrow> string" where
  "bool_json b = (if b then ''true'' else ''false'')"

definition MarshalState :: "agent_state \<Rightarrow> byte list" where
  \<open>MarshalState x = str_bytes (''{'' @ [CHR 10] @ ''  "taken_over": '' @ bool_json (as_TakenOver x) @ '','' @ [CHR 10]
     @ ''  "auto_takeover": '' @ bool_json (as_AutoTakeover x) @ [CHR 10] @ ''}'')\<close>

type_synonym unmarshal = "byte list \<Rightarrow> agent_state \<Rightarrow> agent_state"

definition loadState :: "unmarshal \<Rightarrow> path \<Rightarrow> sys \<Rightarrow> stateFile \<times> sys" where
  "loadState unm p s =
     (let (b, s) = read_file p s;
          x = (case b of None \<Rightarrow> zero_state | Some b \<Rightarrow> unm b zero_state)
      in (\<lparr>sf_path = p, sf_s = x, sf_disk = x\<rparr>, s))"

definition get_state :: "stateFile \<Rightarrow> agent_state" where
  "get_state sf = sf_s sf"

definition write_state :: "stateFile \<Rightarrow> agent_state \<Rightarrow> sys \<Rightarrow> bool \<times> sys" where
  "write_state sf x s =
     (let tmp = sf_path sf @ ''.tmp'';
          (ok, s) = open_trunc tmp 0x180 s in
      if \<not> ok then (False, s) else
      let (n, ok, s) = write_at tmp 0 (MarshalState x @ [10]) s in
      if \<not> ok then (False, snd (close s)) else
      let (ok, s) = sync tmp s in
      if \<not> ok then (False, snd (close s)) else
      let (ok, s) = close s in
      if \<not> ok then (False, s) else
      let (ok, s) = rename tmp (sf_path sf) s in
      if \<not> ok then (False, s) else
      let (dir_ok, s) = atomic_op (\<lambda>s. s) s in
      (True, if dir_ok then snd (close (snd (sync_dir s))) else s))"

definition update_state :: "(agent_state \<Rightarrow> agent_state) \<Rightarrow> stateFile \<Rightarrow> sys \<Rightarrow> bool \<times> stateFile \<times> sys" where
  "update_state fn sf s =
     (let nxt = fn (sf_s sf) in
      if nxt = sf_disk sf then (True, sf\<lparr>sf_s := nxt\<rparr>, s)
      else let (ok, s) = write_state sf nxt s in
        if \<not> ok then (False, sf, s) else (True, sf\<lparr>sf_s := nxt, sf_disk := nxt\<rparr>, s))"

text \<open>What the next boot loads from a readable stick.\<close>

definition boot_state :: "unmarshal \<Rightarrow> path \<Rightarrow> sys \<Rightarrow> agent_state" where
  "boot_state unm p s = (case sy_files s p of None \<Rightarrow> zero_state | Some f \<Rightarrow> unm (fl_data f) zero_state)"

lemma loadState_boot: "healthy s \<Longrightarrow> get_state (fst (loadState unm p s)) = boot_state unm p s"
  by (simp add: loadState_def get_state_def boot_state_def Let_def split: option.split)

lemma boot_state_cong: "sy_files s' p = sy_files s p \<Longrightarrow> boot_state unm p s' = boot_state unm p s"
  by (simp add: boot_state_def)

lemma atomic_op_failed:
  assumes "atomic_op eff s = (False, s')" "\<not> sy_dead s'"
  shows "sy_files s' = sy_files s"
proof -
  obtain x s0 where p: "pop s = (x, s0)" "sy_files s0 = sy_files s" by (rule pop_cases)
  then show ?thesis using assms by (auto simp: atomic_op_def split: outcome.splits)
qed

lemma rename_failed: "rename a b s = (False, s') \<Longrightarrow> \<not> sy_dead s' \<Longrightarrow> sy_files s' = sy_files s"
  by (auto simp: rename_def split: option.splits dest: atomic_op_failed)

lemma write_state_files:
  assumes w: "write_state sf x s = (ok, s')"
  shows "sy_files s' (sf_path sf) = sy_files s (sf_path sf)
      \<or> (\<exists>f. sy_files s' (sf_path sf) = Some f \<and> fl_data f = MarshalState x @ [10])"
    and "ok \<Longrightarrow> \<exists>f. sy_files s' (sf_path sf) = Some f \<and> fl_data f = MarshalState x @ [10]"
    and "\<not> ok \<Longrightarrow> \<not> sy_dead s' \<Longrightarrow> sy_files s' (sf_path sf) = sy_files s (sf_path sf)"
    and "same_except {sf_path sf, sf_path sf @ ''.tmp''} s s'"
proof -
  let ?p = "sf_path sf" and ?t = "sf_path sf @ ''.tmp''" and ?d = "MarshalState x @ [10]"
  obtain ok1 s1 where op: "open_trunc ?t 0x180 s = (ok1, s1)" by fastforce
  obtain n ok2 s2 where wr: "write_at ?t 0 ?d s1 = (n, ok2, s2)" by (cases "write_at ?t 0 ?d s1") auto
  obtain x1 d1 where c1: "close s2 = (x1, d1)" by fastforce
  obtain ok3 s3 where sy: "sync ?t s2 = (ok3, s3)" by fastforce
  obtain ok4 s4 where cl: "close s3 = (ok4, s4)" by fastforce
  obtain ok5 s5 where rn: "rename ?t ?p s4 = (ok5, s5)" by fastforce
  obtain ok6 s6 where di: "atomic_op (\<lambda>s. s) s5 = (ok6, s6)" by fastforce
  obtain x7 s7 where ds: "sync_dir s6 = (x7, s7)" by fastforce
  obtain x8 s8 where dc: "close s7 = (x8, s8)" by fastforce
  have res: "(ok, s') = (if \<not> ok1 then (False, s1) else if \<not> ok2 then (False, d1) else if \<not> ok3 then (False, s4)
     else if \<not> ok4 then (False, s4) else if \<not> ok5 then (False, s5) else (True, if ok6 then s8 else s6))"
    unfolding w [symmetric] by (simp add: write_state_def Let_def op wr c1 sy cl rn di ds dc)
  note f = close_files [OF c1] sync_files [OF sy] close_files [OF cl] atomic_op_id_files [OF di]
    sync_dir_files [OF ds] close_files [OF dc]
  note O = open_trunc_files [OF op] and Wr = write_at_files [OF wr] and R = rename_files [OF rn tmp_neq(1)]
  have p: "sy_files s1 ?p = sy_files s ?p" "sy_files s2 ?p = sy_files s ?p"
    using O(1) Wr(1) by (auto simp: same_except_def)
  have t: "\<exists>f. sy_files s2 ?t = Some f \<and> fl_data f = ?d" if "ok1" "ok2"
    using O(2) [OF that(1)] Wr(3,4) that(2) by auto
  have r5: "sy_files s5 ?p = sy_files s ?p \<or> (\<exists>f. sy_files s5 ?p = Some f \<and> fl_data f = ?d)" if "ok1" "ok2"
    using t [OF that] R(3) f p by fastforce
  show "sy_files s' ?p = sy_files s ?p \<or> (\<exists>f. sy_files s' ?p = Some f \<and> fl_data f = ?d)"
    using res r5 p f by (auto split: if_splits)
  show "\<exists>f. sy_files s' ?p = Some f \<and> fl_data f = ?d" if ok
    using that res t R(2) f by (auto split: if_splits)
  show "sy_files s' ?p = sy_files s ?p" if "\<not> ok" "\<not> sy_dead s'"
    using that res rename_failed [of ?t ?p s4 s5] rn p f by (auto split: if_splits)
  show "same_except {?p, ?t} s s'"
    using res O(1) Wr(1) R(1) f by (auto simp: same_except_def split: if_splits)
qed

text \<open>After a power cut: what a boot could find before, or the new text whole.\<close>

lemma write_state_boot:
  assumes w: "write_state sf x s = (ok, s')"
  shows "sy_boot s' (sf_path sf) \<subseteq> insert (Some (MarshalState x @ [10])) (sy_boot s (sf_path sf))"
proof -
  let ?p = "sf_path sf" and ?t = "sf_path sf @ ''.tmp''" and ?d = "MarshalState x @ [10]"
  obtain ok1 s1 where op: "open_trunc ?t 0x180 s = (ok1, s1)" by fastforce
  obtain n ok2 s2 where wr: "write_at ?t 0 ?d s1 = (n, ok2, s2)" by (cases "write_at ?t 0 ?d s1") auto
  obtain x1 d1 where c1: "close s2 = (x1, d1)" by fastforce
  obtain ok3 s3 where sy: "sync ?t s2 = (ok3, s3)" by fastforce
  obtain ok4 s4 where cl: "close s3 = (ok4, s4)" by fastforce
  obtain ok5 s5 where rn: "rename ?t ?p s4 = (ok5, s5)" by fastforce
  obtain ok6 s6 where di: "atomic_op (\<lambda>s. s) s5 = (ok6, s6)" by fastforce
  obtain x7 s7 where ds: "sync_dir s6 = (x7, s7)" by fastforce
  obtain x8 s8 where dc: "close s7 = (x8, s8)" by fastforce
  have res: "(ok, s') = (if \<not> ok1 then (False, s1) else if \<not> ok2 then (False, d1) else if \<not> ok3 then (False, s4)
     else if \<not> ok4 then (False, s4) else if \<not> ok5 then (False, s5) else (True, if ok6 then s8 else s6))"
    unfolding w [symmetric] by (simp add: write_state_def Let_def op wr c1 sy cl rn di ds dc)
  note m = close_medium [OF c1] close_medium [OF cl] atomic_op_id_medium [OF di] sync_dir_medium [OF ds]
    close_medium [OF dc]
  have p: "sy_boot y ?p = sy_boot s ?p" if "y \<in> {s1, s2, d1, s3, s4}" for y
    using that m open_trunc_boot [OF op] write_at_boot [OF wr] sync_boot(1) [OF sy]
    by (auto simp: boot_same_except_def medium_eq)
  have p5: "sy_boot s5 ?p \<subseteq> insert (Some ?d) (sy_boot s ?p)" if ok: "ok1" "ok2" "ok3"
  proof -
    obtain g where g: "sy_files s2 ?t = Some g" "fl_data g = ?d"
      using open_trunc_files(2) [OF op ok(1)] write_at_files(3,4) [OF wr] ok(2) by auto
    have "?t \<in> sy_synced s4" "sy_files s4 ?t = Some g"
      using sync_boot(2) [OF sy ok(3) g(1)] g(1) sync_files [OF sy] m(2) by (simp_all add: medium_eq)
    then show ?thesis using rename_boot(2) [OF rn] p [of s4] g(2) by auto
  qed
  show ?thesis using res p p5 m by (auto simp: medium_eq split: if_splits)
qed

definition found_state :: "unmarshal \<Rightarrow> byte list option \<Rightarrow> agent_state" where
  "found_state unm c = (case c of None \<Rightarrow> zero_state | Some b \<Rightarrow> unm b zero_state)"

lemma update_state_found:
  assumes "\<forall>x z. unm (MarshalState x @ [10]) z = x" and "update_state fn sf s = (ok, sf', s')" and "may_find s' m"
  shows "m (sf_path sf) \<in> sy_boot s (sf_path sf) \<or> found_state unm (m (sf_path sf)) = fn (get_state sf)"
proof (cases "fn (sf_s sf) = sf_disk sf")
  case True
  then show ?thesis using assms(2,3) by (simp add: update_state_def may_find_def Let_def)
next
  case False
  obtain okw s1 where w: "write_state sf (fn (sf_s sf)) s = (okw, s1)" by fastforce
  have "s' = s1" using assms(2) w False by (auto simp: update_state_def Let_def split: if_splits)
  then have "m (sf_path sf) \<in> insert (Some (MarshalState (fn (sf_s sf)) @ [10])) (sy_boot s (sf_path sf))"
    using write_state_boot [OF w] assms(3) by (auto simp: may_find_def)
  then show ?thesis using assms(1) by (auto simp: found_state_def get_state_def)
qed

lemma update_state_agrees:
  assumes "\<forall>x z. unm (MarshalState x @ [10]) z = x"
    and "sf_s sf = sf_disk sf" and "boot_state unm (sf_path sf) s = sf_disk sf"
    and "update_state fn sf s = (ok, sf', s')"
  shows "get_state sf' = (if ok then fn (get_state sf) else get_state sf)
    \<and> sf_s sf' = sf_disk sf' \<and> sf_path sf' = sf_path sf
    \<and> boot_state unm (sf_path sf) s' \<in> {get_state sf, fn (get_state sf)}
    \<and> (ok \<or> \<not> sy_dead s' \<longrightarrow> boot_state unm (sf_path sf) s' = get_state sf')
    \<and> (fn (get_state sf) = get_state sf \<longrightarrow> ok \<and> s' = s)"
proof (cases "fn (sf_s sf) = sf_disk sf")
  case True
  then show ?thesis using assms by (auto simp: update_state_def get_state_def)
next
  case False
  obtain okw s1 where w: "write_state sf (fn (sf_s sf)) s = (okw, s1)" by fastforce
  note W = write_state_files [OF w]
  have b: "\<exists>f. sy_files s1 (sf_path sf) = Some f \<and> fl_data f = MarshalState (fn (sf_s sf)) @ [10]
    \<Longrightarrow> boot_state unm (sf_path sf) s1 = fn (sf_s sf)"
    using assms(1) by (auto simp: boot_state_def)
  have c: "sy_files s1 (sf_path sf) = sy_files s (sf_path sf) \<Longrightarrow> boot_state unm (sf_path sf) s1 = sf_s sf"
    using assms(2,3) boot_state_cong [of s1 "sf_path sf" s] by simp
  have r: "ok = okw" "s' = s1" "sf' = (if okw then sf\<lparr>sf_s := fn (sf_s sf), sf_disk := fn (sf_s sf)\<rparr> else sf)"
    using assms(4) w False by (auto simp: update_state_def Let_def split: if_splits)
  show ?thesis
    using W(1-3) b c r assms(2) False by (auto simp: get_state_def)
qed

lemma update_state_boot:
  assumes "\<forall>x z. unm (MarshalState x @ [10]) z = x"
    and "sf_s sf = sf_disk sf" and "boot_state unm (sf_path sf) s = sf_disk sf"
    and "update_state fn sf s = (True, sf', s')"
  shows "boot_state unm (sf_path sf) s' = fn (get_state sf)"
  using update_state_agrees [OF assms] by auto

text \<open>
  C7: The state the agent acts on is the state the stick holds. Start from a state that agrees with
  the file; then an update, under any I/O errors, either succeeds, and the new state is in force and
  is what the file holds for the next boot, or fails and leaves the state in force unchanged; the file
  holds the old or the new state, nothing else, and as long as the power stays on it holds the state in
  force. When the power goes, in the update or after it, a boot finds the new state or a content that
  it could have found before, never a torn one: the file is synced before the rename. An update that
  changes nothing does not touch the stick.
\<close>

theorem update_state_durable:
  assumes "\<forall>x z. unm (MarshalState x @ [10]) z = x"
    and "sf_s sf = sf_disk sf" and "boot_state unm (sf_path sf) s = sf_disk sf"
    and "update_state fn sf s = (ok, sf', s')"
  shows "get_state sf' = (if ok then fn (get_state sf) else get_state sf)
    \<and> sf_s sf' = sf_disk sf' \<and> sf_path sf' = sf_path sf
    \<and> boot_state unm (sf_path sf) s' \<in> {get_state sf, fn (get_state sf)}
    \<and> (ok \<or> \<not> sy_dead s' \<longrightarrow> boot_state unm (sf_path sf) s' = get_state sf')
    \<and> (fn (get_state sf) = get_state sf \<longrightarrow> ok \<and> s' = s)
    \<and> (\<forall>m. may_find s' m \<longrightarrow>
        m (sf_path sf) \<in> sy_boot s (sf_path sf) \<or> found_state unm (m (sf_path sf)) = fn (get_state sf))"
  using update_state_agrees [OF assms] update_state_found [OF assms(1,4)] by blast

text \<open>A decoder that reads back the four texts the agent writes.\<close>

definition sample_unm :: unmarshal where
  "sample_unm b z = (case filter (\<lambda>x. MarshalState x @ [10] = b)
     [\<lparr>as_TakenOver = t, as_AutoTakeover = u\<rparr>. t \<leftarrow> [False, True], u \<leftarrow> [False, True]] of [] \<Rightarrow> z | x # _ \<Rightarrow> x)"

lemma sample_unm_inverse: "sample_unm (MarshalState x @ [10]) z = x"
proof -
  have "\<forall>t u. sample_unm (MarshalState \<lparr>as_TakenOver = t, as_AutoTakeover = u\<rparr> @ [10]) z
      = \<lparr>as_TakenOver = t, as_AutoTakeover = u\<rparr>"
    by (simp add: all_bool_eq sample_unm_def MarshalState_def bool_json_def str_bytes_def byte_of_char_def)
  then show ?thesis by (cases x) simp
qed

lemma update_state_durable_witness:
  "fst (update_state (\<lambda>x. x\<lparr>as_TakenOver := True\<rparr>) \<lparr>sf_path = ''/st'', sf_s = zero_state, sf_disk = zero_state\<rparr>
     (sample_sys [] [Succeed, Short 3])) = False
   \<and> boot_state sample_unm ''/st'' (snd (snd (update_state (\<lambda>x. x\<lparr>as_TakenOver := True\<rparr>)
       \<lparr>sf_path = ''/st'', sf_s = zero_state, sf_disk = zero_state\<rparr> (sample_sys [] [Succeed, Short 3])))) = zero_state"
proof -
  define sf where "sf = \<lparr>sf_path = ''/st'', sf_s = zero_state, sf_disk = zero_state\<rparr>"
  define u where "u = update_state (\<lambda>x. x\<lparr>as_TakenOver := True\<rparr>) sf (sample_sys [] [Succeed, Short 3])"
  have e: "fst u = False" "\<not> sy_dead (snd (snd u))" unfolding u_def sf_def by code_simp+
  have u: "update_state (\<lambda>x. x\<lparr>as_TakenOver := True\<rparr>) sf (sample_sys [] [Succeed, Short 3])
      = (False, fst (snd u), snd (snd u))"
    using e by (simp add: u_def prod_eq_iff)
  have "boot_state sample_unm (sf_path sf) (snd (snd u)) = zero_state"
    using update_state_durable [OF _ _ _ u, of sample_unm] e sample_unm_inverse
    by (simp add: sf_def boot_state_def sample_sys_def get_state_def)
  then show ?thesis using e unfolding u_def sf_def by simp
qed

end
