(* ===== verification/Upload.thy ===== *)
theory Upload
  imports SlotStore
begin

text \<open>
  Chunked uploads of \<open>ota/internal/agent/upload.go\<close>: the session table, the chunks written at their
  offsets, the running hash that is kept while chunks arrive in order, and the commit that checks the
  size and the hash before it renames the file into place. Each operation runs under the session's
  lock and is one step here. \<open>now\<close> is the clock in nanoseconds.
\<close>

datatype upload_error =
    NotAbsolute | TooManySessions | UnknownSession | SessionClosed | ChunkExceedsSize
  | AlreadyCommitted | SizeMismatch | ShaRequired | ShaMismatch | UploadOs

record upload_session =
  us_id :: string
  us_dest :: path
  us_tmp :: path
  us_open :: bool
  us_size :: int
  us_sha :: string
  us_mode :: nat
  us_written :: int
  us_created :: int
  us_hash :: "byte list"
  us_hashed :: int

type_synonym uploads = "(string \<times> upload_session) list"

text \<open>\<open>int64\<close> arithmetic.\<close>

definition wrap64 :: "int \<Rightarrow> int" where
  "wrap64 i = (i + 2 ^ 63) mod 2 ^ 64 - 2 ^ 63"

section \<open>Paths\<close>

text \<open>
  \<open>filepath.Clean\<close> of a rooted path: empty and \<open>.\<close> elements go, \<open>..\<close> drops the one before (and
  nothing at the root). A path that is not rooted stays so and is refused.
\<close>

fun split_path :: "string \<Rightarrow> string list" where
  "split_path [] = [[]]"
| "split_path (c # cs) = (if c = CHR ''/'' then [] # split_path cs
     else case split_path cs of [] \<Rightarrow> [[c]] | e # es \<Rightarrow> (c # e) # es)"

fun clean_elems :: "string list \<Rightarrow> string list \<Rightarrow> string list" where
  "clean_elems acc [] = rev acc"
| "clean_elems acc (e # es) =
     (if e = '''' \<or> e = ''.'' then clean_elems acc es
      else if e = ''..'' then clean_elems (case acc of [] \<Rightarrow> [] | _ # r \<Rightarrow> r) es
      else clean_elems (e # acc) es)"

definition rooted :: "string list \<Rightarrow> path" where
  "rooted es = (if es = [] then ''/'' else concat (map (\<lambda>e. CHR ''/'' # e) es))"

definition clean_rooted :: "path \<Rightarrow> string list" where
  "clean_rooted p = clean_elems [] (split_path p)"

definition is_abs :: "path \<Rightarrow> bool" where
  "is_abs p \<longleftrightarrow> take 1 p = ''/''"

fun base36 :: "nat \<Rightarrow> string" where
  "base36 n = (if n < 36 then [''0123456789abcdefghijklmnopqrstuvwxyz'' ! n]
     else base36 (n div 36) @ [''0123456789abcdefghijklmnopqrstuvwxyz'' ! (n mod 36)])"

declare base36.simps [simp del]

section \<open>The session table\<close>

definition put_session :: "string \<Rightarrow> upload_session \<Rightarrow> uploads \<Rightarrow> uploads" where
  "put_session i ss a = (i, ss) # filter (\<lambda>(j, _). j \<noteq> i) a"

definition del_session :: "string \<Rightarrow> uploads \<Rightarrow> uploads" where
  "del_session i a = filter (\<lambda>(j, _). j \<noteq> i) a"

definition abort :: "upload_session \<Rightarrow> sys \<Rightarrow> upload_session \<times> sys" where
  "abort ss s =
     (let (ss, s) = (if us_open ss then (ss\<lparr>us_open := False\<rparr>, snd (close s)) else (ss, s));
          (_, s) = remove (us_tmp ss) s
      in (ss, s))"

definition ten_minutes :: int where "ten_minutes = 10 * 60 * 1000000000"

definition evictStale :: "int \<Rightarrow> uploads \<Rightarrow> sys \<Rightarrow> uploads \<times> sys" where
  "evictStale now a s =
     (let stale = filter (\<lambda>(_, ss). now - us_created ss > ten_minutes) a;
          a = filter (\<lambda>(_, ss). \<not> now - us_created ss > ten_minutes) a
      in (a, fold (\<lambda>(_, ss) s. snd (abort ss s)) stale s))"

definition newUpload ::
  "int \<Rightarrow> path \<Rightarrow> int \<Rightarrow> string \<Rightarrow> nat \<Rightarrow> uploads \<Rightarrow> sys \<Rightarrow> (upload_error + string) \<times> uploads \<times> sys" where
  "newUpload now dest0 sz sha mode a s =
     (if \<not> is_abs dest0 then (Inl NotAbsolute, a, s) else
      let es = clean_rooted dest0;
          dest = rooted es;
          (ok, s) = mkdir_all (rooted (butlast es)) s in
      if \<not> ok then (Inl UploadOs, a, s) else
      let (a, s) = evictStale now a s in
      if 8 \<le> length a then (Inl TooManySessions, a, s) else
      let ident = ''up-'' @ base36 (nat now);
          tmp = rooted (butlast es @ [''.'' @ ident @ ''.part'']);
          (ok, s) = open_trunc tmp 0x180 s in
      if \<not> ok then (Inl UploadOs, a, s) else
      let m = (if mode = 0 then 0x1ED else mode) in
      (Inr ident,
       put_session ident \<lparr>us_id = ident, us_dest = dest, us_tmp = tmp, us_open = True, us_size = sz,
         us_sha = to_lower sha, us_mode = m, us_written = 0, us_created = now, us_hash = [], us_hashed = 0\<rparr> a, s))"

definition getUpload :: "string \<Rightarrow> uploads \<Rightarrow> upload_session option" where
  "getUpload i a = map_of a i"

text \<open>A negative offset makes \<open>WriteAt\<close> fail before any byte is written.\<close>

definition session_write ::
  "upload_session \<Rightarrow> int \<Rightarrow> byte list \<Rightarrow> sys \<Rightarrow> (nat \<times> upload_error option) \<times> upload_session \<times> sys" where
  "session_write ss offset data s =
     (if \<not> us_open ss then ((0, Some SessionClosed), ss, s)
      else if us_size ss > 0 \<and> wrap64 (offset + int (length data)) > us_size ss
      then ((0, Some ChunkExceedsSize), ss, s)
      else
        let (n, ok, s) = (if offset < 0 then (0, False, s) else write_at (us_tmp ss) (nat offset) data s);
            ss = (if offset = us_hashed ss
                  then ss\<lparr>us_hash := us_hash ss @ take n data, us_hashed := wrap64 (us_hashed ss + int n)\<rparr>
                  else ss\<lparr>us_hashed := -1\<rparr>)
        in if \<not> ok then ((n, Some UploadOs), ss, s)
           else let en = wrap64 (offset + int n);
                    ss = (if en > us_written ss then ss\<lparr>us_written := en\<rparr> else ss)
                in ((n, None), ss, s))"

definition writeUpload ::
  "string \<Rightarrow> int \<Rightarrow> byte list \<Rightarrow> uploads \<Rightarrow> sys \<Rightarrow> (nat \<times> upload_error option) \<times> uploads \<times> sys" where
  "writeUpload i offset data a s =
     (case getUpload i a of None \<Rightarrow> ((0, Some UnknownSession), a, s)
      | Some ss \<Rightarrow> let (r, ss, s) = session_write ss offset data s in (r, put_session i ss a, s))"

definition session_commit ::
  "(byte list \<Rightarrow> string) \<Rightarrow> upload_session \<Rightarrow> sys \<Rightarrow> (upload_error + path \<times> string) \<times> upload_session \<times> sys" where
  "session_commit H ss s =
     (if \<not> us_open ss then (Inl AlreadyCommitted, ss, s) else
      let (ok, s) = sync (us_tmp ss) s in
      if \<not> ok then (Inl UploadOs, ss, s) else
      let (ok, s) = close s in
      if \<not> ok then (Inl UploadOs, ss, s) else
      let ss = ss\<lparr>us_open := False\<rparr> in
      if us_size ss > 0 \<and> us_written ss \<noteq> us_size ss then (Inl SizeMismatch, ss, snd (remove (us_tmp ss) s))
      else if us_size ss > 0 \<and> us_sha ss = '''' then (Inl ShaRequired, ss, snd (remove (us_tmp ss) s))
      else
        let (r, s) = (if us_hashed ss = us_written ss then (Inr (H (us_hash ss)), s)
                      else FileSHA256 H (us_tmp ss) s) in
        case r of Inl _ \<Rightarrow> (Inl UploadOs, ss, s)
        | Inr h \<Rightarrow>
          if us_sha ss \<noteq> '''' \<and> h \<noteq> us_sha ss then (Inl ShaMismatch, ss, snd (remove (us_tmp ss) s))
          else
            let (ok, s) = chmod (us_tmp ss) (us_mode ss) s in
            if \<not> ok then (Inl UploadOs, ss, s) else
            let (ok, s) = rename (us_tmp ss) (us_dest ss) s in
            if \<not> ok then (Inl UploadOs, ss, s) else
            (Inr (us_dest ss, h), ss, s))"

definition commitUpload ::
  "(byte list \<Rightarrow> string) \<Rightarrow> string \<Rightarrow> uploads \<Rightarrow> sys \<Rightarrow> (upload_error + path \<times> string) \<times> uploads \<times> sys" where
  "commitUpload H i a s =
     (case getUpload i a of None \<Rightarrow> (Inl UnknownSession, a, s)
      | Some ss \<Rightarrow> (let (r, ss, s) = session_commit H ss s in
          (r, case r of Inl _ \<Rightarrow> put_session i ss a | Inr _ \<Rightarrow> del_session i a, s)))"

section \<open>The running hash is the hash of the file\<close>

text \<open>
  The invariant of an open session: its file exists, the high-water mark is not negative, and while
  \<open>hashed\<close> is not negative the bytes hashed so far are the whole file.
\<close>

definition session_ok :: "upload_session \<Rightarrow> sys \<Rightarrow> bool" where
  "session_ok ss s \<longleftrightarrow> 0 \<le> us_written ss
     \<and> - (2 ^ 63) \<le> us_hashed ss \<and> us_hashed ss < 2 ^ 63
     \<and> (us_open ss \<longrightarrow> (\<exists>f. sy_files s (us_tmp ss) = Some f
         \<and> (0 \<le> us_hashed ss \<longrightarrow> us_hash ss = fl_data f \<and> us_hashed ss = int (length (fl_data f)))))"

lemma wrap64_range: "- (2 ^ 63) \<le> wrap64 i" "wrap64 i < 2 ^ 63"
proof -
  have "0 \<le> (i + 2 ^ 63) mod 2 ^ 64" "(i + 2 ^ 63) mod 2 ^ 64 < 2 ^ 64"
    by (rule pos_mod_sign, simp, rule pos_mod_bound, simp)
  then show "- (2 ^ 63) \<le> wrap64 i" "wrap64 i < 2 ^ 63"
    by (simp_all add: wrap64_def)
qed

lemma wrap64_id: "- (2 ^ 63) \<le> i \<Longrightarrow> i < 2 ^ 63 \<Longrightarrow> wrap64 i = i"
  by (simp add: wrap64_def)

lemma wrap64_over: "2 ^ 63 \<le> i \<Longrightarrow> i < 2 ^ 64 \<Longrightarrow> wrap64 i < 0"
proof -
  assume a: "2 ^ 63 \<le> i" "i < 2 ^ 64"
  have "(i + 2 ^ 63) mod 2 ^ 64 = (i - 2 ^ 63) mod 2 ^ 64"
    using mod_add_self2 [of "i - 2 ^ 63" "2 ^ 64 :: int"] by (simp add: add.commute)
  also have "\<dots> = i - 2 ^ 63" using a by (intro mod_pos_pos_trivial) auto
  finally show "wrap64 i < 0" using a by (simp add: wrap64_def)
qed

lemma session_write_ok:
  assumes ok: "session_ok ss s" and w: "session_write ss offset data s = (r, ss', s')"
    and len: "length data < 2 ^ 31"
  shows "session_ok ss' s' \<and> same_except {us_tmp ss} s s'
    \<and> us_tmp ss' = us_tmp ss \<and> us_dest ss' = us_dest ss \<and> us_sha ss' = us_sha ss
    \<and> us_size ss' = us_size ss \<and> us_open ss' = us_open ss"
proof (cases "us_open ss \<and> \<not> (us_size ss > 0 \<and> wrap64 (offset + int (length data)) > us_size ss)")
  case False
  then have "ss' = ss" "s' = s" using w by (auto simp: session_write_def split: if_splits)
  then show ?thesis using ok by simp
next
  case True
  obtain n okw s1 where wr:
    "(if offset < 0 then (0, False, s) else write_at (us_tmp ss) (nat offset) data s) = (n, okw, s1)"
    by (cases "if offset < 0 then (0, False, s) else write_at (us_tmp ss) (nat offset) data s") auto
  define ss1 where "ss1 = (if offset = us_hashed ss
     then ss\<lparr>us_hash := us_hash ss @ take n data, us_hashed := wrap64 (us_hashed ss + int n)\<rparr>
     else ss\<lparr>us_hashed := -1\<rparr>)"
  have step: "(r, ss', s') = (if \<not> okw then ((n, Some UploadOs), ss1, s1)
     else ((n, None), if wrap64 (offset + int n) > us_written ss1
       then ss1\<lparr>us_written := wrap64 (offset + int n)\<rparr> else ss1, s1))"
    using True unfolding w [symmetric] session_write_def wr ss1_def Let_def by auto
  have w0: "0 \<le> us_written ss1" using ok by (simp add: ss1_def session_ok_def)
  have res: "s' = s1" using step by (auto split: if_splits)
  have res': "ss' = ss1 \<or> (\<exists>en\<ge>0. ss' = ss1\<lparr>us_written := en\<rparr>)"
  proof (cases "okw \<and> wrap64 (offset + int n) > us_written ss1")
    case True
    then have "ss' = ss1\<lparr>us_written := wrap64 (offset + int n)\<rparr>" using step by simp
    then show ?thesis using True w0 by (intro disjI2 exI [of _ "wrap64 (offset + int n)"]) auto
  qed (use step in \<open>auto split: if_splits\<close>)
  obtain f where f: "sy_files s (us_tmp ss) = Some f"
    and hs: "0 \<le> us_hashed ss \<Longrightarrow> us_hash ss = fl_data f \<and> us_hashed ss = int (length (fl_data f))"
    using ok True by (auto simp: session_ok_def)
  have n: "n \<le> length data" "offset < 0 \<Longrightarrow> n = 0" and se: "same_except {us_tmp ss} s s1"
    using wr write_at_files(1,2) by (auto split: if_splits)
  obtain f' where f': "sy_files s1 (us_tmp ss) = Some f'"
    and d': "0 \<le> offset \<Longrightarrow> fl_data f' = splice (fl_data f) (nat offset) (take n data)"
    using wr f write_at_files(4) [of "us_tmp ss" "nat offset" data s n okw s1 f]
    by (auto split: if_splits)
  have keep: "us_tmp ss1 = us_tmp ss" "us_dest ss1 = us_dest ss" "us_sha ss1 = us_sha ss"
    "us_size ss1 = us_size ss" "us_open ss1 = us_open ss" "us_written ss1 = us_written ss"
    by (simp_all add: ss1_def)
  have range: "- (2 ^ 63) \<le> us_hashed ss1" "us_hashed ss1 < 2 ^ 63"
    using wrap64_range by (auto simp: ss1_def)
  have "us_hash ss1 = fl_data f' \<and> us_hashed ss1 = int (length (fl_data f'))" if h: "0 \<le> us_hashed ss1"
  proof -
    have off: "offset = us_hashed ss" using h by (auto simp: ss1_def split: if_splits)
    have h0: "0 \<le> us_hashed ss"
    proof (rule ccontr)
      assume "\<not> 0 \<le> us_hashed ss"
      then show False
        using h off n(2) ok wrap64_id [of "us_hashed ss"] by (simp add: ss1_def session_ok_def)
    qed
    note H = hs [OF h0]
    have sum: "us_hashed ss + int n < 2 ^ 64" using ok n(1) len by (simp add: session_ok_def)
    then have "us_hashed ss + int n < 2 ^ 63"
      using h wrap64_over [of "us_hashed ss + int n"] off by (force simp: ss1_def)
    then have "us_hashed ss1 = us_hashed ss + int n"
      using wrap64_id [of "us_hashed ss + int n"] h0 off by (simp add: ss1_def)
    moreover have "fl_data f' = fl_data f @ take n data" using d' off h0 H by simp
    ultimately show ?thesis using H off n(1) by (simp add: ss1_def)
  qed
  then have "session_ok ss1 s1" using ok keep range f' by (auto simp: session_ok_def)
  then have "session_ok ss' s1" using res' by (auto simp: session_ok_def)
  then show ?thesis using res res' se keep by auto
qed

lemma commit_hash_sound:
  assumes ok: "session_ok ss s" "us_open ss" and f: "sy_files s (us_tmp ss) = Some f"
    and r: "(if us_hashed ss = us_written ss then (Inr (H (us_hash ss)), s)
             else FileSHA256 H (us_tmp ss) s) = (Inr h, s')"
  shows "h = H (fl_data f) \<and> sy_files s' = sy_files s"
proof (cases "us_hashed ss = us_written ss")
  case True
  then show ?thesis using r ok f by (auto simp: session_ok_def)
next
  case False
  then show ?thesis using r f FileSHA256_sound [of H "us_tmp ss" s h s'] FileSHA256_files by fastforce
qed

lemma session_commit_ok:
  assumes ok: "session_ok ss s" and c: "session_commit H ss s = (Inr (d, h), ss', s')"
  shows "\<exists>f g. sy_files s (us_tmp ss) = Some f \<and> sy_files s' (us_dest ss) = Some g \<and> fl_data g = fl_data f
    \<and> fl_mode g = us_mode ss \<and> d = us_dest ss \<and> h = H (fl_data f) \<and> (us_sha ss \<noteq> [] \<longrightarrow> h = us_sha ss)
    \<and> (us_size ss > 0 \<longrightarrow> us_sha ss \<noteq> [] \<and> us_written ss = us_size ss)
    \<and> (us_tmp ss \<noteq> us_dest ss \<longrightarrow> sy_files s' (us_tmp ss) = None)
    \<and> same_except {us_tmp ss, us_dest ss} s s'"
proof -
  obtain ok1 s1 where sy: "sync (us_tmp ss) s = (ok1, s1)" by fastforce
  obtain ok2 s2 where cl: "close s1 = (ok2, s2)" by fastforce
  obtain r3 s3 where hs: "(if us_hashed ss = us_written ss then (Inr (H (us_hash ss)), s2)
      else FileSHA256 H (us_tmp ss) s2) = (r3, s3)" by (meson surj_pair)
  obtain ok4 s4 where ch: "chmod (us_tmp ss) (us_mode ss) s3 = (ok4, s4)" by fastforce
  obtain ok5 s5 where rn: "rename (us_tmp ss) (us_dest ss) s4 = (ok5, s5)" by fastforce
  have fs: "sy_files s2 = sy_files s" using sync_files [OF sy] close_files [OF cl] by simp
  have g: "us_open ss" "\<not> (us_size ss > 0 \<and> us_written ss \<noteq> us_size ss)"
    "\<not> (us_size ss > 0 \<and> us_sha ss = [])" "r3 = Inr h" "us_sha ss \<noteq> [] \<longrightarrow> h = us_sha ss"
    "ok4" "ok5" "d = us_dest ss" "s' = s5"
    using c sy cl hs ch rn
    by (auto simp: session_commit_def Let_def split: if_splits sum.splits)
  obtain f where f: "sy_files s (us_tmp ss) = Some f" using ok g(1) by (auto simp: session_ok_def)
  have ok2': "session_ok ss s2" using ok fs by (simp add: session_ok_def)
  have "h = H (fl_data f) \<and> sy_files s3 = sy_files s2"
    by (rule commit_hash_sound [OF ok2' g(1) _ hs [unfolded g(4)]]) (simp add: fs f)
  then have h: "h = H (fl_data f)" "sy_files s3 = sy_files s" using fs by simp_all
  note C = chmod_files [OF ch] and R = rename_done [OF rn [unfolded eqTrueI [OF g(7)]]]
  obtain g where gg: "sy_files s4 (us_tmp ss) = Some g" "fl_mode g = us_mode ss" "fl_data g = fl_data f"
    using C(2,3) g(6) h(2) f by auto
  have "sy_files s5 (us_dest ss) = Some g" "us_tmp ss \<noteq> us_dest ss \<longrightarrow> sy_files s5 (us_tmp ss) = None"
    using R(2) gg by auto
  moreover have "same_except {us_tmp ss, us_dest ss} s s5" using C(1) R(1) h(2) by (auto simp: same_except_def)
  ultimately show ?thesis using f gg g h by blast
qed

text \<open>The part file is synced before it is renamed: a boot finds at the destination what it could find before, or the file.\<close>

lemma session_commit_boot:
  assumes ok: "session_ok ss s" and c: "session_commit H ss s = (Inr (d, h), ss', s')" and ne: "us_tmp ss \<noteq> us_dest ss"
    and f: "sy_files s' (us_dest ss) = Some f"
  shows "sy_boot s' (us_dest ss) \<subseteq> insert (Some (fl_data f)) (sy_boot s (us_dest ss))"
proof -
  obtain ok1 s1 where sy: "sync (us_tmp ss) s = (ok1, s1)" by fastforce
  obtain ok2 s2 where cl: "close s1 = (ok2, s2)" by fastforce
  obtain r3 s3 where hs: "(if us_hashed ss = us_written ss then (Inr (H (us_hash ss)), s2)
      else FileSHA256 H (us_tmp ss) s2) = (r3, s3)" by (meson surj_pair)
  obtain ok4 s4 where ch: "chmod (us_tmp ss) (us_mode ss) s3 = (ok4, s4)" by fastforce
  obtain ok5 s5 where rn: "rename (us_tmp ss) (us_dest ss) s4 = (ok5, s5)" by fastforce
  have g: "us_open ss" "ok1" "ok4" "ok5" "s' = s5"
    using c sy cl hs ch rn
    by (auto simp: session_commit_def Let_def split: if_splits sum.splits)
  obtain f0 where f0: "sy_files s (us_tmp ss) = Some f0" using ok g(1) by (auto simp: session_ok_def)
  have m3: "medium s3 = medium s2"
    using hs stat_medium by (auto simp: FileSHA256_def read_file_def split: if_splits prod.splits option.splits dest!: stat_medium)
  note m = close_medium [OF cl] m3 chmod_boot [OF ch]
  have "us_tmp ss \<in> sy_synced s4" using sync_boot(2) [OF sy g(2) f0] m by (simp add: medium_eq)
  moreover have "sy_boot s4 (us_dest ss) = sy_boot s (us_dest ss)"
    using sync_boot(1) [OF sy] m ne by (simp add: medium_eq boot_same_except_def)
  moreover have "sy_files s4 (us_tmp ss) = Some f"
    using rename_done(2) [OF rn [unfolded eqTrueI [OF g(4)]]] f g(5) by auto
  ultimately show ?thesis using rename_boot(2) [OF rn _ _ ne] g(5) by metis
qed

lemma map_of_put_session [simp]: "map_of (put_session i ss a) j = (if j = i then Some ss else map_of a j)"
proof -
  have "map_of (filter (\<lambda>(k, _). k \<noteq> i) a) j = map_of a j" if "j \<noteq> i"
    using that by (induction a) auto
  then show ?thesis by (simp add: put_session_def)
qed

lemma map_of_del_session [simp]: "map_of (del_session i a) i = None"
  by (induction a) (auto simp: del_session_def)

lemma length_put_session: "length (put_session i ss a) \<le> Suc (length a)"
  by (simp add: put_session_def)

lemma length_put_session_replace: "i \<in> fst ` set a \<Longrightarrow> length (put_session i ss a) \<le> length a"
proof -
  assume "i \<in> fst ` set a"
  then obtain b where "(i, b) \<in> set a" by force
  then have "length (filter (\<lambda>(j, _). j \<noteq> i) a) < length a"
    by (rule length_filter_less) simp
  then show ?thesis by (simp add: put_session_def)
qed

text \<open>
  A chunk that is not empty and ends below \<open>2^63\<close> (where the sum of \<open>writeUpload\<close> would wrap). Over such
  chunks the high-water mark is covered by the file, and the file stays within the declared size.
\<close>

definition sound_chunk :: "int \<times> byte list \<Rightarrow> bool" where
  "sound_chunk c \<longleftrightarrow> snd c \<noteq> [] \<and> fst c + int (length (snd c)) < 2 ^ 63"

definition sized_ok :: "upload_session \<Rightarrow> sys \<Rightarrow> bool" where
  "sized_ok ss s \<longleftrightarrow> (\<forall>f. sy_files s (us_tmp ss) = Some f \<longrightarrow> us_size ss > 0 \<longrightarrow>
     us_written ss \<le> int (length (fl_data f)) \<and> int (length (fl_data f)) \<le> us_size ss)"

text \<open>The session a new upload starts with, and where its bytes go until the commit.\<close>

definition part_path :: "path \<Rightarrow> string \<Rightarrow> path" where
  "part_path dest i = rooted (butlast (clean_rooted dest) @ [''.'' @ i @ ''.part''])"

lemma newUpload_session:
  assumes "newUpload now dest sz sha mode a s = (Inr i, a', s')"
  shows "\<exists>ss. getUpload i a' = Some ss \<and> session_ok ss s' \<and> us_open ss \<and> us_dest ss = rooted (clean_rooted dest)
    \<and> us_sha ss = to_lower sha \<and> us_size ss = sz \<and> sized_ok ss s' \<and> us_tmp ss = part_path dest i"
proof -
  let ?es = "clean_rooted dest"
  obtain ok1 s1 where m: "mkdir_all (rooted (butlast ?es)) s = (ok1, s1)" by fastforce
  obtain a2 s2 where e: "evictStale now a s1 = (a2, s2)" by fastforce
  let ?i = "''up-'' @ base36 (nat now)"
  let ?t = "rooted (butlast ?es @ [''.'' @ ?i @ ''.part''])"
  obtain ok3 s3 where o: "open_trunc ?t 0x180 s2 = (ok3, s3)" by fastforce
  have g: "ok1" "\<not> 8 \<le> length a2" "ok3" "i = ?i" "s' = s3"
    "a' = put_session ?i \<lparr>us_id = ?i, us_dest = rooted ?es, us_tmp = ?t, us_open = True, us_size = sz,
       us_sha = to_lower sha, us_mode = (if mode = 0 then 0x1ED else mode), us_written = 0,
       us_created = now, us_hash = [], us_hashed = 0\<rparr> a2"
    using assms m e o by (auto simp: newUpload_def Let_def split: if_splits)
  show ?thesis
    using open_trunc_files(2) [OF o] g by (auto simp: getUpload_def session_ok_def sized_ok_def part_path_def)
qed

definition write_chunks :: "string \<Rightarrow> (int \<times> byte list) list \<Rightarrow> uploads \<times> sys \<Rightarrow> uploads \<times> sys" where
  "write_chunks i cs as = fold (\<lambda>(off, d) (a, s). snd (writeUpload i off d a s)) cs as"

lemma write_chunks_session:
  assumes "getUpload i a = Some ss" "session_ok ss s" "\<forall>(off, d) \<in> set cs. length d < 2 ^ 31"
    and "write_chunks i cs (a, s) = (a', s')"
  shows "\<exists>ss'. getUpload i a' = Some ss' \<and> session_ok ss' s' \<and> us_dest ss' = us_dest ss \<and> us_tmp ss' = us_tmp ss
    \<and> us_sha ss' = us_sha ss \<and> us_size ss' = us_size ss"
  using assms
proof (induction cs arbitrary: a s ss)
  case Nil
  then show ?case by (simp add: write_chunks_def)
next
  case (Cons c cs)
  obtain off d where c: "c = (off, d)" by fastforce
  obtain r ss1 s1 where w: "session_write ss off d s = (r, ss1, s1)"
    by (cases "session_write ss off d s") auto
  have len: "length d < 2 ^ 31" using Cons.prems(3) c by simp
  note k = session_write_ok [OF Cons.prems(2) w len]
  have g1: "getUpload i (put_session i ss1 a) = Some ss1" by (simp add: getUpload_def)
  have "write_chunks i cs (put_session i ss1 a, s1) = (a', s')"
    using Cons.prems(1,4) c w by (simp add: write_chunks_def writeUpload_def)
  from Cons.IH [OF g1 _ _ this] k Cons.prems(3) show ?case by auto
qed

section \<open>The size check\<close>

lemma length_splice: "length (splice b off d) = (if d = [] then length b else max (off + length d) (length b))"
  by (auto simp: splice_def)

lemma session_write_sized:
  assumes ok: "sized_ok ss s" and w: "session_write ss off d s = (r, ss', s')" and c: "sound_chunk (off, d)"
    and ex: "us_open ss \<longrightarrow> (\<exists>f. sy_files s (us_tmp ss) = Some f)"
  shows "sized_ok ss' s'"
proof (cases "us_open ss \<and> \<not> (us_size ss > 0 \<and> wrap64 (off + int (length d)) > us_size ss) \<and> 0 \<le> off \<and> us_size ss > 0")
  case False
  then have "us_tmp ss' = us_tmp ss \<and> us_size ss' = us_size ss
      \<and> (us_size ss > 0 \<longrightarrow> us_written ss' = us_written ss \<and> s' = s)"
    using w by (auto simp: session_write_def Let_def split: if_splits prod.splits)
  then show ?thesis using ok by (auto simp: sized_ok_def)
next
  case True
  obtain n okw s1 where wr: "write_at (us_tmp ss) (nat off) d s = (n, okw, s1)"
    by (cases "write_at (us_tmp ss) (nat off) d s") auto
  have en: "wrap64 (off + int (length d)) = off + int (length d)"
    using True c by (intro wrap64_id) (auto simp: sound_chunk_def)
  obtain f where f: "sy_files s (us_tmp ss) = Some f" using ex True by blast
  note W = write_at_files [OF wr]
  obtain f' where f': "sy_files s1 (us_tmp ss) = Some f'" "fl_data f' = splice (fl_data f) (nat off) (take n d)"
    using W(4) [OF f] by blast
  have l0: "us_written ss \<le> int (length (fl_data f))" "int (length (fl_data f)) \<le> us_size ss"
    using ok f True by (auto simp: sized_ok_def)
  have le: "off + int n \<le> us_size ss" using True en W(2) by auto
  have len: "int (length (fl_data f')) \<le> us_size ss" "us_written ss \<le> int (length (fl_data f'))"
    "okw \<longrightarrow> off + int n \<le> int (length (fl_data f'))"
    using l0 le W(2,3) True c by (auto simp: f'(2) length_splice sound_chunk_def)
  have enw: "okw \<Longrightarrow> wrap64 (off + int n) = off + int n" using en W(3) by simp
  have "s' = s1 \<and> us_tmp ss' = us_tmp ss \<and> us_size ss' = us_size ss
      \<and> us_written ss' \<le> (if okw then max (us_written ss) (off + int n) else us_written ss)"
    using w True wr enw by (auto simp: session_write_def Let_def split: if_splits)
  then show ?thesis using len f' by (auto simp: sized_ok_def split: if_splits)
qed

lemma write_chunks_sized:
  assumes "getUpload i a = Some ss" "session_ok ss s" "sized_ok ss s" "\<forall>c \<in> set cs. length (snd c) < 2 ^ 31 \<and> sound_chunk c"
    and "write_chunks i cs (a, s) = (a', s')" and "getUpload i a' = Some ss'"
  shows "sized_ok ss' s'"
  using assms
proof (induction cs arbitrary: a s ss)
  case Nil
  then show ?case by (simp add: write_chunks_def)
next
  case (Cons c cs)
  obtain off d where c: "c = (off, d)" by fastforce
  obtain r ss1 s1 where w: "session_write ss off d s = (r, ss1, s1)"
    by (cases "session_write ss off d s") auto
  have len: "length d < 2 ^ 31" "sound_chunk (off, d)" using Cons.prems(4) c by simp_all
  have "us_open ss \<longrightarrow> (\<exists>f. sy_files s (us_tmp ss) = Some f)" using Cons.prems(2) by (auto simp: session_ok_def)
  note z = session_write_sized [OF Cons.prems(3) w len(2) this]
  note k = session_write_ok [OF Cons.prems(2) w len(1)]
  have g1: "getUpload i (put_session i ss1 a) = Some ss1" by (simp add: getUpload_def)
  have "write_chunks i cs (put_session i ss1 a, s1) = (a', s')"
    using Cons.prems(1,5) c w by (simp add: write_chunks_def writeUpload_def)
  from Cons.IH [OF g1 _ z _ this Cons.prems(6)] k Cons.prems(4) show ?case by auto
qed

text \<open>
  C4: An upload that commits delivers what was declared. From the opening of a session, whatever
  chunks are written to it, in any order, overlapping, failing part-way or refused, if the commit
  reports success then the destination holds a complete file whose hash is the sum returned (read
  back from the file, or kept while chunks arrived in order, which is the same), it is the declared
  one when one was declared, one was declared whenever a size was, and the session is gone. When a
  size was declared and no chunk was empty or reached \<open>2^63\<close>, the file has exactly that many bytes.
  After a power cut a boot finds at the destination the whole file or what it could have found before
  the commit, unless the destination is named like the part file.
\<close>

theorem committed_upload_is_declared:
  assumes "newUpload now dest sz sha mode a s = (Inr i, a1, s1)"
    and "\<forall>(off, d) \<in> set cs. length d < 2 ^ 31"
    and "write_chunks i cs (a1, s1) = (a2, s2)"
    and "commitUpload H i a2 s2 = (Inr (p, h), a3, s3)"
  shows "p = rooted (clean_rooted dest) \<and> getUpload i a3 = None
    \<and> (\<exists>g. sy_files s3 p = Some g \<and> h = H (fl_data g)
         \<and> (sz > 0 \<longrightarrow> (\<forall>c \<in> set cs. sound_chunk c) \<longrightarrow> int (length (fl_data g)) = sz)
         \<and> (part_path dest i \<noteq> p \<longrightarrow> (\<forall>m. may_find s3 m \<longrightarrow> m p \<in> sy_boot s2 p \<or> m p = Some (fl_data g))))
    \<and> (sha \<noteq> [] \<longrightarrow> h = to_lower sha) \<and> (sz > 0 \<longrightarrow> sha \<noteq> [])"
proof -
  obtain ss where ss: "getUpload i a1 = Some ss" "session_ok ss s1" "us_dest ss = rooted (clean_rooted dest)"
    "us_sha ss = to_lower sha" "us_size ss = sz" "sized_ok ss s1" "us_tmp ss = part_path dest i"
    using newUpload_session [OF assms(1)] by blast
  obtain ss' where ss': "getUpload i a2 = Some ss'" "session_ok ss' s2" "us_dest ss' = us_dest ss"
    "us_sha ss' = us_sha ss" "us_size ss' = us_size ss" "us_tmp ss' = us_tmp ss"
    using write_chunks_session [OF ss(1,2) assms(2,3)] by blast
  have sized: "\<forall>c \<in> set cs. sound_chunk c \<Longrightarrow> sized_ok ss' s2"
    using write_chunks_sized [OF ss(1,2,6) _ assms(3) ss'(1)] assms(2) by (auto simp: split_beta)
  obtain ss'' where c: "session_commit H ss' s2 = (Inr (p, h), ss'', s3)" and a3: "a3 = del_session i a2"
    using assms(4) ss'(1) by (auto simp: commitUpload_def split: prod.splits sum.splits)
  have sha: "to_lower sha = [] \<longleftrightarrow> sha = []" by (simp add: to_lower_def)
  obtain f g where C: "sy_files s2 (us_tmp ss') = Some f" "sy_files s3 (us_dest ss') = Some g" "fl_data g = fl_data f"
    "p = us_dest ss'" "h = H (fl_data f)" "us_sha ss' \<noteq> [] \<longrightarrow> h = us_sha ss'"
    "us_size ss' > 0 \<longrightarrow> us_sha ss' \<noteq> [] \<and> us_written ss' = us_size ss'"
    using session_commit_ok [OF ss'(2) c] by blast
  have "int (length (fl_data g)) = sz" if "sz > 0" "\<forall>c \<in> set cs. sound_chunk c"
    using sized [OF that(2)] C(1,3,7) ss'(5) ss(5) that(1) by (auto simp: sized_ok_def)
  moreover have "m p \<in> sy_boot s2 p \<or> m p = Some (fl_data g)" if "part_path dest i \<noteq> p" "may_find s3 m" for m
    using session_commit_boot [OF ss'(2) c _ C(2)] that ss(7) ss'(6) C(4) by (auto simp: may_find_def)
  ultimately show ?thesis
    using C ss ss' a3 sha by (auto simp: getUpload_def)
qed

lemma committed_upload_is_declared_witness:
  "\<exists>a3 s3. commitUpload (\<lambda>b. ''x'') ''up-7'' (fst (write_chunks ''up-7'' [(1, [2, 3]), (0, [1])]
       (snd (newUpload 7 ''/d//./x'' 3 ''X'' 0 [] (sample_sys [] [])))))
       (snd (write_chunks ''up-7'' [(1, [2, 3]), (0, [1])]
       (snd (newUpload 7 ''/d//./x'' 3 ''X'' 0 [] (sample_sys [] []))))) = (Inr (''/d/x'', ''x''), a3, s3)
     \<and> getUpload ''up-7'' a3 = None \<and> (\<exists>g. sy_files s3 ''/d/x'' = Some g \<and> length (fl_data g) = 3)"
proof -
  define n where "n = newUpload 7 ''/d//./x'' 3 ''X'' 0 [] (sample_sys [] [])"
  define w where "w = write_chunks ''up-7'' [(1, [2, 3]), (0, [1])] (snd n)"
  define c where "c = commitUpload (\<lambda>b. ''x'') ''up-7'' (fst w) (snd w)"
  have "fst n = Inr ''up-7''" unfolding n_def by code_simp
  then have n: "newUpload 7 ''/d//./x'' 3 ''X'' 0 [] (sample_sys [] []) = (Inr ''up-7'', fst (snd n), snd (snd n))"
    by (simp add: n_def prod_eq_iff)
  have w: "write_chunks ''up-7'' [(1, [2, 3]), (0, [1])] (fst (snd n), snd (snd n)) = (fst w, snd w)"
    by (simp add: w_def)
  have "fst c = Inr (''/d/x'', ''x'')" unfolding c_def w_def n_def by code_simp
  then have c: "commitUpload (\<lambda>b. ''x'') ''up-7'' (fst w) (snd w) = (Inr (''/d/x'', ''x''), fst (snd c), snd (snd c))"
    by (simp add: c_def prod_eq_iff)
  have "\<forall>c \<in> set [(1, [2, 3 :: byte]), (0 :: int, [1])]. sound_chunk c" by (simp add: sound_chunk_def)
  then have "getUpload ''up-7'' (fst (snd c)) = None \<and> (\<exists>g. sy_files (snd (snd c)) ''/d/x'' = Some g \<and> length (fl_data g) = 3)"
    using committed_upload_is_declared [OF n _ w c] by auto
  with c show ?thesis unfolding w_def n_def by blast
qed

text \<open>
  Why empty chunks are left out: one at the declared size moves the high-water mark without a byte
  written, and the size check passes. Three bytes are declared, with the sum of the empty file; the
  commit succeeds and delivers no bytes.
\<close>

lemma empty_chunk_passes_size_check:
  "let (r, a, s) = newUpload 7 ''/d/x'' 3 ''e'' 0 [] (sample_sys [] []);
       (a, s) = write_chunks ''up-7'' [(3, [])] (a, s);
       (r, a, s) = commitUpload (\<lambda>b. if b = [] then ''e'' else ''x'') ''up-7'' a s
   in r = Inr (''/d/x'', ''e'') \<and> map_option fl_data (sy_files s ''/d/x'') = Some []"
  by code_simp

section \<open>The table stays small\<close>

lemma evictStale_young:
  "evictStale now a s = (a', s') \<Longrightarrow> length a' \<le> length a \<and> (\<forall>(i, ss) \<in> set a'. now - us_created ss \<le> ten_minutes)"
  by (auto simp: evictStale_def Let_def)

text \<open>
  At most eight sessions exist at any time: opening, writing and committing keep the table within
  eight entries, and once a new session is open no entry is older than ten minutes.
\<close>

theorem upload_sessions_bounded:
  assumes "length a \<le> 8"
  shows "length (fst (snd (newUpload now dest sz sha mode a s))) \<le> 8
    \<and> (\<forall>i a' s'. newUpload now dest sz sha mode a s = (Inr i, a', s') \<longrightarrow>
      (\<forall>(j, ss) \<in> set a'. now - us_created ss \<le> ten_minutes))
    \<and> length (fst (snd (writeUpload i off d a s))) \<le> 8
    \<and> length (fst (snd (commitUpload H i a s))) \<le> 8"
proof -
  let ?es = "clean_rooted dest"
  obtain ok1 s1 where m: "mkdir_all (rooted (butlast ?es)) s = (ok1, s1)" by fastforce
  obtain a2 s2 where e: "evictStale now a s1 = (a2, s2)" by fastforce
  let ?i = "''up-'' @ base36 (nat now)"
  let ?t = "rooted (butlast ?es @ [''.'' @ ?i @ ''.part''])"
  obtain ok3 s3 where o: "open_trunc ?t 0x180 s2 = (ok3, s3)" by fastforce
  note E = evictStale_young [OF e]
  define ss where "ss = \<lparr>us_id = ?i, us_dest = rooted ?es, us_tmp = ?t, us_open = True, us_size = sz,
       us_sha = to_lower sha, us_mode = (if mode = 0 then 0x1ED else mode), us_written = 0,
       us_created = now, us_hash = [], us_hashed = 0\<rparr>"
  have r: "newUpload now dest sz sha mode a s = (if \<not> is_abs dest then (Inl NotAbsolute, a, s)
      else if \<not> ok1 then (Inl UploadOs, a, s1) else if 8 \<le> length a2 then (Inl TooManySessions, a2, s2)
      else if \<not> ok3 then (Inl UploadOs, a2, s3) else (Inr ?i, put_session ?i ss a2, s3))"
    using m e o unfolding newUpload_def ss_def by (simp add: Let_def)
  have "length (fst (snd (newUpload now dest sz sha mode a s))) \<le> 8"
    using assms E length_put_session [of ?i ss a2] by (auto simp: r)
  moreover have "\<forall>i a' s'. newUpload now dest sz sha mode a s = (Inr i, a', s') \<longrightarrow>
      (\<forall>(j, ss) \<in> set a'. now - us_created ss \<le> ten_minutes)"
    using E by (auto simp: r put_session_def ss_def ten_minutes_def split: if_splits)
  moreover have "length (put_session i x a) \<le> 8" if "getUpload i a = Some y" for x y
  proof -
    have "i \<in> fst ` set a" using that by (force simp: getUpload_def dest: map_of_SomeD)
    then show ?thesis using length_put_session_replace [of i a x] assms by linarith
  qed
  moreover have "length (del_session i a) \<le> 8"
    using assms le_trans [OF length_filter_le] by (auto simp: del_session_def)
  ultimately show ?thesis
    using assms by (simp add: writeUpload_def commitUpload_def split: option.split prod.split sum.split)
qed

lemma upload_sessions_bounded_witness:
  "length (fst (snd (newUpload 7 ''/d/x'' 3 ''X'' 0 [] (sample_sys [] [])))) \<le> 8"
  using upload_sessions_bounded [of "[]" 7 "''/d/x''" 3 "''X''" 0 "sample_sys [] []"] by simp

end
