(* ===== verification/Watchdog.thy ===== *)
theory Watchdog
  imports Main "HOL-Library.Multiset"
begin

text \<open>
  The watchdog holder of \<open>ota/internal/watchdog/watchdog.go\<close>. \<open>Acquire\<close> opens the device outside
  the lock and installs it under the lock, the pet loop and \<open>Disarm\<close> run concurrently: the critical
  sections are functions on the device state, and their interleavings are a step relation over any
  number of callers.

  A channel is a number; \<open>wd_closed\<close> holds the closed ones. Each pet loop is at the head of its loop
  (\<^term>\<open>None\<close>: about to read \<open>w.stop\<close>) or waits in its select (\<open>Some c\<close>).
\<close>

datatype wd_write = Pet | Magic

record wd_device =
  wd_fd :: int
  wd_stop :: nat
  wd_lastPet :: int
  wd_petErr :: bool
  wd_closed :: "nat list"
  wd_chans :: nat
  wd_open :: "int list"
  wd_writes :: "(int \<times> wd_write) list"

definition NewDevice :: wd_device where
  "NewDevice = \<lparr>wd_fd = -1, wd_stop = 0, wd_lastPet = 0, wd_petErr = False, wd_closed = [], wd_chans = 0,
     wd_open = [], wd_writes = []\<rparr>"

text \<open>\<open>pet\<close>: \<open>werr\<close> and \<open>ierr\<close> are the failures of the write and of the ioctl.\<close>

definition pet :: "int \<Rightarrow> bool \<Rightarrow> bool \<Rightarrow> wd_device \<Rightarrow> wd_device" where
  "pet now werr ierr w =
     (if wd_fd w < 0 then w
      else w\<lparr>wd_writes := wd_writes w @ [(wd_fd w, Pet)], wd_lastPet := now, wd_petErr := (werr \<and> ierr)\<rparr>)"

text \<open>The section of \<open>Acquire\<close> after a successful open: \<^term>\<open>True\<close> when this call armed the device.\<close>

definition acquire_install :: "int \<Rightarrow> wd_device \<Rightarrow> bool \<times> wd_device" where
  "acquire_install fd w =
     (if wd_fd w \<ge> 0 then (False, w\<lparr>wd_open := remove1 fd (wd_open w)\<rparr>)
      else (True, w\<lparr>wd_fd := fd, wd_stop := Suc (wd_chans w), wd_chans := Suc (wd_chans w)\<rparr>))"

text \<open>
  \<open>Acquire\<close> run by one caller alone: each attempt to open gives a descriptor or fails, at a time;
  \<^term>\<open>None\<close> is the error after the deadline. An empty list of attempts leaves it retrying.
\<close>

datatype acquire_result = Armed | Failed | Retrying

fun acquire_loop :: "int \<Rightarrow> (int \<times> int option) list \<Rightarrow> wd_device \<Rightarrow> acquire_result \<times> wd_device" where
  "acquire_loop deadline [] w = (Retrying, w)"
| "acquire_loop deadline ((now, Some fd) # rest) w =
     (let (mine, w) = acquire_install fd (w\<lparr>wd_open := fd # wd_open w\<rparr>)
      in (Armed, if mine then pet now False False w else w))"
| "acquire_loop deadline ((now, None) # rest) w =
     (if now > deadline then (Failed, w) else acquire_loop deadline rest w)"

definition Acquire :: "int \<Rightarrow> int \<Rightarrow> (int \<times> int option) list \<Rightarrow> wd_device \<Rightarrow> acquire_result \<times> wd_device" where
  "Acquire start timeout tries w =
     (if wd_fd w \<ge> 0 then (Armed, w) else acquire_loop (start + timeout) tries w)"

text \<open>\<open>Disarm\<close>: \<^term>\<open>None\<close> is the panic of closing a channel that is closed.\<close>

definition Disarm :: "wd_device \<Rightarrow> wd_device option" where
  "Disarm w =
     (if wd_fd w < 0 then Some w
      else if wd_stop w \<in> set (wd_closed w) then None
      else Some (w\<lparr>wd_closed := wd_stop w # wd_closed w, wd_writes := wd_writes w @ [(wd_fd w, Magic)],
                   wd_open := remove1 (wd_fd w) (wd_open w), wd_fd := -1\<rparr>))"

record wd_status =
  ws_Armed :: bool
  ws_LastPet :: int
  ws_PetErr :: bool

definition WdStatus :: "wd_device \<Rightarrow> wd_status" where
  "WdStatus w = \<lparr>ws_Armed = (wd_fd w \<ge> 0), ws_LastPet = wd_lastPet w, ws_PetErr = wd_petErr w\<rparr>"

section \<open>Interleavings\<close>

record wd_world =
  ww_dev :: wd_device
  ww_pending :: "int list"
  ww_loops :: "nat option list"

definition wd_init :: wd_world where
  "wd_init = \<lparr>ww_dev = NewDevice, ww_pending = [], ww_loops = []\<rparr>"

text \<open>
  A caller that has opened the device but not yet taken the lock is in \<open>ww_pending\<close>. A loop that
  ticks pets and goes back to the head; one whose channel is closed returns.
\<close>

inductive wd_step :: "wd_world \<Rightarrow> wd_world \<Rightarrow> bool" where
  open_dev: "0 \<le> fd \<Longrightarrow> fd \<notin> set (wd_open (ww_dev x)) \<Longrightarrow>
    wd_step x (x\<lparr>ww_dev := (ww_dev x)\<lparr>wd_open := fd # wd_open (ww_dev x)\<rparr>, ww_pending := fd # ww_pending x\<rparr>)"
| lose: "fd \<in> set (ww_pending x) \<Longrightarrow> acquire_install fd (ww_dev x) = (False, w) \<Longrightarrow>
    wd_step x (x\<lparr>ww_dev := w, ww_pending := remove1 fd (ww_pending x)\<rparr>)"
| install: "fd \<in> set (ww_pending x) \<Longrightarrow> acquire_install fd (ww_dev x) = (True, w) \<Longrightarrow>
    wd_step x (x\<lparr>ww_dev := w, ww_pending := remove1 fd (ww_pending x), ww_loops := None # ww_loops x\<rparr>)"
| do_pet: "wd_step x (x\<lparr>ww_dev := pet now werr ierr (ww_dev x)\<rparr>)"
| loop_read: "i < length (ww_loops x) \<Longrightarrow> ww_loops x ! i = None \<Longrightarrow>
    wd_step x (x\<lparr>ww_loops := (ww_loops x)[i := Some (wd_stop (ww_dev x))]\<rparr>)"
| loop_tick: "i < length (ww_loops x) \<Longrightarrow> ww_loops x ! i = Some c \<Longrightarrow>
    wd_step x (x\<lparr>ww_dev := pet now werr ierr (ww_dev x), ww_loops := (ww_loops x)[i := None]\<rparr>)"
| loop_return: "i < length (ww_loops x) \<Longrightarrow> ww_loops x ! i = Some c \<Longrightarrow> c \<in> set (wd_closed (ww_dev x)) \<Longrightarrow>
    wd_step x (x\<lparr>ww_loops := take i (ww_loops x) @ drop (Suc i) (ww_loops x)\<rparr>)"
| disarm: "Disarm (ww_dev x) = Some w \<Longrightarrow> wd_step x (x\<lparr>ww_dev := w\<rparr>)"

inductive wd_reach :: "wd_world \<Rightarrow> bool" where
  wd_reach_init: "wd_reach wd_init"
| wd_reach_step: "wd_reach x \<Longrightarrow> wd_step x y \<Longrightarrow> wd_reach y"

inductive_cases wd_stepE: "wd_step x y"

definition wd_inv :: "wd_world \<Rightarrow> bool" where
  "wd_inv x \<longleftrightarrow> (let w = ww_dev x in
     - 1 \<le> wd_fd w \<and> (\<forall>fd \<in> set (ww_pending x). 0 \<le> fd)
     \<and> mset (wd_open w) = mset (ww_pending x) + (if wd_fd w \<ge> 0 then {#wd_fd w#} else {#})
     \<and> distinct (wd_open w)
     \<and> (\<forall>c \<in> set (wd_closed w). c \<le> wd_chans w)
     \<and> (wd_fd w \<ge> 0 \<longrightarrow> wd_stop w \<notin> set (wd_closed w) \<and> wd_stop w \<le> wd_chans w
          \<and> (\<exists>l \<in> set (ww_loops x). l = None \<or> l = Some (wd_stop w))))"

lemma wd_inv_init: "wd_inv wd_init"
  by (simp add: wd_inv_def wd_init_def NewDevice_def)

lemma pet_simps [simp]:
  "wd_fd (pet now a b w) = wd_fd w" "wd_stop (pet now a b w) = wd_stop w" "wd_closed (pet now a b w) = wd_closed w"
  "wd_chans (pet now a b w) = wd_chans w" "wd_open (pet now a b w) = wd_open w"
  by (simp_all add: pet_def)

lemma remove1_distinct_mset: "fd \<in> set xs \<Longrightarrow> mset (remove1 fd xs) = mset xs - {#fd#}"
  by simp

lemma wd_inv_install:
  assumes "wd_inv x" "fd \<in> set (ww_pending x)" "acquire_install fd (ww_dev x) = (True, w)"
  shows "wd_inv (x\<lparr>ww_dev := w, ww_pending := remove1 fd (ww_pending x), ww_loops := None # ww_loops x\<rparr>)"
proof -
  have fd: "wd_fd (ww_dev x) < 0" and w: "w = (ww_dev x)\<lparr>wd_fd := fd, wd_stop := Suc (wd_chans (ww_dev x)),
      wd_chans := Suc (wd_chans (ww_dev x))\<rparr>"
    using assms(3) by (auto simp: acquire_install_def split: if_splits)
  have f0: "0 \<le> fd" and cl: "\<forall>c \<in> set (wd_closed (ww_dev x)). c \<le> wd_chans (ww_dev x)"
    using assms by (auto simp: wd_inv_def Let_def)
  have "set (remove1 fd (ww_pending x)) \<subseteq> set (ww_pending x)" by (rule set_remove1_subset)
  then show ?thesis
    using assms(1,2) fd f0 cl unfolding w
    by (auto simp: wd_inv_def Let_def insert_DiffM2 in_multiset_in_set dest: order.trans [OF _ le_SucI])
qed

lemma wd_inv_lose:
  assumes "wd_inv x" "fd \<in> set (ww_pending x)" "acquire_install fd (ww_dev x) = (False, w)"
  shows "wd_inv (x\<lparr>ww_dev := w, ww_pending := remove1 fd (ww_pending x)\<rparr>)"
proof -
  have fd: "0 \<le> wd_fd (ww_dev x)" and w: "w = (ww_dev x)\<lparr>wd_open := remove1 fd (wd_open (ww_dev x))\<rparr>"
    using assms(3) by (auto simp: acquire_install_def split: if_splits)
  have "set (remove1 fd (ww_pending x)) \<subseteq> set (ww_pending x)" by (rule set_remove1_subset)
  then show ?thesis
    using assms(1,2) fd unfolding w by (auto simp: wd_inv_def Let_def distinct_remove1)
qed

lemma wd_inv_disarm:
  assumes "wd_inv x" "Disarm (ww_dev x) = Some w"
  shows "wd_inv (x\<lparr>ww_dev := w\<rparr>)"
proof (cases "wd_fd (ww_dev x) < 0")
  case True
  then have "w = ww_dev x" using assms(2) by (simp add: Disarm_def)
  then show ?thesis using assms(1) by simp
next
  case False
  then have "w = (ww_dev x)\<lparr>wd_closed := wd_stop (ww_dev x) # wd_closed (ww_dev x),
      wd_writes := wd_writes (ww_dev x) @ [(wd_fd (ww_dev x), Magic)],
      wd_open := remove1 (wd_fd (ww_dev x)) (wd_open (ww_dev x)), wd_fd := -1\<rparr>"
    using assms(2) by (auto simp: Disarm_def split: if_splits)
  then show ?thesis using assms(1) False by (auto simp: wd_inv_def Let_def distinct_remove1)
qed

lemma wd_inv_loops:
  assumes "wd_inv x" "i < length (ww_loops x)"
    and "l = None \<or> l = Some (wd_stop (ww_dev x))"
  shows "wd_inv (x\<lparr>ww_loops := (ww_loops x)[i := l]\<rparr>)"
proof -
  have "l \<in> set ((ww_loops x)[i := l])" using assms(2) by (rule set_update_memI)
  then show ?thesis using assms(1,3) by (auto simp: wd_inv_def Let_def)
qed

lemma wd_inv_return:
  assumes "wd_inv x" "i < length (ww_loops x)" "ww_loops x ! i = Some c" "c \<in> set (wd_closed (ww_dev x))"
  shows "wd_inv (x\<lparr>ww_loops := take i (ww_loops x) @ drop (Suc i) (ww_loops x)\<rparr>)"
proof -
  have "set (ww_loops x) = insert (Some c) (set (take i (ww_loops x) @ drop (Suc i) (ww_loops x)))"
    using id_take_nth_drop [OF assms(2)] assms(3) by (metis Un_insert_right list.simps(15) set_append)
  then show ?thesis using assms(1,4) by (auto simp: wd_inv_def Let_def)
qed

lemma wd_inv_pet: "wd_inv x \<Longrightarrow> wd_inv (x\<lparr>ww_dev := pet now a b (ww_dev x)\<rparr>)"
  by (simp add: wd_inv_def Let_def)

lemma wd_inv_step: "wd_step x y \<Longrightarrow> wd_inv x \<Longrightarrow> wd_inv y"
proof (induction rule: wd_step.induct)
  case (open_dev fd x)
  then show ?case by (auto simp: wd_inv_def Let_def)
next
  case (loop_tick i x c now werr ierr)
  then show ?case using wd_inv_loops [OF wd_inv_pet [of x now werr ierr], of i None] by simp
qed (auto intro: wd_inv_install wd_inv_lose wd_inv_disarm wd_inv_loops wd_inv_return wd_inv_pet)

lemma wd_reach_inv: "wd_reach x \<Longrightarrow> wd_inv x"
  by (induction rule: wd_reach.induct) (auto intro: wd_inv_init wd_inv_step)

text \<open>
  C8: Under every interleaving of acquirers, pet loops and disarms: while the device is armed some pet
  loop is alive that is waiting on the current stop channel or about to read it, so the countdown keeps
  being refreshed; every open descriptor is the armed one or belongs to an acquirer that still has to
  take the lock, so none leaks; and \<open>Disarm\<close> never closes a closed channel, stops no loop of a later
  arming, and leaves the device unarmed with the magic byte the last thing written.
\<close>

theorem watchdog_armed_is_petted:
  assumes "wd_reach x"
  shows "(0 \<le> wd_fd (ww_dev x) \<longrightarrow>
      (\<exists>l \<in> set (ww_loops x). l = None \<or> (l = Some (wd_stop (ww_dev x)) \<and> wd_stop (ww_dev x) \<notin> set (wd_closed (ww_dev x)))))
    \<and> mset (wd_open (ww_dev x)) = mset (ww_pending x) + (if 0 \<le> wd_fd (ww_dev x) then {#wd_fd (ww_dev x)#} else {#})
    \<and> (\<exists>w. Disarm (ww_dev x) = Some w \<and> \<not> ws_Armed (WdStatus w)
         \<and> (0 \<le> wd_fd (ww_dev x) \<longrightarrow> last (wd_writes w) = (wd_fd (ww_dev x), Magic)
             \<and> mset (wd_open w) = mset (ww_pending x)))"
proof -
  have i: "wd_inv x" using assms by (rule wd_reach_inv)
  then show ?thesis by (auto simp: wd_inv_def Let_def Disarm_def WdStatus_def)
qed

lemma watchdog_armed_is_petted_witness:
  "\<exists>x. wd_reach x \<and> 0 \<le> wd_fd (ww_dev x) \<and> (\<exists>l \<in> set (ww_loops x). l = None)"
proof -
  define x1 where "x1 = wd_init\<lparr>ww_dev := NewDevice\<lparr>wd_open := [5]\<rparr>, ww_pending := [5]\<rparr>"
  define x2 where "x2 = x1\<lparr>ww_dev := (ww_dev x1)\<lparr>wd_fd := 5, wd_stop := 1, wd_chans := 1\<rparr>, ww_pending := [],
    ww_loops := [None]\<rparr>"
  have "wd_step wd_init x1"
    using wd_step.open_dev [of 5 wd_init] by (simp add: x1_def wd_init_def NewDevice_def)
  moreover have "wd_step x1 x2"
    using wd_step.install [of 5 x1 "ww_dev x2"]
    by (simp add: x1_def x2_def wd_init_def NewDevice_def acquire_install_def)
  ultimately have r: "wd_reach x2" using wd_reach_init wd_reach_step by blast
  have "0 \<le> wd_fd (ww_dev x2)" by (simp add: x2_def)
  moreover have "\<exists>l \<in> set (ww_loops x2). l = None"
    using watchdog_armed_is_petted [OF r] by (simp add: x2_def)
  ultimately show ?thesis using r by blast
qed

text \<open>
  C13: One arming can have two pet loops: a loop that is between its tick and its next read of
  \<open>w.stop\<close> when the device is disarmed and armed again picks up the new channel and lives on beside
  the loop the second \<open>Acquire\<close> starts.
\<close>

theorem two_pet_loops_reachable:
  "\<exists>x. wd_reach x \<and> 0 \<le> wd_fd (ww_dev x) \<and> ww_loops x = [Some (wd_stop (ww_dev x)), Some (wd_stop (ww_dev x))]
     \<and> wd_stop (ww_dev x) \<notin> set (wd_closed (ww_dev x))"
proof -
  define d0 where "d0 = NewDevice\<lparr>wd_open := [5]\<rparr>"
  define d1 where "d1 = d0\<lparr>wd_fd := 5, wd_stop := 1, wd_chans := 1\<rparr>"
  define d2 where "d2 = d1\<lparr>wd_closed := [1], wd_writes := [(5, Magic)], wd_open := [], wd_fd := -1\<rparr>"
  define d3 where "d3 = d2\<lparr>wd_open := [6]\<rparr>"
  define d4 where "d4 = d3\<lparr>wd_fd := 6, wd_stop := 2, wd_chans := 2\<rparr>"
  note defs = d0_def d1_def d2_def d3_def d4_def NewDevice_def acquire_install_def Disarm_def wd_init_def
  have "wd_reach wd_init" by (rule wd_reach_init)
  then have "wd_reach \<lparr>ww_dev = d0, ww_pending = [5], ww_loops = []\<rparr>"
    by (rule wd_reach_step) (use wd_step.open_dev [of 5 wd_init] in \<open>simp add: defs\<close>)
  then have "wd_reach \<lparr>ww_dev = d1, ww_pending = [], ww_loops = [None]\<rparr>"
    by (rule wd_reach_step) (use wd_step.install [of 5 "\<lparr>ww_dev = d0, ww_pending = [5], ww_loops = []\<rparr>" d1] in \<open>simp add: defs\<close>)
  then have "wd_reach \<lparr>ww_dev = d2, ww_pending = [], ww_loops = [None]\<rparr>"
    by (rule wd_reach_step) (use wd_step.disarm [of "\<lparr>ww_dev = d1, ww_pending = [], ww_loops = [None]\<rparr>" d2] in \<open>simp add: defs\<close>)
  then have "wd_reach \<lparr>ww_dev = d3, ww_pending = [6], ww_loops = [None]\<rparr>"
    by (rule wd_reach_step) (use wd_step.open_dev [of 6 "\<lparr>ww_dev = d2, ww_pending = [], ww_loops = [None]\<rparr>"] in \<open>simp add: defs\<close>)
  then have "wd_reach \<lparr>ww_dev = d4, ww_pending = [], ww_loops = [None, None]\<rparr>"
    by (rule wd_reach_step) (use wd_step.install [of 6 "\<lparr>ww_dev = d3, ww_pending = [6], ww_loops = [None]\<rparr>" d4] in \<open>simp add: defs\<close>)
  then have "wd_reach \<lparr>ww_dev = d4, ww_pending = [], ww_loops = [Some 2, None]\<rparr>"
    by (rule wd_reach_step) (use wd_step.loop_read [of 0 "\<lparr>ww_dev = d4, ww_pending = [], ww_loops = [None, None]\<rparr>"] in \<open>simp add: defs\<close>)
  then have "wd_reach \<lparr>ww_dev = d4, ww_pending = [], ww_loops = [Some 2, Some 2]\<rparr>"
    by (rule wd_reach_step) (use wd_step.loop_read [of 1 "\<lparr>ww_dev = d4, ww_pending = [], ww_loops = [Some 2, None]\<rparr>"] in \<open>simp add: defs\<close>)
  then show ?thesis
    by (intro exI [of _ "\<lparr>ww_dev = d4, ww_pending = [], ww_loops = [Some 2, Some 2]\<rparr>"] conjI) (simp_all add: defs)
qed

end
