(* ===== verification/Handlers.thy ===== *)
theory Handlers
  imports Supervise StateFile Upload Watchdog
begin

text \<open>
  The control requests of \<open>ota/internal/agent/handlers.go\<close> that change state: uploads, the app's
  lifecycle and its A/B update, the agent's own update, and handing the instrument back. The
  supervisor's answer to a control request is an input (\<open>answered\<close>); the requests sent are recorded.
\<close>

datatype handler_error =
    SrcRequired | DestRequired | ShaDiffers string | NotTakenOver | NoBinaryIn string | StoreError slot_error
  | UploadError upload_error | SupervisorSilent | StateError | WriteFailed

record ota =
  ot_ag :: agent
  ot_sf :: stateFile
  ot_wd :: wd_device
  ot_ups :: uploads
  ot_ctl :: "ctlOp list"
  ot_agentA :: path
  ot_agentB :: path
  ot_agentActive :: path
  ot_agentSlot :: string
  ot_intentPath :: path

definition ot_sys :: "ota \<Rightarrow> sys" where "ot_sys o1 = ag_sys (ot_ag o1)"

definition put_sys :: "sys \<Rightarrow> ota \<Rightarrow> ota" where
  "put_sys s o1 = o1\<lparr>ot_ag := (ot_ag o1)\<lparr>ag_sys := s\<rparr>\<rparr>"

definition put_ag :: "agent \<Rightarrow> ota \<Rightarrow> ota" where
  "put_ag a o1 = o1\<lparr>ot_ag := a\<rparr>"

text \<open>\<open>ctlRequest\<close>: the request is queued, and answered or not.\<close>

definition ctlRequest :: "ctlOp \<Rightarrow> bool \<Rightarrow> ota \<Rightarrow> handler_error option \<times> ota" where
  "ctlRequest opr answered o1 =
     (if answered then None else Some SupervisorSilent, o1\<lparr>ot_ctl := ot_ctl o1 @ [opr]\<rparr>)"

section \<open>File transfer\<close>

definition hPutBegin :: "int \<Rightarrow> path \<Rightarrow> int \<Rightarrow> string \<Rightarrow> nat \<Rightarrow> ota \<Rightarrow> (handler_error + string) \<times> ota" where
  "hPutBegin now dest sz sha mode o1 =
     (if dest = [] then (Inl DestRequired, o1)
      else let (r, ups, s) = newUpload now dest sz sha mode (ot_ups o1) (ot_sys o1);
               o1 = put_sys s (o1\<lparr>ot_ups := ups\<rparr>)
           in (case r of Inl e \<Rightarrow> Inl (UploadError e) | Inr i \<Rightarrow> Inr i, o1))"

definition hPutChunk :: "string \<Rightarrow> int \<Rightarrow> byte list \<Rightarrow> ota \<Rightarrow> (nat \<times> handler_error option) \<times> ota" where
  "hPutChunk i off d o1 =
     (let ((n, e), ups, s) = writeUpload i off d (ot_ups o1) (ot_sys o1)
      in ((n, map_option UploadError e), put_sys s (o1\<lparr>ot_ups := ups\<rparr>)))"

definition hPutCommit ::
  "(byte list \<Rightarrow> string) \<Rightarrow> string \<Rightarrow> ota \<Rightarrow> (handler_error + path \<times> string) \<times> ota" where
  "hPutCommit H i o1 =
     (let (r, ups, s) = commitUpload H i (ot_ups o1) (ot_sys o1)
      in (case r of Inl e \<Rightarrow> Inl (UploadError e) | Inr p \<Rightarrow> Inr p, put_sys s (o1\<lparr>ot_ups := ups\<rparr>)))"

text \<open>\<open>get\<close>: at most 512 KiB a request; the reply's data, end-of-file flag and file size.\<close>

definition get_len :: "int \<Rightarrow> nat" where
  "get_len n = (if n \<le> 0 \<or> n > 512 * 1024 then 256 * 1024 else nat n)"

definition read_at :: "byte list \<Rightarrow> int \<Rightarrow> nat \<Rightarrow> byte list \<times> bool" where
  "read_at d off n = (if off < 0 then ([], True)
     else let m = take n (drop (nat off) d) in (m, length m < n))"

definition hGet :: "path \<Rightarrow> int \<Rightarrow> int \<Rightarrow> sys \<Rightarrow> (byte list \<times> bool \<times> nat) option \<times> sys" where
  "hGet p off len s =
     (let (f, s) = stat p s in
      case f of None \<Rightarrow> (None, s) | Some _ \<Rightarrow>
      let (fi, s) = stat p s in
      case fi of None \<Rightarrow> (None, s) | Some f \<Rightarrow>
      let n = get_len len;
          (m, ok, s) = partial_op n (\<lambda>_ s. s) s;
          (d, eof) = read_at (fl_data f) off n
      in (Some (take m d, eof \<or> \<not> ok, length (fl_data f)), s))"

section \<open>The app\<close>

definition hAppStart :: "bool \<Rightarrow> ota \<Rightarrow> handler_error option \<times> ota" where
  "hAppStart answered o1 =
     (if \<not> as_TakenOver (get_state (ot_sf o1)) then (Some NotTakenOver, o1)
      else ctlRequest OpStart answered (put_ag (clearFails (ot_ag o1)) o1))"

definition hAppStop :: "bool \<Rightarrow> ota \<Rightarrow> handler_error option \<times> ota" where
  "hAppStop answered o1 = ctlRequest OpStop answered o1"

definition hAppRestart :: "bool \<Rightarrow> ota \<Rightarrow> handler_error option \<times> ota" where
  "hAppRestart answered o1 =
     (if \<not> as_TakenOver (get_state (ot_sf o1)) then (Some NotTakenOver, o1)
      else ctlRequest OpRestart answered o1)"

text \<open>The declared hash of an update's source, compared without regard to case.\<close>

definition check_sha ::
  "(byte list \<Rightarrow> string) \<Rightarrow> path \<Rightarrow> string \<Rightarrow> sys \<Rightarrow> handler_error option \<times> sys" where
  "check_sha H src sha s =
     (if sha = [] then (None, s)
      else let (r, s) = FileSHA256 H src s in
        case r of Inl e \<Rightarrow> (Some (StoreError e), s)
        | Inr got \<Rightarrow> (if to_lower got \<noteq> to_lower sha then Some (ShaDiffers got) else None, s))"

definition restart_if_taken :: "bool \<Rightarrow> ota \<Rightarrow> ota" where
  "restart_if_taken answered o1 =
     (if as_TakenOver (get_state (ot_sf o1)) then snd (ctlRequest OpRestart answered o1) else o1)"

definition hAppUpdate ::
  "(byte list \<Rightarrow> string) \<Rightarrow> path \<Rightarrow> string \<Rightarrow> bool \<Rightarrow> ota \<Rightarrow> (handler_error + string \<times> string) \<times> ota" where
  "hAppUpdate H src sha answered o1 =
     (if src = [] then (Inl SrcRequired, o1) else
      let (bad, s) = check_sha H src sha (ot_sys o1);
          o1 = put_sys s o1 in
      case bad of Some e \<Rightarrow> (Inl e, o1) | None \<Rightarrow>
      let st = ag_store (ot_ag o1);
          (active, s) = Active st (ot_sys o1);
          target = Other active;
          (r, s) = Install H st target src s;
          o1 = put_sys s o1 in
      case r of Inl e \<Rightarrow> (Inl (StoreError e), o1) | Inr h \<Rightarrow>
      let (e, s) = SetActive st target (ot_sys o1);
          o1 = put_sys s o1 in
      case e of Some e \<Rightarrow> (Inl (StoreError e), o1) | None \<Rightarrow>
      let o1 = put_ag (clearFails (ot_ag o1)) o1
      in (Inr (target, h), restart_if_taken answered o1))"

definition hAppActivate :: "string \<Rightarrow> bool \<Rightarrow> ota \<Rightarrow> (handler_error + string) \<times> ota" where
  "hAppActivate v answered o1 =
     (let v = to_upper (TrimSpace v);
          st = ag_store (ot_ag o1);
          (has, s) = HasBinary st v (ot_sys o1);
          o1 = put_sys s o1 in
      if \<not> has then (Inl (NoBinaryIn v), o1) else
      let (e, s) = SetActive st v (ot_sys o1);
          o1 = put_sys s o1 in
      case e of Some e \<Rightarrow> (Inl (StoreError e), o1) | None \<Rightarrow>
      (Inr v, restart_if_taken answered (put_ag (clearFails (ot_ag o1)) o1)))"

section \<open>The agent itself\<close>

definition writeText :: "path \<Rightarrow> string \<Rightarrow> sys \<Rightarrow> bool \<times> sys" where
  "writeText p x s =
     (let (ok, s) = write_file (p @ ''.tmp'') 0x180 (str_bytes x) s
      in if \<not> ok then (False, s) else rename (p @ ''.tmp'') p s)"

definition markIntent :: "string \<Rightarrow> ota \<Rightarrow> ota" where
  "markIntent kind o1 = put_sys (snd (write_file (ot_intentPath o1) 0x180 (str_bytes (kind @ [CHR 10])) (ot_sys o1))) o1"

definition hAgentUpdate ::
  "(byte list \<Rightarrow> string) \<Rightarrow> path \<Rightarrow> string \<Rightarrow> ota \<Rightarrow> (handler_error + string \<times> string) \<times> ota" where
  "hAgentUpdate H src sha o1 =
     (if src = [] then (Inl SrcRequired, o1) else
      let (bad, s) = check_sha H src sha (ot_sys o1);
          o1 = put_sys s o1 in
      case bad of Some e \<Rightarrow> (Inl e, o1) | None \<Rightarrow>
      let (target, targetPath) = (if ot_agentSlot o1 = ''B'' then (''A'', ot_agentA o1) else (''B'', ot_agentB o1));
          (r, s) = CopyExecutable H src targetPath (ot_sys o1);
          o1 = put_sys s o1 in
      case r of Inl e \<Rightarrow> (Inl (StoreError e), o1) | Inr h \<Rightarrow>
      let (ok, s) = writeText (ot_agentActive o1) (target @ [CHR 10]) (ot_sys o1);
          o1 = put_sys s o1 in
      if \<not> ok then (Inl WriteFailed, o1) else (Inr (target, h), o1))"

text \<open>What the goroutine of \<open>agent.update\<close> and \<open>agent.restart\<close> does before the process exits.\<close>

definition exit_agent :: "string \<Rightarrow> ota \<Rightarrow> ota option" where
  "exit_agent kind o1 =
     (let o1 = markIntent kind o1 in
      case Disarm (ot_wd o1) of None \<Rightarrow> None | Some w \<Rightarrow> Some (o1\<lparr>ot_wd := w\<rparr>))"

definition hUntakeover :: "bool \<Rightarrow> ota \<Rightarrow> (handler_error option \<times> ota) option" where
  "hUntakeover answered o1 =
     (let (_, o1) = ctlRequest OpStop answered o1;
          (ok, sf, s) = update_state (\<lambda>x. x\<lparr>as_TakenOver := False, as_AutoTakeover := False\<rparr>) (ot_sf o1) (ot_sys o1);
          o1 = put_sys s (o1\<lparr>ot_sf := sf\<rparr>) in
      if \<not> ok then Some (Some StateError, o1)
      else let o1 = put_ag (clearFails (ot_ag o1)) o1 in
        case Disarm (ot_wd o1) of None \<Rightarrow> None | Some w \<Rightarrow> Some (None, o1\<lparr>ot_wd := w\<rparr>))"

section \<open>Downloads\<close>

text \<open>Successive requests, each at the offset the last one reached, until the end-of-file flag.\<close>

fun download :: "nat \<Rightarrow> path \<Rightarrow> nat \<Rightarrow> int \<Rightarrow> sys \<Rightarrow> byte list option" where
  "download 0 p off len s = None"
| "download (Suc k) p off len s =
     (case hGet p (int off) len s of
        (None, s) \<Rightarrow> None
      | (Some (d, eof, _), s) \<Rightarrow> if eof then Some d
          else map_option (\<lambda>r. d @ r) (download k p (off + length d) len s))"

lemma get_len_pos: "0 < get_len n"
  by (simp add: get_len_def)

lemma hGet_healthy:
  assumes "healthy s" "sy_files s p = Some f"
  shows "hGet p (int off) len s = (Some (take (get_len len) (drop off (fl_data f)),
     length (take (get_len len) (drop off (fl_data f))) < get_len len, length (fl_data f)), s)"
  using assms by (simp add: hGet_def read_at_def Let_def)

text \<open>
  A file fetched with \<open>get\<close> requests, whatever length the client asks for, arrives whole: as many
  requests as the file has bytes, plus one, reach the end-of-file flag, and the pieces in order are
  the file from the first offset on.
\<close>

theorem get_requests_fetch_the_file:
  assumes "healthy s" and "sy_files s p = Some f" and "length (fl_data f) - off < k"
  shows "download k p off len s = Some (drop off (fl_data f))"
  using assms(3)
proof (induction k arbitrary: off)
  case (Suc k)
  let ?n = "get_len len" and ?d = "fl_data f"
  have h: "hGet p (int off) len s = (Some (take ?n (drop off ?d), length (take ?n (drop off ?d)) < ?n, length ?d), s)"
    by (rule hGet_healthy [OF assms(1,2)])
  show ?case
  proof (cases "length (take ?n (drop off ?d)) < ?n")
    case True
    then have "take ?n (drop off ?d) = drop off ?d" by auto
    then show ?thesis using True h by simp
  next
    case False
    then have l: "length (take ?n (drop off ?d)) = ?n" "off + ?n \<le> length ?d" using get_len_pos [of len] by auto
    then have "length ?d - (off + ?n) < k" using Suc.prems get_len_pos [of len] by linarith
    from Suc.IH [OF this] have "download k p (off + ?n) len s = Some (drop (off + ?n) ?d)" .
    moreover have "take ?n (drop off ?d) @ drop (off + ?n) ?d = drop off ?d"
      by (metis add.commute append_take_drop_id drop_drop)
    ultimately show ?thesis using h l by simp
  qed
qed simp

lemma get_requests_fetch_the_file_witness:
  "download 4 ''/f'' 0 2 (sample_sys [(''/f'', [1, 2, 3])] []) = Some [1, 2, 3]"
  using get_requests_fetch_the_file [of "sample_sys [(''/f'', [1, 2, 3])] []" "''/f''" "blank_file [1, 2, 3] 1" 0 4 2]
  by (simp add: healthy_def sample_sys_def blank_file_def)

section \<open>Updates\<close>

lemma put_sys_simps [simp]:
  "ot_sys (put_sys s o1) = s" "ag_store (ot_ag (put_sys s o1)) = ag_store (ot_ag o1)"
  "ot_sf (put_sys s o1) = ot_sf o1" "ag_cfg (ot_ag (put_sys s o1)) = ag_cfg (ot_ag o1)"
  "ag_app (ot_ag (put_sys s o1)) = ag_app (ot_ag o1)" "ag_paused (ot_ag (put_sys s o1)) = ag_paused (ot_ag o1)"
  "put_sys s (put_sys t o1) = put_sys s o1"
  by (simp_all add: put_sys_def ot_sys_def)

lemma check_sha_files: "check_sha H src sha s = (e, s') \<Longrightarrow> sy_files s' = sy_files s"
  by (auto simp: check_sha_def split: if_splits prod.splits sum.splits dest: FileSHA256_files)

lemma check_sha_ok:
  assumes "check_sha H src sha s = (None, s')" "sy_files s src = Some f" "sha \<noteq> []"
  shows "to_lower (H (fl_data f)) = to_lower sha"
  using assms FileSHA256_sound [of H src s]
  by (auto simp: check_sha_def split: if_splits prod.splits sum.splits)

lemma restart_if_taken_simps [simp]:
  "ot_ag (restart_if_taken a o1) = ot_ag o1"
  by (simp add: restart_if_taken_def ctlRequest_def)

lemma clearFails_simps [simp]:
  "ag_sys (clearFails a) = ag_sys a" "ag_store (clearFails a) = ag_store a" "ag_cfg (clearFails a) = ag_cfg a"
  "ap_Fails (ag_app (clearFails a)) = 0" "ag_paused (clearFails a) = ag_paused a"
  by (simp_all add: clearFails_def setAppState_def)

lemma Install_files:
  assumes i: "Install H st v src s = (r, s')" and v: "valid_slot v"
    and src: "sy_files s src = Some f" "src \<noteq> BinPath st v @ ''.tmp''"
  shows "same_except {BinPath st v, BinPath st v @ ''.tmp''} s s'"
    and "sy_files s' (BinPath st v) = sy_files s (BinPath st v)
        \<or> (\<exists>g. sy_files s' (BinPath st v) = Some g \<and> fl_data g = fl_data f)"
    and "r = Inr h \<Longrightarrow> h = H (fl_data f) \<and> (\<exists>g. sy_files s' (BinPath st v) = Some g \<and> fl_data g = fl_data f)"
proof -
  obtain ok s1 where m: "mkdir_all (SlotDir st v) s = (ok, s1)" by fastforce
  note m1 = mkdir_all_files [OF m]
  have r: "(r, s') = (if ok then CopyExecutable H src (BinPath st v) s1 else (Inl OsError, s1))"
    using i v m by (auto simp: Install_def valid_slot_def)
  note C = CopyExecutable_files [of H src "BinPath st v" s1 r s' f, unfolded m1]
  show "same_except {BinPath st v, BinPath st v @ ''.tmp''} s s'"
    using r C(1) src m1 by (cases ok) (auto simp: same_except_def)
  show "sy_files s' (BinPath st v) = sy_files s (BinPath st v)
        \<or> (\<exists>g. sy_files s' (BinPath st v) = Some g \<and> fl_data g = fl_data f)"
    using r C(3) src m1 by (cases ok) auto
  show "r = Inr h \<Longrightarrow> h = H (fl_data f) \<and> (\<exists>g. sy_files s' (BinPath st v) = Some g \<and> fl_data g = fl_data f)"
    using r C(2) src by (cases ok) auto
qed

text \<open>The steps of an update, as one equation.\<close>

lemma hAppUpdate_steps:
  assumes u: "hAppUpdate H src sha answered o1 = (r, o2)" and src: "src \<noteq> []"
  obtains bad s1 active s2 ir s3 e s4 where
    "check_sha H src sha (ot_sys o1) = (bad, s1)" "Active (ag_store (ot_ag o1)) s1 = (active, s2)"
    "Install H (ag_store (ot_ag o1)) (Other active) src s2 = (ir, s3)"
    "SetActive (ag_store (ot_ag o1)) (Other active) s3 = (e, s4)"
    "ag_store (ot_ag o2) = ag_store (ot_ag o1)" "ag_cfg (ot_ag o2) = ag_cfg (ot_ag o1)"
    "ag_paused (ot_ag o2) = ag_paused (ot_ag o1)"
    "case bad of Some x \<Rightarrow> r = Inl x \<and> ot_sys o2 = s1
     | None \<Rightarrow> (case ir of Inl x \<Rightarrow> r = Inl (StoreError x) \<and> ot_sys o2 = s3
       | Inr h \<Rightarrow> (case e of Some x \<Rightarrow> r = Inl (StoreError x) \<and> ot_sys o2 = s4
         | None \<Rightarrow> r = Inr (Other active, h) \<and> ot_sys o2 = s4 \<and> ap_Fails (ag_app (ot_ag o2)) = 0))"
proof -
  obtain bad s1 where 1: "check_sha H src sha (ot_sys o1) = (bad, s1)" by fastforce
  obtain active s2 where 2: "Active (ag_store (ot_ag o1)) s1 = (active, s2)" by fastforce
  obtain ir s3 where 3: "Install H (ag_store (ot_ag o1)) (Other active) src s2 = (ir, s3)" by fastforce
  obtain e s4 where 4: "SetActive (ag_store (ot_ag o1)) (Other active) s3 = (e, s4)" by fastforce
  show thesis
    by (rule that [OF 1 2 3 4])
      (use u src 1 2 3 4 in \<open>auto simp: hAppUpdate_def Let_def put_ag_def ot_sys_def put_sys_def
         split: option.splits sum.splits\<close>)
qed

text \<open>
  C6: An update never touches the app that is active. When the \<open>active\<close> pointer could be read, then
  whatever fails afterwards, the active slot's binary is left as it is, the other slot holds what it
  held or the whole new file, and the pointer names the same slot unless the other one holds the new
  file complete; if the request reports success the pointer names the other slot, the reported hash is
  the hash of the installed file, and it is the declared one if one was declared.
\<close>

theorem app_update_spares_active:
  assumes "hAppUpdate H src sha answered o1 = (r, o2)" and "src \<noteq> []"
    and "fst (Active (ag_store (ot_ag o1)) (snd (check_sha H src sha (ot_sys o1)))) = v"
    and "v = active_ptr (ag_store (ot_ag o1)) (ot_sys o1)"
    and "sy_files (ot_sys o1) src = Some f" and "src \<noteq> BinPath (ag_store (ot_ag o1)) (Other v) @ ''.tmp''"
  shows "sy_files (ot_sys o2) (BinPath (ag_store (ot_ag o1)) v) = sy_files (ot_sys o1) (BinPath (ag_store (ot_ag o1)) v)
    \<and> (sy_files (ot_sys o2) (BinPath (ag_store (ot_ag o1)) (Other v)) = sy_files (ot_sys o1) (BinPath (ag_store (ot_ag o1)) (Other v))
       \<or> (\<exists>g. sy_files (ot_sys o2) (BinPath (ag_store (ot_ag o1)) (Other v)) = Some g \<and> fl_data g = fl_data f))
    \<and> (active_ptr (ag_store (ot_ag o1)) (ot_sys o2) \<noteq> v \<longrightarrow> active_ptr (ag_store (ot_ag o1)) (ot_sys o2) = Other v
       \<and> (\<exists>g. sy_files (ot_sys o2) (BinPath (ag_store (ot_ag o1)) (Other v)) = Some g \<and> fl_data g = fl_data f))
    \<and> (\<forall>t h. r = Inr (t, h) \<longrightarrow> t = Other v \<and> active_ptr (ag_store (ot_ag o1)) (ot_sys o2) = t \<and> h = H (fl_data f)
       \<and> (sha \<noteq> [] \<longrightarrow> to_lower h = to_lower sha) \<and> ap_Fails (ag_app (ot_ag o2)) = 0)"
proof -
  let ?st = "ag_store (ot_ag o1)"
  obtain bad s1 active s2 ir s3 e s4 where S: "check_sha H src sha (ot_sys o1) = (bad, s1)"
    "Active ?st s1 = (active, s2)" "Install H ?st (Other active) src s2 = (ir, s3)"
    "SetActive ?st (Other active) s3 = (e, s4)"
    "case bad of Some x \<Rightarrow> r = Inl x \<and> ot_sys o2 = s1
     | None \<Rightarrow> (case ir of Inl x \<Rightarrow> r = Inl (StoreError x) \<and> ot_sys o2 = s3
       | Inr h \<Rightarrow> (case e of Some x \<Rightarrow> r = Inl (StoreError x) \<and> ot_sys o2 = s4
         | None \<Rightarrow> r = Inr (Other active, h) \<and> ot_sys o2 = s4 \<and> ap_Fails (ag_app (ot_ag o2)) = 0))"
    by (rule hAppUpdate_steps [OF assms(1,2)])
  have act: "active = v" using assms(3) S(1,2) by simp
  have vv: "valid_slot v" using assms(4) by simp
  have f2: "sy_files s1 = sy_files (ot_sys o1)" "sy_files s2 = sy_files (ot_sys o1)"
    using check_sha_files [OF S(1)] Active_files [OF S(2)] by simp_all
  have src2: "sy_files s2 src = Some f" "src \<noteq> BinPath ?st (Other v) @ ''.tmp''" using f2 assms(5,6) by simp_all
  note I = Install_files [OF S(3) [unfolded act] Other_valid src2]
  note A = SetActive_files [OF S(4) [unfolded act]]
  let ?B = "BinPath ?st v" and ?O = "BinPath ?st (Other v)"
  have ne: "?B \<noteq> ?O" "?B \<noteq> ?O @ ''.tmp''" "active_path ?st \<noteq> ?O" "active_path ?st \<noteq> ?O @ ''.tmp''"
    "?B \<noteq> active_path ?st" "?B \<noteq> active_path ?st @ ''.tmp''" "?O \<noteq> active_path ?st" "?O \<noteq> active_path ?st @ ''.tmp''"
    using not_sym [OF Other_neq [OF vv]] not_sym [OF BinPath_tmp_neq [OF Other_valid [of v] vv, of ?st]]
      bin_paths_distinct [OF vv, of ?st] bin_paths_distinct [OF Other_valid [of v], of ?st]
      not_sym [OF bin_paths_distinct(1) [OF Other_valid [of v], of ?st]]
      not_sym [OF bin_paths_distinct(5) [OF Other_valid [of v], of ?st]] by simp_all
  have b: "sy_files s3 ?B = sy_files (ot_sys o1) ?B" "sy_files s4 ?B = sy_files s3 ?B" "sy_files s4 ?O = sy_files s3 ?O"
    using I(1) A(1) ne f2 by (simp_all add: same_except_def)
  have p1: "active_ptr ?st s1 = v" using assms(4) active_ptr_cong [of s1 ?st "ot_sys o1"] f2 by simp
  have p3: "active_ptr ?st s3 = v" using assms(4) active_ptr_cong [of s3 ?st "ot_sys o1"] I(1) ne f2
    by (simp add: same_except_def)
  show ?thesis
  proof (cases bad)
    case (Some x)
    then show ?thesis using S(5) f2 p1 by simp
  next
    case bad: None
    show ?thesis
    proof (cases ir)
      case (Inl x)
      then show ?thesis using S(5) bad b p3 I(2) f2 by simp
    next
      case (Inr h)
      have sha: "sha \<noteq> [] \<longrightarrow> to_lower (H (fl_data f)) = to_lower sha"
        using check_sha_ok [OF S(1) [unfolded bad] assms(5)] by blast
      have new: "h = H (fl_data f)" "\<exists>g. sy_files s4 ?O = Some g \<and> fl_data g = fl_data f"
        using I(3) [OF Inr] b(3) by auto
      have o2: "ot_sys o2 = s4" using S(5) bad Inr by (simp split: option.splits)
      have r: "\<forall>t h'. r = Inr (t, h') \<longrightarrow> t = Other v \<and> h' = h \<and> e = None \<and> ap_Fails (ag_app (ot_ag o2)) = 0"
        using S(5) bad Inr act by (auto split: option.splits)
      show ?thesis
        unfolding o2 using b new A(2,3) p3 r sha by auto
    qed
  qed
qed

definition sample_ota :: "(path \<times> byte list) list \<Rightarrow> ota" where
  "sample_ota fs = \<lparr>ot_ag = sample_agent fs [], ot_sf = \<lparr>sf_path = ''/st'', sf_s = zero_state, sf_disk = zero_state\<rparr>,
     ot_wd = NewDevice, ot_ups = [], ot_ctl = [], ot_agentA = ''/a'', ot_agentB = ''/b'', ot_agentActive = ''/act'',
     ot_agentSlot = ''A'', ot_intentPath = ''/i''\<rparr>"

definition sample_files :: "(path \<times> byte list) list" where
  "sample_files = [(''/s/active'', str_bytes ''A''), (''/s/confirmed'', str_bytes ''A''),
     (''/s/A/app'', [1]), (''/u'', [2, 3])]"

lemma app_update_spares_active_witness:
  "\<exists>r o2. hAppUpdate (\<lambda>b. ''x'') ''/u'' ''X'' True (sample_ota sample_files) = (r, o2)
     \<and> sy_files (ot_sys o2) ''/s/A/app'' = sy_files (ot_sys (sample_ota sample_files)) ''/s/A/app''"
proof -
  let ?o = "sample_ota sample_files"
  obtain r o2 where u: "hAppUpdate (\<lambda>b. ''x'') ''/u'' ''X'' True ?o = (r, o2)" by fastforce
  have h: "healthy (ot_sys ?o)"
    by (simp add: healthy_def ot_sys_def sample_ota_def sample_agent_def sample_sys_def)
  have a: "active_ptr (ag_store (ot_ag ?o)) (ot_sys ?o) = SlotA" by code_simp
  have c: "snd (check_sha (\<lambda>b. ''x'') ''/u'' ''X'' (ot_sys ?o)) = ot_sys ?o"
    using h by (simp add: check_sha_def FileSHA256_def split: option.split)
  have r: "fst (Active (ag_store (ot_ag ?o)) (snd (check_sha (\<lambda>b. ''x'') ''/u'' ''X'' (ot_sys ?o)))) = SlotA"
    using h a by (simp add: c)
  have b: "BinPath (ag_store (ot_ag ?o)) SlotA = ''/s/A/app''" by code_simp
  have n: "''/u'' \<noteq> BinPath (ag_store (ot_ag ?o)) (Other SlotA) @ ''.tmp''" by code_simp
  have f: "sy_files (ot_sys ?o) ''/u'' = Some (blank_file [2, 3] 1)"
    by (simp add: ot_sys_def sample_ota_def sample_agent_def sample_sys_def sample_files_def)
  show ?thesis
    using app_update_spares_active [OF u _ r a [symmetric] f n] u unfolding b by auto
qed

lemma healthy_Install:
  assumes h: "healthy s" and v: "valid_slot v" and f: "sy_files s src = Some f" and ne: "src \<noteq> BinPath st v @ ''.tmp''"
    and t: "sy_files s (BinPath st v @ ''.tmp'') = None"
  shows "\<exists>s' g. Install H st v src s = (Inr (H (fl_data f)), s') \<and> healthy s'
    \<and> sy_files s' (BinPath st v) = Some g \<and> fl_data g = fl_data f \<and> fl_reg g"
proof -
  let ?t = "BinPath st v @ ''.tmp''"
  let ?s1 = "new_file ?t 0x1ED s"
  have o: "open_trunc ?t 0x1ED s = (True, ?s1)" using h t by (simp add: open_trunc_def)
  have h1: "healthy ?s1" using h by (simp add: new_file_def)
  have b: "file_bytes src ?s1 = fl_data f" using f ne by (simp add: file_bytes_def new_file_def)
  let ?s2 = "write_eff ?t 0 (fl_data f) (length (fl_data f)) ?s1"
  have w: "write_at ?t 0 (fl_data f) ?s1 = (length (fl_data f), True, ?s2)" using h1 by (simp add: write_at_def)
  obtain g where g: "sy_files ?s2 ?t = Some g" "fl_data g = fl_data f" "fl_reg g"
    by (simp add: write_eff_def new_file_def)
  have h2: "healthy ?s2" using h1 by (simp add: write_eff_def split: option.split)
  obtain s3 where sy: "sync ?t ?s2 = (True, s3)" "healthy s3" "sy_files s3 = sy_files ?s2"
    using h2 g(1) by (simp add: sync_def)
  let ?s4 = "rename_eff ?t (BinPath st v) g s3"
  have r: "rename ?t (BinPath st v) s3 = (True, ?s4)"
    using sy(2,3) g(1) by (simp add: rename_def)
  have "Install H st v src s = (Inr (H (fl_data f)), ?s4)"
    using v h sy f by (auto simp: Install_def valid_slot_def mkdir_all_def CopyExecutable_def o b w close_def r Let_def)
  then show ?thesis
    using sy(2) g by (intro exI [of _ ?s4] exI [of _ g]) simp
qed

lemma FileSHA256_healthy: "healthy s \<Longrightarrow> snd (FileSHA256 H p s) = s"
  by (simp add: FileSHA256_def split: option.split)

lemma check_sha_healthy: "healthy s \<Longrightarrow> check_sha H src sha s = (e, s') \<Longrightarrow> s' = s"
  using FileSHA256_healthy [of s H src]
  by (auto simp: check_sha_def split: if_splits prod.splits sum.splits)

text \<open>
  An update accepted on a working stick, with the active slot \<open>v\<close> confirmed: what the supervisor finds.
\<close>

lemma accepted_update:
  assumes u: "hAppUpdate H src sha answered o1 = (Inr (t, h), o2)" and src: "src \<noteq> []"
    and hs: "healthy (ot_sys o1)" and v: "v = active_ptr (ag_store (ot_ag o1)) (ot_sys o1)"
    and conf: "pointer (confirmed_path (ag_store (ot_ag o1))) (Other v) (ot_sys o1) = v"
    and bin: "has_binary (sy_files (ot_sys o1) (BinPath (ag_store (ot_ag o1)) v))"
    and f: "sy_files (ot_sys o1) src = Some f" "fl_data f \<noteq> []" "src \<noteq> BinPath (ag_store (ot_ag o1)) (Other v) @ ''.tmp''"
    and tmp: "sy_files (ot_sys o1) (BinPath (ag_store (ot_ag o1)) (Other v) @ ''.tmp'') = None"
    and ag: "paths_ok (ot_ag o1)" "\<not> ag_paused (ot_ag o1)"
    and pid: "cf_PidPath (ag_cfg (ot_ag o1)) \<noteq> active_path (ag_store (ot_ag o1)) @ ''.tmp''"
      "cf_PidPath (ag_cfg (ot_ag o1)) \<noteq> BinPath (ag_store (ot_ag o1)) (Other v) @ ''.tmp''"
  shows "update_ready (Other v) v (ot_ag o2)
    \<and> sy_files (ot_sys o2) (cf_PidPath (ag_cfg (ot_ag o1))) = sy_files (ot_sys o1) (cf_PidPath (ag_cfg (ot_ag o1)))
    \<and> active_ptr (ag_store (ot_ag o2)) (ag_sys (ot_ag o2)) = Other v
    \<and> ap_Fails (ag_app (ot_ag o2)) = 0 \<and> ag_cfg (ot_ag o2) = ag_cfg (ot_ag o1) \<and> ag_store (ot_ag o2) = ag_store (ot_ag o1)
    \<and> sy_files (ot_sys o2) (BinPath (ag_store (ot_ag o1)) v) = sy_files (ot_sys o1) (BinPath (ag_store (ot_ag o1)) v)"
proof -
  let ?st = "ag_store (ot_ag o1)" and ?s = "ot_sys o1"
  obtain bad s1 active s2 ir s3 e s4 where S: "check_sha H src sha ?s = (bad, s1)"
    "Active ?st s1 = (active, s2)" "Install H ?st (Other active) src s2 = (ir, s3)"
    "SetActive ?st (Other active) s3 = (e, s4)" "ag_store (ot_ag o2) = ?st" "ag_cfg (ot_ag o2) = ag_cfg (ot_ag o1)"
    "ag_paused (ot_ag o2) = ag_paused (ot_ag o1)"
    "case bad of Some x \<Rightarrow> Inr (t, h) = Inl x \<and> ot_sys o2 = s1
     | None \<Rightarrow> (case ir of Inl x \<Rightarrow> Inr (t, h) = Inl (StoreError x) \<and> ot_sys o2 = s3
       | Inr h' \<Rightarrow> (case e of Some x \<Rightarrow> Inr (t, h) = Inl (StoreError x) \<and> ot_sys o2 = s4
         | None \<Rightarrow> (Inr (t, h) :: handler_error + _) = Inr (Other active, h') \<and> ot_sys o2 = s4 \<and> ap_Fails (ag_app (ot_ag o2)) = 0))"
    by (rule hAppUpdate_steps [OF u src])
  have s1: "s1 = ?s" using check_sha_healthy [OF hs S(1)] .
  then have act: "active = v" "s2 = ?s" using S(2) hs v by auto
  have vv: "valid_slot v" using v by simp
  obtain g where g: "healthy s3" "sy_files s3 (BinPath ?st (Other v)) = Some g" "fl_data g = fl_data f" "fl_reg g"
    using healthy_Install [OF hs Other_valid f(1,3) tmp, of H] S(3) act by auto
  note I = Install_files [OF S(3) [unfolded act] Other_valid f(1,3)]
  obtain s' where s': "SetActive ?st (Other v) s3 = (None, s')" "healthy s'" "active_ptr ?st s' = Other v"
    using healthy_SetActive [OF g(1) Other_valid] by blast
  then have s4: "s4 = s'" "e = None" using S(4) act by simp_all
  note A = SetActive_files [OF s'(1)]
  have o2: "ot_sys o2 = s'" "ap_Fails (ag_app (ot_ag o2)) = 0"
    using S(8) s4 by (auto split: option.splits sum.splits)
  let ?B = "BinPath ?st v" and ?O = "BinPath ?st (Other v)"
  have ne: "?B \<noteq> ?O" "?B \<noteq> ?O @ ''.tmp''" "?B \<noteq> active_path ?st" "?B \<noteq> active_path ?st @ ''.tmp''"
    "?O \<noteq> active_path ?st" "?O \<noteq> active_path ?st @ ''.tmp''"
    "confirmed_path ?st \<noteq> ?O" "confirmed_path ?st \<noteq> ?O @ ''.tmp''"
    using not_sym [OF Other_neq [OF vv]] not_sym [OF BinPath_tmp_neq [OF Other_valid [of v] vv, of ?st]]
      bin_paths_distinct [OF vv, of ?st] bin_paths_distinct [OF Other_valid [of v], of ?st]
      not_sym [OF bin_paths_distinct(2) [OF Other_valid [of v], of ?st]]
      not_sym [OF bin_paths_distinct(6) [OF Other_valid [of v], of ?st]] by simp_all
  have Bv: "sy_files s' ?B = sy_files ?s ?B" "sy_files s' ?O = Some g"
    "sy_files s' (confirmed_path ?st) = sy_files ?s (confirmed_path ?st)"
    using A(1) I(1) ne g(2) act by (simp_all add: same_except_def)
  have cf: "confirmed_ptr ?st s' = v"
    using conf Bv(3) s'(3) by (simp add: confirmed_ptr_def pointer_def)
  have pf: "sy_files s' (cf_PidPath (ag_cfg (ot_ag o1))) = sy_files ?s (cf_PidPath (ag_cfg (ot_ag o1)))"
  proof -
    have "cf_PidPath (ag_cfg (ot_ag o1)) \<noteq> active_path ?st" "cf_PidPath (ag_cfg (ot_ag o1)) \<noteq> ?O"
      using ag(1) Other_valid [of v] by (auto simp: paths_ok_def slot_paths_def valid_slot_def)
    then show ?thesis using A(1) I(1) pid act by (simp add: same_except_def)
  qed
  have hb: "has_binary (sy_files s' (BinPath ?st w))" if "valid_slot w" for w
  proof -
    have "w = v \<or> w = Other v" using that vv by (auto simp: valid_slot_def Other_def slot_names)
    then show ?thesis using bin Bv g f(2) by (auto simp: has_binary_def)
  qed
  have "update_ready (Other v) v (ot_ag o2)"
    using s'(2) o2(1) ag S(5-7) pid(1) cf hb Other_neq [OF vv]
    by (simp add: update_ready_def ot_sys_def paths_ok_def)
  then show ?thesis using s'(3) o2 S(5,6) Bv(1) pf by (simp add: ot_sys_def)
qed

text \<open>
  What the supervisor has running when the update is accepted: nothing, its own child (its slot, launch
  time, pid and watcher, in its loop), or an app adopted from an agent before it. The request the handler
  queued is what the loop receives next; \<open>quits\<close> says whether the app ends on \<open>SIGTERM\<close>.
\<close>

datatype old_app = NoApp | Child string int int healthWatcher bool int | Adopted int healthWatcher bool

definition restart_old :: "old_app \<Rightarrow> agent \<Rightarrow> agent option" where
  "restart_old old a = (case old of
       NoApp \<Rightarrow> Some a
     | Child w start pid h quits now \<Rightarrow> run_to_end w start pid [Ctl OpRestart quits now] IdleTimeout h a
     | Adopted pid h quits \<Rightarrow> adopted_loop pid [ACtl OpRestart quits] h a)"

lemma restart_old_result:
  "restart_old old a = Some (case old of NoApp \<Rightarrow> a
     | Child w start pid h quits now \<Rightarrow> setAppState (\<lambda>p. zero_app\<lparr>ap_LastExit := Note (ByCtl OpRestart)\<rparr>)
         (on_sys (remove (cf_PidPath (ag_cfg a))) (terminate pid quits a))
     | Adopted pid h quits \<Rightarrow> on_sys (remove (cf_PidPath (ag_cfg a))) (killPid pid quits a))"
  by (simp add: restart_old_def run_to_end_def classify_run_def killPid_def terminate_def send_signal_def Let_def
      split: old_app.split)

lemma restart_old_ready:
  assumes r: "update_ready bad good a" and f: "ap_Fails (ag_app a) = 0"
    and n: "old = NoApp \<longrightarrow> sy_files (ag_sys a) (cf_PidPath (ag_cfg a)) = None"
  shows "\<exists>b. restart_old old a = Some b \<and> crash_inv bad good b \<and> keeps (slot_paths (ag_store a)) a b
    \<and> ap_Fails (ag_app b) = 0"
proof (cases "old = NoApp")
  case True
  then show ?thesis using assms by (simp add: restart_old_result crash_inv_ready)
next
  case False
  let ?s = "snd (remove (cf_PidPath (ag_cfg a)) (ag_sys a))"
  obtain b where r1: "restart_old old a = Some b" by (simp add: restart_old_result)
  have b: "ag_sys b = ?s" "ag_cfg b = ag_cfg a" "ag_store b = ag_store a" "ag_paused b = ag_paused a" "ap_Fails (ag_app b) = 0"
  proof -
    have q: "ag_paused (terminate pid qt a) = ag_paused a" "ag_sys (killPid pid qt a) = ag_sys a" "ag_cfg (killPid pid qt a) = ag_cfg a"
      "ag_store (killPid pid qt a) = ag_store a" "ag_paused (killPid pid qt a) = ag_paused a" "ag_app (killPid pid qt a) = ag_app a"
      for pid qt
      by (simp_all add: terminate_def killPid_def send_signal_def Let_def)
    show "ag_sys b = ?s" "ag_cfg b = ag_cfg a" "ag_store b = ag_store a" "ag_paused b = ag_paused a" "ap_Fails (ag_app b) = 0"
      using r1 [unfolded restart_old_result option.inject, symmetric] False f
      by (auto simp: setAppState_def on_sys_def zero_app_def q split: old_app.split)
  qed
  have h: "healthy (ag_sys a)" "paths_ok a" using r by (simp_all add: update_ready_def)
  have k: "keeps (slot_paths (ag_store a)) a b"
    using keeps_pid_remove [OF h(2), of "slot_paths (ag_store a)"] b(1-3) by (simp add: keeps_def on_sys_def)
  have "update_ready bad good b"
    using update_ready_keeps [OF r k] healthy_remove [OF h(1)] b(1,4) by simp
  then have "crash_inv bad good b"
    using healthy_remove [OF h(1), of "cf_PidPath (ag_cfg a)"] b(1,2) by (simp add: crash_inv_ready)
  then show ?thesis using r1 b(5) k by blast
qed

lemma hAppUpdate_request:
  assumes u: "hAppUpdate H src sha answered o1 = (Inr (t, h), o2)" and taken: "as_TakenOver (get_state (ot_sf o1))"
  shows "ot_ctl o2 = ot_ctl o1 @ [OpRestart]"
proof -
  have src: "src \<noteq> []" using u by (auto simp: hAppUpdate_def)
  obtain bad s1 where 1: "check_sha H src sha (ot_sys o1) = (bad, s1)" by fastforce
  obtain active s2 where 2: "Active (ag_store (ot_ag o1)) s1 = (active, s2)" by fastforce
  obtain ir s3 where 3: "Install H (ag_store (ot_ag o1)) (Other active) src s2 = (ir, s3)" by fastforce
  obtain e s4 where 4: "SetActive (ag_store (ot_ag o1)) (Other active) s3 = (e, s4)" by fastforce
  show ?thesis
    using u src taken
    by (simp add: hAppUpdate_def Let_def 1 2 3 4 split: option.splits sum.splits)
      (auto simp: put_ag_def put_sys_def restart_if_taken_def ctlRequest_def)
qed



text \<open>
  C12: The gap in the way back. On a working stick, when the active slot is not the confirmed one, as
  after an update that has not run for \<open>Stable\<close> yet, the next accepted update goes into the confirmed
  slot, replacing the last binary known to work, and makes it active; active and confirmed then name
  the same, new, binary, so however often it fails the supervisor does not switch slots.
\<close>

theorem early_second_update_loses_rollback:
  assumes "hAppUpdate H src sha answered o1 = (Inr (t, h), o2)" and "src \<noteq> []" and "healthy (ot_sys o1)"
    and "v = active_ptr (ag_store (ot_ag o1)) (ot_sys o1)"
    and "pointer (confirmed_path (ag_store (ot_ag o1))) v (ot_sys o1) = Other v"
    and "sy_files (ot_sys o1) src = Some f" and "src \<noteq> BinPath (ag_store (ot_ag o1)) (Other v) @ ''.tmp''"
    and "sy_files (ot_sys o1) (BinPath (ag_store (ot_ag o1)) (Other v) @ ''.tmp'') = None"
  shows "active_ptr (ag_store (ot_ag o2)) (ot_sys o2) = Other v
    \<and> confirmed_ptr (ag_store (ot_ag o2)) (ot_sys o2) = Other v
    \<and> (\<exists>g. sy_files (ot_sys o2) (BinPath (ag_store (ot_ag o1)) (Other v)) = Some g \<and> fl_data g = fl_data f)
    \<and> (\<forall>a. ag_store a = ag_store (ot_ag o2) \<and> ag_sys a = ot_sys o2 \<longrightarrow>
         ag_sys (rollbackIfNeeded (Other v) a) = ag_sys a)"
proof -
  let ?st = "ag_store (ot_ag o1)" and ?s = "ot_sys o1"
  obtain bad s1 active s2 ir s3 e s4 where S: "check_sha H src sha ?s = (bad, s1)"
    "Active ?st s1 = (active, s2)" "Install H ?st (Other active) src s2 = (ir, s3)"
    "SetActive ?st (Other active) s3 = (e, s4)" "ag_store (ot_ag o2) = ?st"
    "case bad of Some x \<Rightarrow> Inr (t, h) = Inl x \<and> ot_sys o2 = s1
     | None \<Rightarrow> (case ir of Inl x \<Rightarrow> Inr (t, h) = Inl (StoreError x) \<and> ot_sys o2 = s3
       | Inr h' \<Rightarrow> (case e of Some x \<Rightarrow> Inr (t, h) = Inl (StoreError x) \<and> ot_sys o2 = s4
         | None \<Rightarrow> (Inr (t, h) :: handler_error + _) = Inr (Other active, h') \<and> ot_sys o2 = s4 \<and> ap_Fails (ag_app (ot_ag o2)) = 0))"
    by (rule hAppUpdate_steps [OF assms(1,2)])
  have s1: "s1 = ?s" using check_sha_healthy [OF assms(3) S(1)] .
  then have act: "active = v" "s2 = ?s" using S(2) assms(3,4) by auto
  have vv: "valid_slot v" using assms(4) by simp
  obtain g where g: "healthy s3" "sy_files s3 (BinPath ?st (Other v)) = Some g" "fl_data g = fl_data f"
    using healthy_Install [OF assms(3) Other_valid assms(6,7,8), of H] S(3) act by auto
  note I = Install_files [OF S(3) [unfolded act] Other_valid assms(6,7)]
  obtain s' where s': "SetActive ?st (Other v) s3 = (None, s')" "healthy s'" "active_ptr ?st s' = Other v"
    using healthy_SetActive [OF g(1) Other_valid] by blast
  then have s4: "s4 = s'" "e = None" using S(4) act by simp_all
  note A = SetActive_files [OF s'(1)]
  have o2: "ot_sys o2 = s'" using S(6) s4 by (auto split: option.splits sum.splits)
  have Bv: "sy_files s' (BinPath ?st (Other v)) = Some g"
    "sy_files s' (confirmed_path ?st) = sy_files ?s (confirmed_path ?st)"
    using A(1) I(1) g(2) act bin_paths_distinct [OF Other_valid [of v], of ?st]
      not_sym [OF bin_paths_distinct(2) [OF Other_valid [of v], of ?st]]
      not_sym [OF bin_paths_distinct(6) [OF Other_valid [of v], of ?st]] by (simp_all add: same_except_def)
  have "pointer (confirmed_path ?st) v s' = Other v" using assms(5) Bv(2) by (simp add: pointer_def)
  then have cf: "confirmed_ptr ?st s' = Other v"
    using s'(3) Other_neq [OF vv]
    by (auto simp: confirmed_ptr_def pointer_def pointer_value_def Let_def split: option.splits if_splits)
  have "ag_sys (rollbackIfNeeded (Other v) a) = ag_sys a" if "ag_store a = ?st" "ag_sys a = s'" for a
  proof -
    have "on_store Confirmed a = (Other v, a)" using that s'(2) cf by (intro on_store_healthy) simp
    then show ?thesis by (simp add: rollbackIfNeeded_def Let_def emit_def)
  qed
  then show ?thesis using s'(3) cf Bv(1) g(3) S(5) o2 by simp
qed

lemma early_second_update_loses_rollback_witness:
  "\<exists>o2. hAppUpdate (\<lambda>b. ''x'') ''/u'' ''X'' True (sample_ota ((''/s/active'', str_bytes ''B'') # sample_files)) = (Inr (''A'', ''x''), o2)
     \<and> confirmed_ptr (ag_store (ot_ag o2)) (ot_sys o2) = SlotA
     \<and> (\<exists>g. sy_files (ot_sys o2) ''/s/A/app'' = Some g \<and> fl_data g = [2, 3])"
proof -
  define q where "q = sample_ota ((''/s/active'', str_bytes ''B'') # sample_files)"
  have e: "fst (hAppUpdate (\<lambda>b. ''x'') ''/u'' ''X'' True q) = Inr (''A'', ''x'')"
    unfolding q_def by code_simp
  obtain o2 where u: "hAppUpdate (\<lambda>b. ''x'') ''/u'' ''X'' True q = (Inr (''A'', ''x''), o2)"
    using e by (metis prod.collapse)
  have h: "healthy (ot_sys q)"
    by (simp add: q_def healthy_def ot_sys_def sample_ota_def sample_agent_def sample_sys_def)
  have o: "Other SlotB = SlotA" by (simp add: Other_def slot_names)
  have a: "SlotB = active_ptr (ag_store (ot_ag q)) (ot_sys q)" unfolding q_def by code_simp
  have c: "pointer (confirmed_path (ag_store (ot_ag q))) SlotB (ot_sys q) = Other SlotB" unfolding q_def by code_simp
  have f: "sy_files (ot_sys q) ''/u'' = Some (blank_file [2, 3] 1)"
    by (simp add: q_def ot_sys_def sample_ota_def sample_agent_def sample_sys_def sample_files_def)
  have n: "''/u'' \<noteq> BinPath (ag_store (ot_ag q)) (Other SlotB) @ ''.tmp''" unfolding q_def by code_simp
  have t: "sy_files (ot_sys q) (BinPath (ag_store (ot_ag q)) (Other SlotB) @ ''.tmp'') = None"
    by (simp add: q_def ot_sys_def sample_ota_def sample_agent_def sample_sys_def sample_files_def New_def
        BinPath_def SlotDir_def join_def Other_def slot_names)
  have b: "BinPath (ag_store (ot_ag q)) SlotA = ''/s/A/app''" unfolding q_def by code_simp
  show ?thesis
    using early_second_update_loses_rollback [OF u _ h a c f n t] u by (auto simp: q_def o b [unfolded q_def] blank_file_def)
qed

end
