(* ===== verification/Takeover.thy ===== *)
theory Takeover
  imports StateFile Upload
begin

text \<open>
  The takeover of the instrument from the factory firmware, \<open>ota/internal/agent/takeover.go\<close>: the
  gates, the persisted flag, the kill and the watchdog. What the machine answers is an environment
  (\<open>/proc\<close> scans in the order they are made, symbolic links, the factory's SCPI service, the idle
  polls, the outcome of kills); what the agent does to the machine is a trace of actions.
\<close>

record holder =
  ho_PID :: int
  ho_Comm :: string
  ho_Exe :: string

datatype idle_poll = IdlePoll int bool "bool option"

record tk_env =
  te_self :: int
  te_gpmcFD :: int
  te_ourExe :: string
  te_root :: path
  te_evalsym :: "path \<Rightarrow> path option"
  te_ppid :: "int \<Rightarrow> int"
  te_names :: "string list"
  te_scans :: "holder list list"
  te_stop :: bool
  te_polls :: "idle_poll list"
  te_start :: int
  te_kill :: "int \<Rightarrow> bool"
  te_wd :: bool

datatype action =
    SentStop bool | ReadIdle | Persist bool | Kill int bool | AcquireWd bool | KeepWatchdog | Reassert

datatype tk_step =
    AlreadyTaken | FdMissing | GateFd int | CandidateFound holder | DryRunStop | PreKillIPs | NoCandidates
  | StopSent | StopFailed | ForceNoStop | IdleConfirmed | ForceNoIdle | StatePersisted | SigKill int nat
  | KilledCount nat | Survivors nat | WdFailed | WdAcquired | TakeoverComplete

datatype tk_err = NoErr | NoFd | NoStop | NotIdle | PersistFailed

record tk_run =
  tk_OK :: bool
  tk_Steps :: "tk_step list"
  tk_Candidates :: "holder list"
  tk_Err :: tk_err
  tk_trace :: "action list"
  tk_scans :: "holder list list"
  tk_state :: stateFile
  tk_sys :: sys

definition step :: "tk_step \<Rightarrow> tk_run \<Rightarrow> tk_run" where
  "step x r = r\<lparr>tk_Steps := tk_Steps r @ [x]\<rparr>"

definition act :: "action \<Rightarrow> tk_run \<Rightarrow> tk_run" where
  "act x r = r\<lparr>tk_trace := tk_trace r @ [x]\<rparr>"

section \<open>Who holds the bus\<close>

definition shellish :: "string list" where
  "shellish = [''sh'', ''ash'', ''hush'', ''bash'', ''busybox'', ''login'', ''getty'', ''init'']"

definition matchesFactoryName :: "tk_env \<Rightarrow> holder \<Rightarrow> bool" where
  "matchesFactoryName env h \<longleftrightarrow>
     list_ex (\<lambda>n. n \<noteq> [] \<and> (str_contains (ho_Comm h) n \<or> str_contains (ho_Exe h) n)) (te_names env)"

fun descends_up :: "nat \<Rightarrow> (int \<Rightarrow> int) \<Rightarrow> int \<Rightarrow> int \<Rightarrow> bool" where
  "descends_up 0 ppid pid anc = False"
| "descends_up (Suc n) ppid pid anc =
     (if pid > 1 then (if ppid pid = anc then True else descends_up n ppid (ppid pid) anc) else False)"

definition descendsFrom :: "(int \<Rightarrow> int) \<Rightarrow> int \<Rightarrow> int \<Rightarrow> bool" where
  "descendsFrom ppid pid anc = descends_up 64 ppid pid anc"

text \<open>\<open>filepath.Base\<close>.\<close>

definition path_base :: "path \<Rightarrow> string" where
  "path_base p = (let q = rev (dropWhile (\<lambda>c. c = CHR ''/'') (rev p)) in
     if p = [] then ''.'' else if q = [] then ''/'' else rev (takeWhile (\<lambda>c. c \<noteq> CHR ''/'') (rev q)))"

definition slot_root :: "tk_env \<Rightarrow> path" where
  "slot_root env = (case te_evalsym env (te_root env) of Some r \<Rightarrow> r | None \<Rightarrow> te_root env)"

definition our_exe :: "tk_env \<Rightarrow> path" where
  "our_exe env = (case te_evalsym env (te_ourExe env) of Some p \<Rightarrow> p | None \<Rightarrow> [])"

definition is_candidate :: "tk_env \<Rightarrow> holder \<Rightarrow> bool" where
  "is_candidate env h =
     (if ho_PID h = te_self env \<or> ho_PID h = 1 \<or> descendsFrom (te_ppid env) (ho_PID h) (te_self env) then False
      else if ho_Exe h \<noteq> [] \<and> (case te_evalsym env (ho_Exe h) of None \<Rightarrow> False
          | Some rp \<Rightarrow> rp = our_exe env \<or> is_prefix (slot_root env @ ''/'') rp) then False
      else if path_base (ho_Exe h) \<in> set shellish \<and> \<not> matchesFactoryName env h then False
      else True)"

text \<open>One scan of \<open>/proc\<close>; when the environment lists no more, nobody holds the bus.\<close>

definition factoryCandidates :: "tk_env \<Rightarrow> tk_run \<Rightarrow> holder list \<times> tk_run" where
  "factoryCandidates env r = (case tk_scans r of
       [] \<Rightarrow> ([], r)
     | hs # rest \<Rightarrow> (filter (is_candidate env) hs, r\<lparr>tk_scans := rest\<rparr>))"

section \<open>The gates\<close>

definition factoryStop :: "tk_env \<Rightarrow> tk_run \<Rightarrow> bool \<times> tk_run" where
  "factoryStop env r = (te_stop env, act (SentStop (te_stop env)) r)"

definition stopGate :: "tk_env \<Rightarrow> bool \<Rightarrow> tk_run \<Rightarrow> bool \<times> tk_run" where
  "stopGate env force r =
     (if tk_Candidates r = [] then (True, step NoCandidates r)
      else let (ok, r) = factoryStop env r in
        if ok then (True, step StopSent r)
        else let r = step StopFailed r in
          if \<not> force then (False, r\<lparr>tk_Err := NoStop\<rparr>) else (True, step ForceNoStop r))"

text \<open>
  \<open>confirmIdle\<close>: a poll has the time at the loop's test, whether the version register read right,
  and what \<open>FillFrozen\<close> gave (\<^term>\<open>None\<close> an error). The last error decides when the deadline passes;
  with no poll before it there is no error. Polls that run out leave the loop at its last error.
\<close>

fun idle_loop :: "int \<Rightarrow> idle_poll list \<Rightarrow> bool \<Rightarrow> tk_run \<Rightarrow> bool \<times> tk_run" where
  "idle_loop deadline [] failed r = (\<not> failed, r)"
| "idle_loop deadline (IdlePoll now ver frozen # ps) failed r =
     (if now < deadline then
        let r = act ReadIdle r in
        if \<not> ver then idle_loop deadline ps True r
        else (case frozen of
            None \<Rightarrow> idle_loop deadline ps True r
          | Some True \<Rightarrow> (True, step IdleConfirmed r)
          | Some False \<Rightarrow> idle_loop deadline ps True r)
      else (\<not> failed, r))"

definition confirmIdle :: "tk_env \<Rightarrow> int \<Rightarrow> tk_run \<Rightarrow> bool \<times> tk_run" where
  "confirmIdle env timeout r = idle_loop (te_start env + timeout) (te_polls env) False r"

section \<open>The kill\<close>

fun kill_all :: "tk_env \<Rightarrow> nat \<Rightarrow> holder list \<Rightarrow> nat \<Rightarrow> tk_run \<Rightarrow> nat \<times> tk_run" where
  "kill_all env rnd [] killed r = (killed, r)"
| "kill_all env rnd (h # hs) killed r =
     (let ok = te_kill env (ho_PID h);
          r = act (Kill (ho_PID h) ok) r in
      if ok then kill_all env rnd hs (Suc killed) (step (SigKill (ho_PID h) (rnd + 1)) r)
      else kill_all env rnd hs killed r)"

text \<open>Four rounds; the first kills the reported set, whatever its own scan finds.\<close>

fun kill_rounds :: "tk_env \<Rightarrow> nat \<Rightarrow> nat \<Rightarrow> nat \<Rightarrow> tk_run \<Rightarrow> nat \<times> tk_run" where
  "kill_rounds env 0 rnd killed r =
     (let (left, r) = factoryCandidates env r in
      (killed, if left \<noteq> [] then step (Survivors (length left)) r else r))"
| "kill_rounds env (Suc n) rnd killed r =
     (let (cands, r) = factoryCandidates env r;
          cands = (if rnd = 0 then tk_Candidates r else cands) in
      if cands = [] then (killed, r)
      else let (killed, r) = kill_all env rnd cands killed r in kill_rounds env n (Suc rnd) killed r)"

definition killFactory :: "tk_env \<Rightarrow> tk_run \<Rightarrow> nat \<times> tk_run" where
  "killFactory env r = kill_rounds env 4 0 0 r"

definition idle_timeout :: int where "idle_timeout = 12 * 1000000000"
definition reclaim_timeout :: int where "reclaim_timeout = 8 * 1000000000"

definition fail_with :: "tk_err \<Rightarrow> tk_run \<Rightarrow> tk_run" where
  "fail_with e r = r\<lparr>tk_Err := e\<rparr>"

definition finish_takeover :: "tk_env \<Rightarrow> tk_run \<Rightarrow> tk_run" where
  "finish_takeover env r =
     (let (killed, r) = killFactory env r;
          r = step (KilledCount killed) r;
          r = act (AcquireWd (te_wd env)) r;
          r = (if te_wd env then step WdAcquired r else act KeepWatchdog (step WdFailed r));
          r = act Reassert r;
          r = r\<lparr>tk_OK := True\<rparr>
      in step TakeoverComplete r)"

definition Takeover :: "tk_env \<Rightarrow> bool \<Rightarrow> bool \<Rightarrow> stateFile \<Rightarrow> sys \<Rightarrow> tk_run" where
  "Takeover env dry force sf s =
     (let r = \<lparr>tk_OK = False, tk_Steps = [], tk_Candidates = [], tk_Err = NoErr, tk_trace = [],
               tk_scans = te_scans env, tk_state = sf, tk_sys = s\<rparr> in
      if as_TakenOver (get_state sf) then act KeepWatchdog (step AlreadyTaken (r\<lparr>tk_OK := True\<rparr>))
      else if te_gpmcFD env < 0 then step FdMissing (fail_with NoFd r)
      else
        let r = step (GateFd (te_gpmcFD env)) r;
            (cands, r) = factoryCandidates env r;
            r = fold (\<lambda>h r. step (CandidateFound h) r) cands (r\<lparr>tk_Candidates := cands\<rparr>) in
        if dry then step DryRunStop (r\<lparr>tk_OK := True\<rparr>)
        else
          let r = step PreKillIPs r;
              (go, r) = stopGate env force r in
          if \<not> go then r
          else
            let (idle, r) = confirmIdle env idle_timeout r in
            if \<not> idle \<and> \<not> force then fail_with NotIdle r
            else
              let r = (if idle then r else step ForceNoIdle r);
                  (ok, sf, s) = update_state (\<lambda>x. x\<lparr>as_TakenOver := True\<rparr>) (tk_state r) (tk_sys r);
                  r = act (Persist ok) (r\<lparr>tk_state := sf, tk_sys := s\<rparr>) in
              if \<not> ok then fail_with PersistFailed r
              else finish_takeover env (step StatePersisted r))"

definition reclaimBus :: "tk_env \<Rightarrow> stateFile \<Rightarrow> sys \<Rightarrow> tk_run" where
  "reclaimBus env sf s =
     (let r = \<lparr>tk_OK = False, tk_Steps = [], tk_Candidates = [], tk_Err = NoErr, tk_trace = [],
               tk_scans = te_scans env, tk_state = sf, tk_sys = s\<rparr>;
          (cands, r) = factoryCandidates env r;
          r = r\<lparr>tk_Candidates := cands\<rparr> in
      if cands = [] then r
      else
        let r = (if te_gpmcFD env < 0 then r
                 else let (_, r) = factoryStop env r; (_, r) = confirmIdle env reclaim_timeout r in r)
        in snd (killFactory env r))"

section \<open>The network address\<close>

text \<open>\<open>Sscanf\<close> with \<open>%d\<close> on a token without spaces: an optional sign and the digits that follow.\<close>

definition scan_digits :: "string \<Rightarrow> string" where
  "scan_digits s = takeWhile (\<lambda>c. 48 \<le> (of_char c :: nat) \<and> (of_char c :: nat) \<le> 57) s"

definition scan_int :: "string \<Rightarrow> int option" where
  "scan_int s =
     (let (neg, ds) = (case s of c # cs \<Rightarrow> if c = CHR ''-'' then (True, scan_digits cs)
                         else if c = CHR ''+'' then (False, scan_digits cs) else (False, scan_digits s)
                       | [] \<Rightarrow> (False, []));
          v = foldl (\<lambda>v c. 10 * v + int (of_char c - 48)) 0 ds
      in if ds = [] then None else Some (if neg then - v else v))"

definition net_mask :: "nat \<Rightarrow> u32" where
  "net_mask bits = (if bits = 0 then 0 else push_bit (32 - bits) (NOT 0))"

definition dotted :: "u32 \<Rightarrow> string" where
  "dotted v = dec_str (unat (drop_bit 24 v)) @ ''.'' @ dec_str (unat (drop_bit 16 v AND 0xff)) @ ''.''
     @ dec_str (unat (drop_bit 8 v AND 0xff)) @ ''.'' @ dec_str (unat (v AND 0xff))"

definition splitCIDR :: "string \<Rightarrow> (string \<times> string) option" where
  "splitCIDR cidr =
     (if CHR ''/'' \<notin> set cidr then None
      else let ip = takeWhile (\<lambda>c. c \<noteq> CHR ''/'') cidr;
               rest = drop (length ip + 1) cidr
           in case scan_int rest of None \<Rightarrow> None
              | Some bits \<Rightarrow> if bits < 0 \<or> bits > 32 then None
                  else Some (ip, dotted (net_mask (nat bits))))"

lemma net_mask_bits: "bits \<le> 32 \<Longrightarrow> i < 32 \<Longrightarrow> bit (net_mask bits) i \<longleftrightarrow> 32 - bits \<le> i"
  by (auto simp: net_mask_def bit_push_bit_iff bit_not_iff bit_mask_iff)

section \<open>Nothing is killed before its time\<close>

definition cand_pid :: "tk_env \<Rightarrow> int \<Rightarrow> bool" where
  "cand_pid env pid \<longleftrightarrow> (\<exists>hs \<in> set (te_scans env). \<exists>h \<in> set hs. is_candidate env h \<and> ho_PID h = pid)"

definition kill_only :: "tk_env \<Rightarrow> action list \<Rightarrow> bool" where
  "kill_only env xs \<longleftrightarrow> (\<forall>x \<in> set xs. \<exists>pid ok. x = Kill pid ok \<and> cand_pid env pid)"

definition no_kill :: "action list \<Rightarrow> bool" where
  "no_kill xs \<longleftrightarrow> (\<forall>pid ok. Kill pid ok \<notin> set xs)"

text \<open>The run still draws on the environment's scans, and its candidates came from one.\<close>

definition run_ok :: "tk_env \<Rightarrow> tk_run \<Rightarrow> bool" where
  "run_ok env r \<longleftrightarrow> set (tk_scans r) \<subseteq> set (te_scans env) \<and> (\<forall>h \<in> set (tk_Candidates r). cand_pid env (ho_PID h))"

lemma step_simps [simp]:
  "tk_trace (step x r) = tk_trace r" "tk_state (step x r) = tk_state r" "tk_sys (step x r) = tk_sys r"
  "tk_scans (step x r) = tk_scans r" "tk_Candidates (step x r) = tk_Candidates r" "tk_OK (step x r) = tk_OK r"
  "tk_Steps (step x r) = tk_Steps r @ [x]"
  by (simp_all add: step_def)

lemma act_simps [simp]:
  "tk_trace (act x r) = tk_trace r @ [x]" "tk_state (act x r) = tk_state r" "tk_sys (act x r) = tk_sys r"
  "tk_scans (act x r) = tk_scans r" "tk_Candidates (act x r) = tk_Candidates r" "tk_OK (act x r) = tk_OK r"
  "tk_Steps (act x r) = tk_Steps r"
  by (simp_all add: act_def)

lemma fail_simps [simp]:
  "tk_trace (fail_with x r) = tk_trace r" "tk_state (fail_with x r) = tk_state r" "tk_sys (fail_with x r) = tk_sys r"
  by (simp_all add: fail_with_def)

text \<open>What a phase may do to the run: extend the trace by \<open>xs\<close>, nothing else that matters here.\<close>

definition extends :: "tk_run \<Rightarrow> action list \<Rightarrow> tk_run \<Rightarrow> bool" where
  "extends r xs r' \<longleftrightarrow> tk_trace r' = tk_trace r @ xs \<and> tk_state r' = tk_state r \<and> tk_sys r' = tk_sys r
     \<and> tk_Candidates r' = tk_Candidates r \<and> set (tk_scans r') \<subseteq> set (tk_scans r)
     \<and> set (tk_Steps r) \<subseteq> set (tk_Steps r')"

lemma extends_refl [simp]: "extends r [] r"
  by (simp add: extends_def)

lemma extends_trans: "extends r xs r' \<Longrightarrow> extends r' ys r'' \<Longrightarrow> extends r (xs @ ys) r''"
  unfolding extends_def by fastforce

lemma extends_step: "extends r xs r' \<Longrightarrow> extends r xs (step x r')"
  by (auto simp: extends_def)

lemma extends_run_ok: "extends r xs r' \<Longrightarrow> run_ok env r \<Longrightarrow> run_ok env r'"
  by (auto simp: extends_def run_ok_def)

lemma factoryCandidates_ok:
  assumes "factoryCandidates env r = (hs, r')" "run_ok env r"
  shows "extends r [] r'" and "\<forall>h \<in> set hs. cand_pid env (ho_PID h) \<and> is_candidate env h"
proof -
  show "extends r [] r'"
    using assms by (auto simp: factoryCandidates_def extends_def split: list.splits)
  show "\<forall>h \<in> set hs. cand_pid env (ho_PID h) \<and> is_candidate env h"
  proof (cases "tk_scans r")
    case (Cons x xs)
    then have "hs = filter (is_candidate env) x" "x \<in> set (te_scans env)"
      using assms by (auto simp: factoryCandidates_def run_ok_def)
    then show ?thesis by (auto simp: cand_pid_def)
  qed (use assms in \<open>simp add: factoryCandidates_def\<close>)
qed

lemma kill_all_ok:
  assumes "\<forall>h \<in> set hs. cand_pid env (ho_PID h)"
  shows "\<exists>ks. extends r ks (snd (kill_all env rnd hs killed r)) \<and> kill_only env ks"
  using assms
proof (induction hs arbitrary: killed r)
  case Nil
  then show ?case by (intro exI [of _ "[]"]) (simp add: kill_only_def)
next
  case (Cons h hs)
  let ?r = "act (Kill (ho_PID h) (te_kill env (ho_PID h))) r"
  have e: "extends r [Kill (ho_PID h) (te_kill env (ho_PID h))] ?r" by (simp add: extends_def)
  have k: "kill_only env (Kill (ho_PID h) (te_kill env (ho_PID h)) # ks)" if "kill_only env ks" for ks
    using that Cons.prems by (auto simp: kill_only_def)
  have IH: "\<exists>ks. extends r ks (snd (kill_all env rnd hs killed r)) \<and> kill_only env ks" for killed r
    using Cons by simp
  show ?case
  proof (cases "te_kill env (ho_PID h)")
    case True
    obtain ks where "extends (step (SigKill (ho_PID h) (rnd + 1)) ?r) ks
        (snd (kill_all env rnd hs (Suc killed) (step (SigKill (ho_PID h) (rnd + 1)) ?r)))" "kill_only env ks"
      using IH by blast
    then show ?thesis using True extends_trans [OF extends_step [OF e]] k [of ks] by (auto simp: Let_def)
  next
    case False
    obtain ks where "extends ?r ks (snd (kill_all env rnd hs killed ?r))" "kill_only env ks"
      using IH by blast
    then show ?thesis using False extends_trans [OF e] k [of ks] by (auto simp: Let_def)
  qed
qed

lemma kill_rounds_ok:
  assumes "run_ok env r"
  shows "\<exists>ks. extends r ks (snd (kill_rounds env n rnd killed r)) \<and> kill_only env ks"
  using assms
proof (induction n arbitrary: rnd killed r)
  case 0
  obtain hs r1 where f: "factoryCandidates env r = (hs, r1)" by fastforce
  note F = factoryCandidates_ok [OF f 0]
  show ?case
    using F(1) extends_step [OF F(1)] f by (intro exI [of _ "[]"]) (simp add: kill_only_def)
next
  case (Suc n)
  obtain hs r1 where f: "factoryCandidates env r = (hs, r1)" by fastforce
  note F = factoryCandidates_ok [OF f Suc.prems]
  define cs where "cs = (if rnd = 0 then tk_Candidates r1 else hs)"
  have ok1: "run_ok env r1" using extends_run_ok [OF F(1) Suc.prems] .
  have cs: "\<forall>h \<in> set cs. cand_pid env (ho_PID h)" using F(2) ok1 by (auto simp: cs_def run_ok_def)
  obtain k2 r2 where ka: "kill_all env rnd cs killed r1 = (k2, r2)" by fastforce
  obtain ks where ks: "extends r1 ks r2" "kill_only env ks" using kill_all_ok [OF cs, of r1 rnd killed] ka by auto
  have e2: "extends r ks r2" using extends_trans [OF F(1) ks(1)] by simp
  obtain ls where ls: "extends r2 ls (snd (kill_rounds env n (Suc rnd) k2 r2))" "kill_only env ls"
    using Suc.IH [OF extends_run_ok [OF e2 Suc.prems]] by blast
  have kl: "kill_only env (ks @ ls)" using ks(2) ls(2) by (auto simp: kill_only_def)
  have eq: "kill_rounds env (Suc n) rnd killed r
      = (if cs = [] then (killed, r1) else kill_rounds env n (Suc rnd) k2 r2)"
    using ka by (auto simp: f cs_def Let_def)
  show ?case
  proof (cases "cs = []")
    case True
    then show ?thesis unfolding eq using F(1) by (intro exI [of _ "[]"]) (simp add: kill_only_def)
  next
    case False
    then show ?thesis unfolding eq using extends_trans [OF e2 ls(1)] kl by auto
  qed
qed

lemma idle_loop_ok:
  "\<exists>xs. extends r xs (snd (idle_loop deadline ps failed r)) \<and> set xs \<subseteq> {ReadIdle}
     \<and> (fst (idle_loop deadline ps failed r) \<longrightarrow> \<not> failed \<longrightarrow> ps \<noteq> [] \<longrightarrow> (case hd ps of IdlePoll now v f \<Rightarrow> now < deadline) \<longrightarrow>
          IdleConfirmed \<in> set (tk_Steps (snd (idle_loop deadline ps failed r))))
     \<and> (fst (idle_loop deadline ps failed r) \<longrightarrow> failed \<longrightarrow>
          IdleConfirmed \<in> set (tk_Steps (snd (idle_loop deadline ps failed r))))"
proof (induction deadline ps failed r rule: idle_loop.induct)
  case (1 deadline failed r)
  then show ?case by (intro exI [of _ "[]"]) simp
next
  case (2 deadline now ver frozen ps failed r)
  have e: "extends r [ReadIdle] (act ReadIdle r)" by (simp add: extends_def)
  show ?case
  proof (cases "now < deadline")
    case False
    then show ?thesis by (intro exI [of _ "[]"]) simp
  next
    case True
    show ?thesis
    proof (cases "ver \<and> frozen = Some True")
      case fin: True
      then show ?thesis
        using True extends_step [OF e] by (intro exI [of _ "[ReadIdle]"]) simp
    next
      case False
      then have eq: "idle_loop deadline (IdlePoll now ver frozen # ps) failed r
          = idle_loop deadline ps True (act ReadIdle r)"
        using True by (auto simp: Let_def split: option.split bool.split)
      have "\<exists>xs. extends (act ReadIdle r) xs (snd (idle_loop deadline ps True (act ReadIdle r))) \<and> set xs \<subseteq> {ReadIdle}
         \<and> (fst (idle_loop deadline ps True (act ReadIdle r)) \<longrightarrow>
          IdleConfirmed \<in> set (tk_Steps (snd (idle_loop deadline ps True (act ReadIdle r)))))"
        using 2 True False by (cases ver; cases frozen) (auto split: bool.splits)
      then obtain xs where "extends (act ReadIdle r) xs (snd (idle_loop deadline ps True (act ReadIdle r)))"
        "set xs \<subseteq> {ReadIdle}" "fst (idle_loop deadline ps True (act ReadIdle r)) \<longrightarrow>
          IdleConfirmed \<in> set (tk_Steps (snd (idle_loop deadline ps True (act ReadIdle r))))" by blast
      then show ?thesis
        unfolding eq using extends_trans [OF e] by (intro exI [of _ "ReadIdle # xs"]) auto
    qed
  qed
qed

lemma stopGate_ok:
  assumes "stopGate env force r = (go, r')"
  shows "\<exists>xs. extends r' [] r' \<and> tk_trace r' = tk_trace r @ xs \<and> no_kill xs \<and> tk_state r' = tk_state r \<and> tk_sys r' = tk_sys r
    \<and> tk_Candidates r' = tk_Candidates r \<and> tk_scans r' = tk_scans r
    \<and> (go \<longrightarrow> force \<or> tk_Candidates r = [] \<or> SentStop True \<in> set xs)"
  using assms
  by (cases "te_stop env") (auto simp: stopGate_def factoryStop_def no_kill_def Let_def split: if_splits)

lemma fold_candidates:
  "tk_trace (fold (\<lambda>h r. step (CandidateFound h) r) cs r) = tk_trace r
   \<and> tk_state (fold (\<lambda>h r. step (CandidateFound h) r) cs r) = tk_state r
   \<and> tk_sys (fold (\<lambda>h r. step (CandidateFound h) r) cs r) = tk_sys r
   \<and> tk_Candidates (fold (\<lambda>h r. step (CandidateFound h) r) cs r) = tk_Candidates r
   \<and> tk_scans (fold (\<lambda>h r. step (CandidateFound h) r) cs r) = tk_scans r"
  by (induction cs arbitrary: r) simp_all

lemma finish_takeover_ok:
  assumes "run_ok env r"
  shows "\<exists>ks xs. tk_trace (finish_takeover env r) = tk_trace r @ ks @ xs \<and> kill_only env ks \<and> no_kill xs
    \<and> tk_state (finish_takeover env r) = tk_state r \<and> tk_sys (finish_takeover env r) = tk_sys r
    \<and> set (tk_Steps r) \<subseteq> set (tk_Steps (finish_takeover env r))"
proof -
  obtain k r1 where k: "killFactory env r = (k, r1)" by fastforce
  obtain ks where ks: "extends r ks r1" "kill_only env ks"
    using kill_rounds_ok [OF assms, of 4 0 0] k by (auto simp: killFactory_def)
  show ?thesis
    using ks k by (intro exI [of _ ks] exI [of _ "if te_wd env then [AcquireWd True, Reassert] else [AcquireWd False, KeepWatchdog, Reassert]"])
      (auto simp: finish_takeover_def Let_def extends_def no_kill_def)
qed

lemma no_kill_sub: "set xs \<subseteq> {ReadIdle} \<Longrightarrow> no_kill xs"
  by (auto simp: no_kill_def)

text \<open>The shape of a takeover that kills: gates, the persisted flag, kills, the rest.\<close>

lemma Takeover_shape:
  assumes "Kill pid ok \<in> set (tk_trace (Takeover env dry force sf s))"
  shows "\<exists>xs ks zs s' sf'. \<not> dry \<and> \<not> as_TakenOver (get_state sf) \<and> 0 \<le> te_gpmcFD env
    \<and> tk_trace (Takeover env dry force sf s) = xs @ Persist True # ks @ zs
    \<and> no_kill xs \<and> kill_only env ks \<and> no_kill zs
    \<and> (force \<or> tk_Candidates (Takeover env True force sf s) = [] \<or> SentStop True \<in> set xs)
    \<and> (te_polls env \<noteq> [] \<longrightarrow> (\<forall>now v f. hd (te_polls env) = IdlePoll now v f \<longrightarrow> now < te_start env + idle_timeout)
        \<longrightarrow> force \<or> IdleConfirmed \<in> set (tk_Steps (Takeover env dry force sf s)))
    \<and> update_state (\<lambda>x. x\<lparr>as_TakenOver := True\<rparr>) sf s = (True, sf', s')
    \<and> tk_sys (Takeover env dry force sf s) = s'"
proof -
  define r0 where "r0 = \<lparr>tk_OK = False, tk_Steps = [], tk_Candidates = [], tk_Err = NoErr, tk_trace = [],
               tk_scans = te_scans env, tk_state = sf, tk_sys = s\<rparr>"
  define r1 where "r1 = step (GateFd (te_gpmcFD env)) r0"
  obtain cands r2 where f: "factoryCandidates env r1 = (cands, r2)" by fastforce
  define r3 where "r3 = fold (\<lambda>h r. step (CandidateFound h) r) cands (r2\<lparr>tk_Candidates := cands\<rparr>)"
  define r4 where "r4 = step PreKillIPs r3"
  obtain go r5 where g: "stopGate env force r4 = (go, r5)" by fastforce
  obtain idle r6 where i: "confirmIdle env idle_timeout r5 = (idle, r6)" by fastforce
  define r7 where "r7 = (if idle then r6 else step ForceNoIdle r6)"
  obtain okp sf' s' where u: "update_state (\<lambda>x. x\<lparr>as_TakenOver := True\<rparr>) (tk_state r7) (tk_sys r7) = (okp, sf', s')"
    by (metis prod_cases3)
  define r8 where "r8 = act (Persist okp) (r7\<lparr>tk_state := sf', tk_sys := s'\<rparr>)"
  define r9 where "r9 = step StatePersisted r8"
  have T: "Takeover env d force sf s =
     (if as_TakenOver (get_state sf) then act KeepWatchdog (step AlreadyTaken (r0\<lparr>tk_OK := True\<rparr>))
      else if te_gpmcFD env < 0 then step FdMissing (fail_with NoFd r0)
      else if d then step DryRunStop (r3\<lparr>tk_OK := True\<rparr>)
      else if \<not> go then r5 else if \<not> idle \<and> \<not> force then fail_with NotIdle r6
      else if \<not> okp then fail_with PersistFailed r8 else finish_takeover env r9)" for d
    unfolding Takeover_def Let_def r0_def [symmetric] r1_def [symmetric] f prod.case r3_def [symmetric]
      r4_def [symmetric] g i r7_def [symmetric] u r8_def [symmetric] r9_def [symmetric] ..
  have ok1: "run_ok env r1" by (simp add: run_ok_def r1_def r0_def)
  note F = factoryCandidates_ok [OF f ok1]
  have t4: "tk_trace r4 = []" "tk_state r4 = sf" "tk_sys r4 = s" "tk_Candidates r4 = cands" "run_ok env r4"
    and t3: "tk_trace r3 = []"
    using F fold_candidates [of cands "r2\<lparr>tk_Candidates := cands\<rparr>"]
    by (auto simp: r4_def r3_def r1_def r0_def extends_def run_ok_def)
  obtain xs where g5: "tk_trace r5 = xs" "no_kill xs" "tk_state r5 = sf" "tk_sys r5 = s" "tk_Candidates r5 = cands"
    "tk_scans r5 = tk_scans r4" "go \<longrightarrow> force \<or> cands = [] \<or> SentStop True \<in> set xs"
    using stopGate_ok [OF g] t4 by auto
  have ok5: "run_ok env r5" using t4 g5 by (simp add: run_ok_def)
  obtain ys where e6: "extends r5 ys r6" "set ys \<subseteq> {ReadIdle}" "idle \<longrightarrow> te_polls env \<noteq> [] \<longrightarrow>
      (\<forall>now v f. hd (te_polls env) = IdlePoll now v f \<longrightarrow> now < te_start env + idle_timeout) \<longrightarrow> IdleConfirmed \<in> set (tk_Steps r6)"
    using idle_loop_ok [of r5 "te_start env + idle_timeout" "te_polls env" False] i
    by (cases "hd (te_polls env)") (auto simp: confirmIdle_def)
  have e7: "extends r5 ys r7" using e6(1) extends_step by (simp add: r7_def)
  then have t7: "tk_trace r7 = xs @ ys" "tk_state r7 = sf" "tk_sys r7 = s" "run_ok env r7"
    using g5 extends_run_ok [OF e7 ok5] by (auto simp: extends_def)
  have t9: "tk_trace r9 = (xs @ ys) @ [Persist okp]" "tk_sys r9 = s'" "run_ok env r9"
    "set (tk_Steps r6) \<subseteq> set (tk_Steps r9)" "tk_trace r8 = (xs @ ys) @ [Persist okp]"
    using t7 by (auto simp: r9_def r8_def run_ok_def r7_def)
  have nk: "no_kill (xs @ ys)" using g5(2) no_kill_sub [OF e6(2)] by (auto simp: no_kill_def)
  obtain ks zs where fin: "tk_trace (finish_takeover env r9) = tk_trace r9 @ ks @ zs" "kill_only env ks" "no_kill zs"
    "tk_sys (finish_takeover env r9) = s'" "set (tk_Steps r9) \<subseteq> set (tk_Steps (finish_takeover env r9))"
    using finish_takeover_ok [OF t9(3)] t9(2) by auto
  have k: "\<not> as_TakenOver (get_state sf)" "\<not> te_gpmcFD env < 0" "\<not> dry" "go" "idle \<or> force" "okp"
    using assms(1) nk t3 t9(5) g5(1,2) e6(1) by (auto simp: T r0_def extends_def no_kill_def split: if_splits)
  then have R: "Takeover env dry force sf s = finish_takeover env r9"
    "tk_Candidates (Takeover env True force sf s) = cands"
    using T fold_candidates [of cands "r2\<lparr>tk_Candidates := cands\<rparr>"] by (auto simp: r3_def)
  have tr: "tk_trace (Takeover env dry force sf s) = (xs @ ys) @ Persist True # ks @ zs"
    unfolding R fin(1) t9(1) using k(6) by simp
  have u': "update_state (\<lambda>x. x\<lparr>as_TakenOver := True\<rparr>) sf s = (True, sf', s')"
    using u k(6) unfolding t7 by simp
  have st: "force \<or> cands = [] \<or> SentStop True \<in> set (xs @ ys)" using g5(7) k(4) by auto
  have id: "te_polls env \<noteq> [] \<longrightarrow> (\<forall>now v f. hd (te_polls env) = IdlePoll now v f \<longrightarrow> now < te_start env + idle_timeout)
        \<longrightarrow> force \<or> IdleConfirmed \<in> set (tk_Steps (Takeover env dry force sf s))"
    using e6(3) k(5) t9(4) fin(5) unfolding R(1) by blast
  show ?thesis
    by (rule exI [of _ "xs @ ys"], rule exI [of _ ks], rule exI [of _ zs], rule exI [of _ s'], rule exI [of _ sf'])
      (use k(1-3) nk fin(2,3,4) tr u' st id R in auto)
qed

lemma Takeover_kills_candidates:
  assumes "Kill pid ok \<in> set (tk_trace (Takeover env dry force sf s))"
  shows "cand_pid env pid \<and> \<not> dry"
  using Takeover_shape [OF assms] assms by (auto simp: no_kill_def kill_only_def)

lemma reclaimBus_kills_candidates:
  assumes "Kill pid ok \<in> set (tk_trace (reclaimBus env sf s))"
  shows "cand_pid env pid"
proof -
  define r0 where "r0 = \<lparr>tk_OK = False, tk_Steps = [], tk_Candidates = [], tk_Err = NoErr, tk_trace = [],
               tk_scans = te_scans env, tk_state = sf, tk_sys = s\<rparr>"
  obtain cands r1 where f: "factoryCandidates env r0 = (cands, r1)" by fastforce
  define r2 where "r2 = r1\<lparr>tk_Candidates := cands\<rparr>"
  obtain st r3 where g: "factoryStop env r2 = (st, r3)" by fastforce
  obtain i r4 where i: "confirmIdle env reclaim_timeout r3 = (i, r4)" by fastforce
  define r5 where "r5 = (if te_gpmcFD env < 0 then r2 else r4)"
  have T: "reclaimBus env sf s = (if cands = [] then r2 else snd (killFactory env r5))"
    unfolding reclaimBus_def Let_def r0_def [symmetric] f prod.case r2_def [symmetric] g i r5_def [symmetric] ..
  have "run_ok env r0" by (simp add: run_ok_def r0_def)
  note F = factoryCandidates_ok [OF f this]
  have t2: "tk_trace r2 = []" "run_ok env r2" using F by (auto simp: r2_def extends_def r0_def run_ok_def)
  have t3: "tk_trace r3 = [SentStop st]" "run_ok env r3"
    using g t2 by (auto simp: factoryStop_def run_ok_def)
  obtain ys where ys: "extends r3 ys r4" "set ys \<subseteq> {ReadIdle}"
    using idle_loop_ok [of r3 "te_start env + reclaim_timeout" "te_polls env" False] i by (auto simp: confirmIdle_def)
  have t5: "no_kill (tk_trace r5)" "run_ok env r5"
    using t2 t3 ys extends_run_ok [OF ys(1)] no_kill_sub [OF ys(2)] by (auto simp: r5_def extends_def no_kill_def)
  obtain ks where "extends r5 ks (snd (killFactory env r5))" "kill_only env ks"
    using kill_rounds_ok [OF t5(2), of 4 0 0] by (auto simp: killFactory_def)
  then show ?thesis
    using assms t2 t5 unfolding T by (auto simp: extends_def no_kill_def kill_only_def split: if_splits)
qed

text \<open>
  C2: Nothing is killed before everything is in place. If a takeover kills a process then it was not a
  dry run and the device was not already taken over, the agent held the inherited descriptor, the
  process came out of a scan as a factory candidate, the factory was told to stop unless there was
  none or the operator forced it, the engine's idle landing was confirmed unless forced, and the
  taken-over flag was on the stick before the first kill, where the next boot reads it.
\<close>

theorem Takeover_kill_order:
  assumes "Kill pid ok \<in> set (tk_trace (Takeover env dry force sf s))"
    and "te_polls env \<noteq> []" and "\<forall>now v f. hd (te_polls env) = IdlePoll now v f \<longrightarrow> now < te_start env + idle_timeout"
    and "\<forall>x z. unm (MarshalState x @ [10]) z = x"
    and "sf_s sf = sf_disk sf" and "boot_state unm (sf_path sf) s = sf_disk sf"
  shows "\<not> dry \<and> \<not> as_TakenOver (get_state sf) \<and> 0 \<le> te_gpmcFD env \<and> cand_pid env pid

    \<and> (force \<or> IdleConfirmed \<in> set (tk_Steps (Takeover env dry force sf s)))
    \<and> (force \<or> tk_Candidates (Takeover env True force sf s) = [] \<or> SentStop True \<in> set (tk_trace (Takeover env dry force sf s)))
    \<and> (\<exists>xs ys. tk_trace (Takeover env dry force sf s) = xs @ Persist True # ys \<and> no_kill xs)
    \<and> as_TakenOver (boot_state unm (sf_path sf) (tk_sys (Takeover env dry force sf s)))"
proof -
  obtain xs ks zs s' sf' where S: "\<not> dry" "\<not> as_TakenOver (get_state sf)" "0 \<le> te_gpmcFD env"
    "tk_trace (Takeover env dry force sf s) = xs @ Persist True # ks @ zs"
    "no_kill xs" "kill_only env ks" "no_kill zs"
    "force \<or> tk_Candidates (Takeover env True force sf s) = [] \<or> SentStop True \<in> set xs"
    "force \<or> IdleConfirmed \<in> set (tk_Steps (Takeover env dry force sf s))"
    "update_state (\<lambda>x. x\<lparr>as_TakenOver := True\<rparr>) sf s = (True, sf', s')"
    "tk_sys (Takeover env dry force sf s) = s'"
    using Takeover_shape [OF assms(1)] assms(2,3) by blast
  have "as_TakenOver (boot_state unm (sf_path sf) s')"
    using update_state_boot [OF assms(4-6) S(10)] by simp
  then show ?thesis
    using S Takeover_kills_candidates [OF assms(1)] by auto
qed

definition sample_env :: tk_env where
  "sample_env = \<lparr>te_self = 500, te_gpmcFD = 3, te_ourExe = ''/usr/agent'', te_root = ''/s'', te_evalsym = Some,
     te_ppid = (\<lambda>_. 1), te_names = [], te_scans = [[\<lparr>ho_PID = 321, ho_Comm = ''sds'', ho_Exe = ''/usr/sds''\<rparr>]],
     te_stop = True, te_polls = [IdlePoll 0 False None, IdlePoll 1 True (Some True)], te_start = 0,
     te_kill = (\<lambda>_. True), te_wd = True\<rparr>"

definition sample_sf :: stateFile where
  "sample_sf = \<lparr>sf_path = ''/st'', sf_s = zero_state, sf_disk = zero_state\<rparr>"

lemma Takeover_kill_order_witness:
  "Kill 321 True \<in> set (tk_trace (Takeover sample_env False False sample_sf (sample_sys [] [])))
   \<and> as_TakenOver (boot_state sample_unm ''/st'' (tk_sys (Takeover sample_env False False sample_sf (sample_sys [] []))))"
proof -
  have k: "Kill 321 True \<in> set (tk_trace (Takeover sample_env False False sample_sf (sample_sys [] [])))"
    by code_simp
  have "as_TakenOver (boot_state sample_unm (sf_path sample_sf) (tk_sys (Takeover sample_env False False sample_sf (sample_sys [] []))))"
    using Takeover_kill_order [OF k, of sample_unm] sample_unm_inverse
    by (simp add: sample_env_def idle_timeout_def sample_sf_def boot_state_def sample_sys_def)
  with k show ?thesis by (simp add: sample_sf_def)
qed

lemma descends_up_mono: "descends_up n ppid pid anc \<Longrightarrow> descends_up (n + k) ppid pid anc"
  by (induction n arbitrary: pid) (auto split: if_splits)

text \<open>
  What a kill can hit. Takeover and the later reclaim of the bus send \<open>SIGKILL\<close> only to processes
  a scan found holding the bus, and never to the agent itself, to process 1, to a child or a
  grandchild of the agent, to another process of the agent's own binary, or to an app running from the
  slot store; a dry run does nothing but look.
\<close>

theorem kills_spare_our_own:
  assumes "Kill pid ok \<in> set (tk_trace (Takeover env dry force sf s)) \<or> Kill pid ok \<in> set (tk_trace (reclaimBus env sf s))"
  shows "\<not> (dry \<and> Kill pid ok \<in> set (tk_trace (Takeover env dry force sf s)))
    \<and> (\<exists>hs \<in> set (te_scans env). \<exists>h \<in> set hs. ho_PID h = pid \<and> pid \<noteq> te_self env \<and> pid \<noteq> 1
        \<and> (pid > 1 \<longrightarrow> te_ppid env pid \<noteq> te_self env
             \<and> (te_ppid env pid > 1 \<longrightarrow> te_ppid env (te_ppid env pid) \<noteq> te_self env))
        \<and> (\<forall>rp. ho_Exe h \<noteq> [] \<and> te_evalsym env (ho_Exe h) = Some rp \<longrightarrow>
             rp \<noteq> our_exe env \<and> \<not> is_prefix (slot_root env @ ''/'') rp))"
proof -
  have spare: "pid \<noteq> te_self env \<and> pid \<noteq> 1 \<and> (pid > 1 \<longrightarrow> te_ppid env pid \<noteq> te_self env
             \<and> (te_ppid env pid > 1 \<longrightarrow> te_ppid env (te_ppid env pid) \<noteq> te_self env))
        \<and> (\<forall>rp. ho_Exe h \<noteq> [] \<and> te_evalsym env (ho_Exe h) = Some rp \<longrightarrow>
             rp \<noteq> our_exe env \<and> \<not> is_prefix (slot_root env @ ''/'') rp)"
    if "is_candidate env h" "ho_PID h = pid" for h
  proof -
    have d: "\<not> descends_up (2 + 62) (te_ppid env) pid (te_self env)"
      using that by (auto simp: is_candidate_def descendsFrom_def split: if_splits)
    then have "\<not> descends_up 2 (te_ppid env) pid (te_self env)" using descends_up_mono by blast
    then show ?thesis
      using that by (auto simp: is_candidate_def numeral_2_eq_2 split: if_splits option.splits)
  qed
  have c: "cand_pid env pid" "\<not> (dry \<and> Kill pid ok \<in> set (tk_trace (Takeover env dry force sf s)))"
    using assms Takeover_kills_candidates reclaimBus_kills_candidates by blast+
  then show ?thesis using spare unfolding cand_pid_def by blast
qed

lemma kills_spare_our_own_witness:
  "\<exists>hs \<in> set (te_scans sample_env). \<exists>h \<in> set hs. ho_PID h = 321 \<and> (321 :: int) \<noteq> te_self sample_env"
proof -
  have "Kill 321 True \<in> set (tk_trace (Takeover sample_env False False sample_sf (sample_sys [] [])))"
    by code_simp
  then have k: "Kill 321 True \<in> set (tk_trace (Takeover sample_env False False sample_sf (sample_sys [] [])))
     \<or> Kill 321 True \<in> set (tk_trace (reclaimBus sample_env sample_sf (sample_sys [] [])))" by (rule disjI1)
  show ?thesis using kills_spare_our_own [OF k] by blast
qed

end
