(* ===== verification/Saver.thy ===== *)
theory Saver
  imports Main
begin

text \<open>
  The settings saver of \<open>app/internal/settings/saver.go\<close>: it polls the live setup, waits until it has
  been still for the settle window, and writes it when it differs from the file. The setup is any type
  with equality; a poll gives the setup, the time and whether the sink would accept a write. What
  reaches the sink is recorded, and the last accepted write is the file.
\<close>

record 'a saver =
  sa_settle :: int
  sa_primed :: bool
  sa_last :: 'a
  sa_lastChange :: int
  sa_saved :: 'a
  sa_unsaved :: bool
  sa_fails :: nat
  sa_writes :: "('a \<times> bool) list"
  sa_logged :: nat

definition NewSaver :: "'a \<Rightarrow> 'a saver" where
  "NewSaver z = \<lparr>sa_settle = 2000000000, sa_primed = False, sa_last = z, sa_lastChange = 0, sa_saved = z,
     sa_unsaved = False, sa_fails = 0, sa_writes = [], sa_logged = 0\<rparr>"

definition persistLocked :: "bool \<Rightarrow> 'a \<Rightarrow> 'a saver \<Rightarrow> 'a saver" where
  "persistLocked ok cur s =
     (let s = s\<lparr>sa_writes := sa_writes s @ [(cur, ok)]\<rparr> in
      if \<not> ok then
        let s = s\<lparr>sa_fails := Suc (sa_fails s)\<rparr>
        in if sa_fails s = 1 \<or> sa_fails s mod 60 = 0 then s\<lparr>sa_logged := Suc (sa_logged s)\<rparr> else s
      else
        let s = (if sa_fails s > 0 then s\<lparr>sa_logged := Suc (sa_logged s)\<rparr> else s);
            s = s\<lparr>sa_fails := 0, sa_saved := cur, sa_unsaved := (sa_last s \<noteq> cur)\<rparr>
        in s\<lparr>sa_logged := Suc (sa_logged s)\<rparr>)"

definition saver_step :: "'a \<Rightarrow> int \<Rightarrow> bool \<Rightarrow> 'a saver \<Rightarrow> 'a saver" where
  "saver_step cur now ok s =
     (if \<not> sa_primed s then s\<lparr>sa_last := cur, sa_saved := cur, sa_primed := True, sa_unsaved := False\<rparr>
      else if cur \<noteq> sa_last s then
        (let s = s\<lparr>sa_last := cur, sa_lastChange := now\<rparr> in s\<lparr>sa_unsaved := (cur \<noteq> sa_saved s)\<rparr>)
      else if \<not> sa_unsaved s \<or> now - sa_lastChange s < sa_settle s then s
      else persistLocked ok cur s)"

definition Flush :: "'a \<Rightarrow> bool \<Rightarrow> 'a saver \<Rightarrow> 'a saver" where
  "Flush cur ok s =
     (if sa_primed s \<and> cur = sa_saved s then s
      else let s = persistLocked ok cur s;
               s = s\<lparr>sa_last := cur, sa_primed := True\<rparr>
           in s\<lparr>sa_unsaved := (cur \<noteq> sa_saved s)\<rparr>)"

text \<open>\<open>Run\<close>: the polls of the ticker, then the flush when it is stopped.\<close>

definition polls :: "('a \<times> int \<times> bool) list \<Rightarrow> 'a saver \<Rightarrow> 'a saver" where
  "polls ps s = fold (\<lambda>(cur, now, ok) s. saver_step cur now ok s) ps s"

definition saver_run :: "('a \<times> int \<times> bool) list \<Rightarrow> 'a \<times> bool \<Rightarrow> 'a saver \<Rightarrow> 'a saver" where
  "saver_run ps fin s = (case fin of (cur, ok) \<Rightarrow> Flush cur ok (polls ps s))"

section \<open>The shadow of the file\<close>

definition file_of :: "'a \<Rightarrow> ('a \<times> bool) list \<Rightarrow> 'a" where
  "file_of z ws = (case filter snd ws of [] \<Rightarrow> z | xs \<Rightarrow> fst (last xs))"

definition saver_inv :: "'a saver \<Rightarrow> bool" where
  "saver_inv s \<longleftrightarrow> (sa_unsaved s \<longleftrightarrow> sa_last s \<noteq> sa_saved s)"

lemma persist_fields [simp]:
  "sa_last (persistLocked ok cur s) = sa_last s" "sa_primed (persistLocked ok cur s) = sa_primed s"
  "sa_settle (persistLocked ok cur s) = sa_settle s" "sa_lastChange (persistLocked ok cur s) = sa_lastChange s"
  "sa_saved (persistLocked ok cur s) = (if ok then cur else sa_saved s)"
  "sa_writes (persistLocked ok cur s) = sa_writes s @ [(cur, ok)]"
  "sa_unsaved (persistLocked ok cur s) = (if ok then sa_last s \<noteq> cur else sa_unsaved s)"
  by (simp_all add: persistLocked_def Let_def)

lemma file_of_snoc [simp]: "file_of z (ws @ [(c, ok)]) = (if ok then c else file_of z ws)"
  by (cases "filter snd ws") (simp_all add: file_of_def)

lemma saver_step_inv: "saver_inv s \<Longrightarrow> saver_inv (saver_step cur now ok s)"
  by (auto simp: saver_inv_def saver_step_def)

lemma polls_Cons: "polls ((c, t, ok) # ps) s = polls ps (saver_step c t ok s)"
  by (simp add: polls_def)

lemma polls_inv: "saver_inv s \<Longrightarrow> saver_inv (polls ps s)"
  by (induction ps arbitrary: s) (auto simp: polls_def intro: saver_step_inv)

lemma step_file:
  "sa_primed s \<Longrightarrow> sa_saved s = file_of z (sa_writes s) \<Longrightarrow>
   sa_primed (saver_step c t ok s) \<and> sa_saved (saver_step c t ok s) = file_of z (sa_writes (saver_step c t ok s))"
  by (simp add: saver_step_def)

lemma polls_file:
  "sa_primed s \<Longrightarrow> sa_saved s = file_of z (sa_writes s) \<Longrightarrow>
   sa_primed (polls ps s) \<and> sa_saved (polls ps s) = file_of z (sa_writes (polls ps s))"
proof (induction ps arbitrary: s)
  case (Cons p ps)
  obtain c t ok where p: "p = (c, t, ok)" by (cases p) auto
  show ?case using Cons.IH [of "saver_step c t ok s"] step_file [OF Cons.prems] by (simp add: p polls_Cons)
qed (simp add: polls_def)

text \<open>
  The saver knows what is on disk, and a stop leaves the last setup there. From a start on the
  restored setup \<open>z\<close>, over any polls with any failing writes, the shadow it compares with is the file's
  content; and if the final flush's write is accepted, or none is due, the file holds the setup the
  flush saw. A flush whose setup is already on disk does not write.
\<close>

theorem saver_flush_lands:
  assumes "saver_run ((z, t, k) # ps) (cur, ok) (NewSaver y) = s"
  shows "(ok \<longrightarrow> file_of z (sa_writes s) = cur)
    \<and> (file_of z (sa_writes (polls ((z, t, k) # ps) (NewSaver y))) = cur \<longrightarrow>
         sa_writes s = sa_writes (polls ((z, t, k) # ps) (NewSaver y)))
    \<and> sa_saved s = file_of z (sa_writes s)"
proof -
  define s1 where "s1 = polls ps (saver_step z t k (NewSaver y))"
  have f: "sa_primed s1" "sa_saved s1 = file_of z (sa_writes s1)"
    using polls_file [of "saver_step z t k (NewSaver y)" z ps]
    by (simp_all add: s1_def saver_step_def NewSaver_def file_of_def)
  have s: "s = Flush cur ok s1" using assms by (simp add: saver_run_def polls_Cons s1_def)
  have p: "polls ((z, t, k) # ps) (NewSaver y) = s1" by (simp add: polls_Cons s1_def)
  show ?thesis
    unfolding p using f by (auto simp: s Flush_def Let_def)
qed

lemma saver_flush_lands_witness:
  "file_of (1 :: nat) (sa_writes (saver_run [(1, 0, True), (2, 1, True)] (2, True) (NewSaver 0))) = 2"
  using saver_flush_lands [where z = "1 :: nat" and t = 0 and k = True and ps = "[(2, 1, True)]" and cur = 2
      and ok = True and y = 0, OF refl] by simp

section \<open>One write per change\<close>

text \<open>A run of polls that each see something else than the poll before.\<close>

fun moving :: "'a \<Rightarrow> ('a \<times> int \<times> bool) list \<Rightarrow> bool" where
  "moving prev [] \<longleftrightarrow> True"
| "moving prev ((c, t, ok) # ps) \<longleftrightarrow> c \<noteq> prev \<and> moving c ps"

lemma polls_moving:
  "sa_primed s \<Longrightarrow> saver_inv s \<Longrightarrow> moving (sa_last s) ps \<Longrightarrow>
   sa_writes (polls ps s) = sa_writes s \<and> sa_saved (polls ps s) = sa_saved s \<and> sa_primed (polls ps s)
   \<and> sa_settle (polls ps s) = sa_settle s \<and> saver_inv (polls ps s)
   \<and> (ps \<noteq> [] \<longrightarrow> sa_last (polls ps s) = fst (last ps) \<and> sa_lastChange (polls ps s) = fst (snd (last ps)))"
proof (induction ps arbitrary: s)
  case (Cons p ps)
  obtain c t ok where p: "p = (c, t, ok)" by (cases p) auto
  let ?s = "saver_step c t ok s"
  have c: "c \<noteq> sa_last s" "moving c ps" using Cons.prems(3) p by auto
  then have st: "sa_writes ?s = sa_writes s" "sa_saved ?s = sa_saved s" "sa_primed ?s" "sa_settle ?s = sa_settle s"
    "sa_last ?s = c" "sa_lastChange ?s = t" "saver_inv ?s"
    using Cons.prems(1,2) by (simp_all add: saver_step_def saver_inv_def)
  show ?case using Cons.IH [of ?s] st c by (cases ps) (auto simp: p polls_Cons polls_def)
qed (simp add: polls_def)

lemma polls_still:
  assumes "sa_primed s" "saver_inv s" "sa_last s = c" "\<forall>p \<in> set ps. fst p = c \<and> snd (snd p)"
  shows "sa_writes (polls ps s) = sa_writes s @
      (if c \<noteq> sa_saved s \<and> (\<exists>p \<in> set ps. sa_settle s \<le> fst (snd p) - sa_lastChange s) then [(c, True)] else [])"
  using assms
proof (induction ps arbitrary: s)
  case (Cons p ps)
  obtain t where p: "p = (c, t, True)" using Cons.prems(4) by (cases p) auto
  let ?s = "saver_step c t True s"
  have IH: "sa_writes (polls ps ?s) = sa_writes ?s @
      (if c \<noteq> sa_saved ?s \<and> (\<exists>p \<in> set ps. sa_settle ?s \<le> fst (snd p) - sa_lastChange ?s) then [(c, True)] else [])"
  proof (rule Cons.IH)
    show "saver_inv ?s" by (rule saver_step_inv [OF Cons.prems(2)])
  qed (use Cons.prems in \<open>auto simp: saver_step_def\<close>)
  show ?case
  proof (cases "c \<noteq> sa_saved s \<and> sa_settle s \<le> t - sa_lastChange s")
    case True
    then have "?s = persistLocked True c s"
      using Cons.prems(1-3) by (auto simp: saver_step_def saver_inv_def)
    then show ?thesis using IH True by (simp add: p polls_Cons)
  next
    case False
    then have "?s = s" using Cons.prems(1-3) by (auto simp: saver_step_def saver_inv_def)
    then show ?thesis using IH False by (auto simp: p polls_Cons)
  qed
qed (simp add: polls_def)

text \<open>
  A knob sweep costs one write. While every poll sees a new setup nothing is written; once the setup
  stays at \<open>c\<close>, first seen at time \<open>t\<close>, nothing is written before the settle window is over, exactly
  one write of \<open>c\<close> is made after it, and none at all when the sweep came back to what is on disk.
\<close>

theorem knob_sweep_one_write:
  assumes "sa_primed s" and "saver_inv s" and "moving (sa_last s) (sweep @ [(c, t, k)])"
    and "\<forall>p \<in> set still. fst p = c \<and> snd (snd p)"
  shows "sa_writes (polls (sweep @ [(c, t, k)] @ still) s) = sa_writes s @
    (if c \<noteq> sa_saved s \<and> (\<exists>p \<in> set still. sa_settle s \<le> fst (snd p) - t) then [(c, True)] else [])"
proof -
  define s1 where "s1 = polls (sweep @ [(c, t, k)]) s"
  have m: "sa_writes s1 = sa_writes s" "sa_saved s1 = sa_saved s" "sa_primed s1" "sa_settle s1 = sa_settle s"
    "saver_inv s1" "sa_last s1 = c" "sa_lastChange s1 = t"
    using polls_moving [OF assms(1-3)] by (auto simp: s1_def)
  have "polls (sweep @ [(c, t, k)] @ still) s = polls still s1" by (simp add: polls_def s1_def)
  then show ?thesis using polls_still [OF m(3,5,6) assms(4)] m by simp
qed

lemma knob_sweep_one_write_witness:
  "sa_writes (polls ([(5, 1, True), (6, 2, True)] @ [(7, 3, True)] @ [(7, 4, True), (7, 2000000003, True), (7, 3000000000, True)])
     (saver_step 1 0 True (NewSaver (0 :: nat)))) = [(7, True)]"
  by (subst knob_sweep_one_write) (simp_all add: saver_step_def NewSaver_def saver_inv_def)

end
