(* ===== verification/MatchEditor.thy ===== *)
theory MatchEditor
  imports GoText
begin

text \<open>
  The serial trigger's match as text: the editor tokens and their compilation
  (\<open>app/internal/panel/match_editor.go\<close>), the full-screen editor's state and keys, the byte picker, and
  typed match text (\<open>textparse.go\<close>). A match is a list of byte values, or a list of token patterns
  when a wildcard or a named token is used.
\<close>

record PatternElem =
  pe_Kind :: int
  pe_Value :: int
  pe_Mask :: int

definition MILCommand :: int where "MILCommand = 65536"

definition kbMaxTokens :: nat where "kbMaxTokens = 32"

definition tok_ERR :: string where "tok_ERR = ''ERR''"
definition tok_SOF :: string where "tok_SOF = ''SOF''"
definition tok_CMD :: string where "tok_CMD = ''CMD''"
definition tok_STS :: string where "tok_STS = ''STS''"

lemmas tok_names = tok_ERR_def tok_SOF_def tok_CMD_def tok_STS_def

section \<open>Tokens and matches\<close>

text \<open>\<open>hexTok\<close>: a byte as two upper-case digits.\<close>

definition hexTok :: "int \<Rightarrow> string" where
  "hexTok b = hex2 (nat b)"

definition tok_of_elem :: "PatternElem \<Rightarrow> string" where
  "tok_of_elem e =
     (if pe_Kind e = 4 then tok_ERR
      else if pe_Kind e = 1 then tok_SOF
      else if pe_Mask e AND MILCommand \<noteq> 0 \<and> pe_Value e AND MILCommand \<noteq> 0 then tok_CMD
      else if pe_Mask e AND 0xff = 0x80 \<and> pe_Value e AND 0x80 \<noteq> 0 then tok_STS
      else if pe_Mask e AND 0xff = 0 then ''??''
      else if pe_Mask e AND 0xff = 0xf0 then drop 1 (hexTok (drop_bit 4 (pe_Value e) AND 0xf)) @ ''?''
      else if pe_Mask e AND 0xff = 0x0f then ''?'' @ drop 1 (hexTok (pe_Value e AND 0xf))
      else hexTok (pe_Value e AND 0xff))"

definition tokensOf :: "int list \<Rightarrow> PatternElem list \<Rightarrow> string list" where
  "tokensOf bs pat =
     (if pat = [] then map (\<lambda>b. hexTok (b AND 0xff)) bs else map tok_of_elem pat)"

definition midiStatus :: PatternElem where
  "midiStatus = \<lparr>pe_Kind = 2, pe_Value = 0x80, pe_Mask = 0x80\<rparr>"

text \<open>One token: the element and whether it is plain; \<^term>\<open>None\<close> is the bad token error.\<close>

definition compile_token :: "string \<Rightarrow> (PatternElem \<times> bool) option" where
  "compile_token t =
     (if t = tok_ERR then Some (\<lparr>pe_Kind = 4, pe_Value = 0, pe_Mask = 0\<rparr>, False)
      else if t = tok_SOF then Some (\<lparr>pe_Kind = 1, pe_Value = 0, pe_Mask = 0\<rparr>, False)
      else if t = tok_CMD then Some (\<lparr>pe_Kind = 2, pe_Value = MILCommand, pe_Mask = MILCommand\<rparr>, False)
      else if t = tok_STS then Some (midiStatus, False)
      else if length t < 1 \<or> 2 < length t then None
      else case ParseHex8 (map (\<lambda>c. if c = CHR ''?'' then CHR ''0'' else c) t) of
        None \<Rightarrow> None
      | Some v \<Rightarrow>
          (let mask = (if t = ''??'' \<or> t = ''?'' then 0
                       else if length t = 2 \<and> t ! 1 = CHR ''?'' then 0xf0
                       else if length t = 2 \<and> t ! 0 = CHR ''?'' then 0x0f else 0xff)
           in Some (\<lparr>pe_Kind = 2, pe_Value = int v, pe_Mask = mask\<rparr>, mask = 0xff)))"

fun compile_loop :: "string list \<Rightarrow> bool \<Rightarrow> PatternElem list \<Rightarrow> (bool \<times> PatternElem list) option" where
  "compile_loop [] plain pat = Some (plain, pat)"
| "compile_loop (t # ts) plain pat = (case compile_token t of
     None \<Rightarrow> None | Some (e, pl) \<Rightarrow> compile_loop ts (plain \<and> pl) (pat @ [e]))"

definition compileTokens :: "string list \<Rightarrow> (int list \<times> PatternElem list) option" where
  "compileTokens toks = (case compile_loop toks True [] of
     None \<Rightarrow> None
   | Some (plain, pat) \<Rightarrow> if plain then Some (map pe_Value pat, []) else Some ([], pat))"

datatype match_error = NoTrigger | TooManyUnits nat | BadToken

text \<open>\<open>setMatchTokens\<close>: the trigger's match, when the engine has a serial trigger.\<close>

definition setMatchTokens ::
  "string list \<Rightarrow> (int list \<times> PatternElem list) option \<Rightarrow> (match_error + int list \<times> PatternElem list)" where
  "setMatchTokens toks trig = (case trig of
     None \<Rightarrow> Inl NoTrigger
   | Some _ \<Rightarrow> if kbMaxTokens < length toks then Inl (TooManyUnits (length toks))
       else case compileTokens toks of None \<Rightarrow> Inl BadToken | Some m \<Rightarrow> Inr m)"

section \<open>Keys\<close>

datatype kb_set = KbHex | KbText | KbSpecial

definition kbGrid :: "kb_set \<Rightarrow> string list list" where
  "kbGrid st = (case st of
     KbText \<Rightarrow> map (\<lambda>r. map (\<lambda>k. [char_of (0x20 + r * 16 + k)]) (filter (\<lambda>k. 0x20 + r * 16 + k < (0x7f :: nat)) [0..<16])) [0..<6]
   | KbSpecial \<Rightarrow> [[''??'', ''ERR'', ''CR'', ''LF''], [''NUL'', ''<'', ''>'', ''CLR'']]
   | KbHex \<Rightarrow> [[''0'', ''1'', ''2'', ''3'', ''4'', ''5''], [''6'', ''7'', ''8'', ''9'', ''A'', ''B''],
                [''C'', ''D'', ''E'', ''F'', ''?'', ''??'']])"

record match_editor =
  kb_open :: bool
  kb_set :: kb_set
  kb_row :: nat
  kb_col :: nat
  kb_toks :: "string list"
  kb_cur :: nat
  kb_typing :: bool
  kb_msg :: bool

definition openMatchSub :: "string list \<Rightarrow> match_editor" where
  "openMatchSub toks = \<lparr>kb_open = True, kb_set = KbHex, kb_row = 0, kb_col = 0, kb_toks = toks,
     kb_cur = length toks, kb_typing = False, kb_msg = False\<rparr>"

definition insert_tok :: "string \<Rightarrow> match_editor \<Rightarrow> bool \<times> match_editor" where
  "insert_tok t k =
     (if kbMaxTokens \<le> length (kb_toks k) then (False, k\<lparr>kb_msg := True\<rparr>)
      else (True, k\<lparr>kb_toks := take (kb_cur k) (kb_toks k) @ [t] @ drop (kb_cur k) (kb_toks k),
                    kb_cur := Suc (kb_cur k)\<rparr>))"

definition press :: "string \<Rightarrow> match_editor \<Rightarrow> match_editor" where
  "press key k = (case kb_set k of
     KbText \<Rightarrow> (snd (insert_tok (hex2 (of_char (hd key))) k))\<lparr>kb_typing := False\<rparr>
   | KbSpecial \<Rightarrow>
       (if key = ''<'' then k\<lparr>kb_cur := kb_cur k - 1\<rparr>
        else if key = ''>'' then k\<lparr>kb_cur := min (length (kb_toks k)) (kb_cur k + 1)\<rparr>
        else if key = ''CLR'' then k\<lparr>kb_toks := [], kb_cur := 0\<rparr>
        else if key = ''CR'' then snd (insert_tok ''0D'' k)
        else if key = ''LF'' then snd (insert_tok ''0A'' k)
        else if key = ''NUL'' then snd (insert_tok ''00'' k)
        else snd (insert_tok key k))\<lparr>kb_typing := False\<rparr>
   | KbHex \<Rightarrow>
       (if key = ''??'' then (snd (insert_tok ''??'' k))\<lparr>kb_typing := False\<rparr>
        else if kb_typing k \<and> 0 < kb_cur k \<and> length (kb_toks k ! (kb_cur k - 1)) = 1
        then k\<lparr>kb_toks := (kb_toks k)[kb_cur k - 1 := kb_toks k ! (kb_cur k - 1) @ key], kb_typing := False\<rparr>
        else let (ok, k) = insert_tok key k in k\<lparr>kb_typing := ok\<rparr>))"

text \<open>Go's remainder takes the sign of the dividend.\<close>

definition go_rem :: "int \<Rightarrow> int \<Rightarrow> int" where
  "go_rem a b = (if 0 \<le> a then a mod b else - (- a mod b))"

fun key_index :: "string list list \<Rightarrow> nat \<Rightarrow> nat \<Rightarrow> nat \<Rightarrow> nat \<Rightarrow> nat \<Rightarrow> nat \<times> nat" where
  "key_index [] r row col tot idx = (tot, idx)"
| "key_index (ks # g) r row col tot idx =
     key_index g (Suc r) row col (tot + length ks) (if r = row then tot + min col (length ks - 1) else idx)"

fun key_at :: "string list list \<Rightarrow> nat \<Rightarrow> nat \<Rightarrow> (nat \<times> nat) option" where
  "key_at [] r idx = None"
| "key_at (ks # g) r idx = (if idx < length ks then Some (r, idx) else key_at g (Suc r) (idx - length ks))"

definition matchMoveKey :: "int \<Rightarrow> match_editor \<Rightarrow> match_editor" where
  "matchMoveKey n k =
     (let g = kbGrid (kb_set k);
          (tot, idx) = key_index g 0 (kb_row k) (kb_col k) 0 0;
          idx = go_rem (go_rem (int idx + n) (int tot) + int tot) (int tot)
      in case key_at g 0 (nat idx) of None \<Rightarrow> k | Some (r, c) \<Rightarrow> k\<lparr>kb_row := r, kb_col := c\<rparr>)"

definition matchMoveCursor :: "int \<Rightarrow> match_editor \<Rightarrow> match_editor" where
  "matchMoveCursor dir k =
     k\<lparr>kb_cur := nat (max 0 (min (int (length (kb_toks k))) (int (kb_cur k) + dir))), kb_typing := False\<rparr>"

definition next_set :: "kb_set \<Rightarrow> kb_set" where
  "next_set s = (case s of KbHex \<Rightarrow> KbText | KbText \<Rightarrow> KbSpecial | KbSpecial \<Rightarrow> KbHex)"

definition matchCycleSet :: "match_editor \<Rightarrow> match_editor" where
  "matchCycleSet k = k\<lparr>kb_set := next_set (kb_set k), kb_row := 0, kb_col := 0, kb_typing := False, kb_msg := False\<rparr>"

definition matchTypeKey :: "match_editor \<Rightarrow> match_editor" where
  "matchTypeKey k =
     (let k = k\<lparr>kb_msg := False\<rparr>; g = kbGrid (kb_set k) in
      if kb_row k < length g \<and> kb_col k < length (g ! kb_row k) then press (g ! kb_row k ! kb_col k) k else k)"

definition matchDelete :: "match_editor \<Rightarrow> match_editor" where
  "matchDelete k =
     (let k = (if 0 < kb_cur k
        then k\<lparr>kb_toks := take (kb_cur k - 1) (kb_toks k) @ drop (kb_cur k) (kb_toks k), kb_cur := kb_cur k - 1\<rparr>
        else k)
      in k\<lparr>kb_typing := False, kb_msg := False\<rparr>)"

definition matchClear :: "match_editor \<Rightarrow> match_editor" where
  "matchClear k = k\<lparr>kb_toks := [], kb_cur := 0, kb_typing := False, kb_msg := False\<rparr>"

text \<open>\<open>matchOK\<close>: the error keeps the editor open with its message; otherwise it closes.\<close>

definition matchCancel :: "match_editor \<Rightarrow> match_editor" where
  "matchCancel k = k\<lparr>kb_open := False\<rparr>"

definition matchOK :: "(int list \<times> PatternElem list) option \<Rightarrow> match_editor
    \<Rightarrow> (match_error + int list \<times> PatternElem list) \<times> match_editor" where
  "matchOK trig k = (case setMatchTokens (kb_toks k) trig of
     Inl e \<Rightarrow> (Inl e, k\<lparr>kb_msg := True\<rparr>)
   | Inr m \<Rightarrow> (Inr m, matchCancel k))"

datatype kb_op = MoveKey int | MoveCursor int | CycleSet | TypeKey | Delete | Clear

definition kb_do :: "kb_op \<Rightarrow> match_editor \<Rightarrow> match_editor" where
  "kb_do x = (case x of MoveKey n \<Rightarrow> matchMoveKey n | MoveCursor n \<Rightarrow> matchMoveCursor n
     | CycleSet \<Rightarrow> matchCycleSet | TypeKey \<Rightarrow> matchTypeKey | Delete \<Rightarrow> matchDelete | Clear \<Rightarrow> matchClear)"

section \<open>The picker\<close>

record pick_tok =
  pt_Text :: string
  pt_Start :: bool

record pick_state =
  pk_toks :: "pick_tok list"
  pk_start :: int
  pk_first :: int
  pk_unit :: int

definition clampInt :: "int \<Rightarrow> int \<Rightarrow> int \<Rightarrow> int" where
  "clampInt v lo hi = (if v < lo then lo else if v > hi then hi else v)"

fun pick_row :: "bool \<Rightarrow> bool \<Rightarrow> string list \<Rightarrow> pick_tok list \<Rightarrow> pick_tok list" where
  "pick_row first brk [] acc = acc"
| "pick_row first brk (t # ts) acc =
     pick_row False brk ts (if length acc < 256 then acc @ [\<lparr>pt_Text = t, pt_Start = (first \<and> brk)\<rparr>] else acc)"

fun pick_rows :: "nat \<Rightarrow> string list list \<Rightarrow> bool list \<Rightarrow> nat \<Rightarrow> pick_tok list \<Rightarrow> int \<Rightarrow> pick_tok list \<times> int" where
  "pick_rows i [] starts startPkt acc st = (acc, st)"
| "pick_rows i (toks # rows) starts startPkt acc st =
     pick_rows (Suc i) rows starts startPkt (pick_row True (starts ! i \<or> i > 0) toks acc)
       (if i = startPkt then int (length acc) else st)"

definition pickFrom :: "string list list \<Rightarrow> bool list \<Rightarrow> nat \<Rightarrow> int \<Rightarrow> pick_state" where
  "pickFrom rows starts startPkt ut =
     (let (toks, st) = pick_rows 0 rows starts startPkt [] 0;
          st = clampInt st 0 (max 0 (int (length toks) - 1))
      in \<lparr>pk_toks = toks, pk_start = st, pk_first = st, pk_unit = max ut 1\<rparr>)"

definition pickUnitOf :: "string \<Rightarrow> int" where
  "pickUnitOf proto =
     (if proto = ''mil1553'' then 2
      else if proto = ''arinc429'' \<or> proto = ''spdif'' then 3
      else if proto = ''mdio'' \<or> proto = ''wiegand'' \<or> proto = ''irmp'' then 2
      else if proto = ''cjtag'' then 4 else 1)"

definition pickMove :: "int \<Rightarrow> pick_state \<Rightarrow> pick_state" where
  "pickMove dir p = p\<lparr>pk_start := clampInt (pk_start p + dir * max (pk_unit p) 1) 0 (max 0 (int (length (pk_toks p)) - 1))\<rparr>"

text \<open>\<open>pickKeys\<close>: for \<open>n\<close> in 1..4, whether the key is offered, and the tokens it shows.\<close>

definition pick_offered :: "pick_state \<Rightarrow> int \<Rightarrow> bool" where
  "pick_offered p n \<longleftrightarrow> pk_start p + n * max (pk_unit p) 1 \<le> int (length (pk_toks p)) \<and> (max (pk_unit p) 1 \<noteq> 3 \<or> n = 1)"

definition pick_shown :: "pick_state \<Rightarrow> int \<Rightarrow> string list" where
  "pick_shown p n = map pt_Text (take (nat (n * max (pk_unit p) 1)) (drop (nat (pk_start p)) (pk_toks p)))"

text \<open>\<open>pickUse\<close> as far as the match: \<^term>\<open>None\<close> is the refusal for too few bytes.\<close>

definition pickUse ::
  "int \<Rightarrow> pick_state \<Rightarrow> (int list \<times> PatternElem list) option \<Rightarrow> (match_error + int list \<times> PatternElem list) option" where
  "pickUse n p trig =
     (let n = n * max (pk_unit p) 1 in
      if pk_start p + n > int (length (pk_toks p)) then None
      else Some (setMatchTokens (map pt_Text (take (nat n) (drop (nat (pk_start p)) (pk_toks p)))) trig))"

section \<open>Reading a match back\<close>

lemma hex_val_less: "hex_val c = Some v \<Longrightarrow> v < 16"
  by (auto simp: hex_val_def Let_def split: if_splits)

definition data_elem :: "int \<Rightarrow> int \<Rightarrow> PatternElem" where
  "data_elem v m = \<lparr>pe_Kind = 2, pe_Value = v, pe_Mask = m\<rparr>"

text \<open>Every element a token compiles to, and whether it is plain.\<close>

definition all_elems :: "(PatternElem \<times> bool) list" where
  "all_elems = [(\<lparr>pe_Kind = 4, pe_Value = 0, pe_Mask = 0\<rparr>, False), (\<lparr>pe_Kind = 1, pe_Value = 0, pe_Mask = 0\<rparr>, False),
     (data_elem MILCommand MILCommand, False), (midiStatus, False), (data_elem 0 0, False)]
     @ map (\<lambda>k. (data_elem (16 * int k) 0xf0, False)) [0..<16] @ map (\<lambda>k. (data_elem (int k) 0x0f, False)) [0..<16]
     @ map (\<lambda>k. (data_elem (int k) 0xff, True)) [0..<256]"

lemma all_elems_data [simp]:
  "k < 256 \<Longrightarrow> (data_elem (int k) 0xff, True) \<in> set all_elems"
  "k < 16 \<Longrightarrow> (data_elem (int k) 0x0f, False) \<in> set all_elems"
  "k < 16 \<Longrightarrow> (data_elem (16 * int k) 0xf0, False) \<in> set all_elems"
  "(data_elem 0 0, False) \<in> set all_elems"
  by (simp_all add: all_elems_def)

lemma all_elems_named [simp]:
  "(\<lparr>pe_Kind = 4, pe_Value = 0, pe_Mask = 0\<rparr>, False) \<in> set all_elems"
  "(\<lparr>pe_Kind = 1, pe_Value = 0, pe_Mask = 0\<rparr>, False) \<in> set all_elems"
  "(data_elem MILCommand MILCommand, False) \<in> set all_elems" "(midiStatus, False) \<in> set all_elems"
  by (simp_all add: all_elems_def)

definition wild :: "char \<Rightarrow> char" where
  "wild c = (if c = CHR ''?'' then CHR ''0'' else c)"

lemma parse1: "ParseHex8 [c] = Some v \<Longrightarrow> hex_val c = Some v"
  by (auto simp: ParseHex8_def split: option.splits if_splits)

lemma parse2: "ParseHex8 [c, d] = Some v \<Longrightarrow> \<exists>a b. hex_val c = Some a \<and> hex_val d = Some b \<and> v = 16 * a + b"
  by (auto simp: ParseHex8_def split: option.splits if_splits)

lemma hex_val_zero [simp]: "hex_val (CHR ''0'') = Some 0"
  by (simp add: hex_val_def)

lemma compile_token_elems: "compile_token t = Some ep \<Longrightarrow> ep \<in> set all_elems"
proof -
  assume c: "compile_token t = Some ep"
  show "ep \<in> set all_elems"
  proof (cases "t \<in> {tok_ERR, tok_SOF, tok_CMD, tok_STS}")
    case True
    then show ?thesis using c by (auto simp: compile_token_def tok_names data_elem_def [symmetric])
  next
    case False
    then have "\<not> (length t < 1 \<or> 2 < length t)" using c by (auto simp: compile_token_def)
    then have l: "1 \<le> length t" "length t \<le> 2" by linarith+
    obtain v where v: "ParseHex8 (map wild t) = Some v"
      and ep: "ep = (let mask = (if t = ''??'' \<or> t = ''?'' then 0
                       else if length t = 2 \<and> t ! 1 = CHR ''?'' then 0xf0
                       else if length t = 2 \<and> t ! 0 = CHR ''?'' then 0x0f else 0xff)
           in (data_elem (int v) mask, mask = 0xff))"
    proof -
      have "t \<noteq> []" using l by auto
      then have "(case ParseHex8 (map wild t) of None \<Rightarrow> None | Some v \<Rightarrow>
          (let mask = (if t = ''??'' \<or> t = ''?'' then 0
                       else if length t = 2 \<and> t ! 1 = CHR ''?'' then 0xf0
                       else if length t = 2 \<and> t ! 0 = CHR ''?'' then 0x0f else 0xff)
           in Some (data_elem (int v) mask, mask = 0xff))) = Some ep"
        using c False l unfolding compile_token_def data_elem_def wild_def by simp
      then show thesis using that by (auto simp only: Let_def option.simps split: option.splits)
    qed
    have v256: "v < 256" using v by (auto simp: ParseHex8_def split: option.splits if_splits)
    consider c1 where "t = [c1]" | c1 c2 where "t = [c1, c2]"
      using l by (cases t; cases "tl t") auto
    then show ?thesis
    proof cases
      case 1
      then show ?thesis using ep v v256 parse1 [of "wild c1" v] by (auto simp: Let_def wild_def)
    next
      case 2
      obtain a b where ab: "hex_val (wild c1) = Some a" "hex_val (wild c2) = Some b" "v = 16 * a + b"
        using v 2 parse2 [of "wild c1" "wild c2" v] by auto
      note lt = hex_val_less [OF ab(1)] hex_val_less [OF ab(2)]
      show ?thesis
      proof (cases "c1 = CHR ''?''"; cases "c2 = CHR ''?''")
        assume q: "c1 = CHR ''?''" "c2 = CHR ''?''"
        then show ?thesis using 2 ep ab by (simp add: wild_def)
      next
        assume q: "c1 = CHR ''?''" "c2 \<noteq> CHR ''?''"
        then show ?thesis using 2 ep ab lt by (simp add: wild_def)
      next
        assume q: "c1 \<noteq> CHR ''?''" "c2 = CHR ''?''"
        then show ?thesis using 2 ep ab lt by (simp add: wild_def)
      next
        assume q: "c1 \<noteq> CHR ''?''" "c2 \<noteq> CHR ''?''"
        then show ?thesis using 2 ep v256 by (simp add: wild_def)
      qed
    qed
  qed
qed

lemma hex_digit_val: "n < 16 \<Longrightarrow> hex_val (hex_digit n) = Some n \<and> hex_digit n \<noteq> CHR ''?''"
proof -
  have "list_all (\<lambda>n. hex_val (hex_digit n) = Some n \<and> hex_digit n \<noteq> CHR ''?'') [0..<16]" by code_simp
  then show "n < 16 \<Longrightarrow> hex_val (hex_digit n) = Some n \<and> hex_digit n \<noteq> CHR ''?''"
    by (simp add: list_all_iff)
qed

lemma hex2_small: "n < 16 \<Longrightarrow> hex2 n = [CHR ''0'', hex_digit n]"
  by (simp add: hex2_def hex_digit_def)

lemma hex_digit_mod: "hex_digit (n mod 16) = hex_digit n"
  by (simp add: hex_digit_def)

lemma compile_pair:
  assumes "hex_val (wild c) = Some a" "hex_val (wild d) = Some b"
  shows "compile_token [c, d] = Some (data_elem (int (16 * a + b))
      (if c = CHR ''?'' \<and> d = CHR ''?'' then 0 else if d = CHR ''?'' then 0xf0 else if c = CHR ''?'' then 0x0f else 0xff),
      c \<noteq> CHR ''?'' \<and> d \<noteq> CHR ''?'')"
proof -
  have "16 * a + b < 256" using hex_val_less [OF assms(1)] hex_val_less [OF assms(2)] by simp
  then have "ParseHex8 (map wild [c, d]) = Some (16 * a + b)"
    using assms by (simp add: ParseHex8_def)
  then show ?thesis
    by (simp add: compile_token_def tok_names Let_def data_elem_def wild_def [symmetric] cong: if_cong)
qed

lemma compile_hex2: "k < 256 \<Longrightarrow> compile_token (hex2 k) = Some (data_elem (int k) 0xff, True)"
  using compile_pair [of "hex_digit (k div 16)" "k div 16" "hex_digit k" "k mod 16"]
    hex_digit_val [of "k div 16"] hex_digit_val [of "k mod 16"]
  by (simp add: hex2_def wild_def hex_digit_mod)

lemma compile_hi: "k < 16 \<Longrightarrow> compile_token [hex_digit k, CHR ''?''] = Some (data_elem (16 * int k) 0xf0, False)"
  using compile_pair [of "hex_digit k" k "CHR ''?''" 0] hex_digit_val [of k] by (simp add: wild_def)

lemma compile_lo: "k < 16 \<Longrightarrow> compile_token [CHR ''?'', hex_digit k] = Some (data_elem (int k) 0x0f, False)"
  using compile_pair [of "CHR ''?''" 0 "hex_digit k" k] hex_digit_val [of k] by (simp add: wild_def)

lemma and_ff: "int k AND 0xff = int (k mod 256)"
proof -
  have "int k AND 0xff = take_bit 8 (int k)" by (simp add: take_bit_eq_mask mask_eq_exp_minus_1)
  then show ?thesis by (simp add: take_bit_eq_mod zmod_int)
qed

lemma and_0f: "int k AND 0xf = int (k mod 16)"
proof -
  have "int k AND 0xf = take_bit 4 (int k)" by (simp add: take_bit_eq_mask mask_eq_exp_minus_1)
  then show ?thesis by (simp add: take_bit_eq_mod zmod_int)
qed

lemma tok_of_data:
  "k < 256 \<Longrightarrow> tok_of_elem (data_elem (int k) 0xff) = hex2 k"
  "k < 16 \<Longrightarrow> tok_of_elem (data_elem (16 * int k) 0xf0) = [hex_digit k, CHR ''?'']"
  "k < 16 \<Longrightarrow> tok_of_elem (data_elem (int k) 0x0f) = [CHR ''?'', hex_digit k]"
  by (simp_all add: tok_of_elem_def data_elem_def MILCommand_def hexTok_def and_ff and_0f hex2_small drop_bit_eq_div)

lemma elems_read_back:
  assumes "ep \<in> set all_elems"
  shows "compile_token (tok_of_elem (fst ep)) = Some ep"
proof -
  have n: "compile_token (tok_of_elem (fst ep)) = Some ep"
    if "ep \<in> {(\<lparr>pe_Kind = 4, pe_Value = 0, pe_Mask = 0\<rparr>, False), (\<lparr>pe_Kind = 1, pe_Value = 0, pe_Mask = 0\<rparr>, False),
      (data_elem MILCommand MILCommand, False), (midiStatus, False)}"
  proof -
    have "compile_token (tok_of_elem \<lparr>pe_Kind = 4, pe_Value = 0, pe_Mask = 0\<rparr>) = Some (\<lparr>pe_Kind = 4, pe_Value = 0, pe_Mask = 0\<rparr>, False)"
      "compile_token (tok_of_elem \<lparr>pe_Kind = 1, pe_Value = 0, pe_Mask = 0\<rparr>) = Some (\<lparr>pe_Kind = 1, pe_Value = 0, pe_Mask = 0\<rparr>, False)"
      "compile_token (tok_of_elem (data_elem MILCommand MILCommand)) = Some (data_elem MILCommand MILCommand, False)"
      "compile_token (tok_of_elem midiStatus) = Some (midiStatus, False)"
      by code_simp+
    then show ?thesis using that by auto
  qed
  have q: "compile_token (tok_of_elem (data_elem 0 0)) = Some (data_elem 0 0, False)"
    using compile_pair [of "CHR ''?''" 0 "CHR ''?''" 0]
    by (simp add: tok_of_elem_def data_elem_def MILCommand_def wild_def)
  consider "ep \<in> {(\<lparr>pe_Kind = 4, pe_Value = 0, pe_Mask = 0\<rparr>, False), (\<lparr>pe_Kind = 1, pe_Value = 0, pe_Mask = 0\<rparr>, False),
      (data_elem MILCommand MILCommand, False), (midiStatus, False)}" | "ep = (data_elem 0 0, False)"
    | k where "k < 16" "ep = (data_elem (16 * int k) 0xf0, False)"
    | k where "k < 16" "ep = (data_elem (int k) 0x0f, False)"
    | k where "k < 256" "ep = (data_elem (int k) 0xff, True)"
    using assms by (auto simp: all_elems_def)
  then show ?thesis
    using n q by cases (auto simp: tok_of_data compile_hi compile_lo compile_hex2)
qed

lemma plain_elem:
  assumes "(e, True) \<in> set all_elems"
  shows "\<exists>k < 256. e = data_elem (int k) 0xff"
  using assms by (auto simp: all_elems_def)

lemma elem_plain_unique: "compile_token t = Some (e, p) \<Longrightarrow> compile_token (tok_of_elem e) = Some (e, p)"
  using elems_read_back [of "(e, p)"] compile_token_elems [of t "(e, p)"] by simp

lemma compile_loop_Some:
  "compile_loop toks plain pat = Some (pl, out) \<longleftrightarrow>
   (\<exists>eps. map compile_token toks = map Some eps \<and> out = pat @ map fst eps \<and> pl = (plain \<and> list_all snd eps))"
proof (induction toks arbitrary: plain pat)
  case Nil
  then show ?case by auto
next
  case (Cons t ts)
  show ?case
  proof (cases "compile_token t")
    case None
    then show ?thesis by (auto simp: map_eq_Cons_conv)
  next
    case (Some ep)
    obtain e p where ep: "ep = (e, p)" by fastforce
    have "(\<exists>eps. Some (e, p) # map compile_token ts = map Some eps \<and> Q eps) \<longleftrightarrow>
        (\<exists>eps. map compile_token ts = map Some eps \<and> Q ((e, p) # eps))" for Q
      by (auto simp: map_eq_Cons_conv) (metis list.simps(9))
    then show ?thesis using Cons.IH [of "plain \<and> p" "pat @ [e]"] Some ep by simp
  qed
qed

lemma compile_loop_None: "compile_loop toks plain pat = None \<longleftrightarrow> (\<exists>t \<in> set toks. compile_token t = None)"
  by (induction toks arbitrary: plain pat) (auto split: option.splits prod.splits)

lemma compileTokens_None: "compileTokens toks = None \<longleftrightarrow> (\<exists>t \<in> set toks. compile_token t = None)"
  using compile_loop_None [of toks True "[]"]
  by (cases "compile_loop toks True []") (simp_all add: compileTokens_def split: prod.split)

lemma match_compiles_back:
  assumes "compileTokens toks = Some (bs, pat)"
  shows "compileTokens (tokensOf bs pat) = Some (bs, pat)"
proof -
  obtain pl out where l: "compile_loop toks True [] = Some (pl, out)"
    and r: "(bs, pat) = (if pl then (map pe_Value out, []) else ([], out))"
    using assms by (auto simp: compileTokens_def split: option.splits if_splits)
  obtain eps where e: "map compile_token toks = map Some eps" "out = map fst eps" "pl = list_all snd eps"
    using l by (auto simp: compile_loop_Some)
  have el: "ep \<in> set all_elems" if "ep \<in> set eps" for ep
  proof -
    have "Some ` set eps = compile_token ` set toks" using arg_cong [OF e(1), of set] by simp
    then have "Some ep \<in> compile_token ` set toks" using that by blast
    then obtain t where "Some ep = compile_token t" by (rule imageE)
    then show ?thesis using compile_token_elems [of t ep] by simp
  qed
  have rdb: "map compile_token (map tok_of_elem out) = map Some eps"
    using elems_read_back el by (simp add: e(2))
  show ?thesis
  proof (cases pl)
    case True
    have "compile_token (hexTok (pe_Value (fst ep) AND 0xff)) = Some ep" if "ep \<in> set eps" for ep
    proof -
      have sn: "snd ep" using that True e(3) by (simp add: list_all_iff)
      obtain e' where ep: "ep = (e', True)" using sn by (cases ep) auto
      have "(e', True) \<in> set all_elems" using el [of ep] that ep by blast
      then obtain k where "k < 256" "ep = (data_elem (int k) 0xff, True)"
        using plain_elem [of e'] ep by blast
      then show ?thesis using compile_hex2 [of k] by (simp add: data_elem_def and_ff hexTok_def)
    qed
    then have "map compile_token (tokensOf bs pat) = map Some eps"
      using r True by (simp add: tokensOf_def e(2))
    then have "compile_loop (tokensOf bs pat) True [] = Some (True, out)"
      using True e by (auto simp: compile_loop_Some)
    then show ?thesis using r True by (simp add: compileTokens_def)
  next
    case False
    then have "out \<noteq> []" using e by auto
    then have "map compile_token (tokensOf bs pat) = map Some eps"
      using r False rdb by (simp add: tokensOf_def)
    then have "compile_loop (tokensOf bs pat) True [] = Some (False, out)"
      using False e by (auto simp: compile_loop_Some)
    then show ?thesis using r False by (simp add: compileTokens_def)
  qed
qed

text \<open>
  A match reads back as it was set. Whatever tokens a match is compiled from (either case, lone
  nibbles, wildcards, named tokens), showing it as tokens and compiling those again gives the same
  match, bytes as bytes and patterns as patterns.
\<close>

theorem match_reads_back:
  assumes "compileTokens toks = Some (bs, pat)"
  shows "compileTokens (tokensOf bs pat) = Some (bs, pat)"
  using match_compiles_back [OF assms] .

lemma match_reads_back_witness:
  "compileTokens [''a'', ''?3''] \<noteq> None \<and> (case compileTokens [''a'', ''?3''] of
     Some (bs, pat) \<Rightarrow> compileTokens (tokensOf bs pat) = Some (bs, pat) | None \<Rightarrow> False)"
proof -
  have "compileTokens [''a'', ''?3''] = Some ([], [data_elem 10 0xff, data_elem 3 0x0f])"
    by code_simp
  then show ?thesis using match_reads_back [of "[''a'', ''?3'']"] by simp
qed

section \<open>The editor never holds a bad match\<close>

definition grid_ok :: "match_editor \<Rightarrow> bool" where
  "grid_ok k \<longleftrightarrow> kb_row k < length (kbGrid (kb_set k)) \<and> kb_col k < length (kbGrid (kb_set k) ! kb_row k)"

definition kb_ok :: "match_editor \<Rightarrow> bool" where
  "kb_ok k \<longleftrightarrow> kb_cur k \<le> length (kb_toks k) \<and> length (kb_toks k) \<le> kbMaxTokens
     \<and> (\<forall>t \<in> set (kb_toks k). compile_token t \<noteq> None) \<and> grid_ok k"

text \<open>The keys that type: every one gives a token or half of one.\<close>

lemma text_keys: "r < 6 \<Longrightarrow> c < 16 \<Longrightarrow> 0x20 + r * 16 + c < (0x7f :: nat) \<Longrightarrow>
  compile_token (hex2 (of_char (char_of (0x20 + r * 16 + c) :: char))) \<noteq> None"
  using compile_hex2 [of "0x20 + r * 16 + c"] by (simp add: of_char_of)

lemma hex_keys: "\<forall>row \<in> set (kbGrid KbHex). \<forall>key \<in> set row. compile_token key \<noteq> None"
proof -
  have "list_all (list_all (\<lambda>key. \<not> Option.is_none (compile_token key))) (kbGrid KbHex)" by code_simp
  then show ?thesis by (auto simp: list_all_iff Option.is_none_def)
qed

lemma hex_key_single:
  "row \<in> set (kbGrid KbHex) \<Longrightarrow> key \<in> set row \<Longrightarrow> key \<noteq> ''??'' \<Longrightarrow>
   \<exists>c v. key = [c] \<and> hex_val (wild c) = Some v"
proof -
  have "list_all (list_all (\<lambda>key. key = ''??'' \<or> (length key = 1 \<and> \<not> Option.is_none (hex_val (wild (hd key)))))) (kbGrid KbHex)"
    by code_simp
  then show "row \<in> set (kbGrid KbHex) \<Longrightarrow> key \<in> set row \<Longrightarrow> key \<noteq> ''??'' \<Longrightarrow> ?thesis"
    by (fastforce simp: list_all_iff Option.is_none_def length_Suc_conv)
qed

lemma single_token: "compile_token t \<noteq> None \<Longrightarrow> length t = 1 \<Longrightarrow> \<exists>c v. t = [c] \<and> hex_val (wild c) = Some v"
proof -
  assume a: "compile_token t \<noteq> None" "length t = 1"
  then obtain c where t: "t = [c]" by (auto simp: length_Suc_conv)
  have "ParseHex8 [wild c] \<noteq> None"
    using a t unfolding compile_token_def wild_def by (auto simp: tok_names split: option.splits)
  then obtain v where "ParseHex8 [wild c] = Some v" by blast
  then show "\<exists>c v. t = [c] \<and> hex_val (wild c) = Some v" using parse1 t by blast
qed

lemma kb_ok_insert:
  assumes "kb_ok k" "compile_token t \<noteq> None"
  shows "kb_ok (snd (insert_tok t k))" and "kb_set (snd (insert_tok t k)) = kb_set k"
proof -
  have "set (take (kb_cur k) (kb_toks k)) \<subseteq> set (kb_toks k)" "set (drop (kb_cur k) (kb_toks k)) \<subseteq> set (kb_toks k)"
    by (rule set_take_subset, rule set_drop_subset)
  then show "kb_ok (snd (insert_tok t k))" "kb_set (snd (insert_tok t k)) = kb_set k"
    using assms by (auto simp: kb_ok_def insert_tok_def grid_ok_def)
qed

lemma kb_ok_flags [simp]:
  "kb_ok (k\<lparr>kb_typing := x\<rparr>) = kb_ok k" "kb_ok (k\<lparr>kb_msg := y\<rparr>) = kb_ok k"
  by (simp_all add: kb_ok_def grid_ok_def)

lemma special_tokens: "compile_token ''0D'' \<noteq> None" "compile_token ''0A'' \<noteq> None" "compile_token ''00'' \<noteq> None"
  "compile_token ''??'' \<noteq> None" "compile_token ''ERR'' \<noteq> None"
proof -
  have "list_all (\<lambda>t. \<not> Option.is_none (compile_token t)) [''0D'', ''0A'', ''00'', ''??'', ''ERR'']" by code_simp
  then show "compile_token ''0D'' \<noteq> None" "compile_token ''0A'' \<noteq> None" "compile_token ''00'' \<noteq> None"
    "compile_token ''??'' \<noteq> None" "compile_token ''ERR'' \<noteq> None"
    by (simp_all add: Option.is_none_def)
qed

lemma kb_ok_press:
  assumes ok: "kb_ok k" and r: "row \<in> set (kbGrid (kb_set k))" and key: "key \<in> set row"
  shows "kb_ok (press key k)"
proof (cases "kb_set k")
  case KbText
  obtain r c where "r < 6" "c < 16" "0x20 + r * 16 + c < (0x7f :: nat)" "key = [char_of (0x20 + r * 16 + c)]"
    using r key KbText by (auto simp: kbGrid_def)
  then have "compile_token (hex2 (of_char (hd key))) \<noteq> None" using text_keys by simp
  then show ?thesis using kb_ok_insert [OF ok] KbText by (simp add: press_def)
next
  case KbSpecial
  have "kb_cur k \<le> length (kb_toks k)" using ok by (simp add: kb_ok_def)
  then have mv: "kb_ok (k\<lparr>kb_cur := kb_cur k - 1\<rparr>)" "kb_ok (k\<lparr>kb_cur := min (length (kb_toks k)) (kb_cur k + 1)\<rparr>)"
    "kb_ok (k\<lparr>kb_toks := [], kb_cur := 0\<rparr>)"
    using ok by (auto simp: kb_ok_def grid_ok_def)
  have "key \<in> {''??'', ''ERR'', ''CR'', ''LF'', ''NUL'', ''<'', ''>'', ''CLR''}"
    using r key by (auto simp only: KbSpecial kbGrid_def kb_set.case list.set insert_iff empty_iff)
  moreover note ins = special_tokens [THEN kb_ok_insert(1) [OF ok]]
  ultimately show ?thesis
    by (elim insertE emptyE) (use mv ins in \<open>simp_all add: press_def KbSpecial\<close>)
next
  case KbHex
  note single = hex_key_single [OF r [unfolded KbHex] key]
  have c: "compile_token key \<noteq> None" using hex_keys r key KbHex by auto
  let ?i = "kb_cur k - 1"
  let ?app = "k\<lparr>kb_toks := (kb_toks k)[?i := kb_toks k ! ?i @ key], kb_typing := False\<rparr>"
  have "kb_ok ?app" if t: "key \<noteq> ''??''" "0 < kb_cur k" "length (kb_toks k ! ?i) = 1"
  proof -
    have i: "?i < length (kb_toks k)" using ok t(2) by (auto simp: kb_ok_def)
    then have "compile_token (kb_toks k ! ?i) \<noteq> None" using ok by (simp add: kb_ok_def)
    then obtain c1 v1 where c1: "kb_toks k ! ?i = [c1]" "hex_val (wild c1) = Some v1" using single_token t(3) by blast
    obtain c2 v2 where c2: "key = [c2]" "hex_val (wild c2) = Some v2" using single t(1) by blast
    have "compile_token (kb_toks k ! ?i @ key) \<noteq> None" using compile_pair [OF c1(2) c2(2)] c1(1) c2(1) by simp
    then have "\<forall>t \<in> set ((kb_toks k)[?i := kb_toks k ! ?i @ key]). compile_token t \<noteq> None"
      using set_update_subset_insert [of "kb_toks k" ?i "kb_toks k ! ?i @ key"] ok unfolding kb_ok_def by blast
    then show ?thesis using ok by (simp add: kb_ok_def grid_ok_def)
  qed
  then show ?thesis
    using kb_ok_insert [OF ok special_tokens(4)] kb_ok_insert [OF ok c] KbHex
    by (auto simp: press_def split: prod.split)
qed

lemma length_concat_take:
  "r < length g \<Longrightarrow> c < length (g ! r) \<Longrightarrow> length (concat (take r g)) + c < length (concat g)"
proof (induction g arbitrary: r)
  case (Cons x g)
  then show ?case by (cases r) auto
qed simp

text \<open>The highlight: its index in the keys read row by row.\<close>

definition key_pos :: "match_editor \<Rightarrow> nat" where
  "key_pos k = length (concat (take (kb_row k) (kbGrid (kb_set k)))) + kb_col k"

definition key_count :: "kb_set \<Rightarrow> nat" where
  "key_count s = length (concat (kbGrid s))"

lemma key_index_total: "fst (key_index g r row col tot idx) = tot + length (concat g)"
  by (induction g arbitrary: r tot idx) auto

lemma key_index_skip: "row < r \<Longrightarrow> snd (key_index g r row col tot idx) = idx"
  by (induction g arbitrary: r tot idx) auto

lemma key_index_pos:
  "r \<le> row \<Longrightarrow> row - r < length g \<Longrightarrow> col < length (g ! (row - r)) \<Longrightarrow>
   snd (key_index g r row col tot idx) = tot + length (concat (take (row - r) g)) + col"
proof (induction g arbitrary: r tot idx)
  case (Cons ks g)
  show ?case
  proof (cases "r = row")
    case True
    then show ?thesis using Cons.prems by (simp add: key_index_skip min_def)
  next
    case False
    then have "row - r = Suc (row - Suc r)" using Cons.prems(1) by simp
    then show ?thesis using Cons False by simp
  qed
qed simp

lemma key_at_pos:
  "idx < length (concat g) \<Longrightarrow> \<exists>r' c. key_at g r idx = Some (r + r', c) \<and> r' < length g \<and> c < length (g ! r')
     \<and> length (concat (take r' g)) + c = idx"
proof (induction g arbitrary: r idx)
  case (Cons ks g)
  show ?case
  proof (cases "idx < length ks")
    case True
    then show ?thesis by (intro exI [of _ 0] exI [of _ idx]) simp
  next
    case False
    then obtain r' c where "key_at g (Suc r) (idx - length ks) = Some (Suc r + r', c)" "r' < length g"
      "c < length (g ! r')" "length (concat (take r' g)) + c = idx - length ks"
      using Cons.IH [of "idx - length ks" "Suc r"] Cons.prems by fastforce
    then show ?thesis using False by (intro exI [of _ "Suc r'"] exI [of _ c]) auto
  qed
qed simp

lemma go_rem_twice: "0 < m \<Longrightarrow> go_rem (go_rem a m + m) m = a mod m"
proof -
  assume m: "0 < m"
  have "0 \<le> go_rem a m + m"
    using m pos_mod_bound [of m "- a"] pos_mod_sign [of m a] by (simp add: go_rem_def less_imp_le)
  moreover have "(go_rem a m + m) mod m = a mod m"
    by (simp add: go_rem_def mod_minus_eq)
  ultimately show ?thesis by (simp add: go_rem_def)
qed

lemma key_count_pos: "0 < key_count KbHex" "0 < key_count KbText" "0 < key_count KbSpecial"
  by code_simp+

lemma matchMoveKey_pos:
  assumes "grid_ok k"
  shows "grid_ok (matchMoveKey n k) \<and> kb_set (matchMoveKey n k) = kb_set k
    \<and> int (key_pos (matchMoveKey n k)) = (int (key_pos k) + n) mod int (key_count (kb_set k))
    \<and> kb_toks (matchMoveKey n k) = kb_toks k \<and> kb_cur (matchMoveKey n k) = kb_cur k"
proof -
  let ?g = "kbGrid (kb_set k)"
  have pos: "0 < key_count (kb_set k)" using key_count_pos by (cases "kb_set k") simp_all
  obtain tot idx where ki: "key_index ?g 0 (kb_row k) (kb_col k) 0 0 = (tot, idx)" by fastforce
  have t: "tot = key_count (kb_set k)" "idx = key_pos k"
    using key_index_total [of ?g 0 "kb_row k" "kb_col k" 0 0] key_index_pos [of 0 "kb_row k" ?g "kb_col k" 0 0]
      assms ki by (auto simp: key_count_def key_pos_def grid_ok_def)
  let ?i = "(int idx + n) mod int tot"
  have i: "0 \<le> ?i" "?i < int tot" using pos t by simp_all
  then have "nat ?i < length (concat ?g)" using t by (simp add: key_count_def nat_less_iff)
  then obtain r c where rc: "key_at ?g 0 (nat ?i) = Some (r, c)" "r < length ?g" "c < length (?g ! r)"
    "length (concat (take r ?g)) + c = nat ?i" using key_at_pos [of "nat ?i" ?g 0] by auto
  have "matchMoveKey n k = k\<lparr>kb_row := r, kb_col := c\<rparr>"
    using ki rc(1) pos t by (simp add: matchMoveKey_def go_rem_twice)
  moreover have "int (length (concat (take r ?g)) + c) = ?i" using rc(4) i(1) by simp
  ultimately show ?thesis using rc t by (simp add: grid_ok_def key_pos_def)
qed

lemma kb_ok_do: "kb_ok k \<Longrightarrow> kb_ok (kb_do x k)"
proof (cases x)
  case (MoveKey n)
  assume "kb_ok k"
  moreover then have "grid_ok k" by (simp add: kb_ok_def)
  ultimately show ?thesis using matchMoveKey_pos [of k n] MoveKey by (simp add: kb_do_def kb_ok_def)
next
  case (MoveCursor n)
  assume "kb_ok k"
  then show ?thesis using MoveCursor by (auto simp: kb_do_def matchMoveCursor_def kb_ok_def grid_ok_def)
next
  case CycleSet
  have "list_all (\<lambda>s. 0 < length (kbGrid s) \<and> 0 < length (kbGrid s ! 0)) [KbHex, KbText, KbSpecial]" by code_simp
  then have "0 < length (kbGrid s) \<and> 0 < length (kbGrid s ! 0)" for s by (cases s) simp_all
  moreover assume "kb_ok k"
  ultimately show ?thesis using CycleSet by (simp add: kb_do_def matchCycleSet_def kb_ok_def grid_ok_def)
next
  case TypeKey
  assume ok: "kb_ok k"
  show ?thesis
  proof (cases "kb_row k < length (kbGrid (kb_set k)) \<and> kb_col k < length (kbGrid (kb_set k) ! kb_row k)")
    case True
    then have "kb_ok (press (kbGrid (kb_set k) ! kb_row k ! kb_col k) (k\<lparr>kb_msg := False\<rparr>))"
      using ok by (intro kb_ok_press [where row = "kbGrid (kb_set k) ! kb_row k"]) simp_all
    then show ?thesis using True TypeKey by (simp add: kb_do_def matchTypeKey_def Let_def)
  next
    case False
    then have "kb_do TypeKey k = k\<lparr>kb_msg := False\<rparr>" by (auto simp: kb_do_def matchTypeKey_def Let_def)
    then show ?thesis using ok TypeKey by simp
  qed
next
  case Delete
  have "set (take (kb_cur k - 1) (kb_toks k)) \<subseteq> set (kb_toks k)" "set (drop (kb_cur k) (kb_toks k)) \<subseteq> set (kb_toks k)"
    by (rule set_take_subset, rule set_drop_subset)
  moreover assume "kb_ok k"
  ultimately show ?thesis using Delete by (auto simp: kb_do_def matchDelete_def kb_ok_def grid_ok_def)
next
  case Clear
  assume "kb_ok k"
  then show ?thesis using Clear by (simp add: kb_do_def matchClear_def kb_ok_def grid_ok_def)
qed

lemma tokens_of_compiled:
  assumes "compileTokens toks = Some (bs, pat)"
  shows "length (tokensOf bs pat) = length toks" and "\<forall>t \<in> set (tokensOf bs pat). compile_token t \<noteq> None"
proof -
  obtain pl out where l: "compile_loop toks True [] = Some (pl, out)"
    and r: "(bs, pat) = (if pl then (map pe_Value out, []) else ([], out))"
    using assms by (auto simp: compileTokens_def split: option.splits if_splits)
  obtain eps where e: "map compile_token toks = map Some eps" "out = map fst eps" "pl = list_all snd eps"
    using l by (auto simp: compile_loop_Some)
  have "length out = length toks" using e(1,2) by (metis length_map)
  then show "length (tokensOf bs pat) = length toks" using r e by (auto simp: tokensOf_def split: if_splits)
  have "compileTokens (tokensOf bs pat) \<noteq> None" using match_compiles_back [OF assms] by simp
  then show "\<forall>t \<in> set (tokensOf bs pat). compile_token t \<noteq> None" by (auto simp: compileTokens_None)
qed

lemma kb_ok_fold: "kb_ok k \<Longrightarrow> kb_ok (fold kb_do ops k)"
  by (induction ops arbitrary: k) (simp_all add: kb_ok_do)

lemma kb_ok_open:
  assumes "compileTokens toks = Some (bs, pat)" "length toks \<le> kbMaxTokens"
  shows "kb_ok (openMatchSub (tokensOf bs pat))"
  using tokens_of_compiled [OF assms(1)] assms(2) by (simp add: kb_ok_def openMatchSub_def grid_ok_def kbGrid_def)

lemma kb_ok_accepted: "kb_ok k \<Longrightarrow> \<exists>m. matchOK (Some trig) k = (Inr m, matchCancel k)"
  using compileTokens_None [of "kb_toks k"]
  by (cases "compileTokens (kb_toks k)") (auto simp: kb_ok_def matchOK_def setMatchTokens_def)

text \<open>
  C17: The match editor cannot build a match that its OK key refuses. Opened on a match of at most 32
  units, after any sequence of key moves, cursor moves, typed keys of every set, deletes and clears,
  the cursor is within the pattern, the highlight is on a key, the pattern has at most 32 units, and
  every unit in it compiles: with a serial trigger in the engine, OK sets a match and closes the
  editor.
\<close>

theorem editor_match_accepted:
  assumes "compileTokens toks = Some (bs, pat)" and "length toks \<le> kbMaxTokens"
    and "k = fold kb_do ops (openMatchSub (tokensOf bs pat))"
  shows "kb_cur k \<le> length (kb_toks k) \<and> length (kb_toks k) \<le> kbMaxTokens \<and> grid_ok k
    \<and> (\<exists>m k'. matchOK (Some trig) k = (Inr m, k') \<and> \<not> kb_open k')"
proof -
  have ok: "kb_ok k" using kb_ok_fold [OF kb_ok_open [OF assms(1,2)]] assms(3) by simp
  then show ?thesis using kb_ok_accepted [OF ok, of trig] by (auto simp: kb_ok_def matchCancel_def)
qed

lemma editor_match_accepted_witness:
  "\<exists>m k'. matchOK (Some ([], [])) (fold kb_do [MoveKey 10, TypeKey, CycleSet, TypeKey, MoveCursor (-5), Delete]
     (openMatchSub (tokensOf [0x55] []))) = (Inr m, k') \<and> \<not> kb_open k'"
proof -
  have "compileTokens [''55''] = Some ([0x55], [])" by code_simp
  from editor_match_accepted [OF this _ refl, of "[MoveKey 10, TypeKey, CycleSet, TypeKey, MoveCursor (-5), Delete]" "([], [])"]
  show ?thesis by (simp add: kbMaxTokens_def)
qed

text \<open>
  The Adjust knob walks the key grid as one ring: from a highlight on a key, moving \<open>n\<close> keys, either
  way and however far, lands on the key \<open>n\<close> places on in reading order modulo the number of keys, so
  moving back returns and every key is reachable; the pattern and the cursor do not change.
\<close>

theorem key_ring:
  assumes "grid_ok k"
  shows "grid_ok (matchMoveKey n k)
    \<and> int (key_pos (matchMoveKey n k)) = (int (key_pos k) + n) mod int (key_count (kb_set k))
    \<and> key_pos (matchMoveKey (- n) (matchMoveKey n k)) = key_pos k
    \<and> kb_toks (matchMoveKey n k) = kb_toks k \<and> kb_cur (matchMoveKey n k) = kb_cur k"
proof -
  note 1 = matchMoveKey_pos [OF assms, of n]
  then have "grid_ok (matchMoveKey n k)" by simp
  note 2 = matchMoveKey_pos [OF this, of "- n"]
  have "key_pos k < key_count (kb_set k)"
    unfolding key_pos_def key_count_def using assms by (intro length_concat_take) (simp_all add: grid_ok_def)
  then have "int (key_pos (matchMoveKey (- n) (matchMoveKey n k))) = int (key_pos k)"
    using 1 2 by (simp add: mod_diff_left_eq)
  then show ?thesis using 1 by simp
qed

lemma key_ring_witness: "key_pos (matchMoveKey (- 40) (matchMoveKey 40 (openMatchSub []))) = 0"
  using key_ring [of "openMatchSub []" 40]
  by (simp add: openMatchSub_def grid_ok_def kbGrid_def key_pos_def)

section \<open>The picker stays in range\<close>

lemma length_pick_row: "length acc \<le> 256 \<Longrightarrow> length (pick_row f b ts acc) \<le> 256"
  by (induction f b ts acc rule: pick_row.induct) auto

lemma length_pick_rows: "length acc \<le> 256 \<Longrightarrow> length (fst (pick_rows i rows starts sp acc st)) \<le> 256"
  by (induction i rows starts sp acc st rule: pick_rows.induct) (auto simp: length_pick_row)

definition pick_ok :: "pick_state \<Rightarrow> bool" where
  "pick_ok q \<longleftrightarrow> length (pk_toks q) \<le> 256 \<and> 0 \<le> pk_start q \<and> pk_start q \<le> max 0 (int (length (pk_toks q)) - 1)"

lemma pick_ok_from: "pick_ok (pickFrom rows starts sp ut)"
  using length_pick_rows [of "[]" 0 rows starts sp 0]
  by (auto simp: pick_ok_def pickFrom_def Let_def clampInt_def split: prod.split)

lemma pick_ok_moves: "pick_ok q \<Longrightarrow> pick_ok (fold pickMove dirs q)"
proof (induction dirs arbitrary: q)
  case (Cons d dirs)
  have "pick_ok (pickMove d q)" using Cons.prems by (auto simp: pick_ok_def pickMove_def clampInt_def)
  then show ?case using Cons.IH by simp
qed simp

lemma pick_ok_use:
  assumes "pick_ok p" "pick_offered p n" "1 \<le> n"
  shows "pickUse n p trig = Some (setMatchTokens (pick_shown p n) trig)"
    and "length (pick_shown p n) = nat (n * max (pk_unit p) 1)"
  using assms by (auto simp: pick_offered_def pickUse_def pick_shown_def pick_ok_def Let_def)

text \<open>
  The byte picker stays in range. It holds at most 256 units; the highlighted one exists, or the list
  is empty and it is 0, when the picker opens and after any moves; and a trigger key that is offered
  uses exactly the units it shows, \<open>n\<close> whole decoded units, never refused for want of bytes.
\<close>

theorem picker_in_range:
  assumes "p = fold pickMove dirs (pickFrom rows starts sp ut)"
  shows "length (pk_toks p) \<le> 256 \<and> 0 \<le> pk_start p \<and> pk_start p \<le> max 0 (int (length (pk_toks p)) - 1)
    \<and> (pick_offered p n \<and> 1 \<le> n \<longrightarrow>
        pickUse n p trig = Some (setMatchTokens (pick_shown p n) trig)
        \<and> length (pick_shown p n) = nat (n * max (pk_unit p) 1))"
proof -
  have i: "pick_ok p" using assms pick_ok_moves [OF pick_ok_from] by simp
  then show ?thesis using pick_ok_use [OF i, of n] by (simp add: pick_ok_def)
qed

lemma picker_in_range_witness:
  "pick_offered (pickFrom [[''55'', ''AA'']] [True] 0 1) 2
   \<and> pickUse 2 (pickFrom [[''55'', ''AA'']] [True] 0 1) None = Some (Inl NoTrigger)"
proof -
  have o: "pick_offered (pickFrom [[''55'', ''AA'']] [True] 0 1) 2" by code_simp
  then show ?thesis
    using picker_in_range [OF refl, of "[]" "[[''55'', ''AA'']]" "[True]" 0 1 2 None] by (simp add: setMatchTokens_def)
qed

end
