(* ===== verification/FpgaLoad.thy ===== *)
theory FpgaLoad
  imports Prelude
begin

text \<open>
  Loading an FPGA image (\<open>app/internal/fpgaload\<close>): the container's bit order (\<open>container.go\<close>), the
  passive-serial cycle through the configuration port and its retries (\<open>fpgaload.go\<close>), the short
  write cycle of the port's chip select (\<open>cs3timing.go\<close>) and the load through the mapped port
  (\<open>device.go\<close>).

  The board is arbitrary: what a port access does, and what a read returns, is a function of all the
  accesses made before it. The accesses are the model's output, a list of \<open>pop\<close>.
\<close>

section \<open>The bit order of a container\<close>

datatype Order = OrderUnknown | OrderNative | OrderPreReversed

definition Reverse :: "Order \<Rightarrow> bool" where
  "Reverse ord \<longleftrightarrow> ord = OrderNative"

datatype BitOrder = BitOrderAuto | BitOrderReverse | BitOrderRaw

definition rbfPreambleLen :: nat where "rbfPreambleLen = 0x20"
definition rbfHeaderOff :: nat where "rbfHeaderOff = 0x20"
definition rbfHeaderLen :: nat where "rbfHeaderLen = 9"
definition hintMaxBits :: nat where "hintMaxBits = 8"

definition hdrNative :: "byte list" where
  "hdrNative = [0x6A, 0xF7, 0xF7, 0xF7, 0xF7, 0xF7, 0xF7, 0xF3, 0xFB]"

definition hdrPreReversed :: "byte list" where
  "hdrPreReversed = [0x56, 0xEF, 0xEF, 0xEF, 0xEF, 0xEF, 0xEF, 0xCF, 0xDF]"

definition OnesCount8 :: "byte \<Rightarrow> nat" where
  "OnesCount8 b = length (filter (bit b) [0..<8])"

fun hamming :: "byte list \<Rightarrow> byte list \<Rightarrow> nat" where
  "hamming (a # as) (b # bs) = OnesCount8 (a XOR b) + hamming as bs"
| "hamming _ _ = 0"

text \<open>The hint of the error text: nothing, an image of another device, or a near header and the order
  to force.\<close>

datatype hint = NoHint | FarFrom Order nat | NearTo Order nat BitOrder

definition nearestHint :: "byte list \<Rightarrow> hint" where
  "nearestHint hdr =
     (let dN = hamming hdr hdrNative; dR = hamming hdr hdrPreReversed;
          hint_of = (\<lambda>ord d. if hintMaxBits < d then FarFrom ord d
                      else NearTo ord d (if Reverse ord then BitOrderReverse else BitOrderRaw))
      in if dN < dR then hint_of OrderNative dN else if dR < dN then hint_of OrderPreReversed dR else NoHint)"

datatype order_error = TooShort nat | BadPreamble nat byte | BadHeader "byte list" hint

text \<open>\<open>find_bad\<close>: the preamble loop, from byte \<open>i\<close>.\<close>

fun find_bad :: "nat \<Rightarrow> byte list \<Rightarrow> (nat \<times> byte) option" where
  "find_bad i [] = None"
| "find_bad i (b # bs) = (if b \<noteq> 0xFF then Some (i, b) else find_bad (Suc i) bs)"

definition DetectOrder :: "byte list \<Rightarrow> order_error + Order" where
  "DetectOrder rbf =
     (if length rbf < rbfHeaderOff + rbfHeaderLen then Inl (TooShort (length rbf))
      else case find_bad 0 (take rbfPreambleLen rbf) of
        Some (i, b) \<Rightarrow> Inl (BadPreamble i b)
      | None \<Rightarrow>
          (let hdr = take rbfHeaderLen (drop rbfHeaderOff rbf) in
           if hdr = hdrNative then Inr OrderNative
           else if hdr = hdrPreReversed then Inr OrderPreReversed
           else Inl (BadHeader hdr (nearestHint hdr))))"

datatype resolve_error = Contradicts BitOrder Order | CannotVerify order_error | CannotDetermine order_error

definition resolveBitOrder :: "byte list \<Rightarrow> BitOrder \<Rightarrow> bool \<Rightarrow> resolve_error + bool" where
  "resolveBitOrder rbf want force = (case DetectOrder rbf of
     Inr ord \<Rightarrow>
       if want = BitOrderAuto then Inr (Reverse ord)
       else if (want = BitOrderReverse) = Reverse ord then Inr (Reverse ord)
       else if \<not> force then Inl (Contradicts want ord)
       else Inr (want = BitOrderReverse)
   | Inl derr \<Rightarrow>
       if want \<noteq> BitOrderAuto \<and> force then Inr (want = BitOrderReverse)
       else if want \<noteq> BitOrderAuto then Inl (CannotVerify derr)
       else Inl (CannotDetermine derr))"

section \<open>The port\<close>

definition BitDCLK :: u16 where "BitDCLK = 1"
definition BitNCONFIG :: u16 where "BitNCONFIG = 2"
definition BitDATA0 :: u16 where "BitDATA0 = 4"
definition BitNSTATUS :: u16 where "BitNSTATUS = 64"
definition BitCONFDONE :: u16 where "BitCONFDONE = 128"
definition wordReset :: u16 where "wordReset = 0"
definition wordIdle :: u16 where "wordIdle = BitNCONFIG"

lemmas port_words = BitDCLK_def BitNCONFIG_def BitDATA0_def BitNSTATUS_def BitCONFDONE_def wordReset_def wordIdle_def

text \<open>
  What the program does to the board: a port write that took effect, one that failed, a port read, a
  sleep, a progress report, a write and a read of a register of the memory controller.
\<close>

datatype pop = Wr u16 | WrErr u16 | Rd | Slp int | Prog nat nat | SetReg nat u32 | GetReg nat

text \<open>
  The board: whether a write through the driver succeeds, what a read through it gives (\<^term>\<open>None\<close> an
  error), what a load from the mapped port gives, what a register reads, and whether \<open>/dev/mem\<close> opens
  and maps.
\<close>

record board =
  bd_write :: "pop list \<Rightarrow> bool"
  bd_read :: "pop list \<Rightarrow> u16 option"
  bd_load :: "pop list \<Rightarrow> u16"
  bd_reg :: "pop list \<Rightarrow> nat \<Rightarrow> u32"
  bd_mem :: "pop list \<Rightarrow> bool"

text \<open>The two ports: the driver's and the mapped one, whose accesses do not fail.\<close>

datatype cfgport = IoctlPort | MemPort

definition port_value :: "board \<Rightarrow> cfgport \<Rightarrow> pop list \<Rightarrow> u16 option" where
  "port_value b p h = (case p of IoctlPort \<Rightarrow> bd_read b h | MemPort \<Rightarrow> Some (bd_load b h))"

definition WriteCfg :: "board \<Rightarrow> cfgport \<Rightarrow> u16 \<Rightarrow> pop list \<Rightarrow> bool \<times> pop list" where
  "WriteCfg b p v h =
     (if p = MemPort \<or> bd_write b h then (True, h @ [Wr v]) else (False, h @ [WrErr v]))"

definition ReadCfg :: "board \<Rightarrow> cfgport \<Rightarrow> pop list \<Rightarrow> u16 option \<times> pop list" where
  "ReadCfg b p h = (port_value b p h, h @ [Rd])"

section \<open>Options\<close>

definition RBFLen :: int where "RBFLen = 368011"
definition MinCompressedLen :: int where "MinCompressedLen = RBFLen div 4"

definition validLen :: "int \<Rightarrow> bool" where
  "validLen n \<longleftrightarrow> n = RBFLen \<or> n \<ge> MinCompressedLen \<and> n < RBFLen"

text \<open>Durations are nanoseconds. \<open>Sleep\<close> and \<open>Logf\<close> are the board's and nobody's.\<close>

record load_options =
  o_BitOrder :: BitOrder
  o_Force :: bool
  o_InitClocks :: int
  o_NConfigLow :: int
  o_StatusPoll :: int
  o_StatusPolls :: int
  o_Timeout :: int
  o_PollEvery :: int
  o_Attempts :: int
  o_AllowAnyLen :: bool
  o_Progress :: bool

definition withDefaults :: "load_options \<Rightarrow> load_options" where
  "withDefaults opt =
     (let opt = if o_InitClocks opt \<le> 0 then opt\<lparr>o_InitClocks := 128\<rparr> else opt;
          opt = if o_NConfigLow opt \<le> 0 then opt\<lparr>o_NConfigLow := 2000000\<rparr> else opt;
          opt = if o_StatusPoll opt \<le> 0 then opt\<lparr>o_StatusPoll := 250000\<rparr> else opt;
          opt = if o_StatusPolls opt \<le> 0 then opt\<lparr>o_StatusPolls := 840\<rparr> else opt;
          opt = if o_Timeout opt \<le> 0 then opt\<lparr>o_Timeout := 5000000000\<rparr> else opt;
          opt = if o_PollEvery opt \<le> 0 then opt\<lparr>o_PollEvery := 1000000\<rparr> else opt
      in if o_Attempts opt \<le> 0 then opt\<lparr>o_Attempts := 3\<rparr> else opt)"

section \<open>Shifting the image\<close>

definition bitrev :: "byte \<Rightarrow> byte" where
  "bitrev b =
     (let b = drop_bit 4 (b AND 0xF0) OR push_bit 4 (b AND 0x0F);
          b = drop_bit 2 (b AND 0xCC) OR push_bit 2 (b AND 0x33)
      in drop_bit 1 (b AND 0xAA) OR push_bit 1 (b AND 0x55))"

datatype load_error =
    BadLength nat | BadOrder resolve_error
  | NConfigAssert | NConfigRelease | NStatusRead | NStatusTimeout
  | ShiftBit nat nat | ShiftClock nat nat | InitClock nat | Park | ConfDoneRead | ConfDoneTimeout
  | NoGpmcFd | NoDevMem | NotVendorTiming | TimingRead

definition data_word :: "byte \<Rightarrow> nat \<Rightarrow> u16" where
  "data_word by k = (if drop_bit k by AND 1 = 1 then wordIdle OR BitDATA0 else wordIdle)"

fun shift_bits :: "board \<Rightarrow> cfgport \<Rightarrow> nat \<Rightarrow> byte \<Rightarrow> nat list \<Rightarrow> pop list \<Rightarrow> (load_error + unit) \<times> pop list" where
  "shift_bits b p i by [] h = (Inr (), h)"
| "shift_bits b p i by (k # ks) h =
     (let w = data_word by k; (ok, h) = WriteCfg b p w h in
      if \<not> ok then (Inl (ShiftBit i k), h)
      else let (ok, h) = WriteCfg b p (w OR BitDCLK) h in
        if \<not> ok then (Inl (ShiftClock i k), h) else shift_bits b p i by ks h)"

definition bits_down :: "nat list" where
  "bits_down = [7, 6, 5, 4, 3, 2, 1, 0]"

definition progress :: "bool \<Rightarrow> nat \<Rightarrow> nat \<Rightarrow> pop list \<Rightarrow> pop list" where
  "progress on i n h = (if on \<and> (Suc i mod 16384 = 0 \<or> Suc i = n) then h @ [Prog (Suc i) n] else h)"

fun shift_bytes :: "board \<Rightarrow> cfgport \<Rightarrow> bool \<Rightarrow> bool \<Rightarrow> nat \<Rightarrow> nat \<Rightarrow> byte list \<Rightarrow> pop list
    \<Rightarrow> (load_error + unit) \<times> pop list" where
  "shift_bytes b p rv on n i [] h = (Inr (), h)"
| "shift_bytes b p rv on n i (by # bs) h =
     (let by = (if rv then bitrev by else by) in
      case shift_bits b p i by bits_down h of
        (Inl e, h) \<Rightarrow> (Inl e, h)
      | (Inr _, h) \<Rightarrow> shift_bytes b p rv on n (Suc i) bs (progress on i n h))"

text \<open>The mapped port: sixteen words a byte, from a table.\<close>

definition portWords :: "bool \<Rightarrow> u16 list list" where
  "portWords rv = map (\<lambda>n.
     (let by = word_of_nat n; by = (if rv then bitrev by else by)
      in concat (map (\<lambda>k. let w = data_word by k in [w, w OR BitDCLK]) bits_down))) [0..<256]"

fun mem_bytes :: "u16 list list \<Rightarrow> bool \<Rightarrow> nat \<Rightarrow> nat \<Rightarrow> byte list \<Rightarrow> pop list \<Rightarrow> pop list" where
  "mem_bytes words on n i [] h = h"
| "mem_bytes words on n i (by # bs) h =
     mem_bytes words on n (Suc i) bs (progress on i n (h @ map Wr (words ! unat by)))"

definition shiftMem :: "byte list \<Rightarrow> bool \<Rightarrow> bool \<Rightarrow> pop list \<Rightarrow> (load_error + unit) \<times> pop list" where
  "shiftMem rbf rv on h = (Inr (), mem_bytes (portWords rv) on (length rbf) 0 rbf h)"

definition shiftAll :: "board \<Rightarrow> cfgport \<Rightarrow> byte list \<Rightarrow> bool \<Rightarrow> bool \<Rightarrow> pop list \<Rightarrow> (load_error + unit) \<times> pop list" where
  "shiftAll b p rbf rv on h =
     (if p = MemPort then shiftMem rbf rv on h else shift_bytes b p rv on (length rbf) 0 rbf h)"

section \<open>One cycle\<close>

fun status_loop :: "board \<Rightarrow> cfgport \<Rightarrow> int \<Rightarrow> nat \<Rightarrow> pop list \<Rightarrow> (load_error + unit) \<times> pop list" where
  "status_loop b p dt 0 h = (Inl NStatusTimeout, h)"
| "status_loop b p dt (Suc n) h = (case ReadCfg b p h of
     (None, h) \<Rightarrow> (Inl NStatusRead, h)
   | (Some v, h) \<Rightarrow> if v AND BitNSTATUS \<noteq> 0 then (Inr (), h) else status_loop b p dt n (h @ [Slp dt]))"

fun init_clocks :: "board \<Rightarrow> cfgport \<Rightarrow> nat list \<Rightarrow> pop list \<Rightarrow> (load_error + unit) \<times> pop list" where
  "init_clocks b p [] h = (Inr (), h)"
| "init_clocks b p (i # is) h =
     (let (ok, h) = WriteCfg b p wordIdle h in
      if \<not> ok then (Inl (InitClock i), h)
      else let (ok, h) = WriteCfg b p (wordIdle OR BitDCLK) h in
        if \<not> ok then (Inl (InitClock i), h) else init_clocks b p is h)"

text \<open>The poll for CONF_DONE; when it times out, the port is read once more for the error text.\<close>

fun done_loop :: "board \<Rightarrow> cfgport \<Rightarrow> int \<Rightarrow> nat \<Rightarrow> pop list \<Rightarrow> (load_error + unit) \<times> pop list" where
  "done_loop b p dt 0 h = (let (v, h) = ReadCfg b p h in (Inl ConfDoneTimeout, h))"
| "done_loop b p dt (Suc n) h = (case ReadCfg b p h of
     (None, h) \<Rightarrow> (Inl ConfDoneRead, h)
   | (Some v, h) \<Rightarrow> if v AND BitCONFDONE \<noteq> 0 then (Inr (), h) else done_loop b p dt n (h @ [Slp dt]))"

text \<open>\<open>int(o.Timeout/o.PollEvery) + 1\<close>: the quotient is an \<open>int64\<close>, the conversion and the sum are of a
  32-bit \<open>int\<close>.\<close>

definition maxPolls :: "load_options \<Rightarrow> nat" where
  "maxPolls opt = nat (sint (word_of_int (o_Timeout opt div o_PollEvery opt) + 1 :: u32))"

definition finish_cycle :: "board \<Rightarrow> cfgport \<Rightarrow> load_options \<Rightarrow> pop list \<Rightarrow> (load_error + unit) \<times> pop list" where
  "finish_cycle b p opt h = (case init_clocks b p [0..<nat (o_InitClocks opt)] h of
     (Inl e, h) \<Rightarrow> (Inl e, h)
   | (Inr _, h) \<Rightarrow>
       (let (ok, h) = WriteCfg b p wordIdle h in
        if \<not> ok then (Inl Park, h) else done_loop b p (o_PollEvery opt) (maxPolls opt) h))"

definition configureOnce ::
  "board \<Rightarrow> cfgport \<Rightarrow> byte list \<Rightarrow> bool \<Rightarrow> load_options \<Rightarrow> pop list \<Rightarrow> (load_error + unit) \<times> pop list" where
  "configureOnce b p rbf rv opt h =
     (let (ok, h) = WriteCfg b p wordReset h in
      if \<not> ok then (Inl NConfigAssert, h)
      else let h = h @ [Slp (o_NConfigLow opt)]; (ok, h) = WriteCfg b p wordIdle h in
        if \<not> ok then (Inl NConfigRelease, h)
        else case status_loop b p (o_StatusPoll opt) (nat (o_StatusPolls opt)) h of
          (Inl e, h) \<Rightarrow> (Inl e, h)
        | (Inr _, h) \<Rightarrow>
            (let h = (if o_Progress opt then h @ [Prog 0 (length rbf)] else h) in
             case shiftAll b p rbf rv (o_Progress opt) h of
               (Inl e, h) \<Rightarrow> (Inl e, h)
             | (Inr _, h) \<Rightarrow> finish_cycle b p opt h))"

fun attempts :: "board \<Rightarrow> cfgport \<Rightarrow> byte list \<Rightarrow> bool \<Rightarrow> load_options \<Rightarrow> nat \<Rightarrow> load_error + unit \<Rightarrow> pop list
    \<Rightarrow> (load_error + unit) \<times> pop list" where
  "attempts b p rbf rv opt 0 lst h = (lst, h)"
| "attempts b p rbf rv opt (Suc n) lst h = (case configureOnce b p rbf rv opt h of
     (Inl e, h) \<Rightarrow> attempts b p rbf rv opt n (Inl e) h
   | (Inr _, h) \<Rightarrow> (Inr (), h))"

definition Reload :: "board \<Rightarrow> cfgport \<Rightarrow> byte list \<Rightarrow> load_options \<Rightarrow> pop list \<Rightarrow> (load_error + unit) \<times> pop list" where
  "Reload b p rbf opt h =
     (let opt = withDefaults opt in
      if \<not> o_AllowAnyLen opt \<and> \<not> validLen (int (length rbf)) then (Inl (BadLength (length rbf)), h)
      else case resolveBitOrder rbf (o_BitOrder opt) (o_Force opt) of
        Inl e \<Rightarrow> (Inl (BadOrder e), h)
      | Inr rv \<Rightarrow> attempts b p rbf rv opt (nat (o_Attempts opt)) (Inr ()) h)"

section \<open>The port's timing\<close>

definition cs3Config2 :: nat where "cs3Config2 = 0x60 + 3 * 0x30 + 4"
definition cs3Config4 :: nat where "cs3Config4 = 0x60 + 3 * 0x30 + 12"
definition cs3Config5 :: nat where "cs3Config5 = 0x60 + 3 * 0x30 + 16"
definition cs3Config6 :: nat where "cs3Config6 = 0x60 + 3 * 0x30 + 20"

lemmas cs3_regs = cs3Config2_def cs3Config4_def cs3Config5_def cs3Config6_def

record cs3Timing =
  t_c2 :: u32
  t_c4 :: u32
  t_c5 :: u32
  t_c6 :: u32

definition field :: "u32 \<Rightarrow> nat \<Rightarrow> nat \<Rightarrow> u32 \<Rightarrow> u32" where
  "field w sh width v =
     (let m = push_bit width 1 - 1 in (w AND NOT (push_bit sh m)) OR push_bit sh (v AND m))"

definition fastWrite :: "cs3Timing \<Rightarrow> cs3Timing \<times> bool" where
  "fastWrite t =
     (if drop_bit 8 (t_c5 t) AND 31 \<noteq> 20 \<or> drop_bit 8 (t_c6 t) AND 15 \<noteq> 15 then (t, False)
      else (\<lparr>t_c2 = field (t_c2 t) 16 5 8,
             t_c4 = field (field (t_c4 t) 16 4 1) 24 5 6,
             t_c5 = field (t_c5 t) 8 5 8,
             t_c6 = field (t_c6 t) 8 4 2\<rparr>, True))"

definition read_timing :: "board \<Rightarrow> pop list \<Rightarrow> cs3Timing \<times> pop list" where
  "read_timing b h =
     (let c2 = bd_reg b h cs3Config2; h = h @ [GetReg cs3Config2];
          c4 = bd_reg b h cs3Config4; h = h @ [GetReg cs3Config4];
          c5 = bd_reg b h cs3Config5; h = h @ [GetReg cs3Config5];
          c6 = bd_reg b h cs3Config6; h = h @ [GetReg cs3Config6]
      in (\<lparr>t_c2 = c2, t_c4 = c4, t_c5 = c5, t_c6 = c6\<rparr>, h))"

definition set_timing :: "cs3Timing \<Rightarrow> pop list" where
  "set_timing t = [SetReg cs3Config2 (t_c2 t), SetReg cs3Config4 (t_c4 t), SetReg cs3Config5 (t_c5 t), SetReg cs3Config6 (t_c6 t)]"

definition apply_timing :: "board \<Rightarrow> cs3Timing \<Rightarrow> pop list \<Rightarrow> bool \<times> pop list" where
  "apply_timing b t h = (let (got, h) = read_timing b (h @ set_timing t) in (got = t, h))"

text \<open>\<open>withFastWrites\<close>: whether the load ran, its result, and the trace.\<close>

definition withFastWrites ::
  "board \<Rightarrow> (pop list \<Rightarrow> (load_error + unit) \<times> pop list) \<Rightarrow> pop list \<Rightarrow> bool \<times> (load_error + unit) \<times> pop list" where
  "withFastWrites b load h =
     (if \<not> bd_mem b h then (False, Inl NoDevMem, h)
      else let (vendor, h) = read_timing b h; (fast, ok) = fastWrite vendor in
        if \<not> ok then (False, Inl NotVendorTiming, h)
        else let (ok, h) = apply_timing b fast h in
          if \<not> ok then (False, Inl TimingRead, snd (apply_timing b vendor h))
          else let (res, h) = load h; (ok, h) = apply_timing b vendor h in
            (True, if \<not> ok \<and> res = Inr () then Inl TimingRead else res, h))"

definition reloadFast :: "board \<Rightarrow> byte list \<Rightarrow> load_options \<Rightarrow> pop list \<Rightarrow> (load_error + unit) \<times> pop list" where
  "reloadFast b rbf opt h =
     (case withFastWrites b (Reload b MemPort rbf (opt\<lparr>o_Attempts := 1\<rparr>)) h of
        (run, res, h) \<Rightarrow> if run \<and> res = Inr () then (Inr (), h) else Reload b MemPort rbf opt h)"

text \<open>\<open>ConfigureVolatile\<close>: the mapped port when it opens and reads as the driver's does.\<close>

definition openMemPort :: "board \<Rightarrow> pop list \<Rightarrow> bool \<times> pop list" where
  "openMemPort b h =
     (if \<not> bd_mem b h then (False, h)
      else case ReadCfg b IoctlPort h of
        (None, h) \<Rightarrow> (False, h)
      | (Some want, h) \<Rightarrow> (case ReadCfg b MemPort h of (got, h) \<Rightarrow> (got = Some want, h)))"

definition ConfigureVolatile :: "board \<Rightarrow> int \<Rightarrow> byte list \<Rightarrow> load_options \<Rightarrow> pop list \<Rightarrow> (load_error + unit) \<times> pop list" where
  "ConfigureVolatile b gpmcFD rbf opt h =
     (if gpmcFD < 0 then (Inl NoGpmcFd, h)
      else let (ok, h) = openMemPort b h in if ok then reloadFast b rbf opt h else Reload b IoctlPort rbf opt h)"

section \<open>What the device samples\<close>

text \<open>The words written; what a device in passive serial takes from them: DATA0 at each rising DCLK since
  nCONFIG was last low.\<close>

definition writes :: "pop list \<Rightarrow> u16 list" where
  "writes h = concat (map (\<lambda>x. case x of Wr w \<Rightarrow> [w] | _ \<Rightarrow> []) h)"

fun edges :: "u16 \<Rightarrow> u16 list \<Rightarrow> bool list" where
  "edges prev [] = []"
| "edges prev (w # ws) = (if bit w 0 \<and> \<not> bit prev 0 then bit w 2 # edges w ws else edges w ws)"

definition since_reset :: "u16 list \<Rightarrow> u16 list" where
  "since_reset ws = rev (takeWhile (\<lambda>w. bit w 1) (rev ws))"

definition latched :: "pop list \<Rightarrow> bool list" where
  "latched h = edges 0 (since_reset (writes h))"

text \<open>The order on the wire of a byte's bits: least significant first for a native image.\<close>

definition wire_bits :: "bool \<Rightarrow> byte \<Rightarrow> bool list" where
  "wire_bits rv b = map (bit b) (if rv then [0..<8] else rev [0..<8])"

lemma writes_simps [simp]:
  "writes [] = []" "writes (h @ h') = writes h @ writes h'" "writes (Wr w # h) = w # writes h"
  "writes (WrErr w # h) = writes h" "writes (Rd # h) = writes h" "writes (Slp t # h) = writes h"
  "writes (Prog i n # h) = writes h" "writes (SetReg r v # h) = writes h" "writes (GetReg r # h) = writes h"
  by (simp_all add: writes_def)

lemma writes_map_Wr [simp]: "writes (map Wr ws) = ws"
  by (induction ws) simp_all

lemmas bitrev_bits = bitrev_def Let_def bit_or_iff bit_and_iff bit_push_bit_iff bit_drop_bit_eq o_apply

lemma bit_bitrev: "k < 8 \<Longrightarrow> bit (bitrev b) k = bit b (7 - k)"
proof -
  assume "k < 8"
  then consider "k = 0" | "k = 1" | "k = 2" | "k = 3" | "k = 4" | "k = 5" | "k = 6" | "k = 7" by linarith
  then show ?thesis by cases (simp only: bitrev_bits, simp)+
qed

lemma bitrev_bitrev [simp]: "bitrev (bitrev b) = b"
proof (rule bit_word_eqI)
  fix n assume "n < LENGTH(8)"
  then show "bit (bitrev (bitrev b)) n = bit b n" by (simp add: bit_bitrev)
qed

definition byte_words :: "byte \<Rightarrow> u16 list" where
  "byte_words by = concat (map (\<lambda>k. [data_word by k, data_word by k OR BitDCLK]) bits_down)"

definition wire_byte :: "bool \<Rightarrow> byte \<Rightarrow> byte" where
  "wire_byte rv by = (if rv then bitrev by else by)"

lemma data_word_bits:
  "\<not> bit (data_word by k) 0" "bit (data_word by k) 1" "bit (data_word by k) 2 = bit by k"
  by (simp_all add: data_word_def port_words bit_or_iff and_one_eq bit_iff_odd_drop_bit mod_2_eq_odd)

definition pairs :: "u16 list \<Rightarrow> u16 list" where
  "pairs us = concat (map (\<lambda>w. [w, w OR BitDCLK]) us)"

lemma edges_pair: "\<not> bit w 0 \<Longrightarrow> edges prev (w # (w OR BitDCLK) # ws) = bit w 2 # edges (w OR BitDCLK) ws"
  by (simp add: port_words bit_simps)

lemma edges_pairs:
  "(\<forall>w \<in> set us. \<not> bit w 0) \<Longrightarrow> edges prev (pairs us @ [wordIdle]) = map (\<lambda>w. bit w 2) us"
proof (induction us arbitrary: prev)
  case Nil
  then show ?case by (simp add: pairs_def port_words bit_simps)
next
  case (Cons w us)
  then show ?case using edges_pair [of w prev "pairs us @ [wordIdle]"] by (simp add: pairs_def)
qed

lemma byte_words_pairs: "byte_words by = pairs (map (data_word by) bits_down)"
  by (simp add: byte_words_def pairs_def bits_down_def)

lemma pairs_append: "pairs (us @ vs) = pairs us @ pairs vs"
  by (simp add: pairs_def)

lemma set_pairs: "\<forall>w \<in> set us. bit w 1 \<Longrightarrow> \<forall>w \<in> set (pairs us). bit w 1"
  by (auto simp: pairs_def bit_simps)

section \<open>The shift\<close>

lemma shift_bits_Inr:
  "shift_bits b p i by ks h = (Inr (), h') \<Longrightarrow> h' = h @ map Wr (pairs (map (data_word by) ks))"
proof (induction ks arbitrary: h)
  case (Cons k ks)
  show ?case
    using Cons.prems by (auto simp: pairs_def WriteCfg_def Let_def o_def split: if_splits prod.splits dest!: Cons.IH)
qed (simp add: pairs_def)

lemma shift_bits_mem:
  "shift_bits b MemPort i by ks h = (Inr (), h @ map Wr (pairs (map (data_word by) ks)))"
  by (induction ks arbitrary: h) (simp_all add: pairs_def WriteCfg_def Let_def o_def)

lemma writes_progress [simp]: "writes (progress on i n h) = writes h"
  by (simp add: progress_def)

lemma shift_bytes_Inr:
  "shift_bytes b p rv on n i bs h = (Inr (), h') \<Longrightarrow>
   writes h' = writes h @ pairs (concat (map (\<lambda>by. map (data_word (wire_byte rv by)) bits_down) bs))"
proof (induction bs arbitrary: i h)
  case (Cons y bs)
  obtain h1 where 1: "shift_bits b p i (wire_byte rv y) bits_down h = (Inr (), h1)"
    and 2: "shift_bytes b p rv on n (Suc i) bs (progress on i n h1) = (Inr (), h')"
    using Cons.prems by (auto simp: wire_byte_def Let_def split: sum.splits prod.splits)
  show ?case using Cons.IH [OF 2] shift_bits_Inr [OF 1] by (simp add: pairs_append)
qed (simp add: pairs_def)

lemma portWords_nth: "portWords rv ! unat by = byte_words (wire_byte rv by)"
  by (simp add: portWords_def byte_words_def wire_byte_def Let_def)

lemma shift_bytes_mem:
  "shift_bytes b MemPort rv on n i bs h = (Inr (), mem_bytes (portWords rv) on n i bs h)"
  by (induction bs arbitrary: i h)
    (simp_all add: shift_bits_mem portWords_nth byte_words_pairs wire_byte_def Let_def)

text \<open>
  The table-driven shift of the mapped port writes exactly what the bit-by-bit shift writes, word for
  word and with the same progress reports, for every image, in both bit orders.
\<close>

theorem shiftMem_is_the_bit_shift:
  "shiftMem rbf rv on h = shift_bytes b MemPort rv on (length rbf) 0 rbf h"
  by (simp add: shiftMem_def shift_bytes_mem)

lemma shiftAll_Inr:
  assumes "shiftAll b p rbf rv on h = (Inr (), h')"
  shows "writes h' = writes h @ pairs (concat (map (\<lambda>by. map (data_word (wire_byte rv by)) bits_down) rbf))"
proof -
  have "shift_bytes b p rv on (length rbf) 0 rbf h = (Inr (), h')"
    using assms by (auto simp: shiftAll_def shiftMem_def shift_bytes_mem split: if_splits)
  then show ?thesis by (rule shift_bytes_Inr)
qed

section \<open>A cycle that succeeds\<close>

lemma status_loop_Inr: "status_loop b p dt n h = (Inr (), h') \<Longrightarrow> writes h' = writes h"
  by (induction n arbitrary: h) (auto simp: ReadCfg_def split: option.splits if_splits)

lemma init_clocks_Inr:
  "init_clocks b p is h = (Inr (), h') \<Longrightarrow> writes h' = writes h @ pairs (replicate (length is) wordIdle)"
proof (induction "is" arbitrary: h)
  case (Cons i "is")
  then show ?case by (auto simp: pairs_def WriteCfg_def Let_def split: if_splits prod.splits)
qed (simp add: pairs_def)

text \<open>The trace ends with a read of the port that shows CONF_DONE, and no write after it.\<close>

definition configured :: "board \<Rightarrow> cfgport \<Rightarrow> pop list \<Rightarrow> bool" where
  "configured b p h \<longleftrightarrow> (\<exists>h1 h2 v. h = h1 @ Rd # h2 \<and> writes h2 = [] \<and> port_value b p h1 = Some v \<and> bit v 7)"

lemma and_confdone: "v AND BitCONFDONE \<noteq> 0 \<longleftrightarrow> bit v 7"
  using and_exp_eq_0_iff_not_bit [of v 7] by (simp add: BitCONFDONE_def)

lemma done_loop_Inr: "done_loop b p dt n h = (Inr (), h') \<Longrightarrow> writes h' = writes h \<and> configured b p h'"
proof (induction n arbitrary: h)
  case (Suc n)
  show ?case
  proof (cases "port_value b p h")
    case (Some v)
    show ?thesis
    proof (cases "v AND BitCONFDONE \<noteq> 0")
      case True
      then have "h' = h @ Rd # []" using Suc.prems Some by (simp add: ReadCfg_def)
      then show ?thesis using True Some and_confdone configured_def by fastforce
    next
      case False
      then show ?thesis using Suc Some by (auto simp: ReadCfg_def)
    qed
  qed (use Suc.prems in \<open>simp add: ReadCfg_def\<close>)
qed (simp add: Let_def split: prod.splits)

lemma finish_cycle_Inr:
  assumes "finish_cycle b p opt h = (Inr (), h')"
  shows "writes h' = writes h @ pairs (replicate (nat (o_InitClocks opt)) wordIdle) @ [wordIdle] \<and> configured b p h'"
proof -
  obtain h1 where 1: "init_clocks b p [0..<nat (o_InitClocks opt)] h = (Inr (), h1)"
    and 2: "done_loop b p (o_PollEvery opt) (maxPolls opt) (h1 @ [Wr wordIdle]) = (Inr (), h')"
    using assms by (auto simp: finish_cycle_def WriteCfg_def Let_def split: sum.splits prod.splits if_splits)
  show ?thesis using init_clocks_Inr [OF 1] done_loop_Inr [OF 2] by simp
qed

definition image_words :: "bool \<Rightarrow> byte list \<Rightarrow> nat \<Rightarrow> u16 list" where
  "image_words rv rbf n = concat (map (\<lambda>by. map (data_word (wire_byte rv by)) bits_down) rbf) @ replicate n wordIdle"

lemma configureOnce_Inr:
  assumes "configureOnce b p rbf rv opt h = (Inr (), h')"
  shows "writes h' = writes h @ wordReset # wordIdle # pairs (image_words rv rbf (nat (o_InitClocks opt))) @ [wordIdle]
    \<and> configured b p h'"
proof -
  let ?h0 = "h @ [Wr wordReset, Slp (o_NConfigLow opt), Wr wordIdle]"
  obtain h1 h2 where 1: "status_loop b p (o_StatusPoll opt) (nat (o_StatusPolls opt)) ?h0 = (Inr (), h1)"
    and 2: "shiftAll b p rbf rv (o_Progress opt) (if o_Progress opt then h1 @ [Prog 0 (length rbf)] else h1) = (Inr (), h2)"
    and 3: "finish_cycle b p opt h2 = (Inr (), h')"
    using assms by (auto simp: configureOnce_def WriteCfg_def Let_def split: sum.splits prod.splits if_splits)
  show ?thesis
    using status_loop_Inr [OF 1] shiftAll_Inr [OF 2] finish_cycle_Inr [OF 3]
    by (simp add: image_words_def pairs_append split: if_splits)
qed

lemma upt8: "[0..<8] = [0, 1, 2, 3, 4, 5, 6, 7 :: nat]"
  by code_simp

lemma wire_word_bits: "map (\<lambda>w. bit w 2) (map (data_word (wire_byte rv by)) bits_down) = wire_bits rv by"
  by (simp add: data_word_bits o_def bits_down_def wire_bits_def wire_byte_def bit_bitrev upt8)

lemma image_words_bits:
  "map (\<lambda>w. bit w 2) (image_words rv rbf n) = concat (map (wire_bits rv) rbf) @ replicate n False"
  "\<forall>w \<in> set (image_words rv rbf n). \<not> bit w 0" "\<forall>w \<in> set (image_words rv rbf n). bit w 1"
proof -
  have idle: "\<not> bit wordIdle 0" "bit wordIdle 1" "\<not> bit wordIdle 2" by (simp_all add: port_words)
  have "map (\<lambda>w. bit w 2) (concat (map (\<lambda>by. map (data_word (wire_byte rv by)) bits_down) rbf)) = concat (map (wire_bits rv) rbf)"
    by (induction rbf) (simp_all only: list.map concat.simps map_append wire_word_bits)
  then show "map (\<lambda>w. bit w 2) (image_words rv rbf n) = concat (map (wire_bits rv) rbf) @ replicate n False"
    using idle by (simp add: image_words_def)
  show "\<forall>w \<in> set (image_words rv rbf n). \<not> bit w 0" "\<forall>w \<in> set (image_words rv rbf n). bit w 1"
    using idle data_word_bits by (auto simp: image_words_def)
qed

lemma since_reset_cycle: "\<forall>w \<in> set ws. bit w 1 \<Longrightarrow> since_reset (us @ wordReset # ws) = ws"
proof -
  assume "\<forall>w \<in> set ws. bit w 1"
  moreover have "\<not> bit wordReset 1" by (simp add: wordReset_def)
  ultimately show ?thesis by (simp add: since_reset_def takeWhile_append)
qed

lemma latched_cycle:
  assumes "writes h = us @ wordReset # wordIdle # pairs (image_words rv rbf n) @ [wordIdle]"
  shows "latched h = concat (map (wire_bits rv) rbf) @ replicate n False"
proof -
  have idle: "bit wordIdle 1" "\<not> bit wordIdle 0" by (simp_all add: port_words)
  have "since_reset (writes h) = wordIdle # pairs (image_words rv rbf n) @ [wordIdle]"
    unfolding assms using set_pairs [OF image_words_bits(3)] idle by (intro since_reset_cycle) auto
  then show ?thesis
    using edges_pairs [OF image_words_bits(2)] idle image_words_bits(1) by (simp add: latched_def)
qed

lemma attempts_Inr:
  "attempts b p rbf rv opt n lst h = (Inr (), h') \<Longrightarrow> n > 0 \<Longrightarrow> \<exists>h0. configureOnce b p rbf rv opt h0 = (Inr (), h')"
proof (induction n arbitrary: lst h)
  case (Suc n)
  show ?case
  proof (cases "configureOnce b p rbf rv opt h")
    case (Pair res h1)
    show ?thesis
    proof (cases res)
      case (Inl e)
      then have a: "attempts b p rbf rv opt n (Inl e) h1 = (Inr (), h')" using Suc.prems Pair by simp
      then have "n > 0" by (cases n) auto
      then show ?thesis using Suc.IH [OF a] by simp
    next
      case (Inr u)
      then show ?thesis using Suc.prems Pair by auto
    qed
  qed
qed simp

definition shipped :: "byte list \<Rightarrow> load_options \<Rightarrow> pop list \<Rightarrow> bool" where
  "shipped rbf opt h \<longleftrightarrow> (\<exists>rv. resolveBitOrder rbf (o_BitOrder opt) (o_Force opt) = Inr rv
     \<and> latched h = concat (map (wire_bits rv) rbf) @ replicate (nat (o_InitClocks (withDefaults opt))) False)"

lemma withDefaults_simps [simp]:
  "o_BitOrder (withDefaults opt) = o_BitOrder opt" "o_Force (withDefaults opt) = o_Force opt"
  "o_AllowAnyLen (withDefaults opt) = o_AllowAnyLen opt" "o_Progress (withDefaults opt) = o_Progress opt"
  "0 < o_Attempts (withDefaults opt)" "0 < o_InitClocks (withDefaults opt)" "0 < o_StatusPolls (withDefaults opt)"
  "o_InitClocks (withDefaults (opt\<lparr>o_Attempts := n\<rparr>)) = o_InitClocks (withDefaults opt)"
  by (simp_all add: withDefaults_def Let_def)

lemma Reload_Inr:
  assumes "Reload b p rbf opt h = (Inr (), h')"
  shows "shipped rbf opt h' \<and> configured b p h'"
proof -
  let ?opt = "withDefaults opt"
  obtain rv where rv: "resolveBitOrder rbf (o_BitOrder opt) (o_Force opt) = Inr rv"
    and a: "attempts b p rbf rv ?opt (nat (o_Attempts ?opt)) (Inr ()) h = (Inr (), h')"
    using assms by (auto simp: Reload_def Let_def split: if_splits sum.splits)
  obtain h0 where c: "configureOnce b p rbf rv ?opt h0 = (Inr (), h')" using attempts_Inr [OF a] by auto
  show ?thesis using configureOnce_Inr [OF c] latched_cycle rv unfolding shipped_def by blast
qed

section \<open>The timing around a load\<close>

lemma writes_timing [simp]: "writes (set_timing t) = []" "writes (snd (read_timing b h)) = writes h"
  "writes (snd (apply_timing b t h)) = writes h"
proof -
  show w: "writes (set_timing t) = []" by (simp add: set_timing_def)
  show r: "writes (snd (read_timing b h)) = writes h" for h by (simp add: read_timing_def Let_def)
  show "writes (snd (apply_timing b t h)) = writes h"
    using w r [of "h @ set_timing t"] by (cases "read_timing b (h @ set_timing t)") (simp add: apply_timing_def)
qed

lemma apply_extends: "\<exists>g. snd (apply_timing b t h) = h @ g \<and> writes g = []"
  by (simp add: apply_timing_def read_timing_def set_timing_def Let_def)

lemma configured_extend: "configured b p h \<Longrightarrow> writes g = [] \<Longrightarrow> configured b p (h @ g)"
  unfolding configured_def by (metis append_assoc append_Cons append_Nil writes_simps(2))

lemma shipped_extend: "shipped rbf opt h \<Longrightarrow> writes g = [] \<Longrightarrow> shipped rbf opt (h @ g)"
  by (simp add: shipped_def latched_def)

lemma withFastWrites_run:
  assumes "withFastWrites b load h = (True, Inr (), h')"
  shows "\<exists>h1 h2 g. load h1 = (Inr (), h2) \<and> h' = h2 @ g \<and> writes g = []"
proof -
  obtain vendor h0 fast h1 ok1 ok2 where 1: "read_timing b h = (vendor, h0)" "fastWrite vendor = (fast, True)"
    "apply_timing b fast h0 = (True, h1)"
    and 2: "fst (load h1) = Inr ()" "apply_timing b vendor (snd (load h1)) = (ok2, h')"
    using assms by (auto simp: withFastWrites_def Let_def split: if_splits prod.splits)
  obtain g where "h' = snd (load h1) @ g" "writes g = []" using apply_extends [of b vendor "snd (load h1)"] 2(2) by auto
  then show ?thesis using 2(1) by (intro exI [of _ h1] exI [of _ "snd (load h1)"] exI [of _ g]) (simp add: prod_eq_iff)
qed

lemma reloadFast_Inr:
  assumes "reloadFast b rbf opt h = (Inr (), h')"
  shows "shipped rbf opt h' \<and> configured b MemPort h'"
proof -
  obtain rn res h1 where w: "withFastWrites b (Reload b MemPort rbf (opt\<lparr>o_Attempts := 1\<rparr>)) h = (rn, res, h1)"
    by (rule prod_cases3)
  show ?thesis
  proof (cases "rn \<and> res = Inr ()")
    case True
    then have "h' = h1" using assms w by (simp add: reloadFast_def)
    then obtain k1 k2 g where r: "Reload b MemPort rbf (opt\<lparr>o_Attempts := 1\<rparr>) k1 = (Inr (), k2)"
      and g: "h' = k2 @ g" "writes g = []"
      using withFastWrites_run [of b "Reload b MemPort rbf (opt\<lparr>o_Attempts := 1\<rparr>)" h h1] w True by auto
    have "shipped rbf opt k2" "configured b MemPort k2" using Reload_Inr [OF r] by (simp_all add: shipped_def)
    then show ?thesis using g shipped_extend configured_extend by blast
  next
    case False
    then show ?thesis using assms w Reload_Inr by (auto simp: reloadFast_def)
  qed
qed

lemma unforced_order:
  "resolveBitOrder rbf want False = Inr rv \<Longrightarrow> DetectOrder rbf = Inr (if rv then OrderNative else OrderPreReversed)"
proof -
  assume r: "resolveBitOrder rbf want False = Inr rv"
  then obtain ord where d: "DetectOrder rbf = Inr ord" "rv = Reverse ord"
    by (auto simp: resolveBitOrder_def split: sum.splits if_splits)
  then have "ord \<noteq> OrderUnknown" by (auto simp: DetectOrder_def Let_def split: if_splits option.splits)
  then show ?thesis using d by (cases ord) (simp_all add: Reverse_def)
qed

section \<open>A good board configures at once\<close>

lemma shift_bits_ok:
  "(\<And>h. p = MemPort \<or> bd_write b h) \<Longrightarrow> fst (shift_bits b p i y ks h) = Inr ()"
  by (induction ks arbitrary: h) (simp_all add: WriteCfg_def Let_def)

lemma shift_bytes_ok:
  "(\<And>h. p = MemPort \<or> bd_write b h) \<Longrightarrow> fst (shift_bytes b p rv on n i bs h) = Inr ()"
proof (induction bs arbitrary: i h)
  case (Cons y bs)
  obtain h1 where "shift_bits b p i (if rv then bitrev y else y) bits_down h = (Inr (), h1)"
    using shift_bits_ok [of p b i "if rv then bitrev y else y" bits_down h] Cons.prems by (metis prod.collapse)
  then show ?case using Cons.IH Cons.prems by (simp add: Let_def)
qed simp

lemma shiftAll_ok:
  "(\<And>h. p = MemPort \<or> bd_write b h) \<Longrightarrow> \<exists>h'. shiftAll b p rbf rv on h = (Inr (), h')"
  using shift_bytes_ok [of p b rv on "length rbf" 0 rbf h]
  by (cases "shift_bytes b p rv on (length rbf) 0 rbf h") (auto simp: shiftAll_def shiftMem_def)

lemma init_clocks_ok:
  "(\<And>h. p = MemPort \<or> bd_write b h) \<Longrightarrow> \<exists>h'. init_clocks b p is h = (Inr (), h')"
  by (induction "is" arbitrary: h) (simp_all add: WriteCfg_def Let_def)

lemma status_loop_ok:
  "port_value b p h = Some v \<Longrightarrow> bit v 6 \<Longrightarrow> 0 < n \<Longrightarrow> \<exists>h'. status_loop b p dt n h = (Inr (), h')"
  using and_exp_eq_0_iff_not_bit [of v 6] by (cases n) (simp_all add: ReadCfg_def BitNSTATUS_def)

lemma done_loop_ok:
  "port_value b p h = Some v \<Longrightarrow> bit v 7 \<Longrightarrow> 0 < n \<Longrightarrow> \<exists>h'. done_loop b p dt n h = (Inr (), h')"
  using and_confdone [of v] by (cases n) (simp_all add: ReadCfg_def)

definition good_board :: "board \<Rightarrow> cfgport \<Rightarrow> bool list \<Rightarrow> bool" where
  "good_board b p bits \<longleftrightarrow> (\<forall>h. (p = MemPort \<or> bd_write b h)
     \<and> (\<exists>v. port_value b p h = Some v \<and> bit v 6 \<and> (latched h = bits \<longrightarrow> bit v 7)))"

definition image_bits :: "bool \<Rightarrow> byte list \<Rightarrow> nat \<Rightarrow> bool list" where
  "image_bits rv rbf n = concat (map (wire_bits rv) rbf) @ replicate n False"

lemma configureOnce_ok:
  assumes g: "good_board b p (image_bits rv rbf (nat (o_InitClocks opt)))"
    and m: "0 < maxPolls opt" "0 < o_StatusPolls opt"
  shows "\<exists>h'. configureOnce b p rbf rv opt h = (Inr (), h')"
proof -
  have wr: "p = MemPort \<or> bd_write b k" for k using g by (simp add: good_board_def)
  let ?h0 = "h @ [Wr wordReset, Slp (o_NConfigLow opt), Wr wordIdle]"
  obtain v where "port_value b p ?h0 = Some v" "bit v 6" using g unfolding good_board_def by blast
  then obtain h1 where 1: "status_loop b p (o_StatusPoll opt) (nat (o_StatusPolls opt)) ?h0 = (Inr (), h1)"
    using status_loop_ok m(2) by (metis zero_less_nat_eq)
  let ?h1 = "if o_Progress opt then h1 @ [Prog 0 (length rbf)] else h1"
  obtain h2 where 2: "shiftAll b p rbf rv (o_Progress opt) ?h1 = (Inr (), h2)" using shiftAll_ok [OF wr] by blast
  obtain h3 where 3: "init_clocks b p [0..<nat (o_InitClocks opt)] h2 = (Inr (), h3)" using init_clocks_ok [OF wr] by blast
  have "writes (h3 @ [Wr wordIdle])
      = writes h @ wordReset # wordIdle # pairs (image_words rv rbf (nat (o_InitClocks opt))) @ [wordIdle]"
    using status_loop_Inr [OF 1] shiftAll_Inr [OF 2] init_clocks_Inr [OF 3]
    by (simp add: image_words_def pairs_append split: if_splits)
  then have "latched (h3 @ [Wr wordIdle]) = image_bits rv rbf (nat (o_InitClocks opt))"
    unfolding image_bits_def by (rule latched_cycle)
  then obtain v where "port_value b p (h3 @ [Wr wordIdle]) = Some v" "bit v 7" using g unfolding good_board_def by blast
  then obtain h4 where 4: "done_loop b p (o_PollEvery opt) (maxPolls opt) (h3 @ [Wr wordIdle]) = (Inr (), h4)"
    using done_loop_ok m(1) by blast
  have w: "WriteCfg b p w k = (True, k @ [Wr w])" for w k using wr by (simp add: WriteCfg_def)
  have "configureOnce b p rbf rv opt h = (Inr (), h4)"
    using 1 2 3 4 by (simp add: configureOnce_def finish_cycle_def w Let_def)
  then show ?thesis ..
qed

lemma length_pairs: "length (pairs us) = 2 * length us"
  by (induction us) (simp_all add: pairs_def)

lemma length_image_words: "length (image_words rv rbf n) = 8 * length rbf + n"
  by (induction rbf) (simp_all add: image_words_def bits_down_def)

lemma Reload_good:
  assumes "good_board b p (image_bits rv rbf (nat (o_InitClocks (withDefaults opt))))"
    and "o_AllowAnyLen opt \<or> validLen (int (length rbf))"
    and "resolveBitOrder rbf (o_BitOrder opt) (o_Force opt) = Inr rv" and "0 < maxPolls (withDefaults opt)"
  shows "\<exists>h'. Reload b p rbf opt h = (Inr (), h')
    \<and> length (writes h') = length (writes h) + 16 * length rbf + 2 * nat (o_InitClocks (withDefaults opt)) + 3"
proof -
  let ?o = "withDefaults opt"
  obtain h' where c: "configureOnce b p rbf rv ?o h = (Inr (), h')"
    using configureOnce_ok [OF assms(1,4)] by auto
  obtain n where "nat (o_Attempts ?o) = Suc n" using withDefaults_simps(5) [of opt] by (metis gr0_conv_Suc zero_less_nat_eq)
  then have "Reload b p rbf opt h = (Inr (), h')" using assms(2,3) c by (auto simp: Reload_def)
  moreover have "length (writes h') = length (writes h) + 16 * length rbf + 2 * nat (o_InitClocks ?o) + 3"
    using configureOnce_Inr [OF c] by (simp add: length_pairs length_image_words)
  ultimately show ?thesis by blast
qed

section \<open>The two stored orders\<close>

definition other_order :: "Order \<Rightarrow> Order" where
  "other_order ord = (case ord of OrderNative \<Rightarrow> OrderPreReversed | OrderPreReversed \<Rightarrow> OrderNative | OrderUnknown \<Rightarrow> OrderUnknown)"

lemma find_bad_None: "find_bad i bs = None \<longleftrightarrow> (\<forall>b \<in> set bs. b = 0xFF)"
  by (induction bs arbitrary: i) auto

lemma headers_mirror: "map bitrev hdrNative = hdrPreReversed" "map bitrev hdrPreReversed = hdrNative" "bitrev 0xFF = 0xFF"
  by code_simp+

lemma DetectOrder_mirror:
  assumes "DetectOrder rbf = Inr ord"
  shows "DetectOrder (map bitrev rbf) = Inr (other_order ord)"
proof -
  have l: "\<not> length rbf < rbfHeaderOff + rbfHeaderLen" using assms by (auto simp: DetectOrder_def split: if_splits)
  have f: "find_bad 0 (take rbfPreambleLen rbf) = None" using assms l by (auto simp: DetectOrder_def split: option.splits)
  then have f': "find_bad 0 (take rbfPreambleLen (map bitrev rbf)) = None"
    using headers_mirror(3) by (auto simp: find_bad_None take_map)
  have "hdrNative \<noteq> hdrPreReversed" by code_simp
  moreover have "take rbfHeaderLen (drop rbfHeaderOff (map bitrev rbf)) = map bitrev (take rbfHeaderLen (drop rbfHeaderOff rbf))"
    by (simp add: take_map drop_map)
  ultimately show ?thesis
    using assms l f f' headers_mirror(1,2) by (auto simp: DetectOrder_def Let_def other_order_def split: if_splits)
qed

lemma shift_bytes_mirror:
  "shift_bytes b p (\<not> rv) on n i (map bitrev bs) h = shift_bytes b p rv on n i bs h"
  by (induction bs arbitrary: i h) (auto simp: Let_def split: sum.splits prod.splits)

lemma shiftAll_mirror: "shiftAll b p (map bitrev rbf) (\<not> rv) on h = shiftAll b p rbf rv on h"
proof -
  have "shiftMem rbf rv on h = shift_bytes b MemPort rv on (length rbf) 0 rbf h" for rbf rv
    by (simp add: shiftMem_def shift_bytes_mem)
  then show ?thesis using shift_bytes_mirror by (simp add: shiftAll_def)
qed

lemma attempts_mirror: "attempts b p (map bitrev rbf) (\<not> rv) opt n lst h = attempts b p rbf rv opt n lst h"
  by (induction n arbitrary: lst h)
    (simp_all add: configureOnce_def shiftAll_mirror cong: sum.case_cong prod.case_cong if_cong)

section \<open>The timing is put back\<close>

definition sets :: "pop list \<Rightarrow> (nat \<times> u32) list" where
  "sets h = concat (map (\<lambda>x. case x of SetReg r v \<Rightarrow> [(r, v)] | _ \<Rightarrow> []) h)"

lemma sets_simps [simp]:
  "sets [] = []" "sets (h @ h') = sets h @ sets h'" "sets (Wr w # h) = sets h"
  "sets (WrErr w # h) = sets h" "sets (Rd # h) = sets h" "sets (Slp t # h) = sets h"
  "sets (Prog i n # h) = sets h" "sets (SetReg r v # h) = (r, v) # sets h" "sets (GetReg r # h) = sets h"
  by (simp_all add: sets_def)

lemma sets_port [simp]:
  "sets (snd (WriteCfg b p w h)) = sets h" "sets (snd (ReadCfg b p h)) = sets h" "sets (progress on i n h) = sets h"
  "sets (map Wr ws) = []"
  by (simp_all add: WriteCfg_def ReadCfg_def progress_def) (induction ws, simp_all)

lemma sets_shift_bits: "sets (snd (shift_bits b p i y ks h)) = sets h"
  by (induction ks arbitrary: h) (auto simp: WriteCfg_def Let_def)

lemma sets_mem_bytes: "sets (mem_bytes ws on n i bs h) = sets h"
  by (induction bs arbitrary: i h) simp_all

lemma sets_shift_bytes: "sets (snd (shift_bytes b p rv on n i bs h)) = sets h"
proof (induction bs arbitrary: i h)
  case (Cons y bs)
  show ?case
    using sets_shift_bits [of b p i "if rv then bitrev y else y" bits_down h] Cons.IH
    by (cases "shift_bits b p i (if rv then bitrev y else y) bits_down h") (auto simp: Let_def split: sum.splits)
qed simp

lemma sets_shiftAll: "sets (snd (shiftAll b p rbf rv on h)) = sets h"
  by (simp add: shiftAll_def shiftMem_def sets_mem_bytes sets_shift_bytes)

lemma sets_loops:
  "sets (snd (status_loop b p dt n h)) = sets h" "sets (snd (done_loop b p dt n h)) = sets h"
  "sets (snd (init_clocks b p is h)) = sets h"
proof -
  show "sets (snd (status_loop b p dt n h)) = sets h"
    by (induction n arbitrary: h) (auto simp: ReadCfg_def split: option.splits)
  show "sets (snd (done_loop b p dt n h)) = sets h"
    by (induction n arbitrary: h) (auto simp: ReadCfg_def Let_def split: option.splits)
  show "sets (snd (init_clocks b p is h)) = sets h"
    by (induction "is" arbitrary: h) (auto simp: WriteCfg_def Let_def)
qed

lemma sets_finish: "sets (snd (finish_cycle b p opt h)) = sets h"
  using sets_loops(3) [of b p "[0..<nat (o_InitClocks opt)]" h] sets_loops(2)
  by (auto simp: finish_cycle_def WriteCfg_def Let_def split: sum.splits prod.splits)

lemma sets_configureOnce: "sets (snd (configureOnce b p rbf rv opt h)) = sets h"
proof -
  let ?pr = "\<lambda>h. if o_Progress opt then h @ [Prog 0 (length rbf)] else h"
  obtain ok0 k0 where w0: "WriteCfg b p wordReset h = (ok0, k0)" by fastforce
  obtain ok1 k1 where w1: "WriteCfg b p wordIdle (k0 @ [Slp (o_NConfigLow opt)]) = (ok1, k1)" by fastforce
  obtain r1 h1 where 1: "status_loop b p (o_StatusPoll opt) (nat (o_StatusPolls opt)) k1 = (r1, h1)" by fastforce
  obtain r2 h2 where 2: "shiftAll b p rbf rv (o_Progress opt) (?pr h1) = (r2, h2)" by fastforce
  have s: "sets k0 = sets h" "sets k1 = sets k0"
    using sets_port(1) [of b p wordReset h] sets_port(1) [of b p wordIdle "k0 @ [Slp (o_NConfigLow opt)]"] w0 w1 by simp_all
  have t: "sets h1 = sets k1" "sets h2 = sets h1" "sets (snd (finish_cycle b p opt h2)) = sets h2"
    using sets_loops(1) [of b p "o_StatusPoll opt" "nat (o_StatusPolls opt)" k1] 1
      sets_shiftAll [of b p rbf rv "o_Progress opt" "?pr h1"] 2 sets_finish by (simp_all split: if_splits)
  have "configureOnce b p rbf rv opt h = (if \<not> ok0 then (Inl NConfigAssert, k0) else if \<not> ok1 then (Inl NConfigRelease, k1)
      else case r1 of Inl e \<Rightarrow> (Inl e, h1) | Inr _ \<Rightarrow> (case r2 of Inl e \<Rightarrow> (Inl e, h2) | Inr _ \<Rightarrow> finish_cycle b p opt h2))"
    unfolding configureOnce_def w0 Let_def prod.case w1 1 2 by (cases r1; cases r2) (simp_all add: 2)
  then show ?thesis using s t by (simp split: sum.splits)
qed

lemma sets_attempts: "sets (snd (attempts b p rbf rv opt n lst h)) = sets h"
proof (induction n arbitrary: lst h)
  case (Suc n)
  then show ?case
    using sets_configureOnce [of b p rbf rv opt h]
    by (cases "configureOnce b p rbf rv opt h") (auto split: sum.splits)
qed simp

lemma sets_Reload: "sets (snd (Reload b p rbf opt h)) = sets h"
  by (simp add: Reload_def Let_def sets_attempts split: sum.splits)

definition timing_sets :: "cs3Timing \<Rightarrow> (nat \<times> u32) list" where
  "timing_sets t = [(cs3Config2, t_c2 t), (cs3Config4, t_c4 t), (cs3Config5, t_c5 t), (cs3Config6, t_c6 t)]"

lemma sets_timing: "sets (snd (read_timing b h)) = sets h" "sets (snd (apply_timing b t h)) = sets h @ timing_sets t"
  by (simp_all add: read_timing_def apply_timing_def set_timing_def timing_sets_def Let_def)

text \<open>Nothing set, or the short cycle set from the timing read, and that timing set again.\<close>

definition put_back :: "board \<Rightarrow> pop list \<Rightarrow> pop list \<Rightarrow> bool" where
  "put_back b h h' \<longleftrightarrow> sets h' = sets h \<or>
     (\<exists>h0 vendor fast. vendor = fst (read_timing b h0) \<and> fastWrite vendor = (fast, True)
        \<and> sets h' = sets h @ timing_sets fast @ timing_sets vendor)"

lemma put_back_fast:
  assumes "\<And>h. sets (snd (load h)) = sets h" "withFastWrites b load h = (rn, res, h')"
  shows "put_back b h h'"
proof -
  obtain vendor h0 where r: "read_timing b h = (vendor, h0)" by fastforce
  obtain fast ok where f: "fastWrite vendor = (fast, ok)" by fastforce
  obtain ok1 h1 where a1: "apply_timing b fast h0 = (ok1, h1)" by fastforce
  have s0: "sets h0 = sets h" using sets_timing(1) [of b h] r by simp
  have s1: "sets h1 = sets h @ timing_sets fast" using sets_timing(2) [of b fast h0] a1 s0 by simp
  have v: "vendor = fst (read_timing b h)" using r by simp
  have "sets h' = sets h \<or> ok \<and> sets h' = sets h @ timing_sets fast @ timing_sets vendor"
  proof (cases "bd_mem b h \<and> ok")
    case True
    have e: "sets (snd (apply_timing b vendor (snd (load h1)))) = sets h @ timing_sets fast @ timing_sets vendor"
      "sets (snd (apply_timing b vendor h1)) = sets h @ timing_sets fast @ timing_sets vendor"
      using sets_timing(2) assms(1) s1 by simp_all
    have "h' = snd (apply_timing b vendor (snd (load h1))) \<or> h' = snd (apply_timing b vendor h1)"
    proof -
      obtain res' h2 where l: "load h1 = (res', h2)" by fastforce
      obtain ok2 h3 where a2: "apply_timing b vendor h2 = (ok2, h3)" by fastforce
      show ?thesis using assms(2) True r f a1 l a2 by (cases ok1) (simp_all add: withFastWrites_def)
    qed
    then show ?thesis using e True by auto
  next
    case False
    then have "h' = h \<or> h' = h0" using assms(2) r f by (auto simp: withFastWrites_def Let_def split: if_splits)
    then show ?thesis using s0 by auto
  qed
  then show ?thesis
  proof
    assume "ok \<and> sets h' = sets h @ timing_sets fast @ timing_sets vendor"
    then show ?thesis unfolding put_back_def using v f by (intro disjI2 exI [of _ h] exI [of _ vendor] exI [of _ fast]) simp
  qed (simp add: put_back_def)
qed

lemma put_back_sets: "put_back b h h1 \<Longrightarrow> sets h2 = sets h1 \<Longrightarrow> put_back b h h2"
  by (simp add: put_back_def)

lemma put_back_reloadFast: "put_back b h (snd (reloadFast b rbf opt h))"
proof -
  obtain rn res h1 where w: "withFastWrites b (Reload b MemPort rbf (opt\<lparr>o_Attempts := 1\<rparr>)) h = (rn, res, h1)"
    by (rule prod_cases3)
  have "put_back b h h1" by (rule put_back_fast [OF sets_Reload w])
  then show ?thesis using w put_back_sets [OF _ sets_Reload] by (simp add: reloadFast_def)
qed

lemma put_back_Configure: "put_back b h (snd (ConfigureVolatile b fd rbf opt h))"
proof -
  obtain ok h1 where o: "openMemPort b h = (ok, h1)" by fastforce
  have s: "sets h1 = sets h" using o by (auto simp: openMemPort_def ReadCfg_def split: if_splits option.splits)
  have "put_back b h1 (snd (reloadFast b rbf opt h1))" "sets (snd (Reload b IoctlPort rbf opt h1)) = sets h1"
    by (rule put_back_reloadFast, rule sets_Reload)
  then show ?thesis using o s by (simp add: ConfigureVolatile_def put_back_def)
qed

lemma bit_field:
  assumes "n < 32"
  shows "bit (field w sh width v) n = (if sh \<le> n \<and> n < sh + width then bit v (n - sh) else bit w n)"
proof -
  have m: "push_bit width 1 - 1 = (mask width :: u32)" by (simp add: mask_eq_exp_minus_1 flip: push_bit_of_1)
  show ?thesis using assms unfolding field_def m Let_def
    by (auto simp: bit_or_iff bit_and_iff bit_not_iff bit_push_bit_iff bit_mask_iff)
qed

text \<open>The bits of the four words that are the write cycle: CSWROFFTIME, WEONTIME and WEOFFTIME, WRCYCLETIME,
  CYCLE2CYCLEDELAY.\<close>

definition only_write_fields :: "cs3Timing \<Rightarrow> cs3Timing \<Rightarrow> bool" where
  "only_write_fields t f \<longleftrightarrow> (\<forall>n < 32.
     (n \<notin> {16..20} \<longrightarrow> bit (t_c2 f) n = bit (t_c2 t) n) \<and> (n \<notin> {16..19} \<union> {24..28} \<longrightarrow> bit (t_c4 f) n = bit (t_c4 t) n)
     \<and> (n \<notin> {8..12} \<longrightarrow> bit (t_c5 f) n = bit (t_c5 t) n) \<and> (n \<notin> {8..11} \<longrightarrow> bit (t_c6 f) n = bit (t_c6 t) n))"

lemma fastWrite_only_write: "fastWrite t = (f, True) \<Longrightarrow> only_write_fields t f"
  by (auto simp: fastWrite_def only_write_fields_def bit_field split: if_splits)

section \<open>The load\<close>

lemma ConfigureVolatile_Inr:
  assumes "ConfigureVolatile b fd rbf opt h = (Inr (), h')"
  shows "\<exists>p. shipped rbf opt h' \<and> configured b p h'"
proof -
  obtain ok h1 where "openMemPort b h = (ok, h1)" by fastforce
  then have "reloadFast b rbf opt h1 = (Inr (), h') \<or> Reload b IoctlPort rbf opt h1 = (Inr (), h')"
    using assms by (auto simp: ConfigureVolatile_def split: if_splits)
  then show ?thesis using reloadFast_Inr Reload_Inr by blast
qed

text \<open>
  C18: A load that reports success has clocked the image. Whatever the board does at each access, when
  \<open>ConfigureVolatile\<close> returns without error, through either port, at either timing, after any number of
  failed cycles, then what the device sampled at the rising clock edges since nCONFIG was last low is
  exactly the image, byte for byte in the order decided for it, and the initialisation clocks, with
  nCONFIG high throughout; the port was then read with CONF_DONE set and not written again; and
  without \<open>Force\<close> that order is the one the image's own header says.
\<close>

theorem configured_device_got_the_image:
  assumes "ConfigureVolatile b fd rbf opt h = (Inr (), h')"
  shows "\<exists>rv. resolveBitOrder rbf (o_BitOrder opt) (o_Force opt) = Inr rv
    \<and> (\<not> o_Force opt \<longrightarrow> DetectOrder rbf = Inr (if rv then OrderNative else OrderPreReversed))
    \<and> latched h' = concat (map (wire_bits rv) rbf) @ replicate (nat (o_InitClocks (withDefaults opt))) False
    \<and> (\<exists>p h1 h2 v. h' = h1 @ Rd # h2 \<and> writes h2 = [] \<and> port_value b p h1 = Some v \<and> bit v 7)"
proof -
  obtain p where "shipped rbf opt h'" "configured b p h'" using ConfigureVolatile_Inr [OF assms] by blast
  then show ?thesis using unforced_order unfolding shipped_def configured_def by fastforce
qed

text \<open>A small native image, and a board that configures when it has it.\<close>

definition sample_image :: "byte list" where
  "sample_image = replicate 32 0xFF @ hdrNative"

definition sample_options :: load_options where
  "sample_options = \<lparr>o_BitOrder = BitOrderAuto, o_Force = False, o_InitClocks = 0, o_NConfigLow = 0, o_StatusPoll = 0,
     o_StatusPolls = 0, o_Timeout = 0, o_PollEvery = 0, o_Attempts = 0, o_AllowAnyLen = True, o_Progress = False\<rparr>"

definition sample_board :: board where
  "sample_board = \<lparr>bd_write = (\<lambda>h. True),
     bd_read = (\<lambda>h. Some (if latched h = image_bits True sample_image 128 then 0xC0 else 0x40)),
     bd_load = (\<lambda>h. 0), bd_reg = (\<lambda>h r. 0), bd_mem = (\<lambda>h. False)\<rparr>"

lemma sample_facts:
  "resolveBitOrder sample_image BitOrderAuto False = Inr True" "DetectOrder sample_image = Inr OrderNative"
  "o_InitClocks (withDefaults sample_options) = 128" "maxPolls (withDefaults sample_options) = 5001"
  by code_simp+

lemma sample_good: "good_board sample_board IoctlPort (image_bits True sample_image 128)"
  by (auto simp: good_board_def sample_board_def port_value_def)

lemma sample_run: "\<exists>h'. Reload sample_board IoctlPort sample_image sample_options [] = (Inr (), h')"
  using Reload_good [of sample_board IoctlPort True sample_image sample_options] sample_facts sample_good
  by (auto simp: sample_options_def)

lemma configured_device_got_the_image_witness:
  "\<exists>h'. ConfigureVolatile sample_board 3 sample_image sample_options [] = (Inr (), h')
     \<and> latched h' = concat (map (wire_bits True) sample_image) @ replicate 128 False"
proof -
  obtain h' where r: "Reload sample_board IoctlPort sample_image sample_options [] = (Inr (), h')" using sample_run by blast
  then have c: "ConfigureVolatile sample_board 3 sample_image sample_options [] = (Inr (), h')"
    by (simp add: ConfigureVolatile_def openMemPort_def sample_board_def)
  show ?thesis using configured_device_got_the_image [OF c] c sample_facts by (auto simp: sample_options_def)
qed

text \<open>
  A working board is configured in one cycle. When port accesses do not fail, nSTATUS is high once
  nCONFIG is released and CONF_DONE rises when the device has the image, a load of an image of a legal
  length whose order is resolved succeeds at its first attempt, with exactly 16 port writes per byte, 2
  per initialisation clock and 3 to start and park.
\<close>

theorem Reload_configures_a_working_board:
  assumes "good_board b p (image_bits rv rbf (nat (o_InitClocks (withDefaults opt))))"
    and "o_AllowAnyLen opt \<or> validLen (int (length rbf))"
    and "resolveBitOrder rbf (o_BitOrder opt) (o_Force opt) = Inr rv" and "0 < maxPolls (withDefaults opt)"
  shows "\<exists>h'. Reload b p rbf opt h = (Inr (), h')
    \<and> length (writes h') = length (writes h) + 16 * length rbf + 2 * nat (o_InitClocks (withDefaults opt)) + 3"
  using Reload_good [OF assms] .

lemma Reload_configures_a_working_board_witness:
  "\<exists>h'. Reload sample_board IoctlPort sample_image sample_options [] = (Inr (), h') \<and> length (writes h') = 915"
proof -
  have l: "length sample_image = 41" by (simp add: sample_image_def hdrNative_def)
  show ?thesis
    using Reload_configures_a_working_board [of sample_board IoctlPort True sample_image sample_options "[]"]
      sample_facts sample_good l by (auto simp: sample_options_def)
qed

text \<open>
  An image loads the same from either stored order. The image whose every byte is bit-reversed is
  recognised as the other order, and with the order left to the container the load of it is the load of
  the original, access for access and result for result, on any board.
\<close>

theorem either_stored_order_loads_the_same:
  assumes "DetectOrder rbf = Inr ord" and "o_BitOrder opt = BitOrderAuto"
  shows "DetectOrder (map bitrev rbf) = Inr (other_order ord) \<and> Reload b p (map bitrev rbf) opt h = Reload b p rbf opt h"
proof -
  note m = DetectOrder_mirror [OF assms(1)]
  have "ord \<noteq> OrderUnknown" using assms(1) by (auto simp: DetectOrder_def Let_def split: if_splits option.splits)
  then have "Reverse (other_order ord) = (\<not> Reverse ord)" by (cases ord) (simp_all add: Reverse_def other_order_def)
  then show ?thesis
    using m assms attempts_mirror by (simp add: Reload_def Let_def resolveBitOrder_def)
qed

lemma either_stored_order_loads_the_same_witness:
  "Reload sample_board IoctlPort (map bitrev sample_image) sample_options []
   = Reload sample_board IoctlPort sample_image sample_options []"
  using either_stored_order_loads_the_same [OF sample_facts(2), of sample_options sample_board IoctlPort "[]"]
  by (simp add: sample_options_def)

text \<open>
  C19: The chip select's timing is always put back. Whatever the board does and however the load ends, it
  leaves the memory controller's registers alone, or it sets the short write cycle once and then sets
  back, last, the very words it read before; it changes them only when the write cycle and gap read are
  the vendor's 20 and 15 clocks, and then only the fields of the write cycle.
\<close>

theorem vendor_timing_is_put_back:
  "sets (snd (ConfigureVolatile b fd rbf opt h)) = sets h \<or>
   (\<exists>h0 vendor fast. vendor = fst (read_timing b h0) \<and> fastWrite vendor = (fast, True)
      \<and> drop_bit 8 (t_c5 vendor) AND 31 = 20 \<and> drop_bit 8 (t_c6 vendor) AND 15 = 15 \<and> only_write_fields vendor fast
      \<and> sets (snd (ConfigureVolatile b fd rbf opt h)) = sets h @ timing_sets fast @ timing_sets vendor)"
proof -
  have "fastWrite t = (f, True) \<Longrightarrow> drop_bit 8 (t_c5 t) AND 31 = 20 \<and> drop_bit 8 (t_c6 t) AND 15 = 15" for t f
    by (auto simp: fastWrite_def split: if_splits)
  then show ?thesis
    using put_back_Configure [of b h fd rbf opt] fastWrite_only_write unfolding put_back_def by blast
qed

end
