(* ===== verification/SramBus.thy ===== *)
theory SramBus
  imports Prelude
begin

text \<open>
  The acquisition fabric's register bus as \<open>Capture\<close> uses it (\<open>app/internal/sramcapture/capture.go\<close>): single
  and batched reads and writes, the registers an arm reads once and then answers from, and the write
  queue that turns many writes into one round trip.

  The fabric is arbitrary: what a read returns and whether a write is accepted is a function of the
  accesses made before. A bus worker's batch calls are these accesses in order.
\<close>

section \<open>The fabric and the capture\<close>

datatype bop = BRead nat | BWrite nat u16 | BWriteErr nat u16

record fabric =
  fb_read :: "bop list \<Rightarrow> nat \<Rightarrow> u16 option"
  fb_write :: "bop list \<Rightarrow> nat \<Rightarrow> u16 \<Rightarrow> bool"

record capture =
  cp_trace :: "bop list"
  cp_armRead :: "u16 list"
  cp_armReady :: bool
  cp_queueWrites :: bool
  cp_pending :: "(nat \<times> u16) list"
  cp_envelopeOn :: bool
  cp_symbolTable :: "byte list"
  cp_symbolTableOK :: bool
  cp_ringStream :: bool
  cp_streamWords :: u16
  cp_streamBacklog :: bool
  cp_beats :: nat

datatype cap_error =
    BusError | NotFabric u16 | OldRevision u16 | BadMap u16
  | InvalidConfig string | MissingBlock string | NotHalted | PairNotZero | NoDecimation | RawOnlyImage
  | OtherUART | CommandRejected u16 u16 | Cancelled
  | StreamDisabled | EpochChanged | TransportError u16 | BadEvent | StaleEvent | BadBatch | BadCount u16
  | MarksKeptChanging | NotSupported | NotRunning | NotFrozen
  | BadRate u16 | BadDecimation u16 | BadFormat u16 | TimelineChanged | BadTimeline | RecordChanged | DataFaulted
  | WindowExceeds | BadBuffer u16 | ForwardRevision | ShortBuffer u16 | BurstPointer u16 | ShortWrite | SinkError
  | BadWindow | ShortEnvelope u16 | BadCounter | NoIdentity | NoStreamBlock | StreamFault | MissingWord
  | Diverges | StreamChanged | BadPace | BadStreamDecimation | StreamRevision | BadLimit | WorkerError

text \<open>An operation on the capture: an error or a result, and the capture after.\<close>

type_synonym 'a cap = "fabric \<Rightarrow> capture \<Rightarrow> (cap_error + 'a) \<times> capture"

definition ret :: "'a \<Rightarrow> 'a cap" where
  "ret x = (\<lambda>b c. (Inr x, c))"

definition fail :: "cap_error \<Rightarrow> 'a cap" where
  "fail e = (\<lambda>b c. (Inl e, c))"

definition andThen :: "'a cap \<Rightarrow> ('a \<Rightarrow> 'b cap) \<Rightarrow> 'b cap" where
  "andThen m f = (\<lambda>b c. case m b c of (Inl e, c) \<Rightarrow> (Inl e, c) | (Inr x, c) \<Rightarrow> f x b c)"

text \<open>\<open>do1\<close>: a step whose result is only its error.\<close>

abbreviation do1 :: "unit cap \<Rightarrow> 'b cap \<Rightarrow> 'b cap" where
  "do1 m k \<equiv> andThen m (\<lambda>_. k)"

definition update :: "(capture \<Rightarrow> capture) \<Rightarrow> unit cap" where
  "update f = (\<lambda>b c. (Inr (), f c))"

definition getc :: "(capture \<Rightarrow> 'a) \<Rightarrow> 'a cap" where
  "getc f = (\<lambda>b c. (Inr (f c), c))"

section \<open>Reads and writes\<close>

text \<open>The registers an arm reads in one batch: the status first, then the ones no write changes.\<close>

definition qualCapability :: nat where "qualCapability = 74"

definition armSels :: "nat list" where
  "armSels = [1, 13, 63, 73, 110, qualCapability, 48, 53, 64, 77, 97, 102, 109, 118]"

definition RawWrite :: "nat \<Rightarrow> u16 \<Rightarrow> unit cap" where
  "RawWrite s v = (\<lambda>b c.
     if fb_write b (cp_trace c) s v then (Inr (), c\<lparr>cp_trace := cp_trace c @ [BWrite s v]\<rparr>)
     else (Inl BusError, c\<lparr>cp_trace := cp_trace c @ [BWriteErr s v]\<rparr>))"

fun sendMany :: "(nat \<times> u16) list \<Rightarrow> unit cap" where
  "sendMany [] = ret ()"
| "sendMany ((s, v) # rs) = do1 (RawWrite s v) (sendMany rs)"

definition flushWrites :: "unit cap" where
  "flushWrites = (\<lambda>b c.
     if cp_pending c = [] then (Inr (), c)
     else case sendMany (cp_pending c) b c of (r, c) \<Rightarrow> (r, c\<lparr>cp_pending := []\<rparr>))"

definition write_reg :: "nat \<Rightarrow> u16 \<Rightarrow> unit cap" where
  "write_reg s v = (\<lambda>b c.
     if cp_queueWrites c then (Inr (), c\<lparr>cp_pending := cp_pending c @ [(s, v)]\<rparr>) else RawWrite s v b c)"

definition writeMany :: "(nat \<times> u16) list \<Rightarrow> unit cap" where
  "writeMany regs = (\<lambda>b c.
     if cp_queueWrites c then (Inr (), c\<lparr>cp_pending := cp_pending c @ regs\<rparr>) else sendMany regs b c)"

definition bus_read :: "nat \<Rightarrow> u16 cap" where
  "bus_read s = (\<lambda>b c. case fb_read b (cp_trace c) s of
     None \<Rightarrow> (Inl BusError, c\<lparr>cp_trace := cp_trace c @ [BRead s]\<rparr>)
   | Some v \<Rightarrow> (Inr v, c\<lparr>cp_trace := cp_trace c @ [BRead s], cp_beats := Suc (cp_beats c)\<rparr>))"

text \<open>The cached value of a register, when an arm runs: not the status, which moves.\<close>

definition cached :: "nat \<Rightarrow> capture \<Rightarrow> u16 option" where
  "cached s c = (if cp_armReady c then map_of (zip (tl armSels) (tl (cp_armRead c))) s else None)"

definition read_reg :: "nat \<Rightarrow> u16 cap" where
  "read_reg s = (\<lambda>b c. case cached s c of
     Some v \<Rightarrow> (Inr v, c)
   | None \<Rightarrow> do1 flushWrites (bus_read s) b c)"

fun read_all :: "nat list \<Rightarrow> u16 list cap" where
  "read_all [] = ret []"
| "read_all (s # ss) = andThen (read_reg s) (\<lambda>v. andThen (read_all ss) (\<lambda>vs. ret (v # vs)))"

definition readMany :: "nat list \<Rightarrow> u16 list cap" where
  "readMany sels = do1 flushWrites (read_all sels)"

definition u32_of :: "u16 \<Rightarrow> u16 \<Rightarrow> u32" where
  "u32_of lo hi = ucast lo OR push_bit 16 (ucast hi)"

definition read32 :: "nat \<Rightarrow> u32 cap" where
  "read32 s = andThen (read_reg s) (\<lambda>lo. andThen (read_reg (s + 1)) (\<lambda>hi. ret (u32_of lo hi)))"

definition lo16 :: "u32 \<Rightarrow> u16" where "lo16 v = ucast (v AND 0xffff)"
definition hi16 :: "u32 \<Rightarrow> u16" where "hi16 v = ucast (drop_bit 16 v)"

lemma mask16: "(0xffff :: u32) = mask 16" "(0xffff :: u64) = mask 16"
  by (simp_all add: mask_eq_exp_minus_1)

lemma bit_lo16: "bit (lo16 v) k \<longleftrightarrow> k < 16 \<and> bit v k"
  unfolding lo16_def mask16 by (auto simp: bit_simps)

lemma bit_hi16: "bit (hi16 v) k \<longleftrightarrow> k < 16 \<and> bit v (16 + k)"
  by (auto simp: hi16_def bit_simps)

lemma u32_back [simp]: "u32_of (lo16 v) (hi16 v) = v"
  by (rule bit_word_eqI) (auto simp: u32_of_def bit_simps bit_lo16 bit_hi16)

definition write32 :: "nat \<Rightarrow> u32 \<Rightarrow> unit cap" where
  "write32 s v = do1 (write_reg s (lo16 v)) (write_reg (s + 1) (hi16 v))"

text \<open>Between operations.\<close>

definition idle :: "capture \<Rightarrow> bool" where
  "idle c \<longleftrightarrow> cp_pending c = [] \<and> \<not> cp_queueWrites c \<and> \<not> cp_armReady c"

section \<open>New\<close>

definition FabricID :: u16 where "FabricID = 0x5a52"
definition QualifiedMapID :: u16 where "QualifiedMapID = 0xe192"

definition fresh_capture :: capture where
  "fresh_capture = \<lparr>cp_trace = [], cp_armRead = replicate (length armSels) 0, cp_armReady = False, cp_queueWrites = False,
     cp_pending = [], cp_envelopeOn = False, cp_symbolTable = replicate 2048 0, cp_symbolTableOK = False,
     cp_ringStream = False, cp_streamWords = 0, cp_streamBacklog = False, cp_beats = 0\<rparr>"

definition NewCapture :: "unit cap" where
  "NewCapture = andThen (read_reg 0) (\<lambda>fid. if fid \<noteq> FabricID then fail (NotFabric fid) else
     andThen (read_reg 13) (\<lambda>rev. if rev < 4 then fail (OldRevision rev) else
     andThen (read_reg 14) (\<lambda>m. if m \<noteq> QualifiedMapID then fail (BadMap m)
       else update (\<lambda>c. c\<lparr>cp_envelopeOn := (rev = 10)\<rparr>))))"

section \<open>Commands\<close>

text \<open>
  A command toggles the acknowledge bit of the status. The wait reads the status until it toggles or the
  context ends, after at most \<open>n\<close> reads (the deadline, as a count).
\<close>

fun ack_loop :: "nat \<Rightarrow> u16 \<Rightarrow> u16 \<Rightarrow> unit cap" where
  "ack_loop 0 op ack = fail Cancelled"
| "ack_loop (Suc n) op ack = andThen (read_reg 1) (\<lambda>s.
     if s AND 512 \<noteq> ack then (if s AND 384 \<noteq> 0 then fail (CommandRejected op s) else ret ()) else ack_loop n op ack)"

definition commandIn :: "nat \<Rightarrow> u16 \<Rightarrow> unit cap" where
  "commandIn n op =
     (if n = 0 then fail Cancelled
      else andThen (read_reg 1) (\<lambda>s. do1 (write_reg 1 op) (ack_loop (n - 1) op (s AND 512))))"

fun wait_mask :: "nat \<Rightarrow> u16 \<Rightarrow> unit cap" where
  "wait_mask 0 msk = fail Cancelled"
| "wait_mask (Suc n) msk = andThen (read_reg 1) (\<lambda>s. if s AND msk = msk then ret () else wait_mask n msk)"

definition Force :: "nat \<Rightarrow> unit cap" where "Force n = commandIn n 4"

definition Halt :: "nat \<Rightarrow> nat \<Rightarrow> unit cap" where
  "Halt n k = do1 (commandIn n 5) (wait_mask k 4)"

section \<open>What reaches the bus\<close>

text \<open>The writes made and still queued, in program order; the order the bus sees them in.\<close>

definition bus_writes :: "bop list \<Rightarrow> (nat \<times> u16) list" where
  "bus_writes tr = concat (map (\<lambda>x. case x of BWrite s v \<Rightarrow> [(s, v)] | _ \<Rightarrow> []) tr)"

definition issued :: "capture \<Rightarrow> (nat \<times> u16) list" where
  "issued c = bus_writes (cp_trace c) @ cp_pending c"

lemma bus_writes_simps [simp]:
  "bus_writes [] = []" "bus_writes (xs @ ys) = bus_writes xs @ bus_writes ys"
  "bus_writes (BRead s # tr) = bus_writes tr" "bus_writes (BWrite s v # tr) = (s, v) # bus_writes tr"
  "bus_writes (BWriteErr s v # tr) = bus_writes tr"
  by (simp_all add: bus_writes_def)

lemmas cap_defs = ret_def fail_def andThen_def update_def getc_def

lemma andThen_assoc: "andThen (andThen m f) g = andThen m (\<lambda>x. andThen (f x) g)"
  by (auto simp: andThen_def fun_eq_iff split: prod.splits sum.splits)

lemma andThen_Inr:
  "andThen m f b c = (Inr y, c') \<longleftrightarrow> (\<exists>x c1. m b c = (Inr x, c1) \<and> f x b c1 = (Inr y, c'))"
  by (auto simp: andThen_def split: prod.splits sum.splits)

lemma ret_Inr [simp]: "ret x b c = (Inr y, c') \<longleftrightarrow> x = y \<and> c = c'"
  by (auto simp: ret_def)

lemma fail_Inr [simp]: "fail e b c \<noteq> (Inr y, c')"
  by (simp add: fail_def)

lemma update_Inr [simp]: "update f b c = (Inr y, c') \<longleftrightarrow> c' = f c"
  by (auto simp: update_def)

lemma getc_Inr [simp]: "getc f b c = (Inr y, c') \<longleftrightarrow> y = f c \<and> c' = c"
  by (auto simp: getc_def)

section \<open>The effect of an operation on the write order\<close>

text \<open>What an arm keeps: the registers it answers from, and that it queues.\<close>

definition kept :: "capture \<Rightarrow> capture \<Rightarrow> bool" where
  "kept c c' \<longleftrightarrow> cp_armRead c' = cp_armRead c \<and> cp_armReady c' = cp_armReady c \<and> cp_queueWrites c' = cp_queueWrites c"

definition same_table :: "capture \<Rightarrow> capture \<Rightarrow> bool" where
  "same_table c c' \<longleftrightarrow> cp_symbolTable c' = cp_symbolTable c \<and> cp_symbolTableOK c' = cp_symbolTableOK c"

text \<open>\<open>steps\<close>: the operation issues the writes \<open>rs\<close>, after those already issued.\<close>

definition steps :: "capture \<Rightarrow> (nat \<times> u16) list \<Rightarrow> capture \<Rightarrow> bool" where
  "steps c rs c' \<longleftrightarrow> issued c' = issued c @ rs \<and> kept c c'"

definition bus_says :: "fabric \<Rightarrow> nat \<Rightarrow> u16 \<Rightarrow> bool" where
  "bus_says b s v \<longleftrightarrow> (\<exists>tr. fb_read b tr s = Some v)"

lemma kept_refl [simp]: "kept c c" by (simp add: kept_def)
lemma same_table_refl [simp]: "same_table c c" by (simp add: same_table_def)
lemma steps_refl [simp]: "steps c [] c" by (simp add: steps_def)

lemma steps_trans: "steps c rs c1 \<Longrightarrow> steps c1 rs' c2 \<Longrightarrow> steps c (rs @ rs') c2"
  by (simp add: steps_def kept_def)

lemma same_table_trans: "same_table c c1 \<Longrightarrow> same_table c1 c2 \<Longrightarrow> same_table c c2"
  by (simp add: same_table_def)

lemma cached_kept: "kept c c' \<Longrightarrow> cached s c' = cached s c"
  by (simp add: kept_def cached_def)

lemma cached_steps: "steps c rs c' \<Longrightarrow> cached s c' = cached s c"
  by (simp add: steps_def cached_kept)

lemma queue_steps: "steps c rs c' \<Longrightarrow> cp_queueWrites c' = cp_queueWrites c"
  by (simp add: steps_def kept_def)

lemma sendMany_Inr:
  "sendMany rs b c = (Inr (), c') \<Longrightarrow>
   bus_writes (cp_trace c') = bus_writes (cp_trace c) @ rs \<and> kept c c' \<and> same_table c c' \<and> cp_pending c' = cp_pending c"
proof (induction rs arbitrary: c)
  case (Cons r rs)
  then show ?case
    by (cases r) (auto simp: andThen_Inr RawWrite_def kept_def same_table_def split: if_splits dest!: Cons.IH)
qed simp

lemma flushWrites_Inr:
  assumes "flushWrites b c = (Inr (), c')"
  shows "steps c [] c' \<and> same_table c c' \<and> cp_pending c' = []"
proof (cases "cp_pending c = []")
  case False
  then obtain c1 where s: "sendMany (cp_pending c) b c = (Inr (), c1)" and c': "c' = c1\<lparr>cp_pending := []\<rparr>"
    using assms by (auto simp: flushWrites_def split: prod.splits)
  show ?thesis using sendMany_Inr [OF s] c' by (simp add: steps_def issued_def kept_def same_table_def)
qed (use assms in \<open>simp add: flushWrites_def\<close>)

lemma read_reg_bus:
  assumes "read_reg s b c = (Inr v, c')" and "cached s c = None"
  shows "steps c [] c' \<and> same_table c c' \<and> bus_says b s v \<and> cp_pending c' = []"
proof -
  obtain c1 where f: "flushWrites b c = (Inr (), c1)" and r: "bus_read s b c1 = (Inr v, c')"
    using assms by (auto simp: read_reg_def andThen_Inr)
  have "fb_read b (cp_trace c1) s = Some v" "c' = c1\<lparr>cp_trace := cp_trace c1 @ [BRead s], cp_beats := Suc (cp_beats c1)\<rparr>"
    using r by (auto simp: bus_read_def split: option.splits)
  then show ?thesis
    using flushWrites_Inr [OF f] by (auto simp: steps_def issued_def kept_def same_table_def bus_says_def)
qed

lemma read_reg_cached: "cached s c = Some v \<Longrightarrow> read_reg s b c = (Inr v, c)"
  by (simp add: read_reg_def)

lemma write_reg_queued:
  "cp_queueWrites c \<Longrightarrow> write_reg s v b c = (Inr (), c\<lparr>cp_pending := cp_pending c @ [(s, v)]\<rparr>)"
  by (simp add: write_reg_def)

lemma writeMany_queued:
  "cp_queueWrites c \<Longrightarrow> writeMany rs b c = (Inr (), c\<lparr>cp_pending := cp_pending c @ rs\<rparr>)"
  by (simp add: writeMany_def)

lemma steps_pending [simp]: "steps c rs (c\<lparr>cp_pending := cp_pending c @ rs\<rparr>)"
  by (simp add: steps_def issued_def kept_def)

lemma same_table_pending [simp]: "same_table c (c\<lparr>cp_pending := ps\<rparr>)"
  by (simp add: same_table_def)

lemma write_reg_steps: "cp_queueWrites c \<Longrightarrow> write_reg s v b c = (Inr (), c') \<Longrightarrow> steps c [(s, v)] c' \<and> same_table c c'"
  by (auto simp: write_reg_queued)

lemma writeMany_steps: "cp_queueWrites c \<Longrightarrow> writeMany rs b c = (Inr (), c') \<Longrightarrow> steps c rs c' \<and> same_table c c'"
  by (auto simp: writeMany_queued)

section \<open>Operations that start nothing\<close>

text \<open>Register 1 takes the commands; \<open>starts\<close> is what was written to it.\<close>

definition starts :: "capture \<Rightarrow> (nat \<times> u16) list" where
  "starts c = filter (\<lambda>(s, _). s = 1) (bus_writes (cp_trace c))"

definition no_start :: "(nat \<times> u16) list \<Rightarrow> bool" where
  "no_start rs \<longleftrightarrow> list_all (\<lambda>(s, _). s \<noteq> 1) rs"

definition quiet :: "'a cap \<Rightarrow> bool" where
  "quiet m \<longleftrightarrow> (\<forall>b c. no_start (cp_pending c) \<longrightarrow>
     no_start (cp_pending (snd (m b c))) \<and> starts (snd (m b c)) = starts c)"

lemma no_start_simps [simp]:
  "no_start []" "no_start (r # rs) \<longleftrightarrow> fst r \<noteq> 1 \<and> no_start rs" "no_start (rs @ rs') \<longleftrightarrow> no_start rs \<and> no_start rs'"
  by (auto simp: no_start_def split: prod.splits)

lemma quietD: "quiet m \<Longrightarrow> no_start (cp_pending c) \<Longrightarrow> m b c = (r, c') \<Longrightarrow> no_start (cp_pending c') \<and> starts c' = starts c"
  unfolding quiet_def by (metis snd_conv)

lemma quiet_ret [intro!]: "quiet (ret x)" by (simp add: quiet_def ret_def)
lemma quiet_fail [intro!]: "quiet (fail e)" by (simp add: quiet_def fail_def)
lemma quiet_getc [intro!]: "quiet (getc f)" by (simp add: quiet_def getc_def)

lemma quiet_andThen [intro!]: "quiet m \<Longrightarrow> (\<And>x. quiet (f x)) \<Longrightarrow> quiet (andThen m f)"
  unfolding quiet_def andThen_def by (auto split: prod.splits sum.splits) (metis snd_conv)+

lemma quiet_sendMany: "no_start rs \<Longrightarrow> quiet (sendMany rs)"
proof (induction rs)
  case (Cons r rs)
  have "quiet (RawWrite (fst r) (snd r))" using Cons.prems by (auto simp: quiet_def RawWrite_def starts_def)
  then show ?case using Cons by (cases r) auto
qed auto

lemma quiet_flush [intro!]: "quiet flushWrites"
proof (unfold quiet_def, intro allI impI)
  fix b :: fabric and c :: capture assume p: "no_start (cp_pending c)"
  obtain r c1 where s: "sendMany (cp_pending c) b c = (r, c1)" by fastforce
  have "starts c1 = starts c" using quietD [OF quiet_sendMany [OF p] p s] by simp
  then show "no_start (cp_pending (snd (flushWrites b c))) \<and> starts (snd (flushWrites b c)) = starts c"
    using p s by (simp add: flushWrites_def starts_def)
qed

lemma quiet_read [intro!]: "quiet (read_reg s)"
proof -
  have "quiet (bus_read s)" by (auto simp: quiet_def bus_read_def starts_def split: option.splits)
  then have "quiet (do1 flushWrites (bus_read s))" by blast
  then show ?thesis by (auto simp: quiet_def read_reg_def split: option.splits)
qed

lemma quiet_read_all [intro!]: "quiet (read_all ss)"
  by (induction ss) auto

lemma quiet_readMany [intro!]: "quiet (readMany ss)"
  unfolding readMany_def by blast

lemma quiet_write [intro!]: "s \<noteq> 1 \<Longrightarrow> quiet (write_reg s v)"
  by (auto simp: quiet_def write_reg_def RawWrite_def starts_def)

lemma quiet_writeMany [intro!]:
  assumes "no_start rs"
  shows "quiet (writeMany rs)"
  using quiet_sendMany [OF assms] assms by (auto simp: quiet_def writeMany_def starts_def)

lemma quiet_if [intro!]: "(P \<Longrightarrow> quiet m) \<Longrightarrow> (\<not> P \<Longrightarrow> quiet m') \<Longrightarrow> quiet (if P then m else m')"
  by simp

end
