(* ===== verification/TriggerBlocks.thy ===== *)
theory TriggerBlocks
  imports SramBus
begin

text \<open>
  The acquisition fabric's trigger blocks: each protocol's configuration, what it refuses, and the
  register writes that set its block up or turn it off (\<open>app/internal/sramcapture\<close>: \<open>packet.go\<close>,
  \<open>spi.go\<close>, \<open>i2c.go\<close>, \<open>sent.go\<close>, \<open>usbls.go\<close>, \<open>mil1553.go\<close>, \<open>sequence.go\<close>, \<open>symbol.go\<close>, \<open>qualify.go\<close>, and the
  UART of \<open>capture.go\<close>).
\<close>

section \<open>Configurations\<close>

record packet_cfg =
  pk_Enabled :: bool
  pk_Protocol :: byte
  pk_Channel :: byte
  pk_Inverted :: bool
  pk_Ticks :: u32
  pk_Aux :: u32
  pk_Pattern :: u64
  pk_Length :: byte

record manchester_cfg =
  mc_Enabled :: bool
  mc_Channel :: byte
  mc_Inverted :: bool
  mc_IEEE :: bool
  mc_MSB :: bool
  mc_Bits :: byte
  mc_BitTicks :: u32
  mc_Pattern :: u64
  mc_Length :: byte

record spi_cfg =
  sp_Enabled :: bool
  sp_ClockChannel :: byte
  sp_Inverted :: bool
  sp_CPOL :: bool
  sp_CPHA :: bool
  sp_MSB :: bool
  sp_GapTicks :: u32
  sp_Pattern :: u32
  sp_Length :: byte
  sp_Delay :: byte

record i2c_cfg =
  ic_Enabled :: bool
  ic_ClockChannel :: byte
  ic_Inverted :: bool
  ic_Address :: int
  ic_Direction :: byte
  ic_Pattern :: u32
  ic_Length :: byte
  ic_Samples :: bool
  ic_Delay :: byte

record sent_cfg =
  se_Enabled :: bool
  se_Channel :: byte
  se_Inverted :: bool
  se_PausePulse :: bool
  se_TickTicks :: u32
  se_Nibbles :: byte
  se_Pattern :: u32
  se_Length :: byte

record usbls_cfg =
  ub_Enabled :: bool
  ub_Channel :: byte
  ub_Inverted :: bool
  ub_BitTicksQ8 :: u32
  ub_Pattern :: u32
  ub_Length :: byte

record mil_cfg =
  ml_Enabled :: bool
  ml_Channel :: byte
  ml_Inverted :: bool
  ml_BitTicks :: u32
  ml_Pattern :: u16
  ml_MatchAny :: bool

record uart_cfg =
  ua_Enabled :: bool
  ua_Channel :: byte
  ua_Inverted :: bool
  ua_BitTicks :: u32
  ua_Pattern :: u32
  ua_Length :: byte
  ua_Period16 :: u32
  ua_Bits :: byte
  ua_Parity :: byte
  ua_Resync :: bool

record seq_elem =
  sq_Kind :: byte
  sq_Value :: u32
  sq_Mask :: u32

text \<open>The array of 32 elements is a list of 32.\<close>

record seq_cfg =
  sq_Length :: byte
  sq_Qualify :: bool
  sq_EndBadValue :: bool
  sq_Elements :: "seq_elem list"

record symbol_cfg =
  sy_Enabled :: bool
  sy_Channel :: byte
  sy_InvA :: bool
  sy_InvB :: bool
  sy_AndAB :: bool
  sy_ClockFall :: bool
  sy_TwoLines :: bool
  sy_Mode :: byte
  sy_LeadLen :: byte
  sy_Prescale :: byte
  sy_UnitQ8 :: u32
  sy_FrameUnits :: byte
  sy_Period :: byte
  sy_Phase0 :: byte
  sy_K :: u16
  sy_Pattern :: u64
  sy_Mask :: u64
  sy_Table :: "byte list"

record qual_cfg =
  qu_Enabled :: bool
  qu_Kind :: byte
  qu_Channel :: byte
  qu_Negative :: bool
  qu_Cond :: byte
  qu_MinTicks :: u32
  qu_MaxTicks :: u32
  qu_Prescale :: u32
  qu_LevelA :: byte
  qu_LevelB :: byte
  qu_Line :: u16

record zone_window =
  zw_Enabled :: bool
  zw_Channel :: byte
  zw_Lo :: byte
  zw_Hi :: byte
  zw_Start :: int
  zw_End :: int
  zw_Avoid :: bool

text \<open>The array of four windows is a list of four.\<close>

record zone_cfg =
  zn_Zones :: "zone_window list"
  zn_Wait :: u16
  zn_Bucket :: u16

section \<open>What a block refuses\<close>

definition PacketCAN :: byte where "PacketCAN = 6"
definition PacketARINC :: byte where "PacketARINC = 8"
definition PacketFlexRay :: byte where "PacketFlexRay = 10"

text \<open>Each \<open>validate\<close> is whether the configuration is accepted.\<close>

definition packet_valid :: "packet_cfg \<Rightarrow> bool" where
  "packet_valid p \<longleftrightarrow> \<not> pk_Enabled p \<or>
     \<not> (let bad = pk_Channel p > 1 \<or> pk_Ticks p > 0xffffff in
        if pk_Protocol p = PacketCAN then
          bad \<or> pk_Ticks p < 2048 \<or> pk_Aux p < 2048 \<or> pk_Aux p > 0xffffff \<or> pk_Length p > 8
        else if pk_Protocol p = PacketFlexRay then bad \<or> pk_Ticks p < 1024 \<or> pk_Aux p \<noteq> 0 \<or> pk_Length p > 8
        else if pk_Protocol p = PacketARINC then
          (let lo = (ucast (pk_Aux p AND 0xff) :: byte); hi = (ucast (drop_bit 8 (pk_Aux p) AND 0xff) :: byte);
               exitLo = (ucast (drop_bit 16 (pk_Aux p) AND 0xff) :: byte); exitHi = (ucast (drop_bit 24 (pk_Aux p)) :: byte)
           in bad \<or> pk_Ticks p < 4 \<or> pk_Inverted p \<or> pk_Length p \<noteq> 0 \<or> (lo \<ge> exitLo \<or> exitLo > exitHi \<or> exitHi \<ge> hi))
        else True)"

definition manchester_valid :: "manchester_cfg \<Rightarrow> bool" where
  "manchester_valid p \<longleftrightarrow> \<not> (mc_Enabled p \<and> (mc_Channel p > 1 \<or> mc_Bits p < 1 \<or> mc_Bits p > 16 \<or> mc_BitTicks p < 8
     \<or> mc_BitTicks p > 0x3fffff \<or> mc_Length p > 4))"

definition sent_valid :: "sent_cfg \<Rightarrow> bool" where
  "sent_valid p \<longleftrightarrow> \<not> se_Enabled p \<or>
     \<not> (se_Channel p > 1 \<or> se_TickTicks p < 4 \<or> se_TickTicks p > 0xffffff \<or> se_Nibbles p < 1 \<or> se_Nibbles p > 64 \<or> se_Length p > 4)
     \<and> list_all (\<lambda>i. \<not> drop_bit (8 * i) (se_Pattern p) AND 255 > 15) [0..<unat (se_Length p)]"

definition usbls_valid :: "usbls_cfg \<Rightarrow> bool" where
  "usbls_valid p \<longleftrightarrow> \<not> (ub_Enabled p \<and> (ub_Channel p > 1 \<or> ub_BitTicksQ8 p < 2048 \<or> ub_BitTicksQ8 p > 0xffffff \<or> ub_Length p > 4))"

definition mil_valid :: "mil_cfg \<Rightarrow> bool" where
  "mil_valid p \<longleftrightarrow> \<not> (ml_Enabled p \<and> (ml_Channel p > 1 \<or> ml_BitTicks p < 8 \<or> ml_BitTicks p > 0x3fffff))"

definition sampleUART :: "uart_cfg \<Rightarrow> bool" where
  "sampleUART u \<longleftrightarrow> ua_Period16 u \<noteq> 0"

definition uart_bits :: "uart_cfg \<Rightarrow> byte" where
  "uart_bits u = (if ua_Bits u = 0 then 8 else ua_Bits u)"

definition uart_valid :: "uart_cfg \<Rightarrow> bool" where
  "uart_valid u \<longleftrightarrow> \<not> (ua_Channel u > 1 \<or> ua_Length u > 4) \<and>
     (if sampleUART u
      then ua_Period16 u \<ge> 256 \<and> ua_Period16 u \<le> 0xffffff \<and> uart_bits u \<ge> 5 \<and> uart_bits u \<le> 9 \<and> ua_Parity u \<le> 2
      else ua_BitTicks u \<ge> 4 \<and> ua_BitTicks u \<le> 0xffffff \<and> (ua_Bits u = 0 \<or> ua_Bits u = 8) \<and> ua_Parity u = 0)"

definition SequenceError :: byte where "SequenceError = 4"
definition SequenceMax :: byte where "SequenceMax = 32"

definition seq_valid :: "seq_cfg \<Rightarrow> bool" where
  "seq_valid p \<longleftrightarrow> \<not> sq_Length p > SequenceMax
     \<and> list_all (\<lambda>e. \<not> sq_Kind e > SequenceError) (take (unat (sq_Length p)) (sq_Elements p))"

definition SymbolClocked :: byte where "SymbolClocked = 3"

definition symbol_valid :: "symbol_cfg \<Rightarrow> bool" where
  "symbol_valid p \<longleftrightarrow> \<not> sy_Enabled p \<or>
     \<not> (sy_Channel p > 1 \<or> sy_Mode p > SymbolClocked \<or> sy_LeadLen p > 4 \<or> sy_Prescale p > 7 \<or> sy_UnitQ8 p < 2048
        \<or> sy_UnitQ8 p \<ge> 2 ^ 28 \<or> sy_FrameUnits p > 63 \<or> sy_Period p > 63 \<or> sy_Phase0 p > 63
        \<or> (sy_Period p \<noteq> 0 \<and> sy_Phase0 p \<ge> sy_Period p) \<or> sy_K p > 1023)"

definition QualVideo :: byte where "QualVideo = 2"
definition QualBetween :: byte where "QualBetween = 3"
definition QualMaxTicks :: u32 where "QualMaxTicks = 65535"
definition QualMaxPrescale :: u32 where "QualMaxPrescale = 65536"

definition qual_valid :: "qual_cfg \<Rightarrow> bool" where
  "qual_valid p \<longleftrightarrow> \<not> qu_Enabled p \<or>
     \<not> (qu_Kind p > QualVideo \<or> qu_Channel p > 1 \<or> qu_Cond p > QualBetween \<or> qu_MinTicks p > QualMaxTicks
        \<or> qu_MaxTicks p > QualMaxTicks \<or> qu_Prescale p < 1 \<or> qu_Prescale p > QualMaxPrescale
        \<or> qu_Prescale p AND (qu_Prescale p - 1) \<noteq> 0 \<or> qu_Line p > 1023)"

definition zones_Enabled :: "zone_cfg \<Rightarrow> bool" where
  "zones_Enabled z \<longleftrightarrow> list_ex zw_Enabled (zn_Zones z)"

definition zones_valid :: "zone_cfg \<Rightarrow> bool" where
  "zones_valid z \<longleftrightarrow> \<not> zones_Enabled z \<or>
     \<not> (zn_Wait z < 1 \<or> zn_Wait z > 1023 \<or> zn_Bucket z < 1 \<or> zn_Bucket z > 4096 \<or> zn_Bucket z AND (zn_Bucket z - 1) \<noteq> 0)
     \<and> list_all (\<lambda>w. \<not> (zw_Enabled w \<and> (zw_Channel w > 1 \<or> zw_Start w > zw_End w \<or> zw_Start w < -1000 \<or> zw_End w > 1000
          \<or> uint (zn_Wait z) - zw_Start w + 1 > 1023 \<or> zw_End w + 1 > uint (zn_Wait z)))) (zn_Zones z)"

section \<open>The registers of a block\<close>

definition flag :: "bool \<Rightarrow> u16 \<Rightarrow> u16" where
  "flag x v = (if x then v else 0)"

definition q16 :: "u64 \<Rightarrow> nat \<Rightarrow> u16" where
  "q16 v k = ucast (drop_bit (16 * k) v AND 0xffff)"

definition packet_control :: "packet_cfg \<Rightarrow> u16" where
  "packet_control p = 1 OR push_bit 1 (ucast (pk_Channel p)) OR push_bit 3 (ucast (pk_Length p)) OR push_bit 8 (ucast (pk_Protocol p))
     OR flag (pk_Inverted p) 4"

definition packet_regs :: "packet_cfg \<Rightarrow> (nat \<times> u16) list" where
  "packet_regs p = [(110, lo16 (pk_Ticks p)), (111, hi16 (pk_Ticks p)), (112, lo16 (pk_Aux p)), (113, hi16 (pk_Aux p)),
     (114, q16 (pk_Pattern p) 0), (115, q16 (pk_Pattern p) 1), (116, q16 (pk_Pattern p) 2), (117, q16 (pk_Pattern p) 3),
     (109, packet_control p)]"

definition manchester_control :: "manchester_cfg \<Rightarrow> u16" where
  "manchester_control p = 1 OR push_bit 1 (ucast (mc_Channel p)) OR push_bit 5 (ucast (mc_Bits p)) OR push_bit 10 (ucast (mc_Length p))
     OR flag (mc_Inverted p) 4 OR flag (mc_IEEE p) 8 OR flag (mc_MSB p) 16"

definition manchester_regs :: "manchester_cfg \<Rightarrow> (nat \<times> u16) list" where
  "manchester_regs p = [(103, lo16 (mc_BitTicks p)), (104, hi16 (mc_BitTicks p)),
     (105, q16 (mc_Pattern p) 0), (106, q16 (mc_Pattern p) 1), (107, q16 (mc_Pattern p) 2), (108, q16 (mc_Pattern p) 3),
     (102, manchester_control p)]"

definition spiLevels :: u16 where "spiLevels = 0x5301"
definition spiSamples :: u16 where "spiSamples = 0x5303"
definition regSampleDelay :: nat where "regSampleDelay = 58"
definition regSecondLevel :: nat where "regSecondLevel = 59"

definition spi_control :: "spi_cfg \<Rightarrow> u16" where
  "spi_control p = 1 OR push_bit 1 (ucast (sp_ClockChannel p)) OR push_bit 6 (ucast (sp_Length p))
     OR flag (sp_Inverted p) 4 OR flag (sp_CPOL p) 8 OR flag (sp_CPHA p) 16 OR flag (sp_MSB p) 32"

definition spi_regs :: "u16 \<Rightarrow> spi_cfg \<Rightarrow> (nat \<times> u16) list" where
  "spi_regs capability p =
     [(65, lo16 (sp_GapTicks p)), (66, hi16 (sp_GapTicks p)), (67, lo16 (sp_Pattern p)), (68, hi16 (sp_Pattern p))]
     @ (if capability = spiSamples then [(regSampleDelay, ucast (sp_Delay p))] else []) @ [(64, spi_control p)]"

definition i2cLevels :: u16 where "i2cLevels = 0x4901"
definition i2cSamples :: u16 where "i2cSamples = 0x4902"

definition i2c_control :: "i2c_cfg \<Rightarrow> u16" where
  "i2c_control p = 1 OR push_bit 1 (ucast (ic_ClockChannel p)) OR push_bit 3 (ucast (ic_Direction p)) OR push_bit 6 (ucast (ic_Length p))
     OR flag (ic_Inverted p) 4 OR flag (ic_Address p < 0) 32"

definition i2c_regs :: "u16 \<Rightarrow> i2c_cfg \<Rightarrow> (nat \<times> u16) list" where
  "i2c_regs capability p =
     [(54, word_of_int (ic_Address p AND 127)), (55, lo16 (ic_Pattern p)), (56, hi16 (ic_Pattern p))]
     @ (if capability = i2cSamples then [(regSampleDelay, ucast (ic_Delay p))] else []) @ [(53, i2c_control p)]"

definition sent_control :: "sent_cfg \<Rightarrow> u16" where
  "sent_control p = 1 OR push_bit 1 (ucast (se_Channel p)) OR push_bit 4 (ucast (se_Length p))
     OR flag (se_Inverted p) 4 OR flag (se_PausePulse p) 8"

definition sent_regs :: "sent_cfg \<Rightarrow> (nat \<times> u16) list" where
  "sent_regs p = [(78, lo16 (se_TickTicks p)), (79, hi16 (se_TickTicks p)), (80, lo16 (se_Pattern p)), (81, hi16 (se_Pattern p)),
     (82, ucast (se_Nibbles p)), (77, sent_control p)]"

definition usbls_control :: "usbls_cfg \<Rightarrow> u16" where
  "usbls_control p = 1 OR push_bit 1 (ucast (ub_Channel p)) OR push_bit 3 (ucast (ub_Length p)) OR flag (ub_Inverted p) 4"

definition usbls_regs :: "usbls_cfg \<Rightarrow> (nat \<times> u16) list" where
  "usbls_regs p = [(98, lo16 (ub_BitTicksQ8 p)), (99, hi16 (ub_BitTicksQ8 p)), (100, lo16 (ub_Pattern p)), (101, hi16 (ub_Pattern p)),
     (97, usbls_control p)]"

definition mil_control :: "mil_cfg \<Rightarrow> u16" where
  "mil_control p = 1 OR push_bit 1 (ucast (ml_Channel p)) OR flag (ml_Inverted p) 4 OR flag (ml_MatchAny p) 8"

definition mil_regs :: "mil_cfg \<Rightarrow> (nat \<times> u16) list" where
  "mil_regs p = [(94, lo16 (ml_BitTicks p)), (95, hi16 (ml_BitTicks p)), (96, ml_Pattern p), (93, mil_control p)]"

definition uartLevels :: u16 where "uartLevels = 0x5502"
definition uartSamples :: u16 where "uartSamples = 0x5503"

definition uart_control :: "uart_cfg \<Rightarrow> u16" where
  "uart_control u = 1 OR push_bit 1 (ucast (ua_Channel u)) OR push_bit 3 (ucast (ua_Length u)) OR flag (ua_Inverted u) 4
     OR (if sampleUART u then push_bit 6 (ucast (uart_bits u)) OR push_bit 10 (ucast (ua_Parity u)) OR flag (ua_Resync u) 4096 else 0)"

definition uart_ticks :: "uart_cfg \<Rightarrow> u32" where
  "uart_ticks u = (if sampleUART u then ua_Period16 u else ua_BitTicks u)"

definition uart_regs :: "uart_cfg \<Rightarrow> (nat \<times> u16) list" where
  "uart_regs u = [(49, lo16 (uart_ticks u)), (50, hi16 (uart_ticks u)), (51, lo16 (ua_Pattern u)), (52, hi16 (ua_Pattern u))]"

fun seq_elem_regs :: "nat \<Rightarrow> seq_elem list \<Rightarrow> (nat \<times> u16) list" where
  "seq_elem_regs k [] = []"
| "seq_elem_regs k (e # es) =
     [(119, word_of_nat k), (120, lo16 (sq_Value e)), (121, hi16 (sq_Value e)), (122, lo16 (sq_Mask e)), (123, hi16 (sq_Mask e)),
      (124, ucast (sq_Kind e))] @ seq_elem_regs (Suc k) es"

definition seq_control :: "seq_cfg \<Rightarrow> u16" where
  "seq_control p = ucast (sq_Length p) OR flag (sq_Qualify p) 64 OR flag (sq_EndBadValue p) 128"

definition symbol_control :: "symbol_cfg \<Rightarrow> u16" where
  "symbol_control p = 1 OR push_bit 1 (ucast (sy_Channel p)) OR push_bit 6 (ucast (sy_Mode p)) OR push_bit 8 (ucast (sy_LeadLen p))
     OR push_bit 11 (ucast (sy_Prescale p))
     OR flag (sy_InvA p) 4 OR flag (sy_InvB p) 8 OR flag (sy_AndAB p) 16 OR flag (sy_ClockFall p) 32"

definition SymbolRegisters :: "symbol_cfg \<Rightarrow> (nat \<times> u16) list" where
  "SymbolRegisters p =
     [(94, lo16 (sy_UnitQ8 p)), (95, hi16 (sy_UnitQ8 p)),
      (96, push_bit 8 (ucast (sy_Period p)) OR ucast (sy_FrameUnits p)),
      (97, push_bit 10 (ucast (sy_Phase0 p)) OR sy_K p),
      (101, q16 (sy_Pattern p) 0), (102, q16 (sy_Pattern p) 1), (103, q16 (sy_Pattern p) 2), (104, q16 (sy_Pattern p) 3),
      (105, q16 (sy_Mask p) 0), (106, q16 (sy_Mask p) 1), (107, q16 (sy_Mask p) 2), (108, q16 (sy_Mask p) 3),
      (93, symbol_control p)]"

definition qual_control :: "qual_cfg \<Rightarrow> u16" where
  "qual_control p = 1 OR push_bit 1 (ucast (qu_Kind p)) OR push_bit 4 (ucast (qu_Cond p)) OR push_bit 6 (ucast (qu_Channel p))
     OR flag (qu_Negative p) 8 OR flag (qu_MinTicks p = 0) 0x80"

definition qual_regs :: "qual_cfg \<Rightarrow> (nat \<times> u16) list" where
  "qual_regs p =
     [(22, ucast (if qu_MinTicks p = 0 then 0 else qu_MinTicks p - 1)), (24, lo16 (qu_MaxTicks p)),
      (26, push_bit 8 (ucast (qu_LevelB p)) OR ucast (qu_LevelA p)), (27, qu_Line p), (28, lo16 (qu_Prescale p - 1)),
      (21, qual_control p)]"

text \<open>The zones' loop: the windows' registers and the control word's bits, from window \<open>i\<close>.\<close>

definition zone_starts :: "nat list" where "zone_starts = [90, 91, 92, 69]"
definition zone_ends :: "nat list" where "zone_ends = [70, 71, 72, 73]"

fun zone_loop :: "nat \<Rightarrow> zone_window list \<Rightarrow> u16 \<Rightarrow> (nat \<times> u16) list \<Rightarrow> u16 \<times> (nat \<times> u16) list" where
  "zone_loop i [] control regs = (control, regs)"
| "zone_loop i (w # ws) control regs =
     (if \<not> zw_Enabled w then zone_loop (Suc i) ws control regs
      else zone_loop (Suc i) ws
        (control OR push_bit i 1 OR push_bit (4 + i) (ucast (zw_Channel w)) OR flag (zw_Avoid w) (push_bit (8 + i) 1))
        (regs @ [(86 + i, push_bit 8 (ucast (zw_Hi w)) OR ucast (zw_Lo w)),
                 (zone_starts ! i, word_of_int (zw_Start w) AND 0x7ff), (zone_ends ! i, word_of_int (zw_End w) AND 0x7ff)]))"

section \<open>Setting a block up\<close>

text \<open>From revision 10 on a block is announced by its capability register.\<close>

definition capability_of :: "u16 \<Rightarrow> nat \<Rightarrow> u16 cap" where
  "capability_of revision reg = (if revision \<ge> 10 then read_reg reg else ret 0)"

text \<open>A block that is not in the fabric refuses to be enabled, and is otherwise left alone.\<close>

definition missing :: "bool \<Rightarrow> string \<Rightarrow> unit cap" where
  "missing enabled what = (if enabled then fail (MissingBlock what) else ret ())"

definition packetProtocols :: "u16 cap" where
  "packetProtocols = andThen (read_reg 13) (\<lambda>revision. if revision \<noteq> 10 then ret 0 else
     andThen (read_reg 109) (\<lambda>capability. if capability \<noteq> 0x5001 then ret 0 else read_reg 110))"

definition configurePacket :: "packet_cfg \<Rightarrow> unit cap" where
  "configurePacket p = andThen packetProtocols (\<lambda>msk.
     if msk = 0 then missing (pk_Enabled p) ''packet trigger''
     else if pk_Enabled p then
       (if msk AND push_bit (unat (pk_Protocol p)) 1 = 0 then fail (MissingBlock ''protocol'')
        else writeMany (packet_regs p))
     else write_reg 109 0)"

definition manchesterCapability :: "bool cap" where
  "manchesterCapability = andThen (read_reg 13) (\<lambda>revision. if revision < 10 then ret False else
     andThen (read_reg 102) (\<lambda>v. ret (v = 0x4d01)))"

definition configureManchester :: "manchester_cfg \<Rightarrow> unit cap" where
  "configureManchester p = andThen manchesterCapability (\<lambda>present.
     if \<not> present then missing (mc_Enabled p) ''Manchester trigger''
     else if mc_Enabled p then writeMany (manchester_regs p) else write_reg 102 0)"

definition configureSPI :: "u16 \<Rightarrow> spi_cfg \<Rightarrow> unit cap" where
  "configureSPI revision p = andThen (capability_of revision 64) (\<lambda>capability.
     if capability \<noteq> spiLevels \<and> capability \<noteq> spiSamples then missing (sp_Enabled p) ''SPI trigger''
     else if \<not> sp_Enabled p then write_reg 64 0 else writeMany (spi_regs capability p))"

definition configureI2C :: "u16 \<Rightarrow> i2c_cfg \<Rightarrow> unit cap" where
  "configureI2C revision p = andThen (capability_of revision 53) (\<lambda>capability.
     if (capability \<noteq> i2cLevels \<and> capability \<noteq> i2cSamples) \<or> (ic_Enabled p \<and> ic_Samples p \<and> capability \<noteq> i2cSamples)
     then missing (ic_Enabled p) ''I2C trigger''
     else if ic_Enabled p then writeMany (i2c_regs capability p) else write_reg 53 0)"

definition configureSENT :: "u16 \<Rightarrow> sent_cfg \<Rightarrow> unit cap" where
  "configureSENT revision p = andThen (capability_of revision 77) (\<lambda>capability.
     if capability \<noteq> 0x5e01 then missing (se_Enabled p) ''SENT trigger''
     else if se_Enabled p then writeMany (sent_regs p) else write_reg 77 0)"

definition configureUSBLS :: "u16 \<Rightarrow> usbls_cfg \<Rightarrow> unit cap" where
  "configureUSBLS revision p = andThen (capability_of revision 97) (\<lambda>capability.
     if capability \<noteq> 0x5501 then missing (ub_Enabled p) ''USB trigger''
     else if ub_Enabled p then writeMany (usbls_regs p) else write_reg 97 0)"

definition configureMIL1553 :: "u16 \<Rightarrow> mil_cfg \<Rightarrow> unit cap" where
  "configureMIL1553 revision p = andThen (capability_of revision 93) (\<lambda>capability.
     if capability \<noteq> 0x4d01 then missing (ml_Enabled p) ''MIL-STD-1553 trigger''
     else if ml_Enabled p then writeMany (mil_regs p) else write_reg 93 0)"

definition sequenceCapability :: "bool cap" where
  "sequenceCapability = andThen (read_reg 13) (\<lambda>revision. if revision \<noteq> 10 then ret False else
     andThen (read_reg 73) (\<lambda>identity. if identity \<noteq> 0x5201 then ret False else
       andThen (read_reg 118) (\<lambda>v. ret (v = 0x5351))))"

definition configureSequence :: "seq_cfg \<Rightarrow> unit cap" where
  "configureSequence p = andThen sequenceCapability (\<lambda>present.
     if \<not> present then missing (sq_Length p \<noteq> 0) ''sequence trigger''
     else do1 (write_reg 118 0) (if sq_Length p = 0 then ret () else
       do1 (writeMany (seq_elem_regs 0 (take (unat (sq_Length p)) (sq_Elements p)))) (write_reg 118 (seq_control p))))"

definition symbolBlock :: u16 where "symbolBlock = 0x5359"

definition table_regs :: "byte list \<Rightarrow> (nat \<times> u16) list" where
  "table_regs tab = [(98, 0), (99, 0)] @ map (\<lambda>v. (100, ucast v)) tab @ [(98, 1)]"

text \<open>The table is loaded only when the fabric holds none or another.\<close>

definition configureSymbol :: "u16 \<Rightarrow> symbol_cfg \<Rightarrow> unit cap" where
  "configureSymbol revision p = andThen (capability_of revision 76) (\<lambda>capability.
     if capability \<noteq> symbolBlock then missing (sy_Enabled p) ''symbol trigger''
     else if \<not> sy_Enabled p then write_reg 93 0
     else do1 (write_reg 93 0) (andThen (read_reg 98) (\<lambda>loaded. andThen (getc (\<lambda>c. (cp_symbolTableOK c, cp_symbolTable c))) (\<lambda>(ok, tab).
       if loaded AND 1 = 0 \<or> \<not> ok \<or> tab \<noteq> sy_Table p
       then do1 (update (\<lambda>c. c\<lparr>cp_symbolTableOK := False\<rparr>))
         (do1 (writeMany (table_regs (sy_Table p)))
         (do1 (update (\<lambda>c. c\<lparr>cp_symbolTable := sy_Table p, cp_symbolTableOK := True\<rparr>)) (writeMany (SymbolRegisters p))))
       else writeMany (SymbolRegisters p)))))"

definition configureQualifier :: "u16 \<Rightarrow> qual_cfg \<Rightarrow> unit cap" where
  "configureQualifier revision p = andThen (capability_of revision qualCapability) (\<lambda>capability.
     if capability \<noteq> 0x5154 then missing (qu_Enabled p) ''trigger qualifiers''
     else if qu_Enabled p then writeMany (qual_regs p) else write_reg 21 0)"

definition zone_kinds :: "u16 \<Rightarrow> u16 cap" where
  "zone_kinds revision =
     (if revision \<ge> 10 then andThen (read_reg qualCapability) (\<lambda>v. if v = 0x5154 then read_reg (qualCapability + 1) else ret 0)
      else ret 0)"

definition zone_regs :: "zone_cfg \<Rightarrow> (nat \<times> u16) list" where
  "zone_regs z = (let (control, regs) = zone_loop 0 (zn_Zones z) 0 [(84, zn_Wait z), (85, zn_Bucket z - 1)] in regs @ [(83, control)])"

definition configureZones :: "u16 \<Rightarrow> zone_cfg \<Rightarrow> unit cap" where
  "configureZones revision z = andThen (zone_kinds revision) (\<lambda>kinds.
     if kinds AND 8 = 0 then missing (zones_Enabled z) ''zone trigger''
     else if zones_Enabled z then writeMany (zone_regs z) else write_reg 83 0)"

fun write_list :: "(nat \<times> u16) list \<Rightarrow> unit cap" where
  "write_list [] = ret ()"
| "write_list ((s, v) # rs) = do1 (write_reg s v) (write_list rs)"

text \<open>The UART block, in the arm itself.\<close>

definition configureUART :: "u16 \<Rightarrow> uart_cfg \<Rightarrow> unit cap" where
  "configureUART revision u =
     (if revision \<ge> 10 then andThen (read_reg 48) (\<lambda>capability.
        if capability = uartLevels \<or> capability = uartSamples then
          (if ua_Enabled u \<and> sampleUART u \<noteq> (capability = uartSamples) then fail OtherUART
           else if ua_Enabled u then do1 (write_list (uart_regs u)) (write_reg 48 (uart_control u))
           else write_reg 48 0)
        else missing (ua_Enabled u) ''UART trigger'')
      else missing (ua_Enabled u) ''UART trigger'')"

end
