(* ===== verification/ArmConfig.thy ===== *)
theory ArmConfig
  imports TriggerBlocks
begin

text \<open>
  The configuration of an acquisition and what it may ask for (\<open>Config\<close> and \<open>Config.Check\<close> of
  \<open>app/internal/sramcapture/capture.go\<close>).
\<close>

section \<open>The configuration\<close>

definition Words :: u32 where "Words = 2 ^ 19"

datatype Source = ADC | Counter

text \<open>A source is a byte in the code, of which only these two pass \<open>Check\<close>; so is every other value here that
  is a \<^typ>\<open>byte\<close>.\<close>

record arm_cfg =
  ar_Qualifier :: qual_cfg
  ar_Zones :: zone_cfg
  ar_Symbol :: symbol_cfg
  ar_Sequence :: seq_cfg
  ar_Packet :: packet_cfg
  ar_Manchester :: manchester_cfg
  ar_USBLS :: usbls_cfg
  ar_MIL1553 :: mil_cfg
  ar_SENT :: sent_cfg
  ar_DecodedEvents :: bool
  ar_SPI :: spi_cfg
  ar_I2C :: i2c_cfg
  ar_UART :: uart_cfg
  ar_Source :: Source
  ar_DecimationLog2 :: byte
  ar_Pick :: bool
  ar_Pair :: byte
  ar_PreWords :: u32
  ar_PostWords :: u32
  ar_Normal :: bool
  ar_Falling :: bool
  ar_TriggerChannel :: byte
  ar_TriggerLevel :: byte
  ar_TriggerHysteresis :: byte
  ar_SecondLevel :: byte
  ar_SliceLines :: bool

definition hasDecoder :: "arm_cfg \<Rightarrow> bool" where
  "hasDecoder cfg \<longleftrightarrow> pk_Enabled (ar_Packet cfg) \<or> mc_Enabled (ar_Manchester cfg) \<or> ub_Enabled (ar_USBLS cfg)
     \<or> ml_Enabled (ar_MIL1553 cfg) \<or> se_Enabled (ar_SENT cfg) \<or> sp_Enabled (ar_SPI cfg) \<or> ic_Enabled (ar_I2C cfg)
     \<or> ua_Enabled (ar_UART cfg)"

definition checks :: "(bool \<times> string) list \<Rightarrow> cap_error option" where
  "checks cs = map_option (\<lambda>(_, why). InvalidConfig why) (List.find fst cs)"

text \<open>\<open>Check\<close>: the first rule that is broken.\<close>

definition Check :: "arm_cfg \<Rightarrow> cap_error option" where
  "Check cfg =
     (let pk = pk_Enabled (ar_Packet cfg); mc = mc_Enabled (ar_Manchester cfg); ub = ub_Enabled (ar_USBLS cfg);
          ml = ml_Enabled (ar_MIL1553 cfg); se = se_Enabled (ar_SENT cfg); sp = sp_Enabled (ar_SPI cfg);
          ic = ic_Enabled (ar_I2C cfg); ua = ua_Enabled (ar_UART cfg); qu = qu_Enabled (ar_Qualifier cfg);
          sy = sy_Enabled (ar_Symbol cfg); zn = zones_Enabled (ar_Zones cfg); sq = sq_Length (ar_Sequence cfg) \<noteq> 0;
          notadc = (ar_Source cfg \<noteq> ADC \<or> \<not> ar_Normal cfg); general = (ub \<or> ml \<or> se \<or> sp \<or> ic \<or> ua)
      in checks [
        (\<not> packet_valid (ar_Packet cfg), ''packet''),
        (\<not> seq_valid (ar_Sequence cfg), ''sequence''),
        (sq \<and> \<not> hasDecoder cfg, ''sequence needs a decoder''),
        (\<not> manchester_valid (ar_Manchester cfg), ''Manchester''),
        (\<not> qual_valid (ar_Qualifier cfg), ''qualifier''),
        (\<not> zones_valid (ar_Zones cfg), ''zones''),
        (\<not> symbol_valid (ar_Symbol cfg), ''symbol''),
        (sy \<and> (qu \<or> zn \<or> sq \<or> pk \<or> mc \<or> ub \<or> ml \<or> se \<or> sp \<or> ic \<or> ua \<or> notadc), ''symbol exclusive''),
        (zn \<and> notadc, ''zones ADC''),
        (qu \<and> (pk \<or> mc \<or> ub \<or> ml \<or> se \<or> sp \<or> ic \<or> ua \<or> notadc), ''qualifier exclusive''),
        ((pk \<or> mc) \<and> ((pk \<and> mc) \<or> general \<or> notadc), ''packet exclusive''),
        (\<not> usbls_valid (ar_USBLS cfg), ''USB''),
        (ub \<and> (ua \<or> ic \<or> sp \<or> se \<or> ml \<or> notadc), ''USB exclusive''),
        (\<not> mil_valid (ar_MIL1553 cfg), ''MIL-STD-1553''),
        (ml \<and> (ua \<or> ic \<or> sp \<or> se \<or> notadc), ''MIL-STD-1553 exclusive''),
        (\<not> sent_valid (ar_SENT cfg), ''SENT''),
        (se \<and> (ua \<or> ic \<or> sp \<or> notadc), ''SENT exclusive''),
        (ar_DecodedEvents cfg \<and> \<not> hasDecoder cfg, ''decoded streaming''),
        (sp \<and> (ua \<or> ic \<or> notadc \<or> sp_ClockChannel (ar_SPI cfg) > 1 \<or> sp_Length (ar_SPI cfg) > 4
           \<or> sp_GapTicks (ar_SPI cfg) < 3 \<or> sp_GapTicks (ar_SPI cfg) > 0xffffff), ''SPI''),
        (ic \<and> (ua \<or> notadc \<or> ic_ClockChannel (ar_I2C cfg) > 1 \<or> ic_Address (ar_I2C cfg) < -1 \<or> ic_Address (ar_I2C cfg) > 127
           \<or> ic_Direction (ar_I2C cfg) > 2 \<or> ic_Length (ar_I2C cfg) > 4), ''I2C''),
        (ua \<and> (notadc \<or> \<not> uart_valid (ar_UART cfg)), ''UART''),
        ((ar_DecimationLog2 cfg \<noteq> 0 \<and> (ar_DecimationLog2 cfg < 4 \<or> ar_DecimationLog2 cfg > 20)) \<or> ar_Pair cfg > 4
           \<or> ar_TriggerChannel cfg > 1 \<or> ar_PostWords cfg = 0
           \<or> (ucast (ar_PreWords cfg) :: u64) + ucast (ar_PostWords cfg) > ucast Words, ''geometry'')])"

section \<open>What a configuration that passes is\<close>

lemma checks_None: "checks cs = None \<longleftrightarrow> list_all (\<lambda>(bad, _). \<not> bad) cs"
  by (auto simp: checks_def find_None_iff list_all_iff split: prod.splits)

lemmas Check_None = Check_def Let_def checks_None list.pred_inject prod.case

definition enabled_blocks :: "arm_cfg \<Rightarrow> bool list" where
  "enabled_blocks cfg = [qu_Enabled (ar_Qualifier cfg), sy_Enabled (ar_Symbol cfg), pk_Enabled (ar_Packet cfg),
     mc_Enabled (ar_Manchester cfg), ub_Enabled (ar_USBLS cfg), ml_Enabled (ar_MIL1553 cfg), se_Enabled (ar_SENT cfg),
     sp_Enabled (ar_SPI cfg), ic_Enabled (ar_I2C cfg), ua_Enabled (ar_UART cfg)]"

lemma any_block: "list_ex id (x # xs) \<longleftrightarrow> x \<or> list_ex id xs" "list_ex id [] \<longleftrightarrow> False"
  by simp_all

lemma at_most_one_Cons:
  "length (filter id (x # xs)) \<le> 1 \<longleftrightarrow> (if x then \<not> list_ex id xs else length (filter id xs) \<le> 1)"
  by (simp add: list_ex_iff filter_empty_conv)

text \<open>
  A configuration that passes \<open>Check\<close> asks for at most one trigger block. Of the qualifier, the symbol
  trigger and the eight protocol receivers no two are enabled; whenever one is, or the zones are, the
  source is the converters with normal triggering; a sequence or decoded streaming has its receiver; the
  record is not empty and, with the two counts added without wrapping, fits the memory.
\<close>

theorem Check_exclusive:
  assumes "Check cfg = None"
  shows "length (filter id (enabled_blocks cfg)) \<le> 1
    \<and> (list_ex id (enabled_blocks cfg) \<or> zones_Enabled (ar_Zones cfg) \<longrightarrow> ar_Source cfg = ADC \<and> ar_Normal cfg)
    \<and> (sq_Length (ar_Sequence cfg) \<noteq> 0 \<or> ar_DecodedEvents cfg \<longrightarrow> hasDecoder cfg)
    \<and> 0 < uint (ar_PostWords cfg) \<and> uint (ar_PreWords cfg) + uint (ar_PostWords cfg) \<le> 524288"
proof -
  note c = assms [unfolded Check_None]
  have sy: "sy_Enabled (ar_Symbol cfg) \<Longrightarrow> \<not> list_ex id (qu_Enabled (ar_Qualifier cfg) # drop 2 (enabled_blocks cfg))
      \<and> ar_Source cfg = ADC \<and> ar_Normal cfg"
    and qu: "qu_Enabled (ar_Qualifier cfg) \<Longrightarrow> \<not> list_ex id (drop 2 (enabled_blocks cfg)) \<and> ar_Source cfg = ADC \<and> ar_Normal cfg"
    and pk: "pk_Enabled (ar_Packet cfg) \<Longrightarrow> \<not> list_ex id (drop 3 (enabled_blocks cfg)) \<and> ar_Source cfg = ADC \<and> ar_Normal cfg"
    and mc: "mc_Enabled (ar_Manchester cfg) \<Longrightarrow> \<not> list_ex id (drop 4 (enabled_blocks cfg)) \<and> ar_Source cfg = ADC \<and> ar_Normal cfg"
    and ub: "ub_Enabled (ar_USBLS cfg) \<Longrightarrow> \<not> list_ex id (drop 5 (enabled_blocks cfg)) \<and> ar_Source cfg = ADC \<and> ar_Normal cfg"
    and ml: "ml_Enabled (ar_MIL1553 cfg) \<Longrightarrow> \<not> list_ex id (drop 6 (enabled_blocks cfg)) \<and> ar_Source cfg = ADC \<and> ar_Normal cfg"
    and se: "se_Enabled (ar_SENT cfg) \<Longrightarrow> \<not> list_ex id (drop 7 (enabled_blocks cfg)) \<and> ar_Source cfg = ADC \<and> ar_Normal cfg"
    and sp: "sp_Enabled (ar_SPI cfg) \<Longrightarrow> \<not> list_ex id (drop 8 (enabled_blocks cfg)) \<and> ar_Source cfg = ADC \<and> ar_Normal cfg"
    and ic: "ic_Enabled (ar_I2C cfg) \<Longrightarrow> \<not> list_ex id (drop 9 (enabled_blocks cfg)) \<and> ar_Source cfg = ADC \<and> ar_Normal cfg"
    and ua: "ua_Enabled (ar_UART cfg) \<Longrightarrow> ar_Source cfg = ADC \<and> ar_Normal cfg"
    and zn: "zones_Enabled (ar_Zones cfg) \<Longrightarrow> ar_Source cfg = ADC \<and> ar_Normal cfg"
    by (simp_all only: enabled_blocks_def numeral_nat drop_Suc_Cons drop_0 any_block) (use c in blast)+
  have excl: "length (filter id (enabled_blocks cfg)) \<le> 1"
    using sy qu pk mc ub ml se sp ic unfolding enabled_blocks_def at_most_one_Cons by simp
  have adc: "list_ex id (enabled_blocks cfg) \<or> zones_Enabled (ar_Zones cfg) \<Longrightarrow> ar_Source cfg = ADC \<and> ar_Normal cfg"
    unfolding enabled_blocks_def any_block using sy qu pk mc ub ml se sp ic ua zn by blast
  have dec: "sq_Length (ar_Sequence cfg) \<noteq> 0 \<or> ar_DecodedEvents cfg \<Longrightarrow> hasDecoder cfg"
    using c by blast
  have "\<not> (ucast (ar_PreWords cfg) :: u64) + ucast (ar_PostWords cfg) > ucast Words" "ar_PostWords cfg \<noteq> 0"
    using c by simp_all
  moreover have "uint ((ucast (ar_PreWords cfg) :: u64) + ucast (ar_PostWords cfg)) = uint (ar_PreWords cfg) + uint (ar_PostWords cfg)"
    using uint_lt2p [of "ar_PreWords cfg"] uint_lt2p [of "ar_PostWords cfg"]
    by (simp add: uint_word_ariths uint_up_ucast is_up)
  ultimately have "0 < uint (ar_PostWords cfg)" "uint (ar_PreWords cfg) + uint (ar_PostWords cfg) \<le> 524288"
    by (simp_all add: word_less_def word_neq_0_conv Words_def not_less word_gt_0)
  then show ?thesis using excl adc dec by blast
qed

text \<open>An edge-triggered acquisition, every block off; a UART request; the edge configuration with that receiver.\<close>

definition edge_cfg :: arm_cfg where
  "edge_cfg = \<lparr>
     ar_Qualifier = \<lparr>qu_Enabled = False, qu_Kind = 0, qu_Channel = 0, qu_Negative = False, qu_Cond = 0, qu_MinTicks = 0,
       qu_MaxTicks = 0, qu_Prescale = 0, qu_LevelA = 0, qu_LevelB = 0, qu_Line = 0\<rparr>,
     ar_Zones = \<lparr>zn_Zones = replicate 4 \<lparr>zw_Enabled = False, zw_Channel = 0, zw_Lo = 0, zw_Hi = 0, zw_Start = 0, zw_End = 0, zw_Avoid = False\<rparr>,
       zn_Wait = 0, zn_Bucket = 0\<rparr>,
     ar_Symbol = \<lparr>sy_Enabled = False, sy_Channel = 0, sy_InvA = False, sy_InvB = False, sy_AndAB = False, sy_ClockFall = False,
       sy_TwoLines = False, sy_Mode = 0, sy_LeadLen = 0, sy_Prescale = 0, sy_UnitQ8 = 0, sy_FrameUnits = 0, sy_Period = 0, sy_Phase0 = 0,
       sy_K = 0, sy_Pattern = 0, sy_Mask = 0, sy_Table = []\<rparr>,
     ar_Sequence = \<lparr>sq_Length = 0, sq_Qualify = False, sq_EndBadValue = False, sq_Elements = []\<rparr>,
     ar_Packet = \<lparr>pk_Enabled = False, pk_Protocol = 0, pk_Channel = 0, pk_Inverted = False, pk_Ticks = 0, pk_Aux = 0, pk_Pattern = 0, pk_Length = 0\<rparr>,
     ar_Manchester = \<lparr>mc_Enabled = False, mc_Channel = 0, mc_Inverted = False, mc_IEEE = False, mc_MSB = False, mc_Bits = 0, mc_BitTicks = 0,
       mc_Pattern = 0, mc_Length = 0\<rparr>,
     ar_USBLS = \<lparr>ub_Enabled = False, ub_Channel = 0, ub_Inverted = False, ub_BitTicksQ8 = 0, ub_Pattern = 0, ub_Length = 0\<rparr>,
     ar_MIL1553 = \<lparr>ml_Enabled = False, ml_Channel = 0, ml_Inverted = False, ml_BitTicks = 0, ml_Pattern = 0, ml_MatchAny = False\<rparr>,
     ar_SENT = \<lparr>se_Enabled = False, se_Channel = 0, se_Inverted = False, se_PausePulse = False, se_TickTicks = 0, se_Nibbles = 0,
       se_Pattern = 0, se_Length = 0\<rparr>,
     ar_DecodedEvents = False,
     ar_SPI = \<lparr>sp_Enabled = False, sp_ClockChannel = 0, sp_Inverted = False, sp_CPOL = False, sp_CPHA = False, sp_MSB = False,
       sp_GapTicks = 0, sp_Pattern = 0, sp_Length = 0, sp_Delay = 0\<rparr>,
     ar_I2C = \<lparr>ic_Enabled = False, ic_ClockChannel = 0, ic_Inverted = False, ic_Address = 0, ic_Direction = 0, ic_Pattern = 0, ic_Length = 0,
       ic_Samples = False, ic_Delay = 0\<rparr>,
     ar_UART = \<lparr>ua_Enabled = False, ua_Channel = 0, ua_Inverted = False, ua_BitTicks = 0, ua_Pattern = 0, ua_Length = 0, ua_Period16 = 0,
       ua_Bits = 0, ua_Parity = 0, ua_Resync = False\<rparr>,
     ar_Source = ADC, ar_DecimationLog2 = 0, ar_Pick = False, ar_Pair = 0, ar_PreWords = 1000, ar_PostWords = 1000, ar_Normal = True,
     ar_Falling = False, ar_TriggerChannel = 0, ar_TriggerLevel = 128, ar_TriggerHysteresis = 2, ar_SecondLevel = 0, ar_SliceLines = False\<rparr>"

definition ua_sample :: uart_cfg where
  "ua_sample = \<lparr>ua_Enabled = True, ua_Channel = 1, ua_Inverted = False, ua_BitTicks = 1085, ua_Pattern = 0x55, ua_Length = 1, ua_Period16 = 0,
     ua_Bits = 0, ua_Parity = 0, ua_Resync = False\<rparr>"

lemma Check_exclusive_witness:
  "Check (edge_cfg\<lparr>ar_UART := ua_sample\<rparr>) = None \<and> length (filter id (enabled_blocks (edge_cfg\<lparr>ar_UART := ua_sample\<rparr>))) \<le> 1"
proof -
  have "Option.is_none (Check (edge_cfg\<lparr>ar_UART := ua_sample\<rparr>))" by code_simp
  then have n: "Check (edge_cfg\<lparr>ar_UART := ua_sample\<rparr>) = None" by (simp add: Option.is_none_def)
  from Check_exclusive [OF this] show ?thesis using n by simp
qed

end
