(* ===== verification/Arm.thy ===== *)
theory Arm
  imports ArmConfig
begin

text \<open>
  Starting an acquisition (\<open>Capture.Arm\<close> of \<open>app/internal/sramcapture/capture.go\<close>): the register program that an
  arm is, and what an arm that is refused leaves alone.
\<close>

section \<open>Decoded events\<close>

definition enableDecodedEvents :: "bool \<Rightarrow> u32 cap" where
  "enableDecodedEvents enabled = andThen (read_reg 63) (\<lambda>capability. if capability \<noteq> 0x4501 then fail (MissingBlock ''event transport'') else
     do1 (writeMany ([(57, 0), (60, 2)] @ (if enabled then [(57, 1)] else [])))
     (andThen (readMany [61, 62]) (\<lambda>e. ret (u32_of (e ! 0) (e ! 1)))))"

section \<open>Arm\<close>

definition rawOnly :: "bool cap" where
  "rawOnly = andThen (read_reg 13) (\<lambda>revision. if revision \<noteq> 10 then ret False else
     andThen (read_reg 30) (\<lambda>v. ret (v = 0x4e44)))"

definition decimation_word :: "arm_cfg \<Rightarrow> u16" where
  "decimation_word cfg = ucast (ar_DecimationLog2 cfg) OR flag (ar_Pick cfg \<and> ar_DecimationLog2 cfg \<noteq> 0) 32"

definition source_word :: "arm_cfg \<Rightarrow> u16" where
  "source_word cfg = push_bit 1 (ucast (ar_Pair cfg)) OR flag (ar_Source cfg = ADC) 1 OR flag (ar_Normal cfg) 16
     OR flag (ar_Falling cfg) 32 OR flag (ar_TriggerChannel cfg = 1) 64"

definition second_level :: "arm_cfg \<Rightarrow> byte" where
  "second_level cfg = (if ar_SecondLevel cfg = 0 \<and> \<not> ar_SliceLines cfg then ar_TriggerLevel cfg else ar_SecondLevel cfg)"

definition needs_second :: "arm_cfg \<Rightarrow> bool" where
  "needs_second cfg \<longleftrightarrow> sp_Enabled (ar_SPI cfg) \<or> ic_Enabled (ar_I2C cfg)
     \<or> (sy_Enabled (ar_Symbol cfg) \<and> sy_TwoLines (ar_Symbol cfg)) \<or> ar_SliceLines cfg"

text \<open>The blocks, in the order the arm sets them up.\<close>

definition arm_blocks :: "u16 \<Rightarrow> arm_cfg \<Rightarrow> unit cap" where
  "arm_blocks revision cfg =
     do1 (configureQualifier revision (ar_Qualifier cfg)) (do1 (configureZones revision (ar_Zones cfg))
     (do1 (configureSymbol revision (ar_Symbol cfg)) (do1 (configureSequence (ar_Sequence cfg))
     (do1 (configurePacket (ar_Packet cfg)) (do1 (configureManchester (ar_Manchester cfg))
     (do1 (configureSENT revision (ar_SENT cfg)) (do1 (configureUSBLS revision (ar_USBLS cfg))
     (do1 (configureMIL1553 revision (ar_MIL1553 cfg)) (do1 (configureSPI revision (ar_SPI cfg))
     (do1 (configureI2C revision (ar_I2C cfg)) (configureUART revision (ar_UART cfg))))))))))))"

definition arm_geometry :: "u16 \<Rightarrow> arm_cfg \<Rightarrow> unit cap" where
  "arm_geometry revision cfg =
     do1 (if revision \<ge> 9 then write_reg 18 (decimation_word cfg) else ret ())
     (do1 (write32 2 (ar_PreWords cfg)) (do1 (write32 4 (ar_PostWords cfg))
     (do1 (write_reg 6 (source_word cfg))
     (do1 (write_reg 7 (ucast (ar_TriggerLevel cfg) OR push_bit 8 (ucast (ar_TriggerHysteresis cfg))))
       (if needs_second cfg then write_reg regSecondLevel (ucast (second_level cfg)) else ret ())))))"

text \<open>The start: decoded events, then the run command; a run that fails stops the events (its own error is the
  one reported).\<close>

definition arm_start :: "nat \<Rightarrow> arm_cfg \<Rightarrow> unit cap" where
  "arm_start n cfg = do1 (if ar_DecodedEvents cfg then andThen (enableDecodedEvents True) (\<lambda>_. ret ()) else ret ())
     (\<lambda>b c. case commandIn n 1 b c of
        (Inl e, c) \<Rightarrow> (Inl e, if ar_DecodedEvents cfg then snd (write_reg 57 0 b c) else c)
      | (Inr _, c) \<Rightarrow> (Inr (), c))"

definition arm_body :: "nat \<Rightarrow> arm_cfg \<Rightarrow> unit cap" where
  "arm_body n cfg = andThen (getc (\<lambda>c. cp_armRead c ! 0)) (\<lambda>s. if s AND 4 = 0 \<or> s AND 8 \<noteq> 0 then fail NotHalted else
     andThen (read_reg 13) (\<lambda>revision. if revision \<ge> 6 \<and> ar_Pair cfg \<noteq> 0 then fail PairNotZero
     else if revision < 9 \<and> ar_DecimationLog2 cfg \<noteq> 0 then fail NoDecimation else
     andThen (if ar_DecimationLog2 cfg \<noteq> 0 then rawOnly else ret False) (\<lambda>raw. if raw then fail RawOnlyImage else
     andThen (capability_of revision 63) (\<lambda>stream. if ar_DecodedEvents cfg \<and> stream \<noteq> 0x4501 then fail (MissingBlock ''event transport'') else
     do1 (if stream = 0x4501 then write_reg 57 0 else ret ())
     (do1 (arm_blocks revision cfg) (do1 (arm_geometry revision cfg) (arm_start n cfg)))))))"

text \<open>\<open>n\<close> bounds the reads of the status within the command's deadline.\<close>

definition Arm :: "nat \<Rightarrow> arm_cfg \<Rightarrow> unit cap" where
  "Arm n cfg = (case Check cfg of Some e \<Rightarrow> fail e | None \<Rightarrow>
     if n = 0 then fail Cancelled else
     andThen (readMany armSels) (\<lambda>regs. do1 (update (\<lambda>c. c\<lparr>cp_armRead := regs, cp_armReady := True, cp_queueWrites := True\<rparr>))
       (\<lambda>b c. case arm_body n cfg b c of (r, c) \<Rightarrow>
          (case flushWrites b (c\<lparr>cp_armReady := False, cp_queueWrites := False\<rparr>) of
             (Inl e, c) \<Rightarrow> (if r = Inr () then Inl e else r, c)
           | (Inr _, c) \<Rightarrow> (r, c)))))"

section \<open>The program of an arm\<close>

definition block_program :: "bool \<Rightarrow> bool \<Rightarrow> nat \<Rightarrow> (nat \<times> u16) list \<Rightarrow> (nat \<times> u16) list" where
  "block_program present enabled control regs = (if \<not> present then [] else if enabled then regs else [(control, 0)])"

definition symbol_program :: "bool \<Rightarrow> bool \<Rightarrow> symbol_cfg \<Rightarrow> (nat \<times> u16) list" where
  "symbol_program present held p = (if \<not> present then [] else if \<not> sy_Enabled p then [(93, 0)]
     else (93, 0) # (if held then [] else table_regs (sy_Table p)) @ SymbolRegisters p)"

definition seq_program :: "bool \<Rightarrow> seq_cfg \<Rightarrow> (nat \<times> u16) list" where
  "seq_program present p = (if \<not> present then [] else (118, 0) # (if sq_Length p = 0 then [] else
     seq_elem_regs 0 (take (unat (sq_Length p)) (sq_Elements p)) @ [(118, seq_control p)]))"

text \<open>
  \<open>arm_program k held cfg\<close>: the writes before the run command, from what the fabric says its registers
  hold (\<open>k\<close>) and whether it still holds the symbol table.
\<close>

definition blocks_program :: "(nat \<Rightarrow> u16) \<Rightarrow> bool \<Rightarrow> arm_cfg \<Rightarrow> (nat \<times> u16) list" where
  "blocks_program k held cfg =
     (let r10 = k 13 \<ge> 10; is10 = (k 13 = 10) in
      block_program (r10 \<and> k 74 = 0x5154) (qu_Enabled (ar_Qualifier cfg)) 21 (qual_regs (ar_Qualifier cfg))
      @ block_program (r10 \<and> k 74 = 0x5154 \<and> k 75 AND 8 \<noteq> 0) (zones_Enabled (ar_Zones cfg)) 83 (zone_regs (ar_Zones cfg))
      @ symbol_program (r10 \<and> k 76 = symbolBlock) held (ar_Symbol cfg)
      @ seq_program (is10 \<and> k 73 = 0x5201 \<and> k 118 = 0x5351) (ar_Sequence cfg)
      @ block_program (is10 \<and> k 109 = 0x5001 \<and> k 110 \<noteq> 0) (pk_Enabled (ar_Packet cfg)) 109 (packet_regs (ar_Packet cfg))
      @ block_program (r10 \<and> k 102 = 0x4d01) (mc_Enabled (ar_Manchester cfg)) 102 (manchester_regs (ar_Manchester cfg))
      @ block_program (r10 \<and> k 77 = 0x5e01) (se_Enabled (ar_SENT cfg)) 77 (sent_regs (ar_SENT cfg))
      @ block_program (r10 \<and> k 97 = 0x5501) (ub_Enabled (ar_USBLS cfg)) 97 (usbls_regs (ar_USBLS cfg))
      @ block_program (r10 \<and> k 93 = 0x4d01) (ml_Enabled (ar_MIL1553 cfg)) 93 (mil_regs (ar_MIL1553 cfg))
      @ block_program (r10 \<and> k 64 \<in> {spiLevels, spiSamples}) (sp_Enabled (ar_SPI cfg)) 64 (spi_regs (k 64) (ar_SPI cfg))
      @ block_program (r10 \<and> k 53 \<in> {i2cLevels, i2cSamples}) (ic_Enabled (ar_I2C cfg)) 53 (i2c_regs (k 53) (ar_I2C cfg))
      @ block_program (r10 \<and> k 48 \<in> {uartLevels, uartSamples}) (ua_Enabled (ar_UART cfg)) 48
          (uart_regs (ar_UART cfg) @ [(48, uart_control (ar_UART cfg))]))"

definition geometry_program :: "(nat \<Rightarrow> u16) \<Rightarrow> arm_cfg \<Rightarrow> (nat \<times> u16) list" where
  "geometry_program k cfg =
     (if k 13 \<ge> 9 then [(18, decimation_word cfg)] else [])
     @ [(2, lo16 (ar_PreWords cfg)), (3, hi16 (ar_PreWords cfg)), (4, lo16 (ar_PostWords cfg)), (5, hi16 (ar_PostWords cfg)),
        (6, source_word cfg), (7, ucast (ar_TriggerLevel cfg) OR push_bit 8 (ucast (ar_TriggerHysteresis cfg)))]
     @ (if needs_second cfg then [(regSecondLevel, ucast (second_level cfg))] else [])"

definition arm_program :: "(nat \<Rightarrow> u16) \<Rightarrow> bool \<Rightarrow> arm_cfg \<Rightarrow> (nat \<times> u16) list" where
  "arm_program k held cfg =
     (if k 13 \<ge> 10 \<and> k 63 = 0x4501 then [(57, 0)] else []) @ blocks_program k held cfg @ geometry_program k cfg
     @ (if ar_DecodedEvents cfg then [(57, 0), (60, 2), (57, 1)] else [])"

text \<open>While an arm runs, its cached registers answer as \<open>k\<close>, and writes queue.\<close>

definition arming :: "(nat \<Rightarrow> u16) \<Rightarrow> capture \<Rightarrow> bool" where
  "arming k c \<longleftrightarrow> cp_queueWrites c \<and> (\<forall>s \<in> set (tl armSels). cached s c = Some (k s)) \<and> (\<forall>s. s \<notin> set (tl armSels) \<longrightarrow> cached s c = None)"

lemma arming_steps: "arming k c \<Longrightarrow> steps c rs c' \<Longrightarrow> arming k c'"
  by (simp add: arming_def cached_steps queue_steps)

lemma arming_read: "arming k c \<Longrightarrow> s \<in> set (tl armSels) \<Longrightarrow> read_reg s b c = (Inr (k s), c)"
  by (simp add: arming_def read_reg_cached)

lemma armSels_tl: "set (tl armSels) = {13, 63, 73, 110, 74, 48, 53, 64, 77, 97, 102, 109, 118}"
  by (auto simp: armSels_def qualCapability_def)

lemma arming_reads:
  assumes "arming k c"
  shows "read_reg 13 b c = (Inr (k 13), c)" "read_reg 63 b c = (Inr (k 63), c)" "read_reg 73 b c = (Inr (k 73), c)"
    "read_reg 110 b c = (Inr (k 110), c)" "read_reg 74 b c = (Inr (k 74), c)" "read_reg 48 b c = (Inr (k 48), c)"
    "read_reg 53 b c = (Inr (k 53), c)" "read_reg 64 b c = (Inr (k 64), c)" "read_reg 77 b c = (Inr (k 77), c)"
    "read_reg 97 b c = (Inr (k 97), c)" "read_reg 102 b c = (Inr (k 102), c)" "read_reg 109 b c = (Inr (k 109), c)"
    "read_reg 118 b c = (Inr (k 118), c)"
  using assms by (simp_all add: arming_read armSels_tl)

lemma arming_none: "arming k c \<Longrightarrow> s \<notin> set (tl armSels) \<Longrightarrow> cached s c = None"
  by (simp add: arming_def)

lemma arming_queue: "arming k c \<Longrightarrow> cp_queueWrites c"
  by (simp add: arming_def)

text \<open>\<open>does\<close>: a step that succeeded issued \<open>rs\<close> and kept the symbol table.\<close>

definition does :: "capture \<Rightarrow> (nat \<times> u16) list \<Rightarrow> capture \<Rightarrow> bool" where
  "does c rs c' \<longleftrightarrow> steps c rs c' \<and> same_table c c'"

lemma does_refl [simp]: "does c [] c" by (simp add: does_def)

lemma does_trans: "does c rs c1 \<Longrightarrow> does c1 rs' c2 \<Longrightarrow> does c (rs @ rs') c2"
  unfolding does_def using steps_trans same_table_trans by blast

lemma does_write: "arming k c \<Longrightarrow> write_reg s v b c = (Inr (), c') \<Longrightarrow> does c [(s, v)] c'"
  using write_reg_steps arming_queue unfolding does_def by blast

lemma does_writeMany: "arming k c \<Longrightarrow> writeMany rs b c = (Inr (), c') \<Longrightarrow> does c rs c'"
  using writeMany_steps arming_queue unfolding does_def by blast

lemma arming_does: "arming k c \<Longrightarrow> does c rs c' \<Longrightarrow> arming k c'"
  using arming_steps unfolding does_def by blast

lemma does_read: "arming k c \<Longrightarrow> s \<notin> set (tl armSels) \<Longrightarrow> read_reg s b c = (Inr v, c') \<Longrightarrow> does c [] c' \<and> bus_says b s v"
  using read_reg_bus arming_none unfolding does_def by blast

lemma missing_Inr [simp]: "missing e w b c = (Inr (), c') \<longleftrightarrow> \<not> e \<and> c' = c"
  by (auto simp: missing_def)

lemma capability_arming:
  "arming k c \<Longrightarrow> s \<in> set (tl armSels) \<Longrightarrow> capability_of (k 13) s b c = (Inr (if k 13 \<ge> 10 then k s else 0), c)"
  by (simp add: capability_of_def arming_read ret_def)

lemma does_qualifier:
  assumes "arming k c" "configureQualifier (k 13) p b c = (Inr (), c')"
  shows "does c (block_program (k 13 \<ge> 10 \<and> k 74 = 0x5154) (qu_Enabled p) 21 (qual_regs p)) c'"
  using assms
  by (auto simp: configureQualifier_def qualCapability_def andThen_Inr capability_arming [OF assms(1)] armSels_tl block_program_def
      dest: does_write does_writeMany split: if_splits)

lemma does_packet:
  assumes "arming k c" "configurePacket p b c = (Inr (), c')"
  shows "does c (block_program (k 13 = 10 \<and> k 109 = 0x5001 \<and> k 110 \<noteq> 0) (pk_Enabled p) 109 (packet_regs p)) c'"
  using assms
  by (auto simp: configurePacket_def packetProtocols_def andThen_Inr arming_reads [OF assms(1)] block_program_def
      dest: does_write does_writeMany split: if_splits)

lemma does_manchester:
  assumes "arming k c" "configureManchester p b c = (Inr (), c')"
  shows "does c (block_program (k 13 \<ge> 10 \<and> k 102 = 0x4d01) (mc_Enabled p) 102 (manchester_regs p)) c'"
  using assms
  by (auto simp: configureManchester_def manchesterCapability_def andThen_Inr arming_reads [OF assms(1)] block_program_def
      dest: does_write does_writeMany split: if_splits)

lemma does_sent:
  assumes "arming k c" "configureSENT (k 13) p b c = (Inr (), c')"
  shows "does c (block_program (k 13 \<ge> 10 \<and> k 77 = 0x5e01) (se_Enabled p) 77 (sent_regs p)) c'"
  using assms
  by (auto simp: configureSENT_def andThen_Inr capability_arming [OF assms(1)] armSels_tl block_program_def
      dest: does_write does_writeMany split: if_splits)

lemma does_usbls:
  assumes "arming k c" "configureUSBLS (k 13) p b c = (Inr (), c')"
  shows "does c (block_program (k 13 \<ge> 10 \<and> k 97 = 0x5501) (ub_Enabled p) 97 (usbls_regs p)) c'"
  using assms
  by (auto simp: configureUSBLS_def andThen_Inr capability_arming [OF assms(1)] armSels_tl block_program_def
      dest: does_write does_writeMany split: if_splits)

lemma does_spi:
  assumes "arming k c" "configureSPI (k 13) p b c = (Inr (), c')"
  shows "does c (block_program (k 13 \<ge> 10 \<and> k 64 \<in> {spiLevels, spiSamples}) (sp_Enabled p) 64 (spi_regs (k 64) p)) c'"
  using assms
  by (auto simp: configureSPI_def andThen_Inr capability_arming [OF assms(1)] armSels_tl block_program_def spiLevels_def spiSamples_def
      dest: does_write does_writeMany split: if_splits)

lemma does_i2c:
  assumes "arming k c" "configureI2C (k 13) p b c = (Inr (), c')"
  shows "does c (block_program (k 13 \<ge> 10 \<and> k 53 \<in> {i2cLevels, i2cSamples}) (ic_Enabled p) 53 (i2c_regs (k 53) p)) c'"
  using assms
  by (auto simp: configureI2C_def andThen_Inr capability_arming [OF assms(1)] armSels_tl block_program_def i2cLevels_def i2cSamples_def
      dest: does_write does_writeMany split: if_splits)

lemma does_mil:
  assumes "arming k c" "configureMIL1553 (k 13) p b c = (Inr (), c')"
  shows "\<exists>v. (k 13 \<ge> 10 \<longrightarrow> bus_says b 93 v) \<and> does c (block_program (k 13 \<ge> 10 \<and> v = 0x4d01) (ml_Enabled p) 93 (mil_regs p)) c'"
proof (cases "k 13 \<ge> 10")
  case False
  then show ?thesis using assms by (auto simp: configureMIL1553_def andThen_Inr capability_of_def ret_def block_program_def)
next
  case True
  obtain v c1 where r: "read_reg 93 b c = (Inr v, c1)"
    and k: "(if v \<noteq> 0x4d01 then missing (ml_Enabled p) ''MIL-STD-1553 trigger''
     else if ml_Enabled p then writeMany (mil_regs p) else write_reg 93 0) b c1 = (Inr (), c')"
    using assms(2) True by (auto simp: configureMIL1553_def andThen_Inr capability_of_def)
  have d: "does c [] c1" "bus_says b 93 v" using does_read [OF assms(1) _ r] by (simp_all add: armSels_tl)
  have "does c1 (block_program (v = 0x4d01) (ml_Enabled p) 93 (mil_regs p)) c'"
    using k arming_does [OF assms(1) d(1)] by (auto simp: block_program_def dest: does_write does_writeMany split: if_splits)
  then show ?thesis using True d does_trans [OF d(1)] by (intro exI [of _ v]) (simp add: block_program_def)
qed

lemma does_zones:
  assumes "arming k c" "configureZones (k 13) z b c = (Inr (), c')"
  shows "\<exists>v. (k 13 \<ge> 10 \<and> k 74 = 0x5154 \<longrightarrow> bus_says b 75 v)
    \<and> does c (block_program (k 13 \<ge> 10 \<and> k 74 = 0x5154 \<and> v AND 8 \<noteq> 0) (zones_Enabled z) 83 (zone_regs z)) c'"
proof (cases "k 13 \<ge> 10 \<and> k 74 = 0x5154")
  case False
  then show ?thesis
    using assms by (auto simp: configureZones_def zone_kinds_def qualCapability_def andThen_Inr arming_reads [OF assms(1)] block_program_def split: if_splits)
next
  case True
  obtain v c1 where r: "read_reg 75 b c = (Inr v, c1)"
    and k: "(if v AND 8 = 0 then missing (zones_Enabled z) ''zone trigger''
     else if zones_Enabled z then writeMany (zone_regs z) else write_reg 83 0) b c1 = (Inr (), c')"
    using assms(2) True
    by (auto simp: configureZones_def zone_kinds_def qualCapability_def andThen_Inr arming_reads [OF assms(1)])
  have d: "does c [] c1" "bus_says b 75 v" using does_read [OF assms(1) _ r] by (simp_all add: armSels_tl)
  have "does c1 (block_program (v AND 8 \<noteq> 0) (zones_Enabled z) 83 (zone_regs z)) c'"
    using k arming_does [OF assms(1) d(1)] by (auto simp: block_program_def dest: does_write does_writeMany split: if_splits)
  then show ?thesis using True d does_trans [OF d(1)] by (intro exI [of _ v]) (simp add: block_program_def)
qed

lemma does_sequence:
  assumes "arming k c" "configureSequence p b c = (Inr (), c')"
  shows "does c (seq_program (k 13 = 10 \<and> k 73 = 0x5201 \<and> k 118 = 0x5351) p) c'"
proof (cases "k 13 = 10 \<and> k 73 = 0x5201 \<and> k 118 = 0x5351")
  case False
  then show ?thesis
    using assms by (auto simp: configureSequence_def sequenceCapability_def andThen_Inr arming_reads [OF assms(1)] seq_program_def split: if_splits)
next
  case True
  let ?es = "seq_elem_regs 0 (take (unat (sq_Length p)) (sq_Elements p))"
  obtain c1 where w: "write_reg 118 0 b c = (Inr (), c1)"
    and k: "(if sq_Length p = 0 then ret () else do1 (writeMany ?es) (write_reg 118 (seq_control p))) b c1 = (Inr (), c')"
    using assms(2) True by (auto simp: configureSequence_def sequenceCapability_def andThen_Inr arming_reads [OF assms(1)])
  have d: "does c [(118, 0)] c1" using does_write [OF assms(1) w] .
  note a1 = arming_does [OF assms(1) d]
  show ?thesis
  proof (cases "sq_Length p = 0")
    case True
    then show ?thesis using k d \<open>k 13 = 10 \<and> _\<close> by (simp add: seq_program_def)
  next
    case False
    then obtain c2 where m: "writeMany ?es b c1 = (Inr (), c2)" and e: "write_reg 118 (seq_control p) b c2 = (Inr (), c')"
      using k by (auto simp: andThen_Inr)
    have d2: "does c1 ?es c2" using does_writeMany [OF a1 m] .
    have "does c2 [(118, seq_control p)] c'" using does_write [OF arming_does [OF a1 d2] e] .
    then show ?thesis using does_trans [OF d does_trans [OF d2]] True False by (simp add: seq_program_def)
  qed
qed

lemma does_write_list:
  "arming k c \<Longrightarrow> write_list rs b c = (Inr (), c') \<Longrightarrow> does c rs c'"
proof (induction rs arbitrary: c)
  case (Cons r rs)
  obtain c1 where w: "write_reg (fst r) (snd r) b c = (Inr (), c1)" and l: "write_list rs b c1 = (Inr (), c')"
    using Cons.prems(2) by (cases r) (auto simp: andThen_Inr)
  have d: "does c [r] c1" using does_write [OF Cons.prems(1) w] by simp
  then show ?case using does_trans [OF d Cons.IH [OF arming_does [OF Cons.prems(1) d] l]] by simp
qed simp

lemma does_uart:
  assumes "arming k c" "configureUART (k 13) u b c = (Inr (), c')"
  shows "does c (block_program (k 13 \<ge> 10 \<and> k 48 \<in> {uartLevels, uartSamples}) (ua_Enabled u) 48
      (uart_regs u @ [(48, uart_control u)])) c'"
proof (cases "k 13 \<ge> 10 \<and> k 48 \<in> {uartLevels, uartSamples} \<and> ua_Enabled u")
  case False
  then show ?thesis
    using assms
    by (auto simp: configureUART_def andThen_Inr arming_reads [OF assms(1)] block_program_def dest: does_write split: if_splits)
next
  case True
  then obtain c1 where w: "write_list (uart_regs u) b c = (Inr (), c1)" and e: "write_reg 48 (uart_control u) b c1 = (Inr (), c')"
    using assms(2) by (auto simp: configureUART_def andThen_Inr arming_reads [OF assms(1)] split: if_splits)
  have d: "does c (uart_regs u) c1" using does_write_list [OF assms(1) w] .
  show ?thesis using does_trans [OF d does_write [OF arming_does [OF assms(1) d] e]] True by (simp add: block_program_def)
qed

definition table_held :: "capture \<Rightarrow> u16 \<Rightarrow> symbol_cfg \<Rightarrow> bool" where
  "table_held c loaded p \<longleftrightarrow> loaded AND 1 \<noteq> 0 \<and> cp_symbolTableOK c \<and> cp_symbolTable c = sy_Table p"

lemma update_table_steps [simp]:
  "steps c [] (c\<lparr>cp_symbolTableOK := x\<rparr>)" "steps c [] (c\<lparr>cp_symbolTable := t, cp_symbolTableOK := x\<rparr>)"
  by (simp_all add: steps_def issued_def kept_def)

lemma symbol_load:
  assumes a: "arming k c"
    and m: "do1 (update (\<lambda>c. c\<lparr>cp_symbolTableOK := False\<rparr>)) (do1 (writeMany (table_regs (sy_Table p)))
       (do1 (update (\<lambda>c. c\<lparr>cp_symbolTable := sy_Table p, cp_symbolTableOK := True\<rparr>)) (writeMany (SymbolRegisters p)))) b c = (Inr (), c')"
  shows "steps c (table_regs (sy_Table p) @ SymbolRegisters p) c'"
proof -
  let ?c0 = "c\<lparr>cp_symbolTableOK := False\<rparr>"
  obtain c1 where w: "writeMany (table_regs (sy_Table p)) b ?c0 = (Inr (), c1)"
    and w': "writeMany (SymbolRegisters p) b (c1\<lparr>cp_symbolTable := sy_Table p, cp_symbolTableOK := True\<rparr>) = (Inr (), c')"
    using m by (auto simp: andThen_Inr)
  let ?c1 = "c1\<lparr>cp_symbolTable := sy_Table p, cp_symbolTableOK := True\<rparr>"
  have s0: "steps c [] ?c0" by simp
  have q0: "cp_queueWrites ?c0" using arming_queue [OF a] by simp
  have s1: "steps ?c0 (table_regs (sy_Table p)) c1" using writeMany_steps [OF q0 w] by simp
  have s2: "steps c1 [] ?c1" by simp
  have s: "steps c (table_regs (sy_Table p)) ?c1" using steps_trans [OF s0 steps_trans [OF s1 s2]] by simp
  have q1: "cp_queueWrites ?c1" using queue_steps [OF s] arming_queue [OF a] by simp
  show ?thesis using steps_trans [OF s] writeMany_steps [OF q1 w'] by simp
qed

lemma steps_symbol:
  assumes a: "arming k c" and m: "configureSymbol (k 13) p b c = (Inr (), c')"
  shows "\<exists>v loaded. (k 13 \<ge> 10 \<longrightarrow> bus_says b 76 v) \<and> (k 13 \<ge> 10 \<and> v = symbolBlock \<and> sy_Enabled p \<longrightarrow> bus_says b 98 loaded)
    \<and> steps c (symbol_program (k 13 \<ge> 10 \<and> v = symbolBlock) (table_held c loaded p) p) c'"
proof (cases "k 13 \<ge> 10")
  case False
  then show ?thesis using m by (auto simp: configureSymbol_def andThen_Inr capability_of_def symbolBlock_def symbol_program_def)
next
  case r10: True
  let ?load = "do1 (update (\<lambda>c. c\<lparr>cp_symbolTableOK := False\<rparr>)) (do1 (writeMany (table_regs (sy_Table p)))
       (do1 (update (\<lambda>c. c\<lparr>cp_symbolTable := sy_Table p, cp_symbolTableOK := True\<rparr>)) (writeMany (SymbolRegisters p))))"
  obtain v c1 where r: "read_reg 76 b c = (Inr v, c1)"
    and n: "(if v \<noteq> symbolBlock then missing (sy_Enabled p) ''symbol trigger''
     else if \<not> sy_Enabled p then write_reg 93 0
     else do1 (write_reg 93 0) (andThen (read_reg 98) (\<lambda>loaded. andThen (getc (\<lambda>c. (cp_symbolTableOK c, cp_symbolTable c))) (\<lambda>(ok, tab).
       if loaded AND 1 = 0 \<or> \<not> ok \<or> tab \<noteq> sy_Table p then ?load else writeMany (SymbolRegisters p))))) b c1 = (Inr (), c')"
    using m r10 by (auto simp: configureSymbol_def andThen_Inr capability_of_def)
  have d: "does c [] c1" "bus_says b 76 v" using does_read [OF a _ r] by (simp_all add: armSels_tl)
  note a1 = arming_does [OF a d(1)]
  show ?thesis
  proof (cases "v = symbolBlock \<and> sy_Enabled p")
    case False
    then have "does c1 (symbol_program (v = symbolBlock) h p) c'" for h
      using n by (auto simp: symbol_program_def dest: does_write [OF a1] split: if_splits)
    then have "steps c (symbol_program (v = symbolBlock) h p) c'" for h
      using does_trans [OF d(1)] by (fastforce simp: does_def)
    then show ?thesis using d(2) False r10 by (intro exI [of _ v]) auto
  next
    case True
    obtain c2 loaded c3 where w: "write_reg 93 0 b c1 = (Inr (), c2)" and l: "read_reg 98 b c2 = (Inr loaded, c3)"
      and f: "(if loaded AND 1 = 0 \<or> \<not> cp_symbolTableOK c3 \<or> cp_symbolTable c3 \<noteq> sy_Table p then ?load else writeMany (SymbolRegisters p)) b c3
        = (Inr (), c')"
      using n True by (auto simp: andThen_Inr)
    have d2: "does c1 [(93, 0)] c2" using does_write [OF a1 w] .
    have d3: "does c2 [] c3" "bus_says b 98 loaded" using does_read [OF arming_does [OF a1 d2] _ l] by (simp_all add: armSels_tl)
    have dd: "does c [(93, 0)] c3" using does_trans [OF d(1) does_trans [OF d2 d3(1)]] by simp
    note a3 = arming_does [OF a dd]
    have held: "table_held c loaded p \<longleftrightarrow> \<not> (loaded AND 1 = 0 \<or> \<not> cp_symbolTableOK c3 \<or> cp_symbolTable c3 \<noteq> sy_Table p)"
      using dd by (auto simp: table_held_def does_def same_table_def)
    have "steps c3 ((if table_held c loaded p then [] else table_regs (sy_Table p)) @ SymbolRegisters p) c'"
    proof (cases "table_held c loaded p")
      case True
      then show ?thesis using f held does_writeMany [OF a3] by (auto simp: does_def)
    next
      case False
      then have "?load b c3 = (Inr (), c')" using f held by simp
      then show ?thesis using symbol_load [OF a3] False by simp
    qed
    then have "steps c (symbol_program True (table_held c loaded p) p) c'"
      using steps_trans [of c "[(93, 0)]" c3] dd True by (simp add: does_def symbol_program_def)
    then show ?thesis using d(2) d3(2) True r10 by (intro exI [of _ v] exI [of _ loaded]) simp
  qed
qed

lemma andThenE:
  assumes "andThen m f b c = (Inr y, c')"
  obtains x c1 where "m b c = (Inr x, c1)" and "f x b c1 = (Inr y, c')"
  using assms by (auto simp: andThen_Inr)

lemma do1E:
  assumes "do1 m f b c = (Inr y, c')"
  obtains c1 where "m b c = (Inr (), c1)" and "f b c1 = (Inr y, c')"
  using assms by (auto simp: andThen_Inr)

lemma steps_blocks:
  assumes a: "arming k c" and m: "arm_blocks (k 13) cfg b c = (Inr (), c')"
  shows "\<exists>zk sy ml ld. (k 13 \<ge> 10 \<and> k 74 = 0x5154 \<longrightarrow> bus_says b 75 zk) \<and> (k 13 \<ge> 10 \<longrightarrow> bus_says b 76 sy \<and> bus_says b 93 ml)
    \<and> (k 13 \<ge> 10 \<and> sy = symbolBlock \<and> sy_Enabled (ar_Symbol cfg) \<longrightarrow> bus_says b 98 ld)
    \<and> steps c (blocks_program (k(75 := zk, 76 := sy, 93 := ml)) (table_held c ld (ar_Symbol cfg)) cfg) c'"
proof -
  obtain c1 c2 c3 c4 c5 c6 c7 c8 c9 c10 c11 where x1: "configureQualifier (k 13) (ar_Qualifier cfg) b c = (Inr (), c1)"
    and x2: "configureZones (k 13) (ar_Zones cfg) b c1 = (Inr (), c2)"
    and x3: "configureSymbol (k 13) (ar_Symbol cfg) b c2 = (Inr (), c3)"
    and x4: "configureSequence (ar_Sequence cfg) b c3 = (Inr (), c4)"
    and x5: "configurePacket (ar_Packet cfg) b c4 = (Inr (), c5)"
    and x6: "configureManchester (ar_Manchester cfg) b c5 = (Inr (), c6)"
    and x7: "configureSENT (k 13) (ar_SENT cfg) b c6 = (Inr (), c7)"
    and x8: "configureUSBLS (k 13) (ar_USBLS cfg) b c7 = (Inr (), c8)"
    and x9: "configureMIL1553 (k 13) (ar_MIL1553 cfg) b c8 = (Inr (), c9)"
    and x10: "configureSPI (k 13) (ar_SPI cfg) b c9 = (Inr (), c10)"
    and x11: "configureI2C (k 13) (ar_I2C cfg) b c10 = (Inr (), c11)"
    and x12: "configureUART (k 13) (ar_UART cfg) b c11 = (Inr (), c')"
    using m unfolding arm_blocks_def by (elim do1E)
  note d1 = does_qualifier [OF a x1]
  note a1 = arming_does [OF a d1]
  obtain zk where zk: "k 13 \<ge> 10 \<and> k 74 = 0x5154 \<longrightarrow> bus_says b 75 zk"
    and d2: "does c1 (block_program (k 13 \<ge> 10 \<and> k 74 = 0x5154 \<and> zk AND 8 \<noteq> 0) (zones_Enabled (ar_Zones cfg)) 83 (zone_regs (ar_Zones cfg))) c2"
    using does_zones [OF a1 x2] by blast
  note a2 = arming_does [OF a1 d2]
  obtain sy ld where sy: "k 13 \<ge> 10 \<longrightarrow> bus_says b 76 sy" "k 13 \<ge> 10 \<and> sy = symbolBlock \<and> sy_Enabled (ar_Symbol cfg) \<longrightarrow> bus_says b 98 ld"
    and s3: "steps c2 (symbol_program (k 13 \<ge> 10 \<and> sy = symbolBlock) (table_held c2 ld (ar_Symbol cfg)) (ar_Symbol cfg)) c3"
    using steps_symbol [OF a2 x3] by blast
  have held: "table_held c2 ld (ar_Symbol cfg) = table_held c ld (ar_Symbol cfg)"
    using does_trans [OF d1 d2] by (simp add: table_held_def does_def same_table_def)
  note a3 = arming_steps [OF a2 s3]
  note d4 = does_sequence [OF a3 x4] note a4 = arming_does [OF a3 d4]
  note d5 = does_packet [OF a4 x5] note a5 = arming_does [OF a4 d5]
  note d6 = does_manchester [OF a5 x6] note a6 = arming_does [OF a5 d6]
  note d7 = does_sent [OF a6 x7] note a7 = arming_does [OF a6 d7]
  note d8 = does_usbls [OF a7 x8] note a8 = arming_does [OF a7 d8]
  obtain ml where ml: "k 13 \<ge> 10 \<longrightarrow> bus_says b 93 ml"
    and d9: "does c8 (block_program (k 13 \<ge> 10 \<and> ml = 0x4d01) (ml_Enabled (ar_MIL1553 cfg)) 93 (mil_regs (ar_MIL1553 cfg))) c9"
    using does_mil [OF a8 x9] by blast
  note a9 = arming_does [OF a8 d9]
  note d10 = does_spi [OF a9 x10] note a10 = arming_does [OF a9 d10]
  note d11 = does_i2c [OF a10 x11] note a11 = arming_does [OF a10 d11]
  note d12 = does_uart [OF a11 x12]
  note s = steps_trans [OF _ steps_trans [OF _ steps_trans [OF s3 [unfolded held]]]]
  note t = does_trans [OF d4 does_trans [OF d5 does_trans [OF d6 does_trans [OF d7 does_trans [OF d8 does_trans [OF d9
     does_trans [OF d10 does_trans [OF d11 d12]]]]]]]]
  have "steps c (blocks_program (k(75 := zk, 76 := sy, 93 := ml)) (table_held c ld (ar_Symbol cfg)) cfg) c'"
    using s [OF d1 [unfolded does_def, THEN conjunct1] d2 [unfolded does_def, THEN conjunct1] t [unfolded does_def, THEN conjunct1]]
    by (simp add: blocks_program_def Let_def)
  then show ?thesis using zk sy ml by blast
qed

lemma does_if_write: "arming k c \<Longrightarrow> (if P then write_reg s v else ret ()) b c = (Inr (), c') \<Longrightarrow> does c (if P then [(s, v)] else []) c'"
  by (cases P) (auto dest: does_write)

lemma does_write32:
  assumes a: "arming k c" and m: "write32 s v b c = (Inr (), c')"
  shows "does c [(s, lo16 v), (s + 1, hi16 v)] c'"
proof -
  obtain c1 where w: "write_reg s (lo16 v) b c = (Inr (), c1)" and w': "write_reg (s + 1) (hi16 v) b c1 = (Inr (), c')"
    using m unfolding write32_def by (elim do1E)
  note d = does_write [OF a w]
  show ?thesis using does_trans [OF d does_write [OF arming_does [OF a d] w']] by simp
qed

lemma does_geometry:
  assumes a: "arming k c" and m: "arm_geometry (k 13) cfg b c = (Inr (), c')"
  shows "does c (geometry_program k cfg) c'"
proof -
  obtain c1 c2 c3 c4 c5 where x: "(if k 13 \<ge> 9 then write_reg 18 (decimation_word cfg) else ret ()) b c = (Inr (), c1)"
    "write32 2 (ar_PreWords cfg) b c1 = (Inr (), c2)" "write32 4 (ar_PostWords cfg) b c2 = (Inr (), c3)"
    "write_reg 6 (source_word cfg) b c3 = (Inr (), c4)"
    "write_reg 7 (ucast (ar_TriggerLevel cfg) OR push_bit 8 (ucast (ar_TriggerHysteresis cfg))) b c4 = (Inr (), c5)"
    "(if needs_second cfg then write_reg regSecondLevel (ucast (second_level cfg)) else ret ()) b c5 = (Inr (), c')"
    using m unfolding arm_geometry_def by (elim do1E)
  note d1 = does_if_write [OF a x(1)] note a1 = arming_does [OF a d1]
  note d2 = does_write32 [OF a1 x(2)] note a2 = arming_does [OF a1 d2]
  note d3 = does_write32 [OF a2 x(3)] note a3 = arming_does [OF a2 d3]
  note d4 = does_write [OF a3 x(4)] note a4 = arming_does [OF a3 d4]
  note d5 = does_write [OF a4 x(5)] note a5 = arming_does [OF a4 d5]
  note d6 = does_if_write [OF a5 x(6)]
  show ?thesis
    using does_trans [OF d1 does_trans [OF d2 does_trans [OF d3 does_trans [OF d4 does_trans [OF d5 d6]]]]]
    by (simp add: geometry_program_def)
qed

lemma does_read_all:
  "arming k c \<Longrightarrow> read_all ss b c = (Inr vs, c') \<Longrightarrow> does c [] c'"
proof (induction ss arbitrary: c vs)
  case (Cons s ss)
  obtain v c1 vs' where r: "read_reg s b c = (Inr v, c1)" and l: "read_all ss b c1 = (Inr vs', c')"
    using Cons.prems(2) by (auto simp: andThen_Inr)
  have "does c [] c1"
  proof (cases "s \<in> set (tl armSels)")
    case True
    then show ?thesis using r arming_read [OF Cons.prems(1)] by simp
  next
    case False
    then show ?thesis using does_read [OF Cons.prems(1) _ r] by simp
  qed
  then show ?case using does_trans Cons.IH [OF arming_does [OF Cons.prems(1)] l] by fastforce
qed simp

lemma does_events:
  assumes a: "arming k c" and m: "enableDecodedEvents True b c = (Inr e, c')"
  shows "does c [(57, 0), (60, 2), (57, 1)] c'"
proof -
  let ?rs = "[(57, 0), (60, 2)] @ (if True then [(57, 1)] else []) :: (nat \<times> u16) list"
  obtain c1 c2 vs where w: "writeMany ?rs b c = (Inr (), c1)" and f: "flushWrites b c1 = (Inr (), c2)"
    and r: "read_all [61, 62] b c2 = (Inr vs, c')"
    using m by (auto simp: enableDecodedEvents_def readMany_def andThen_Inr arming_reads [OF a] split: if_splits)
  have d1: "does c ?rs c1" using does_writeMany [OF a w] .
  have d2: "does c1 [] c2" using flushWrites_Inr [OF f] by (simp add: does_def)
  show ?thesis using does_trans [OF d1 does_trans [OF d2 does_read_all [OF arming_does [OF arming_does [OF a d1] d2] r]]] by simp
qed

lemma does_ack:
  "arming k c \<Longrightarrow> ack_loop n op ack b c = (Inr (), c') \<Longrightarrow> does c [] c' \<and> cp_pending c' = []"
proof (induction n arbitrary: c)
  case (Suc n)
  have one: "1 \<notin> set (tl armSels)" by (simp add: armSels_tl)
  obtain s c1 where r: "read_reg 1 b c = (Inr s, c1)"
    and k: "(if s AND 512 \<noteq> ack then (if s AND 384 \<noteq> 0 then fail (CommandRejected op s) else ret ()) else ack_loop n op ack) b c1 = (Inr (), c')"
    using Suc.prems(2) by (auto simp: andThen_Inr)
  have d: "does c [] c1" using does_read [OF Suc.prems(1) one r] by simp
  have p: "cp_pending c1 = []" using read_reg_bus [OF r arming_none [OF Suc.prems(1) one]] by simp
  show ?case
  proof (cases "s AND 512 \<noteq> ack")
    case True
    then show ?thesis using k d p by (auto split: if_splits)
  next
    case False
    then have "ack_loop n op ack b c1 = (Inr (), c')" using k by simp
    then show ?thesis using Suc.IH [OF arming_does [OF Suc.prems(1) d]] does_trans [OF d] by fastforce
  qed
qed simp

lemma does_command:
  assumes a: "arming k c" and m: "commandIn n op b c = (Inr (), c')"
  shows "does c [(1, op)] c' \<and> cp_pending c' = []"
proof -
  obtain s c1 c2 where r: "read_reg 1 b c = (Inr s, c1)" and w: "write_reg 1 op b c1 = (Inr (), c2)"
    and l: "ack_loop (n - 1) op (s AND 512) b c2 = (Inr (), c')"
    using m by (auto simp: commandIn_def andThen_Inr split: if_splits)
  have d1: "does c [] c1" using does_read [OF a _ r] by (simp add: armSels_tl)
  note d2 = does_write [OF arming_does [OF a d1] w]
  note d3 = does_ack [OF arming_does [OF arming_does [OF a d1] d2] l]
  show ?thesis using does_trans [OF d1 does_trans [OF d2]] d3 by fastforce
qed

lemma does_start:
  assumes a: "arming k c" and m: "arm_start n cfg b c = (Inr (), c')"
  shows "does c ((if ar_DecodedEvents cfg then [(57, 0), (60, 2), (57, 1)] else []) @ [(1, 1)]) c' \<and> cp_pending c' = []"
proof -
  obtain c1 where e: "(if ar_DecodedEvents cfg then andThen (enableDecodedEvents True) (\<lambda>_. ret ()) else ret ()) b c = (Inr (), c1)"
    and s: "commandIn n 1 b c1 = (Inr (), c')"
    using m unfolding arm_start_def by (elim do1E) (auto split: prod.splits sum.splits)
  have d: "does c (if ar_DecodedEvents cfg then [(57, 0), (60, 2), (57, 1)] else []) c1"
    using e does_events [OF a] by (auto simp: andThen_Inr split: if_splits)
  show ?thesis using does_command [OF arming_does [OF a d] s] does_trans [OF d] by fastforce
qed

section \<open>An arm that succeeds\<close>

lemma read_all_bus:
  "\<not> cp_armReady c \<Longrightarrow> read_all ss b c = (Inr vs, c') \<Longrightarrow> list_all2 (bus_says b) ss vs \<and> does c [] c'"
proof (induction ss arbitrary: c vs)
  case (Cons s ss)
  obtain v c1 vs' where r: "read_reg s b c = (Inr v, c1)" and l: "read_all ss b c1 = (Inr vs', c')" and vs: "vs = v # vs'"
    using Cons.prems(2) by (auto simp: andThen_Inr)
  have d: "does c [] c1 \<and> bus_says b s v" using read_reg_bus [OF r] Cons.prems(1) by (simp add: cached_def does_def)
  then have "\<not> cp_armReady c1" using Cons.prems(1) by (simp add: does_def steps_def kept_def)
  then show ?case using Cons.IH [OF _ l] d vs does_trans by fastforce
qed simp

lemma arming_start:
  assumes "list_all2 (bus_says b) armSels vs"
  obtains k where "arming k (c\<lparr>cp_armRead := vs, cp_armReady := True, cp_queueWrites := True\<rparr>)"
    and "\<forall>s \<in> set (tl armSels). bus_says b s (k s)"
proof -
  let ?m = "map_of (zip (tl armSels) (tl vs))"
  have l: "list_all2 (bus_says b) (tl armSels) (tl vs)" using assms by (cases vs) (auto simp: armSels_def)
  then have len: "length (tl armSels) = length (tl vs)" by (rule list_all2_lengthD)
  have dom: "s \<in> set (tl armSels) \<longleftrightarrow> ?m s \<noteq> None" for s using len by (metis map_of_zip_is_None)
  define k where "k s = the (?m s)" for s
  have "bus_says b s (k s)" if mem: "s \<in> set (tl armSels)" for s
  proof -
    obtain v where v: "?m s = Some v" using dom [THEN iffD1, OF mem] by (cases "?m s") simp_all
    then have "(s, v) \<in> set (zip (tl armSels) (tl vs))" by (rule map_of_SomeD)
    then have "bus_says b s v" using l unfolding list_all2_iff by blast
    then show ?thesis using v by (simp add: k_def)
  qed
  moreover have "arming k (c\<lparr>cp_armRead := vs, cp_armReady := True, cp_queueWrites := True\<rparr>)"
  proof -
    let ?c = "c\<lparr>cp_armRead := vs, cp_armReady := True, cp_queueWrites := True\<rparr>"
    have e: "cached s ?c = ?m s" for s by (simp add: cached_def)
    have "cached s ?c = Some (k s)" if "s \<in> set (tl armSels)" for s
      unfolding e k_def using dom [THEN iffD1, OF that] by (rule option.collapse [symmetric])
    moreover have "cached s ?c = None" if "s \<notin> set (tl armSels)" for s
      unfolding e using dom [THEN iffD2] that by metis
    moreover have "cp_queueWrites ?c" by simp
    ultimately show ?thesis unfolding arming_def by blast
  qed
  ultimately show thesis using that by blast
qed

lemma does_rawOnly: "arming k c \<Longrightarrow> rawOnly b c = (Inr r, c') \<Longrightarrow> does c [] c'"
  by (auto simp: rawOnly_def andThen_Inr arming_reads armSels_tl split: if_splits dest!: does_read)

lemma steps_body:
  assumes a: "arming k c" and m: "arm_body n cfg b c = (Inr (), c')"
  shows "\<exists>zk sy ml ld. (k 13 \<ge> 10 \<and> k 74 = 0x5154 \<longrightarrow> bus_says b 75 zk) \<and> (k 13 \<ge> 10 \<longrightarrow> bus_says b 76 sy \<and> bus_says b 93 ml)
    \<and> (k 13 \<ge> 10 \<and> sy = symbolBlock \<and> sy_Enabled (ar_Symbol cfg) \<longrightarrow> bus_says b 98 ld)
    \<and> steps c (arm_program (k(75 := zk, 76 := sy, 93 := ml)) (table_held c ld (ar_Symbol cfg)) cfg @ [(1, 1)]) c' \<and> cp_pending c' = []"
proof -
  obtain raw c1 where r: "(if ar_DecimationLog2 cfg \<noteq> 0 then rawOnly else ret False) b c = (Inr raw, c1)"
    and m1: "andThen (capability_of (k 13) 63) (\<lambda>stream. if ar_DecodedEvents cfg \<and> stream \<noteq> 0x4501 then fail (MissingBlock ''event transport'') else
     do1 (if stream = 0x4501 then write_reg 57 0 else ret ())
     (do1 (arm_blocks (k 13) cfg) (do1 (arm_geometry (k 13) cfg) (arm_start n cfg)))) b c1 = (Inr (), c')"
    using m by (auto simp: arm_body_def andThen_Inr arming_reads [OF a] split: if_splits)
  have d1: "does c [] c1" using r does_rawOnly [OF a] by (auto split: if_splits)
  note a1 = arming_does [OF a d1]
  let ?st = "if k 13 \<ge> 10 then k 63 else 0"
  obtain c2 c3 c4 where x: "(if ?st = 0x4501 then write_reg 57 0 else ret ()) b c1 = (Inr (), c2)"
    "arm_blocks (k 13) cfg b c2 = (Inr (), c3)" "arm_geometry (k 13) cfg b c3 = (Inr (), c4)" "arm_start n cfg b c4 = (Inr (), c')"
    using m1 capability_arming [OF a1, of 63 b] by (auto simp: armSels_tl andThen_Inr simp del: ret_Inr split: if_splits)
  have st: "(if ?st = 0x4501 then [(57, 0)] else []) = (if k 13 \<ge> 10 \<and> k 63 = 0x4501 then [(57, 0)] else [] :: (nat \<times> u16) list)" by auto
  note d2 = does_if_write [OF a1 x(1), unfolded st] note a2 = arming_does [OF a1 d2]
  obtain zk sy ml ld where v: "k 13 \<ge> 10 \<and> k 74 = 0x5154 \<longrightarrow> bus_says b 75 zk" "k 13 \<ge> 10 \<longrightarrow> bus_says b 76 sy \<and> bus_says b 93 ml"
      "k 13 \<ge> 10 \<and> sy = symbolBlock \<and> sy_Enabled (ar_Symbol cfg) \<longrightarrow> bus_says b 98 ld"
    and s3: "steps c2 (blocks_program (k(75 := zk, 76 := sy, 93 := ml)) (table_held c2 ld (ar_Symbol cfg)) cfg) c3"
    using steps_blocks [OF a2 x(2)] by blast
  note a3 = arming_steps [OF a2 s3]
  note d4 = does_geometry [OF a3 x(3)] note a4 = arming_does [OF a3 d4]
  note d5 = does_start [OF a4 x(4)]
  have held: "table_held c2 ld (ar_Symbol cfg) = table_held c ld (ar_Symbol cfg)"
    using does_trans [OF d1 d2] by (simp add: table_held_def does_def same_table_def)
  have s12: "steps c (if k 13 \<ge> 10 \<and> k 63 = 0x4501 then [(57, 0)] else []) c2"
    using does_trans [OF d1 d2] by (simp add: does_def)
  have s45: "steps c3 (geometry_program k cfg @ (if ar_DecodedEvents cfg then [(57, 0), (60, 2), (57, 1)] else []) @ [(1, 1)]) c'"
    using does_trans [OF d4 conjunct1 [OF d5]] by (simp add: does_def)
  have "steps c ((if k 13 \<ge> 10 \<and> k 63 = 0x4501 then [(57, 0)] else [])
      @ blocks_program (k(75 := zk, 76 := sy, 93 := ml)) (table_held c ld (ar_Symbol cfg)) cfg
      @ geometry_program k cfg @ (if ar_DecodedEvents cfg then [(57, 0), (60, 2), (57, 1)] else []) @ [(1, 1)]) c'"
    using steps_trans [OF s12 steps_trans [OF s3 s45]] held by simp
  moreover have "geometry_program (k(75 := zk, 76 := sy, 93 := ml)) cfg = geometry_program k cfg"
    by (simp add: geometry_program_def)
  ultimately have "steps c (arm_program (k(75 := zk, 76 := sy, 93 := ml)) (table_held c ld (ar_Symbol cfg)) cfg @ [(1, 1)]) c'"
    by (simp add: arm_program_def)
  then show ?thesis using v d5 by blast
qed

text \<open>What the fabric answers the arm's questions with: the cached registers and the four it asks for on the way.\<close>

definition fabric_says :: "fabric \<Rightarrow> arm_cfg \<Rightarrow> (nat \<Rightarrow> u16) \<Rightarrow> u16 \<Rightarrow> bool" where
  "fabric_says b cfg k ld \<longleftrightarrow> (\<forall>s \<in> set (tl armSels). bus_says b s (k s))
     \<and> (k 13 \<ge> 10 \<and> k 74 = 0x5154 \<longrightarrow> bus_says b 75 (k 75)) \<and> (k 13 \<ge> 10 \<longrightarrow> bus_says b 76 (k 76) \<and> bus_says b 93 (k 93))
     \<and> (k 13 \<ge> 10 \<and> k 76 = symbolBlock \<and> sy_Enabled (ar_Symbol cfg) \<longrightarrow> bus_says b 98 ld)"

lemma Arm_Inr:
  assumes i: "idle c" and m: "Arm n cfg b c = (Inr (), c')"
  shows "\<exists>k ld. fabric_says b cfg k ld
    \<and> bus_writes (cp_trace c') = bus_writes (cp_trace c) @ arm_program k (table_held c ld (ar_Symbol cfg)) cfg @ [(1, 1)] \<and> idle c'"
proof -
  let ?on = "\<lambda>vs c. c\<lparr>cp_armRead := vs, cp_armReady := True, cp_queueWrites := True\<rparr>"
  let ?off = "\<lambda>c. c\<lparr>cp_armReady := False, cp_queueWrites := False\<rparr>"
  obtain c1 c2 vs where f: "flushWrites b c = (Inr (), c1)" and r: "read_all armSels b c1 = (Inr vs, c2)"
    and body: "(case arm_body n cfg b (?on vs c2) of (r, c) \<Rightarrow> (case flushWrites b (?off c) of
             (Inl e, c) \<Rightarrow> (if r = Inr () then Inl e else r, c) | (Inr _, c) \<Rightarrow> (r, c))) = (Inr (), c')"
  proof -
    have "Check cfg = None" "n \<noteq> 0" using m by (auto simp: Arm_def split: option.splits if_splits)
    then have "andThen (readMany armSels) (\<lambda>regs. do1 (update (\<lambda>c. c\<lparr>cp_armRead := regs, cp_armReady := True, cp_queueWrites := True\<rparr>))
       (\<lambda>b c. case arm_body n cfg b c of (r, c) \<Rightarrow> (case flushWrites b (?off c) of
             (Inl e, c) \<Rightarrow> (if r = Inr () then Inl e else r, c) | (Inr _, c) \<Rightarrow> (r, c)))) b c = (Inr (), c')"
      using m by (simp add: Arm_def)
    then obtain vs c1 where "readMany armSels b c = (Inr vs, c1)"
      and "do1 (update (\<lambda>c. c\<lparr>cp_armRead := vs, cp_armReady := True, cp_queueWrites := True\<rparr>))
       (\<lambda>b c. case arm_body n cfg b c of (r, c) \<Rightarrow> (case flushWrites b (?off c) of
             (Inl e, c) \<Rightarrow> (if r = Inr () then Inl e else r, c) | (Inr _, c) \<Rightarrow> (r, c))) b c1 = (Inr (), c')"
      by (rule andThenE)
    then show thesis using that unfolding readMany_def by (elim do1E) (simp only: update_Inr)
  qed
  have c1: "c1 = c" using f i by (simp add: flushWrites_def idle_def)
  have ra: "list_all2 (bus_says b) armSels vs" "does c [] c2" using read_all_bus [OF _ r] i c1 by (simp_all add: idle_def)
  obtain k where a: "arming k (?on vs c2)" and says: "\<forall>s \<in> set (tl armSels). bus_says b s (k s)" using arming_start [OF ra(1)] by blast
  obtain c3 where m3: "arm_body n cfg b (?on vs c2) = (Inr (), c3)" and fl: "flushWrites b (?off c3) = (Inr (), c')"
  proof -
    obtain rr c3 where 3: "arm_body n cfg b (?on vs c2) = (rr, c3)" by fastforce
    obtain ff c4 where 4: "flushWrites b (?off c3) = (ff, c4)" by fastforce
    show thesis using body that unfolding 3 prod.case 4 by (cases ff) (auto simp: 3 4 split: if_splits)
  qed
  obtain zk sy ml ld where v: "k 13 \<ge> 10 \<and> k 74 = 0x5154 \<longrightarrow> bus_says b 75 zk" "k 13 \<ge> 10 \<longrightarrow> bus_says b 76 sy \<and> bus_says b 93 ml"
      "k 13 \<ge> 10 \<and> sy = symbolBlock \<and> sy_Enabled (ar_Symbol cfg) \<longrightarrow> bus_says b 98 ld"
    and s: "steps (?on vs c2) (arm_program (k(75 := zk, 76 := sy, 93 := ml)) (table_held (?on vs c2) ld (ar_Symbol cfg)) cfg @ [(1, 1)]) c3"
    and p: "cp_pending c3 = []" using steps_body [OF a m3] by blast
  have c': "c' = ?off c3" using fl p by (simp add: flushWrites_def)
  have held: "table_held (?on vs c2) ld (ar_Symbol cfg) = table_held c ld (ar_Symbol cfg)"
    using ra(2) by (simp add: table_held_def does_def same_table_def)
  have "issued (?on vs c2) = issued c" using ra(2) by (simp add: does_def steps_def issued_def)
  then have w: "bus_writes (cp_trace c') = bus_writes (cp_trace c)
      @ arm_program (k(75 := zk, 76 := sy, 93 := ml)) (table_held c ld (ar_Symbol cfg)) cfg @ [(1, 1)]"
    using s p c' i held by (simp add: steps_def issued_def idle_def)
  have "fabric_says b cfg (k(75 := zk, 76 := sy, 93 := ml)) ld"
    using says v by (simp add: fabric_says_def armSels_tl)
  moreover have "idle c'" using c' p by (simp add: idle_def)
  ultimately show ?thesis using w by blast
qed

section \<open>An arm that is refused\<close>

lemma no_start_map [simp]: "s \<noteq> 1 \<Longrightarrow> no_start (map (\<lambda>v. (s, f v)) vs)"
  by (induction vs) simp_all

lemma no_start_elems [simp]: "no_start (seq_elem_regs i es)"
  by (induction es arbitrary: i) simp_all

lemma no_start_zone_loop: "no_start rs \<Longrightarrow> length ws + i \<le> 4 \<Longrightarrow> no_start (snd (zone_loop i ws ctl rs))"
proof (induction ws arbitrary: i ctl rs)
  case (Cons w ws)
  have "i < 4" using Cons.prems by simp
  then have "i = 0 \<or> i = 1 \<or> i = 2 \<or> i = 3" by linarith
  then have "zone_starts ! i \<noteq> 1" "zone_ends ! i \<noteq> 1" by (auto simp: zone_starts_def zone_ends_def)
  then show ?case using Cons by simp
qed simp

lemma no_start_blocks [simp]:
  "no_start (packet_regs p1)" "no_start (manchester_regs p2)" "no_start (spi_regs v p3)" "no_start (i2c_regs v p4)" "no_start (sent_regs p5)"
  "no_start (usbls_regs p6)" "no_start (mil_regs p7)" "no_start (uart_regs p8)" "no_start (SymbolRegisters p9)" "no_start (qual_regs p10)"
  "no_start (table_regs tab)"
  by (simp_all add: packet_regs_def manchester_regs_def spi_regs_def i2c_regs_def sent_regs_def usbls_regs_def mil_regs_def uart_regs_def
      SymbolRegisters_def qual_regs_def table_regs_def regSampleDelay_def)

lemma no_start_zones: "length (zn_Zones z) = 4 \<Longrightarrow> no_start (zone_regs z)"
  using no_start_zone_loop [of "[(84, zn_Wait z), (85, zn_Bucket z - 1)]" "zn_Zones z" 0 0]
  by (cases "zone_loop 0 (zn_Zones z) 0 [(84, zn_Wait z), (85, zn_Bucket z - 1)]") (simp add: zone_regs_def)

lemma quiet_missing [intro!]: "quiet (missing e w)"
  unfolding missing_def by blast

lemma quiet_capability [intro!]: "quiet (capability_of r s)"
  unfolding capability_of_def by blast

lemma quiet_split [intro!]: "(\<And>x y. quiet (f x y)) \<Longrightarrow> quiet (case p of (x, y) \<Rightarrow> f x y)"
  by (cases p) simp

lemma quiet_update: "(\<And>c. cp_trace (f c) = cp_trace c \<and> cp_pending (f c) = cp_pending c) \<Longrightarrow> quiet (update f)"
  by (simp add: quiet_def update_def starts_def)

lemma quiet_write_list [intro!]: "no_start rs \<Longrightarrow> quiet (write_list rs)"
proof (induction rs)
  case (Cons r rs)
  then show ?case by (cases r) auto
qed auto

lemma quiet_configs:
  "quiet (configurePacket p1)" "quiet (configureManchester p2)" "quiet (configureSPI r p3)" "quiet (configureI2C r p4)" "quiet (configureSENT r p5)"
  "quiet (configureUSBLS r p6)" "quiet (configureMIL1553 r p7)" "quiet (configureUART r p8)" "quiet (configureQualifier r p10)"
  "quiet (configureSequence p11)"
  unfolding configurePacket_def packetProtocols_def configureManchester_def manchesterCapability_def configureSPI_def configureI2C_def
    configureSENT_def configureUSBLS_def configureMIL1553_def configureUART_def configureQualifier_def configureSequence_def sequenceCapability_def
  by (intro quiet_andThen quiet_if quiet_read quiet_ret quiet_missing quiet_fail quiet_capability quiet_writeMany quiet_write quiet_write_list
      no_start_blocks no_start_elems; simp)+

lemma quiet_symbol: "quiet (configureSymbol r p)"
  unfolding configureSymbol_def
  by (intro quiet_andThen quiet_if quiet_read quiet_ret quiet_missing quiet_capability quiet_writeMany quiet_write quiet_getc quiet_split quiet_update
      no_start_blocks; simp)

lemma quiet_zones: "length (zn_Zones z) = 4 \<Longrightarrow> quiet (configureZones r z)"
  unfolding configureZones_def zone_kinds_def
  by (intro quiet_andThen quiet_if quiet_read quiet_ret quiet_missing quiet_writeMany quiet_write no_start_zones; simp)

lemma quiet_arm_blocks: "length (zn_Zones (ar_Zones cfg)) = 4 \<Longrightarrow> quiet (arm_blocks r cfg)"
  unfolding arm_blocks_def by (intro quiet_andThen quiet_configs quiet_symbol quiet_zones)

lemma quiet_geometry: "quiet (arm_geometry r cfg)"
  unfolding arm_geometry_def write32_def
  by (intro quiet_andThen quiet_if quiet_ret quiet_write; simp add: regSecondLevel_def)

lemma quiet_events: "quiet (enableDecodedEvents on)"
  unfolding enableDecodedEvents_def
  by (intro quiet_andThen quiet_if quiet_read quiet_ret quiet_fail quiet_writeMany quiet_readMany; simp)

text \<open>A refusal: an error that is not the bus's, the deadline's or the fabric's answer to the command.\<close>

definition refusal :: "cap_error \<Rightarrow> bool" where
  "refusal e \<longleftrightarrow> e \<noteq> BusError \<and> e \<noteq> Cancelled \<and> (\<forall>x y. e \<noteq> CommandRejected x y)"

definition bus_errors :: "'a cap \<Rightarrow> bool" where
  "bus_errors m \<longleftrightarrow> (\<forall>b c e c'. m b c = (Inl e, c') \<longrightarrow> \<not> refusal e)"

lemma bus_errors_andThen: "bus_errors m \<Longrightarrow> (\<And>x. bus_errors (f x)) \<Longrightarrow> bus_errors (andThen m f)"
  unfolding bus_errors_def andThen_def by (auto split: prod.splits sum.splits)

lemma bus_errors_ret: "bus_errors (ret x)" "\<not> refusal e \<Longrightarrow> bus_errors (fail e)"
  by (simp_all add: bus_errors_def ret_def fail_def)

lemma bus_errors_raw: "bus_errors (RawWrite s v)" "bus_errors (bus_read s)"
  by (auto simp: bus_errors_def RawWrite_def bus_read_def refusal_def split: option.splits)

lemma bus_errors_send: "bus_errors (sendMany rs)"
proof (induction rs)
  case (Cons r rs)
  then show ?case by (cases r) (simp add: bus_errors_andThen bus_errors_raw)
qed (simp add: bus_errors_ret)

lemma bus_errors_flush: "bus_errors flushWrites"
  unfolding bus_errors_def
proof (intro allI impI)
  fix b c e c'
  assume "flushWrites b c = (Inl e, c')"
  then obtain c1 where "sendMany (cp_pending c) b c = (Inl e, c1)" by (auto simp: flushWrites_def split: if_splits prod.splits)
  then show "\<not> refusal e" using bus_errors_send unfolding bus_errors_def by blast
qed

lemma bus_errors_read: "bus_errors (read_reg s)"
proof -
  have "bus_errors (do1 flushWrites (bus_read s))" by (intro bus_errors_andThen bus_errors_flush bus_errors_raw)
  then show ?thesis unfolding bus_errors_def read_reg_def by (auto split: option.splits)
qed

lemma bus_errors_write: "bus_errors (write_reg s v)"
  using bus_errors_raw(1) [of s v] unfolding bus_errors_def write_reg_def by (auto split: if_splits)

lemma bus_errors_command: "bus_errors (commandIn n op)"
proof -
  have "bus_errors (ack_loop n op ack)" for n ack
  proof (induction n)
    case 0
    show ?case by (simp add: bus_errors_ret refusal_def)
  next
    case (Suc n)
    then show ?case by (auto intro!: bus_errors_andThen bus_errors_read bus_errors_ret simp: refusal_def)
  qed
  then show ?thesis
    unfolding commandIn_def by (auto intro!: bus_errors_andThen bus_errors_read bus_errors_write bus_errors_ret simp: refusal_def)
qed

definition safe :: "unit cap \<Rightarrow> bool" where
  "safe m \<longleftrightarrow> (\<forall>b c e c'. no_start (cp_pending c) \<longrightarrow> m b c = (Inl e, c') \<longrightarrow> refusal e \<longrightarrow>
     no_start (cp_pending c') \<and> starts c' = starts c)"

lemma safe_quiet: "quiet m \<Longrightarrow> safe m"
  unfolding safe_def using quietD by blast

lemma safe_andThen:
  assumes "quiet m" and "\<And>x. safe (f x)"
  shows "safe (andThen m f)"
  unfolding safe_def
proof (intro allI impI)
  fix b c e c'
  assume p: "no_start (cp_pending c)" and m: "andThen m f b c = (Inl e, c')" and r: "refusal e"
  obtain x c1 where 1: "m b c = (x, c1)" by fastforce
  note q = quietD [OF assms(1) p 1]
  show "no_start (cp_pending c') \<and> starts c' = starts c"
  proof (cases x)
    case (Inl e1)
    then show ?thesis using m 1 q by (simp add: andThen_def)
  next
    case (Inr y)
    then have "f y b c1 = (Inl e, c')" using m 1 by (simp add: andThen_def)
    then show ?thesis using assms(2) [of y] q r unfolding safe_def by fastforce
  qed
qed

lemma safe_if: "(P \<Longrightarrow> safe m) \<Longrightarrow> (\<not> P \<Longrightarrow> safe m') \<Longrightarrow> safe (if P then m else m')"
  by simp

lemma safe_fail: "safe (fail e)"
  by (simp add: safe_def fail_def)

lemma safe_start: "safe (arm_start n cfg)"
  unfolding arm_start_def
proof (intro safe_andThen quiet_if quiet_andThen quiet_events quiet_ret)
  show "safe (\<lambda>b c. case commandIn n 1 b c of
      (Inl e, c) \<Rightarrow> (Inl e, if ar_DecodedEvents cfg then snd (write_reg 57 0 b c) else c) | (Inr _, c) \<Rightarrow> (Inr (), c))"
    unfolding safe_def using bus_errors_command [of n 1] unfolding bus_errors_def by (auto split: prod.splits sum.splits)
qed

lemma safe_body: "length (zn_Zones (ar_Zones cfg)) = 4 \<Longrightarrow> safe (arm_body n cfg)"
  unfolding arm_body_def rawOnly_def
  by (intro safe_andThen safe_if safe_fail safe_start quiet_getc quiet_read quiet_if quiet_ret quiet_andThen quiet_capability
      quiet_arm_blocks quiet_geometry quiet_write; simp)

lemma Arm_refused:
  assumes z: "length (zn_Zones (ar_Zones cfg)) = 4" and i: "idle c"
    and m: "Arm n cfg b c = (Inl e, c')" and r: "refusal e"
  shows "starts c' = starts c \<and> (Check cfg \<noteq> None \<longrightarrow> c' = c)"
proof (cases "Check cfg")
  case (Some e1)
  then show ?thesis using m by (simp add: Arm_def fail_def)
next
  case None
  let ?on = "\<lambda>vs c. c\<lparr>cp_armRead := vs, cp_armReady := True, cp_queueWrites := True\<rparr>"
  let ?off = "\<lambda>c. c\<lparr>cp_armReady := False, cp_queueWrites := False\<rparr>"
  have p: "no_start (cp_pending c)" using i by (simp add: idle_def)
  have n: "n \<noteq> 0" using None m r by (cases "n = 0") (simp_all add: Arm_def fail_def refusal_def)
  obtain x c1 where 1: "readMany armSels b c = (x, c1)" by fastforce
  note q1 = quietD [OF quiet_readMany p 1]
  have body: "andThen (readMany armSels) (\<lambda>vs. do1 (update (?on vs)) (\<lambda>b c. case arm_body n cfg b c of (r, c) \<Rightarrow>
      (case flushWrites b (?off c) of (Inl e, c) \<Rightarrow> (if r = Inr () then Inl e else r, c) | (Inr _, c) \<Rightarrow> (r, c)))) b c = (Inl e, c')"
    using None n m by (simp add: Arm_def)
  show ?thesis
  proof (cases x)
    case (Inl e1)
    then show ?thesis using body 1 q1 None by (simp add: andThen_def)
  next
    case (Inr vs)
    obtain r2 c2 where 2: "arm_body n cfg b (?on vs c1) = (r2, c2)" by fastforce
    obtain ff c3 where 3: "flushWrites b (?off c2) = (ff, c3)" by fastforce
    have res: "(case ff of Inl e \<Rightarrow> (if r2 = Inr () then Inl e else r2, c3) | Inr _ \<Rightarrow> (r2, c3)) = (Inl e, c')"
      using body 1 Inr 2 3 by (cases ff) (simp_all add: andThen_def update_def)
    then have c3: "c' = c3" by (auto split: sum.splits)
    have "\<not> refusal e1" if "ff = Inl e1" for e1 using bus_errors_flush 3 that unfolding bus_errors_def by blast
    then have r2: "r2 = Inl e" using res r by (auto split: sum.splits if_splits)
    have "no_start (cp_pending c2) \<and> starts c2 = starts (?on vs c1)"
      using safe_body [OF z, of n, unfolded safe_def, rule_format, of "?on vs c1" b e c2] q1 2 r2 r by simp
    then have p2: "no_start (cp_pending (?off c2))" and s2: "starts (?off c2) = starts c" using q1 by (simp_all add: starts_def)
    show ?thesis using quietD [OF quiet_flush p2 3] s2 c3 None by simp
  qed
qed

section \<open>The arm's properties\<close>

text \<open>
  C20: An arm that succeeds is one register program. From an idle capture, whatever the fabric answers, the
  writes that reached the bus are exactly: the event stream stopped, when there is one; each block that
  the fabric announces, in order, with its configuration's registers and its control word last, or
  its control word zeroed when the configuration does not enable it; the decimation, record geometry,
  source, level and, for a two-line receiver, the second level; the event stream started, when asked for;
  and then, last and only then, the run command. Nothing stays queued.
\<close>

theorem Arm_is_its_program:
  assumes "idle c" and "Arm n cfg b c = (Inr (), c')"
  shows "\<exists>k ld. fabric_says b cfg k ld \<and> idle c'
    \<and> bus_writes (cp_trace c') = bus_writes (cp_trace c) @ arm_program k (table_held c ld (ar_Symbol cfg)) cfg @ [(1, 1)]"
  using Arm_Inr [OF assms] by blast

text \<open>
  C21: An arm that is refused starts nothing. When the configuration breaks a rule, asks for a block or
  transport the fabric does not have, a converter pair, decimation or UART the image does not take, or
  the last acquisition still runs, no command is written to the fabric; and when it is the
  configuration's own rules, the bus is not touched at all.
\<close>

theorem refused_arm_starts_nothing:
  assumes "length (zn_Zones (ar_Zones cfg)) = 4" and "idle c" and "Arm n cfg b c = (Inl e, c')" and "refusal e"
  shows "starts c' = starts c \<and> (Check cfg \<noteq> None \<longrightarrow> c' = c)"
  using Arm_refused [OF assms] .

text \<open>An edge-triggered acquisition, and a fabric of revision 10 with no trigger block.\<close>

definition edge_fabric :: fabric where
  "edge_fabric = \<lparr>fb_read = (\<lambda>tr s. Some (if s = 13 then 10 else if s = 1 then (if (1, 1) \<in> set (bus_writes tr) then 516 else 4) else 0)),
     fb_write = (\<lambda>tr s v. True)\<rparr>"

lemma Arm_edge: "\<exists>c'. Arm 10 edge_cfg edge_fabric fresh_capture = (Inr (), c')"
proof -
  have "fst (Arm 10 edge_cfg edge_fabric fresh_capture) = Inr ()" by code_simp
  then show ?thesis by (metis prod.collapse)
qed

lemma Arm_is_its_program_witness:
  "\<exists>c' k ld. Arm 10 edge_cfg edge_fabric fresh_capture = (Inr (), c') \<and> fabric_says edge_fabric edge_cfg k ld
     \<and> bus_writes (cp_trace c') = arm_program k (table_held fresh_capture ld (ar_Symbol edge_cfg)) edge_cfg @ [(1, 1)]"
proof -
  obtain c' where a: "Arm 10 edge_cfg edge_fabric fresh_capture = (Inr (), c')" using Arm_edge by blast
  have "idle fresh_capture" by (simp add: idle_def fresh_capture_def)
  from Arm_is_its_program [OF this a] show ?thesis using a by (auto simp: fresh_capture_def)
qed

lemma refused_arm_starts_nothing_witness:
  "\<exists>c'. Arm 10 (edge_cfg\<lparr>ar_DecodedEvents := True, ar_UART := ua_sample\<rparr>) edge_fabric fresh_capture
      = (Inl (MissingBlock ''event transport''), c') \<and> starts c' = []"
proof -
  let ?cfg = "edge_cfg\<lparr>ar_DecodedEvents := True, ar_UART := ua_sample\<rparr>"
  have "fst (Arm 10 ?cfg edge_fabric fresh_capture) = Inl (MissingBlock ''event transport'')" by code_simp
  then obtain c' where a: "Arm 10 ?cfg edge_fabric fresh_capture = (Inl (MissingBlock ''event transport''), c')"
    by (metis prod.collapse)
  have "idle fresh_capture" "length (zn_Zones (ar_Zones ?cfg)) = 4" by (simp_all add: idle_def fresh_capture_def edge_cfg_def)
  then have "starts c' = starts fresh_capture" using refused_arm_starts_nothing [OF _ _ a] by (simp add: refusal_def)
  then show ?thesis using a by (simp add: starts_def fresh_capture_def)
qed

end
