(* ===== verification/TriggerReadback.thy ===== *)
theory TriggerReadback
  imports ArmConfig
begin

text \<open>
  The trigger blocks' register layouts: what a block's registers say, as the fabric reads them, and that
  the registers a configuration is written to say the configuration back.
\<close>

section \<open>Fields\<close>

text \<open>\<open>regfile\<close>: the registers after the writes; \<open>fld\<close>: \<open>m\<close> bits of a control word from bit \<open>sh\<close>.\<close>

definition regfile :: "(nat \<times> u16) list \<Rightarrow> nat \<Rightarrow> u16" where
  "regfile rs s = (case map_of (rev rs) s of Some v \<Rightarrow> v | None \<Rightarrow> 0)"

definition fld :: "u16 \<Rightarrow> nat \<Rightarrow> nat \<Rightarrow> byte" where
  "fld v sh m = ucast (take_bit m (drop_bit sh v))"

definition on :: "u16 \<Rightarrow> nat \<Rightarrow> bool" where
  "on v k \<longleftrightarrow> fld v k 1 \<noteq> 0"

definition u64_of :: "u16 \<Rightarrow> u16 \<Rightarrow> u16 \<Rightarrow> u16 \<Rightarrow> u64" where
  "u64_of a b c d = ucast a OR push_bit 16 (ucast b) OR push_bit 32 (ucast c) OR push_bit 48 (ucast d)"

lemma bit_small: "unat (x :: 'a :: len word) < 2 ^ m \<Longrightarrow> m \<le> k \<Longrightarrow> \<not> bit x k"
proof -
  assume "unat x < 2 ^ m" "m \<le> k"
  then have "unat x < 2 ^ k" by (meson less_le_trans one_le_numeral power_increasing)
  then have "drop_bit k (unat x) = 0" by (simp add: drop_bit_eq_div)
  then have "\<not> bit (unat x) k" by (simp add: bit_iff_odd_drop_bit)
  then show "\<not> bit x k" by (simp add: bit_unsigned_iff)
qed

lemma bit_fld: "bit (fld v sh m) k \<longleftrightarrow> k < 8 \<and> k < m \<and> bit v (sh + k)"
  by (auto simp: fld_def bit_simps)

lemma fld_or: "fld (a OR b) sh m = fld a sh m OR fld b sh m"
  by (rule bit_word_eqI) (auto simp: bit_fld bit_or_iff)

lemma fld_at: "unat x < 2 ^ w \<Longrightarrow> w \<le> m \<Longrightarrow> sh + w \<le> 16 \<Longrightarrow> fld (push_bit sh (ucast x)) sh m = (x :: byte)"
proof (rule bit_word_eqI)
  fix k assume a: "unat x < 2 ^ w" "w \<le> m" "sh + w \<le> 16" "k < LENGTH(8)"
  have "bit x k \<Longrightarrow> k < w" using bit_small [OF a(1)] not_less by blast
  then show "bit (fld (push_bit sh (ucast x)) sh m) k = bit x k"
    using a by (auto simp: bit_fld bit_push_bit_iff bit_unsigned_iff)
qed

lemma fld_off:
  assumes "unat (x :: byte) < 2 ^ w" and "j + w \<le> sh \<or> sh + m \<le> j"
  shows "fld (push_bit j (ucast x)) sh m = 0"
proof (rule bit_word_eqI)
  fix k
  have "bit x n \<Longrightarrow> n < w" for n using bit_small [OF assms(1)] not_less by blast
  then have "\<not> bit x (sh + k - j)" if "j \<le> sh + k" "k < m" using that assms(2) by fastforce
  then show "bit (fld (push_bit j (ucast x)) sh m) k = bit (0 :: byte) k"
    by (auto simp: bit_fld bit_push_bit_iff bit_unsigned_iff)
qed

lemma fld_flag: "fld (flag x v) sh m = (if x then fld v sh m else 0)"
  by (simp add: flag_def fld_def)

lemma bit_q16: "bit (q16 v j) k \<longleftrightarrow> k < 16 \<and> bit v (16 * j + k)"
  unfolding q16_def mask16 by (auto simp: bit_simps)

lemma u64_back [simp]: "u64_of (q16 v 0) (q16 v (Suc 0)) (q16 v 2) (q16 v 3) = v"
proof (rule bit_word_eqI)
  fix n assume "n < LENGTH(64)"
  then have n: "n < 64" by simp
  consider "n < 16" | "16 \<le> n" "n < 32" | "32 \<le> n" "n < 48" | "48 \<le> n" by linarith
  then show "bit (u64_of (q16 v 0) (q16 v (Suc 0)) (q16 v 2) (q16 v 3)) n = bit v n"
    using n by cases (auto simp: u64_of_def bit_or_iff bit_push_bit_iff bit_unsigned_iff bit_q16)
qed

section \<open>The blocks\<close>

lemmas fields = fld_or fld_at fld_off fld_flag on_def

definition packet_of :: "(nat \<Rightarrow> u16) \<Rightarrow> packet_cfg" where
  "packet_of r = \<lparr>pk_Enabled = on (r 109) 0, pk_Protocol = fld (r 109) 8 8, pk_Channel = fld (r 109) 1 1, pk_Inverted = on (r 109) 2,
     pk_Ticks = u32_of (r 110) (r 111), pk_Aux = u32_of (r 112) (r 113), pk_Pattern = u64_of (r 114) (r 115) (r 116) (r 117),
     pk_Length = fld (r 109) 3 5\<rparr>"

lemma fld_1 [simp]: "fld 1 0 1 = 1" "0 < sh \<Longrightarrow> fld 1 sh m = 0" "fld 0 sh m = 0"
  by (rule bit_word_eqI; auto simp: bit_fld bit_1_iff)+

lemma fld_pow: "j < 16 \<Longrightarrow> fld (2 ^ j) sh m = (if sh \<le> j \<and> j < sh + m \<and> j < sh + 8 then 2 ^ (j - sh) else 0)"
  by (rule bit_word_eqI) (auto simp: bit_fld bit_exp_iff)

lemma fld_consts:
  "fld 4 sh m = (if sh \<le> 2 \<and> 2 < sh + m \<and> 2 < sh + 8 then 2 ^ (2 - sh) else 0)"
  "fld 8 sh m = (if sh \<le> 3 \<and> 3 < sh + m \<and> 3 < sh + 8 then 2 ^ (3 - sh) else 0)"
  "fld 16 sh m = (if sh \<le> 4 \<and> 4 < sh + m \<and> 4 < sh + 8 then 2 ^ (4 - sh) else 0)"
  "fld 32 sh m = (if sh \<le> 5 \<and> 5 < sh + m \<and> 5 < sh + 8 then 2 ^ (5 - sh) else 0)"
  using fld_pow [of 2 sh m] fld_pow [of 3 sh m] fld_pow [of 4 sh m] fld_pow [of 5 sh m] by simp_all

lemma packet_back:
  assumes e: "pk_Enabled p" and ch: "unat (pk_Channel p) < 2 ^ 1" and len: "unat (pk_Length p) < 2 ^ 4" and pr: "unat (pk_Protocol p) < 2 ^ 8"
  shows "packet_of (regfile (packet_regs p)) = p"
proof -
  note f = fld_or fld_flag fld_consts fld_at [OF ch] fld_off [OF ch] fld_at [OF len] fld_off [OF len] fld_at [OF pr] fld_off [OF pr]
  have "fld (packet_control p) 8 8 = pk_Protocol p" "fld (packet_control p) 1 1 = pk_Channel p" "fld (packet_control p) 3 5 = pk_Length p"
    "on (packet_control p) 0" "on (packet_control p) 2 = pk_Inverted p"
    by (simp_all add: packet_control_def f on_def del: push_bit_Suc One_nat_def)
  then show ?thesis using e by (cases p) (simp add: packet_of_def regfile_def packet_regs_def)
qed

lemma fld_byte [simp]: "fld (ucast x) 0 8 = (x :: byte)"
  by (rule bit_word_eqI) (auto simp: bit_fld bit_unsigned_iff)

definition manchester_of :: "(nat \<Rightarrow> u16) \<Rightarrow> manchester_cfg" where
  "manchester_of r = \<lparr>mc_Enabled = on (r 102) 0, mc_Channel = fld (r 102) 1 1, mc_Inverted = on (r 102) 2, mc_IEEE = on (r 102) 3, mc_MSB = on (r 102) 4, mc_Bits = fld (r 102) 5 5, mc_BitTicks = u32_of (r 103) (r 104), mc_Pattern = u64_of (r 105) (r 106) (r 107) (r 108), mc_Length = fld (r 102) 10 3\<rparr>"

lemma manchester_back:
  assumes e: "mc_Enabled p" and a0: "unat (mc_Channel p) < 2 ^ 1" and a1: "unat (mc_Bits p) < 2 ^ 5" and a2: "unat (mc_Length p) < 2 ^ 3"
  shows "manchester_of (regfile (manchester_regs p)) = p"
proof -
  note f = fld_or fld_flag fld_consts fld_at [OF a0] fld_off [OF a0] fld_at [OF a1] fld_off [OF a1] fld_at [OF a2] fld_off [OF a2]
  have "fld (manchester_control p) 1 1 = mc_Channel p" "fld (manchester_control p) 5 5 = mc_Bits p" "fld (manchester_control p) 10 3 = mc_Length p"
    "on (manchester_control p) 0" "on (manchester_control p) 2 = mc_Inverted p" "on (manchester_control p) 3 = mc_IEEE p" "on (manchester_control p) 4 = mc_MSB p"
    by (simp_all add: manchester_control_def f on_def del: push_bit_Suc One_nat_def)
  then show ?thesis using e by (cases p) (simp add: manchester_of_def regfile_def manchester_regs_def)
qed

definition sent_of :: "(nat \<Rightarrow> u16) \<Rightarrow> sent_cfg" where
  "sent_of r = \<lparr>se_Enabled = on (r 77) 0, se_Channel = fld (r 77) 1 1, se_Inverted = on (r 77) 2, se_PausePulse = on (r 77) 3, se_TickTicks = u32_of (r 78) (r 79), se_Nibbles = fld (r 82) 0 8, se_Pattern = u32_of (r 80) (r 81), se_Length = fld (r 77) 4 3\<rparr>"

lemma sent_back:
  assumes e: "se_Enabled p" and a0: "unat (se_Channel p) < 2 ^ 1" and a1: "unat (se_Length p) < 2 ^ 3"
  shows "sent_of (regfile (sent_regs p)) = p"
proof -
  note f = fld_or fld_flag fld_consts fld_at [OF a0] fld_off [OF a0] fld_at [OF a1] fld_off [OF a1]
  have "fld (sent_control p) 1 1 = se_Channel p" "fld (sent_control p) 4 3 = se_Length p"
    "on (sent_control p) 0" "on (sent_control p) 2 = se_Inverted p" "on (sent_control p) 3 = se_PausePulse p"
    by (simp_all add: sent_control_def f on_def del: push_bit_Suc One_nat_def)
  then show ?thesis using e by (cases p) (simp add: sent_of_def regfile_def sent_regs_def)
qed

definition usbls_of :: "(nat \<Rightarrow> u16) \<Rightarrow> usbls_cfg" where
  "usbls_of r = \<lparr>ub_Enabled = on (r 97) 0, ub_Channel = fld (r 97) 1 1, ub_Inverted = on (r 97) 2, ub_BitTicksQ8 = u32_of (r 98) (r 99), ub_Pattern = u32_of (r 100) (r 101), ub_Length = fld (r 97) 3 3\<rparr>"

lemma usbls_back:
  assumes e: "ub_Enabled p" and a0: "unat (ub_Channel p) < 2 ^ 1" and a1: "unat (ub_Length p) < 2 ^ 3"
  shows "usbls_of (regfile (usbls_regs p)) = p"
proof -
  note f = fld_or fld_flag fld_consts fld_at [OF a0] fld_off [OF a0] fld_at [OF a1] fld_off [OF a1]
  have "fld (usbls_control p) 1 1 = ub_Channel p" "fld (usbls_control p) 3 3 = ub_Length p"
    "on (usbls_control p) 0" "on (usbls_control p) 2 = ub_Inverted p"
    by (simp_all add: usbls_control_def f on_def del: push_bit_Suc One_nat_def)
  then show ?thesis using e by (cases p) (simp add: usbls_of_def regfile_def usbls_regs_def)
qed

definition mil_of :: "(nat \<Rightarrow> u16) \<Rightarrow> mil_cfg" where
  "mil_of r = \<lparr>ml_Enabled = on (r 93) 0, ml_Channel = fld (r 93) 1 1, ml_Inverted = on (r 93) 2, ml_BitTicks = u32_of (r 94) (r 95), ml_Pattern = r 96, ml_MatchAny = on (r 93) 3\<rparr>"

lemma mil_back:
  assumes e: "ml_Enabled p" and a0: "unat (ml_Channel p) < 2 ^ 1"
  shows "mil_of (regfile (mil_regs p)) = p"
proof -
  note f = fld_or fld_flag fld_consts fld_at [OF a0] fld_off [OF a0]
  have "fld (mil_control p) 1 1 = ml_Channel p"
    "on (mil_control p) 0" "on (mil_control p) 2 = ml_Inverted p" "on (mil_control p) 3 = ml_MatchAny p"
    by (simp_all add: mil_control_def f on_def del: push_bit_Suc One_nat_def)
  then show ?thesis using e by (cases p) (simp add: mil_of_def regfile_def mil_regs_def)
qed

definition spi_of :: "(nat \<Rightarrow> u16) \<Rightarrow> spi_cfg" where
  "spi_of r = \<lparr>sp_Enabled = on (r 64) 0, sp_ClockChannel = fld (r 64) 1 1, sp_Inverted = on (r 64) 2, sp_CPOL = on (r 64) 3, sp_CPHA = on (r 64) 4, sp_MSB = on (r 64) 5, sp_GapTicks = u32_of (r 65) (r 66), sp_Pattern = u32_of (r 67) (r 68), sp_Length = fld (r 64) 6 3, sp_Delay = fld (r regSampleDelay) 0 8\<rparr>"

lemma spi_back:
  assumes e: "sp_Enabled p" and a0: "unat (sp_ClockChannel p) < 2 ^ 1" and a1: "unat (sp_Length p) < 2 ^ 3"
  shows "spi_of (regfile (spi_regs v p)) = (if v = spiSamples then p else p\<lparr>sp_Delay := 0\<rparr>)"
proof -
  note f = fld_or fld_flag fld_consts fld_at [OF a0] fld_off [OF a0] fld_at [OF a1] fld_off [OF a1]
  have "fld (spi_control p) 1 1 = sp_ClockChannel p" "fld (spi_control p) 6 3 = sp_Length p"
    "on (spi_control p) 0" "on (spi_control p) 2 = sp_Inverted p" "on (spi_control p) 3 = sp_CPOL p" "on (spi_control p) 4 = sp_CPHA p" "on (spi_control p) 5 = sp_MSB p"
    by (simp_all add: spi_control_def f on_def del: push_bit_Suc One_nat_def)
  then show ?thesis using e by (cases p; cases "v = spiSamples") (simp_all add: spi_of_def regfile_def spi_regs_def regSampleDelay_def)
qed

definition i2c_of :: "bool \<Rightarrow> (nat \<Rightarrow> u16) \<Rightarrow> i2c_cfg" where
  "i2c_of samples r = \<lparr>ic_Enabled = on (r 53) 0, ic_ClockChannel = fld (r 53) 1 1, ic_Inverted = on (r 53) 2,
     ic_Address = (if on (r 53) 5 then -1 else uint (r 54)), ic_Direction = fld (r 53) 3 2,
     ic_Pattern = u32_of (r 55) (r 56), ic_Length = fld (r 53) 6 3, ic_Samples = samples, ic_Delay = fld (r regSampleDelay) 0 8\<rparr>"

lemma address_back: "0 \<le> a \<Longrightarrow> a \<le> 127 \<Longrightarrow> uint (word_of_int (a AND 127) :: u16) = a"
proof -
  assume a: "0 \<le> a" "a \<le> 127"
  have m: "(127 :: int) = mask 7" by (simp add: mask_eq_exp_minus_1)
  have "a AND 127 = take_bit 7 a" unfolding m by (simp only: take_bit_eq_mask)
  also have "\<dots> = a" using a by (simp add: take_bit_int_eq_self)
  finally show ?thesis using a by (simp add: uint_word_of_int)
qed

lemma i2c_back:
  assumes e: "ic_Enabled p" and a0: "unat (ic_ClockChannel p) < 2 ^ 1" and a1: "unat (ic_Direction p) < 2 ^ 2" and a2: "unat (ic_Length p) < 2 ^ 3"
    and ad: "-1 \<le> ic_Address p" "ic_Address p \<le> 127"
  shows "i2c_of (ic_Samples p) (regfile (i2c_regs v p)) = (if v = i2cSamples then p else p\<lparr>ic_Delay := 0\<rparr>)"
proof -
  note f = fld_or fld_flag fld_consts fld_at [OF a0] fld_off [OF a0] fld_at [OF a1] fld_off [OF a1] fld_at [OF a2] fld_off [OF a2]
  have c: "fld (i2c_control p) 1 1 = ic_ClockChannel p" "fld (i2c_control p) 3 2 = ic_Direction p" "fld (i2c_control p) 6 3 = ic_Length p"
    "on (i2c_control p) 0" "on (i2c_control p) 2 = ic_Inverted p" "on (i2c_control p) 5 \<longleftrightarrow> ic_Address p < 0"
    by (simp_all add: i2c_control_def f on_def del: push_bit_Suc One_nat_def)
  have ai: "(if on (i2c_control p) 5 then -1 else uint (word_of_int (ic_Address p AND 127) :: u16)) = ic_Address p"
    using ad address_back [of "ic_Address p"] c(6) by simp
  have r: "regfile (i2c_regs v p) 53 = i2c_control p" "regfile (i2c_regs v p) 54 = word_of_int (ic_Address p AND 127)"
    "u32_of (regfile (i2c_regs v p) 55) (regfile (i2c_regs v p) 56) = ic_Pattern p"
    "fld (regfile (i2c_regs v p) regSampleDelay) 0 8 = (if v = i2cSamples then ic_Delay p else 0)"
    using e by (cases "v = i2cSamples"; simp add: regfile_def i2c_regs_def regSampleDelay_def)+
  show ?thesis unfolding i2c_of_def r ai c(1,2,3) using e c(4,5) by (cases p) simp
qed

lemma small_field: "x \<le> 1 \<Longrightarrow> unat x < 2 ^ 1" "x \<le> 2 \<Longrightarrow> unat x < 2 ^ 2" "x \<le> 4 \<Longrightarrow> unat x < 2 ^ 3" "x \<le> 8 \<Longrightarrow> unat x < 2 ^ 4"
  "x \<le> 16 \<Longrightarrow> unat (x :: byte) < 2 ^ 5"
  by (simp_all add: word_le_nat_alt)

lemma not_more: "\<not> y < x \<Longrightarrow> x \<le> (y :: byte)"
  by simp

text \<open>
  The registers say the configuration. For a configuration that passes \<open>Check\<close>, what the fabric finds
  in the registers an enabled block is given (its control word's fields, its words read together) is the
  block's configuration, field for field: no field overlaps another, is cut, or lands elsewhere. The
  sampling delay is there only in an image whose receiver works on the samples.
\<close>

theorem trigger_registers_read_back:
  assumes "Check cfg = None"
  shows "(pk_Enabled (ar_Packet cfg) \<longrightarrow> packet_of (regfile (packet_regs (ar_Packet cfg))) = ar_Packet cfg)
    \<and> (mc_Enabled (ar_Manchester cfg) \<longrightarrow> manchester_of (regfile (manchester_regs (ar_Manchester cfg))) = ar_Manchester cfg)
    \<and> (se_Enabled (ar_SENT cfg) \<longrightarrow> sent_of (regfile (sent_regs (ar_SENT cfg))) = ar_SENT cfg)
    \<and> (ub_Enabled (ar_USBLS cfg) \<longrightarrow> usbls_of (regfile (usbls_regs (ar_USBLS cfg))) = ar_USBLS cfg)
    \<and> (ml_Enabled (ar_MIL1553 cfg) \<longrightarrow> mil_of (regfile (mil_regs (ar_MIL1553 cfg))) = ar_MIL1553 cfg)
    \<and> (sp_Enabled (ar_SPI cfg) \<longrightarrow> spi_of (regfile (spi_regs v (ar_SPI cfg)))
        = (if v = spiSamples then ar_SPI cfg else (ar_SPI cfg)\<lparr>sp_Delay := 0\<rparr>))
    \<and> (ic_Enabled (ar_I2C cfg) \<longrightarrow> i2c_of (ic_Samples (ar_I2C cfg)) (regfile (i2c_regs v (ar_I2C cfg)))
        = (if v = i2cSamples then ar_I2C cfg else (ar_I2C cfg)\<lparr>ic_Delay := 0\<rparr>))"
proof (intro conjI impI)
  note c = assms [unfolded Check_None]
  note small = small_field [OF not_more]
  show "packet_of (regfile (packet_regs (ar_Packet cfg))) = ar_Packet cfg" if e: "pk_Enabled (ar_Packet cfg)"
  proof -
    have v: "packet_valid (ar_Packet cfg)" using c by blast
    have "\<not> pk_Channel (ar_Packet cfg) > 1" "\<not> pk_Length (ar_Packet cfg) > 8"
      using v e by (auto simp: packet_valid_def Let_def split: if_splits)
    then show ?thesis using unsigned_less [of "pk_Protocol (ar_Packet cfg)"] by (intro packet_back [OF e] small) simp_all
  qed
  show "manchester_of (regfile (manchester_regs (ar_Manchester cfg))) = ar_Manchester cfg" if e: "mc_Enabled (ar_Manchester cfg)"
  proof -
    have "manchester_valid (ar_Manchester cfg)" using c by blast
    then show ?thesis using e by (intro manchester_back [OF e] small) (simp_all add: manchester_valid_def)
  qed
  show "sent_of (regfile (sent_regs (ar_SENT cfg))) = ar_SENT cfg" if e: "se_Enabled (ar_SENT cfg)"
  proof -
    have "sent_valid (ar_SENT cfg)" using c by blast
    then show ?thesis using e by (intro sent_back [OF e] small) (simp_all add: sent_valid_def)
  qed
  show "usbls_of (regfile (usbls_regs (ar_USBLS cfg))) = ar_USBLS cfg" if e: "ub_Enabled (ar_USBLS cfg)"
  proof -
    have "usbls_valid (ar_USBLS cfg)" using c by blast
    then show ?thesis using e by (intro usbls_back [OF e] small) (simp_all add: usbls_valid_def)
  qed
  show "mil_of (regfile (mil_regs (ar_MIL1553 cfg))) = ar_MIL1553 cfg" if e: "ml_Enabled (ar_MIL1553 cfg)"
  proof -
    have "mil_valid (ar_MIL1553 cfg)" using c by blast
    then show ?thesis using e by (intro mil_back [OF e] small) (simp_all add: mil_valid_def)
  qed
  show "spi_of (regfile (spi_regs v (ar_SPI cfg))) = (if v = spiSamples then ar_SPI cfg else (ar_SPI cfg)\<lparr>sp_Delay := 0\<rparr>)"
    if e: "sp_Enabled (ar_SPI cfg)"
  proof -
    have "\<not> sp_ClockChannel (ar_SPI cfg) > 1" "\<not> sp_Length (ar_SPI cfg) > 4" using c e by blast+
    then show ?thesis by (intro spi_back [OF e] small)
  qed
  show "i2c_of (ic_Samples (ar_I2C cfg)) (regfile (i2c_regs v (ar_I2C cfg)))
      = (if v = i2cSamples then ar_I2C cfg else (ar_I2C cfg)\<lparr>ic_Delay := 0\<rparr>)" if e: "ic_Enabled (ar_I2C cfg)"
  proof -
    have "\<not> ic_ClockChannel (ar_I2C cfg) > 1" "\<not> ic_Direction (ar_I2C cfg) > 2" "\<not> ic_Length (ar_I2C cfg) > 4"
      "\<not> ic_Address (ar_I2C cfg) < -1" "\<not> ic_Address (ar_I2C cfg) > 127" using c e by blast+
    then show ?thesis by (intro i2c_back [OF e] small) simp_all
  qed
qed

lemma trigger_registers_read_back_witness:
  "\<exists>cfg :: arm_cfg. ml_Enabled (ar_MIL1553 cfg) \<and> mil_of (regfile (mil_regs (ar_MIL1553 cfg))) = ar_MIL1553 cfg"
proof -
  define cfg where "cfg = edge_cfg\<lparr>ar_MIL1553 := \<lparr>ml_Enabled = True, ml_Channel = 1, ml_Inverted = True, ml_BitTicks = 125,
    ml_Pattern = 0x1234, ml_MatchAny = False\<rparr>\<rparr>"
  have "Option.is_none (Check cfg)" unfolding cfg_def by code_simp
  then have "Check cfg = None" by (simp add: Option.is_none_def)
  then have "ml_Enabled (ar_MIL1553 cfg) \<longrightarrow> mil_of (regfile (mil_regs (ar_MIL1553 cfg))) = ar_MIL1553 cfg"
    using trigger_registers_read_back [of cfg] by blast
  moreover have "ml_Enabled (ar_MIL1553 cfg)" by (simp add: cfg_def)
  ultimately show ?thesis by blast
qed

end
