(* ===== verification/SramStatus.thy ===== *)
theory SramStatus
  imports SramBus Complex_Main
begin

text \<open>
  The capture state the fabric reports (\<open>Status\<close>, \<open>Poll\<close> and \<open>sampleTimeline\<close> of
  \<open>app/internal/sramcapture/capture.go\<close>) and the waits and probes on it: \<open>sameFrozen\<close>, \<open>WaitFrozen\<close>,
  \<open>Snapshot\<close>, \<open>RestartEncode\<close>.

  \<open>SampleRateHz\<close>, a float64 in the code, is the rational it stands for: 100 or 500 MHz divided by a power
  of two, which a float64 holds exactly. A metadata returned beside an error is not modelled: no caller
  looks at it.
\<close>

section \<open>Metadata\<close>

record metadata =
  md_HasSampleTimeline :: bool
  md_SampleFirst :: u64
  md_SampleLast :: u64
  md_RecordID :: u32
  md_EventEpoch :: u32
  md_HasRecordIdentity :: bool
  md_Locked :: bool
  md_Ready :: bool
  md_Running :: bool
  md_Frozen :: bool
  md_Triggered :: bool
  md_Prefetched :: bool
  md_Length :: u32
  md_Start :: u32
  md_TriggerIndex :: u32
  md_Position :: u32
  md_Origin :: u32
  md_Revision :: u16
  md_MapID :: u16
  md_SampleRateHz :: rat
  md_Decimation :: u32
  md_SampleBits :: byte
  md_FractionBits :: byte
  md_SamplesPerWord :: byte
  md_Interleaved :: bool
  md_DataFault :: bool
  md_HostTrigger :: bool

definition zero_metadata :: metadata where
  "zero_metadata = \<lparr>md_HasSampleTimeline = False, md_SampleFirst = 0, md_SampleLast = 0, md_RecordID = 0, md_EventEpoch = 0,
     md_HasRecordIdentity = False, md_Locked = False, md_Ready = False, md_Running = False, md_Frozen = False,
     md_Triggered = False, md_Prefetched = False, md_Length = 0, md_Start = 0, md_TriggerIndex = 0, md_Position = 0,
     md_Origin = 0, md_Revision = 0, md_MapID = 0, md_SampleRateHz = 0, md_Decimation = 0, md_SampleBits = 0,
     md_FractionBits = 0, md_SamplesPerWord = 0, md_Interleaved = False, md_DataFault = False, md_HostTrigger = False\<rparr>"

definition has :: "u16 \<Rightarrow> u16 \<Rightarrow> bool" where
  "has s bits \<longleftrightarrow> s AND bits \<noteq> 0"

text \<open>The flags of the status word, as \<open>Status\<close> and \<open>Poll\<close> read them.\<close>

definition set_flags :: "u16 \<Rightarrow> metadata \<Rightarrow> metadata" where
  "set_flags s m = m\<lparr>md_Ready := has s 4, md_Locked := has s 64, md_Running := has s 8, md_Frozen := has s 16,
     md_Triggered := has s 32, md_Prefetched := has s 1024\<rparr>"

definition Poll :: "metadata cap" where
  "Poll = andThen (readMany [1, 13, 19]) (\<lambda>r.
     let m = (set_flags (r ! 0) zero_metadata)\<lparr>md_Revision := r ! 1\<rparr> in
     ret (if md_Revision m \<ge> 6 then m\<lparr>md_DataFault := has (r ! 2) 1, md_Locked := md_Locked m \<and> has (r ! 2) 2\<rparr> else m))"

section \<open>Status\<close>

definition first_read :: "u16 list \<Rightarrow> metadata" where
  "first_read r = (set_flags (r ! 0) zero_metadata)\<lparr>md_Length := u32_of (r ! 1) (r ! 2), md_Start := u32_of (r ! 3) (r ! 4),
     md_TriggerIndex := u32_of (r ! 5) (r ! 6), md_Position := u32_of (r ! 7) (r ! 8), md_Origin := u32_of (r ! 9) (r ! 10),
     md_Revision := r ! 11, md_MapID := r ! 12\<rparr>"

definition read_identity :: "u16 \<Rightarrow> metadata \<Rightarrow> metadata cap" where
  "read_identity capability m = (if capability \<noteq> 0x5201 then ret m else
     andThen (readMany [69, 70, 71, 72]) (\<lambda>v. ret (m\<lparr>md_RecordID := u32_of (v ! 0) (v ! 1), md_EventEpoch := u32_of (v ! 2) (v ! 3),
       md_HasRecordIdentity := True\<rparr>)))"

text \<open>From revision 10 the later registers come in one batch; before, each is read when it is looked at.\<close>

definition read_late :: "metadata \<Rightarrow> (u16 list \<times> metadata) cap" where
  "read_late m = (if md_Revision m \<ge> 10
     then andThen (readMany [73, 15, 19, 28, 29]) (\<lambda>late. andThen (read_identity (late ! 0) m) (\<lambda>m. ret (late, m)))
     else ret (replicate 5 0, m))"

definition late_or_read :: "metadata \<Rightarrow> u16 \<Rightarrow> nat \<Rightarrow> u16 cap" where
  "late_or_read m v reg = (if md_Revision m \<ge> 10 then ret v else read_reg reg)"

definition status_rate :: "u16 list \<Rightarrow> metadata \<Rightarrow> metadata cap" where
  "status_rate late m = (if md_Revision m < 6 then ret m else
     andThen (late_or_read m (late ! 1) 15) (\<lambda>rate. if rate \<noteq> 500 then fail (BadRate rate) else
     andThen (late_or_read m (late ! 2) 19) (\<lambda>flags.
       ret (m\<lparr>md_SampleRateHz := rat_of_nat (unat rate) * 1000000, md_Interleaved := True, md_DataFault := has flags 1,
              md_Locked := md_Locked m \<and> has flags 2\<rparr>))))"

definition with_format :: "u16 \<Rightarrow> metadata \<Rightarrow> metadata" where
  "with_format lg m =
     (let m = m\<lparr>md_Decimation := push_bit (unat lg) 1, md_SampleRateHz := md_SampleRateHz m / 2 ^ unat lg\<rparr> in
      if lg \<noteq> 0 then m\<lparr>md_SampleBits := 16, md_FractionBits := 8, md_SamplesPerWord := 1\<rparr> else m)"

definition status_format :: "u16 list \<Rightarrow> metadata \<Rightarrow> metadata cap" where
  "status_format late m = (if md_Revision m < 9 then ret m else
     andThen (late_or_read m (late ! 3) 28) (\<lambda>lg. andThen (late_or_read m (late ! 4) 29) (\<lambda>bits.
       if lg \<noteq> 0 \<and> (lg < 4 \<or> lg > 20) then fail (BadDecimation lg)
       else if bits \<noteq> ucast (md_SampleBits (with_format lg m)) then fail (BadFormat bits) else ret (with_format lg m))))"

definition sampleTimeline :: "metadata \<Rightarrow> metadata cap" where
  "sampleTimeline m = andThen (read_reg 83) (\<lambda>capability. if capability \<noteq> 0x5401 then ret m else
     andThen (read_reg 84) (\<lambda>valid. if valid AND 1 = 0 then ret m else
     andThen (readMany [85, 86, 87, 88, 89, 90, 91, 92]) (\<lambda>t.
       if u32_of (t ! 4) (t ! 5) \<noteq> md_RecordID m \<or> u32_of (t ! 6) (t ! 7) \<noteq> md_EventEpoch m then fail TimelineChanged else
       let lastWord = push_bit 32 (ucast (u32_of (t ! 2) (t ! 3))) OR (ucast (u32_of (t ! 0) (t ! 1)) :: u64);
           span = 2 * ucast (md_Length m - 1) in
       if md_Length m > 2 ^ 19 \<or> lastWord < span \<or> lastWord AND 1 \<noteq> 0 then fail BadTimeline
       else ret (m\<lparr>md_SampleFirst := lastWord - span, md_SampleLast := lastWord + 1, md_HasSampleTimeline := True\<rparr>))))"

definition status :: "metadata cap" where
  "status = andThen (readMany [1, 2, 3, 4, 5, 6, 7, 8, 9, 10, 11, 13, 14]) (\<lambda>r. andThen (read_late (first_read r)) (\<lambda>(late, m).
     let m = m\<lparr>md_SampleRateHz := 100000000, md_Decimation := 1, md_SampleBits := 8, md_SamplesPerWord := 2\<rparr> in
     andThen (status_rate late m) (\<lambda>m. andThen (status_format late m) (\<lambda>m.
       if md_Revision m \<ge> 10 \<and> md_Ready m \<and> md_Frozen m \<and> md_HasRecordIdentity m \<and> md_Interleaved m
          \<and> md_SamplesPerWord m = 2 \<and> md_Length m \<noteq> 0 then sampleTimeline m else ret m))))"

text \<open>That the record \<open>m\<close> describes is still the frozen one.\<close>

definition sameFrozen :: "metadata \<Rightarrow> metadata cap" where
  "sameFrozen m = (if \<not> md_HasRecordIdentity m then andThen status (\<lambda>now.
       if md_Length now \<noteq> md_Length m \<or> md_Start now \<noteq> md_Start m \<or> md_Origin now \<noteq> md_Origin m
          \<or> (md_TriggerIndex now \<noteq> md_TriggerIndex m \<and> \<not> md_HostTrigger m) \<or> md_Revision now \<noteq> md_Revision m
          \<or> md_Decimation now \<noteq> md_Decimation m then fail RecordChanged else ret now)
     else andThen (read_reg 1) (\<lambda>s. if s AND 4 = 0 \<or> s AND 16 = 0 \<or> s AND 8 \<noteq> 0 then fail NotFrozen else
       andThen (read32 69) (\<lambda>rec. andThen (read32 71) (\<lambda>epoch.
         if rec \<noteq> md_RecordID m \<or> epoch \<noteq> md_EventEpoch m then fail RecordChanged else ret m))))"

section \<open>Waits and probes\<close>

text \<open>As \<open>wait_mask\<close>: at most \<open>n\<close> reads before the context ends.\<close>

fun WaitFrozen :: "nat \<Rightarrow> unit cap" where
  "WaitFrozen 0 = fail Cancelled"
| "WaitFrozen (Suc n) = andThen (read_reg 1) (\<lambda>s. if s AND 20 = 20 then ret () else WaitFrozen n)"

fun snapshot_wait :: "nat \<Rightarrow> unit cap" where
  "snapshot_wait 0 = fail Cancelled"
| "snapshot_wait (Suc n) = andThen (read_reg 1) (\<lambda>flags. if flags AND 2048 = 0 then ret () else snapshot_wait n)"

definition Snapshot :: "nat \<Rightarrow> nat \<Rightarrow> byte list cap" where
  "Snapshot n k = do1 (commandIn n 6) (do1 (snapshot_wait k) (andThen (read_all [20, 21, 22, 23, 24])
     (\<lambda>vs. ret (concat (map (\<lambda>v. [ucast (v AND 0xff), ucast (drop_bit 8 v)]) vs)))))"

definition RestartEncode :: "unit cap" where
  "RestartEncode = do1 (write_reg 15 0) (write_reg 15 0x3ff)"


section \<open>What a status says\<close>

text \<open>The fields the rate, format and timeline steps leave alone.\<close>

definition same_record :: "metadata \<Rightarrow> metadata \<Rightarrow> bool" where
  "same_record m m' \<longleftrightarrow> md_Revision m' = md_Revision m \<and> md_Length m' = md_Length m \<and> md_Frozen m' = md_Frozen m
     \<and> md_Ready m' = md_Ready m \<and> md_HasRecordIdentity m' = md_HasRecordIdentity m \<and> md_RecordID m' = md_RecordID m
     \<and> md_EventEpoch m' = md_EventEpoch m \<and> md_Start m' = md_Start m \<and> md_Origin m' = md_Origin m"

lemma first_read_plain: "\<not> md_HasSampleTimeline (first_read r)" "md_FractionBits (first_read r) = 0"
  by (simp_all add: first_read_def set_flags_def zero_metadata_def)

lemma read_late_Inr:
  assumes "read_late m b c = (Inr (late, m'), c')"
  shows "md_HasSampleTimeline m' = md_HasSampleTimeline m \<and> md_FractionBits m' = md_FractionBits m \<and> md_Revision m' = md_Revision m"
  using assms by (auto simp: read_late_def read_identity_def andThen_Inr split: if_splits)

lemma status_rate_Inr:
  assumes "status_rate late m b c = (Inr m', c')"
  shows "same_record m m' \<and> md_HasSampleTimeline m' = md_HasSampleTimeline m \<and> md_SampleBits m' = md_SampleBits m
    \<and> md_FractionBits m' = md_FractionBits m \<and> md_SamplesPerWord m' = md_SamplesPerWord m \<and> md_Decimation m' = md_Decimation m
    \<and> md_SampleRateHz m' = (if md_Revision m \<ge> 6 then 500000000 else md_SampleRateHz m)"
  using assms by (auto simp: status_rate_def andThen_Inr same_record_def not_less split: if_splits)

definition decimation_log :: "u16 \<Rightarrow> bool" where
  "decimation_log lg \<longleftrightarrow> lg = 0 \<or> 4 \<le> lg \<and> lg \<le> 20"

lemma status_format_Inr:
  assumes "status_format late m b c = (Inr m', c')"
  shows "m' = m \<or> (\<exists>lg. decimation_log lg \<and> m' = with_format lg m)"
proof (cases "md_Revision m < 9")
  case False
  note run = assms [unfolded status_format_def if_not_P [OF False]]
  obtain lg c1 where r: "andThen (late_or_read m (late ! 4) 29) (\<lambda>bits.
       if lg \<noteq> 0 \<and> (lg < 4 \<or> lg > 20) then fail (BadDecimation lg)
       else if bits \<noteq> ucast (md_SampleBits (with_format lg m)) then fail (BadFormat bits) else ret (with_format lg m)) b c1 = (Inr m', c')"
    using run [THEN andThen_Inr [THEN iffD1]] by blast
  then have "decimation_log lg" "m' = with_format lg m"
    by (auto simp: andThen_Inr decimation_log_def not_less split: if_splits)
  then show ?thesis by blast
qed (use assms in \<open>simp add: status_format_def\<close>)

lemma with_format_fields:
  "same_record m (with_format lg m)" "md_HasSampleTimeline (with_format lg m) = md_HasSampleTimeline m"
  "md_Decimation (with_format lg m) = push_bit (unat lg) 1" "md_SampleRateHz (with_format lg m) = md_SampleRateHz m / 2 ^ unat lg"
  "md_SampleBits (with_format lg m) = (if lg = 0 then md_SampleBits m else 16)"
  "md_FractionBits (with_format lg m) = (if lg = 0 then md_FractionBits m else 8)"
  "md_SamplesPerWord (with_format lg m) = (if lg = 0 then md_SamplesPerWord m else 1)"
  by (simp_all add: with_format_def same_record_def Let_def)

lemma sampleTimeline_Inr:
  assumes "sampleTimeline m b c = (Inr m', c')" and "md_Length m \<noteq> 0"
  shows "m' = m \<or> (\<exists>lastWord. m' = m\<lparr>md_SampleFirst := lastWord - 2 * ucast (md_Length m - 1), md_SampleLast := lastWord + 1, md_HasSampleTimeline := True\<rparr>
    \<and> md_Length m \<le> 2 ^ 19 \<and> 2 * ucast (md_Length m - 1) \<le> lastWord \<and> lastWord AND 1 = 0)"
  using assms by (auto simp: sampleTimeline_def andThen_Inr Let_def not_less split: if_splits)


lemma decimation_pow:
  assumes "decimation_log lg"
  shows "unat (push_bit (unat lg) 1 :: u32) = 2 ^ unat lg"
proof -
  have "unat lg \<le> 20" using assms by (auto simp: decimation_log_def word_le_nat_alt)
  then have "(2 :: nat) ^ unat lg \<le> 2 ^ 20" by (intro power_increasing) simp_all
  then have "(2 :: nat) ^ unat lg < 2 ^ 32" by simp
  moreover have "(2 ^ unat lg :: u32) = word_of_nat (2 ^ unat lg)" by simp
  ultimately have "unat (2 ^ unat lg :: u32) = 2 ^ unat lg" by (simp only: unat_of_nat) (simp add: take_bit_nat_eq_self)
  then show ?thesis by (simp add: push_bit_eq_mult)
qed

text \<open>A timeline's ordinals: two samples a word, ending at the last word's second sample.\<close>

lemma timeline_span:
  fixes lastWord :: u64
  assumes "2 * ucast (n - 1) \<le> lastWord" and "lastWord AND 1 = 0" and "n \<noteq> (0 :: u32)" and "n \<le> 2 ^ 19"
  shows "unat (lastWord + 1) + 1 = unat (lastWord - 2 * ucast (n - 1)) + 2 * unat n" "even (unat (lastWord - 2 * ucast (n - 1)))"
proof -
  have "1 \<le> n" using assms(3) by (simp add: word_le_nat_alt unat_gt_0 Suc_le_eq)
  then have u1: "unat (n - 1) = unat n - 1" by (rule trans [OF unat_sub]) simp
  have n: "0 < unat n" "unat n \<le> 2 ^ 19" using assms(3,4) by (simp_all add: unat_gt_0 word_le_nat_alt)
  have "unat (ucast (n - 1) :: u64) = unat (n - 1)"
    by (simp add: unsigned_ucast_eq take_bit_nat_eq_self order_less_trans [OF unat_u32_less])
  then have u: "unat (ucast (n - 1) :: u64) = unat n - 1" unfolding u1 .
  have u2: "unat (2 * ucast (n - 1) :: u64) = 2 * (unat n - 1)" using n by (simp add: unat_word_ariths u)
  have ev: "even (unat lastWord)" using assms(2) by (simp add: and_one_eq even_iff_mod_2_eq_zero word_unat_eq_iff unat_mod_distrib)
  then have "unat lastWord + 1 \<noteq> 2 ^ 64" by (auto dest: arg_cong [of _ _ even])
  moreover have "unat lastWord + 1 \<le> 2 ^ 64" using unat_u64_less [of lastWord] by (simp del: unat_u64_less)
  ultimately have "unat lastWord + 1 < 2 ^ 64" by linarith
  then have l: "unat (lastWord + 1) = unat lastWord + 1" by (simp add: unat_word_ariths)
  have s: "unat (lastWord - 2 * ucast (n - 1)) = unat lastWord - 2 * (unat n - 1)" using assms(1) by (simp add: unat_sub u2)
  have "2 * (unat n - 1) \<le> unat lastWord" using assms(1) by (simp add: word_le_nat_alt u2)
  then show "unat (lastWord + 1) + 1 = unat (lastWord - 2 * ucast (n - 1)) + 2 * unat n"
    "even (unat (lastWord - 2 * ucast (n - 1)))" using n ev unfolding l s by simp_all
qed


text \<open>
  C24: What a status reports is coherent, whatever the fabric answers: the decimation is 1 or a power of two
  from 16 to 2^20, the sample rate is the image's over it, and the sample format is the one it implies. A
  sample timeline is reported only of a frozen, ready, undecimated record with an identity, and it covers
  exactly the record's two samples a word, with no wrap-around.
\<close>

theorem status_is_coherent:
  assumes "status b c = (Inr m, c')"
  shows "(\<exists>lg. decimation_log lg \<and> unat (md_Decimation m) = 2 ^ unat lg
      \<and> md_SampleRateHz m * 2 ^ unat lg = (if md_Revision m \<ge> 6 then 500000000 else 100000000)
      \<and> (md_SampleBits m, md_FractionBits m, md_SamplesPerWord m) = (if lg = 0 then (8, 0, 2) else (16, 8, 1)))
    \<and> (md_HasSampleTimeline m \<longrightarrow> md_Ready m \<and> md_Frozen m \<and> md_HasRecordIdentity m \<and> md_SamplesPerWord m = 2
        \<and> md_Length m \<noteq> 0 \<and> even (unat (md_SampleFirst m))
        \<and> unat (md_SampleLast m) + 1 = unat (md_SampleFirst m) + 2 * unat (md_Length m))"
proof -
  obtain r c1 late m0 c2 where late: "read_late (first_read r) b c1 = (Inr (late, m0), c2)"
    and rest: "(let m = m0\<lparr>md_SampleRateHz := 100000000, md_Decimation := 1, md_SampleBits := 8, md_SamplesPerWord := 2\<rparr> in
      andThen (status_rate late m) (\<lambda>m. andThen (status_format late m) (\<lambda>m.
       if md_Revision m \<ge> 10 \<and> md_Ready m \<and> md_Frozen m \<and> md_HasRecordIdentity m \<and> md_Interleaved m
          \<and> md_SamplesPerWord m = 2 \<and> md_Length m \<noteq> 0 then sampleTimeline m else ret m))) b c2 = (Inr m, c')"
    using assms unfolding status_def andThen_Inr [of "readMany _"] andThen_Inr [of "read_late _"] by (auto split: prod.splits)
  define m1 where "m1 = m0\<lparr>md_SampleRateHz := 100000000, md_Decimation := 1, md_SampleBits := 8, md_SamplesPerWord := 2\<rparr>"
  obtain m2 c3 where rate: "status_rate late m1 b c2 = (Inr m2, c3)" and rest: "andThen (status_format late m2) (\<lambda>m.
       if md_Revision m \<ge> 10 \<and> md_Ready m \<and> md_Frozen m \<and> md_HasRecordIdentity m \<and> md_Interleaved m
          \<and> md_SamplesPerWord m = 2 \<and> md_Length m \<noteq> 0 then sampleTimeline m else ret m) b c3 = (Inr m, c')"
    using rest [unfolded Let_def, THEN andThen_Inr [THEN iffD1]] unfolding m1_def by blast
  obtain m3 c4 where fmt: "status_format late m2 b c3 = (Inr m3, c4)" and fin: "(if md_Revision m3 \<ge> 10 \<and> md_Ready m3 \<and> md_Frozen m3 \<and> md_HasRecordIdentity m3
      \<and> md_Interleaved m3 \<and> md_SamplesPerWord m3 = 2 \<and> md_Length m3 \<noteq> 0 then sampleTimeline m3 else ret m3) b c4 = (Inr m, c')"
    using rest [THEN andThen_Inr [THEN iffD1]] by blast
  have m1: "\<not> md_HasSampleTimeline m1" "md_FractionBits m1 = 0" "md_Decimation m1 = 1" "md_SampleRateHz m1 = 100000000"
    "md_SampleBits m1 = 8" "md_SamplesPerWord m1 = 2"
    using read_late_Inr [OF late] first_read_plain by (simp_all add: m1_def)
  note r2 = status_rate_Inr [OF rate]
  have m3: "\<exists>lg. decimation_log lg \<and> unat (md_Decimation m3) = 2 ^ unat lg
      \<and> md_SampleRateHz m3 * 2 ^ unat lg = (if md_Revision m3 \<ge> 6 then 500000000 else 100000000)
      \<and> (md_SampleBits m3, md_FractionBits m3, md_SamplesPerWord m3) = (if lg = 0 then (8, 0, 2) else (16, 8, 1))"
    using status_format_Inr [OF fmt]
  proof
    assume "m3 = m2"
    then show ?thesis using r2 m1 by (intro exI [of _ 0]) (auto simp: decimation_log_def same_record_def)
  next
    assume "\<exists>lg. decimation_log lg \<and> m3 = with_format lg m2"
    then obtain lg where lg: "decimation_log lg" "m3 = with_format lg m2" by blast
    then show ?thesis using r2 m1 decimation_pow [OF lg(1)] with_format_fields(1) [of m2 lg]
      by (intro exI [of _ lg]) (auto simp: with_format_fields(2-) same_record_def)
  qed
  have h3: "\<not> md_HasSampleTimeline m3"
    using status_format_Inr [OF fmt] r2 m1 with_format_fields(2) by metis
  show ?thesis
  proof (cases "m = m3")
    case False
    then have tl: "sampleTimeline m3 b c4 = (Inr m, c')" and g: "md_Ready m3" "md_Frozen m3" "md_HasRecordIdentity m3"
      "md_SamplesPerWord m3 = 2" "md_Length m3 \<noteq> 0" using fin by (auto split: if_splits)
    obtain lastWord where "m = m3\<lparr>md_SampleFirst := lastWord - 2 * ucast (md_Length m3 - 1), md_SampleLast := lastWord + 1, md_HasSampleTimeline := True\<rparr>"
      and "md_Length m3 \<le> 2 ^ 19" "2 * ucast (md_Length m3 - 1) \<le> lastWord" "lastWord AND 1 = 0"
      using sampleTimeline_Inr [OF tl g(5)] False by blast
    then show ?thesis using g m3 timeline_span [of "md_Length m3" lastWord] by simp
  qed (use m3 h3 in simp)
qed


text \<open>A fabric of revision 10 with a frozen raw record, an identity and a timeline.\<close>

definition frozen_regs :: "(nat \<times> u16) list" where
  "frozen_regs = [(1, 0x54), (2, 1000), (13, 10), (73, 0x5201), (15, 500), (19, 2), (29, 8), (69, 7), (71, 3), (83, 0x5401), (84, 1),
     (85, 5000), (89, 7), (91, 3)]"

definition frozen_fabric :: fabric where
  "frozen_fabric = \<lparr>fb_read = (\<lambda>tr s. Some (case map_of frozen_regs s of Some v \<Rightarrow> v | None \<Rightarrow> 0)), fb_write = (\<lambda>tr s v. True)\<rparr>"

definition timeline_of :: "(cap_error + metadata) \<times> capture \<Rightarrow> (u64 \<times> u64 \<times> u32) option" where
  "timeline_of r = (case r of (Inr m, _) \<Rightarrow> if md_HasSampleTimeline m then Some (md_SampleFirst m, md_SampleLast m, md_Length m) else None
     | _ \<Rightarrow> None)"

lemma status_is_coherent_witness:
  "\<exists>m c'. status frozen_fabric fresh_capture = (Inr m, c') \<and> md_HasSampleTimeline m \<and> md_SampleFirst m = 3002
    \<and> unat (md_SampleLast m) + 1 = unat (md_SampleFirst m) + 2 * unat (md_Length m)"
proof -
  have t: "timeline_of (status frozen_fabric fresh_capture) = Some (3002, 5001, 1000)" by code_simp
  then obtain m c' where s: "status frozen_fabric fresh_capture = (Inr m, c')" and h: "md_HasSampleTimeline m" and f: "md_SampleFirst m = 3002"
    by (auto simp: timeline_of_def split: prod.splits sum.splits if_splits)
  from status_is_coherent [OF s] h have "unat (md_SampleLast m) + 1 = unat (md_SampleFirst m) + 2 * unat (md_Length m)" by blast
  then show ?thesis using s h f by blast
qed

end
