(* ===== verification/SramRecall.thy ===== *)
theory SramRecall
  imports SramStatus
begin

text \<open>
  Recalling a frozen record (\<open>recallFrozen\<close> and its callers in \<open>app/internal/sramcapture/capture.go\<close>): the spans a
  window is read in, the register protocol of one burst, and the sink the words go to.

  The sink is arbitrary: \<open>sk_write\<close> says how many bytes it took and whether it failed, \<open>sk_room\<close> whether it
  hands out room to read into, \<open>sk_fill\<close> what it becomes when the room is made its own. A batch pop of the
  bus is its halfword reads in order. \<open>k\<close> bounds the reads of each wait (the deadline, as a count), \<open>live i\<close>
  says whether the context still stands before span \<open>i\<close>. Other users of the bus between the bursts
  (\<open>yieldBetweenSpans\<close>, the span hook) are not modelled.
\<close>

section \<open>Spans\<close>

type_synonym span = "u32 \<times> u32"

partial_function (option) span_loop :: "u32 \<Rightarrow> u32 \<Rightarrow> u32 \<Rightarrow> u32 \<Rightarrow> span list \<Rightarrow> span list \<Rightarrow> (span list \<times> span list) option" where
  "span_loop count payload gap pos bulk holes =
     (if \<not> pos < count then Some (bulk, holes) else
      (let n = min (count - pos) payload; pos1 = pos + n; h = min (count - pos1) gap in
       if h \<noteq> 0 then span_loop count payload gap (pos1 + h) (bulk @ [(pos, n)]) (holes @ [(pos1, h)])
       else span_loop count payload gap pos1 (bulk @ [(pos, n)]) holes))"

text \<open>None: the loop runs on for ever.\<close>

definition recallSpans :: "u32 \<Rightarrow> u32 \<Rightarrow> u32 \<Rightarrow> span list option" where
  "recallSpans count payload gap = map_option (\<lambda>(bulk, holes). bulk @ holes) (span_loop count payload gap 0 [] [])"

section \<open>One burst\<close>

definition addressMask :: u32 where "addressMask = 2 ^ 19 - 1"

fun bus_pop :: "nat \<Rightarrow> nat \<Rightarrow> u16 list cap" where
  "bus_pop s 0 = ret []"
| "bus_pop s (Suc n) = (\<lambda>b c. case fb_read b (cp_trace c) s of
     None \<Rightarrow> (Inl BusError, c\<lparr>cp_trace := cp_trace c @ [BRead s]\<rparr>)
   | Some v \<Rightarrow> andThen (bus_pop s n) (\<lambda>vs. ret (v # vs)) b (c\<lparr>cp_trace := cp_trace c @ [BRead s]\<rparr>))"

text \<open>\<open>batch\<close>: the bus pops many halfwords in one call; without, each is a read.\<close>

definition pop_halves :: "bool \<Rightarrow> nat \<Rightarrow> nat \<Rightarrow> u16 list cap" where
  "pop_halves batch s n = (if batch then bus_pop s n else read_all (replicate n s))"

definition half_bytes :: "u16 list \<Rightarrow> byte list" where
  "half_bytes hs = concat (map (\<lambda>h. le_bytes 2 (unat h)) hs)"

definition pop_burst :: "bool \<Rightarrow> bool \<Rightarrow> u16 \<Rightarrow> u32 \<Rightarrow> u32 \<Rightarrow> u32 \<Rightarrow> byte list cap" where
  "pop_burst batch forward revision prefix physical n =
     do1 (if forward \<or> revision \<ge> 10 then do1 (write_reg 16 (ucast prefix)) (andThen (read_reg 17) (\<lambda>_. ret ())) else ret ())
     (do1 (write_reg 17 (ucast (prefix * 2))) (do1 flushWrites (andThen (pop_halves batch 25 (unat n * 2)) (\<lambda>halves.
       andThen (read_reg 27) (\<lambda>index. if ucast index \<noteq> ((n + prefix) * 2) mod (physical * 2) then fail (BurstPointer index)
         else ret (half_bytes halves))))))"

text \<open>Before revision 8: a word at a time.\<close>

fun slow_words :: "nat \<Rightarrow> u32 \<Rightarrow> u32 \<Rightarrow> byte list cap" where
  "slow_words 0 i prefix = ret []"
| "slow_words (Suc n) i prefix = do1 (write_reg 16 (ucast (i + prefix))) (andThen (read32 17) (\<lambda>v.
     andThen (slow_words n (i + 1) prefix) (\<lambda>rest. ret (le_bytes 4 (unat v) @ rest))))"

text \<open>The command a burst is read with: a continuation, or a fresh read after the pointer was moved.\<close>

definition seek :: "nat \<Rightarrow> u32 \<Rightarrow> u32 \<Rightarrow> u16 list \<Rightarrow> u16 cap" where
  "seek k prefix target pf =
     (let position = u32_of (pf ! 0) (pf ! 1); skip = (target - position) AND addressMask in
      if prefix = 0 \<and> pf ! 2 AND 1024 \<noteq> 0 \<and> target = (position - 1) AND addressMask then ret 7
      else do1 (if skip \<noteq> 0 then do1 (write32 8 skip) (do1 (commandIn k 3) (wait_mask k 4)) else ret ()) (ret 2))"

definition burst :: "nat \<Rightarrow> bool \<Rightarrow> bool \<Rightarrow> u16 \<Rightarrow> u32 \<Rightarrow> u32 \<Rightarrow> u32 \<Rightarrow> u32 \<Rightarrow> byte list cap" where
  "burst k batch forward revision prefix physical target n =
     andThen (readMany [8, 9, 1]) (\<lambda>pf. andThen (seek k prefix target pf) (\<lambda>op.
       do1 (write32 8 (n + prefix)) (do1 (commandIn k op) (do1 (wait_mask k 4) (andThen (read_reg 12) (\<lambda>got.
         if ucast got \<noteq> n + prefix then fail (ShortBuffer got)
         else if revision \<ge> 8 then pop_burst batch forward revision prefix physical n
         else slow_words (unat n) 0 prefix))))))"

section \<open>The spans' bursts and the sink\<close>

record 's sink =
  sk_write :: "'s \<Rightarrow> byte list \<Rightarrow> nat \<times> bool \<times> 's"
  sk_room :: "'s \<Rightarrow> nat \<Rightarrow> byte list option"
  sk_fill :: "'s \<Rightarrow> byte list \<Rightarrow> 's"

type_synonym 's xfer = "'s \<Rightarrow> fabric \<Rightarrow> capture \<Rightarrow> (cap_error option \<times> nat \<times> 's) \<times> capture"

definition put_at :: "byte list \<Rightarrow> nat \<Rightarrow> byte list \<Rightarrow> byte list" where
  "put_at buf i data = take i buf @ data @ drop (i + length data) buf"

text \<open>\<open>staged\<close>: the words go where they belong in a buffer (the sink's room, or the scratch of a forward recall);
  else each span's words are written as they come.\<close>

fun span_run :: "'s sink \<Rightarrow> bool \<Rightarrow> (nat \<Rightarrow> bool) \<Rightarrow> (span \<Rightarrow> byte list cap) \<Rightarrow> nat \<Rightarrow> span list \<Rightarrow> byte list \<Rightarrow> nat \<Rightarrow> 's
    \<Rightarrow> fabric \<Rightarrow> capture \<Rightarrow> (cap_error option \<times> byte list \<times> nat \<times> 's) \<times> capture" where
  "span_run sk staged live rdsp i [] buf w s b c = ((None, buf, w, s), c)"
| "span_run sk staged live rdsp i (sp # rest) buf w s b c =
     (if \<not> live i then ((Some Cancelled, buf, w, s), c) else
      case rdsp sp b c of
        (Inl e, c) \<Rightarrow> ((Some e, buf, w, s), c)
      | (Inr data, c) \<Rightarrow>
          if staged then span_run sk staged live rdsp (Suc i) rest (put_at buf (4 * unat (fst sp)) data) w s b c
          else (case sk_write sk s data of (n, err, s) \<Rightarrow>
            if err then ((Some SinkError, buf, w + n, s), c)
            else if n \<noteq> 4 * unat (snd sp) then ((Some ShortWrite, buf, w + n, s), c)
            else span_run sk staged live rdsp (Suc i) rest buf (w + n) s b c))"

text \<open>What is left to do when the spans are read.\<close>

definition deliver :: "'s sink \<Rightarrow> byte list option \<Rightarrow> bool \<Rightarrow> u32 \<Rightarrow> cap_error option \<times> byte list \<times> nat \<times> 's \<Rightarrow> cap_error option \<times> nat \<times> 's" where
  "deliver sk room forward count = (\<lambda>(err, buf, w, s). case err of Some e \<Rightarrow> (Some e, w, s) | None \<Rightarrow>
     if room \<noteq> None then (None, length buf, sk_fill sk s buf)
     else if forward \<and> count \<noteq> 0 then (case sk_write sk s buf of (n, e, s) \<Rightarrow>
       (if e then Some SinkError else if n \<noteq> length buf then Some ShortWrite else None, n, s))
     else (None, w, s))"

definition recall_prefix :: "u16 \<Rightarrow> u32" where
  "recall_prefix revision = (if revision \<ge> 7 then 16 else 0)"

text \<open>The read buffer: its size in words, and how much of it a burst uses.\<close>

definition read_buffer :: "u16 \<Rightarrow> (u32 \<times> u32) cap" where
  "read_buffer revision = (if revision \<ge> 8 then andThen (read_reg 26) (\<lambda>sz.
       if sz \<noteq> 4096 \<and> (revision \<noteq> 11 \<or> sz \<noteq> 8192) then fail (BadBuffer sz) else ret (ucast sz, min (ucast sz) 4096))
     else ret (512, 512))"

text \<open>\<open>bytePop\<close>: the bus pops bytes; \<open>batch\<close>: it pops many halfwords in one call (bytes or words).\<close>

definition recall_body :: "'s sink \<Rightarrow> bool \<Rightarrow> bool \<Rightarrow> nat \<Rightarrow> (nat \<Rightarrow> bool) \<Rightarrow> metadata \<Rightarrow> u32 \<Rightarrow> u32 \<Rightarrow> bool \<Rightarrow> 's xfer" where
  "recall_body sk bytePop batch k live m offset count forward s b c =
     (case do1 (\<lambda>b c. if cp_envelopeOn c then do1 (write_reg 44 0) (update (\<lambda>c. c\<lparr>cp_envelopeOn := False\<rparr>)) b c else (Inr (), c))
       (if md_Length m > 2 ^ 19 \<or> (ucast offset + ucast count :: u64) > ucast (md_Length m) then fail WindowExceeds
        else andThen (read_buffer (md_Revision m)) (\<lambda>sizes. if forward \<and> md_Revision m \<noteq> 10 then fail ForwardRevision else ret sizes)) b c of
       (Inl e, c) \<Rightarrow> ((Some e, 0, s), c)
     | (Inr (physical, bufferWords), c) \<Rightarrow>
         (let prefix = recall_prefix (md_Revision m);
              room = (if bytePop \<and> md_Revision m \<ge> 8 then sk_room sk s (unat (count * 4)) else None) in
          case recallSpans count (bufferWords - prefix) (if forward then prefix + 2 else 0) of
            None \<Rightarrow> ((Some Diverges, 0, s), c)
          | Some spans \<Rightarrow>
              (case span_run sk (room \<noteq> None \<or> forward) live
                 (\<lambda>(off, n). burst k (bytePop \<or> batch) forward (md_Revision m) prefix physical
                    ((md_Origin m + md_Start m + offset + off - prefix) AND addressMask) n)
                 0 spans (case room of Some r \<Rightarrow> r | None \<Rightarrow> replicate (unat (count * 4)) 0) 0 s b c of
               (r, c) \<Rightarrow> (deliver sk room forward count r, c))))"

definition recallFrozen :: "'s sink \<Rightarrow> bool \<Rightarrow> bool \<Rightarrow> nat \<Rightarrow> (nat \<Rightarrow> bool) \<Rightarrow> metadata \<Rightarrow> u32 \<Rightarrow> u32 \<Rightarrow> bool \<Rightarrow> 's xfer" where
  "recallFrozen sk bytePop batch k live m offset count forward s b c =
     (if md_DataFault m then ((Some DataFaulted, 0, s), c)
      else if \<not> md_Ready m \<or> \<not> md_Frozen m \<or> md_Running m then ((Some NotFrozen, 0, s), c)
      else case recall_body sk bytePop batch k live m offset count forward s b (c\<lparr>cp_queueWrites := True\<rparr>) of
        ((err, w, s), c) \<Rightarrow> (case flushWrites b (c\<lparr>cp_queueWrites := False\<rparr>) of
            (Inl e, c) \<Rightarrow> ((if err = None then Some e else err, w, s), c)
          | (Inr _, c) \<Rightarrow> ((err, w, s), c)))"

end
