(* ===== verification/SramReads.thy ===== *)
theory SramReads
  imports SramRecall Arm
begin

text \<open>
  The reads made of a frozen record: the envelope reduction (\<open>envelope.go\<close>), the lists of reads the engine and the
  bus worker make, the recalls by identity (\<open>capture.go\<close>, \<open>decoded_capture.go\<close>) and the startup counter check
  (\<open>verify.go\<close>).

  A bus worker (\<open>isolatedRecall\<close>) is a parameter: whether it owns the read, and what it gives. The envelope's
  diagnostic counters and message are not modelled.
\<close>

section \<open>The envelope\<close>

definition EnvelopeOutputWords :: u32 where "EnvelopeOutputWords = 2048"

definition envelopeCapabilityOf :: "u16 \<Rightarrow> bool cap" where
  "envelopeCapabilityOf revision = (if revision \<noteq> 10 then ret False else andThen (read_reg 43) (\<lambda>v. ret (v = 0x454e)))"

definition envelope_q8 :: "metadata \<Rightarrow> bool" where
  "envelope_q8 m \<longleftrightarrow> md_FractionBits m = 8"

definition perBucket :: "metadata \<Rightarrow> u32" where
  "perBucket m = (if envelope_q8 m then 2 else 1)"

definition envelope_window_bad :: "metadata \<Rightarrow> u32 \<Rightarrow> u32 \<Rightarrow> u32 \<Rightarrow> bool" where
  "envelope_window_bad m offset bucket buckets \<longleftrightarrow> bucket < 2 \<or> bucket mod 2 \<noteq> 0 \<or> bucket > 0xffffe \<or> buckets = 0
     \<or> buckets * perBucket m > EnvelopeOutputWords \<or> (\<not> envelope_q8 m \<and> buckets mod 2 \<noteq> 0)
     \<or> (ucast offset + ucast (bucket * buckets) :: u64) > ucast (md_Length m) \<or> bucket * buckets + 16 > Words"

text \<open>An operation whose error is not looked at.\<close>

definition try_op :: "'a cap \<Rightarrow> unit cap" where
  "try_op m = (\<lambda>b c. (Inr (), snd (m b c)))"

text \<open>The reduction's command, retried once.\<close>

definition reduce_command :: "nat \<Rightarrow> unit cap" where
  "reduce_command k = (\<lambda>b c. case commandIn k 2 b c of
     (Inr _, c) \<Rightarrow> (Inr (), c)
   | (Inl _, c) \<Rightarrow> do1 (try_op (read_reg 1)) (do1 (try_op (read32 8)) (do1 (wait_mask k 4) (commandIn k 2))) b c)"

definition envelope_control :: "metadata \<Rightarrow> u32 \<Rightarrow> u16" where
  "envelope_control m bucket = 0x8000 OR ucast (drop_bit 16 bucket) OR (if envelope_q8 m then 0x4000 else 0)"

definition envelope_reduce :: "nat \<Rightarrow> bool \<Rightarrow> metadata \<Rightarrow> u32 \<Rightarrow> u32 \<Rightarrow> byte list cap" where
  "envelope_reduce k batch m bucket buckets =
     (let words = bucket * buckets; out = buckets * perBucket m in
      do1 (writeMany [(43, lo16 bucket), (44, envelope_control m bucket), (45, 16), (8, lo16 (words + 16)), (9, hi16 (words + 16))])
      (do1 (reduce_command k) (do1 (wait_mask k 4)
      (andThen (andThen (read_reg 46) (\<lambda>got. if ucast got \<noteq> out then read_reg 46 else ret got)) (\<lambda>got.
        if ucast got \<noteq> out then fail (ShortEnvelope got) else
        do1 (write_reg 44 0) (do1 (update (\<lambda>c. c\<lparr>cp_envelopeOn := False\<rparr>))
        (do1 (write_reg 16 0) (andThen (read_reg 17) (\<lambda>_. do1 (write_reg 17 0)
        (andThen (pop_halves batch 25 (unat (out * 2))) (\<lambda>halves. ret (half_bytes halves))))))))))))"

text \<open>However the reduction ends, the reducer is turned off again.\<close>

definition envelope_off :: "'a cap \<Rightarrow> 'a cap" where
  "envelope_off m = (\<lambda>b c. case m b c of (r, c) \<Rightarrow>
     if cp_envelopeOn c then (case write_reg 44 0 b c of (Inl _, c) \<Rightarrow> (r, c) | (Inr _, c) \<Rightarrow> (r, c\<lparr>cp_envelopeOn := False\<rparr>))
     else (r, c))"

definition envelope_read :: "nat \<Rightarrow> bool \<Rightarrow> metadata \<Rightarrow> u32 \<Rightarrow> u32 \<Rightarrow> u32 \<Rightarrow> byte list cap" where
  "envelope_read k batch m offset bucket buckets = andThen (envelopeCapabilityOf (md_Revision m)) (\<lambda>present.
     if \<not> present then fail NotSupported else if md_DataFault m then fail DataFaulted
     else if \<not> md_Ready m \<or> \<not> md_Frozen m \<or> md_Running m then fail NotFrozen
     else if envelope_window_bad m offset bucket buckets then fail BadWindow else
     andThen (readMany [8, 9]) (\<lambda>pw.
       let skip = (((md_Origin m + md_Start m + offset - 16) AND addressMask) - u32_of (pw ! 0) (pw ! 1)) AND addressMask in
       do1 (if skip \<noteq> 0 then do1 (writeMany [(8, lo16 skip), (9, hi16 skip)]) (do1 (commandIn k 3) (wait_mask k 4)) else ret ())
       (do1 (update (\<lambda>c. c\<lparr>cp_envelopeOn := True\<rparr>)) (envelope_off (envelope_reduce k batch m bucket buckets)))))"

text \<open>A write of the whole data to a sink.\<close>

definition sink_all :: "'s sink \<Rightarrow> byte list \<Rightarrow> 's \<Rightarrow> cap_error option \<times> 's" where
  "sink_all sk data s = (case sk_write sk s data of (n, err, s) \<Rightarrow>
     (if err then Some SinkError else if n \<noteq> length data then Some ShortWrite else None, s))"

definition recallEnvelope :: "'s sink \<Rightarrow> nat \<Rightarrow> bool \<Rightarrow> metadata \<Rightarrow> u32 \<Rightarrow> u32 \<Rightarrow> u32 \<Rightarrow> 's \<Rightarrow> fabric \<Rightarrow> capture
    \<Rightarrow> (cap_error option \<times> 's) \<times> capture" where
  "recallEnvelope sk k batch m offset bucket buckets s b c = (case envelope_read k batch m offset bucket buckets b c of
     (Inl e, c) \<Rightarrow> ((Some e, s), c) | (Inr data, c) \<Rightarrow> (sink_all sk data s, c))"

section \<open>Reads of a record\<close>

record 's record_read =
  rr_Offset :: u32
  rr_Bucket :: u32
  rr_Count :: u32
  rr_Dst :: "'s sink"

definition read_size :: "'s record_read \<Rightarrow> metadata \<Rightarrow> nat" where
  "read_size r m = (if rr_Bucket r \<noteq> 0 \<and> md_FractionBits m = 8 then unat (rr_Count r) * 8 else unat (rr_Count r) * 4)"

text \<open>How the bus and the context are: the transfer paths, the reads a wait may make, the context between spans.\<close>

record recall_env =
  re_bytePop :: bool
  re_batch :: bool
  re_wait :: nat
  re_live :: "nat \<Rightarrow> bool"

definition recallRead :: "recall_env \<Rightarrow> metadata \<Rightarrow> 's record_read \<Rightarrow> 's \<Rightarrow> fabric \<Rightarrow> capture \<Rightarrow> (cap_error option \<times> 's) \<times> capture" where
  "recallRead e m r s b c =
     (if rr_Bucket r \<noteq> 0 then recallEnvelope (rr_Dst r) (re_wait e) (re_batch e) m (rr_Offset r) (rr_Bucket r) (rr_Count r) s b c
      else case recallFrozen (rr_Dst r) (re_bytePop e) (re_batch e) (re_wait e) (re_live e) m (rr_Offset r) (rr_Count r)
          (md_Revision m = 10) s b c of ((err, _, s), c) \<Rightarrow> ((err, s), c))"

fun recall_reads :: "recall_env \<Rightarrow> metadata \<Rightarrow> 's record_read list \<Rightarrow> 's \<Rightarrow> fabric \<Rightarrow> capture \<Rightarrow> (cap_error option \<times> 's) \<times> capture" where
  "recall_reads e m [] s b c = ((None, s), c)"
| "recall_reads e m (r # rs) s b c = (case recallRead e m r s b c of
     ((Some err, s), c) \<Rightarrow> ((Some err, s), c) | ((None, s), c) \<Rightarrow> recall_reads e m rs s b c)"

section \<open>The bus worker\<close>

type_synonym worker = "u32 \<Rightarrow> u32 \<Rightarrow> u32 list \<Rightarrow> nat \<Rightarrow> bool \<times> (cap_error + byte list)"

definition RecordReadsMax :: nat where "RecordReadsMax = 4"

definition read_past :: "metadata \<Rightarrow> 's record_read \<Rightarrow> bool" where
  "read_past m r \<longleftrightarrow> (ucast (rr_Offset r) + ucast (rr_Count r) * ucast (max (rr_Bucket r) 1) :: u64) > ucast (md_Length m)
     \<or> md_Length m > Words"

fun deliver_reads :: "metadata \<Rightarrow> 's record_read list \<Rightarrow> byte list \<Rightarrow> 's \<Rightarrow> cap_error option \<times> 's" where
  "deliver_reads m [] data s = (None, s)"
| "deliver_reads m (r # rs) data s = (case sink_all (rr_Dst r) (take (read_size r m) data) s of
     (Some err, s) \<Rightarrow> (Some err, s) | (None, s) \<Rightarrow> deliver_reads m rs (drop (read_size r m) data) s)"

text \<open>None: the reads are to be made here.\<close>

definition recallIsolated :: "worker option \<Rightarrow> metadata \<Rightarrow> 's record_read list \<Rightarrow> 's \<Rightarrow> (cap_error option \<times> 's) option" where
  "recallIsolated w m reads s = (case w of None \<Rightarrow> None | Some wk \<Rightarrow>
     if \<not> md_HasRecordIdentity m \<or> reads = [] \<or> length reads > RecordReadsMax \<or> list_ex (read_past m) reads then None
     else case wk (md_EventEpoch m) (md_RecordID m) (concat (map (\<lambda>r. [rr_Offset r, rr_Bucket r, rr_Count r]) reads))
         (sum_list (map (\<lambda>r. read_size r m) reads)) of
       (False, _) \<Rightarrow> None
     | (True, Inl err) \<Rightarrow> Some (Some err, s)
     | (True, Inr data) \<Rightarrow> Some (deliver_reads m reads data s))"

definition RecallReadsOf :: "recall_env \<Rightarrow> worker option \<Rightarrow> bool \<Rightarrow> metadata \<Rightarrow> 's record_read list \<Rightarrow> 's \<Rightarrow> fabric \<Rightarrow> capture
    \<Rightarrow> (cap_error option \<times> 's) \<times> capture" where
  "RecallReadsOf e w alive m reads s b c =
     (if \<not> alive then ((Some Cancelled, s), c) else case recallIsolated w m reads s of
       Some r \<Rightarrow> (r, c)
     | None \<Rightarrow> (case sameFrozen m b c of (Inl err, c) \<Rightarrow> ((Some err, s), c) | (Inr m, c) \<Rightarrow> recall_reads e m reads s b c))"

definition named :: "u32 \<times> u32 \<Rightarrow> metadata \<Rightarrow> bool" where
  "named ident m \<longleftrightarrow> md_HasRecordIdentity m \<and> md_RecordID m = fst ident \<and> md_EventEpoch m = snd ident"

text \<open>An identity is the record and the epoch.\<close>

definition RecallRecord :: "recall_env \<Rightarrow> bool \<Rightarrow> u32 \<times> u32 \<Rightarrow> 's record_read list \<Rightarrow> 's \<Rightarrow> fabric \<Rightarrow> capture
    \<Rightarrow> (cap_error option \<times> 's) \<times> capture" where
  "RecallRecord e alive ident reads s b c =
     (if \<not> alive then ((Some Cancelled, s), c) else case status b c of
       (Inl err, c) \<Rightarrow> ((Some err, s), c)
     | (Inr m, c) \<Rightarrow> if \<not> named ident m then ((Some RecordChanged, s), c) else recall_reads e m reads s b c)"

definition recallChecked :: "recall_env \<Rightarrow> worker option \<Rightarrow> bool \<Rightarrow> u32 \<Rightarrow> u32 \<Rightarrow> 's sink \<Rightarrow> bool \<Rightarrow> (u32 \<times> u32) option \<Rightarrow> 's xfer" where
  "recallChecked e w alive offset count sk forward expected s b c =
     (if \<not> alive then ((Some Cancelled, 0, s), c) else case status b c of
       (Inl err, c) \<Rightarrow> ((Some err, 0, s), c)
     | (Inr m, c) \<Rightarrow>
         if (case expected of None \<Rightarrow> False | Some ident \<Rightarrow> \<not> named ident m) then ((Some RecordChanged, 0, s), c)
         else case (if forward = (md_Revision m = 10) \<and> count \<noteq> 0 \<and> (ucast offset + ucast count :: u64) \<le> ucast (md_Length m)
             then recallIsolated w m [\<lparr>rr_Offset = offset, rr_Bucket = 0, rr_Count = count, rr_Dst = sk\<rparr>] s else None) of
           Some (Some err, s) \<Rightarrow> ((Some err, 0, s), c)
         | Some (None, s) \<Rightarrow> ((None, 4 * unat count, s), c)
         | None \<Rightarrow> recallFrozen sk (re_bytePop e) (re_batch e) (re_wait e) (re_live e) m offset count forward s b c)"

definition Recall :: "recall_env \<Rightarrow> worker option \<Rightarrow> bool \<Rightarrow> u32 \<Rightarrow> u32 \<Rightarrow> 's sink \<Rightarrow> 's xfer" where
  "Recall e w alive offset count sk = recallChecked e w alive offset count sk False None"

definition RecallForward :: "recall_env \<Rightarrow> worker option \<Rightarrow> bool \<Rightarrow> u32 \<Rightarrow> u32 \<Rightarrow> 's sink \<Rightarrow> 's xfer" where
  "RecallForward e w alive offset count sk = recallChecked e w alive offset count sk True None"

section \<open>Captures with decoded events\<close>

text \<open>The wait for the new record's identity: not the record shown before the arm.\<close>

fun identity_wait :: "nat \<Rightarrow> u32 \<Rightarrow> u32 \<Rightarrow> (u32 \<times> u32) cap" where
  "identity_wait 0 oldID epoch = fail Cancelled"
| "identity_wait (Suc n) oldID epoch = andThen status (\<lambda>m.
     if \<not> md_HasRecordIdentity m then fail NoIdentity
     else if md_RecordID m \<noteq> oldID \<and> md_EventEpoch m = epoch then ret (md_RecordID m, epoch)
     else identity_wait n oldID epoch)"

definition StartDecodedCapture :: "nat \<Rightarrow> nat \<Rightarrow> arm_cfg \<Rightarrow> (u32 \<times> u32) cap" where
  "StartDecodedCapture n k cfg = andThen (readMany [73, 69, 70]) (\<lambda>v. if v ! 0 \<noteq> 0x5201 then fail NoIdentity else
     do1 (Arm n (cfg\<lparr>ar_DecodedEvents := True\<rparr>)) (andThen (readMany [61, 62]) (\<lambda>e.
       identity_wait k (u32_of (v ! 1) (v ! 2)) (u32_of (e ! 0) (e ! 1)))))"

definition DecodedRecall :: "recall_env \<Rightarrow> worker option \<Rightarrow> bool \<Rightarrow> u32 \<times> u32 \<Rightarrow> u32 \<Rightarrow> u32 \<Rightarrow> 's sink \<Rightarrow> 's xfer" where
  "DecodedRecall e w alive ident offset count sk = recallChecked e w alive offset count sk False (Some ident)"

section \<open>The startup counter\<close>

text \<open>The sink of the counter check: two words at a time while both are right, then one.\<close>

function counter_pairs :: "u32 \<Rightarrow> nat \<Rightarrow> byte list \<Rightarrow> u32 \<times> nat" where
  "counter_pairs next i b =
     (if i + 8 \<le> length b \<and> (word_of_nat (le_val (take 8 (drop i b))) :: u64) = ucast next OR push_bit 32 (ucast (next + 1))
      then counter_pairs (next + 2) (i + 8) b else (next, i))"
  by pat_completeness auto

termination by (relation "measure (\<lambda>(_, i, b). length b - i)") auto

function counter_words :: "u32 \<Rightarrow> nat \<Rightarrow> byte list \<Rightarrow> nat \<times> bool \<times> u32" where
  "counter_words next i b =
     (if i < length b then
        (if (word_of_nat (le_val (take 4 (drop i b))) :: u32) \<noteq> next then (i, True, next) else counter_words (next + 1) (i + 4) b)
      else (length b, False, next))"
  by pat_completeness auto

termination by (relation "measure (\<lambda>(_, i, b). length b - i)") auto

definition counter_Write :: "u32 \<Rightarrow> byte list \<Rightarrow> nat \<times> bool \<times> u32" where
  "counter_Write next b = (if length b mod 4 \<noteq> 0 then (0, True, next)
     else case counter_pairs next 0 b of (next, i) \<Rightarrow> counter_words next i b)"

definition counterVerifier :: "u32 sink" where
  "counterVerifier = \<lparr>sk_write = counter_Write, sk_room = (\<lambda>_ _. None), sk_fill = (\<lambda>s _. s)\<rparr>"

end
