(* ===== verification/SramVerify.thy ===== *)
theory SramVerify
  imports SramReads
begin

text \<open>
  The startup transport check (\<open>verify.go\<close>): a counter record recalled into a verifying sink.
\<close>

definition counter_cfg :: arm_cfg where
  "counter_cfg = edge_cfg\<lparr>ar_Source := Counter, ar_PreWords := Words - 17, ar_PostWords := 17, ar_Normal := False, ar_TriggerLevel := 0,
     ar_TriggerHysteresis := 0\<rparr>"

text \<open>A leftover acquisition is halted first; a status that fails here is not looked at.\<close>

definition halt_leftover :: "nat \<Rightarrow> nat \<Rightarrow> unit cap" where
  "halt_leftover n k = (\<lambda>b c. case status b c of
     (Inl _, c) \<Rightarrow> (Inr (), c)
   | (Inr m, c) \<Rightarrow> if md_Running m \<or> \<not> md_Ready m then Halt n k b c else (Inr (), c))"

definition counter_recall :: "recall_env \<Rightarrow> worker option \<Rightarrow> bool \<Rightarrow> u16 \<Rightarrow> unit cap" where
  "counter_recall e w alive revision = (\<lambda>b c.
     case recallChecked e w alive 0 Words counterVerifier (revision = 10) None 0 b c of
       ((Some err, _, _), c) \<Rightarrow> (Inl err, c)
     | ((None, written, next), c) \<Rightarrow> if written \<noteq> 4 * unat Words \<or> next \<noteq> Words then (Inl BadCounter, c) else (Inr (), c))"

definition VerifyCounter :: "nat \<Rightarrow> nat \<Rightarrow> recall_env \<Rightarrow> worker option \<Rightarrow> bool \<Rightarrow> unit cap" where
  "VerifyCounter n k e w alive = do1 (halt_leftover n k) (do1 (Arm n counter_cfg) (do1 (WaitFrozen k)
     (andThen status (\<lambda>m. counter_recall e w alive (md_Revision m)))))"

section \<open>The verifying sink\<close>

text \<open>The reference: how many of the words are the counter's from \<open>nx\<close> on.\<close>

fun matching :: "u32 \<Rightarrow> u32 list \<Rightarrow> nat" where
  "matching nx [] = 0"
| "matching nx (v # vs) = (if v = nx then Suc (matching (nx + 1) vs) else 0)"

definition word_at :: "byte list \<Rightarrow> nat \<Rightarrow> u32" where
  "word_at b i = word_of_nat (le_val (take 4 (drop i b)))"

definition le_words :: "byte list \<Rightarrow> u32 list" where
  "le_words b = map (\<lambda>j. word_at b (4 * j)) [0..<length b div 4]"

lemma le_val_append: "le_val (xs @ ys) = le_val xs + 256 ^ length xs * le_val ys"
  by (induction xs) (simp_all add: algebra_simps)

lemma le_val4: "le_val (take 4 (drop i b)) < 2 ^ 32"
proof -
  have "le_val (take 4 (drop i b)) < 256 ^ length (take 4 (drop i b))" by (rule le_val_bound)
  also have "\<dots> \<le> (256 :: nat) ^ 4" by (intro power_increasing) simp_all
  finally show ?thesis by simp
qed

lemma unat_pair: "unat (ucast x OR push_bit 32 (ucast y) :: u64) = unat (x :: u32) + 2 ^ 32 * unat (y :: u32)"
proof -
  have "(ucast x OR push_bit 32 (ucast y) :: u64) = ucast x + push_bit 32 (ucast y)"
    by (rule disjunctive_add [symmetric]) (auto simp: bit_simps dest!: bit_imp_le_length)
  also have "\<dots> = word_of_nat (unat x + 2 ^ 32 * unat y)"
    by (simp add: push_bit_eq_mult)
  finally have e: "(ucast x OR push_bit 32 (ucast y) :: u64) = word_of_nat (unat x + 2 ^ 32 * unat y)" .
  have "unat x + 2 ^ 32 * unat y < 2 ^ 64" using unat_u32_less [of x] unat_u32_less [of y] by (simp del: unat_u32_less)
  then show ?thesis unfolding e by (simp only: unat_of_nat) (simp add: take_bit_nat_eq_self)
qed

lemma pair_of_words:
  assumes "i + 8 \<le> length b"
  shows "(word_of_nat (le_val (take 8 (drop i b))) :: u64) = ucast x OR push_bit 32 (ucast y) \<longleftrightarrow> word_at b i = x \<and> word_at b (i + 4) = y"
proof -
  define lo hi where "lo = le_val (take 4 (drop i b))" and "hi = le_val (take 4 (drop (i + 4) b))"
  have "take 8 (drop i b) = take 4 (drop i b) @ take 4 (drop (i + 4) b)"
    using take_add [of 4 4 "drop i b"] by (simp add: add.commute)
  then have v: "le_val (take 8 (drop i b)) = lo + 2 ^ 32 * hi" using assms by (simp add: le_val_append lo_def hi_def)
  have b: "lo < 2 ^ 32" "hi < 2 ^ 32" unfolding lo_def hi_def by (rule le_val4)+
  have "lo + 2 ^ 32 * hi < 2 ^ 64" using b by simp
  then have u: "unat (word_of_nat (lo + 2 ^ 32 * hi) :: u64) = lo + 2 ^ 32 * hi"
    by (simp only: unat_of_nat) (simp add: take_bit_nat_eq_self)
  have w: "word_at b i = x \<longleftrightarrow> lo = unat x" "word_at b (i + 4) = y \<longleftrightarrow> hi = unat y"
    using b by (auto simp: word_at_def lo_def hi_def word_unat_eq_iff unat_of_nat take_bit_nat_eq_self)
  have "(word_of_nat (le_val (take 8 (drop i b))) :: u64) = ucast x OR push_bit 32 (ucast y)
      \<longleftrightarrow> lo + 2 ^ 32 * hi = unat x + 2 ^ 32 * unat y"
    unfolding word_unat_eq_iff unat_pair v u ..
  also have "\<dots> \<longleftrightarrow> lo = unat x \<and> hi = unat y"
  proof
    assume e: "lo + 2 ^ 32 * hi = unat x + 2 ^ 32 * unat y"
    have "unat x < 2 ^ 32" by simp
    then show "lo = unat x \<and> hi = unat y"
      using e b by (metis mod_less mod_mult_self2 add_left_cancel mult_cancel1 power_not_zero zero_neq_numeral)
  qed simp
  finally show ?thesis unfolding w .
qed

declare counter_pairs.simps [simp del] counter_words.simps [simp del]

lemma words_step:
  assumes "i < length b" and "word_at b i = nx"
  shows "counter_words nx i b = counter_words (nx + 1) (i + 4) b"
  using assms by (subst counter_words.simps) (simp add: word_at_def)

text \<open>The pairs are only a faster way over words that match.\<close>

lemma pairs_words: "(case counter_pairs nx i b of (nx, i) \<Rightarrow> counter_words nx i b) = counter_words nx i b"
proof (induction nx i b rule: counter_pairs.induct)
  case (1 nx i b)
  show ?case
  proof (cases "i + 8 \<le> length b \<and> (word_of_nat (le_val (take 8 (drop i b))) :: u64) = ucast nx OR push_bit 32 (ucast (nx + 1))")
    case True
    then have w: "word_at b i = nx" "word_at b (i + 4) = nx + 1" using pair_of_words [OF conjunct1 [OF True], of nx "nx + 1"] by blast+
    have "counter_words nx i b = counter_words (nx + 1 + 1) (i + 4 + 4) b"
      using words_step [OF _ w(1)] words_step [OF _ w(2)] True by simp
    then show ?thesis using "1.IH" [OF True] True by (subst counter_pairs.simps) (simp add: add.assoc)
  next
    case False
    then have "counter_pairs nx i b = (nx, i)" by (subst counter_pairs.simps) (simp only: if_False)
    then show ?thesis by simp
  qed
qed

lemma words_matching:
  "i mod 4 = 0 \<Longrightarrow> length b mod 4 = 0 \<Longrightarrow> i \<le> length b \<Longrightarrow>
   counter_words nx i b = (let g = matching nx (drop (i div 4) (le_words b)) in (i + 4 * g, i + 4 * g < length b, nx + of_nat g))"
proof (induction nx i b rule: counter_words.induct)
  case (1 nx i b)
  have l: "length (le_words b) = length b div 4" by (simp add: le_words_def)
  show ?case
  proof (cases "i < length b")
    case False
    then have "drop (i div 4) (le_words b) = []" using "1.prems" l by simp
    then show ?thesis using False "1.prems" by (subst counter_words.simps) simp
  next
    case True
    have lt: "i div 4 < length b div 4" and i4: "4 * (i div 4) = i" and le: "i + 4 \<le> length b"
      using True "1.prems" by presburger+
    then have d: "drop (i div 4) (le_words b) = word_at b i # drop (Suc (i div 4)) (le_words b)"
      using l by (subst Cons_nth_drop_Suc [symmetric]) (simp_all add: le_words_def)
    show ?thesis
    proof (cases "word_at b i = nx")
      case w: True
      have "counter_words (nx + 1) (i + 4) b = (let g = matching (nx + 1) (drop (Suc (i div 4)) (le_words b)) in
          (i + 4 + 4 * g, i + 4 + 4 * g < length b, nx + 1 + of_nat g))"
        using "1.IH" [OF True] w "1.prems" le by (simp add: word_at_def)
      then show ?thesis unfolding words_step [OF True w] d using w by (simp add: Let_def algebra_simps)
    next
      case False
      then show ?thesis using True unfolding d by (subst counter_words.simps) (simp add: word_at_def)
    qed
  qed
qed

text \<open>
  The counter check's sink is the plain comparison. Read two words at a time while both are right, then
  one at a time, it accepts whole words, counts exactly the leading words that continue the counter, and
  fails at the first that does not (or on a chunk that is not whole words), whatever the bytes.
\<close>

theorem counter_Write_compares:
  "counter_Write nx b = (if length b mod 4 \<noteq> 0 then (0, True, nx)
     else let g = matching nx (le_words b) in (4 * g, 4 * g < length b, nx + of_nat g))"
  using words_matching [of 0 b nx] by (simp add: counter_Write_def pairs_words)

end
