(* ===== verification/RecallSpans.thy ===== *)
theory RecallSpans
  imports SramRecall "HOL-Library.Multiset"
begin

text \<open>
  The spans a recall is read in: the loop of \<open>recallSpans\<close> ends, and its spans tile the window.
\<close>

definition words_of :: "span \<Rightarrow> nat list" where
  "words_of = (\<lambda>(off, n). [unat off..<unat off + unat n])"

lemma words_of_none: "words_of (pos, 0) = []"
  by (simp add: words_of_def)

lemma unat_min: "unat (min x y) = min (unat x) (unat (y :: u32))"
  by (simp add: min_def word_le_nat_alt)

text \<open>A piece of the window: how far it reaches, without wrapping.\<close>

lemma piece:
  assumes "pos \<le> cnt"
  shows "unat (min (cnt - pos) p) = min (unat cnt - unat pos) (unat (p :: u32))"
    "unat (pos + min (cnt - pos) p) = unat pos + min (unat cnt - unat pos) (unat p)"
    "pos + min (cnt - pos) p \<le> cnt"
proof -
  have le: "unat pos \<le> unat cnt" using assms by (simp add: word_le_nat_alt)
  have d: "unat (cnt - pos) = unat cnt - unat pos" using assms by (rule unat_sub)
  show n: "unat (min (cnt - pos) p) = min (unat cnt - unat pos) (unat p)" by (simp add: unat_min d)
  have "unat pos + unat (min (cnt - pos) p) \<le> unat cnt" using le unfolding n by (auto simp: min_def)
  then have "unat pos + unat (min (cnt - pos) p) < 2 ^ 32" by (rule order_le_less_trans) simp
  then show u: "unat (pos + min (cnt - pos) p) = unat pos + min (unat cnt - unat pos) (unat p)"
    by (simp add: unat_word_ariths n)
  show "pos + min (cnt - pos) p \<le> cnt" using le by (simp add: word_le_nat_alt u)
qed

lemma words_of_piece:
  assumes "pos \<le> cnt"
  shows "words_of (pos, min (cnt - pos) p) = [unat pos..<unat (pos + min (cnt - pos) p)]"
  using piece [OF assms, of p] by (simp add: words_of_def)

lemma mset_upt_join: "x \<le> y \<Longrightarrow> y \<le> z \<Longrightarrow> mset [x..<y] + mset [y..<z] = mset [x..<z]"
  by (metis le_Suc_ex mset_append upt_add_eq_append)

definition span_ok :: "u32 \<Rightarrow> u32 \<Rightarrow> u32 \<Rightarrow> span \<Rightarrow> bool" where
  "span_ok cnt payload gap = (\<lambda>(off, n). n \<noteq> 0 \<and> n \<le> max payload gap \<and> unat off + unat n \<le> unat cnt)"

lemma span_ok_piece:
  assumes "pos \<le> cnt" and "min (cnt - pos) p \<noteq> 0" and "p \<le> max payload gap"
  shows "span_ok cnt payload gap (pos, min (cnt - pos) p)"
proof -
  have "min (cnt - pos) p \<le> max payload gap" using assms(3) by (meson min.cobounded2 order_trans)
  then show ?thesis using piece [OF assms(1), of p] assms(2) by (simp add: span_ok_def word_le_nat_alt)
qed

lemma piece_nonzero: "pos < cnt \<Longrightarrow> p \<noteq> 0 \<Longrightarrow> min (cnt - pos) p \<noteq> (0 :: u32)"
  by (auto simp: min_def)

lemma span_loop_tiles:
  assumes "payload \<noteq> 0" and "pos \<le> cnt"
  shows "\<exists>bs hs. span_loop cnt payload gap pos bulk holes = Some (bulk @ bs, holes @ hs)
    \<and> mset (concat (map words_of (bs @ hs))) = mset [unat pos..<unat cnt]
    \<and> list_all (span_ok cnt payload gap) (bs @ hs)
    \<and> (gap = 0 \<longrightarrow> hs = [] \<and> concat (map words_of bs) = [unat pos..<unat cnt])"
  using assms(2)
proof (induction "unat cnt - unat pos" arbitrary: pos bulk holes rule: less_induct)
  case less
  show ?case
  proof (cases "pos < cnt")
    case False
    then have "pos = cnt" using less.prems by simp
    then show ?thesis using False by (subst span_loop.simps) (auto intro!: exI [of _ "[]"])
  next
    case True
    define n where "n = min (cnt - pos) payload"
    define h where "h = min (cnt - (pos + n)) gap"
    have p1: "pos + n \<le> cnt" and u1: "unat (pos + n) = unat pos + min (unat cnt - unat pos) (unat payload)"
      unfolding n_def by (rule piece [OF less.prems])+
    have p2: "pos + n + h \<le> cnt" and u2: "unat (pos + n + h) = unat (pos + n) + min (unat cnt - unat (pos + n)) (unat gap)"
      unfolding h_def by (rule piece [OF p1])+
    have n0: "n \<noteq> 0" unfolding n_def by (rule piece_nonzero [OF True assms(1)])
    have pl: "0 < unat payload" "unat pos < unat cnt" using assms(1) True by (simp_all add: unat_gt_0 word_less_nat_alt)
    have dec: "unat cnt - unat (pos + n + h) < unat cnt - unat pos" using pl u1 u2 by (auto simp: min_def)
    obtain bs hs where ih: "span_loop cnt payload gap (pos + n + h) (bulk @ [(pos, n)]) (if h \<noteq> 0 then holes @ [(pos + n, h)] else holes)
        = Some ((bulk @ [(pos, n)]) @ bs, (if h \<noteq> 0 then holes @ [(pos + n, h)] else holes) @ hs)"
      and tl: "mset (concat (map words_of (bs @ hs))) = mset [unat (pos + n + h)..<unat cnt]"
      and ok: "list_all (span_ok cnt payload gap) (bs @ hs)"
      and g: "gap = 0 \<longrightarrow> hs = [] \<and> concat (map words_of bs) = [unat (pos + n + h)..<unat cnt]"
      using less.hyps [OF dec p2] by blast
    have w1: "words_of (pos, n) = [unat pos..<unat (pos + n)]" unfolding n_def by (rule words_of_piece [OF less.prems])
    have w2: "words_of (pos + n, h) = [unat (pos + n)..<unat (pos + n + h)]" unfolding h_def by (rule words_of_piece [OF p1])
    have le: "unat pos \<le> unat (pos + n)" "unat (pos + n) \<le> unat (pos + n + h)" "unat (pos + n + h) \<le> unat cnt"
      using u1 u2 p2 by (simp_all add: word_le_nat_alt)
    have ok1: "span_ok cnt payload gap (pos, n)" unfolding n_def
      by (rule span_ok_piece) (use less.prems n0 [unfolded n_def] in simp_all)
    have ok2: "h \<noteq> 0 \<Longrightarrow> span_ok cnt payload gap (pos + n, h)" unfolding h_def
      by (rule span_ok_piece [OF p1]) simp_all
    define hs' where "hs' = (if h \<noteq> 0 then [(pos + n, h)] else []) @ hs"
    have "span_loop cnt payload gap pos bulk holes = Some (bulk @ ((pos, n) # bs), holes @ hs')"
      using ih True by (subst span_loop.simps) (auto simp: Let_def hs'_def n_def h_def)
    moreover have "mset (concat (map words_of (((pos, n) # bs) @ hs'))) = mset [unat pos..<unat cnt]"
    proof -
      have "mset (concat (map words_of (((pos, n) # bs) @ hs')))
          = mset [unat pos..<unat (pos + n)] + (mset (words_of (pos + n, h)) + mset (concat (map words_of (bs @ hs))))"
        unfolding hs'_def by (cases "h = 0") (simp_all add: w1 words_of_none)
      then show ?thesis using le by (simp only: w2 tl mset_upt_join)
    qed
    moreover have "list_all (span_ok cnt payload gap) (((pos, n) # bs) @ hs')" using ok ok1 ok2 by (simp add: hs'_def)
    moreover have "gap = 0 \<longrightarrow> hs' = [] \<and> concat (map words_of ((pos, n) # bs)) = [unat pos..<unat cnt]"
    proof
      assume g0: "gap = 0"
      then have h0: "h = 0" by (simp add: h_def min_def)
      have "[unat pos..<unat (pos + n)] @ [unat (pos + n)..<unat cnt] = [unat pos..<unat cnt]"
        using le h0 by (metis add.right_neutral le_Suc_ex upt_add_eq_append)
      then show "hs' = [] \<and> concat (map words_of ((pos, n) # bs)) = [unat pos..<unat cnt]"
        using g g0 h0 by (simp add: hs'_def w1)
    qed
    ultimately show ?thesis by blast
  qed
qed

text \<open>
  C23: The window's spans. With room for at least one word a burst, the loop that cuts a window into spans
  ends, and the spans tile the window: every word is in exactly one of them, none is empty, reaches past
  the window or is longer than a burst (or the gap left between bursts) allows.
\<close>

theorem recallSpans_tile:
  assumes "payload \<noteq> 0"
  shows "\<exists>spans. recallSpans cnt payload gap = Some spans
    \<and> mset (concat (map words_of spans)) = mset [0..<unat cnt]
    \<and> list_all (span_ok cnt payload gap) spans"
proof -
  have "0 \<le> cnt" by simp
  from span_loop_tiles [OF assms this, of gap "[]" "[]"] show ?thesis by (auto simp: recallSpans_def simp del: map_append concat_append mset_append)
qed

lemma recallSpans_tile_witness:
  "\<exists>spans. recallSpans 5000 (4096 - 16) 18 = Some spans \<and> mset (concat (map words_of spans)) = mset [0..<5000]
    \<and> list_all (span_ok 5000 4080 18) spans"
  using recallSpans_tile [of "4096 - 16" 5000 18] by simp

end
