(* ===== verification/BusDevice.thy ===== *)
theory BusDevice
  imports SramBus
begin

text \<open>
  A device behind the register bus: what a register read gives, and what an access does to it. The locale
  \<open>bus_device\<close> is the interface: a fabric that answers every access as the device, in the state the
  accesses before have left it in. Inside it, every operation of the capture is a step on the device, whether
  its writes queue (as in a recall) or go straight out: \<open>exec q m d x d'\<close> says that \<open>m\<close> takes the device from \<open>d\<close>
  to \<open>d'\<close> and returns \<open>x\<close>.
\<close>

locale bus_device =
  fixes dread :: "'d \<Rightarrow> nat \<Rightarrow> u16" and dop :: "bop \<Rightarrow> 'd \<Rightarrow> 'd" and dfirst :: 'd and dfab :: fabric
  assumes dev_reads: "fb_read dfab tr s = Some (dread (fold dop tr dfirst) s)"
    and dev_writes: "fb_write dfab tr s v"
begin

text \<open>The device when the queued writes are through.\<close>

definition dev_at :: "capture \<Rightarrow> 'd" where
  "dev_at c = fold dop (cp_trace c @ map (\<lambda>(s, v). BWrite s v) (cp_pending c)) dfirst"

text \<open>Writes queue, or go straight out with none left over.\<close>

definition steady :: "bool \<Rightarrow> capture \<Rightarrow> bool" where
  "steady queue c \<longleftrightarrow> \<not> cp_armReady c \<and> cp_queueWrites c = queue \<and> (queue \<or> cp_pending c = [])"

definition exec :: "bool \<Rightarrow> 'a cap \<Rightarrow> 'd \<Rightarrow> 'a \<Rightarrow> 'd \<Rightarrow> bool" where
  "exec q m d x d' \<longleftrightarrow> (\<forall>c. steady q c \<longrightarrow> dev_at c = d \<longrightarrow>
     (\<exists>c'. m dfab c = (Inr x, c') \<and> steady q c' \<and> dev_at c' = d'))"

lemma exec_ret: "exec q (ret x) d x d"
  by (simp add: exec_def ret_def)

lemma exec_andThen:
  assumes "exec q m d x d1" and "exec q (f x) d1 y d2"
  shows "exec q (andThen m f) d y d2"
  unfolding exec_def
proof (intro allI impI)
  fix c assume "steady q c" "dev_at c = d"
  then obtain c1 where "m dfab c = (Inr x, c1)" "steady q c1" "dev_at c1 = d1" using assms(1) by (auto simp: exec_def)
  moreover then obtain c2 where "f x dfab c1 = (Inr y, c2)" "steady q c2" "dev_at c2 = d2" using assms(2) by (auto simp: exec_def)
  ultimately show "\<exists>c'. andThen m f dfab c = (Inr y, c') \<and> steady q c' \<and> dev_at c' = d2" by (simp add: andThen_def)
qed

lemma send_all: "sendMany rs dfab c = (Inr (), c\<lparr>cp_trace := cp_trace c @ map (\<lambda>(s, v). BWrite s v) rs\<rparr>)"
proof (induction rs arbitrary: c)
  case (Cons r rs)
  then show ?case by (cases r) (simp add: andThen_def RawWrite_def dev_writes)
qed (simp add: ret_def)

lemma flush_all:
  "flushWrites dfab c = (Inr (), c\<lparr>cp_trace := cp_trace c @ map (\<lambda>(s, v). BWrite s v) (cp_pending c), cp_pending := []\<rparr>)"
  by (simp add: flushWrites_def send_all)

lemma exec_read: "exec q (read_reg s) d (dread d s) (dop (BRead s) d)"
  unfolding exec_def
  by (auto simp: read_reg_def cached_def steady_def dev_at_def flush_all bus_read_def andThen_def dev_reads)

lemma exec_write: "exec q (write_reg s v) d () (dop (BWrite s v) d)"
  by (auto simp: exec_def write_reg_def steady_def dev_at_def RawWrite_def dev_writes)

lemma exec_flush: "exec q flushWrites d () d"
  by (auto simp: exec_def flush_all steady_def dev_at_def)

lemma exec_writeMany: "exec q (writeMany rs) d () (fold (\<lambda>(s, v). dop (BWrite s v)) rs d)"
proof -
  have f: "fold dop (map (\<lambda>(s, v). BWrite s v) rs) d = fold (\<lambda>(s, v). dop (BWrite s v)) rs d" for d
    by (induction rs arbitrary: d) auto
  show ?thesis by (auto simp: exec_def writeMany_def steady_def dev_at_def send_all f)
qed

lemma exec_update:
  assumes "\<And>c. cp_trace (f c) = cp_trace c \<and> cp_pending (f c) = cp_pending c \<and> cp_queueWrites (f c) = cp_queueWrites c \<and> cp_armReady (f c) = cp_armReady c"
  shows "exec q (update f) d () d"
  using assms by (simp add: exec_def update_def steady_def dev_at_def)

text \<open>Reading a list of registers; the device may change with each read.\<close>

fun reads_of :: "'d \<Rightarrow> nat list \<Rightarrow> u16 list" where
  "reads_of d [] = []"
| "reads_of d (s # ss) = dread d s # reads_of (dop (BRead s) d) ss"

lemma exec_read_all: "exec q (read_all ss) d (reads_of d ss) (fold (\<lambda>s. dop (BRead s)) ss d)"
  by (induction ss arbitrary: d) (auto intro!: exec_andThen exec_read exec_ret)

lemma exec_readMany: "exec q (readMany ss) d (reads_of d ss) (fold (\<lambda>s. dop (BRead s)) ss d)"
  unfolding readMany_def by (rule exec_andThen [OF exec_flush exec_read_all])

lemma exec_write32: "exec q (write32 s v) d () (dop (BWrite (Suc s) (hi16 v)) (dop (BWrite s (lo16 v)) d))"
  unfolding write32_def using exec_andThen [OF exec_write [of q s "lo16 v" d] exec_write] by simp

end

end
