(* ===== verification/RecallDevice.thy ===== *)
theory RecallDevice
  imports RecallSpans BusDevice
begin

text \<open>
  The acquisition fabric with a frozen record, as the recall's code and its test bus describe it: command 3
  moves the read pointer, command 2 fills the read buffer from it, register 17 sets the pop pointer,
  register 25 pops a halfword. A command keeps the fabric busy for \<open>sf_latency\<close> reads of the status; where
  a burst leaves the read pointer (\<open>sf_after\<close>), and every other register, are the fabric's own.
\<close>

section \<open>The device\<close>

record sram_dev =
  sd_pos :: u32
  sd_ack :: bool
  sd_busy :: nat
  sd_lo :: u16
  sd_hi :: u16
  sd_buf :: "nat \<Rightarrow> u32"
  sd_got :: u16
  sd_ptr :: nat

record sram_fabric =
  sf_mem :: "u32 \<Rightarrow> u32"
  sf_latency :: nat
  sf_buffer :: u16
  sf_after :: "u32 \<Rightarrow> u32"
  sf_other :: "nat \<Rightarrow> u16"
  sf_first :: sram_dev

definition sram_command :: "sram_fabric \<Rightarrow> u16 \<Rightarrow> sram_dev \<Rightarrow> sram_dev" where
  "sram_command P v d =
     (let arg = u32_of (sd_lo d) (sd_hi d); d = d\<lparr>sd_ack := \<not> sd_ack d, sd_busy := sf_latency P\<rparr> in
      if v = 3 then d\<lparr>sd_pos := (sd_pos d + arg) AND addressMask\<rparr>
      else if v = 2 then d\<lparr>sd_buf := (\<lambda>i. sf_mem P ((sd_pos d + of_nat i) AND addressMask)), sd_got := lo16 arg,
        sd_pos := sf_after P (sd_pos d + arg)\<rparr>
      else d)"

fun sram_op :: "sram_fabric \<Rightarrow> bop \<Rightarrow> sram_dev \<Rightarrow> sram_dev" where
  "sram_op P (BRead s) d =
     (if s = 1 then d\<lparr>sd_busy := sd_busy d - 1\<rparr>
      else if s = 25 then d\<lparr>sd_ptr := Suc (sd_ptr d) mod (2 * unat (sf_buffer P))\<rparr> else d)"
| "sram_op P (BWrite s v) d =
     (if s = 1 then sram_command P v d else if s = 8 then d\<lparr>sd_lo := v\<rparr> else if s = 9 then d\<lparr>sd_hi := v\<rparr>
      else if s = 17 then d\<lparr>sd_ptr := unat v\<rparr> else d)"
| "sram_op P (BWriteErr s v) d = d"

definition sram_status :: "sram_dev \<Rightarrow> u16" where
  "sram_status d = (if sd_busy d = 0 then 4 else 0) OR (if sd_ack d then 512 else 0)"

definition buf_half :: "(nat \<Rightarrow> u32) \<Rightarrow> nat \<Rightarrow> u16" where
  "buf_half buf p = (if even p then lo16 (buf (p div 2)) else hi16 (buf (p div 2)))"

definition sram_read :: "sram_fabric \<Rightarrow> sram_dev \<Rightarrow> nat \<Rightarrow> u16" where
  "sram_read P d s =
     (if s = 1 then sram_status d else if s = 8 then lo16 (sd_pos d) else if s = 9 then hi16 (sd_pos d)
      else if s = 12 then sd_got d else if s = 25 then buf_half (sd_buf d) (sd_ptr d)
      else if s = 26 then sf_buffer P else if s = 27 then word_of_nat (sd_ptr d) else sf_other P s)"

definition sram_bus :: "sram_fabric \<Rightarrow> fabric" where
  "sram_bus P = \<lparr>fb_read = (\<lambda>tr s. Some (sram_read P (fold (sram_op P) tr (sf_first P)) s)), fb_write = (\<lambda>tr s v. True)\<rparr>"

text \<open>A batch pop on a device: its halfwords in order.\<close>

context bus_device
begin

lemma pop_all:
  "cp_pending c = [] \<Longrightarrow> bus_pop s n dfab c
    = (Inr (reads_of (dev_at c) (replicate n s)), c\<lparr>cp_trace := cp_trace c @ replicate n (BRead s)\<rparr>)"
  by (induction n arbitrary: c) (simp_all add: ret_def andThen_def dev_reads dev_at_def)

lemma fold_reads: "fold dop (replicate n (BRead s)) d = fold (\<lambda>s. dop (BRead s)) (replicate n s) d"
  by (induction n arbitrary: d) simp_all

lemma exec_pop: "exec q (do1 flushWrites (bus_pop s n)) d (reads_of d (replicate n s)) (fold (\<lambda>s. dop (BRead s)) (replicate n s) d)"
  unfolding exec_def
proof (intro allI impI)
  fix c assume st: "steady q c" and d: "dev_at c = d"
  define c1 where "c1 = c\<lparr>cp_trace := cp_trace c @ map (\<lambda>(s, v). BWrite s v) (cp_pending c), cp_pending := []\<rparr>"
  have "cp_pending c1 = []" "dev_at c1 = d" "steady q c1" using st d by (simp_all add: c1_def dev_at_def steady_def)
  moreover have "flushWrites dfab c = (Inr (), c1)" unfolding c1_def by (rule flush_all)
  ultimately show "\<exists>c'. do1 flushWrites (bus_pop s n) dfab c = (Inr (reads_of d (replicate n s)), c') \<and> steady q c'
      \<and> dev_at c' = fold (\<lambda>s. dop (BRead s)) (replicate n s) d"
    by (simp add: andThen_def pop_all dev_at_def steady_def fold_reads)
qed

lemma exec_pop_halves:
  "exec q (do1 flushWrites (pop_halves batch s n)) d (reads_of d (replicate n s)) (fold (\<lambda>s. dop (BRead s)) (replicate n s) d)"
  unfolding pop_halves_def by (cases batch) (simp_all only: if_True if_False exec_pop exec_readMany [unfolded readMany_def])

text \<open>Without a queue there is nothing to flush first.\<close>

lemma exec_pop_direct:
  "exec False (pop_halves batch s n) d (reads_of d (replicate n s)) (fold (\<lambda>s. dop (BRead s)) (replicate n s) d)"
proof -
  have "exec False (bus_pop s n) d (reads_of d (replicate n s)) (fold (\<lambda>s. dop (BRead s)) (replicate n s) d)"
    by (simp add: exec_def steady_def pop_all) (simp add: dev_at_def fold_reads)
  then show ?thesis unfolding pop_halves_def by (cases batch) (simp_all only: if_True if_False exec_read_all)
qed

end

interpretation sram: bus_device "sram_read P" "sram_op P" "sf_first P" "sram_bus P" for P
  by unfold_locales (simp_all add: sram_bus_def)

section \<open>Commands and waits\<close>

lemma status_bits:
  "sram_status d AND 512 = (if sd_ack d then 512 else 0)" "sram_status d AND 384 = 0"
  "sram_status d AND 4 = 4 \<longleftrightarrow> sd_busy d = 0"
  by (simp_all add: sram_status_def)

lemma sram_read_simps [simp]:
  "sram_read P d 1 = sram_status d" "sram_read P d (Suc 0) = sram_status d" "sram_read P d 8 = lo16 (sd_pos d)"
  "sram_read P d 9 = hi16 (sd_pos d)" "sram_read P d 12 = sd_got d"
  "sram_read P d 25 = buf_half (sd_buf d) (sd_ptr d)" "sram_read P d 26 = sf_buffer P" "sram_read P d 27 = word_of_nat (sd_ptr d)"
  by (simp_all add: sram_read_def)

text \<open>A command runs; the device is then busy for what is left of its latency.\<close>

lemma exec_status: "sram.exec P True (read_reg 1) d (sram_status d) (d\<lparr>sd_busy := sd_busy d - 1\<rparr>)"
  using sram.exec_read [of P True 1 d] by simp

lemma exec_command:
  assumes "2 \<le> k"
  shows "sram.exec P True (commandIn k op) d () ((sram_command P op d)\<lparr>sd_busy := sf_latency P - 1\<rparr>)"
proof -
  obtain n where n: "k = Suc (Suc n)" using assms by (metis Suc_le_D numeral_2_eq_2 Suc_le_mono)
  define d1 where "d1 = d\<lparr>sd_busy := sd_busy d - 1\<rparr>"
  define d2 where "d2 = sram_command P op d1"
  have ack: "sd_ack d2 = (\<not> sd_ack d)" and fin: "d2\<lparr>sd_busy := sd_busy d2 - 1\<rparr> = (sram_command P op d)\<lparr>sd_busy := sf_latency P - 1\<rparr>"
    by (simp_all add: d2_def d1_def sram_command_def Let_def)
  have tog: "sram_status d2 AND 512 \<noteq> sram_status d AND 512" by (simp add: status_bits ack)
  have r: "sram.exec P True (read_reg 1) d (sram_status d) d1" unfolding d1_def by (rule exec_status)
  have w: "sram.exec P True (write_reg 1 op) d1 () d2" using sram.exec_write [of P True 1 op d1] by (simp add: d2_def)
  have "sram.exec P True (ack_loop (Suc n) op (sram_status d AND 512)) d2 () (d2\<lparr>sd_busy := sd_busy d2 - 1\<rparr>)"
    unfolding ack_loop.simps by (rule sram.exec_andThen [OF exec_status]) (simp add: tog status_bits(2) sram.exec_ret)
  then have "sram.exec P True (andThen (read_reg 1) (\<lambda>s. do1 (write_reg 1 op) (ack_loop (Suc n) op (s AND 512)))) d ()
      (d2\<lparr>sd_busy := sd_busy d2 - 1\<rparr>)"
    by (intro sram.exec_andThen [OF r] sram.exec_andThen [OF w])
  then show ?thesis unfolding fin commandIn_def n by simp
qed

lemma exec_wait: "sd_busy d < k \<Longrightarrow> sram.exec P True (wait_mask k 4) d () (d\<lparr>sd_busy := 0\<rparr>)"
proof (induction k arbitrary: d)
  case (Suc k)
  show ?case
  proof (cases "sd_busy d = 0")
    case True
    then show ?thesis unfolding wait_mask.simps
      by (intro sram.exec_andThen [OF exec_status]) (simp add: status_bits sram.exec_ret)
  next
    case False
    then have "sram.exec P True (wait_mask k 4) (d\<lparr>sd_busy := sd_busy d - 1\<rparr>) () (d\<lparr>sd_busy := 0\<rparr>)"
      using Suc.IH [of "d\<lparr>sd_busy := sd_busy d - 1\<rparr>"] Suc.prems by simp
    then show ?thesis unfolding wait_mask.simps using False
      by (intro sram.exec_andThen [OF exec_status]) (simp add: status_bits)
  qed
qed simp

end
