(* ===== verification/RecallBurst.thy ===== *)
theory RecallBurst
  imports RecallDevice
begin

text \<open>
  One burst of a recall on the fabric: whatever the fabric was left in by the bursts before, the bytes that
  come out are the memory words behind the discarded prefix.
\<close>

section \<open>Words, halves and addresses\<close>

lemma addressMask_eq: "addressMask = mask 19"
  by (simp add: addressMask_def mask_eq_exp_minus_1)

lemma address_of: "x AND addressMask = take_bit 19 x"
  unfolding addressMask_eq by (simp add: take_bit_eq_mask)

lemma take_bit_add_word: "take_bit 19 (take_bit 19 x + y) = take_bit 19 (x + y :: u32)"
proof -
  have "uint (take_bit 19 (take_bit 19 x + y)) = uint (take_bit 19 (x + y))"
    by (simp only: unsigned_take_bit_eq uint_word_ariths) (simp add: take_bit_eq_mod mod_mod_cancel mod_simps)
  then show ?thesis by (rule word_uint_eqI)
qed

lemma address_add: "((x AND addressMask) + y) AND addressMask = (x + y) AND addressMask"
  unfolding address_of by (rule take_bit_add_word)

lemma address_skip: "(p + ((t - p) AND addressMask)) AND addressMask = t AND addressMask"
proof -
  have "(p + ((t - p) AND addressMask)) AND addressMask = (((t - p) AND addressMask) + p) AND addressMask" by (simp add: add.commute)
  also have "\<dots> = t AND addressMask" by (simp add: address_add)
  finally show ?thesis .
qed

lemma unat_lo16: "unat (lo16 w) = unat w mod 65536"
  unfolding lo16_def mask16 take_bit_eq_mask [symmetric]
  by (simp only: unsigned_ucast_eq unsigned_take_bit_eq) (simp add: take_bit_eq_mod)

lemma unat_hi16: "unat (hi16 w) = unat w div 65536"
proof -
  have "unat w div 65536 < 65536" using unat_u32_less [of w] by (simp del: unat_u32_less)
  then show ?thesis unfolding hi16_def
    by (simp only: unsigned_ucast_eq unsigned_drop_bit_eq) (simp add: drop_bit_eq_div take_bit_eq_mod)
qed

lemma le_bytes_halves: "le_bytes 4 v = le_bytes 2 (v mod 65536) @ le_bytes 2 (v div 65536)"
proof -
  have a: "word_of_nat (v mod 65536) = (word_of_nat v :: byte)"
    by (simp add: word_of_nat_eq_iff take_bit_eq_mod mod_mod_cancel)
  have "v mod (256 * 256) = 256 * (v div 256 mod 256) + v mod 256" by (rule mod_mult2_eq)
  then have "v mod 65536 div 256 = v div 256 mod 256" by simp
  then have b: "word_of_nat (v mod 65536 div 256) = (word_of_nat (v div 256) :: byte)"
    by (simp add: word_of_nat_eq_iff take_bit_eq_mod)
  have n: "(4 :: nat) = Suc (Suc (Suc (Suc 0)))" "(2 :: nat) = Suc (Suc 0)" by simp_all
  show ?thesis unfolding n by (simp add: a b div_mult2_eq [symmetric])
qed

lemma half_bytes_word: "half_bytes [lo16 w, hi16 w] = le_bytes 4 (unat w)"
  by (simp add: half_bytes_def le_bytes_halves [of "unat w"] unat_lo16 unat_hi16)

lemma half_bytes_append: "half_bytes (xs @ ys) = half_bytes xs @ half_bytes ys"
  by (simp add: half_bytes_def)


section \<open>The pop\<close>

lemma half_bytes_Cons: "half_bytes (x # y # xs) = half_bytes [x, y] @ half_bytes xs"
  by (simp add: half_bytes_def)

lemma pops:
  assumes "2 * q + 2 * n \<le> 2 * B" and "B = unat (sf_buffer P)" and "sd_ptr d = (2 * q) mod (2 * B)"
  shows "half_bytes (sram.reads_of P d (replicate (n * 2) 25)) = concat (map (\<lambda>j. le_bytes 4 (unat (sd_buf d j))) [q..<q + n])
    \<and> fold (\<lambda>s. sram_op P (BRead s)) (replicate (n * 2) 25) d = d\<lparr>sd_ptr := (2 * q + 2 * n) mod (2 * B)\<rparr>"
  using assms
proof (induction n arbitrary: q d)
  case 0
  then show ?case by (cases d) (simp add: half_bytes_def)
next
  case (Suc n)
  have B: "Suc (2 * q) < 2 * B" using Suc.prems(1) by simp
  then have p: "sd_ptr d = 2 * q" using Suc.prems(3) by simp
  define d1 where "d1 = d\<lparr>sd_ptr := Suc (2 * q)\<rparr>"
  define d2 where "d2 = d\<lparr>sd_ptr := (2 * Suc q) mod (2 * B)\<rparr>"
  have s1: "sram_op P (BRead 25) d = d1" using B p Suc.prems(2) by (simp add: d1_def)
  have s2: "sram_op P (BRead 25) d1 = d2" using Suc.prems(2) by (simp add: d1_def d2_def)
  have h: "sram_read P d 25 = lo16 (sd_buf d q)" "sram_read P d1 25 = hi16 (sd_buf d q)"
    using p by (simp_all add: buf_half_def d1_def)
  have ih: "half_bytes (sram.reads_of P d2 (replicate (n * 2) 25)) = concat (map (\<lambda>j. le_bytes 4 (unat (sd_buf d j))) [Suc q..<Suc q + n])
    \<and> fold (\<lambda>s. sram_op P (BRead s)) (replicate (n * 2) 25) d2 = d2\<lparr>sd_ptr := (2 * Suc q + 2 * n) mod (2 * B)\<rparr>"
    using Suc.IH [of "Suc q" d2] Suc.prems by (simp add: d2_def del: sram_op.simps)
  have r: "replicate (Suc n * 2) 25 = (25 :: nat) # 25 # replicate (n * 2) 25" by simp
  have u: "[q..<q + Suc n] = q # [Suc q..<Suc q + n]" by (simp add: upt_conv_Cons)
  have "half_bytes (sram.reads_of P d (replicate (Suc n * 2) 25))
      = half_bytes [lo16 (sd_buf d q), hi16 (sd_buf d q)] @ half_bytes (sram.reads_of P d2 (replicate (n * 2) 25))"
    unfolding r by (simp only: sram.reads_of.simps s1 s2 h, rule half_bytes_Cons)
  moreover have "fold (\<lambda>s. sram_op P (BRead s)) (replicate (Suc n * 2) 25) d = d\<lparr>sd_ptr := (2 * q + 2 * Suc n) mod (2 * B)\<rparr>"
  proof -
    have "fold (\<lambda>s. sram_op P (BRead s)) (replicate (Suc n * 2) 25) d = fold (\<lambda>s. sram_op P (BRead s)) (replicate (n * 2) 25) d2"
      unfolding r by (simp only: fold_simps s1 s2)
    also have "\<dots> = d2\<lparr>sd_ptr := (2 * Suc q + 2 * n) mod (2 * B)\<rparr>" by (rule conjunct2 [OF ih])
    also have "\<dots> = d\<lparr>sd_ptr := (2 * q + 2 * Suc n) mod (2 * B)\<rparr>" by (simp add: d2_def)
    finally show ?thesis .
  qed
  ultimately show ?case using conjunct1 [OF ih] unfolding u by (simp only: half_bytes_word list.map concat.simps)
qed


section \<open>The burst\<close>

lemma exec_move:
  assumes "2 \<le> k" and "sf_latency P \<le> k"
  shows "\<exists>d'. sram.exec P True (do1 (write32 8 skip) (do1 (commandIn k 3) (wait_mask k 4))) d () d'
    \<and> sd_pos d' = (sd_pos d + skip) AND addressMask"
proof -
  define d1 where "d1 = d\<lparr>sd_lo := lo16 skip, sd_hi := hi16 skip\<rparr>"
  define d2 where "d2 = (sram_command P 3 d1)\<lparr>sd_busy := sf_latency P - 1\<rparr>"
  have w: "sram.exec P True (write32 8 skip) d () d1" using sram.exec_write32 [of P True 8 skip d] by (simp add: d1_def)
  have m: "sram.exec P True (commandIn k 3) d1 () d2" unfolding d2_def by (rule exec_command [OF assms(1)])
  have b: "sram.exec P True (wait_mask k 4) d2 () (d2\<lparr>sd_busy := 0\<rparr>)" using assms by (intro exec_wait) (simp add: d2_def)
  have "sram.exec P True (do1 (write32 8 skip) (do1 (commandIn k 3) (wait_mask k 4))) d () (d2\<lparr>sd_busy := 0\<rparr>)"
    by (intro sram.exec_andThen [OF w] sram.exec_andThen [OF m] b)
  moreover have "sd_pos (d2\<lparr>sd_busy := 0\<rparr>) = (sd_pos d + skip) AND addressMask"
    by (simp add: d2_def d1_def sram_command_def Let_def)
  ultimately show ?thesis by blast
qed

lemma exec_seek:
  assumes "2 \<le> k" and "sf_latency P \<le> k" and "target AND addressMask = target"
    and "pf ! 0 = lo16 (sd_pos d)" and "pf ! 1 = hi16 (sd_pos d)"
  shows "\<exists>d'. sram.exec P True (seek k 16 target pf) d 2 d' \<and> sd_pos d' AND addressMask = target"
proof -
  define skip where "skip = (target - sd_pos d) AND addressMask"
  have s: "seek k 16 target pf = do1 (if skip \<noteq> 0 then do1 (write32 8 skip) (do1 (commandIn k 3) (wait_mask k 4)) else ret ()) (ret 2)"
    using assms(4,5) by (simp add: seek_def skip_def Let_def)
  have pos: "(sd_pos d + skip) AND addressMask = target" unfolding skip_def by (simp add: address_skip assms(3))
  show ?thesis
  proof (cases "skip = 0")
    case True
    then have "sram.exec P True (seek k 16 target pf) d 2 d"
      unfolding s using sram.exec_andThen [OF sram.exec_ret sram.exec_ret] by simp
    then show ?thesis using pos True by auto
  next
    case False
    obtain d' where "sram.exec P True (do1 (write32 8 skip) (do1 (commandIn k 3) (wait_mask k 4))) d () d'"
      and p: "sd_pos d' = (sd_pos d + skip) AND addressMask" using exec_move [OF assms(1,2)] by blast
    then have "sram.exec P True (seek k 16 target pf) d 2 d'"
      unfolding s using False by (simp only: if_True not_False_eq_True) (rule sram.exec_andThen, assumption, rule sram.exec_ret)
    moreover have "sd_pos d' AND addressMask = target" unfolding p pos using assms(3) by simp
    ultimately show ?thesis by blast
  qed
qed

lemma exec_fill:
  assumes "2 \<le> k" and "sf_latency P \<le> k"
  shows "\<exists>d'. sram.exec P True (do1 (write32 8 arg) (do1 (commandIn k 2) (wait_mask k 4))) d () d'
    \<and> sd_buf d' = (\<lambda>i. sf_mem P ((sd_pos d + of_nat i) AND addressMask)) \<and> sd_got d' = lo16 arg"
proof -
  define d1 where "d1 = d\<lparr>sd_lo := lo16 arg, sd_hi := hi16 arg\<rparr>"
  define d2 where "d2 = (sram_command P 2 d1)\<lparr>sd_busy := sf_latency P - 1\<rparr>"
  have w: "sram.exec P True (write32 8 arg) d () d1" using sram.exec_write32 [of P True 8 arg d] by (simp add: d1_def)
  have m: "sram.exec P True (commandIn k 2) d1 () d2" unfolding d2_def by (rule exec_command [OF assms(1)])
  have b: "sram.exec P True (wait_mask k 4) d2 () (d2\<lparr>sd_busy := 0\<rparr>)" using assms by (intro exec_wait) (simp add: d2_def)
  have "sram.exec P True (do1 (write32 8 arg) (do1 (commandIn k 2) (wait_mask k 4))) d () (d2\<lparr>sd_busy := 0\<rparr>)"
    by (intro sram.exec_andThen [OF w] sram.exec_andThen [OF m] b)
  moreover have "sd_buf (d2\<lparr>sd_busy := 0\<rparr>) = (\<lambda>i. sf_mem P ((sd_pos d + of_nat i) AND addressMask))"
    "sd_got (d2\<lparr>sd_busy := 0\<rparr>) = lo16 arg"
    by (simp_all add: d2_def d1_def sram_command_def Let_def)
  ultimately show ?thesis by blast
qed


lemma pop_index:
  assumes "unat n + 16 \<le> unat (B :: u16)" and "B \<le> 8192"
  shows "(ucast (word_of_nat ((32 + 2 * unat n) mod (2 * unat B)) :: u16) :: u32) = ((n + 16) * 2) mod (ucast B * 2)"
proof -
  have b: "unat B \<le> 8192" using assms(2) by (simp add: word_le_nat_alt)
  have p: "(32 + 2 * unat n) mod (2 * unat B) < 65536" using b assms(1) by (intro order_less_le_trans [OF mod_less_divisor]) simp_all
  have l: "unat (ucast (word_of_nat ((32 + 2 * unat n) mod (2 * unat B)) :: u16) :: u32) = (32 + 2 * unat n) mod (2 * unat B)"
    using p by (simp add: unsigned_ucast_eq unat_of_nat take_bit_nat_def)
  have n: "unat (n + 16) = unat n + 16" using b assms(1) by (simp add: unat_word_ariths)
  have n2: "unat ((n + 16) * 2) = 32 + 2 * unat n" using b assms(1) n by (simp add: unat_word_ariths)
  have "unat B < 2 ^ 32" using b by simp
  then have u: "unat (ucast B :: u32) = unat B" by (simp add: unsigned_ucast_eq take_bit_nat_eq_self)
  have u2: "unat (ucast B * 2 :: u32) = 2 * unat B" using b u by (simp add: unat_word_ariths)
  show ?thesis by (rule word_unat_eq_iff [THEN iffD2]) (simp only: l unat_mod_distrib n2 u2)
qed

lemma exec_pop_burst:
  assumes "unat n + 16 \<le> unat (sf_buffer P)" and "sf_buffer P \<le> 8192" and "n \<noteq> 0"
  shows "\<exists>d'. sram.exec P True (pop_burst batch forward revision 16 (ucast (sf_buffer P)) n) d
    (concat (map (\<lambda>j. le_bytes 4 (unat (sd_buf d j))) [16..<16 + unat n])) d'"
proof -
  define d1 where "d1 = d\<lparr>sd_ptr := 32\<rparr>"
  define d2 where "d2 = d1\<lparr>sd_ptr := (32 + 2 * unat n) mod (2 * unat (sf_buffer P))\<rparr>"
  define halves where "halves = sram.reads_of P d1 (replicate (unat n * 2) 25)"
  have "sram.exec P True (write_reg 16 16) d () d" using sram.exec_write [of P True 16 16 d] by simp
  moreover have "sram.exec P True (andThen (read_reg 17) (\<lambda>_. ret ())) d () d"
    using sram.exec_read [of P True 17 d] by (intro sram.exec_andThen [OF sram.exec_read]) (simp add: sram.exec_ret)
  ultimately have prime: "sram.exec P True (if forward \<or> revision \<ge> 10 then do1 (write_reg 16 (ucast (16 :: u32))) (andThen (read_reg 17) (\<lambda>_. ret ()))
      else ret ()) d () d"
    by (simp add: sram.exec_ret) (blast intro: sram.exec_andThen)
  have w: "sram.exec P True (write_reg 17 (ucast (16 * 2 :: u32))) d () d1" using sram.exec_write [of P True 17 32 d] by (simp add: d1_def)
  have ph: "sram.exec P True (do1 flushWrites (pop_halves batch 25 (unat n * 2))) d1 halves (fold (\<lambda>s. sram_op P (BRead s)) (replicate (unat n * 2) 25) d1)"
    unfolding halves_def by (rule sram.exec_pop_halves)
  have "0 < unat n" using assms(3) by (simp add: unat_gt_0)
  then have ptr: "32 mod (2 * unat (sf_buffer P)) = 32" using assms(1) by simp
  have pp: "half_bytes halves = concat (map (\<lambda>j. le_bytes 4 (unat (sd_buf d j))) [16..<16 + unat n])
      \<and> fold (\<lambda>s. sram_op P (BRead s)) (replicate (unat n * 2) 25) d1 = d2"
    using pops [of 16 "unat n" "unat (sf_buffer P)" P d1] assms(1) ptr by (simp add: d1_def d2_def halves_def del: sram_op.simps)
  have p: "sram.exec P True (do1 flushWrites (pop_halves batch 25 (unat n * 2))) d1 halves d2"
    using ph unfolding conjunct2 [OF pp] .
  have r: "sram.exec P True (read_reg 27) d2 (word_of_nat ((32 + 2 * unat n) mod (2 * unat (sf_buffer P)))) d2"
    using sram.exec_read [of P True 27 d2] by (simp add: d2_def)
  have f: "sram.exec P True (andThen (read_reg 27) (\<lambda>index. if ucast index \<noteq> ((n + 16) * 2) mod (ucast (sf_buffer P) * 2)
      then fail (BurstPointer index) else ret (half_bytes halves))) d2 (half_bytes halves) d2"
    by (rule sram.exec_andThen [OF r]) (simp add: pop_index [OF assms(1,2)] sram.exec_ret)
  have "sram.exec P True (pop_burst batch forward revision 16 (ucast (sf_buffer P)) n) d (half_bytes halves) d2"
    unfolding pop_burst_def
    by (rule sram.exec_andThen [OF prime], rule sram.exec_andThen [OF w], subst andThen_assoc [symmetric], rule sram.exec_andThen [OF p], rule f)
  then show ?thesis using pp by auto
qed


text \<open>One burst, from whatever the fabric was left in.\<close>

lemma exec_burst:
  assumes k: "2 \<le> k" "sf_latency P \<le> k" and t: "target AND addressMask = target"
    and n: "unat n + 16 \<le> unat (sf_buffer P)" "sf_buffer P \<le> 8192" "n \<noteq> 0" and rev: "8 \<le> revision"
  shows "\<exists>d'. sram.exec P True (burst k batch forward revision 16 (ucast (sf_buffer P)) target n) d
    (concat (map (\<lambda>i. le_bytes 4 (unat (sf_mem P ((target + 16 + of_nat i) AND addressMask)))) [0..<unat n])) d'"
proof -
  define d1 where "d1 = d\<lparr>sd_busy := sd_busy d - 1\<rparr>"
  define pf where "pf = sram.reads_of P d [8, 9, 1]"
  have r: "sram.exec P True (readMany [8, 9, 1]) d pf d1"
    using sram.exec_readMany [of P True "[8, 9, 1]" d] by (simp add: pf_def d1_def)
  have pf: "pf ! 0 = lo16 (sd_pos d1)" "pf ! 1 = hi16 (sd_pos d1)" by (simp_all add: pf_def d1_def)
  obtain d2 where s: "sram.exec P True (seek k 16 target pf) d1 2 d2" and p2: "sd_pos d2 AND addressMask = target"
    using exec_seek [OF k t pf] by blast
  obtain d3 where f: "sram.exec P True (do1 (write32 8 (n + 16)) (do1 (commandIn k 2) (wait_mask k 4))) d2 () d3"
    and b3: "sd_buf d3 = (\<lambda>i. sf_mem P ((sd_pos d2 + of_nat i) AND addressMask))" and g3: "sd_got d3 = lo16 (n + 16)"
    using exec_fill [OF k] by blast
  have un: "unat (n + 16) = unat n + 16" "unat (n + 16) < 65536"
    using n(1,2) by (simp_all add: word_le_nat_alt unat_word_ariths)
  have got: "(ucast (lo16 (n + 16)) :: u32) = n + 16"
    using un(2) by (simp add: word_unat_eq_iff unsigned_ucast_eq unat_lo16 take_bit_nat_eq_self)
  have g: "sram.exec P True (read_reg 12) d3 (lo16 (n + 16)) d3" using sram.exec_read [of P True 12 d3] g3 by simp
  obtain d4 where p: "sram.exec P True (pop_burst batch forward revision 16 (ucast (sf_buffer P)) n) d3
      (concat (map (\<lambda>j. le_bytes 4 (unat (sd_buf d3 j))) [16..<16 + unat n])) d4"
    using exec_pop_burst [OF n] by blast
  have bytes: "concat (map (\<lambda>j. le_bytes 4 (unat (sd_buf d3 j))) [16..<16 + unat n])
      = concat (map (\<lambda>i. le_bytes 4 (unat (sf_mem P ((target + 16 + of_nat i) AND addressMask)))) [0..<unat n])"
  proof -
    have "map (\<lambda>j. le_bytes 4 (unat (sd_buf d3 j))) [16..<16 + unat n] = map (\<lambda>i. le_bytes 4 (unat (sd_buf d3 (16 + i)))) [0..<unat n]"
      by (rule nth_equalityI) simp_all
    moreover have "(sd_pos d2 + of_nat (16 + i)) AND addressMask = (target + 16 + of_nat i) AND addressMask" for i
      unfolding p2 [symmetric] by (simp add: address_add add.assoc)
    ultimately show ?thesis by (simp add: b3)
  qed
  have rest: "sram.exec P True (andThen (read_reg 12) (\<lambda>got. if ucast got \<noteq> n + 16 then fail (ShortBuffer got)
      else if revision \<ge> 8 then pop_burst batch forward revision 16 (ucast (sf_buffer P)) n else slow_words (unat n) 0 16)) d3
      (concat (map (\<lambda>i. le_bytes 4 (unat (sf_mem P ((target + 16 + of_nat i) AND addressMask)))) [0..<unat n])) d4"
    by (rule sram.exec_andThen [OF g]) (use p rev got bytes in simp)
  have "sram.exec P True (burst k batch forward revision 16 (ucast (sf_buffer P)) target n) d
      (concat (map (\<lambda>i. le_bytes 4 (unat (sf_mem P ((target + 16 + of_nat i) AND addressMask)))) [0..<unat n])) d4"
    unfolding burst_def
    by (rule sram.exec_andThen [OF r], rule sram.exec_andThen [OF s])
      (use sram.exec_andThen [OF f rest] in \<open>simp only: andThen_assoc\<close>)
  then show ?thesis by blast
qed

end
