(* ===== verification/RecallCorrect.thy ===== *)
theory RecallCorrect
  imports RecallBurst
begin

text \<open>
  A recall delivers the record: on the fabric of \<^theory_text>\<open>RecallDevice\<close>, in either direction, through any
  of the code's transfer paths, the sink gets the window's words, each once, in order.
\<close>

section \<open>Staging\<close>

lemma length_put_at: "i + length data \<le> length buf \<Longrightarrow> length (put_at buf i data) = length buf"
  by (simp add: put_at_def)

lemma put_at_nth:
  assumes "i + length data \<le> length buf" and "p < length buf"
  shows "put_at buf i data ! p = (if i \<le> p \<and> p < i + length data then data ! (p - i) else buf ! p)"
  using assms by (auto simp: put_at_def nth_append min_def)

text \<open>Words of four bytes each.\<close>

lemma length_concat4: "(\<And>x. length (wb x) = 4) \<Longrightarrow> length (concat (map wb xs)) = 4 * length xs"
  by (induction xs) auto

lemma concat4_nth:
  assumes "\<And>x. length (wb x) = 4"
  shows "p < 4 * length xs \<Longrightarrow> concat (map wb xs) ! p = wb (xs ! (p div 4)) ! (p mod 4)"
proof (induction xs arbitrary: p)
  case (Cons x xs)
  show ?case
  proof (cases "p < 4")
    case False
    then obtain q where q: "p = q + 4" by (metis add.commute le_Suc_ex not_less)
    then show ?thesis using Cons assms by (simp add: nth_append)
  qed (use assms in \<open>simp add: nth_append\<close>)
qed simp

definition stage :: "(nat \<Rightarrow> byte list) \<Rightarrow> span list \<Rightarrow> byte list \<Rightarrow> byte list" where
  "stage wb spans buf = fold (\<lambda>sp buf. put_at buf (4 * unat (fst sp)) (concat (map wb (words_of sp)))) spans buf"

lemma stage_nth:
  assumes wb: "\<And>x. length (wb x) = 4"
  shows "list_all (\<lambda>(off, n). unat off + unat n \<le> cnt) spans \<Longrightarrow> length buf = 4 * cnt \<Longrightarrow>
    length (stage wb spans buf) = 4 * cnt
    \<and> (\<forall>p < 4 * cnt. stage wb spans buf ! p = (if p div 4 \<in> set (concat (map words_of spans)) then wb (p div 4) ! (p mod 4) else buf ! p))"
proof (induction spans arbitrary: buf)
  case Nil
  then show ?case by (simp add: stage_def)
next
  case (Cons sp spans)
  obtain off n where sp: "sp = (off, n)" by (cases sp)
  define data where "data = concat (map wb (words_of sp))"
  define buf1 where "buf1 = put_at buf (4 * unat off) data"
  have ld: "length data = 4 * unat n" unfolding data_def sp by (simp add: length_concat4 [OF wb] words_of_def)
  have fits: "4 * unat off + length data \<le> length buf" using Cons.prems sp ld by simp
  have l1: "length buf1 = 4 * cnt" using length_put_at [OF fits] Cons.prems(2) by (simp add: buf1_def)
  have st: "stage wb (sp # spans) buf = stage wb spans buf1" by (simp add: stage_def buf1_def data_def sp)
  have b1: "buf1 ! p = (if p div 4 \<in> set (words_of sp) then wb (p div 4) ! (p mod 4) else buf ! p)" if p: "p < 4 * cnt" for p
  proof (cases "4 * unat off \<le> p \<and> p < 4 * unat off + 4 * unat n")
    case True
    define q where "q = p - 4 * unat off"
    have pq: "p = 4 * unat off + q" "q < 4 * unat n" using True by (auto simp: q_def)
    have "buf1 ! p = data ! q" using put_at_nth [OF fits] p Cons.prems(2) pq ld by (simp add: buf1_def)
    also have "\<dots> = wb (unat off + q div 4) ! (q mod 4)"
      unfolding data_def sp using pq(2) by (subst concat4_nth [OF wb]) (auto simp: words_of_def)
    finally show ?thesis using pq by (simp add: sp words_of_def) linarith
  next
    case False
    then have "p div 4 \<notin> set (words_of sp)" by (auto simp: sp words_of_def)
    moreover have "buf1 ! p = buf ! p"
      unfolding buf1_def by (subst put_at_nth [OF fits]) (use p Cons.prems(2) False ld in auto)
    ultimately show ?thesis by simp
  qed
  have "list_all (\<lambda>(off, n). unat off + unat n \<le> cnt) spans" using Cons.prems(1) by simp
  from Cons.IH [OF this l1] show ?case unfolding st using b1 by simp
qed

lemma stage_all:
  assumes "\<And>x. length (wb x) = 4" and "list_all (\<lambda>(off, n). unat off + unat n \<le> cnt) spans" and "length buf = 4 * cnt"
    and "mset (concat (map words_of spans)) = mset [0..<cnt]"
  shows "stage wb spans buf = concat (map wb [0..<cnt])"
proof (rule nth_equalityI)
  have s: "set (concat (map words_of spans)) = {0..<cnt}" using mset_eq_setD [OF assms(4)] by simp
  note st = stage_nth [OF assms(1,2,3)]
  show "length (stage wb spans buf) = length (concat (map wb [0..<cnt]))" using st by (simp add: length_concat4 [OF assms(1)])
  fix p assume "p < length (stage wb spans buf)"
  then have p: "p < 4 * cnt" using st by simp
  then have "p div 4 \<in> set (concat (map words_of spans))" unfolding s by auto
  then have "stage wb spans buf ! p = wb (p div 4) ! (p mod 4)" using st p by simp
  also have "\<dots> = concat (map wb [0..<cnt]) ! p" using p by (subst concat4_nth [OF assms(1)]) auto
  finally show "stage wb spans buf ! p = concat (map wb [0..<cnt]) ! p" .
qed


section \<open>The spans\<close>

definition collects :: "byte list sink \<Rightarrow> bool" where
  "collects sk \<longleftrightarrow> (\<forall>s d. sk_write sk s d = (length d, False, s @ d)) \<and> (\<forall>s d. sk_fill sk s d = s @ d)
     \<and> (\<forall>s n r. sk_room sk s n = Some r \<longrightarrow> length r = n)"

definition span_reads :: "sram_fabric \<Rightarrow> (nat \<Rightarrow> byte list) \<Rightarrow> (span \<Rightarrow> byte list cap) \<Rightarrow> span \<Rightarrow> bool" where
  "span_reads P wb rdsp sp \<longleftrightarrow> (\<forall>c. sram.steady True c \<longrightarrow>
     (\<exists>c'. rdsp sp (sram_bus P) c = (Inr (concat (map wb (words_of sp))), c') \<and> sram.steady True c'))"

lemma span_run_staged:
  assumes "\<forall>i. live i"
  shows "list_all (span_reads P wb rdsp) spans \<Longrightarrow> sram.steady True c \<Longrightarrow>
    \<exists>c'. span_run sk True live rdsp i spans buf w s (sram_bus P) c = ((None, stage wb spans buf, w, s), c') \<and> sram.steady True c'"
proof (induction spans arbitrary: i buf c)
  case (Cons sp spans)
  then obtain c1 where "rdsp sp (sram_bus P) c = (Inr (concat (map wb (words_of sp))), c1)" "sram.steady True c1"
    by (auto simp: span_reads_def)
  then show ?case using Cons.IH [OF _ \<open>sram.steady True c1\<close>] Cons.prems(1) assms by (simp add: stage_def)
qed (simp add: stage_def)

lemma span_run_direct:
  assumes "\<forall>i. live i" and wb: "\<And>x. length (wb x) = 4" and sk: "collects sk"
  shows "list_all (span_reads P wb rdsp) spans \<Longrightarrow> sram.steady True c \<Longrightarrow>
    \<exists>c'. span_run sk False live rdsp i spans buf w s (sram_bus P) c
      = ((None, buf, w + 4 * length (concat (map words_of spans)), s @ concat (map wb (concat (map words_of spans)))), c') \<and> sram.steady True c'"
proof (induction spans arbitrary: i c w s)
  case (Cons sp spans)
  obtain off n where sp: "sp = (off, n)" by (cases sp)
  define data where "data = concat (map wb (words_of sp))"
  have ld: "length data = 4 * unat n" unfolding data_def sp by (simp add: length_concat4 [OF wb] words_of_def)
  obtain c1 where r: "rdsp sp (sram_bus P) c = (Inr data, c1)" and q: "sram.steady True c1"
    using Cons.prems by (auto simp: span_reads_def data_def)
  have l: "list_all (span_reads P wb rdsp) spans" using Cons.prems(1) by simp
  obtain c' where run: "span_run sk False live rdsp (Suc i) spans buf (w + 4 * unat n) (s @ data) (sram_bus P) c1
      = ((None, buf, (w + 4 * unat n) + 4 * length (concat (map words_of spans)), (s @ data) @ concat (map wb (concat (map words_of spans)))), c')"
    and q': "sram.steady True c'" using Cons.IH [OF l q] by blast
  have lv: "live i" using assms(1) by blast
  have "sk_write sk s data = (4 * unat n, False, s @ data)" using sk ld by (simp add: collects_def)
  then have "span_run sk False live rdsp i (sp # spans) buf w s (sram_bus P) c
      = span_run sk False live rdsp (Suc i) spans buf (w + 4 * unat n) (s @ data) (sram_bus P) c1"
    using lv r by (simp add: sp)
  moreover have "length (words_of sp) = unat n" by (simp add: sp words_of_def)
  ultimately show ?case using run q' by (simp add: data_def)
qed simp

section \<open>The recall\<close>

text \<open>Word \<open>j\<close> of the window, and the window's bytes.\<close>

definition record_word :: "sram_fabric \<Rightarrow> metadata \<Rightarrow> u32 \<Rightarrow> nat \<Rightarrow> u32" where
  "record_word P m offset j = sf_mem P ((md_Origin m + md_Start m + offset + of_nat j) AND addressMask)"

definition record_bytes :: "sram_fabric \<Rightarrow> metadata \<Rightarrow> u32 \<Rightarrow> u32 \<Rightarrow> byte list" where
  "record_bytes P m offset cnt = concat (map (\<lambda>j. le_bytes 4 (unat (record_word P m offset j))) [0..<unat cnt])"

lemma span_target: "((x + off - 16) AND addressMask) + 16 + of_nat i = ((x + off - 16) AND addressMask) + (16 + of_nat i)"
  by (simp only: add.assoc)

lemma burst_reads_span:
  assumes k: "2 \<le> k" "sf_latency P \<le> k" and rev: "8 \<le> revision" and buf: "sf_buffer P \<le> 8192" "4096 \<le> sf_buffer P"
    and n: "n \<noteq> 0" "n \<le> 4080" and m: "x = md_Origin m + md_Start m + offset"
  shows "span_reads P (\<lambda>j. le_bytes 4 (unat (record_word P m offset j)))
    (\<lambda>(off, n). burst k batch forward revision 16 (ucast (sf_buffer P)) ((x + off - 16) AND addressMask) n) (off, n)"
proof -
  have fit: "unat n + 16 \<le> unat (sf_buffer P)" using n(2) buf(2) by (simp add: word_le_nat_alt)
  have t: "((x + off - 16) AND addressMask) AND addressMask = (x + off - 16) AND addressMask" by (simp add: and.assoc)
  have a: "(((x + off - 16) AND addressMask) + 16 + of_nat i) AND addressMask = (x + of_nat (unat off + i)) AND addressMask" for i
    unfolding span_target address_add by (simp add: algebra_simps)
  have "map (\<lambda>i. le_bytes 4 (unat (sf_mem P ((((x + off - 16) AND addressMask) + 16 + of_nat i) AND addressMask)))) [0..<unat n]
      = map (\<lambda>j. le_bytes 4 (unat (record_word P m offset j))) (words_of (off, n))"
    by (rule nth_equalityI) (simp_all add: words_of_def record_word_def a [unfolded m] m)
  then show ?thesis
    using exec_burst [OF k t fit buf(1) n(1) rev] unfolding span_reads_def sram.exec_def by (simp add: split_beta) blast
qed


text \<open>The record is frozen whole, the window is in it, and the image is one the direction knows.\<close>

definition recallable :: "sram_fabric \<Rightarrow> metadata \<Rightarrow> u32 \<Rightarrow> u32 \<Rightarrow> bool \<Rightarrow> bool" where
  "recallable P m offset cnt forward \<longleftrightarrow> md_Ready m \<and> md_Frozen m \<and> \<not> md_Running m \<and> \<not> md_DataFault m
     \<and> md_Length m \<le> 2 ^ 19 \<and> unat offset + unat cnt \<le> unat (md_Length m) \<and> 8 \<le> md_Revision m
     \<and> (sf_buffer P = 4096 \<or> md_Revision m = 11 \<and> sf_buffer P = 8192) \<and> (forward \<longrightarrow> md_Revision m = 10)"

lemma exec_envelope_off:
  "sram.exec P True (\<lambda>b c. if cp_envelopeOn c then do1 (write_reg 44 0) (update (\<lambda>c. c\<lparr>cp_envelopeOn := False\<rparr>)) b c else (Inr (), c)) d () d"
  by (auto simp: sram.exec_def write_reg_def sram.steady_def sram.dev_at_def andThen_def update_def RawWrite_def sram.dev_writes)

lemma window_fits:
  assumes "recallable P m offset cnt forward"
  shows "\<not> (md_Length m > 2 ^ 19 \<or> (ucast offset + ucast cnt :: u64) > ucast (md_Length m))" "unat (cnt * 4) = 4 * unat cnt"
proof -
  have l: "unat offset + unat cnt \<le> unat (md_Length m)" "md_Length m \<le> 2 ^ 19" using assms by (simp_all add: recallable_def)
  then have "unat cnt \<le> 2 ^ 19" by (simp add: word_le_nat_alt)
  then show "unat (cnt * 4) = 4 * unat cnt" by (simp add: unat_word_ariths)
  have s: "unat (ucast x :: u64) = unat (x :: u32)" for x
    by (simp add: unsigned_ucast_eq take_bit_nat_eq_self order_less_trans [OF unat_u32_less])
  have "unat (ucast offset + ucast cnt :: u64) = unat offset + unat cnt"
    using l by (simp add: unat_word_ariths s word_le_nat_alt)
  then show "\<not> (md_Length m > 2 ^ 19 \<or> (ucast offset + ucast cnt :: u64) > ucast (md_Length m))"
    using l by (simp add: word_le_nat_alt word_less_nat_alt s not_less)
qed

lemma exec_prologue:
  assumes "recallable P m offset cnt forward"
  shows "sram.exec P True (do1 (\<lambda>b c. if cp_envelopeOn c then do1 (write_reg 44 0) (update (\<lambda>c. c\<lparr>cp_envelopeOn := False\<rparr>)) b c else (Inr (), c))
       (if md_Length m > 2 ^ 19 \<or> (ucast offset + ucast cnt :: u64) > ucast (md_Length m) then fail WindowExceeds
        else andThen (read_buffer (md_Revision m)) (\<lambda>sizes. if forward \<and> md_Revision m \<noteq> 10 then fail ForwardRevision else ret sizes)))
    d (ucast (sf_buffer P), 4096) d"
proof -
  have r: "sram.exec P True (read_reg 26) d (sf_buffer P) d" using sram.exec_read [of P True 26 d] by simp
  have "sram.exec P True (read_buffer (md_Revision m)) d (ucast (sf_buffer P), 4096) d"
    unfolding read_buffer_def using assms
    by (auto simp: recallable_def min_def intro!: sram.exec_andThen [OF r] sram.exec_ret)
  then have "sram.exec P True (andThen (read_buffer (md_Revision m)) (\<lambda>sizes. if forward \<and> md_Revision m \<noteq> 10 then fail ForwardRevision else ret sizes))
      d (ucast (sf_buffer P), 4096) d"
    by (rule sram.exec_andThen) (use assms in \<open>auto simp: recallable_def intro: sram.exec_ret\<close>)
  then show ?thesis
    unfolding if_not_P [OF window_fits(1) [OF assms]] by (rule sram.exec_andThen [OF exec_envelope_off])
qed

lemma recall_body_ok:
  assumes rc: "recallable P m offset cnt forward" and k: "2 \<le> k" "sf_latency P \<le> k" and lv: "\<forall>i. live i"
    and sk: "collects sk" and q: "sram.steady True c"
  shows "\<exists>c'. recall_body sk bytePop batch k live m offset cnt forward s (sram_bus P) c
    = ((None, 4 * unat cnt, s @ record_bytes P m offset cnt), c') \<and> sram.steady True c'"
proof -
  define wb where "wb = (\<lambda>j. le_bytes 4 (unat (record_word P m offset j)))"
  have wb4: "length (wb j) = 4" for j by (simp add: wb_def)
  have rev: "8 \<le> md_Revision m" and buf: "sf_buffer P \<le> 8192" "4096 \<le> sf_buffer P" using rc by (auto simp: recallable_def)
  then have pre: "recall_prefix (md_Revision m) = 16" by (simp add: recall_prefix_def word_le_nat_alt)
  define rdsp where "rdsp = (\<lambda>(off, n). burst k (bytePop \<or> batch) forward (md_Revision m) 16 (ucast (sf_buffer P))
    ((md_Origin m + md_Start m + offset + off - 16) AND addressMask) n)"
  define gap where "gap = (if forward then 18 else 0 :: u32)"
  have "0 \<le> cnt" by simp
  from span_loop_tiles [of "4080" 0 cnt gap "[]" "[]", OF _ this]
  obtain bs hs where sp: "recallSpans cnt 4080 gap = Some (bs @ hs)"
    and ms: "mset (concat (map words_of (bs @ hs))) = mset [0..<unat cnt]" and ok: "list_all (span_ok cnt 4080 gap) (bs @ hs)"
    and ord: "gap = 0 \<longrightarrow> hs = [] \<and> concat (map words_of bs) = [0..<unat cnt]"
    by (auto simp: recallSpans_def simp del: map_append concat_append mset_append list_all_append)
  have sp': "recallSpans cnt (4096 - 16) (if forward then 16 + 2 else 0) = Some (bs @ hs)" using sp by (cases forward) (simp_all add: gap_def)
  have "gap \<le> 4080" by (simp add: gap_def)
  then have mx: "max 4080 gap = 4080" by simp
  have each: "span_reads P wb rdsp x" if "span_ok cnt 4080 gap x" for x
    using burst_reads_span [OF k rev buf _ _ refl, of "snd x" m offset "bytePop \<or> batch" forward "fst x"] that mx
    unfolding wb_def rdsp_def by (cases x) (simp add: span_ok_def)
  have reads: "list_all (span_reads P wb rdsp) (bs @ hs)" using ok each by (auto simp: list_all_iff)
  have fits: "list_all (\<lambda>(off, n). unat off + unat n \<le> unat cnt) (bs @ hs)" using ok by (auto simp: list_all_iff span_ok_def)
  obtain c1 where p: "do1 (\<lambda>b c. if cp_envelopeOn c then do1 (write_reg 44 0) (update (\<lambda>c. c\<lparr>cp_envelopeOn := False\<rparr>)) b c else (Inr (), c))
       (if md_Length m > 2 ^ 19 \<or> (ucast offset + ucast cnt :: u64) > ucast (md_Length m) then fail WindowExceeds
        else andThen (read_buffer (md_Revision m)) (\<lambda>sizes. if forward \<and> md_Revision m \<noteq> 10 then fail ForwardRevision else ret sizes))
       (sram_bus P) c = (Inr (ucast (sf_buffer P), 4096), c1)" and q1: "sram.steady True c1"
    using exec_prologue [OF rc] q unfolding sram.exec_def by blast
  define room where "room = (if bytePop \<and> md_Revision m \<ge> 8 then sk_room sk s (4 * unat cnt) else None)"
  define buf where "buf = (case room of Some r \<Rightarrow> r | None \<Rightarrow> replicate (4 * unat cnt) 0)"
  have lb: "length buf = 4 * unat cnt" using sk by (auto simp: buf_def room_def collects_def split: option.splits if_splits)
  have step: "recall_body sk bytePop batch k live m offset cnt forward s (sram_bus P) c
      = (case span_run sk (room \<noteq> None \<or> forward) live rdsp 0 (bs @ hs) buf 0 s (sram_bus P) c1 of (r, c) \<Rightarrow> (deliver sk room forward cnt r, c))"
    unfolding recall_body_def p prod.case sum.case Let_def pre sp' option.case window_fits(2) [OF rc] rdsp_def buf_def room_def ..
  show ?thesis
  proof (cases "room \<noteq> None \<or> forward")
    case True
    obtain c2 where "span_run sk True live rdsp 0 (bs @ hs) buf 0 s (sram_bus P) c1 = ((None, stage wb (bs @ hs) buf, 0, s), c2)"
      and "sram.steady True c2" using span_run_staged [OF lv reads q1, where sk = sk and i = 0 and buf = buf and w = 0 and s = s] by (elim exE conjE)
    moreover have "stage wb (bs @ hs) buf = record_bytes P m offset cnt"
      unfolding stage_all [OF wb4 fits lb ms] by (simp add: record_bytes_def wb_def)
    moreover have "length (record_bytes P m offset cnt) = 4 * unat cnt"
      unfolding record_bytes_def by (subst length_concat4) simp_all
    moreover have "cnt = 0 \<Longrightarrow> record_bytes P m offset cnt = []" by (simp add: record_bytes_def)
    ultimately show ?thesis using True sk unfolding step by (auto simp: deliver_def collects_def)
  next
    case False
    then have "gap = 0" by (simp add: gap_def)
    then have hs: "hs = []" and cs: "concat (map words_of bs) = [0..<unat cnt]" using ord by blast+
    obtain c2 where "span_run sk False live rdsp 0 (bs @ hs) buf 0 s (sram_bus P) c1
        = ((None, buf, 0 + 4 * length (concat (map words_of (bs @ hs))), s @ concat (map wb (concat (map words_of (bs @ hs))))), c2)"
      and "sram.steady True c2" using span_run_direct [OF lv wb4 sk reads q1, where i = 0 and buf = buf and w = 0 and s = s] by (elim exE conjE)
    then show ?thesis using False unfolding step hs append_Nil2 cs
      by (simp add: deliver_def record_bytes_def wb_def)
  qed
qed


text \<open>
  C22: A recall delivers the record. On a fabric that holds a frozen record, from revision 8 on, whatever its
  latency, wherever its read pointer was and a burst leaves it, with or without batched pops, into the sink
  as it comes, staged in a scratch buffer or straight into the sink's room: a recall of a window within the
  record, forward or not, succeeds, reports four bytes a word, and the sink has got exactly the window's
  words, each once and in order, and none of the warm-up words read in front of every burst.
\<close>

theorem recall_returns_the_record:
  assumes "recallable P m offset cnt forward" and "2 \<le> k" and "sf_latency P \<le> k" and "\<forall>i. live i"
    and "collects sk" and "\<not> cp_armReady c"
  shows "\<exists>c'. recallFrozen sk bytePop batch k live m offset cnt forward s (sram_bus P) c
    = ((None, 4 * unat cnt, s @ record_bytes P m offset cnt), c')"
proof -
  have "sram.steady True (c\<lparr>cp_queueWrites := True\<rparr>)" using assms(6) by (simp add: sram.steady_def)
  from recall_body_ok [OF assms(1-5) this] obtain c1 where
    b: "recall_body sk bytePop batch k live m offset cnt forward s (sram_bus P) (c\<lparr>cp_queueWrites := True\<rparr>)
      = ((None, 4 * unat cnt, s @ record_bytes P m offset cnt), c1)" by blast
  then show ?thesis using assms(1) by (simp add: recallFrozen_def recallable_def sram.flush_all)
qed

text \<open>A frozen record of revision 10 whose words are their addresses, and a plain buffer.\<close>

definition sample_sram :: sram_fabric where
  "sample_sram = \<lparr>sf_mem = (\<lambda>a. a), sf_latency = 3, sf_buffer = 4096, sf_after = (\<lambda>p. p + 1), sf_other = (\<lambda>_. 0),
     sf_first = \<lparr>sd_pos = 77, sd_ack = False, sd_busy = 0, sd_lo = 0, sd_hi = 0, sd_buf = (\<lambda>_. 0), sd_got = 0, sd_ptr = 0\<rparr>\<rparr>"

definition sample_meta :: metadata where
  "sample_meta = zero_metadata\<lparr>md_Ready := True, md_Frozen := True, md_Length := 2 ^ 19, md_Revision := 10,
     md_Start := 2 ^ 19 - 17, md_Origin := 71\<rparr>"

definition plain_sink :: "byte list sink" where
  "plain_sink = \<lparr>sk_write = (\<lambda>s d. (length d, False, s @ d)), sk_room = (\<lambda>s n. None), sk_fill = (\<lambda>s d. s @ d)\<rparr>"

lemma recall_returns_the_record_witness:
  "\<exists>c'. recallFrozen plain_sink True True 5 (\<lambda>_. True) sample_meta 4000 10000 True [] (sram_bus sample_sram) fresh_capture
    = ((None, 40000, record_bytes sample_sram sample_meta 4000 10000), c')"
proof -
  have "recallable sample_sram sample_meta 4000 10000 True"
    by (simp add: recallable_def sample_sram_def sample_meta_def zero_metadata_def)
  from recall_returns_the_record [OF this, of 5 "\<lambda>_. True" plain_sink fresh_capture True True "[]"]
  show ?thesis by (simp add: sample_sram_def collects_def plain_sink_def fresh_capture_def)
qed

end
