(* ===== verification/EventStream.thy ===== *)
theory EventStream
  imports SramRecall DecodedEvent
begin

text \<open>
  Reading the decoded-event stream (\<open>app/internal/sramcapture/decoded_event_stream.go\<close>): one event at a time, or
  a batch from the fabric's FIFO or from the isolated bus worker, which is a parameter: whether it owns
  the bus, the byte count it reports and the bytes.
\<close>

definition DecodedBatchMax :: nat where "DecodedBatchMax = 2048"

text \<open>\<open>n\<close> halfwords of the event port; a batch pop that succeeds is counted as its halfwords.\<close>

definition pop_events :: "bool \<Rightarrow> nat \<Rightarrow> byte list cap" where
  "pop_events batch n = andThen (pop_halves batch 59 n) (\<lambda>halves.
     do1 (if batch then update (\<lambda>c. c\<lparr>cp_beats := cp_beats c + n\<rparr>) else ret ()) (ret (half_bytes halves)))"

definition parse_event :: "u32 \<Rightarrow> byte list \<Rightarrow> decoded_event cap" where
  "parse_event epoch data = (case ParseDecodedEvent data of
     Some (Inr ev) \<Rightarrow> if ev_Epoch ev \<noteq> epoch then fail StaleEvent else ret ev
   | _ \<Rightarrow> fail BadEvent)"

text \<open>That the stream is on, is the one the caller started, and has not failed; its status.\<close>

definition stream_status :: "u32 \<Rightarrow> u16 cap" where
  "stream_status epoch = andThen (read_reg 57) (\<lambda>active. if active \<noteq> 1 then fail StreamDisabled else
     andThen (read32 61) (\<lambda>current. if current \<noteq> epoch then fail EpochChanged else
     andThen (read_reg 58) (\<lambda>st. if st AND 6 \<noteq> 0 then fail (TransportError st) else ret st)))"

text \<open>A leftover partial read is rewound.\<close>

definition rewind :: "u16 \<Rightarrow> unit cap" where
  "rewind st = (if st AND 0xf0 \<noteq> 0 then write_reg 60 1 else ret ())"

definition ReadDecodedEvent :: "bool \<Rightarrow> u32 \<Rightarrow> decoded_event option cap" where
  "ReadDecodedEvent batch epoch = andThen (stream_status epoch) (\<lambda>st. if st AND 1 = 0 then ret None else
     do1 (rewind st) (andThen (pop_events batch 16) (\<lambda>data. andThen (parse_event epoch data) (\<lambda>ev. ret (Some ev)))))"

fun parse_events :: "u32 \<Rightarrow> nat \<Rightarrow> byte list \<Rightarrow> decoded_event list cap" where
  "parse_events epoch 0 data = ret []"
| "parse_events epoch (Suc n) data = andThen (parse_event epoch (take 32 data)) (\<lambda>ev.
     andThen (parse_events epoch n (drop 32 data)) (\<lambda>evs. ret (ev # evs)))"

text \<open>The worker's read: it is offered a buffer of \<open>limit\<close> events; None: it does not own the bus.\<close>

type_synonym event_worker = "u32 \<Rightarrow> nat \<Rightarrow> (cap_error + int \<times> byte list) option"

definition read_isolated :: "u32 \<Rightarrow> nat \<Rightarrow> cap_error + int \<times> byte list \<Rightarrow> decoded_event list cap" where
  "read_isolated epoch limit r = (case r of Inl err \<Rightarrow> fail err | Inr (n, data) \<Rightarrow>
     if n < 0 \<or> n > int (limit * DecodedEventBytes) \<or> n mod int DecodedEventBytes \<noteq> 0 then fail BadBatch
     else do1 (update (\<lambda>c. c\<lparr>cp_beats := cp_beats c + (nat n div 2 + 1)\<rparr>)) (parse_events epoch (nat n div DecodedEventBytes) data))"

definition read_fifo :: "bool \<Rightarrow> u32 \<Rightarrow> nat \<Rightarrow> decoded_event list cap" where
  "read_fifo batch epoch limit = andThen (stream_status epoch) (\<lambda>st. do1 (rewind st) (do1 (write_reg 76 1) (andThen (read_reg 75) (\<lambda>cnt.
     if cnt > 512 then fail (BadCount cnt) else
     let n = min (unat cnt) limit in if n = 0 then ret [] else
     andThen (pop_events batch (n * DecodedEventBytes div 2)) (\<lambda>data. parse_events epoch n data)))))"

definition ReadDecodedEventsInto :: "event_worker option \<Rightarrow> bool \<Rightarrow> u32 \<Rightarrow> nat \<Rightarrow> decoded_event list cap" where
  "ReadDecodedEventsInto w batch epoch limit =
     (if limit < 1 \<or> limit > DecodedBatchMax then fail BadLimit else
      case (case w of None \<Rightarrow> None | Some f \<Rightarrow> f epoch (limit * DecodedEventBytes)) of
        Some r \<Rightarrow> read_isolated epoch limit r
      | None \<Rightarrow> andThen (read_reg 74) (\<lambda>capability. if capability \<noteq> 0x4503
          then andThen (ReadDecodedEvent batch epoch) (\<lambda>ev. ret (case ev of None \<Rightarrow> [] | Some ev \<Rightarrow> [ev]))
          else read_fifo batch epoch limit))"

section \<open>Transcript lines from the worker\<close>

definition SetDecodedLineMode :: "(int \<Rightarrow> cap_error + bool) option \<Rightarrow> int \<Rightarrow> cap_error + bool" where
  "SetDecodedLineMode w proto = (case w of None \<Rightarrow> Inr False | Some f \<Rightarrow> f proto)"

text \<open>The worker says how many bytes it put, whether it owns the bus, and its error.\<close>

definition ReadDecodedLines :: "(u32 \<Rightarrow> int \<Rightarrow> bool \<Rightarrow> nat \<Rightarrow> nat \<times> bool \<times> cap_error option \<times> byte list) option \<Rightarrow> u32 \<Rightarrow> int \<Rightarrow> bool \<Rightarrow> nat
    \<Rightarrow> (nat \<times> bool \<times> cap_error option \<times> byte list) cap" where
  "ReadDecodedLines w epoch start flush room = (case w of None \<Rightarrow> ret (0, False, None, [])
     | Some f \<Rightarrow> (case f epoch start flush room of (n, owned, err, data) \<Rightarrow>
         do1 (if owned \<and> err = None then update (\<lambda>c. c\<lparr>cp_beats := cp_beats c + (n div 2 + 1)\<rparr>) else ret ()) (ret (n, owned, err, data))))"

end
