(* ===== verification/EventFifo.thy ===== *)
theory EventFifo
  imports EventStream RecallDevice
begin

text \<open>
  The decoded-event FIFO behind the register bus: the events a decoder made, encoded, halfword by halfword;
  and what a batch read of it gives. The device interface is the one of \<^theory_text>\<open>BusDevice\<close>.
\<close>

section \<open>Bytes as halfwords\<close>

fun halves_of :: "byte list \<Rightarrow> u16 list" where
  "halves_of (x # y # bs) = (ucast x OR push_bit 8 (ucast y)) # halves_of bs"
| "halves_of _ = []"

lemma half_bytes_of: "even (length bs) \<Longrightarrow> half_bytes (halves_of bs) = bs"
proof (induction bs rule: halves_of.induct)
  case (1 x y bs)
  have u: "unat (ucast x OR push_bit 8 (ucast y) :: u16) = unat x + 256 * unat y"
  proof -
    have "(ucast x OR push_bit 8 (ucast y) :: u16) = ucast x + push_bit 8 (ucast y)"
      by (rule disjunctive_add [symmetric]) (auto simp: bit_simps dest!: bit_imp_le_length)
    also have "\<dots> = word_of_nat (unat x + 256 * unat y)" by (simp add: push_bit_eq_mult)
    finally have e: "(ucast x OR push_bit 8 (ucast y) :: u16) = word_of_nat (unat x + 256 * unat y)" .
    have "unat x + 256 * unat y < 2 ^ 16" using unat_byte_less [of x] unat_byte_less [of y] by (simp del: unat_byte_less)
    then show ?thesis unfolding e by (simp only: unat_of_nat) (simp add: take_bit_nat_eq_self)
  qed
  have "word_of_nat (unat x + 256 * unat y) = x" by (simp only: word_unat_eq_iff unat_of_nat) (simp add: take_bit_eq_mod)
  moreover have "(unat x + 256 * unat y) div 256 = unat y" by (simp add: div_add1_eq)
  moreover have unat_inv: "word_of_nat (unat y) = y" by simp
  moreover have le2: "le_bytes 2 v = [word_of_nat v, word_of_nat (v div 256)]" for v
    by (simp add: numeral_2_eq_2 del: One_nat_def)
  ultimately have "le_bytes 2 (unat (ucast x OR push_bit 8 (ucast y) :: u16)) = [x, y]"
    unfolding u le2 by (simp only: list.inject simp_thms unat_inv)
  then show ?case using 1 by (simp add: half_bytes_def)
qed (simp_all add: half_bytes_def)

lemma length_halves_of: "length (halves_of bs) = length bs div 2"
  by (induction bs rule: halves_of.induct) simp_all

lemma halves_of_append: "even (length xs) \<Longrightarrow> halves_of (xs @ ys) = halves_of xs @ halves_of ys"
  by (induction xs rule: halves_of.induct) simp_all

section \<open>The device\<close>

record event_dev =
  ed_fifo :: "u16 list"
  ed_count :: u16

text \<open>An enabled stream of an epoch, which holds whole events; register 76 freezes their number.\<close>

fun event_op :: "bop \<Rightarrow> event_dev \<Rightarrow> event_dev" where
  "event_op (BRead s) d = (if s = 59 then d\<lparr>ed_fifo := tl (ed_fifo d)\<rparr> else d)"
| "event_op (BWrite s v) d = (if s = 76 then d\<lparr>ed_count := word_of_nat (length (ed_fifo d) div 16)\<rparr> else d)"
| "event_op (BWriteErr s v) d = d"

definition event_read :: "u32 \<Rightarrow> event_dev \<Rightarrow> nat \<Rightarrow> u16" where
  "event_read epoch d s =
     (if s = 57 then 1 else if s = 58 then (if ed_fifo d = [] then 0 else 1) else if s = 59 then (case ed_fifo d of [] \<Rightarrow> 0 | h # _ \<Rightarrow> h)
      else if s = 61 then lo16 epoch else if s = 62 then hi16 epoch else if s = 74 then 0x4503 else if s = 75 then ed_count d else 0)"

definition event_bus :: "u32 \<Rightarrow> event_dev \<Rightarrow> fabric" where
  "event_bus epoch d = \<lparr>fb_read = (\<lambda>tr s. Some (event_read epoch (fold event_op tr d) s)), fb_write = (\<lambda>tr s v. True)\<rparr>"

interpretation events: bus_device "event_read epoch" event_op e0 "event_bus epoch e0" for e0 epoch
  by unfold_locales (simp_all add: event_bus_def)

text \<open>The FIFO with a list of events in it.\<close>

definition holding :: "decoded_event list \<Rightarrow> u16 list" where
  "holding evs = halves_of (concat (map event_bytes evs))"

lemma length_event_bytes: "length (event_bytes e) = 32"
  by (simp add: event_bytes_def)

lemma length_concat_events: "length (concat (map event_bytes evs)) = 32 * length evs"
  by (induction evs) (simp_all add: length_event_bytes)

lemma length_holding: "length (holding evs) = 16 * length evs"
  by (simp add: holding_def length_halves_of length_concat_events)

lemma holding_append: "holding (xs @ ys) = holding xs @ holding ys"
  by (simp add: holding_def halves_of_append length_concat_events)

lemma half_bytes_holding: "half_bytes (holding evs) = concat (map event_bytes evs)"
  by (simp add: holding_def half_bytes_of length_concat_events)


section \<open>Reading a batch\<close>

lemma fifo_reads:
  "n \<le> length (ed_fifo d) \<Longrightarrow> events.reads_of epoch d (replicate n 59) = take n (ed_fifo d)
    \<and> fold (\<lambda>s. event_op (BRead s)) (replicate n 59) d = d\<lparr>ed_fifo := drop n (ed_fifo d)\<rparr>"
proof (induction n arbitrary: d)
  case (Suc n)
  then obtain h t where f: "ed_fifo d = h # t" by (cases "ed_fifo d") auto
  have r: "event_read epoch d 59 = h" and o: "event_op (BRead 59) d = d\<lparr>ed_fifo := t\<rparr>" using f by (simp_all add: event_read_def)
  have "n \<le> length (ed_fifo (d\<lparr>ed_fifo := t\<rparr>))" using Suc.prems f by simp
  from Suc.IH [OF this] show ?case
    unfolding replicate_Suc events.reads_of.simps fold_simps r o using f by (simp del: event_op.simps)
qed simp

lemma exec_pop_events:
  assumes "n \<le> length (ed_fifo d)"
  shows "events.exec d0 epoch False (pop_events batch n) d (half_bytes (take n (ed_fifo d))) (d\<lparr>ed_fifo := drop n (ed_fifo d)\<rparr>)"
proof -
  have p: "events.exec d0 epoch False (pop_halves batch 59 n) d (take n (ed_fifo d)) (d\<lparr>ed_fifo := drop n (ed_fifo d)\<rparr>)"
    using events.exec_pop_direct [of d0 epoch batch 59 n d] fifo_reads [OF assms] by metis
  have u: "events.exec d0 epoch False (if batch then update (\<lambda>c. c\<lparr>cp_beats := cp_beats c + n\<rparr>) else ret ()) e () e" for e
    by (cases batch) (simp_all add: events.exec_ret events.exec_update)
  show ?thesis unfolding pop_events_def
    by (rule events.exec_andThen [OF p], rule events.exec_andThen [OF u], rule events.exec_ret)
qed

lemma parse_concat:
  assumes "\<forall>e \<in> set evs. validate_event e = None \<and> ev_Epoch e = epoch"
  shows "parse_events epoch (length evs) (concat (map event_bytes evs)) b c = (Inr evs, c)"
  using assms
proof (induction evs)
  case (Cons e evs)
  then show ?case
    by (simp add: andThen_def parse_event_def length_event_bytes parse_event_bytes ret_def)
qed (simp add: ret_def)


definition good_events :: "u32 \<Rightarrow> decoded_event list \<Rightarrow> bool" where
  "good_events epoch evs \<longleftrightarrow> length evs \<le> 512 \<and> list_all (\<lambda>e. validate_event e = None \<and> ev_Epoch e = epoch) evs"

lemma exec_stream_status:
  "events.exec d0 epoch False (stream_status epoch) d (event_read epoch d 58) d"
proof -
  have r: "events.exec d0 epoch False (read_reg s) d (event_read epoch d s) d" if "s \<noteq> 59" for s
    using events.exec_read [of d0 epoch False s d] that by simp
  have e: "events.exec d0 epoch False (read32 61) d epoch d"
    unfolding read32_def
    by (rule events.exec_andThen [OF r], simp, rule events.exec_andThen [OF r], simp)
      (simp add: event_read_def events.exec_ret)
  have ok: "event_read epoch d 57 = 1" "event_read epoch d 58 AND 6 = 0" by (simp_all add: event_read_def)
  show ?thesis unfolding stream_status_def
    by (rule events.exec_andThen [OF r], simp, simp add: ok, rule events.exec_andThen [OF e], simp,
        rule events.exec_andThen [OF r], simp, simp add: ok events.exec_ret)
qed

lemma exec_parse:
  assumes "list_all (\<lambda>e. validate_event e = None \<and> ev_Epoch e = epoch) evs"
  shows "events.exec d0 epoch False (parse_events epoch (length evs) (concat (map event_bytes evs))) d evs d"
  using parse_concat [of evs epoch] assms by (auto simp: events.exec_def list_all_iff)

lemma exec_read_fifo:
  assumes "ed_fifo d = holding evs" and "good_events epoch evs" and "1 \<le> limit"
  shows "\<exists>d'. events.exec d0 epoch False (read_fifo batch epoch limit) d (take limit evs) d' \<and> ed_fifo d' = holding (drop limit evs)"
proof -
  define st where "st = event_read epoch d 58"
  define n where "n = min (length evs) limit"
  define d1 where "d1 = d\<lparr>ed_count := word_of_nat (length evs)\<rparr>"
  define d2 where "d2 = d1\<lparr>ed_fifo := holding (drop limit evs)\<rparr>"
  have le: "length evs \<le> 512" and ok: "list_all (\<lambda>e. validate_event e = None \<and> ev_Epoch e = epoch) (take limit evs)"
    using assms(2) by (auto simp: good_events_def list_all_iff dest: in_set_takeD)
  have cnt: "unat (ed_count d1) = length evs" using le by (simp add: d1_def unat_of_nat take_bit_nat_eq_self)
  have small: "\<not> ed_count d1 > 512" using cnt le by (simp add: word_less_nat_alt)
  have "st AND 0xf0 = 0" by (simp add: st_def event_read_def)
  then have rw: "events.exec d0 epoch False (rewind st) d () d" by (simp add: rewind_def events.exec_ret)
  have w: "events.exec d0 epoch False (write_reg 76 1) d () d1"
    using events.exec_write [of d0 epoch False 76 1 d] assms(1) by (simp add: d1_def length_holding)
  have r: "events.exec d0 epoch False (read_reg 75) d1 (ed_count d1) d1"
    using events.exec_read [of d0 epoch False 75 d1] by (simp add: event_read_def)
  have f1: "ed_fifo d1 = holding (take limit evs) @ holding (drop limit evs)"
    using assms(1) by (simp add: d1_def flip: holding_append)
  have ln: "length (take limit evs) = n" "n * DecodedEventBytes div 2 = 16 * n" "length (holding (take limit evs)) = 16 * n"
    by (simp_all add: n_def DecodedEventBytes_def length_holding)
  have p: "events.exec d0 epoch False (pop_events batch (n * DecodedEventBytes div 2)) d1 (concat (map event_bytes (take limit evs))) d2"
    using exec_pop_events [of "16 * n" d1 d0 epoch batch] f1 ln
    by (simp add: d2_def d1_def half_bytes_holding)
  have e: "events.exec d0 epoch False (parse_events epoch n (concat (map event_bytes (take limit evs)))) d2 (take limit evs) d2"
    using exec_parse [OF ok, of d0 d2] unfolding ln .
  have fin: "\<exists>d'. events.exec d0 epoch False (if n = 0 then ret [] else
      andThen (pop_events batch (n * DecodedEventBytes div 2)) (\<lambda>data. parse_events epoch n data)) d1 (take limit evs) d'
      \<and> ed_fifo d' = holding (drop limit evs)"
  proof (cases "n = 0")
    case True
    then have "evs = []" using assms(3) by (auto simp: n_def min_def split: if_splits)
    then show ?thesis using True f1 by (intro exI [of _ d1]) (simp add: events.exec_ret holding_def)
  next
    case False
    have "events.exec d0 epoch False (andThen (pop_events batch (n * DecodedEventBytes div 2)) (\<lambda>data. parse_events epoch n data)) d1
        (take limit evs) d2" by (rule events.exec_andThen [OF p]) (rule e)
    then show ?thesis using False by (intro exI [of _ d2]) (simp add: d2_def)
  qed
  then obtain d' where b: "events.exec d0 epoch False (if n = 0 then ret [] else
      andThen (pop_events batch (n * DecodedEventBytes div 2)) (\<lambda>data. parse_events epoch n data)) d1 (take limit evs) d'"
    and h: "ed_fifo d' = holding (drop limit evs)" by blast
  have "events.exec d0 epoch False (andThen (read_reg 75) (\<lambda>cnt. if cnt > 512 then fail (BadCount cnt) else
     let n = min (unat cnt) limit in if n = 0 then ret [] else
     andThen (pop_events batch (n * DecodedEventBytes div 2)) (\<lambda>data. parse_events epoch n data))) d1 (take limit evs) d'"
    by (rule events.exec_andThen [OF r]) (use b small cnt in \<open>simp only: if_False Let_def n_def\<close>)
  then have "events.exec d0 epoch False (read_fifo batch epoch limit) d (take limit evs) d'"
    unfolding read_fifo_def
    by (intro events.exec_andThen [OF exec_stream_status] events.exec_andThen [OF rw [unfolded st_def]] events.exec_andThen [OF w])
  then show ?thesis using h by blast
qed


text \<open>
  C25: A batch read gives the decoder's events. With a FIFO that holds the encoded events of the enabled
  epoch, up to the 512 it has room for, a read of at most \<open>limit\<close> events succeeds, returns the first
  \<open>limit\<close> of them, field for field and in order, and leaves exactly the others in the FIFO for the next
  read; none is lost, repeated or cut, with or without batched pops.
\<close>

theorem event_batch_is_the_fifo:
  assumes "good_events epoch evs" and "1 \<le> limit" and "limit \<le> DecodedBatchMax" and "idle c"
    and "ed_fifo (fold event_op (cp_trace c) d) = holding evs"
  shows "\<exists>c'. ReadDecodedEventsInto None batch epoch limit (event_bus epoch d) c = (Inr (take limit evs), c') \<and> idle c'
    \<and> ed_fifo (fold event_op (cp_trace c') d) = holding (drop limit evs)"
proof -
  define d1 where "d1 = fold event_op (cp_trace c) d"
  obtain d' where f: "events.exec d epoch False (read_fifo batch epoch limit) d1 (take limit evs) d'" and h: "ed_fifo d' = holding (drop limit evs)"
    using exec_read_fifo [of d1 evs epoch limit d batch] assms(1,2,5) by (auto simp: d1_def)
  have r: "events.exec d epoch False (read_reg 74) d1 0x4503 d1"
    using events.exec_read [of d epoch False 74 d1] by (simp add: event_read_def)
  have "events.exec d epoch False (ReadDecodedEventsInto None batch epoch limit) d1 (take limit evs) d'"
    unfolding ReadDecodedEventsInto_def using assms(2,3) f by (simp add: events.exec_andThen [OF r])
  moreover have "events.steady False c" "events.dev_at d c = d1"
    using assms(4) by (simp_all add: events.steady_def events.dev_at_def idle_def d1_def)
  ultimately obtain c' where "ReadDecodedEventsInto None batch epoch limit (event_bus epoch d) c = (Inr (take limit evs), c')"
    and "events.steady False c'" "events.dev_at d c' = d'" unfolding events.exec_def by blast
  then show ?thesis using h by (intro exI [of _ c']) (auto simp: events.steady_def events.dev_at_def idle_def)
qed

definition two_events :: "decoded_event list" where
  "two_events = [sample_event, sample_event\<lparr>ev_Sequence := 9, ev_Kind := EventEnd\<rparr>]"

lemma event_batch_is_the_fifo_witness:
  "\<exists>c'. ReadDecodedEventsInto None True 7 1 (event_bus 7 \<lparr>ed_fifo = holding two_events, ed_count = 0\<rparr>) fresh_capture
    = (Inr [sample_event], c')"
proof -
  have "good_events 7 two_events"
    by (simp add: good_events_def two_events_def validate_event_def sample_event_def Event_kinds)
  moreover have "idle fresh_capture" by (simp add: idle_def fresh_capture_def)
  ultimately show ?thesis
    using event_batch_is_the_fifo [of 7 two_events 1 fresh_capture "\<lparr>ed_fifo = holding two_events, ed_count = 0\<rparr>" True]
    by (auto simp: DecodedBatchMax_def fresh_capture_def two_events_def)
qed

end
