(* ===== verification/Vxi11Wire.thy ===== *)
theory Vxi11Wire
  imports Prelude
begin

text \<open>
  The wire level of VXI-11, ONC RPC over TCP, on both ends: the application's server
  (\<open>app/internal/vxi11srv/server.go\<close>) and the agent's client (\<open>ota/internal/vxi11/vxi11.go\<close>). Record marking and
  XDR, as parsed from bytes a peer chose: \<^term>\<open>None\<close> is a run-time panic. Go's \<open>int\<close> has 32 bits on the
  instrument: \<open>i32\<close> is an \<open>int\<close> computation's wrapped result.
\<close>

section \<open>Big-endian words\<close>

definition be_bytes :: "u32 \<Rightarrow> byte list" where
  "be_bytes v = rev (le_bytes 4 (unat v))"

definition be_word :: "byte list \<Rightarrow> u32" where
  "be_word s = word_of_nat (le_val (rev s))"

definition BeUint32 :: "byte list \<Rightarrow> nat \<Rightarrow> u32 option" where
  "BeUint32 b off = map_option be_word (rd 4 b off)"

definition putU32 :: "byte list \<Rightarrow> u32 \<Rightarrow> byte list" where
  "putU32 b v = b @ be_bytes v"

definition pad_len :: "nat \<Rightarrow> nat" where
  "pad_len n = (4 - n mod 4) mod 4"

definition putOpaque :: "byte list \<Rightarrow> byte list \<Rightarrow> byte list" where
  "putOpaque b data = putU32 b (word_of_nat (length data)) @ data @ replicate (pad_len (length data)) 0"

lemma length_be_bytes [simp]: "length (be_bytes v) = 4"
  by (simp add: be_bytes_def)

lemma be_word_be_bytes [simp]: "be_word (be_bytes v) = v"
  by (simp add: be_word_def be_bytes_def of_le_val_u32)

section \<open>Record marking\<close>

definition i32 :: "int \<Rightarrow> int" where
  "i32 n = signed_take_bit 31 n"

definition maxRecvSize :: nat where "maxRecvSize = 0x800000"
definition maxRecord :: nat where "maxRecord = maxRecvSize + 0x10000"

text \<open>A record read off a stream that holds \<open>inp\<close> and then ends: the message and what is left, an error (the
  stream ended; the record is too large, and the bytes left), or a panic.\<close>

datatype rec_result = RecMsg "byte list" "byte list" | RecEnded | RecTooLarge "byte list" | RecPanic

definition mark_len :: "u32 \<Rightarrow> nat" where
  "mark_len m = unat (m AND 0x7fffffff)"

definition mark_last :: "u32 \<Rightarrow> bool" where
  "mark_last m \<longleftrightarrow> m AND 0x80000000 \<noteq> 0"

text \<open>\<open>slices.Grow\<close> and the slice expression panic on a negative length.\<close>

function readRecord :: "byte list \<Rightarrow> byte list \<Rightarrow> rec_result" where
  "readRecord msg inp = (if length inp < 4 then RecEnded else
     let mark = be_word (take 4 inp); n = mark_len mark; inp1 = drop 4 inp; end = i32 (int (length msg) + int n) in
     if end > int maxRecord then RecTooLarge inp1
     else if end < 0 then RecPanic
     else if length inp1 < n then RecEnded
     else if mark_last mark then RecMsg (msg @ take n inp1) (drop n inp1)
     else readRecord (msg @ take n inp1) (drop n inp1))"
  by pat_completeness auto

termination by (relation "measure (\<lambda>(_, inp). length inp)") auto

declare readRecord.simps [simp del]

definition writeRecord :: "byte list \<Rightarrow> byte list" where
  "writeRecord msg = be_bytes (0x80000000 OR word_of_nat (length msg)) @ msg"

text \<open>The client's reader: the sum is of 64 bits and cannot wrap.\<close>

definition maxReply :: nat where "maxReply = 2 ^ 23"

function readRPCRecord :: "byte list \<Rightarrow> byte list \<Rightarrow> rec_result" where
  "readRPCRecord reply inp = (if length inp < 4 then RecEnded else
     let h = be_word (take 4 inp); n = mark_len h; inp1 = drop 4 inp in
     if length reply + n > maxReply then RecTooLarge inp1
     else if length inp1 < n then RecEnded
     else if mark_last h then RecMsg (reply @ take n inp1) (drop n inp1)
     else readRPCRecord (reply @ take n inp1) (drop n inp1))"
  by pat_completeness auto

termination by (relation "measure (\<lambda>(_, inp). length inp)") auto

declare readRPCRecord.simps [simp del]

section \<open>XDR\<close>

text \<open>
  A slice expression \<open>b[lo:hi]\<close> with \<open>int\<close> bounds: \<^term>\<open>None\<close> is the panic on a bound that is negative, past the
  end or out of order. The end is the length: the capacity a buffer may have beyond it is not modelled. The
  offset is an \<open>int\<close> too, and each sum is wrapped to 32 bits.
\<close>

definition go_slice :: "byte list \<Rightarrow> int \<Rightarrow> int \<Rightarrow> byte list option" where
  "go_slice b lo hi = (if 0 \<le> lo \<and> lo \<le> hi \<and> hi \<le> int (length b) then Some (take (nat (hi - lo)) (drop (nat lo) b)) else None)"

record xdr =
  x_b :: "byte list"
  x_off :: int
  x_err :: bool

definition x_len :: "xdr \<Rightarrow> int" where
  "x_len x = int (length (x_b x))"

definition xdr_u32 :: "xdr \<Rightarrow> (u32 \<times> xdr) option" where
  "xdr_u32 x = (if i32 (x_off x + 4) > x_len x then Some (0, x\<lparr>x_err := True\<rparr>)
     else do { b \<leftarrow> go_slice (x_b x) (x_off x) (x_len x); v \<leftarrow> BeUint32 b 0; Some (v, x\<lparr>x_off := i32 (x_off x + 4)\<rparr>) })"

text \<open>A length off the wire, rounded up to whole words, in \<open>uint32\<close> arithmetic: its \<open>sint\<close> is the source's \<open>pad\<close>.\<close>

definition padded :: "u32 \<Rightarrow> u32" where
  "padded n = (n + 3) AND NOT 3"

definition xdr_opaque :: "xdr \<Rightarrow> (byte list \<times> xdr) option" where
  "xdr_opaque x = do { (nw, x) \<leftarrow> xdr_u32 x;
     let n = sint nw; left = i32 (x_len x - x_off x) in
     if x_err x \<or> n < 0 \<or> n > left then Some ([], x\<lparr>x_err := True\<rparr>)
     else do { v \<leftarrow> go_slice (x_b x) (x_off x) (i32 (x_off x + n));
       let pad = sint (padded nw) in
       Some (v, if pad < n \<or> pad > left then x\<lparr>x_off := x_len x\<rparr> else x\<lparr>x_off := i32 (x_off x + pad)\<rparr>) } }"

definition skipAuth :: "xdr \<Rightarrow> xdr option" where
  "skipAuth x = do { (_, x) \<leftarrow> xdr_u32 x; (nw, x) \<leftarrow> xdr_u32 x;
     let n = sint nw; pad = sint (padded nw) in
     Some (if x_err x \<or> n < 0 \<or> pad < n \<or> pad > i32 (x_len x - x_off x) then x\<lparr>x_off := x_len x\<rparr>
       else x\<lparr>x_off := i32 (x_off x + pad)\<rparr>) }"

section \<open>Parsing never panics\<close>

text \<open>The buffer is a record that was let in, and the offset stays inside it.\<close>

definition wf_xdr :: "xdr \<Rightarrow> bool" where
  "wf_xdr x \<longleftrightarrow> 0 \<le> x_off x \<and> x_off x \<le> x_len x \<and> length (x_b x) \<le> maxRecord"

lemma i32_small: "0 \<le> n \<Longrightarrow> n < 2 ^ 31 \<Longrightarrow> i32 n = n"
  unfolding i32_def by (rule signed_take_bit_int_eq_self) simp_all

lemma x_len_simps [simp]: "x_len (x\<lparr>x_off := k\<rparr>) = x_len x" "x_len (x\<lparr>x_err := e\<rparr>) = x_len x" "0 \<le> x_len x"
  by (simp_all add: x_len_def)

lemma wf_i32:
  assumes "wf_xdr x"
  shows "i32 (x_off x + 4) = x_off x + 4" "i32 (x_len x - x_off x) = x_len x - x_off x"
    and "0 \<le> k \<Longrightarrow> k \<le> x_len x - x_off x \<Longrightarrow> i32 (x_off x + k) = x_off x + k"
  using assms by (auto intro!: i32_small simp: wf_xdr_def x_len_def maxRecord_def maxRecvSize_def)

lemma wf_slice:
  assumes "wf_xdr x" "0 \<le> k" "k \<le> x_len x - x_off x"
  shows "go_slice (x_b x) (x_off x) (x_off x + k) = Some (take (nat k) (drop (nat (x_off x)) (x_b x)))"
  using assms by (simp add: go_slice_def wf_xdr_def x_len_def)

lemma xdr_u32_total: "wf_xdr x \<Longrightarrow> \<exists>v y. xdr_u32 x = Some (v, y) \<and> wf_xdr y \<and> x_b y = x_b x"
proof -
  assume w: "wf_xdr x"
  show ?thesis
  proof (cases "x_off x + 4 > x_len x")
    case False
    have "go_slice (x_b x) (x_off x) (x_len x) = Some (drop (nat (x_off x)) (x_b x))"
      using wf_slice [OF w, of "x_len x - x_off x"] w by (simp add: wf_xdr_def x_len_def)
    moreover have "4 \<le> length (drop (nat (x_off x)) (x_b x))" using w False by (simp add: wf_xdr_def x_len_def) arith
    ultimately show ?thesis using w False wf_i32(1) [OF w] by (simp add: xdr_u32_def BeUint32_def wf_xdr_def)
  qed (use w wf_i32(1) [OF w] in \<open>simp add: xdr_u32_def wf_xdr_def\<close>)
qed

lemma wf_move: "wf_xdr x \<Longrightarrow> 0 \<le> k \<Longrightarrow> k \<le> x_len x \<Longrightarrow> wf_xdr (x\<lparr>x_off := k\<rparr>)"
  by (simp add: wf_xdr_def)

lemma wf_off: "wf_xdr x \<Longrightarrow> 0 \<le> x_off x \<and> x_off x \<le> x_len x"
  by (simp add: wf_xdr_def)

lemma skipAuth_total: "wf_xdr x \<Longrightarrow> \<exists>y. skipAuth x = Some y \<and> wf_xdr y \<and> x_b y = x_b x"
proof -
  assume w: "wf_xdr x"
  obtain v x1 n x2 where u: "xdr_u32 x = Some (v, x1)" "xdr_u32 x1 = Some (n, x2)" "wf_xdr x2" "x_b x2 = x_b x"
    using xdr_u32_total [OF w] xdr_u32_total by metis
  show ?thesis
  proof (cases "x_err x2 \<or> sint n < 0 \<or> sint (padded n) < sint n \<or> sint (padded n) > x_len x2 - x_off x2")
    case True
    then show ?thesis using u wf_move [OF u(3), of "x_len x2"] wf_i32(2) [OF u(3)] by (simp add: skipAuth_def Let_def)
  next
    case False
    then have "wf_xdr (x2\<lparr>x_off := i32 (x_off x2 + sint (padded n))\<rparr>)"
      using wf_off [OF u(3)] wf_i32(3) [OF u(3), of "sint (padded n)"] by (intro wf_move [OF u(3)]) auto
    then show ?thesis using False u wf_i32(2) [OF u(3)] by (simp add: skipAuth_def Let_def)
  qed
qed

lemma xdr_opaque_total: "wf_xdr x \<Longrightarrow> \<exists>d y. xdr_opaque x = Some (d, y) \<and> wf_xdr y \<and> x_b y = x_b x"
proof -
  assume w: "wf_xdr x"
  obtain n x2 where u: "xdr_u32 x = Some (n, x2)" "wf_xdr x2" "x_b x2 = x_b x"
    using xdr_u32_total [OF w] by blast
  show ?thesis
  proof (cases "x_err x2 \<or> sint n < 0 \<or> sint n > x_len x2 - x_off x2")
    case True
    then show ?thesis using u wf_i32(2) [OF u(2)] by (simp add: xdr_opaque_def Let_def wf_xdr_def x_len_def)
  next
    case False
    then have s: "go_slice (x_b x2) (x_off x2) (i32 (x_off x2 + sint n)) \<noteq> None"
      using wf_slice [OF u(2), of "sint n"] wf_i32(3) [OF u(2), of "sint n"] by simp
    have "wf_xdr (if sint (padded n) < sint n \<or> sint (padded n) > x_len x2 - x_off x2 then x2\<lparr>x_off := x_len x2\<rparr>
        else x2\<lparr>x_off := i32 (x_off x2 + sint (padded n))\<rparr>)"
      using False wf_off [OF u(2)] wf_i32(3) [OF u(2), of "sint (padded n)"] by (auto intro!: wf_move [OF u(2)])
    then show ?thesis using False s u wf_i32(2) [OF u(2)] by (auto simp: xdr_opaque_def Let_def)
  qed
qed

end
