(* ===== verification/Vxi11Server.thy ===== *)
theory Vxi11Server
  imports Vxi11Wire
begin

text \<open>
  The VXI-11 server of \<open>app/internal/vxi11srv/server.go\<close>: its connections, the one link, the DEVICE_CORE
  procedures and the reply to each RPC message. The SCPI handler is an arbitrary function on the state of
  the instrument. A message is handled in one step: a connection's buffers belong to its goroutine, and
  the link is only given up by the connection that holds it.

  \<open>None\<close> is a panic, which nothing recovers: it ends the application.
\<close>

section \<open>State\<close>

type_synonym 'e scpi = "byte list \<Rightarrow> 'e \<Rightarrow> byte list \<times> 'e"

record vconn =
  vc_lid :: u32
  vc_lineBuf :: "byte list"
  vc_pending :: "byte list"

record 'e vxi =
  vx_linkOwner :: "nat option"
  vx_nextLID :: u32
  vx_conn :: "nat \<Rightarrow> vconn"
  vx_dev :: 'e

definition fresh_conn :: vconn where
  "fresh_conn = \<lparr>vc_lid = 0, vc_lineBuf = [], vc_pending = []\<rparr>"

definition Start :: "'e \<Rightarrow> 'e vxi" where
  "Start e = \<lparr>vx_linkOwner = None, vx_nextLID = 1, vx_conn = (\<lambda>_. fresh_conn), vx_dev = e\<rparr>"

definition set_conn :: "nat \<Rightarrow> (vconn \<Rightarrow> vconn) \<Rightarrow> 'e vxi \<Rightarrow> 'e vxi" where
  "set_conn c f v = v\<lparr>vx_conn := (vx_conn v)(c := f (vx_conn v c))\<rparr>"

definition owns :: "nat \<Rightarrow> u32 \<Rightarrow> 'e vxi \<Rightarrow> bool" where
  "owns c lid v \<longleftrightarrow> vx_linkOwner v = Some c \<and> vc_lid (vx_conn v c) = lid \<and> lid \<noteq> 0"

definition release :: "nat \<Rightarrow> 'e vxi \<Rightarrow> 'e vxi" where
  "release c v = (if vx_linkOwner v = Some c then v\<lparr>vx_linkOwner := None\<rparr> else v)"

section \<open>Procedures\<close>

definition progCore :: u32 where "progCore = 0x0607AF"
definition errInvLink :: u32 where "errInvLink = 4"
definition errLocked :: u32 where "errLocked = 11"
definition errTimeout :: u32 where "errTimeout = 15"
definition errIO :: u32 where "errIO = 17"
definition reasonEND :: u32 where "reasonEND = 4"

definition words :: "u32 list \<Rightarrow> byte list" where
  "words = foldl putU32 []"

type_synonym 'e outcome = "(byte list option \<times> 'e vxi) option"

definition create_link :: "nat \<Rightarrow> xdr \<Rightarrow> 'e vxi \<Rightarrow> 'e outcome" where
  "create_link c x v = do { (_, x) \<leftarrow> xdr_u32 x; (_, x) \<leftarrow> xdr_u32 x; (_, x) \<leftarrow> xdr_u32 x; (_, x) \<leftarrow> xdr_opaque x;
     if vx_linkOwner v \<noteq> None \<and> vx_linkOwner v \<noteq> Some c then Some (Some (words [errLocked, 0, 0, word_of_nat maxRecvSize]), v)
     else let lid = vx_nextLID v + 1 in
       Some (Some (words [0, lid, 0, word_of_nat maxRecvSize]),
         (set_conn c (\<lambda>cn. cn\<lparr>vc_lid := lid, vc_lineBuf := [], vc_pending := []\<rparr>) v)\<lparr>vx_nextLID := lid, vx_linkOwner := Some c\<rparr>) }"

text \<open>The whole lines of the buffer go to the handler.\<close>

function feed_lines :: "'e scpi \<Rightarrow> byte list \<Rightarrow> byte list \<Rightarrow> 'e \<Rightarrow> byte list \<times> byte list \<times> 'e" where
  "feed_lines h buf pending e = (if 10 \<notin> set buf then (buf, pending, e) else
     let i = length (takeWhile (\<lambda>b. b \<noteq> 10) buf); (r, e) = h (take (i + 1) buf) e in feed_lines h (drop (i + 1) buf) (pending @ r) e)"
  by pat_completeness auto

termination by (relation "measure (\<lambda>(_, buf, _, _). length buf)") (auto dest: length_pos_if_in_set)

declare feed_lines.simps [simp del]

definition flagEND :: u32 where "flagEND = 8"

definition accept_data :: "'e scpi \<Rightarrow> u32 \<Rightarrow> byte list \<Rightarrow> byte list \<Rightarrow> 'e \<Rightarrow> byte list \<times> byte list \<times> 'e" where
  "accept_data h flags buf pending e = (let (buf, pending, e) = feed_lines h buf pending e in
     if flags AND flagEND \<noteq> 0 \<and> buf \<noteq> [] then (let (r, e) = h (buf @ [10]) e in ([], pending @ r, e)) else (buf, pending, e))"

definition device_write :: "'e scpi \<Rightarrow> nat \<Rightarrow> xdr \<Rightarrow> 'e vxi \<Rightarrow> 'e outcome" where
  "device_write h c x v = do { (lid, x) \<leftarrow> xdr_u32 x; (_, x) \<leftarrow> xdr_u32 x; (_, x) \<leftarrow> xdr_u32 x; (flags, x) \<leftarrow> xdr_u32 x; (data, x) \<leftarrow> xdr_opaque x;
     if \<not> owns c lid v \<or> x_err x then Some (Some (words [errInvLink, 0]), v)
     else let cn = vx_conn v c in
       if length (vc_lineBuf cn) + length data > maxRecvSize then Some (Some (words [errIO, 0]), set_conn c (\<lambda>cn. cn\<lparr>vc_lineBuf := []\<rparr>) v)
       else let (buf, pending, e) = accept_data h flags (vc_lineBuf cn @ data) (vc_pending cn) (vx_dev v) in
         Some (Some (words [0, word_of_nat (length data)]), (set_conn c (\<lambda>cn. cn\<lparr>vc_lineBuf := buf, vc_pending := pending\<rparr>) v)\<lparr>vx_dev := e\<rparr>) }"

text \<open>With nothing pending the connection waits for its time-out: its buffers are its own, so nothing comes.
  \<open>min(len, reqSize)\<close> is signed, and a negative length makes the slice expression panic.\<close>

definition device_read :: "nat \<Rightarrow> xdr \<Rightarrow> 'e vxi \<Rightarrow> 'e outcome" where
  "device_read c x v = do { (lid, x) \<leftarrow> xdr_u32 x; (reqSize, x) \<leftarrow> xdr_u32 x; (_, x) \<leftarrow> xdr_u32 x;
     let pending = vc_pending (vx_conn v c) in
     if \<not> owns c lid v then Some (Some (putOpaque (words [errInvLink, 0]) []), v)
     else if pending = [] then Some (Some (putOpaque (words [errTimeout, 0]) []), v)
     else let n = min (int (length pending)) (sint reqSize) in
       if n < 0 then None
       else let chunk = take (nat n) pending; rest = drop (nat n) pending in
         Some (Some (putOpaque (words [0, if rest = [] then reasonEND else 0]) chunk), set_conn c (\<lambda>cn. cn\<lparr>vc_pending := rest\<rparr>) v) }"

definition destroy_link :: "nat \<Rightarrow> xdr \<Rightarrow> 'e vxi \<Rightarrow> 'e outcome" where
  "destroy_link c x v = do { (lid, x) \<leftarrow> xdr_u32 x;
     if vx_linkOwner v \<noteq> Some c \<or> vc_lid (vx_conn v c) \<noteq> lid \<or> lid = 0 then Some (Some (words [errInvLink]), v)
     else Some (Some (words [0]), (set_conn c (\<lambda>cn. cn\<lparr>vc_lid := 0\<rparr>) v)\<lparr>vx_linkOwner := None\<rparr>) }"

definition dispatch :: "'e scpi \<Rightarrow> nat \<Rightarrow> u32 \<Rightarrow> xdr \<Rightarrow> 'e vxi \<Rightarrow> 'e outcome" where
  "dispatch h c proc x v =
     (if proc = 10 then create_link c x v
      else if proc = 11 then device_write h c x v
      else if proc = 12 then device_read c x v
      else if proc = 15 then Some (Some (words [0]), set_conn c (\<lambda>cn. cn\<lparr>vc_lineBuf := [], vc_pending := []\<rparr>) v)
      else if proc = 13 then Some (Some (words [0, 0]), v)
      else if proc \<in> {14, 16, 17, 18, 19, 20} then Some (Some (words [0]), v)
      else if proc = 23 then destroy_link c x v
      else Some (None, v))"

section \<open>Messages\<close>

record rpc_call =
  rc_xid :: u32
  rc_type :: u32
  rc_prog :: u32
  rc_proc :: u32
  rc_args :: xdr

definition parse_call :: "byte list \<Rightarrow> rpc_call option" where
  "parse_call msg = do { (xid, x) \<leftarrow> xdr_u32 \<lparr>x_b = msg, x_off = 0, x_err = False\<rparr>; (typ, x) \<leftarrow> xdr_u32 x;
     if typ \<noteq> 0 then Some \<lparr>rc_xid = xid, rc_type = typ, rc_prog = 0, rc_proc = 0, rc_args = x\<rparr>
     else do { (_, x) \<leftarrow> xdr_u32 x; (prog, x) \<leftarrow> xdr_u32 x; (_, x) \<leftarrow> xdr_u32 x; (proc, x) \<leftarrow> xdr_u32 x; x \<leftarrow> skipAuth x; x \<leftarrow> skipAuth x;
       Some \<lparr>rc_xid = xid, rc_type = typ, rc_prog = prog, rc_proc = proc, rc_args = x\<rparr> } }"

definition reply_of :: "u32 \<Rightarrow> byte list option \<Rightarrow> byte list" where
  "reply_of xid results = words [xid, 1, 0, 0, 0] @ (case results of None \<Rightarrow> be_bytes 3 | Some r \<Rightarrow> be_bytes 0 @ r)"

text \<open>The reply to one message; no reply (\<open>None\<close>) to one that is no call.\<close>

definition handle_msg :: "'e scpi \<Rightarrow> nat \<Rightarrow> byte list \<Rightarrow> 'e vxi \<Rightarrow> 'e outcome" where
  "handle_msg h c msg v = do { r \<leftarrow> parse_call msg;
     if rc_type r \<noteq> 0 then Some (None, v)
     else do { (results, v) \<leftarrow> (if rc_prog r = progCore then dispatch h c (rc_proc r) (rc_args r) v else Some (None, v));
       Some (Some (reply_of (rc_xid r) results), v) } }"

text \<open>A connection to its end: what it wrote, and the server's state after, \<open>None\<close> after a panic. \<open>wok i\<close>: the
  write of the \<open>i\<close>-th reply succeeds.\<close>

lemma readRecord_shorter: "readRecord msg inp = RecMsg m rest \<Longrightarrow> length rest < length inp"
proof (induction msg inp rule: readRecord.induct)
  case (1 msg inp)
  let ?n = "mark_len (be_word (take 4 inp))"
  have l: "\<not> length inp < 4" using 1(2) by (subst (asm) readRecord.simps) (simp split: if_splits)
  then have shorter: "length (drop ?n (drop 4 inp)) < length inp" by simp
  have "rest = drop ?n (drop 4 inp) \<or> length rest < length (drop ?n (drop 4 inp))"
    using 1(2) 1(1) [OF l refl refl refl refl] unfolding readRecord.simps [of msg inp] Let_def by (simp split: if_splits del: drop_drop length_drop)
  then show ?case using shorter by (auto simp del: drop_drop length_drop)
qed

function serve :: "'e scpi \<Rightarrow> nat \<Rightarrow> (nat \<Rightarrow> bool) \<Rightarrow> nat \<Rightarrow> byte list \<Rightarrow> 'e vxi \<Rightarrow> byte list \<times> 'e vxi option" where
  "serve h c wok i inp v = (case readRecord [] inp of
     RecMsg msg rest \<Rightarrow> (case handle_msg h c msg v of
         None \<Rightarrow> ([], None)
       | Some (None, v) \<Rightarrow> serve h c wok i rest v
       | Some (Some reply, v) \<Rightarrow> if \<not> wok i then ([], Some (release c v))
           else (case serve h c wok (i + 1) rest v of (out, v) \<Rightarrow> (writeRecord reply @ out, v)))
   | RecPanic \<Rightarrow> ([], None)
   | _ \<Rightarrow> ([], Some (release c v)))"
  by pat_completeness auto

termination by (relation "measure (\<lambda>(_, _, _, _, inp, _). length inp)") (auto dest: readRecord_shorter)

declare serve.simps [simp del]

end
