(* ===== verification/Vxi11Marks.thy ===== *)
theory Vxi11Marks
  imports Vxi11Wire
begin

text \<open>
  Record marking on both ends: whatever fragments a message is sent in, both readers put it together again;
  neither hands out a message over its limit; and what a mark can do to the server's \<open>int\<close> arithmetic.
\<close>

section \<open>Marks\<close>

definition mark_word :: "bool \<Rightarrow> nat \<Rightarrow> u32" where
  "mark_word final n = (if final then 0x80000000 else 0) OR word_of_nat n"

definition fragment :: "bool \<Rightarrow> byte list \<Rightarrow> byte list" where
  "fragment final d = be_bytes (mark_word final (length d)) @ d"

fun fragments :: "byte list list \<Rightarrow> byte list" where
  "fragments [] = []"
| "fragments [d] = fragment True d"
| "fragments (d # ds) = fragment False d @ fragments ds"

lemma mark_len_word [simp]:
  assumes "n < 2 ^ 31"
  shows "mark_len (mark_word final n) = n"
proof -
  have m: "w AND 0x7fffffff = take_bit 31 w" for w :: u32 by (simp add: take_bit_eq_mask mask_eq_exp_minus_1)
  have "mark_len (mark_word final n) = unat (take_bit 31 (word_of_nat n :: u32))"
    by (simp only: mark_len_def mark_word_def m take_bit_or) simp
  also have "\<dots> = n" using assms by (simp only: unsigned_take_bit_eq unat_of_nat) (simp add: take_bit_nat_eq_self)
  finally show ?thesis .
qed

lemma mark_last_word [simp]:
  assumes "n < 2 ^ 31"
  shows "mark_last (mark_word final n) = final"
proof -
  have e: "(0x80000000 :: u32) = push_bit 31 1" by simp
  have "\<not> bit n 31" using assms by (simp add: bit_nat_iff bit_iff_odd)
  then have "bit (mark_word final n) 31 = final" by (simp add: mark_word_def bit_simps e del: push_bit_of_1)
  moreover have "mark_last w \<longleftrightarrow> bit w 31" for w :: u32
    unfolding mark_last_def e by (metis and_exp_eq_0_iff_not_bit push_bit_of_1)
  ultimately show ?thesis by simp
qed

lemma writeRecord_fragment: "writeRecord msg = fragment True msg"
  by (simp add: writeRecord_def fragment_def mark_word_def)

lemma i32_wrapped: "2 ^ 31 \<le> n \<Longrightarrow> n < 2 ^ 32 \<Longrightarrow> i32 n = n - 2 ^ 32"
proof -
  assume a: "2 ^ 31 \<le> n" "n < 2 ^ 32"
  then have "(n + 2 ^ 31) mod 2 ^ 32 = n + 2 ^ 31 - 2 ^ 32" by (subst mod_pos_geq) simp_all
  then show ?thesis by (simp add: i32_def signed_take_bit_eq_take_bit_shift take_bit_eq_mod)
qed

section \<open>Reading fragments\<close>

lemma maxRecord_small: "maxRecord < 2 ^ 31"
  by (simp add: maxRecord_def maxRecvSize_def)

lemma readRecord_fragment:
  assumes "length msg + length d \<le> maxRecord"
  shows "readRecord msg (fragment final d @ rest) = (if final then RecMsg (msg @ d) rest else readRecord (msg @ d) rest)"
proof -
  have "length d < 2 ^ 31" "int (length msg) + int (length d) < 2 ^ 31" using assms by (simp_all add: maxRecord_def maxRecvSize_def)
  then show ?thesis using assms by (subst readRecord.simps) (simp add: fragment_def i32_small)
qed

lemma readRPCRecord_fragment:
  assumes "length msg + length d \<le> maxReply"
  shows "readRPCRecord msg (fragment final d @ rest) = (if final then RecMsg (msg @ d) rest else readRPCRecord (msg @ d) rest)"
proof -
  have "length d < 2 ^ 31" using assms by (simp add: maxReply_def)
  then show ?thesis using assms by (subst readRPCRecord.simps) (simp add: fragment_def)
qed

lemma readRecord_fragments:
  "ds \<noteq> [] \<Longrightarrow> length msg + length (concat ds) \<le> maxRecord \<Longrightarrow> readRecord msg (fragments ds @ rest) = RecMsg (msg @ concat ds) rest"
  by (induction ds arbitrary: msg rule: fragments.induct) (simp_all add: readRecord_fragment)

lemma readRPCRecord_fragments:
  "ds \<noteq> [] \<Longrightarrow> length msg + length (concat ds) \<le> maxReply \<Longrightarrow> readRPCRecord msg (fragments ds @ rest) = RecMsg (msg @ concat ds) rest"
  by (induction ds arbitrary: msg rule: fragments.induct) (simp_all add: readRPCRecord_fragment)

lemma mark_len_less: "mark_len m < 2 ^ 31"
proof -
  have "mark_len m \<le> unat (0x7fffffff :: u32)" unfolding mark_len_def by (intro word_le_nat_alt [THEN iffD1] word_and_le1)
  then show ?thesis by simp
qed

text \<open>The limit test of the server, as far as it goes: a sum that wraps is negative, not over the limit.\<close>

lemma end_of_fragment:
  assumes "length msg \<le> maxRecord"
  shows "i32 (int (length msg) + int (mark_len m)) =
    (if length msg + mark_len m < 2 ^ 31 then int (length msg) + int (mark_len m) else int (length msg) + int (mark_len m) - 2 ^ 32)"
proof -
  have "mark_len m < 2 ^ 31" by (rule mark_len_less)
  moreover have "length msg \<le> 8454144" using assms by (simp add: maxRecord_def maxRecvSize_def)
  ultimately show ?thesis
    using i32_small [of "int (length msg) + int (mark_len m)"] i32_wrapped [of "int (length msg) + int (mark_len m)"] by auto
qed

lemma readRecord_bounded: "readRecord msg inp = RecMsg m rest \<Longrightarrow> length msg \<le> maxRecord \<Longrightarrow> length m \<le> maxRecord"
proof (induction msg inp rule: readRecord.induct)
  case (1 msg inp)
  let ?n = "mark_len (be_word (take 4 inp))" and ?inp = "drop 4 inp"
  have l: "\<not> length inp < 4" and i: "\<not> i32 (int (length msg) + int ?n) > int maxRecord" "\<not> i32 (int (length msg) + int ?n) < 0"
    and t: "\<not> length ?inp < ?n"
    using 1(2) by (auto simp: readRecord.simps [of msg inp] Let_def split: if_splits)
  have b: "length (msg @ take ?n ?inp) \<le> maxRecord"
    using i end_of_fragment [OF 1(3), of "be_word (take 4 inp)"] t mark_len_less [of "be_word (take 4 inp)"] 1(3)
    by (auto simp: maxRecord_def maxRecvSize_def split: if_splits)
  show ?case
  proof (cases "mark_last (be_word (take 4 inp))")
    case True
    then show ?thesis using 1(2) l i t b unfolding readRecord.simps [of msg inp] Let_def by auto
  next
    case False
    then have "readRecord (msg @ take ?n ?inp) (drop ?n ?inp) = RecMsg m rest"
      using 1(2) l i t unfolding readRecord.simps [of msg inp] Let_def by simp
    then show ?thesis using 1(1) [OF l refl refl refl refl i t False _ b] by simp
  qed
qed

text \<open>The same test with a sum that wraps.\<close>

lemma readRecord_wraps:
  assumes "length msg \<le> maxRecord" and "n < 2 ^ 31" and "2 ^ 31 \<le> length msg + n"
  shows "readRecord msg (be_bytes (mark_word final n) @ inp) = RecPanic"
  using assms end_of_fragment [of msg "mark_word final n"]
  by (subst readRecord.simps) (simp add: maxRecord_def maxRecvSize_def)

end
