(* ===== verification/Vxi11Session.thy ===== *)
theory Vxi11Session
  imports Vxi11Server Vxi11Marks
begin

text \<open>
  What the server promises whatever bytes its clients send: which messages make it panic, and that the link's
  session belongs to the connection that created it.
\<close>

section \<open>The messages that panic\<close>

lemma wf_fresh [simp]: "wf_xdr \<lparr>x_b = msg, x_off = 0, x_err = False\<rparr> \<longleftrightarrow> length msg \<le> maxRecord"
  by (simp add: wf_xdr_def x_len_def)

lemma parse_call_total:
  assumes "length msg \<le> maxRecord"
  shows "\<exists>r. parse_call msg = Some r \<and> wf_xdr (rc_args r)"
proof -
  have "\<exists>v y. xdr_u32 \<lparr>x_b = msg, x_off = 0, x_err = False\<rparr> = Some (v, y) \<and> wf_xdr y"
    using xdr_u32_total [OF iffD2 [OF wf_fresh assms]] by blast
  then obtain v x1 t x2 where 1: "xdr_u32 \<lparr>x_b = msg, x_off = 0, x_err = False\<rparr> = Some (v, x1)" "xdr_u32 x1 = Some (t, x2)" "wf_xdr x2"
    using xdr_u32_total by blast
  then obtain a x3 b x4 d x5 p x6 where 2: "xdr_u32 x2 = Some (a, x3)" "xdr_u32 x3 = Some (b, x4)" "xdr_u32 x4 = Some (d, x5)" "xdr_u32 x5 = Some (p, x6)" "wf_xdr x6"
    using xdr_u32_total by meson
  then obtain x7 x8 where 3: "skipAuth x6 = Some x7" "skipAuth x7 = Some x8" "wf_xdr x8"
    using skipAuth_total by meson
  show ?thesis using 1 2 3 by (simp add: parse_call_def)
qed

text \<open>The arguments of a DEVICE_READ: the link and the size it asks for.\<close>

definition read_args :: "xdr \<Rightarrow> (u32 \<times> u32) option" where
  "read_args x = do { (lid, x) \<leftarrow> xdr_u32 x; (n, x) \<leftarrow> xdr_u32 x; Some (lid, n) }"

definition hostile_read :: "nat \<Rightarrow> byte list \<Rightarrow> 'e vxi \<Rightarrow> bool" where
  "hostile_read c msg v \<longleftrightarrow> (case parse_call msg of None \<Rightarrow> False | Some r \<Rightarrow>
     rc_type r = 0 \<and> rc_prog r = progCore \<and> rc_proc r = 12 \<and> vc_pending (vx_conn v c) \<noteq> []
     \<and> (case read_args (rc_args r) of None \<Rightarrow> False | Some (lid, n) \<Rightarrow> owns c lid v \<and> n \<ge> 0x80000000))"

lemma sint_neg_u32: "sint (n :: u32) < 0 \<longleftrightarrow> n \<ge> 0x80000000"
proof -
  have i: "sint n = i32 (uint n)" by (simp add: sint_uint i32_def)
  have u: "uint n < 2 ^ 32" using uint_lt2p [of n] by simp
  have g: "n \<ge> 0x80000000 \<longleftrightarrow> 2 ^ 31 \<le> uint n" by (simp add: word_le_def)
  show ?thesis unfolding i g using i32_small [of "uint n"] i32_wrapped [of "uint n"] u by (cases "2 ^ 31 \<le> uint n") auto
qed

lemma device_read_None:
  assumes "wf_xdr x"
  shows "device_read c x v = None \<longleftrightarrow> vc_pending (vx_conn v c) \<noteq> [] \<and>
    (case read_args x of None \<Rightarrow> False | Some (lid, n) \<Rightarrow> owns c lid v \<and> n \<ge> 0x80000000)"
proof -
  obtain lid x1 n x2 t x3 where "xdr_u32 x = Some (lid, x1)" "xdr_u32 x1 = Some (n, x2)" "xdr_u32 x2 = Some (t, x3)"
    using xdr_u32_total assms by meson
  then show ?thesis
    by (auto simp: device_read_def read_args_def Let_def min_less_iff_disj sint_neg_u32)
qed

lemma create_link_total: "wf_xdr x \<Longrightarrow> create_link c x v \<noteq> None"
proof -
  assume "wf_xdr x"
  then obtain a x1 b x2 d x3 e x4 where "xdr_u32 x = Some (a, x1)" "xdr_u32 x1 = Some (b, x2)" "xdr_u32 x2 = Some (d, x3)" "xdr_opaque x3 = Some (e, x4)"
    using xdr_u32_total xdr_opaque_total by meson
  then show ?thesis by (simp add: create_link_def Let_def)
qed

lemma device_write_total: "wf_xdr x \<Longrightarrow> device_write h c x v \<noteq> None"
proof -
  assume "wf_xdr x"
  then obtain a x1 b x2 d x3 f x4 where w: "xdr_u32 x = Some (a, x1)" "xdr_u32 x1 = Some (b, x2)" "xdr_u32 x2 = Some (d, x3)" "xdr_u32 x3 = Some (f, x4)" "wf_xdr x4"
    using xdr_u32_total by meson
  then obtain e x5 where "xdr_opaque x4 = Some (e, x5)" using xdr_opaque_total by blast
  then show ?thesis using w by (simp add: device_write_def Let_def split_beta)
qed

lemma destroy_link_total: "wf_xdr x \<Longrightarrow> destroy_link c x v \<noteq> None"
  by (drule xdr_u32_total) (auto simp: destroy_link_def)

lemma dispatch_None:
  "wf_xdr x \<Longrightarrow> dispatch h c proc x v = None \<longleftrightarrow> proc = 12 \<and> device_read c x v = None"
  using create_link_total [of x c v] device_write_total [of x h c v] destroy_link_total [of x c v]
  by (simp add: dispatch_def)


lemma handle_msg_panics:
  assumes "length msg \<le> maxRecord"
  shows "handle_msg h c msg v = None \<longleftrightarrow> hostile_read c msg v"
proof -
  obtain r where r: "parse_call msg = Some r" "wf_xdr (rc_args r)" using parse_call_total [OF assms] by blast
  then show ?thesis
    by (auto simp: handle_msg_def hostile_read_def dispatch_None device_read_None bind_eq_None_conv split: option.splits prod.splits)
qed


section \<open>The link's session\<close>

text \<open>
  What the connections do, in the order the server sees it: a message, or the end of the connection. A message
  over the limit is no message: \<open>readRecord\<close> refuses it and the connection ends.
\<close>

datatype vxi_event = Msg nat "byte list" | Closed nat

fun event_conn :: "vxi_event \<Rightarrow> nat" where
  "event_conn (Msg c _) = c"
| "event_conn (Closed c) = c"

fun vxi_step :: "'e scpi \<Rightarrow> vxi_event \<Rightarrow> 'e vxi \<Rightarrow> 'e vxi option" where
  "vxi_step h (Msg c msg) v =
     (if length msg > maxRecord then Some (release c v) else map_option snd (handle_msg h c msg v))"
| "vxi_step h (Closed c) v = Some (release c v)"

fun vxi_run :: "'e scpi \<Rightarrow> vxi_event list \<Rightarrow> 'e vxi \<Rightarrow> 'e vxi option" where
  "vxi_run h [] v = Some v"
| "vxi_run h (ev # evs) v = Option.bind (vxi_step h ev v) (vxi_run h evs)"

text \<open>Nothing but the buffers of connection \<open>d\<close> differs.\<close>

definition only_own :: "nat \<Rightarrow> 'e vxi \<Rightarrow> 'e vxi \<Rightarrow> bool" where
  "only_own d v v' \<longleftrightarrow> (\<exists>cn. v' = v\<lparr>vx_conn := (vx_conn v)(d := cn)\<rparr>)"

lemma only_own_refl [simp]: "only_own d v v"
  by (auto simp: only_own_def intro!: exI [of _ "vx_conn v d"])

lemma only_own_set_conn [simp]: "only_own d v (set_conn d f v)"
  by (auto simp: only_own_def set_conn_def)

lemma not_owner:
  assumes "vx_linkOwner v = Some c" and "d \<noteq> c"
  shows "\<not> owns d lid v" "vx_linkOwner v \<noteq> None" "vx_linkOwner v \<noteq> Some d"
  using assms by (auto simp: owns_def)

lemma dispatch_other:
  assumes "dispatch h d proc x v = Some (r, v')" and "vx_linkOwner v = Some c" and "d \<noteq> c"
  shows "only_own d v v'"
  using assms(1) not_owner [OF assms(2,3)]
  by (auto simp: dispatch_def create_link_def device_write_def device_read_def destroy_link_def Let_def bind_eq_Some_conv
      split: if_splits)

lemma handle_msg_other:
  assumes "handle_msg h d msg v = Some (r, v')" and "vx_linkOwner v = Some c" and "d \<noteq> c"
  shows "only_own d v v'"
  using assms dispatch_other [of h d _ _ v _ v' c]
  by (auto simp: handle_msg_def bind_eq_Some_conv split: if_splits)

lemma vxi_step_other:
  assumes "vx_linkOwner v = Some c" and "event_conn ev \<noteq> c"
  shows "\<exists>v'. vxi_step h ev v = Some v' \<and> only_own (event_conn ev) v v'"
proof (cases ev)
  case (Msg d msg)
  show ?thesis
  proof (cases "length msg > maxRecord")
    case True
    then show ?thesis using Msg assms by (simp add: release_def)
  next
    case False
    then have "handle_msg h d msg v \<noteq> None"
      using handle_msg_panics [of msg h d v] not_owner [OF assms(1)] assms(2) Msg by (simp add: hostile_read_def split: option.split)
    then show ?thesis using False Msg assms handle_msg_other [of h d msg v _ _ c] by fastforce
  qed
next
  case (Closed d)
  then show ?thesis using assms by (simp add: release_def)
qed

text \<open>What the session of connection \<open>c\<close> rests on.\<close>

definition session_of :: "nat \<Rightarrow> 'e vxi \<Rightarrow> u32 \<times> vconn \<times> 'e" where
  "session_of c v = (vx_nextLID v, vx_conn v c, vx_dev v)"

lemma only_own_session:
  "only_own d v v' \<Longrightarrow> d \<noteq> c \<Longrightarrow> vx_linkOwner v' = vx_linkOwner v \<and> session_of c v' = session_of c v"
  by (auto simp: only_own_def session_of_def)

end
