(* ===== verification/Vxi11Client.thy ===== *)
theory Vxi11Client
  imports Vxi11Wire
begin

text \<open>
  The VXI-11 client of \<open>ota/internal/vxi11/vxi11.go\<close>, with which the agent commands the factory firmware: RPC
  calls, the dial through the portmapper, \<open>Send\<close>, \<open>Query\<close> and \<open>Close\<close>.

  The other side is an arbitrary \<open>peer\<close>: \<open>pr_dial\<close> says whether a port answers, \<open>pr_send\<close> whether a write
  succeeds and what bytes come back. A read finds the bytes that have come back, and fails at their end (the
  deadline, or the end of the connection). \<open>clock n\<close> is the identifier of the \<open>n\<close>-th call.
\<close>

section \<open>Calls\<close>

record 's peer =
  pr_dial :: "u32 \<Rightarrow> 's \<Rightarrow> bool \<times> 's"
  pr_send :: "u32 \<Rightarrow> byte list \<Rightarrow> 's \<Rightarrow> bool \<times> byte list \<times> 's"

datatype vxi_err = DialFailed | WriteFailed | ReadFailed | ShortReply | XidMismatch | NotAReply | Denied | BigVerifier
  | TruncatedReply | AcceptStat u32 | ShortResult | NotRegistered u32 | DeviceError u32

text \<open>A connection: its port, the bytes that came and were not read yet, the calls made.\<close>

record 's vlink =
  vl_port :: u32
  vl_in :: "byte list"
  vl_calls :: nat
  vl_peer :: 's

definition cl_words :: "byte list \<Rightarrow> u32 list \<Rightarrow> byte list" where
  "cl_words b vs = foldl putU32 b vs"

definition cl_opaque :: "byte list \<Rightarrow> byte list \<Rightarrow> byte list" where
  "cl_opaque b p = (let b = putU32 b (word_of_nat (length p)) @ p in b @ replicate (pad_len (length b)) 0)"

definition call_msg :: "u32 \<Rightarrow> u32 \<Rightarrow> u32 \<Rightarrow> u32 \<Rightarrow> byte list \<Rightarrow> byte list" where
  "call_msg xid prog vers proc args = cl_words [] [xid, 0, 2, prog, vers, proc, 0, 0, 0, 0] @ args"

definition maxStale :: nat where "maxStale = 8"

text \<open>The reply with the call's identifier; replies to earlier calls are read past.\<close>

primrec read_reply :: "nat \<Rightarrow> u32 \<Rightarrow> byte list \<Rightarrow> (vxi_err + byte list) \<times> byte list" where
  "read_reply 0 xid inp = (case readRPCRecord [] inp of
     RecMsg r rest \<Rightarrow> (if length r < 24 then Inl ShortReply else if be_word (take 4 r) = xid then Inr r else Inl XidMismatch, rest)
   | RecTooLarge rest \<Rightarrow> (Inl ReadFailed, rest) | _ \<Rightarrow> (Inl ReadFailed, []))"
| "read_reply (Suc stale) xid inp = (case readRPCRecord [] inp of
     RecMsg r rest \<Rightarrow> if length r < 24 then (Inl ShortReply, rest) else if be_word (take 4 r) = xid then (Inr r, rest)
       else read_reply stale xid rest
   | RecTooLarge rest \<Rightarrow> (Inl ReadFailed, rest) | _ \<Rightarrow> (Inl ReadFailed, []))"

definition maxAuthBody :: u32 where "maxAuthBody = 400"

definition word_at :: "byte list \<Rightarrow> nat \<Rightarrow> u32" where
  "word_at b i = be_word (take 4 (drop i b))"

definition accepted :: "byte list \<Rightarrow> vxi_err + byte list" where
  "accepted reply = (if word_at reply 4 \<noteq> 1 then Inl NotAReply else if word_at reply 8 \<noteq> 0 then Inl Denied
     else let verfLen = word_at reply 16 in if verfLen > maxAuthBody then Inl BigVerifier
     else let off = 20 + unat (verfLen + 3) div 4 * 4 in if length reply < off + 4 then Inl TruncatedReply
     else if word_at reply off \<noteq> 0 then Inl (AcceptStat (word_at reply off)) else Inr (drop (off + 4) reply))"

definition rpcCall :: "'s peer \<Rightarrow> (nat \<Rightarrow> u32) \<Rightarrow> u32 \<Rightarrow> u32 \<Rightarrow> u32 \<Rightarrow> byte list \<Rightarrow> 's vlink \<Rightarrow> (vxi_err + byte list) \<times> 's vlink" where
  "rpcCall pr clock prog vers proc args l = (let xid = clock (vl_calls l); l = l\<lparr>vl_calls := vl_calls l + 1\<rparr> in
     case pr_send pr (vl_port l) (writeRecord (call_msg xid prog vers proc args)) (vl_peer l) of (ok, back, s) \<Rightarrow>
       (let l = l\<lparr>vl_peer := s, vl_in := vl_in l @ back\<rparr> in
        if \<not> ok then (Inl WriteFailed, l)
        else case read_reply maxStale xid (vl_in l) of (r, rest) \<Rightarrow>
          ((case r of Inl e \<Rightarrow> Inl e | Inr reply \<Rightarrow> accepted reply), l\<lparr>vl_in := rest\<rparr>)))"

section \<open>The link\<close>

definition coreProg :: u32 where "coreProg = 0x0607AF"
definition pmapProg :: u32 where "pmapProg = 100000"

definition write_args :: "u32 \<Rightarrow> byte list \<Rightarrow> byte list" where
  "write_args lid cmd = cl_opaque (cl_words [] [lid, 5000, 0, 8]) cmd"

definition readSize :: u32 where "readSize = 0x400000"

definition read_call_args :: "u32 \<Rightarrow> byte list" where
  "read_call_args lid = cl_words [] [lid, readSize, 5000, 0, 0, 0]"

definition inst0 :: "byte list" where "inst0 = map byte_of_char ''inst0''"

text \<open>Three tries at the link: a dropped connection can leave it taken for a while.\<close>

primrec create_tries :: "nat \<Rightarrow> 's peer \<Rightarrow> (nat \<Rightarrow> u32) \<Rightarrow> vxi_err \<Rightarrow> 's vlink \<Rightarrow> (vxi_err + u32) \<times> 's vlink" where
  "create_tries 0 pr clock lastErr l = (Inl lastErr, l)"
| "create_tries (Suc n) pr clock lastErr l =
     (case rpcCall pr clock coreProg 1 10 (cl_opaque (cl_words [] [1, 0, 0]) inst0) l of
       (Inl e, l) \<Rightarrow> create_tries n pr clock e l
     | (Inr res, l) \<Rightarrow> if length res < 16 then create_tries n pr clock ShortResult l
         else if word_at res 0 \<noteq> 0 then create_tries n pr clock (DeviceError (word_at res 0)) l
         else (Inr (word_at res 4), l))"

definition getport :: "'s peer \<Rightarrow> (nat \<Rightarrow> u32) \<Rightarrow> 's vlink \<Rightarrow> (vxi_err + u32) \<times> 's vlink" where
  "getport pr clock l = (case rpcCall pr clock pmapProg 2 3 (cl_words [] [coreProg, 1, 6, 0]) l of
       (Inl e, l) \<Rightarrow> (Inl e, l)
     | (Inr res, l) \<Rightarrow> if length res < 4 then (Inl ShortResult, l)
         else let port = word_at res 0 in if port = 0 \<or> port > 65535 then (Inl (NotRegistered port), l) else (Inr port, l))"

definition DialAt :: "'s peer \<Rightarrow> (nat \<Rightarrow> u32) \<Rightarrow> u32 \<Rightarrow> 's \<Rightarrow> (vxi_err + u32) \<times> 's vlink" where
  "DialAt pr clock pmPort s = (case pr_dial pr pmPort s of (ok, s) \<Rightarrow>
     let l = \<lparr>vl_port = pmPort, vl_in = [], vl_calls = 0, vl_peer = s\<rparr> in
     if \<not> ok then (Inl DialFailed, l)
     else case getport pr clock l of (Inl e, l) \<Rightarrow> (Inl e, l)
       | (Inr port, l) \<Rightarrow> (case pr_dial pr port (vl_peer l) of (ok, s) \<Rightarrow>
           let l = \<lparr>vl_port = port, vl_in = [], vl_calls = vl_calls l, vl_peer = s\<rparr> in
           if \<not> ok then (Inl DialFailed, l) else create_tries 3 pr clock ShortResult l))"

definition with_newline :: "byte list \<Rightarrow> byte list" where
  "with_newline cmd = (if cmd = [] \<or> last cmd \<noteq> 10 then cmd @ [10] else cmd)"

definition Send :: "'s peer \<Rightarrow> (nat \<Rightarrow> u32) \<Rightarrow> u32 \<Rightarrow> byte list \<Rightarrow> 's vlink \<Rightarrow> vxi_err option \<times> 's vlink" where
  "Send pr clock lid cmd l = (case rpcCall pr clock coreProg 1 11 (write_args lid (with_newline cmd)) l of
       (Inl e, l) \<Rightarrow> (Some e, l)
     | (Inr res, l) \<Rightarrow> (if length res \<ge> 4 \<and> word_at res 0 \<noteq> 0 then Some (DeviceError (word_at res 0)) else None, l))"

text \<open>The bytes of a read's result: the count is clamped to those that came.\<close>

definition read_data :: "byte list \<Rightarrow> byte list" where
  "read_data res = take (unat (word_at res 8)) (drop 12 res)"

primrec query_loop :: "nat \<Rightarrow> 's peer \<Rightarrow> (nat \<Rightarrow> u32) \<Rightarrow> u32 \<Rightarrow> byte list \<Rightarrow> 's vlink \<Rightarrow> (vxi_err option \<times> byte list) \<times> 's vlink" where
  "query_loop 0 pr clock lid out l = ((None, out), l)"
| "query_loop (Suc n) pr clock lid out l = (case rpcCall pr clock coreProg 1 12 (read_call_args lid) l of
       (Inl e, l) \<Rightarrow> ((Some e, out), l)
     | (Inr res, l) \<Rightarrow> if length res < 12 then ((Some ShortResult, out), l)
         else let out = out @ read_data res in
           if word_at res 0 \<noteq> 0 then ((Some (DeviceError (word_at res 0)), out), l)
           else if word_at res 4 AND 7 \<noteq> 0 then ((None, out), l)
           else query_loop n pr clock lid out l)"

text \<open>The answer, and the error if it is cut short.\<close>

definition Query :: "'s peer \<Rightarrow> (nat \<Rightarrow> u32) \<Rightarrow> u32 \<Rightarrow> byte list \<Rightarrow> 's vlink \<Rightarrow> (vxi_err option \<times> byte list) \<times> 's vlink" where
  "Query pr clock lid cmd l = (case Send pr clock lid cmd l of
       (Some e, l) \<Rightarrow> ((Some e, []), l)
     | (None, l) \<Rightarrow> query_loop 64 pr clock lid [] l)"

definition Close :: "'s peer \<Rightarrow> (nat \<Rightarrow> u32) \<Rightarrow> u32 \<Rightarrow> 's vlink \<Rightarrow> 's vlink" where
  "Close pr clock lid l = snd (rpcCall pr clock coreProg 1 23 (cl_words [] [lid]) l)"

end
