(* ===== verification/Vxi11Query.thy ===== *)
theory Vxi11Query
  imports Vxi11Session Vxi11Client
begin

text \<open>
  The two ends together. The locale \<open>link_peer\<close> is what the client needs of a DEVICE_CORE server with a live
  link: a line sent queues its answer, a read takes the next bytes of the queue and says when it is empty.
  Under it a \<open>Query\<close> returns the answer. The application's server is such a peer.
\<close>

section \<open>Reading XDR\<close>

definition xrest :: "xdr \<Rightarrow> byte list" where
  "xrest x = drop (nat (x_off x)) (x_b x)"

definition advance :: "nat \<Rightarrow> xdr \<Rightarrow> xdr" where
  "advance n x = x\<lparr>x_off := x_off x + int n\<rparr>"

text \<open>The buffer is within the limit, so no sum of offsets wraps.\<close>

definition in_record :: "xdr \<Rightarrow> bool" where
  "in_record x \<longleftrightarrow> 0 \<le> x_off x \<and> length (x_b x) \<le> maxRecord"

lemma in_record_advance [simp]: "in_record x \<Longrightarrow> in_record (advance n x)"
  by (simp add: in_record_def advance_def)

lemma xrest_advance [simp]: "in_record x \<Longrightarrow> xrest (advance n x) = drop n (xrest x)"
  by (simp add: xrest_def advance_def in_record_def nat_add_distrib add.commute)

lemma advance_advance: "advance m (advance n x) = advance (n + m) x"
  by (simp add: advance_def)

lemma xrest_wf:
  assumes "in_record x" and "xrest x \<noteq> []"
  shows "wf_xdr x" and "x_len x = x_off x + int (length (xrest x))"
proof -
  have "nat (x_off x) < length (x_b x)" using assms(2) by (simp add: xrest_def)
  then show "wf_xdr x" "x_len x = x_off x + int (length (xrest x))"
    using assms(1) by (auto simp: wf_xdr_def x_len_def in_record_def xrest_def)
qed

lemma x_err_advance [simp]: "x_err (advance n x) = x_err x"
  by (simp add: advance_def)

lemma xdr_u32_rest:
  assumes "xrest x = be_bytes v @ q" and "in_record x"
  shows "xdr_u32 x = Some (v, advance 4 x)"
proof -
  have "xrest x \<noteq> []" using arg_cong [OF assms(1), of length] by auto
  note w = xrest_wf [OF assms(2) this]
  have l: "x_len x - x_off x = 4 + int (length q)" using w(2) assms(1) by simp
  have "go_slice (x_b x) (x_off x) (x_len x) = Some (xrest x)"
    using wf_slice [OF w(1), of "x_len x - x_off x"] w(2) by (simp add: xrest_def)
  then show ?thesis using l wf_i32(1) [OF w(1)] assms(1) by (simp add: xdr_u32_def BeUint32_def advance_def)
qed

lemma pad_len_div: "(n + 3) div 4 * 4 = n + pad_len n"
proof -
  obtain q r where n: "n = 4 * q + r" and "r < 4" using mod_less_divisor [of 4 n] mult_div_mod_eq [of 4 n] by (metis zero_less_numeral)
  then consider "r = 0" | "r = 1" | "r = 2" | "r = 3" by linarith
  then show ?thesis by cases (simp_all add: n pad_len_def mod_Suc)
qed

lemma pad_len_padded:
  assumes "n < 2 ^ 30"
  shows "sint (word_of_nat n :: u32) = int n" "sint (padded (word_of_nat n)) = int (n + pad_len n)"
proof -
  have s: "sint (word_of_nat k :: u32) = int k" if "k < 2 ^ 31" for k
    using that by (subst sint_eq_uint_u32) (simp_all add: uint_nat unat_of_nat)
  show "sint (word_of_nat n :: u32) = int n" using assms by (intro s) simp
  have "w AND NOT (mask 2) = push_bit 2 (drop_bit 2 w)" for w :: u32
    by (rule bit_eqI) (auto simp: bit_simps not_less simp flip: add_2_eq_Suc')
  then have a: "w AND NOT 3 = push_bit 2 (drop_bit 2 w)" for w :: u32 by (simp add: mask_eq_exp_minus_1)
  have b: "drop_bit 2 (word_of_nat (n + 3)) = (word_of_nat ((n + 3) div 4) :: u32)"
    using assms by (simp only: word_unat_eq_iff unsigned_drop_bit_eq unat_of_nat) (simp add: drop_bit_eq_div take_bit_nat_eq_self)
  have c: "push_bit 2 (word_of_nat k) = (word_of_nat (k * 4) :: u32)" for k by (simp add: push_bit_eq_mult)
  have d: "(n + 3) div 4 * 4 = n + pad_len n" by (rule pad_len_div)
  have e: "word_of_nat n + 3 = (word_of_nat (n + 3) :: u32)" by simp
  have "(word_of_nat n + 3) AND NOT 3 = (word_of_nat (n + pad_len n) :: u32)" by (simp only: e a b c d)
  then show "sint (padded (word_of_nat n)) = int (n + pad_len n)" unfolding padded_def using assms
    by (simp only:) (intro s, simp add: pad_len_def)
qed


lemma xdr_opaque_rest:
  assumes "xrest x = be_bytes (word_of_nat (length d)) @ d @ replicate (pad_len (length d)) 0 @ q" and "length d < 2 ^ 30" and "\<not> x_err x"
    and "in_record x"
  shows "xdr_opaque x = Some (d, advance (4 + length d + pad_len (length d)) x)"
proof -
  let ?y = "advance 4 x" and ?p = "length d + pad_len (length d)"
  have y: "xrest ?y = d @ replicate (pad_len (length d)) 0 @ q" "in_record ?y" "\<not> x_err ?y" using assms by simp_all
  have "xrest x \<noteq> []" using arg_cong [OF assms(1), of length] by auto
  note wx = xrest_wf [OF assms(4) this]
  have "x_len ?y = x_len x" "x_off ?y = x_off x + 4" by (simp_all add: advance_def)
  then have l: "x_len ?y - x_off ?y = int ?p + int (length q)" using wx(2) assms(1) by simp
  then have w: "wf_xdr ?y" using y(2) wx(1) by (simp add: wf_xdr_def advance_def x_len_def)
  have "go_slice (x_b ?y) (x_off ?y) (i32 (x_off ?y + int (length d))) = Some d"
    using wf_slice [OF w, of "int (length d)"] wf_i32(3) [OF w, of "int (length d)"] l y(1) by (simp add: xrest_def)
  moreover have "i32 (x_off ?y + int ?p) = x_off ?y + int ?p" using wf_i32(3) [OF w, of "int ?p"] l by simp
  ultimately show ?thesis
    using y(3) l wf_i32(2) [OF w] unfolding xdr_opaque_def xdr_u32_rest [OF assms(1,4)]
    by (simp add: pad_len_padded [OF assms(2)] Let_def advance_def)
qed

lemma skipAuth_rest:
  assumes "xrest x = be_bytes 0 @ be_bytes 0 @ q" and "\<not> x_err x" and "in_record x"
  shows "skipAuth x = Some (advance 8 x)"
proof -
  have y: "xrest (advance 4 x) = be_bytes 0 @ q" using assms(1,3) by simp
  have "xrest x \<noteq> []" using arg_cong [OF assms(1), of length] by auto
  note wx = xrest_wf [OF assms(3) this]
  have l: "x_len (advance 8 x) - x_off (advance 8 x) = int (length q)" using wx(2) assms(1) by (simp add: advance_def)
  then have w: "wf_xdr (advance 8 x)" using wx(1) by (simp add: wf_xdr_def advance_def x_len_def)
  define z where "z = advance 8 x"
  have "i32 (x_off z) = x_off z" using wf_i32(3) [OF w, of 0] l by (simp add: z_def)
  moreover have "i32 (x_len z - x_off z) = int (length q)" using l wf_i32(2) [OF w] by (simp add: z_def)
  moreover have "\<not> x_err z" using assms(2) by (simp add: z_def)
  moreover have "xdr_u32 x = Some (0, advance 4 x)" using xdr_u32_rest [OF assms(1,3)] .
  moreover have "xdr_u32 (advance 4 x) = Some (0, z)"
    using xdr_u32_rest [OF y] assms(3) by (simp add: advance_advance z_def)
  ultimately have "skipAuth x = Some z" by (simp add: skipAuth_def padded_def Let_def)
  then show ?thesis by (simp add: z_def)
qed

text \<open>A call as the client builds it, parsed by the server.\<close>

definition args_at :: "byte list \<Rightarrow> xdr" where
  "args_at msg = \<lparr>x_b = msg, x_off = 40, x_err = False\<rparr>"

lemma in_record_simps [simp]: "in_record (args_at msg) \<longleftrightarrow> length msg \<le> maxRecord"
  "in_record \<lparr>x_b = msg, x_off = 0, x_err = False\<rparr> \<longleftrightarrow> length msg \<le> maxRecord"
  by (simp_all add: in_record_def args_at_def)

lemma length_call_msg [simp]: "length (call_msg xid prog vers proc args) = 40 + length args"
  by (simp add: call_msg_def cl_words_def putU32_def)

lemma parse_call_msg:
  assumes "length args + 40 \<le> maxRecord"
  shows "parse_call (call_msg xid prog vers proc args) =
    Some \<lparr>rc_xid = xid, rc_type = 0, rc_prog = prog, rc_proc = proc, rc_args = args_at (call_msg xid prog vers proc args)\<rparr>"
proof -
  let ?msg = "call_msg xid prog vers proc args"
  let ?x = "\<lparr>x_b = ?msg, x_off = 0, x_err = False\<rparr>"
  have r: "in_record ?x" using assms by simp
  have m: "xrest ?x = be_bytes xid @ be_bytes 0 @ be_bytes 2 @ be_bytes prog @ be_bytes vers @ be_bytes proc
      @ be_bytes 0 @ be_bytes 0 @ be_bytes 0 @ be_bytes 0 @ args"
    by (simp add: xrest_def call_msg_def cl_words_def putU32_def)
  have e: "\<not> x_err (advance n ?x)" for n by simp
  have "xdr_u32 ?x = Some (xid, advance 4 ?x)" "xdr_u32 (advance 4 ?x) = Some (0, advance 8 ?x)" "xdr_u32 (advance 8 ?x) = Some (2, advance 12 ?x)"
    "xdr_u32 (advance 12 ?x) = Some (prog, advance 16 ?x)" "xdr_u32 (advance 16 ?x) = Some (vers, advance 20 ?x)"
    "xdr_u32 (advance 20 ?x) = Some (proc, advance 24 ?x)"
    using xdr_u32_rest [OF m r] xdr_u32_rest [of "advance 4 ?x"] xdr_u32_rest [of "advance 8 ?x"] xdr_u32_rest [of "advance 12 ?x"]
      xdr_u32_rest [of "advance 16 ?x"] xdr_u32_rest [of "advance 20 ?x"] r m by (simp_all add: advance_advance)
  moreover have "skipAuth (advance 24 ?x) = Some (advance 32 ?x)" "skipAuth (advance 32 ?x) = Some (advance 40 ?x)"
    using skipAuth_rest [of "advance 24 ?x"] skipAuth_rest [of "advance 32 ?x"] r m e by (simp_all add: advance_advance)
  moreover have "advance 40 ?x = args_at ?msg" by (simp add: advance_def args_at_def)
  ultimately show ?thesis by (simp add: parse_call_def)
qed


section \<open>The server answers a live link\<close>

definition is_line :: "byte list \<Rightarrow> bool" where
  "is_line line \<longleftrightarrow> (\<exists>l. line = l @ [10] \<and> 10 \<notin> set l)"

lemma feed_line:
  assumes "is_line line"
  shows "feed_lines h line pending e = ([], pending @ fst (h line e), snd (h line e))"
proof -
  obtain l where l: "line = l @ [10]" "10 \<notin> set l" using assms by (auto simp: is_line_def)
  have "takeWhile (\<lambda>b. b \<noteq> 10) (l @ [10]) = l @ takeWhile (\<lambda>b. b \<noteq> 10) [10]" by (rule takeWhile_append2) (use l(2) in auto)
  then have "takeWhile (\<lambda>b. b \<noteq> 10) line = l" unfolding l(1) by simp
  then show ?thesis using l(1) by (subst feed_lines.simps) (simp add: split_beta feed_lines.simps [of h "[]"])
qed

lemma pad_len_aligned: "n mod 4 = 0 \<Longrightarrow> pad_len (n + m) = pad_len m"
  by (simp add: pad_len_def mod_add_eq [of n 4 m, symmetric])

lemma write_args_bytes:
  "write_args lid line = be_bytes lid @ be_bytes 5000 @ be_bytes 0 @ be_bytes 8 @ be_bytes (word_of_nat (length line)) @ line
     @ replicate (pad_len (length line)) 0"
  using pad_len_aligned [of 20 "length line"] by (simp add: write_args_def cl_opaque_def cl_words_def putU32_def Let_def)

lemma args_at_rest: "xrest (args_at (call_msg xid prog vers proc args)) = args"
  by (simp add: xrest_def args_at_def call_msg_def cl_words_def putU32_def)

definition line_taken :: "'e scpi \<Rightarrow> nat \<Rightarrow> byte list \<Rightarrow> 'e vxi \<Rightarrow> 'e vxi" where
  "line_taken h c line v = (set_conn c (\<lambda>cn. cn\<lparr>vc_lineBuf := [], vc_pending := vc_pending cn @ fst (h line (vx_dev v))\<rparr>) v)
     \<lparr>vx_dev := snd (h line (vx_dev v))\<rparr>"

lemma device_write_line:
  assumes "xrest x = write_args lid line" and "\<not> x_err x" and "owns c lid v" and "vc_lineBuf (vx_conn v c) = []"
    and "is_line line" and "length line \<le> maxRecvSize" and "in_record x"
  shows "device_write h c x v = Some (Some (words [0, word_of_nat (length line)]), line_taken h c line v)"
proof -
  have n: "length line < 2 ^ 30" using assms(6) by (simp add: maxRecvSize_def)
  have "xdr_u32 x = Some (lid, advance 4 x)" "xdr_u32 (advance 4 x) = Some (5000, advance 4 (advance 4 x))"
    "xdr_u32 (advance 4 (advance 4 x)) = Some (0, advance 4 (advance 4 (advance 4 x)))"
    "xdr_u32 (advance 4 (advance 4 (advance 4 x))) = Some (8, advance 4 (advance 4 (advance 4 (advance 4 x))))"
    using assms(1,7) unfolding write_args_bytes by (auto intro!: xdr_u32_rest)
  moreover have "xdr_opaque (advance 4 (advance 4 (advance 4 (advance 4 x)))) =
      Some (line, advance (4 + length line + pad_len (length line)) (advance 4 (advance 4 (advance 4 (advance 4 x)))))"
    using assms(1,2,7) n unfolding write_args_bytes by (intro xdr_opaque_rest [of _ line "[]"]) simp_all
  ultimately show ?thesis using assms(2-6)
    by (simp add: device_write_def accept_data_def feed_line line_taken_def set_conn_def fun_upd_def Let_def)
qed


lemma device_read_chunk:
  assumes "xrest x = read_call_args lid" and "owns c lid v" and "vc_pending (vx_conn v c) \<noteq> []" and "in_record x"
  shows "device_read c x v = (let pending = vc_pending (vx_conn v c); rest = drop (2 ^ 22) pending in
    Some (Some (putOpaque (words [0, if rest = [] then reasonEND else 0]) (take (2 ^ 22) pending)),
      set_conn c (\<lambda>cn. cn\<lparr>vc_pending := rest\<rparr>) v))"
proof -
  have "xdr_u32 x = Some (lid, advance 4 x)" "xdr_u32 (advance 4 x) = Some (readSize, advance 4 (advance 4 x))"
    "xdr_u32 (advance 4 (advance 4 x)) = Some (5000, advance 4 (advance 4 (advance 4 x)))"
    using assms(1,4) unfolding read_call_args_def cl_words_def by (auto simp: putU32_def intro!: xdr_u32_rest)
  moreover have "sint readSize = 2 ^ 22" by (simp add: readSize_def)
  moreover have "take (nat (min (int (length p)) (2 ^ 22))) p = take (2 ^ 22) p" "drop (nat (min (int (length p)) (2 ^ 22))) p = drop (2 ^ 22) p"
    for p :: "byte list" by (auto simp: min_def)
  ultimately show ?thesis using assms(2,3) by (simp add: device_read_def Let_def)
qed

lemma reads_back_word: "word_at (be_bytes v @ q) 0 = v" "word_at (be_bytes w @ q) (k + 4) = word_at q k"
  by (simp_all add: word_at_def)


section \<open>The client under a peer that answers\<close>

lemma reply_bytes: "reply_of xid (Some r) = be_bytes xid @ be_bytes 1 @ be_bytes 0 @ be_bytes 0 @ be_bytes 0 @ be_bytes 0 @ r"
  by (simp add: reply_of_def words_def putU32_def)

lemma words_at:
  "word_at (be_bytes v @ q) 0 = v" "word_at (be_bytes w @ q) 4 = word_at q 0" "word_at (be_bytes w @ q) 8 = word_at q 4"
  "word_at (be_bytes w @ q) 16 = word_at q 12" "word_at (be_bytes w @ q) 12 = word_at q 8" "word_at (be_bytes w @ q) 20 = word_at q 16"
  by (simp_all add: word_at_def)

lemma accepted_reply: "accepted (reply_of xid (Some r)) = Inr r"
  by (simp add: accepted_def reply_bytes words_at maxAuthBody_def Let_def)

lemma read_reply_record:
  assumes "length r + 24 \<le> maxReply"
  shows "read_reply k xid (writeRecord (reply_of xid (Some r))) = (Inr (reply_of xid (Some r)), [])"
proof -
  have "readRPCRecord [] (writeRecord (reply_of xid (Some r))) = RecMsg (reply_of xid (Some r)) []"
    using readRPCRecord_fragment [of "[]" "reply_of xid (Some r)" True "[]"] assms by (simp add: writeRecord_fragment reply_bytes)
  moreover have "take 4 (reply_of xid (Some r)) = be_bytes xid" "\<not> length (reply_of xid (Some r)) < 24" by (simp_all add: reply_bytes)
  ultimately show ?thesis by (cases k) simp_all
qed

lemma rpcCall_replied:
  assumes "pr_send pr (vl_port l) (writeRecord (call_msg (clock (vl_calls l)) prog vers proc args)) (vl_peer l) =
      (True, writeRecord (reply_of (clock (vl_calls l)) (Some r)), s)"
    and "vl_in l = []" and "length r + 24 \<le> maxReply"
  shows "rpcCall pr clock prog vers proc args l = (Inr r, l\<lparr>vl_calls := vl_calls l + 1, vl_in := [], vl_peer := s\<rparr>)"
  using assms(1,2) by (simp add: rpcCall_def read_reply_record [OF assms(3)] accepted_reply Let_def)

text \<open>What the client relies on: of a peer with a live link, the answers it still owes (\<open>owed\<close>) and the answer it
  gives to a line.\<close>

locale link_peer =
  fixes pr :: "'s peer" and port lid :: u32 and live :: "'s \<Rightarrow> bool" and owed :: "'s \<Rightarrow> byte list" and answer :: "byte list \<Rightarrow> 's \<Rightarrow> byte list"
    and after :: "byte list \<Rightarrow> 's \<Rightarrow> 's" and readout :: "'s \<Rightarrow> 's"
  assumes takes_line: "live s \<Longrightarrow> is_line line \<Longrightarrow> length line \<le> maxRecvSize \<Longrightarrow>
      pr_send pr port (writeRecord (call_msg xid coreProg 1 11 (write_args lid line))) s =
        (True, writeRecord (reply_of xid (Some (words [0, word_of_nat (length line)]))), after line s)"
    and after_line: "live s \<Longrightarrow> is_line line \<Longrightarrow> live (after line s) \<and> owed (after line s) = owed s @ answer line s"
    and hands_out: "live s \<Longrightarrow> owed s \<noteq> [] \<Longrightarrow>
      pr_send pr port (writeRecord (call_msg xid coreProg 1 12 (read_call_args lid))) s =
        (True, writeRecord (reply_of xid (Some (putOpaque (words [0, if drop (2 ^ 22) (owed s) = [] then reasonEND else 0])
           (take (2 ^ 22) (owed s))))), readout s)"
    and after_read: "live s \<Longrightarrow> owed s \<noteq> [] \<Longrightarrow> live (readout s) \<and> owed (readout s) = drop (2 ^ 22) (owed s)"
begin

definition link_open :: "'s vlink \<Rightarrow> bool" where
  "link_open l \<longleftrightarrow> vl_port l = port \<and> vl_in l = [] \<and> live (vl_peer l)"

lemma Send_ok:
  assumes "link_open l" and "is_line (with_newline cmd)" and "length (with_newline cmd) \<le> maxRecvSize"
  shows "\<exists>l'. Send pr clock lid cmd l = (None, l') \<and> link_open l' \<and> vl_peer l' = after (with_newline cmd) (vl_peer l)"
  using assms takes_line [of "vl_peer l" "with_newline cmd"] after_line [of "vl_peer l" "with_newline cmd"]
  by (simp add: Send_def link_open_def rpcCall_replied words_def putU32_def maxReply_def words_at)

lemma chunk_result:
  fixes chunk :: "byte list"
  assumes "length chunk \<le> 2 ^ 22"
  shows "read_data (putOpaque (words [0, reason]) chunk) = chunk" "word_at (putOpaque (words [0, reason]) chunk) 0 = 0"
    "word_at (putOpaque (words [0, reason]) chunk) 4 = reason" "12 \<le> length (putOpaque (words [0, reason]) chunk)"
    "length (putOpaque (words [0, reason]) chunk) + 24 \<le> maxReply"
proof -
  have b: "putOpaque (words [0, reason]) chunk = be_bytes 0 @ be_bytes reason @ be_bytes (word_of_nat (length chunk)) @ chunk @ replicate (pad_len (length chunk)) 0"
    by (simp add: putOpaque_def words_def putU32_def)
  have "unat (word_of_nat (length chunk) :: u32) = length chunk" using assms by (simp add: unat_of_nat)
  then show "read_data (putOpaque (words [0, reason]) chunk) = chunk" by (simp add: read_data_def b words_at)
  have "pad_len (length chunk) < 4" by (simp add: pad_len_def)
  then show "length (putOpaque (words [0, reason]) chunk) + 24 \<le> maxReply" using assms by (simp add: b maxReply_def)
qed (simp_all add: putOpaque_def words_def putU32_def words_at)

lemma query_loop_reads:
  assumes "link_open l" and "owed (vl_peer l) \<noteq> []" and "length (owed (vl_peer l)) \<le> n * 2 ^ 22"
  shows "\<exists>l'. query_loop n pr clock lid out l = ((None, out @ owed (vl_peer l)), l') \<and> link_open l' \<and> owed (vl_peer l') = []"
  using assms
proof (induction n arbitrary: out l)
  case (Suc n)
  let ?p = "owed (vl_peer l)" and ?l = "l\<lparr>vl_calls := vl_calls l + 1, vl_in := [], vl_peer := readout (vl_peer l)\<rparr>"
  let ?reason = "if drop (2 ^ 22) ?p = [] then reasonEND else 0"
  have live: "live (vl_peer l)" "vl_port l = port" "vl_in l = []" using Suc.prems(1) by (simp_all add: link_open_def)
  have c: "length (take (2 ^ 22) ?p) \<le> 2 ^ 22" by simp
  have call: "rpcCall pr clock coreProg 1 12 (read_call_args lid) l = (Inr (putOpaque (words [0, ?reason]) (take (2 ^ 22) ?p)), ?l)"
    using live hands_out [OF live(1) Suc.prems(2)] by (intro rpcCall_replied chunk_result(5) [OF c]) simp_all
  have l': "link_open ?l" "owed (vl_peer ?l) = drop (2 ^ 22) ?p" using live after_read [OF live(1) Suc.prems(2)] by (simp_all add: link_open_def)
  show ?case
  proof (cases "drop (2 ^ 22) ?p = []")
    case True
    then have "take (2 ^ 22) ?p = ?p" by simp
    moreover have "reasonEND AND 7 \<noteq> (0 :: u32)" by (simp add: reasonEND_def)
    ultimately show ?thesis using True l' chunk_result [OF c, of reasonEND] call by (simp add: Let_def not_less)
  next
    case False
    then have "length (owed (vl_peer ?l)) \<le> n * 2 ^ 22" using Suc.prems(3) l' by simp
    then obtain l'' where "query_loop n pr clock lid (out @ take (2 ^ 22) ?p) ?l = ((None, (out @ take (2 ^ 22) ?p) @ owed (vl_peer ?l)), l'')"
      "link_open l''" "owed (vl_peer l'') = []" using Suc.IH [OF l'(1), of "out @ take (2 ^ 22) ?p"] False l'(2) by auto
    moreover have "(out @ take (2 ^ 22) ?p) @ owed (vl_peer ?l) = out @ ?p" using l'(2) by simp
    ultimately show ?thesis using False chunk_result [OF c, of 0] call by (simp add: Let_def not_less)
  qed
qed simp

lemma Query_returns:
  assumes "link_open l" and "owed (vl_peer l) = []" and "is_line (with_newline cmd)" and "length (with_newline cmd) \<le> maxRecvSize"
    and "answer (with_newline cmd) (vl_peer l) \<noteq> []" and "length (answer (with_newline cmd) (vl_peer l)) \<le> 2 ^ 28"
  shows "\<exists>l'. Query pr clock lid cmd l = ((None, answer (with_newline cmd) (vl_peer l)), l') \<and> link_open l' \<and> owed (vl_peer l') = []"
proof -
  obtain l1 where s: "Send pr clock lid cmd l = (None, l1)" "link_open l1" "vl_peer l1 = after (with_newline cmd) (vl_peer l)"
    using Send_ok [OF assms(1,3,4)] by blast
  have "owed (vl_peer l1) = answer (with_newline cmd) (vl_peer l)"
    using after_line [of "vl_peer l" "with_newline cmd"] assms(1-3) s(3) by (simp add: link_open_def)
  then show ?thesis using query_loop_reads [of l1 64 clock "[]"] s assms(5,6) by (simp add: Query_def)
qed

end

end
