(* ===== verification/Vxi11.thy ===== *)
theory Vxi11
  imports Vxi11Query
begin

text \<open>
  The properties of the VXI-11 transport: the client against the application's server, what a hostile client
  can do to the server, and the exclusive link.
\<close>

section \<open>The server as a peer\<close>

text \<open>A connection to the server that stands: each write is one record, handled and answered. A panic is the
  end of the process, and of the connection.\<close>

definition server_peer :: "'e scpi \<Rightarrow> nat \<Rightarrow> 'e vxi peer" where
  "server_peer h c = \<lparr>pr_dial = (\<lambda>_ v. (True, v)),
     pr_send = (\<lambda>_ bytes v. case readRecord [] bytes of
       RecMsg msg _ \<Rightarrow> (case handle_msg h c msg v of
           Some (Some reply, v) \<Rightarrow> (True, writeRecord reply, v)
         | Some (None, v) \<Rightarrow> (True, [], v)
         | None \<Rightarrow> (False, [], v))
     | _ \<Rightarrow> (False, [], v))\<rparr>"

definition live_link :: "nat \<Rightarrow> u32 \<Rightarrow> 'e vxi \<Rightarrow> bool" where
  "live_link c lid v \<longleftrightarrow> owns c lid v \<and> vc_lineBuf (vx_conn v c) = []"

definition chunk_read :: "nat \<Rightarrow> 'e vxi \<Rightarrow> 'e vxi" where
  "chunk_read c v = set_conn c (\<lambda>cn. cn\<lparr>vc_pending := drop (2 ^ 22) (vc_pending cn)\<rparr>) v"

lemma readRecord_call:
  assumes "length args \<le> maxRecvSize + 100"
  shows "readRecord [] (writeRecord (call_msg xid prog vers proc args)) = RecMsg (call_msg xid prog vers proc args) []"
  using readRecord_fragment [of "[]" "call_msg xid prog vers proc args" True "[]"] assms
  by (simp add: writeRecord_fragment call_msg_def cl_words_def putU32_def maxRecord_def)

lemma call_handled:
  assumes "length args \<le> maxRecvSize + 100"
  shows "pr_send (server_peer h c) port (writeRecord (call_msg xid coreProg 1 proc args)) v =
    (case dispatch h c proc (args_at (call_msg xid coreProg 1 proc args)) v of
       None \<Rightarrow> (False, [], v) | Some (r, v) \<Rightarrow> (True, writeRecord (reply_of xid r), v))"
  using assms by (simp add: server_peer_def readRecord_call handle_msg_def parse_call_msg maxRecord_def coreProg_def progCore_def split: option.split)

lemma line_answered:
  assumes "live_link c lid v" and "is_line line" and "length line \<le> maxRecvSize"
  shows "pr_send (server_peer h c) port (writeRecord (call_msg xid coreProg 1 11 (write_args lid line))) v =
    (True, writeRecord (reply_of xid (Some (words [0, word_of_nat (length line)]))), line_taken h c line v)"
proof -
  have "length (write_args lid line) \<le> maxRecvSize + 100"
    using assms(3) mod_less_divisor [of 4 "4 - length line mod 4"] by (simp add: write_args_bytes pad_len_def)
  moreover have "\<not> x_err (args_at msg)" for msg by (simp add: args_at_def)
  moreover from calculation have "device_write h c (args_at (call_msg xid coreProg 1 11 (write_args lid line))) v =
      Some (Some (words [0, word_of_nat (length line)]), line_taken h c line v)"
    using assms by (intro device_write_line [of _ lid]) (simp_all add: args_at_rest live_link_def maxRecord_def)
  moreover have "dispatch h c 11 x v = device_write h c x v" for x by (simp add: dispatch_def)
  ultimately show ?thesis by (simp add: call_handled)
qed

lemma chunk_answered:
  assumes "live_link c lid v" and "vc_pending (vx_conn v c) \<noteq> []"
  shows "pr_send (server_peer h c) port (writeRecord (call_msg xid coreProg 1 12 (read_call_args lid))) v =
    (True, writeRecord (reply_of xid (Some (putOpaque (words [0, if drop (2 ^ 22) (vc_pending (vx_conn v c)) = [] then reasonEND else 0])
      (take (2 ^ 22) (vc_pending (vx_conn v c)))))), chunk_read c v)"
proof -
  have "length (read_call_args lid) \<le> maxRecvSize + 100" by (simp add: read_call_args_def cl_words_def putU32_def)
  moreover from this have "in_record (args_at (call_msg xid coreProg 1 12 (read_call_args lid)))" by (simp add: maxRecord_def)
  moreover have "dispatch h c 12 x v = device_read c x v" for x by (simp add: dispatch_def)
  ultimately show ?thesis using assms
    by (simp add: call_handled device_read_chunk [of _ lid] args_at_rest live_link_def Let_def chunk_read_def set_conn_def)
qed

interpretation scope: link_peer "server_peer h c" port lid "live_link c lid" "\<lambda>v. vc_pending (vx_conn v c)" "\<lambda>line v. fst (h line (vx_dev v))"
  "line_taken h c" "chunk_read c" for h :: "'e scpi" and c port lid
proof unfold_locales
  fix v :: "'e vxi" and line xid
  assume "live_link c lid v" and "is_line line"
  then show "live_link c lid (line_taken h c line v) \<and> vc_pending (vx_conn (line_taken h c line v) c) = vc_pending (vx_conn v c) @ fst (h line (vx_dev v))"
    by (simp add: live_link_def owns_def line_taken_def set_conn_def)
qed (simp_all add: line_answered chunk_answered, simp add: live_link_def owns_def chunk_read_def set_conn_def)

section \<open>The line buffer\<close>

lemma feed_lines_buf:
  "feed_lines h buf pending e = (buf', p', e') \<Longrightarrow> 10 \<notin> set buf' \<and> length buf' \<le> length buf"
proof (induction h buf pending e rule: feed_lines.induct)
  case (1 h buf pending e)
  show ?case
  proof (cases "10 \<in> set buf")
    case True
    then have "feed_lines h (drop (length (takeWhile (\<lambda>b. b \<noteq> 10) buf) + 1) buf)
        (pending @ fst (h (take (length (takeWhile (\<lambda>b. b \<noteq> 10) buf) + 1) buf) e)) (snd (h (take (length (takeWhile (\<lambda>b. b \<noteq> 10) buf) + 1) buf) e)) = (buf', p', e')"
      using 1(2) by (subst (asm) feed_lines.simps) (simp add: split_beta Let_def)
    then show ?thesis using 1(1) [OF _ refl refl prod.collapse] True by fastforce
  qed (use 1(2) in \<open>simp add: feed_lines.simps [of h buf]\<close>)
qed

lemma accept_data_buf:
  "accept_data h flags buf pending e = (buf', p', e') \<Longrightarrow> 10 \<notin> set buf' \<and> length buf' \<le> length buf"
  using feed_lines_buf [of h buf pending e] by (auto simp: accept_data_def split: prod.splits if_splits)

definition line_ok :: "vconn \<Rightarrow> bool" where
  "line_ok cn \<longleftrightarrow> 10 \<notin> set (vc_lineBuf cn) \<and> length (vc_lineBuf cn) \<le> maxRecvSize"

definition lines_ok :: "'e vxi \<Rightarrow> bool" where
  "lines_ok v \<longleftrightarrow> (\<forall>c. line_ok (vx_conn v c))"

lemma lines_ok_set_conn: "lines_ok v \<Longrightarrow> line_ok (f (vx_conn v c)) \<Longrightarrow> lines_ok (set_conn c f v)"
  by (simp add: lines_ok_def set_conn_def)

lemma lines_ok_update [simp]: "lines_ok (v\<lparr>vx_dev := e\<rparr>) = lines_ok v" "lines_ok (v\<lparr>vx_nextLID := n\<rparr>) = lines_ok v" "lines_ok (v\<lparr>vx_linkOwner := ow\<rparr>) = lines_ok v"
  by (simp_all add: lines_ok_def)

lemma device_write_lines: "device_write h c x v = Some (r, v') \<Longrightarrow> lines_ok v \<Longrightarrow> lines_ok v'"
  by (auto simp: device_write_def Let_def bind_eq_Some_conv line_ok_def dest!: accept_data_buf split: if_splits prod.splits
      intro!: lines_ok_set_conn)

lemma dispatch_lines:
  assumes "dispatch h c proc x v = Some (r, v')" and "lines_ok v"
  shows "lines_ok v'"
proof -
  have o: "line_ok (vx_conn v c)" using assms(2) by (simp add: lines_ok_def)
  show ?thesis using assms o device_write_lines [of h c x v r v']
    by (auto simp: dispatch_def create_link_def device_read_def destroy_link_def Let_def bind_eq_Some_conv line_ok_def
        split: if_splits intro!: lines_ok_set_conn)
qed

lemma vxi_step_lines: "vxi_step h ev v = Some v' \<Longrightarrow> lines_ok v \<Longrightarrow> lines_ok v'"
  by (cases ev) (auto simp: handle_msg_def bind_eq_Some_conv release_def split: if_splits intro: dispatch_lines)

lemma vxi_run_lines: "vxi_run h evs v = Some v' \<Longrightarrow> lines_ok v \<Longrightarrow> lines_ok v'"
  by (induction evs arbitrary: v) (auto simp: bind_eq_Some_conv dest: vxi_step_lines)

section \<open>Properties\<close>

text \<open>
  C26: A query returns the instrument's answer: on a live link with nothing owed, sending a line and reading until
  the end gives exactly the bytes the SCPI handler answered to that line, however many reads of 4 MiB they
  take, up to the 64 the client makes; and the link is ready for the next query.
\<close>

theorem query_returns_the_answer:
  assumes "vl_port l = port" and "vl_in l = []" and "live_link c lid (vl_peer l)" and "vc_pending (vx_conn (vl_peer l) c) = []"
    and "is_line (with_newline cmd)" and "length (with_newline cmd) \<le> maxRecvSize"
    and "fst (h (with_newline cmd) (vx_dev (vl_peer l))) \<noteq> []" and "length (fst (h (with_newline cmd) (vx_dev (vl_peer l)))) \<le> 2 ^ 28"
  shows "\<exists>l'. Query (server_peer h c) clock lid cmd l = ((None, fst (h (with_newline cmd) (vx_dev (vl_peer l)))), l')
    \<and> vl_in l' = [] \<and> live_link c lid (vl_peer l') \<and> vc_pending (vx_conn (vl_peer l') c) = []"
proof -
  have "scope.link_open port c lid l" using assms(1-3) by (simp add: scope.link_open_def)
  from scope.Query_returns [where h = h and l = l and cmd = cmd and clock = clock, OF this assms(4-8)] show ?thesis by (auto simp: scope.link_open_def)
qed


definition echo :: "unit scpi" where
  "echo line e = (line, e)"

text \<open>Connection 1 has the link 2.\<close>

definition linked :: "unit vxi" where
  "linked = \<lparr>vx_linkOwner = Some 1, vx_nextLID = 2, vx_conn = (\<lambda>c. if c = 1 then \<lparr>vc_lid = 2, vc_lineBuf = [], vc_pending = []\<rparr> else fresh_conn), vx_dev = ()\<rparr>"

definition idn :: "byte list" where
  "idn = map byte_of_char ''*IDN?''"

lemma idn_line: "with_newline idn = idn @ [10]" "10 \<notin> set idn" "length idn = 5"
  by code_simp+

lemma query_returns_the_answer_witness:
  "\<exists>l'. Query (server_peer echo 1) word_of_nat 2 idn \<lparr>vl_port = 1000, vl_in = [], vl_calls = 0, vl_peer = linked\<rparr> = ((None, idn @ [10]), l')
    \<and> vl_in l' = [] \<and> live_link 1 2 (vl_peer l') \<and> vc_pending (vx_conn (vl_peer l') 1) = []"
  using query_returns_the_answer [where l = "\<lparr>vl_port = 1000, vl_in = [], vl_calls = 0, vl_peer = linked\<rparr>" and port = 1000 and c = 1 and lid = 2
      and cmd = idn and h = echo and clock = word_of_nat] idn_line
  by (simp add: live_link_def owns_def linked_def echo_def is_line_def maxRecvSize_def)

text \<open>
  C29: Whatever fragments a message is sent in, both ends put it together again, up to the limit each sets; what
  follows it stays in the stream.
\<close>

theorem fragments_reassembled:
  assumes "ds \<noteq> []" and "length (concat ds) \<le> maxReply"
  shows "readRPCRecord [] (fragments ds @ rest) = RecMsg (concat ds) rest \<and> readRecord [] (fragments ds @ rest) = RecMsg (concat ds) rest"
  using readRPCRecord_fragments [of ds "[]" rest] readRecord_fragments [of ds "[]" rest] assms
  by (simp add: maxReply_def maxRecord_def maxRecvSize_def)

lemma fragments_reassembled_witness:
  "readRPCRecord [] (fragments [[1], [], [2, 3]] @ [7]) = RecMsg [1, 2, 3] [7] \<and> readRecord [] (fragments [[1], [], [2, 3]] @ [7]) = RecMsg [1, 2, 3] [7]"
  using fragments_reassembled [of "[[1], [], [2, 3]]" "[7]"] by (simp add: maxReply_def)

text \<open>
  C28: The server's limit on a message can be passed by on the 32-bit target: after a first fragment of at least one
  byte, a mark whose length makes the sum reach 2^31 wraps it negative, the limit test lets it by, and growing
  the buffer panics, which ends the application. No link is needed.
\<close>

theorem record_mark_wraps:
  assumes "d \<noteq> []" and "length d \<le> maxRecord" and "n < 2 ^ 31" and "2 ^ 31 \<le> length d + n"
  shows "serve h c wok i (fragment False d @ be_bytes (mark_word final n) @ inp) v = ([], None)"
  using readRecord_fragment [of "[]" d False "be_bytes (mark_word final n) @ inp"] readRecord_wraps [of d n final inp] assms
  by (subst serve.simps) simp

lemma record_mark_wraps_witness: "serve echo 1 (\<lambda>_. True) 0 (fragment False [0] @ be_bytes 0x7fffffff) linked = ([], None)"
  using record_mark_wraps [of "[0]" "0x7fffffff" echo 1 "\<lambda>_. True" 0 False "[]" linked] by (simp add: maxRecord_def mark_word_def)

text \<open>
  C27: Of all messages the server reads (a record over \<open>maxRecord\<close> is refused before it is parsed), in any state,
  exactly these panic: a DEVICE_READ on the sender's live link, with an answer pending, for a size of 2^31 or
  more, which is negative as an \<open>int\<close>. Every other message, however its lengths lie, is answered or ignored:
  with 32-bit offsets and Go's check of every slice bound, the tests of \<open>opaque\<close> and \<open>skipAuth\<close> keep each
  slice inside the record.
\<close>

theorem message_panics_iff:
  assumes "length msg \<le> maxRecord"
  shows "handle_msg h c msg v = None \<longleftrightarrow> hostile_read c msg v"
  by (rule handle_msg_panics [OF assms])

text \<open>The panic is reached by a client that asks for an answer and reads it with such a size.\<close>

lemma hostile_read_is:
  assumes "live_link c lid v" and "is_line line" and "length line \<le> maxRecvSize" and "fst (h line (vx_dev v)) \<noteq> []" and "n \<ge> 0x80000000"
  shows "hostile_read c (call_msg xid coreProg 1 12 (cl_words [] [lid, n, 0])) (line_taken h c line v)"
proof -
  let ?x = "args_at (call_msg xid coreProg 1 12 (cl_words [] [lid, n, 0]))"
  have l: "length (cl_words [] [lid, n, 0]) + 40 \<le> maxRecord" by (simp add: cl_words_def putU32_def maxRecord_def)
  then have "in_record ?x" by simp
  moreover have "xrest ?x = be_bytes lid @ be_bytes n @ be_bytes 0" by (simp add: args_at_rest cl_words_def putU32_def)
  ultimately have "xdr_u32 ?x = Some (lid, advance 4 ?x)" "xdr_u32 (advance 4 ?x) = Some (n, advance 4 (advance 4 ?x))" by (auto intro!: xdr_u32_rest)
  then have "read_args ?x = Some (lid, n)" by (simp add: read_args_def)
  then show ?thesis using assms l
    by (simp add: hostile_read_def parse_call_msg coreProg_def progCore_def line_taken_def live_link_def owns_def set_conn_def)
qed

lemma message_panics_iff_witness:
  "handle_msg echo 1 (call_msg 9 coreProg 1 12 (cl_words [] [2, 0xffffffff, 0])) (line_taken echo 1 (idn @ [10]) linked) = None"
proof -
  have "hostile_read 1 (call_msg 9 coreProg 1 12 (cl_words [] [2, 0xffffffff, 0])) (line_taken echo 1 (idn @ [10]) linked)"
    using idn_line by (intro hostile_read_is) (simp_all add: live_link_def owns_def linked_def is_line_def maxRecvSize_def echo_def)
  moreover have "length (call_msg 9 coreProg 1 12 (cl_words [] [2, 0xffffffff, 0])) \<le> maxRecord"
    by (simp add: cl_words_def putU32_def maxRecord_def)
  ultimately show ?thesis using message_panics_iff by blast
qed

text \<open>
  However the connections' messages come, no line buffer grows past the receive limit or holds a whole line:
  each line goes to the instrument when it is complete.
\<close>

theorem line_buffers_bounded:
  assumes "vxi_run h evs (Start e) = Some v"
  shows "length (vc_lineBuf (vx_conn v c)) \<le> maxRecvSize \<and> 10 \<notin> set (vc_lineBuf (vx_conn v c))"
proof -
  have "lines_ok (Start e)" by (simp add: lines_ok_def line_ok_def Start_def fresh_conn_def)
  then show ?thesis using vxi_run_lines [OF assms] by (simp add: lines_ok_def line_ok_def)
qed


definition abcd_session :: "vxi_event list" where
  "abcd_session = [Msg 1 (call_msg 7 progCore 1 10 (cl_opaque (cl_words [] [1, 0, 0]) inst0)),
     Msg 1 (call_msg 8 progCore 1 11 (cl_opaque (cl_words [] [2, 5000, 0, 0]) [65, 10, 66]))]"

lemma created:
  "create_link 1 (args_at (call_msg 7 progCore 1 10 (cl_opaque (cl_words [] [1, 0, 0]) inst0))) (Start ()) =
    Some (Some (words [0, 2, 0, word_of_nat maxRecvSize]), linked)"
proof -
  let ?x = "args_at (call_msg 7 progCore 1 10 (cl_opaque (cl_words [] [1, 0, 0]) inst0))"
  have x: "xrest ?x = be_bytes 1 @ be_bytes 0 @ be_bytes 0 @ be_bytes (word_of_nat (length inst0)) @ inst0 @ replicate (pad_len (length inst0)) 0 @ []"
    unfolding args_at_rest by code_simp
  have r: "in_record ?x" by (simp add: cl_opaque_def cl_words_def putU32_def maxRecord_def inst0_def pad_len_def Let_def)
  have "xdr_u32 ?x = Some (1, advance 4 ?x)" "xdr_u32 (advance 4 ?x) = Some (0, advance 4 (advance 4 ?x))"
    "xdr_u32 (advance 4 (advance 4 ?x)) = Some (0, advance 4 (advance 4 (advance 4 ?x)))"
    using x r by (auto intro!: xdr_u32_rest)
  moreover have "xdr_opaque (advance 4 (advance 4 (advance 4 ?x))) = Some (inst0, advance (4 + length inst0 + pad_len (length inst0)) (advance 4 (advance 4 (advance 4 ?x))))"
    using x r by (intro xdr_opaque_rest) (simp_all add: inst0_def, simp add: args_at_def)
  ultimately show ?thesis by (simp add: create_link_def Start_def fresh_conn_def linked_def set_conn_def fun_eq_iff)
qed

lemma written:
  "device_write echo 1 (args_at (call_msg 8 progCore 1 11 (cl_opaque (cl_words [] [2, 5000, 0, 0]) [65, 10, 66]))) linked =
    Some (Some (words [0, 3]), set_conn 1 (\<lambda>cn. cn\<lparr>vc_lineBuf := [66], vc_pending := [65, 10]\<rparr>) linked)"
proof -
  let ?x = "args_at (call_msg 8 progCore 1 11 (cl_opaque (cl_words [] [2, 5000, 0, 0]) [65, 10, 66]))"
  have x: "xrest ?x = be_bytes 2 @ be_bytes 5000 @ be_bytes 0 @ be_bytes 0 @ be_bytes (word_of_nat (length [65, 10, 66 :: byte])) @ [65, 10, 66]
      @ replicate (pad_len (length [65, 10, 66 :: byte])) 0 @ []"
    unfolding args_at_rest by code_simp
  have r: "in_record ?x" by (simp add: cl_opaque_def cl_words_def putU32_def maxRecord_def inst0_def pad_len_def Let_def)
  have "xdr_u32 ?x = Some (2, advance 4 ?x)" "xdr_u32 (advance 4 ?x) = Some (5000, advance 4 (advance 4 ?x))"
    "xdr_u32 (advance 4 (advance 4 ?x)) = Some (0, advance 4 (advance 4 (advance 4 ?x)))"
    "xdr_u32 (advance 4 (advance 4 (advance 4 ?x))) = Some (0, advance 4 (advance 4 (advance 4 (advance 4 ?x))))"
    using x r by (auto intro!: xdr_u32_rest)
  moreover have "xdr_opaque (advance 4 (advance 4 (advance 4 (advance 4 ?x)))) = Some ([65, 10, 66],
      advance (4 + length [65, 10, 66 :: byte] + pad_len (length [65, 10, 66 :: byte])) (advance 4 (advance 4 (advance 4 (advance 4 ?x)))))"
    using x r by (intro xdr_opaque_rest) (simp_all, simp add: args_at_def)
  moreover have "accept_data echo 0 [65, 10, 66] [] () = ([66], [65, 10], ())" by code_simp
  moreover have "\<not> x_err ?x" by (simp add: args_at_def)
  ultimately show ?thesis by (simp add: device_write_def linked_def owns_def set_conn_def maxRecvSize_def fun_eq_iff)
qed

lemma abcd_lengths:
  "length (cl_opaque (cl_words [] [1, 0, 0]) inst0) + 40 \<le> maxRecord" "length (cl_opaque (cl_words [] [2, 5000, 0, 0]) [65, 10, 66]) + 40 \<le> maxRecord"
  "\<not> maxRecord < 40 + length (cl_opaque (cl_words [] [1, 0, 0]) inst0)" "\<not> maxRecord < 40 + length (cl_opaque (cl_words [] [2, 5000, 0, 0]) [65, 10, 66])"
  by (simp_all add: cl_opaque_def cl_words_def putU32_def maxRecord_def inst0_def pad_len_def Let_def)

lemma line_buffers_bounded_witness:
  "\<exists>v. vxi_run echo abcd_session (Start ()) = Some v \<and> vc_lineBuf (vx_conn v 1) = [66] \<and> vc_pending (vx_conn v 1) = [65, 10]
    \<and> length (vc_lineBuf (vx_conn v 1)) \<le> maxRecvSize"
proof -
  have "vxi_run echo abcd_session (Start ()) = Some (set_conn 1 (\<lambda>cn. cn\<lparr>vc_lineBuf := [66], vc_pending := [65, 10]\<rparr>) linked)"
    by (simp add: abcd_session_def abcd_lengths handle_msg_def parse_call_msg dispatch_def created [unfolded One_nat_def] written [unfolded One_nat_def])
  then show ?thesis using line_buffers_bounded [of echo abcd_session "()" _ 1] by (simp add: set_conn_def)
qed

text \<open>
  C30: The one link belongs to the connection that created it. As long as that connection neither destroys it nor
  ends, the other connections can send any messages and come and go: the server does not panic, the link
  stays where it is, the instrument is not reached, and the session's line buffer and pending replies are
  untouched.
\<close>

theorem link_is_exclusive:
  assumes "vx_linkOwner v = Some c" and "\<forall>ev\<in>set evs. event_conn ev \<noteq> c"
  shows "\<exists>v'. vxi_run h evs v = Some v' \<and> vx_linkOwner v' = Some c \<and> session_of c v' = session_of c v"
  using assms
proof (induction evs arbitrary: v)
  case (Cons ev evs)
  then obtain v1 where "vxi_step h ev v = Some v1" "only_own (event_conn ev) v v1" using vxi_step_other by force
  moreover then have same: "vx_linkOwner v1 = Some c" "session_of c v1 = session_of c v"
    using Cons.prems only_own_session [of "event_conn ev" v v1 c] by simp_all
  ultimately show ?case using Cons.IH [OF same(1)] Cons.prems(2) same(2) by simp
qed simp


text \<open>Another connection asks for the link, reads with a hostile size, clears, and goes.\<close>

definition intruder :: "vxi_event list" where
  "intruder = [Msg 2 (call_msg 7 progCore 1 10 (cl_opaque (cl_words [] [1, 0, 0]) inst0)),
     Msg 2 (call_msg 8 progCore 1 12 (cl_words [] [2, 0xffffffff, 0])), Msg 2 (call_msg 9 progCore 1 15 []), Closed 2]"

lemma link_is_exclusive_witness:
  "\<exists>v. vxi_run echo intruder linked = Some v \<and> vx_linkOwner v = Some 1 \<and> session_of 1 v = session_of 1 linked"
  using link_is_exclusive [of linked 1 intruder echo] by (simp add: linked_def intruder_def)

end
