(* ===== verification/EdgeLine.thy ===== *)
theory EdgeLine
  imports Prelude
begin

text \<open>
  A digital line held as its edges (\<open>EdgeLine\<close> of \<open>app/internal/decode/edgeline.go\<close>): the operations, and that they
  are the operations on the list of samples the line stands for. The slots of working arrays a line lends its
  decodes are storage only and not modelled, nor is the slicing at a floating-point threshold.
\<close>

section \<open>The line and its operations\<close>

record edge_line =
  el_N :: nat
  el_First :: byte
  el_At :: "nat list"

definition parity :: "nat \<Rightarrow> byte" where
  "parity k = word_of_nat (k mod 2)"

definition Reset :: "edge_line \<Rightarrow> edge_line" where
  "Reset l = \<lparr>el_N = 0, el_First = 0, el_At = []\<rparr>"

definition Last :: "edge_line \<Rightarrow> byte" where
  "Last l = (if el_N l = 0 then 0 else el_First l XOR parity (length (el_At l)))"

definition start :: "byte \<Rightarrow> edge_line \<Rightarrow> edge_line" where
  "start lvl l = (if el_N l = 0 then l\<lparr>el_First := lvl, el_At := []\<rparr>
     else if Last l \<noteq> lvl then l\<lparr>el_At := el_At l @ [el_N l]\<rparr> else l)"

definition AppendLevel :: "byte \<Rightarrow> int \<Rightarrow> edge_line \<Rightarrow> edge_line" where
  "AppendLevel lvl n l = (if n \<le> 0 then l else let l = start (lvl AND 1) l in l\<lparr>el_N := el_N l + nat n\<rparr>)"

text \<open>\<open>bits.TrailingZeros32\<close>, and the loop over the set bits of a word, lowest first.\<close>

definition TrailingZeros32 :: "u32 \<Rightarrow> nat" where
  "TrailingZeros32 t = length (takeWhile (\<lambda>k. \<not> bit t k) [0..<32])"

lemma and_minus_1_less:
  assumes "(t :: u32) \<noteq> 0"
  shows "unat (t AND (t - 1)) < unat t"
proof -
  have "unat (t AND (t - 1)) \<le> unat (t - 1)" by (simp add: word_and_le1 flip: word_le_nat_alt)
  moreover have "unat (t - 1) = unat t - 1" using assms by (rule unat_minus_one)
  moreover have "0 < unat t" using assms by (simp add: unat_gt_0)
  ultimately show ?thesis by linarith
qed

function bit_edges :: "nat \<Rightarrow> u32 \<Rightarrow> nat list" where
  "bit_edges base t = (if t = 0 then [] else (base + TrailingZeros32 t) # bit_edges base (t AND (t - 1)))"
  by pat_completeness auto

termination by (relation "measure (\<lambda>(_, t). unat t)") (auto simp: and_minus_1_less)

declare bit_edges.simps [simp del]

text \<open>The words of line \<open>ch\<close>: two bytes of each four.\<close>

definition line_offset :: "nat \<Rightarrow> nat" where
  "line_offset ch = 2 * (ch mod 2)"

definition line_word :: "byte list \<Rightarrow> nat \<Rightarrow> nat \<Rightarrow> u32" where
  "line_word raw off i = ucast (raw ! (4 * i + off)) OR push_bit 8 (ucast (raw ! (4 * i + off + 1)))"

fun word_edges :: "nat \<Rightarrow> u32 \<Rightarrow> u32 list \<Rightarrow> nat list" where
  "word_edges base prev [] = []"
| "word_edges base prev (w # ws) = bit_edges base ((w XOR (push_bit 1 w OR prev)) AND 0xffff) @ word_edges (base + 16) (drop_bit 15 w) ws"

definition AppendWords :: "byte list \<Rightarrow> nat \<Rightarrow> edge_line \<Rightarrow> edge_line" where
  "AppendWords raw ch l = (let n = length raw div 4; off = line_offset ch in
     if n = 0 then l else
     let l = (if el_N l = 0 then l\<lparr>el_First := raw ! off AND 1, el_At := []\<rparr> else l);
         prev = ucast (el_First l XOR parity (length (el_At l))) in
     l\<lparr>el_N := el_N l + 16 * n, el_At := el_At l @ word_edges (el_N l) prev (map (line_word raw off) [0..<n])\<rparr>)"

text \<open>\<open>sort.SearchInts\<close>: the first index whose element is not below \<open>x\<close>, in an increasing list.\<close>

definition SearchInts :: "nat list \<Rightarrow> nat \<Rightarrow> nat" where
  "SearchInts a x = length (takeWhile (\<lambda>e. e < x) a)"

definition AppendRange :: "edge_line \<Rightarrow> int \<Rightarrow> int \<Rightarrow> edge_line \<Rightarrow> edge_line" where
  "AppendRange src i j l = (let i = max i 0; j = min j (int (el_N src)) in if j \<le> i then l else
     let i = nat i; j = nat j; k = SearchInts (el_At src) (i + 1);
         l = start (el_First src XOR parity k) l;
         n = SearchInts (drop k (el_At src)) j in
     l\<lparr>el_At := el_At l @ map (\<lambda>a. el_N l + a - i) (take n (drop k (el_At src))), el_N := el_N l + (j - i)\<rparr>)"

definition Drop :: "int \<Rightarrow> edge_line \<Rightarrow> edge_line" where
  "Drop n l = (if n \<le> 0 then l else if n \<ge> int (el_N l) then Reset l else
     let n = nat n; k = SearchInts (el_At l) (n + 1) in
     l\<lparr>el_First := el_First l XOR parity k, el_At := map (\<lambda>a. a - n) (drop k (el_At l)), el_N := el_N l - n\<rparr>)"

text \<open>The line as samples, 0 or 255.\<close>

fun fill :: "byte \<Rightarrow> nat \<Rightarrow> nat list \<Rightarrow> byte list" where
  "fill lvl pos [] = []"
| "fill lvl pos (a # as) = replicate (a - pos) (if lvl \<noteq> 0 then 255 else 0) @ fill (lvl XOR 1) a as"

definition Samples :: "edge_line \<Rightarrow> byte list" where
  "Samples l = fill (el_First l) 0 (el_At l @ [el_N l])"

text \<open>The high samples: the runs between the edges, every other one.\<close>

fun high_runs :: "nat \<Rightarrow> nat list \<Rightarrow> nat" where
  "high_runs n (a # b # as) = (b - a) + high_runs n as"
| "high_runs n [a] = n - a"
| "high_runs n [] = 0"

definition ones :: "edge_line \<Rightarrow> nat" where
  "ones l = (if el_First l \<noteq> 0 then (case el_At l of [] \<Rightarrow> el_N l | a # as \<Rightarrow> a + high_runs (el_N l) as)
     else high_runs (el_N l) (el_At l))"

text \<open>Each level's samples in runs of three or more.\<close>

fun held_runs :: "byte \<Rightarrow> nat \<Rightarrow> nat list \<Rightarrow> nat \<times> nat \<Rightarrow> nat \<times> nat" where
  "held_runs lvl pos [] held = held"
| "held_runs lvl pos (a # as) held = held_runs (lvl XOR 1) a as
     (if a - pos \<ge> 3 then (if lvl = 0 then (fst held + (a - pos), snd held) else (fst held, snd held + (a - pos))) else held)"

definition runs :: "edge_line \<Rightarrow> nat \<times> nat \<times> nat" where
  "runs l = (ones l, held_runs (el_First l AND 1) 0 (el_At l @ [el_N l]) (0, 0))"

end
