(* ===== verification/StreamDecoder.thy ===== *)
theory StreamDecoder
  imports EdgeLine "HOL-Library.Signed_Division"
begin

text \<open>
  The decoder of continuous streams (\<open>StreamDecoder\<close> of \<open>app/internal/decode/stream.go\<close>): the window over a stream
  that arrives in pieces, the frames handed out of it, and the records of a stream of records.

  The protocol decoder is an arbitrary function from the window's lines to spans. Indices into the window are
  integers as in the code; \<open>uint64\<close> stream indices are natural numbers: a stream does not reach 2^64 samples.
\<close>

section \<open>Data\<close>

record dspan =
  sp_I0 :: int
  sp_I1 :: int
  sp_Text :: string
  sp_Kind :: string
  sp_Val :: int

record stream_span =
  ss_I0 :: nat
  ss_I1 :: nat
  ss_Text :: string
  ss_Kind :: string
  ss_Val :: int

record stream_frame =
  fr_I0 :: nat
  fr_I1 :: nat
  fr_Spans :: "stream_span list"

record stream_group =
  gr_from :: nat
  gr_to :: nat
  gr_i0 :: int
  gr_i1 :: int

type_synonym sample_decode = "byte list \<Rightarrow> byte list option \<Rightarrow> dspan list"
type_synonym edge_decode = "edge_line \<Rightarrow> edge_line option \<Rightarrow> dspan list"

record decoder =
  sd_decode :: sample_decode
  sd_edec :: edge_decode
  sd_closeN :: int
  sd_maxN :: int
  sd_a :: "byte list"
  sd_b :: "byte list"
  sd_base :: nat
  sd_done :: nat
  sd_subframes :: bool
  sd_leadN :: int
  sd_atStart :: bool
  sd_startAt :: nat
  sd_edges :: bool
  sd_ea :: edge_line
  sd_eb :: edge_line

definition no_line :: edge_line where
  "no_line = \<lparr>el_N = 0, el_First = 0, el_At = []\<rparr>"

definition NewStreamDecoder :: "sample_decode \<Rightarrow> int \<Rightarrow> int \<Rightarrow> decoder" where
  "NewStreamDecoder decode closeN maxN = (let closeN = max closeN 2 in
     \<lparr>sd_decode = decode, sd_edec = (\<lambda>_ _. []), sd_closeN = closeN, sd_maxN = max maxN (4 * closeN), sd_a = [], sd_b = [], sd_base = 0, sd_done = 0,
      sd_subframes = False, sd_leadN = 0, sd_atStart = False, sd_startAt = 0, sd_edges = False, sd_ea = no_line, sd_eb = no_line\<rparr>)"

definition NewEdgeStreamDecoder :: "edge_decode \<Rightarrow> int \<Rightarrow> int \<Rightarrow> decoder" where
  "NewEdgeStreamDecoder edec closeN maxN = (NewStreamDecoder (\<lambda>_ _. []) closeN maxN)\<lparr>sd_edges := True, sd_edec := edec\<rparr>"

definition SetLead :: "int \<Rightarrow> decoder \<Rightarrow> decoder" where
  "SetLead n d = d\<lparr>sd_leadN := max n 0\<rparr>"

definition SetSubframes :: "bool \<Rightarrow> decoder \<Rightarrow> decoder" where
  "SetSubframes on d = d\<lparr>sd_subframes := on\<rparr>"

definition CutStart :: "nat \<Rightarrow> decoder \<Rightarrow> decoder" where
  "CutStart idx d = d\<lparr>sd_atStart := True, sd_startAt := idx\<rparr>"

definition isFrameStart :: "decoder \<Rightarrow> dspan \<Rightarrow> bool" where
  "isFrameStart d s \<longleftrightarrow> sp_Kind s = ''sof'' \<or> sp_Kind s = ''break'' \<or> (sd_subframes d \<and> sp_Kind s = ''rw'')"

definition Held :: "decoder \<Rightarrow> nat" where
  "Held d = (if sd_edges d then el_N (sd_ea d) else length (sd_a d))"

definition Next :: "decoder \<Rightarrow> nat" where
  "Next d = sd_base d + Held d"

section \<open>The spans of a window, in frames\<close>

definition window_spans :: "decoder \<Rightarrow> dspan list" where
  "window_spans d = (if sd_edges d then sd_edec d (sd_ea d) (if el_N (sd_eb d) = Held d then Some (sd_eb d) else None)
     else sd_decode d (sd_a d) (if length (sd_b d) = Held d then Some (sd_b d) else None))"

text \<open>Those inside the window that were not handed out yet, in order of their starts.\<close>

definition new_spans :: "decoder \<Rightarrow> dspan list" where
  "new_spans d = map (\<lambda>s. s\<lparr>sp_I1 := max (sp_I0 s) (sp_I1 s)\<rparr>)
     (filter (\<lambda>s. 0 \<le> sp_I0 s \<and> sp_I0 s < int (Held d) \<and> sd_base d + nat (sp_I0 s) \<ge> sd_done d) (window_spans d))"

definition spansSorted :: "dspan list \<Rightarrow> bool" where
  "spansSorted sp = (\<forall>k\<in>{1..<length sp}. \<not> sp_I0 (sp ! k) < sp_I0 (sp ! (k - 1)))"

definition ordered_spans :: "decoder \<Rightarrow> dspan list" where
  "ordered_spans d = (let sp = new_spans d in if spansSorted sp then sp else sort_key sp_I0 sp)"

definition group_step :: "decoder \<Rightarrow> stream_group list \<Rightarrow> nat \<times> dspan \<Rightarrow> stream_group list" where
  "group_step d groups = (\<lambda>(k, s).
     if groups = [] \<or> isFrameStart d s \<or> sp_I0 s - gr_i1 (last groups) > sd_closeN d
     then groups @ [\<lparr>gr_from = k, gr_to = k + 1, gr_i0 = sp_I0 s, gr_i1 = sp_I1 s\<rparr>]
     else butlast groups @ [(last groups)\<lparr>gr_to := k + 1, gr_i1 := max (gr_i1 (last groups)) (sp_I1 s)\<rparr>])"

definition span_groups :: "decoder \<Rightarrow> dspan list \<Rightarrow> stream_group list" where
  "span_groups d sp = foldl (group_step d) [] (zip [0..<length sp] sp)"

section \<open>Handing out\<close>

definition keepFirst :: "decoder \<Rightarrow> int \<Rightarrow> dspan \<Rightarrow> bool \<times> decoder" where
  "keepFirst d i0 s = (if \<not> sd_atStart d \<or> sd_base d + nat i0 < sd_startAt d then (True, d)
     else (isFrameStart d s \<and> sd_base d + nat i0 \<ge> sd_startAt d + nat (sd_closeN d), d\<lparr>sd_atStart := False\<rparr>))"

definition out_span :: "nat \<Rightarrow> dspan \<Rightarrow> stream_span" where
  "out_span base s = \<lparr>ss_I0 = base + nat (sp_I0 s), ss_I1 = base + nat (sp_I1 s), ss_Text = sp_Text s, ss_Kind = sp_Kind s, ss_Val = sp_Val s\<rparr>"

definition group_spans :: "dspan list \<Rightarrow> stream_group \<Rightarrow> dspan list" where
  "group_spans sp g = take (gr_to g - gr_from g) (drop (gr_from g) sp)"

text \<open>The frames handed out so far, and the end of the last (-1: none).\<close>

definition take_group :: "dspan list \<Rightarrow> stream_group \<Rightarrow> decoder \<times> stream_frame list \<times> int \<Rightarrow> decoder \<times> stream_frame list \<times> int" where
  "take_group sp g = (\<lambda>(d, out, lst). case keepFirst d (gr_i0 g) (sp ! gr_from g) of (keep, d) \<Rightarrow>
     (d, if keep then out @ [\<lparr>fr_I0 = sd_base d + nat (gr_i0 g), fr_I1 = sd_base d + nat (gr_i1 g),
           fr_Spans = map (out_span (sd_base d)) (group_spans sp g)\<rparr>] else out, gr_i1 g))"

text \<open>Whole frames have more than Close samples after them.\<close>

primrec take_whole :: "int \<Rightarrow> dspan list \<Rightarrow> stream_group list \<Rightarrow> decoder \<times> stream_frame list \<times> int
    \<Rightarrow> stream_group list \<times> decoder \<times> stream_frame list \<times> int" where
  "take_whole n sp [] st = ([], st)"
| "take_whole n sp (g # gs) st = (if n - 1 - gr_i1 g \<le> sd_closeN (fst st) then (g # gs, st) else take_whole n sp gs (take_group sp g st))"

text \<open>The spans of a frame that end Close before the window's end.\<close>

function settled :: "dspan list \<Rightarrow> int \<Rightarrow> nat \<Rightarrow> nat \<Rightarrow> nat" where
  "settled sp lim j to = (if j < to \<and> sp_I1 (sp ! j) < lim then settled sp lim (j + 1) to else j)"
  by pat_completeness auto

termination by (relation "measure (\<lambda>(_, _, j, to). to - j)") auto

declare settled.simps [simp del]

definition take_settled :: "int \<Rightarrow> dspan list \<Rightarrow> stream_group list \<times> decoder \<times> stream_frame list \<times> int
    \<Rightarrow> stream_group list \<times> decoder \<times> stream_frame list \<times> int" where
  "take_settled n sp r = (case r of
     (g # gs, st) \<Rightarrow> if n - gr_i0 g > sd_maxN (fst st) then
         let j = settled sp (n - sd_closeN (fst st)) (gr_from g) (gr_to g) in
         if j > gr_from g then ((g\<lparr>gr_from := j, gr_i0 := (if j < gr_to g then sp_I0 (sp ! j) else gr_i0 g)\<rparr>) # gs,
           take_group sp \<lparr>gr_from = gr_from g, gr_to = j, gr_i0 = gr_i0 g, gr_i1 = sp_I1 (sp ! (j - 1))\<rparr> st)
         else r
       else r
   | ([], st) \<Rightarrow> r)"

section \<open>The next window\<close>

text \<open>The group under way, if any.\<close>

definition under_way :: "stream_group list \<Rightarrow> stream_group option" where
  "under_way gs = (case gs of g # _ \<Rightarrow> if gr_from g < gr_to g then Some g else None | [] \<Rightarrow> None)"

definition cut_of :: "int \<Rightarrow> int \<Rightarrow> stream_group list \<Rightarrow> decoder \<Rightarrow> int" where
  "cut_of n lst gs d = (if lst \<ge> 0 then
       let next = (case under_way gs of Some g \<Rightarrow> gr_i0 g | None \<Rightarrow> n);
           cut = max (lst + 1) (lst + (next - lst) sdiv 2);
           cut = min (min cut (max (lst + 1) (n - sd_closeN d))) next in
       max 0 (min cut (next - sd_leadN d))
     else case under_way gs of
       None \<Rightarrow> max 0 (n - sd_closeN d - sd_leadN d)
     | Some g \<Rightarrow> max 0 (gr_i0 g - sd_closeN d - sd_leadN d))"

definition drop_window :: "nat \<Rightarrow> nat \<Rightarrow> decoder \<Rightarrow> decoder" where
  "drop_window c n d = (if sd_edges d then d\<lparr>sd_ea := Drop (int c) (sd_ea d), sd_eb := (if el_N (sd_eb d) = n then Drop (int c) (sd_eb d) else sd_eb d)\<rparr>
     else d\<lparr>sd_a := drop c (sd_a d), sd_b := (if length (sd_b d) = n then drop c (sd_b d) else sd_b d)\<rparr>)
     \<lparr>sd_base := sd_base d + c\<rparr>"

definition finish_run :: "int \<Rightarrow> stream_group list \<times> decoder \<times> stream_frame list \<times> int \<Rightarrow> stream_frame list \<times> decoder" where
  "finish_run n = (\<lambda>(gs, d, out, lst).
     let cut = cut_of n lst gs d;
         d = (if lst \<ge> 0 then d\<lparr>sd_done := sd_base d + nat lst + 1\<rparr> else d);
         limit = 2 * sd_maxN d + sd_leadN d;
         over = n - cut > limit;
         cut = (if over then n - limit else cut);
         d = (if over then d\<lparr>sd_done := max (sd_done d) (sd_base d + nat cut)\<rparr> else d) in
     (out, if cut > 0 then drop_window (nat (min cut n)) (nat n) d else d))"

definition run :: "decoder \<Rightarrow> stream_frame list \<times> decoder" where
  "run d = (let n = int (Held d) in if n = 0 then ([], d) else
     let sp = ordered_spans d in finish_run n (take_settled n sp (take_whole n sp (span_groups d sp) (d, [], -1))))"

section \<open>The stream's operations\<close>

definition Push :: "byte list \<Rightarrow> byte list option \<Rightarrow> decoder \<Rightarrow> stream_frame list \<times> decoder" where
  "Push a b d = run (d\<lparr>sd_a := sd_a d @ a, sd_b := (case b of None \<Rightarrow> sd_b d | Some b \<Rightarrow> sd_b d @ b)\<rparr>)"

definition PushEdges :: "edge_line \<Rightarrow> edge_line option \<Rightarrow> int \<Rightarrow> int \<Rightarrow> decoder \<Rightarrow> stream_frame list \<times> decoder" where
  "PushEdges a b i j d = run (d\<lparr>sd_ea := AppendRange a i j (sd_ea d), sd_eb := (case b of None \<Rightarrow> sd_eb d | Some b \<Rightarrow> AppendRange b i j (sd_eb d))\<rparr>)"

definition Skip :: "nat \<Rightarrow> decoder \<Rightarrow> decoder" where
  "Skip n d = (let base = sd_base d + Held d + n in
     d\<lparr>sd_base := base, sd_done := max (sd_done d) base, sd_a := [], sd_b := [], sd_ea := Reset (sd_ea d), sd_eb := Reset (sd_eb d)\<rparr>)"

definition Flush :: "decoder \<Rightarrow> stream_frame list \<times> decoder" where
  "Flush d = (case run d of (out, d) \<Rightarrow> (out, Skip 0 d))"


section \<open>Records\<close>

text \<open>A slice expression; \<open>None\<close> is its panic. A record is never empty.\<close>

definition slice_from :: "int \<Rightarrow> byte list \<Rightarrow> byte list option" where
  "slice_from i xs = (if 0 \<le> i \<and> i \<le> int (length xs) then Some (drop (nat i) xs) else None)"

text \<open>Where a line crosses the middle of its range.\<close>

definition crossing :: "byte list option \<Rightarrow> nat \<Rightarrow> bool option" where
  "crossing codes i = (case codes of None \<Rightarrow> Some False | Some cs \<Rightarrow> if cs = [] then None else
     let mid = (Min (unat ` set cs) + Max (unat ` set cs)) div 2 in
     if i = 0 then Some False
     else if i < length cs then Some ((unat (cs ! i) > mid) \<noteq> (unat (cs ! (i - 1)) > mid)) else None)"

function quiet_loop :: "byte list \<Rightarrow> byte list option \<Rightarrow> int \<Rightarrow> nat \<Rightarrow> int \<Rightarrow> int option" where
  "quiet_loop a b n i lst = (if \<not> i < length a then Some (-1) else
     do { ma \<leftarrow> crossing (Some a) i; m \<leftarrow> (if ma then Some True else crossing b i);
       let lst = (if m then int i else lst) in
       if int i - lst \<ge> n then Some (int i) else quiet_loop a b n (i + 1) lst })"
  by pat_completeness auto

termination by (relation "measure (\<lambda>(a, _, _, i, _). length a - i)") auto

declare quiet_loop.simps [simp del]

definition quietAt :: "byte list \<Rightarrow> byte list option \<Rightarrow> int \<Rightarrow> int option" where
  "quietAt a b n = (if a = [] then None else quiet_loop a b n 0 (-1))"

definition shift_span :: "nat \<Rightarrow> stream_span \<Rightarrow> stream_span" where
  "shift_span k s = s\<lparr>ss_I0 := ss_I0 s + k, ss_I1 := ss_I1 s + k\<rparr>"

definition shift_frame :: "nat \<Rightarrow> stream_frame \<Rightarrow> stream_frame" where
  "shift_frame k f = f\<lparr>fr_I0 := fr_I0 f + k, fr_I1 := fr_I1 f + k, fr_Spans := map (shift_span k) (fr_Spans f)\<rparr>"

definition slice_opt :: "int \<Rightarrow> byte list option \<Rightarrow> byte list option option" where
  "slice_opt i b = (case b of None \<Rightarrow> Some None | Some b \<Rightarrow> map_option Some (slice_from i b))"

definition drop_cut_head :: "stream_frame list \<Rightarrow> stream_frame list" where
  "drop_cut_head frames = (case frames of f # rest \<Rightarrow> (case fr_Spans f of s # _ \<Rightarrow>
       if ss_Kind s \<noteq> ''sof'' \<and> ss_Kind s \<noteq> ''break'' then rest else frames | [] \<Rightarrow> frames) | [] \<Rightarrow> [])"

definition StreamRecord :: "byte list \<Rightarrow> byte list option \<Rightarrow> sample_decode \<Rightarrow> int \<Rightarrow> int \<Rightarrow> int \<Rightarrow> bool \<Rightarrow> stream_frame list option" where
  "StreamRecord a b decode closeN head cutN subframes =
     do { from_ok \<leftarrow> (if cutN > 0 then (do { q \<leftarrow> quietAt a b closeN; Some (if q < 0 \<or> q > cutN then None else Some (max 0 (q - closeN sdiv 2))) })
            else Some (Some 0));
       case from_ok of None \<Rightarrow> Some [] | Some i \<Rightarrow>
       do { a' \<leftarrow> slice_from i a; bl \<leftarrow> slice_opt i b;
         let frames = fst (Push a' bl (SetSubframes subframes (NewStreamDecoder decode closeN (int (length a) + 1)))) in
         Some (drop_cut_head (dropWhile (\<lambda>f. fr_I0 f < nat head) (map (shift_frame (nat i)) frames))) } }"

text \<open>The end of the span before the first gap between characters longer than half of one.\<close>

primrec idle_from :: "dspan option \<Rightarrow> dspan list \<Rightarrow> int" where
  "idle_from prev [] = -1"
| "idle_from prev (q # qs) = (if sp_I1 q \<le> sp_I0 q then idle_from prev qs else
     case prev of None \<Rightarrow> idle_from (Some q) qs
     | Some p \<Rightarrow> if 2 * (sp_I0 q - sp_I1 p) > sp_I1 p - sp_I0 p \<and> sp_I1 p \<ge> 0 then sp_I1 p else idle_from (Some q) qs)"

definition StreamRecordFromIdle :: "byte list \<Rightarrow> byte list option \<Rightarrow> sample_decode \<Rightarrow> int \<Rightarrow> int \<Rightarrow> int \<Rightarrow> bool \<Rightarrow> stream_frame list option" where
  "StreamRecordFromIdle a b decode closeN head cutN subframes =
     (let i = idle_from None (decode a b) in if i < 0 then Some [] else
      do { a' \<leftarrow> slice_from i a; bl \<leftarrow> slice_opt i b; frames \<leftarrow> StreamRecord a' bl decode closeN head cutN subframes;
        Some (map (shift_frame (nat i)) frames) })"

end
