(* ===== verification/StreamFrames.thy ===== *)
theory StreamFrames
  imports StreamDecoder
begin

text \<open>
  What a stream decoder hands out, whatever the protocol decoder makes of its windows: every span once, in the
  order of the stream; and the bound on the window it holds.
\<close>

section \<open>The groups tile the spans\<close>

fun tiles :: "stream_group list \<Rightarrow> nat \<Rightarrow> nat \<Rightarrow> bool" where
  "tiles [] a b \<longleftrightarrow> a = b"
| "tiles (g # gs) a b \<longleftrightarrow> gr_from g = a \<and> a < gr_to g \<and> tiles gs (gr_to g) b"

definition covers :: "dspan list \<Rightarrow> stream_group \<Rightarrow> bool" where
  "covers sp g \<longleftrightarrow> (\<forall>k. gr_from g \<le> k \<longrightarrow> k < gr_to g \<longrightarrow> sp_I1 (sp ! k) \<le> gr_i1 g)"

lemma tiles_append: "tiles (gs @ hs) a c \<longleftrightarrow> (\<exists>b. tiles gs a b \<and> tiles hs b c)"
  by (induction gs arbitrary: a) auto

lemma tiles_le: "tiles gs a b \<Longrightarrow> a \<le> b"
  by (induction gs arbitrary: a) fastforce+

lemma tiles_last: "tiles gs a b \<Longrightarrow> gs \<noteq> [] \<Longrightarrow> tiles (butlast gs) a (gr_from (last gs)) \<and> gr_to (last gs) = b \<and> gr_from (last gs) < b"
  by (induction gs arbitrary: a) auto

lemma tiles_to: "tiles gs a b \<Longrightarrow> g \<in> set gs \<Longrightarrow> gr_to g \<le> b"
proof (induction gs arbitrary: a)
  case (Cons h gs)
  then show ?case using tiles_le [of gs "gr_to h" b] by auto
qed simp

lemma span_groups_tile: "tiles (span_groups d sp) 0 (length sp) \<and> (\<forall>g\<in>set (span_groups d sp). covers sp g)"
proof (induction sp rule: rev_induct)
  case Nil
  then show ?case by (simp add: span_groups_def)
next
  case (snoc s sp)
  let ?gs = "span_groups d sp" and ?sp = "sp @ [s]"
  have t: "tiles ?gs 0 (length sp)" and c: "\<forall>g\<in>set ?gs. covers sp g" using snoc by simp_all
  have step: "span_groups d ?sp = group_step d ?gs (length sp, s)" by (simp add: span_groups_def)
  have c': "\<forall>g\<in>set ?gs. covers ?sp g"
    using c tiles_to [OF t] by (fastforce simp: covers_def nth_append)
  show ?case
  proof (cases "?gs = [] \<or> isFrameStart d s \<or> sp_I0 s - gr_i1 (last ?gs) > sd_closeN d")
    case True
    then show ?thesis using t c' unfolding step by (auto simp: group_step_def tiles_append covers_def nth_append)
  next
    case False
    let ?l = "last ?gs"
    have l: "tiles (butlast ?gs) 0 (gr_from ?l)" "gr_to ?l = length sp" "gr_from ?l < length sp"
      using tiles_last [OF t] False by simp_all
    have "covers ?sp ?l" using c' False by simp
    then have "covers ?sp (?l\<lparr>gr_to := length sp + 1, gr_i1 := max (gr_i1 ?l) (sp_I1 s)\<rparr>)"
      using l(2) by (fastforce simp: covers_def nth_append less_Suc_eq intro: le_max_iff_disj [THEN iffD2])
    then show ?thesis using l c' False unfolding step
      by (auto simp: group_step_def tiles_append dest: in_set_butlastD intro!: exI [of _ "gr_from ?l"])
  qed
qed

section \<open>The spans of a window\<close>

definition good_spans :: "decoder \<Rightarrow> dspan list \<Rightarrow> bool" where
  "good_spans d sp \<longleftrightarrow> sorted (map sp_I0 sp) \<and> (\<forall>s\<in>set sp. 0 \<le> sp_I0 s \<and> sp_I0 s < int (Held d) \<and> sp_I0 s \<le> sp_I1 s
     \<and> sd_done d \<le> sd_base d + nat (sp_I0 s))"

lemma spansSorted_sorted: "spansSorted sp \<longleftrightarrow> sorted (map sp_I0 sp)"
proof
  assume "spansSorted sp"
  then have "sp_I0 (sp ! i) \<le> sp_I0 (sp ! Suc i)" if "Suc i < length sp" for i
    using that by (auto simp: spansSorted_def not_less dest!: bspec [of _ _ "Suc i"])
  then show "sorted (map sp_I0 sp)" by (simp add: sorted_iff_nth_Suc)
next
  assume s: "sorted (map sp_I0 sp)"
  have "\<not> sp_I0 (sp ! k) < sp_I0 (sp ! (k - 1))" if "k \<in> {1..<length sp}" for k
    using s that by (auto simp: sorted_iff_nth_mono not_less)
  then show "spansSorted sp" by (simp add: spansSorted_def)
qed

lemma ordered_spans_good: "good_spans d (ordered_spans d)"
  by (auto simp: good_spans_def ordered_spans_def Let_def spansSorted_sorted new_spans_def)


section \<open>What a run hands out\<close>

definition starts :: "stream_frame list \<Rightarrow> nat list" where
  "starts out = map ss_I0 (concat (map fr_Spans out))"

text \<open>The first \<open>p\<close> spans have been dealt with: handed out in order, or dropped; \<open>lst\<close> is not before them.\<close>

definition dealt :: "decoder \<Rightarrow> dspan list \<Rightarrow> nat \<Rightarrow> decoder \<times> stream_frame list \<times> int \<Rightarrow> bool" where
  "dealt d sp p = (\<lambda>(d', out, lst). (\<exists>ats. d' = d\<lparr>sd_atStart := ats\<rparr>) \<and> p \<le> length sp \<and> sorted (starts out)
     \<and> (if p = 0 then out = [] \<and> lst = -1
        else sp_I0 (sp ! (p - 1)) \<le> lst \<and> (\<forall>x\<in>set (starts out). sd_done d \<le> x \<and> x \<le> sd_base d + nat (sp_I0 (sp ! (p - 1))))))"

lemma keepFirst_same: "keepFirst d i s = (k, d') \<Longrightarrow> \<exists>ats. d' = d\<lparr>sd_atStart := ats\<rparr>"
  by (cases d) (auto simp: keepFirst_def split: if_splits)

lemma take_group_dealt:
  assumes good: "good_spans d sp" and st: "dealt d sp (gr_from g) (d1, out, lst)" and g: "gr_from g < gr_to g" "gr_to g \<le> length sp"
    and last_in: "sp_I0 (sp ! (gr_to g - 1)) \<le> gr_i1 g"
  shows "dealt d sp (gr_to g) (take_group sp g (d1, out, lst))"
proof -
  obtain keep d2 where k: "keepFirst d1 (gr_i0 g) (sp ! gr_from g) = (keep, d2)" by force
  obtain ats where d1: "d1 = d\<lparr>sd_atStart := ats\<rparr>" using st by (auto simp: dealt_def)
  then have d2: "\<exists>ats. d2 = d\<lparr>sd_atStart := ats\<rparr>" using keepFirst_same [OF k] by auto
  then have base: "sd_base d2 = sd_base d" by auto
  let ?l = "sp_I0 (sp ! (gr_to g - 1))"
  let ?new = "map (\<lambda>s. sd_base d + nat (sp_I0 s)) (group_spans sp g)"
  have new: "sorted ?new"
  proof -
    have "sorted (map sp_I0 (group_spans sp g))"
      using good by (simp add: good_spans_def group_spans_def sorted_wrt_take sorted_wrt_drop flip: take_map drop_map)
    then show ?thesis by (auto simp: sorted_map nat_mono elim!: sorted_wrt_mono_rel [rotated])
  qed
  have mono: "sp_I0 (sp ! i) \<le> sp_I0 (sp ! j)" if "i \<le> j" "j < length sp" for i j
    using good that by (simp add: good_spans_def sorted_iff_nth_mono)
  have rng: "sd_done d \<le> x \<and> x \<le> sd_base d + nat ?l \<and> sd_base d + nat (sp_I0 (sp ! gr_from g)) \<le> x" if x: "x \<in> set ?new" for x
  proof -
    obtain i where i: "i < gr_to g - gr_from g" "x = sd_base d + nat (sp_I0 (sp ! (gr_from g + i)))"
      using x g by (auto simp: group_spans_def in_set_conv_nth)
    then have "gr_from g + i < length sp" "sp ! (gr_from g + i) \<in> set sp" using g by simp_all
    then show ?thesis using i g good mono [of "gr_from g + i" "gr_to g - 1"] mono [of "gr_from g" "gr_from g + i"]
      by (auto simp: good_spans_def intro: nat_mono)
  qed
  have old: "sd_done d \<le> x \<and> x \<le> sd_base d + nat (sp_I0 (sp ! gr_from g))" if "x \<in> set (starts out)" for x
  proof (cases "gr_from g = 0")
    case False
    then have "sp_I0 (sp ! (gr_from g - 1)) \<le> sp_I0 (sp ! gr_from g)" using mono [of "gr_from g - 1" "gr_from g"] g by simp
    then show ?thesis using st that False by (auto simp: dealt_def intro: order_trans nat_mono)
  qed (use st that in \<open>auto simp: dealt_def starts_def\<close>)
  have "nat (sp_I0 (sp ! gr_from g)) \<le> nat ?l" using mono [of "gr_from g" "gr_to g - 1"] g by (auto intro: nat_mono)
  then have "sd_done d \<le> x \<and> x \<le> sd_base d + nat ?l" if "x \<in> set (starts out)" for x using old [OF that] by linarith
  then have B: "\<forall>x\<in>set (starts out @ ?new). sd_done d \<le> x \<and> x \<le> sd_base d + nat ?l"
    using rng by auto
  have so: "sorted (starts out)" using st by (simp add: dealt_def)
  have "x \<le> y" if "x \<in> set (starts out)" "y \<in> set ?new" for x y using old [OF that(1)] rng [OF that(2)] by linarith
  then have A: "sorted (starts out @ ?new)" unfolding sorted_append using so new by blast
  have "starts (out @ [\<lparr>fr_I0 = i, fr_I1 = j, fr_Spans = map (out_span (sd_base d2)) (group_spans sp g)\<rparr>]) = starts out @ ?new" for i j
    by (simp add: starts_def base out_span_def comp_def)
  then show ?thesis using d2 g last_in A B so by (simp add: take_group_def k dealt_def)
qed


lemma covers_last: "covers sp g \<Longrightarrow> gr_from g < gr_to g \<Longrightarrow> sp_I1 (sp ! (gr_to g - 1)) \<le> gr_i1 g"
  by (simp add: covers_def)

lemma span_end: "good_spans d sp \<Longrightarrow> i < length sp \<Longrightarrow> sp_I0 (sp ! i) \<le> sp_I1 (sp ! i)"
  by (simp add: good_spans_def)

lemma take_whole_dealt:
  assumes "good_spans d sp" and "take_whole n sp gs st = (gs', st')" and "tiles gs p (length sp)" and "\<forall>g\<in>set gs. covers sp g" and "dealt d sp p st"
  shows "\<exists>p'. tiles gs' p' (length sp) \<and> dealt d sp p' st'"
  using assms(2-5)
proof (induction gs arbitrary: p st)
  case (Cons g gs)
  show ?case
  proof (cases "n - 1 - gr_i1 g \<le> sd_closeN (fst st)")
    case False
    have g: "gr_from g = p" "gr_from g < gr_to g" "gr_to g \<le> length sp" using Cons.prems(2) tiles_le [of gs "gr_to g" "length sp"] by auto
    have "gr_to g - 1 < length sp" using g by linarith
    then have "sp_I0 (sp ! (gr_to g - 1)) \<le> gr_i1 g"
      using span_end [OF assms(1), of "gr_to g - 1"] covers_last [of sp g] Cons.prems(3) g by simp
    then have "dealt d sp (gr_to g) (take_group sp g st)"
      using take_group_dealt [OF assms(1), of g "fst st" "fst (snd st)" "snd (snd st)"] Cons.prems(4) g by simp
    then show ?thesis using Cons.IH [of "take_group sp g st" "gr_to g"] Cons.prems False by simp
  qed (use Cons.prems in \<open>auto intro: exI [of _ p]\<close>)
qed auto

lemma settled_range: "j \<le> to \<Longrightarrow> j \<le> settled sp lim j to \<and> settled sp lim j to \<le> to"
proof (induction sp lim j to rule: settled.induct)
  case (1 sp lim j to)
  then show ?case by (subst (1 2) settled.simps) auto
qed

lemma take_settled_dealt:
  assumes "good_spans d sp" and "take_settled n sp (gs, st) = (gs', st')" and "tiles gs p (length sp)" and "dealt d sp p st"
  shows "\<exists>p'. dealt d sp p' st'"
proof (cases gs)
  case (Cons g rest)
  let ?j = "settled sp (n - sd_closeN (fst st)) (gr_from g) (gr_to g)"
  have g: "gr_from g = p" "gr_from g < gr_to g" "gr_to g \<le> length sp" using assms(3) Cons tiles_le [of rest "gr_to g" "length sp"] by auto
  show ?thesis
  proof (cases "n - gr_i0 g > sd_maxN (fst st) \<and> ?j > gr_from g")
    case True
    let ?g = "\<lparr>gr_from = gr_from g, gr_to = ?j, gr_i0 = gr_i0 g, gr_i1 = sp_I1 (sp ! (?j - 1))\<rparr>"
    have j: "?j \<le> length sp" using settled_range [of "gr_from g" "gr_to g" sp] g by (meson less_imp_le order_trans)
    have "dealt d sp ?j (take_group sp ?g (fst st, fst (snd st), snd (snd st)))"
      using take_group_dealt [OF assms(1), of ?g "fst st" "fst (snd st)" "snd (snd st)"] assms(4) g True j span_end [OF assms(1), of "?j - 1"] by simp
    then show ?thesis using assms(2) Cons True by (auto simp: take_settled_def Let_def)
  qed (use assms Cons in \<open>auto simp: take_settled_def Let_def split: if_splits\<close>)
qed (use assms in \<open>auto simp: take_settled_def\<close>)

lemma drop_window_done [simp]: "sd_done (drop_window c n d) = sd_done d"
  by (simp add: drop_window_def)

lemma finish_run_done:
  assumes "dealt d sp p (d', out, lst)" and "good_spans d sp" and "finish_run n (gs, d', out, lst) = (out', d'')"
  shows "out' = out \<and> sorted (starts out) \<and> (\<forall>x\<in>set (starts out). sd_done d \<le> x \<and> x < sd_done d'') \<and> sd_done d \<le> sd_done d''"
proof -
  obtain ats where d': "d' = d\<lparr>sd_atStart := ats\<rparr>" using assms(1) by (auto simp: dealt_def)
  have dn: "sd_done d'' \<ge> (if lst \<ge> 0 then sd_base d + nat lst + 1 else sd_done d)" and out: "out' = out"
    using assms(3) unfolding d' by (auto simp: finish_run_def Let_def split: if_splits)
  show ?thesis
  proof (cases "p = 0")
    case True
    then show ?thesis using assms(1) dn out by (simp add: dealt_def starts_def)
  next
    case False
    let ?s = "sp ! (p - 1)"
    have "?s \<in> set sp" using assms(1) False by (auto simp: dealt_def)
    then have s: "0 \<le> sp_I0 ?s" "sd_done d \<le> sd_base d + nat (sp_I0 ?s)" using assms(2) by (auto simp: good_spans_def)
    have l: "sp_I0 ?s \<le> lst" "sorted (starts out)" "\<forall>x\<in>set (starts out). sd_done d \<le> x \<and> x \<le> sd_base d + nat (sp_I0 ?s)"
      using assms(1) False by (auto simp: dealt_def)
    have "nat (sp_I0 ?s) \<le> nat lst" using l(1) by simp
    then have "sd_base d + nat (sp_I0 ?s) < sd_done d''" using dn l(1) s(1) by simp
    then show ?thesis using l s out by (auto intro: le_less_trans)
  qed
qed

lemma run_starts:
  assumes "run d = (out, d')"
  shows "sorted (starts out) \<and> (\<forall>x\<in>set (starts out). sd_done d \<le> x \<and> x < sd_done d') \<and> sd_done d \<le> sd_done d'"
proof (cases "Held d = 0")
  case False
  let ?sp = "ordered_spans d" and ?n = "int (Held d)"
  have good: "good_spans d ?sp" by (rule ordered_spans_good)
  obtain gs1 st1 where w: "take_whole ?n ?sp (span_groups d ?sp) (d, [], -1) = (gs1, st1)" by (rule prod.exhaust)
  obtain gs2 st2 where t: "take_settled ?n ?sp (gs1, st1) = (gs2, st2)" by (rule prod.exhaust)
  have "dealt d ?sp 0 (d, [], -1)" by (auto simp: dealt_def starts_def intro: exI [of _ "sd_atStart d"])
  then obtain p1 where "tiles gs1 p1 (length ?sp)" "dealt d ?sp p1 st1"
    using take_whole_dealt [OF good w] span_groups_tile [of d ?sp] by blast
  then obtain p2 where "dealt d ?sp p2 st2" using take_settled_dealt [OF good t] by blast
  moreover have "finish_run ?n (gs2, st2) = (out, d')" using assms False w t by (simp add: run_def Let_def)
  ultimately show ?thesis using finish_run_done [OF _ good, of p2 "fst st2" "fst (snd st2)" "snd (snd st2)" ?n gs2 out d'] by simp
qed (use assms in \<open>simp add: run_def starts_def\<close>)


section \<open>The window stays bounded\<close>

definition window_limit :: "decoder \<Rightarrow> int" where
  "window_limit d = 2 * sd_maxN d + sd_leadN d"

definition sized :: "decoder \<Rightarrow> bool" where
  "sized d \<longleftrightarrow> 0 \<le> sd_maxN d \<and> 0 \<le> sd_leadN d"

lemma cut_of_nonneg: "0 \<le> cut_of n lst gs d"
  by (simp add: cut_of_def Let_def split: option.split)

lemma el_N_Drop [simp]: "el_N (Drop (int c) l) = el_N l - c"
  by (simp add: Drop_def Reset_def Let_def)

lemma drop_window_fields [simp]:
  "sd_maxN (drop_window c n d) = sd_maxN d" "sd_leadN (drop_window c n d) = sd_leadN d" "Held (drop_window c n d) = Held d - c"
  by (simp_all add: drop_window_def Held_def)

lemma Held_done [simp]: "Held (d\<lparr>sd_done := x\<rparr>) = Held d" "Held (d\<lparr>sd_atStart := b\<rparr>) = Held d"
  by (simp_all add: Held_def)

lemma finish_run_held:
  assumes "finish_run n (gs, d, out, lst) = (out', d')" and "n = int (Held d)" and "sized d"
  shows "int (Held d') \<le> window_limit d \<and> sized d' \<and> window_limit d' = window_limit d"
proof -
  let ?c = "cut_of n lst gs d"
  define c where "c = (if n - ?c > window_limit d then n - window_limit d else ?c)"
  obtain x where d': "d' = (if c > 0 then drop_window (nat (min c n)) (nat n) (d\<lparr>sd_done := x\<rparr>) else d\<lparr>sd_done := x\<rparr>)"
  proof (rule that)
    let ?x = "let x = (if lst \<ge> 0 then sd_base d + nat lst + 1 else sd_done d) in if n - ?c > window_limit d then max x (sd_base d + nat c) else x"
    have "d\<lparr>sd_done := sd_done d\<rparr> = d" by simp
    then show "d' = (if c > 0 then drop_window (nat (min c n)) (nat n) (d\<lparr>sd_done := ?x\<rparr>) else d\<lparr>sd_done := ?x\<rparr>)"
      using assms(1) by (cases "lst \<ge> 0"; cases "n - ?c > window_limit d") (auto simp: finish_run_def Let_def window_limit_def c_def)
  qed
  have "n - c \<le> window_limit d" "0 \<le> window_limit d" using assms(3) by (simp_all add: c_def sized_def window_limit_def)
  moreover have "0 \<le> c" using cut_of_nonneg [of n lst gs d] assms(2,3) by (auto simp: c_def)
  ultimately have "int (Held d') \<le> window_limit d" using assms(2) by (auto simp: d' min_def)
  then show ?thesis using assms(3) by (simp add: d' sized_def window_limit_def)
qed

lemma take_group_conf: "fst (take_group sp g st) = fst st \<or> (\<exists>b. fst (take_group sp g st) = (fst st)\<lparr>sd_atStart := b\<rparr>)"
  by (cases st) (auto simp: take_group_def keepFirst_def)

definition same_window :: "decoder \<Rightarrow> decoder \<Rightarrow> bool" where
  "same_window d d' \<longleftrightarrow> Held d' = Held d \<and> sized d' = sized d \<and> window_limit d' = window_limit d"

lemma same_window_take: "same_window d (fst st) \<Longrightarrow> same_window d (fst (take_group sp g st))"
  using take_group_conf [of sp g st] by (auto simp: same_window_def sized_def window_limit_def)

lemma same_window_whole: "same_window d (fst st) \<Longrightarrow> same_window d (fst (snd (take_whole n sp gs st)))"
proof (induction gs arbitrary: st)
  case (Cons g gs)
  then show ?case using same_window_take [of d st sp g] Cons.IH [of "take_group sp g st"] by simp
qed simp

lemma same_window_settled: "same_window d (fst (snd r)) \<Longrightarrow> same_window d (fst (snd (take_settled n sp r)))"
  by (auto simp: take_settled_def Let_def same_window_take split: prod.splits list.splits)

lemma run_held:
  assumes "sized d"
  shows "int (Held (snd (run d))) \<le> window_limit d \<and> sized (snd (run d)) \<and> window_limit (snd (run d)) = window_limit d"
proof (cases "Held d = 0")
  case False
  let ?sp = "ordered_spans d" and ?n = "int (Held d)"
  let ?r = "take_settled ?n ?sp (take_whole ?n ?sp (span_groups d ?sp) (d, [], -1))"
  have s: "same_window d (fst (snd ?r))"
    by (intro same_window_settled same_window_whole) (simp add: same_window_def)
  have "run d = finish_run ?n (fst ?r, fst (snd ?r), fst (snd (snd ?r)), snd (snd (snd ?r)))" using False by (simp add: run_def Let_def)
  then show ?thesis using finish_run_held [of ?n "fst ?r" "fst (snd ?r)" "fst (snd (snd ?r))" "snd (snd (snd ?r))" "fst (run d)" "snd (run d)"] s assms
    by (simp add: same_window_def)
qed (use assms in \<open>simp add: run_def sized_def window_limit_def\<close>)

section \<open>Sessions\<close>

datatype stream_op = PushOp "byte list" "byte list option" | EdgesOp edge_line "edge_line option" int int | SkipOp nat | CutOp nat | FlushOp

fun stream_step :: "stream_op \<Rightarrow> decoder \<Rightarrow> stream_frame list \<times> decoder" where
  "stream_step (PushOp a b) d = Push a b d"
| "stream_step (EdgesOp a b i j) d = PushEdges a b i j d"
| "stream_step (SkipOp n) d = ([], Skip n d)"
| "stream_step (CutOp n) d = ([], CutStart n d)"
| "stream_step FlushOp d = Flush d"

text \<open>What each operation hands out, and the decoder after.\<close>

primrec stream_session :: "stream_op list \<Rightarrow> decoder \<Rightarrow> stream_frame list list \<times> decoder" where
  "stream_session [] d = ([], d)"
| "stream_session (x # xs) d = (case stream_step x d of (out, d) \<Rightarrow> case stream_session xs d of (outs, d) \<Rightarrow> (out # outs, d))"

lemma Skip_done [simp]: "sd_done d \<le> sd_done (Skip n d)"
  by (simp add: Skip_def Let_def)

lemma stream_step_starts:
  assumes "stream_step x d = (out, d')"
  shows "sorted (starts out) \<and> (\<forall>y\<in>set (starts out). sd_done d \<le> y \<and> y < sd_done d') \<and> sd_done d \<le> sd_done d'"
proof (cases x)
  case FlushOp
  then obtain d1 where "run d = (out, d1)" "d' = Skip 0 d1" using assms by (auto simp: Flush_def split: prod.splits)
  then show ?thesis using run_starts [of d out d1] Skip_done [of d1 0] by (auto intro: less_le_trans order_trans)
next
  case (SkipOp n)
  then show ?thesis using assms by (auto simp: starts_def)
next
  case (CutOp n)
  then show ?thesis using assms by (auto simp: starts_def CutStart_def)
qed (use assms in \<open>auto simp: Push_def PushEdges_def dest!: run_starts\<close>)

lemma stream_session_starts:
  assumes "stream_session xs d = (outs, d')"
  shows "(\<forall>out\<in>set outs. sorted (starts out)) \<and> sorted_wrt (\<lambda>f g. \<forall>y\<in>set (starts f). \<forall>z\<in>set (starts g). y < z) outs
    \<and> (\<forall>out\<in>set outs. \<forall>y\<in>set (starts out). sd_done d \<le> y \<and> y < sd_done d') \<and> sd_done d \<le> sd_done d'"
  using assms
proof (induction xs arbitrary: d outs)
  case (Cons x xs)
  obtain out d1 where s: "stream_step x d = (out, d1)" by (rule prod.exhaust)
  obtain outs' where o: "stream_session xs d1 = (outs', d')" "outs = out # outs'" using Cons.prems s by (auto split: prod.splits)
  note step = stream_step_starts [OF s] and rest = Cons.IH [OF o(1)]
  have "y < z" if "y \<in> set (starts out)" "g \<in> set outs'" "z \<in> set (starts g)" for y g z
    using step rest that by (meson less_le_trans)
  moreover have "sd_done d \<le> y \<and> y < sd_done d'" if "f \<in> set outs" "y \<in> set (starts f)" for f y
    using step rest that o(2) by (metis le_trans less_le_trans set_ConsD)
  ultimately show ?case using step rest o(2) by (simp add: order_trans [of "sd_done d" "sd_done d1"])
qed simp


lemma same_window_CutStart [simp]: "same_window d (CutStart n d)"
  by (simp add: same_window_def CutStart_def Held_def sized_def window_limit_def)

definition within :: "int \<Rightarrow> decoder \<Rightarrow> bool" where
  "within lim d \<longleftrightarrow> sized d \<and> window_limit d = lim \<and> int (Held d) \<le> lim"

lemma run_within: "sized d \<Longrightarrow> window_limit d = lim \<Longrightarrow> within lim (snd (run d))"
  using run_held [of d] by (simp add: within_def)

lemma Skip_within: "within lim d \<Longrightarrow> within lim (Skip n d)"
  by (auto simp: within_def Skip_def Let_def sized_def window_limit_def Held_def Reset_def)

lemma stream_step_within:
  assumes "within lim d"
  shows "within lim (snd (stream_step x d))"
proof (cases x)
  case FlushOp
  have "within lim (snd (run d))" using assms by (intro run_within) (simp_all add: within_def)
  then show ?thesis using FlushOp Skip_within [of lim "snd (run d)" 0] by (simp add: Flush_def split_beta)
next
  case (CutOp n)
  then show ?thesis using assms by (auto simp: within_def CutStart_def sized_def window_limit_def Held_def)
next
  case (PushOp a b)
  then show ?thesis using assms by (auto simp: Push_def within_def [of _ d] sized_def window_limit_def intro!: run_within)
next
  case (EdgesOp a b i j)
  then show ?thesis using assms by (auto simp: PushEdges_def within_def [of _ d] sized_def window_limit_def intro!: run_within)
qed (use assms Skip_within in simp)

lemma stream_session_within: "within lim d \<Longrightarrow> within lim (snd (stream_session xs d))"
proof (induction xs arbitrary: d)
  case (Cons x xs)
  then show ?case using stream_step_within [of lim d x] by (simp add: split_beta)
qed simp

end
