(* ===== verification/EdgeSamples.thy ===== *)
theory EdgeSamples
  imports EdgeLine
begin

text \<open>
  The samples an edge line stands for, and that every operation of the line is the operation on them.
\<close>

section \<open>The samples\<close>

definition cnt :: "nat list \<Rightarrow> nat \<Rightarrow> nat" where
  "cnt as i = length (filter (\<lambda>e. e \<le> i) as)"

definition level :: "edge_line \<Rightarrow> nat \<Rightarrow> bool" where
  "level l i \<longleftrightarrow> (el_First l = 1) \<noteq> odd (cnt (el_At l) i)"

definition bits_of :: "edge_line \<Rightarrow> bool list" where
  "bits_of l = map (level l) [0..<el_N l]"

definition wf_line :: "edge_line \<Rightarrow> bool" where
  "wf_line l \<longleftrightarrow> el_First l \<in> {0, 1} \<and> sorted_wrt (<) (el_At l) \<and> (\<forall>e\<in>set (el_At l). 0 < e \<and> e < el_N l)"

lemma length_bits_of [simp]: "length (bits_of l) = el_N l"
  by (simp add: bits_of_def)

lemma cnt_simps [simp]: "cnt [] i = 0" "cnt (as @ bs) i = cnt as i + cnt bs i"
  by (simp_all add: cnt_def)

lemma cnt_all: "\<forall>e\<in>set as. e \<le> i \<Longrightarrow> cnt as i = length as"
  by (simp add: cnt_def)

lemma cnt_none: "\<forall>e\<in>set as. i < e \<Longrightarrow> cnt as i = 0"
  by (simp add: cnt_def filter_empty_conv not_le)

lemma cnt_shift: "cnt (map (\<lambda>a. n + a) as) (n + j) = cnt as j"
  by (induction as) (auto simp: cnt_def)

lemma parity_cases: "parity k = (if odd k then 1 else 0)"
  by (simp add: parity_def odd_iff_mod_2_eq_one)

lemma bit_byte:
  assumes "b \<in> {0, 1 :: byte}"
  shows "b XOR parity k \<in> {0, 1}" "(b XOR parity k = 1) = ((b = 1) \<noteq> odd k)"
  using assms by (auto simp: parity_cases)

section \<open>Appending a block\<close>

definition extend :: "byte \<Rightarrow> nat list \<Rightarrow> nat \<Rightarrow> edge_line \<Rightarrow> edge_line" where
  "extend lvl es m l = (let l = start lvl l in l\<lparr>el_At := el_At l @ map (\<lambda>a. el_N l + a) es, el_N := el_N l + m\<rparr>)"

definition block :: "byte \<Rightarrow> nat list \<Rightarrow> nat \<Rightarrow> edge_line" where
  "block lvl es m = \<lparr>el_N = m, el_First = lvl, el_At = es\<rparr>"

lemma start_cases:
  "start lvl l = (if el_N l = 0 then l\<lparr>el_First := lvl, el_At := []\<rparr> else l\<lparr>el_At := el_At l @ (if Last l \<noteq> lvl then [el_N l] else [])\<rparr>)"
  by (cases l) (simp add: start_def)

lemma extend_wf:
  assumes "wf_line l" and "wf_line (block lvl es m)" and "0 < m"
  shows "wf_line (extend lvl es m l)"
  using assms by (auto simp: extend_def wf_line_def block_def start_cases Let_def sorted_wrt_append sorted_wrt_map)

lemma extend_bits:
  assumes l: "wf_line l" and b: "wf_line (block lvl es m)"
  shows "bits_of (extend lvl es m l) = bits_of l @ bits_of (block lvl es m)"
proof (cases "el_N l = 0")
  case True
  moreover have "map ((+) 0) es = es" by (simp add: map_idI)
  ultimately show ?thesis by (simp add: extend_def start_cases Let_def bits_of_def level_def block_def)
next
  case False
  let ?e = "extend lvl es m l" and ?E = "if Last l \<noteq> lvl then [el_N l] else []"
  have e: "el_At ?e = el_At l @ ?E @ map (\<lambda>a. el_N l + a) es" "el_First ?e = el_First l" "el_N ?e = el_N l + m"
    using False by (simp_all add: extend_def start_cases Let_def)
  have old: "level ?e i = level l i" if "i < el_N l" for i
    using that b by (simp add: level_def e cnt_none [of "map _ es"] cnt_none [of ?E] wf_line_def block_def)
  have new: "level ?e (el_N l + j) = level (block lvl es m) j" for j
  proof -
    have "cnt (el_At l) (el_N l + j) = length (el_At l)" using l by (intro cnt_all) (auto simp: wf_line_def)
    moreover have "cnt ?E (el_N l + j) = length ?E" by (intro cnt_all) simp
    moreover have "lvl \<in> {0, 1}" "el_First l \<in> {0, 1}" using l b by (simp_all add: wf_line_def block_def)
    ultimately show ?thesis using False bit_byte [of "el_First l" "length (el_At l)"]
      by (auto simp: level_def e cnt_shift block_def Last_def)
  qed
  show ?thesis
  proof (rule nth_equalityI)
    fix i assume i: "i < length (bits_of ?e)"
    show "bits_of ?e ! i = (bits_of l @ bits_of (block lvl es m)) ! i"
    proof (cases "i < el_N l")
      case False
      then obtain k where "i = el_N l + k" using le_Suc_ex not_less by metis
      then show ?thesis using i new [of k] by (simp add: e bits_of_def nth_append block_def)
    qed (use i old in \<open>simp add: e bits_of_def nth_append\<close>)
  qed (simp add: e block_def)
qed


lemma AppendLevel_extend: "0 < n \<Longrightarrow> AppendLevel lvl n l = extend (lvl AND 1) [] (nat n) l"
  by (simp add: AppendLevel_def extend_def Let_def)

lemma and_one_bit: "(b :: byte) AND 1 \<in> {0, 1}"
  by (simp add: and_one_eq mod_2_eq_odd)

section \<open>A stretch of a line\<close>

lemma takeWhile_sorted: "sorted_wrt (<) as \<Longrightarrow> takeWhile (\<lambda>e. e < (x :: nat)) as = filter (\<lambda>e. e < x) as"
  by (induction as) (auto intro!: filter_False [symmetric])

lemma drop_SearchInts: "sorted_wrt (<) as \<Longrightarrow> drop (SearchInts as x) as = filter (\<lambda>e. x \<le> e) as"
  by (induction as) (auto simp: SearchInts_def intro!: filter_True [symmetric])

lemma take_SearchInts: "sorted_wrt (<) as \<Longrightarrow> take (SearchInts as x) as = filter (\<lambda>e. e < x) as"
  using takeWhile_eq_take [of "\<lambda>e. e < x" as] takeWhile_sorted [of as x] by (simp add: SearchInts_def)

lemma SearchInts_cnt: "sorted_wrt (<) as \<Longrightarrow> SearchInts as (i + 1) = cnt as i"
  using takeWhile_sorted [of as "i + 1"] by (simp add: SearchInts_def cnt_def less_Suc_eq_le)

definition stretch :: "edge_line \<Rightarrow> nat \<Rightarrow> nat \<Rightarrow> edge_line" where
  "stretch src i j = block (el_First src XOR parity (cnt (el_At src) i))
     (map (\<lambda>a. a - i) (filter (\<lambda>e. i < e \<and> e < j) (el_At src))) (j - i)"

lemma stretch_wf:
  assumes "wf_line src"
  shows "wf_line (stretch src i j)"
proof -
  have "sorted_wrt (<) (map (\<lambda>a. a - i) (filter (\<lambda>e. i < e \<and> e < j) (el_At src)))"
    unfolding sorted_wrt_map using assms sorted_wrt_filter [of "(<)" "el_At src" "\<lambda>e. i < e \<and> e < j"]
    by (auto simp: wf_line_def elim!: sorted_wrt_mono_rel [rotated])
  then show ?thesis using assms bit_byte(1) [of "el_First src" "cnt (el_At src) i"] by (auto simp: stretch_def block_def wf_line_def)
qed

lemma cnt_split: "cnt as (i + t) = cnt as i + cnt (map (\<lambda>a. a - i) (filter (\<lambda>e. i < e \<and> e < j) as)) t" if "i + t < j"
  using that by (induction as) (auto simp: cnt_def)

lemma stretch_bits:
  assumes "wf_line src" and "i \<le> j" and "j \<le> el_N src"
  shows "bits_of (stretch src i j) = take (j - i) (drop i (bits_of src))"
proof (rule nth_equalityI)
  fix t assume "t < length (bits_of (stretch src i j))"
  then have t: "i + t < j" by (simp add: stretch_def block_def)
  have "el_First src \<in> {0, 1}" using assms(1) by (simp add: wf_line_def)
  then have "level (stretch src i j) t = level src (i + t)"
    by (simp add: level_def stretch_def block_def cnt_split [OF t] bit_byte(2)) blast
  then show "bits_of (stretch src i j) ! t = take (j - i) (drop i (bits_of src)) ! t"
    using t assms(3) by (simp add: bits_of_def stretch_def block_def)
qed (use assms in \<open>simp add: stretch_def block_def\<close>)

lemma AppendRange_extend:
  assumes "wf_line src" and "0 \<le> i" and "i < j" and "j \<le> int (el_N src)"
  shows "AppendRange src i j l = (let b = stretch src (nat i) (nat j) in extend (el_First b) (el_At b) (el_N b) l)"
proof -
  have s: "sorted_wrt (<) (el_At src)" using assms(1) by (simp add: wf_line_def)
  have "take (SearchInts (filter (\<lambda>e. nat i + 1 \<le> e) (el_At src)) (nat j)) (filter (\<lambda>e. nat i + 1 \<le> e) (el_At src))
      = filter (\<lambda>e. nat i < e \<and> e < nat j) (el_At src)"
    using s by (subst take_SearchInts) (auto simp: sorted_wrt_filter Suc_le_eq conj_commute)
  moreover have "map (\<lambda>a. n + a - nat i) (filter (\<lambda>e. nat i < e \<and> e < nat j) (el_At src))
      = map (\<lambda>a. n + a) (map (\<lambda>a. a - nat i) (filter (\<lambda>e. nat i < e \<and> e < nat j) (el_At src)))" for n
    by (auto simp: filter_eq_Cons_iff)
  ultimately show ?thesis using assms(2-4) drop_SearchInts [OF s, of "nat i + 1"] SearchInts_cnt [OF s, of "nat i"]
    by (simp add: AppendRange_def extend_def stretch_def block_def Let_def max_def min_def nat_diff_distrib)
qed


section \<open>The operations\<close>

lemma Reset_bits [simp]: "wf_line (Reset l)" "bits_of (Reset l) = []"
  by (simp_all add: Reset_def wf_line_def bits_of_def)

lemma stretch_fields: "el_N (stretch src i j) = j - i" "block (el_First b) (el_At b) (el_N b) = b"
  by (simp_all add: stretch_def block_def)

lemma extend_line:
  assumes "wf_line l" and "wf_line b" and "0 < el_N b"
  shows "wf_line (extend (el_First b) (el_At b) (el_N b) l) \<and> bits_of (extend (el_First b) (el_At b) (el_N b) l) = bits_of l @ bits_of b"
  using assms extend_wf [of l "el_First b" "el_At b" "el_N b"] extend_bits [of l "el_First b" "el_At b" "el_N b"] by (simp add: stretch_fields(2))

lemma AppendRange_bits:
  assumes "wf_line src" and "wf_line l"
  shows "wf_line (AppendRange src i j l) \<and> bits_of (AppendRange src i j l) = bits_of l @ drop (nat i) (take (nat j) (bits_of src))"
proof (cases "min j (int (el_N src)) \<le> max i 0")
  case True
  then show ?thesis using assms by (auto simp: AppendRange_def Let_def min_def max_def split: if_splits)
next
  case False
  let ?i = "max i 0" and ?j = "min j (int (el_N src))"
  let ?b = "stretch src (nat ?i) (nat ?j)"
  have "i < j" "0 < j" "i < int (el_N src)" "0 < el_N src" using False by arith+
  then have b: "wf_line (stretch src (nat ?i) (nat ?j))" "0 < nat ?j - nat ?i" "nat ?j \<le> el_N src" "nat ?i \<le> nat ?j"
    using assms(1) by (auto simp: stretch_wf)
  have "AppendRange src i j l = AppendRange src ?i ?j l" by (simp add: AppendRange_def)
  also have "\<dots> = (let b = stretch src (nat ?i) (nat ?j) in extend (el_First b) (el_At b) (el_N b) l)"
    using False by (intro AppendRange_extend assms) arith+
  finally have a: "AppendRange src i j l = extend (el_First ?b) (el_At ?b) (el_N ?b) l" by (simp add: Let_def)
  have "nat ?i = nat i" "take (nat ?j) (bits_of src) = take (nat j) (bits_of src)" by (auto simp: max_def min_def)
  then have "bits_of ?b = drop (nat i) (take (nat j) (bits_of src))"
    using b(3,4) assms(1) by (simp add: stretch_bits flip: drop_take)
  moreover have "0 < el_N ?b" using b(2) by (simp add: stretch_fields)
  ultimately show ?thesis unfolding a using extend_line [OF assms(2) b(1)] by simp
qed

lemma AppendLevel_bits:
  assumes "wf_line l"
  shows "wf_line (AppendLevel lvl n l) \<and> bits_of (AppendLevel lvl n l) = bits_of l @ replicate (nat n) (odd lvl)"
proof (cases "0 < n")
  case True
  have b: "wf_line (block (lvl AND 1) [] (nat n))" using and_one_bit [of lvl] by (simp add: wf_line_def block_def)
  have "bits_of (block (lvl AND 1) [] (nat n)) = replicate (nat n) (odd lvl)"
    by (rule nth_equalityI) (simp_all add: bits_of_def block_def level_def and_one_eq mod_2_eq_odd)
  then show ?thesis using True assms b by (simp add: AppendLevel_extend extend_wf extend_bits)
qed (use assms in \<open>simp add: AppendLevel_def\<close>)

lemma Drop_bits:
  assumes "wf_line l"
  shows "wf_line (Drop n l) \<and> bits_of (Drop n l) = drop (nat n) (bits_of l)"
proof (cases "0 < n \<and> n < int (el_N l)")
  case True
  have s: "sorted_wrt (<) (el_At l)" using assms by (simp add: wf_line_def)
  have "filter (\<lambda>e. nat n < e \<and> e < el_N l) (el_At l) = filter (\<lambda>e. nat n + 1 \<le> e) (el_At l)"
    using assms by (intro filter_cong) (auto simp: wf_line_def)
  then have "Drop n l = stretch l (nat n) (el_N l)"
    using True drop_SearchInts [OF s, of "nat n + 1"] SearchInts_cnt [OF s, of "nat n"] by (simp add: Drop_def stretch_def block_def Let_def)
  moreover have "nat n \<le> el_N l" using True by linarith
  ultimately show ?thesis using True assms stretch_bits [of l "nat n" "el_N l"] by (simp add: stretch_wf)
qed (use assms in \<open>auto simp: Drop_def\<close>)

lemma fill_level:
  assumes "sorted_wrt (<) as" and "\<forall>e\<in>set as. pos \<le> e \<and> e < n" and "pos \<le> n" and "lvl \<in> {0, 1}"
  shows "fill lvl pos (as @ [n]) = map (\<lambda>i. if (lvl = 1) \<noteq> odd (cnt as i) then 255 else 0) [pos..<n]"
  using assms
proof (induction as arbitrary: lvl pos)
  case Nil
  then show ?case by (auto simp: map_replicate_const)
next
  case (Cons a as)
  have c: "cnt (a # as) i = (if i < a then 0 else Suc (cnt as i))" for i
    using Cons.prems(1) by (auto simp: cnt_def filter_empty_conv)
  have "[pos..<n] = [pos..<a] @ [a..<n]" using Cons.prems upt_add_eq_append [of pos a "n - a"] by simp
  moreover have "fill (lvl XOR 1) a (as @ [n]) = map (\<lambda>i. if (lvl XOR 1 = 1) \<noteq> odd (cnt as i) then 255 else 0) [a..<n]"
    using Cons.prems by (intro Cons.IH) auto
  moreover have "(lvl XOR 1 = 1) = (lvl \<noteq> 1)" using Cons.prems(4) by auto
  ultimately show ?case using Cons.prems(4) by (auto simp: c intro!: nth_equalityI)
qed

lemma Samples_bits:
  assumes "wf_line l"
  shows "Samples l = map (\<lambda>b. if b then 255 else 0) (bits_of l)"
  using fill_level [of "el_At l" 0 "el_N l" "el_First l"] assms
  by (simp add: Samples_def bits_of_def level_def wf_line_def cong: map_cong)


text \<open>The high samples are counted run by run.\<close>

lemma high_runs_count:
  assumes "sorted_wrt (<) as" and "\<forall>e\<in>set as. pos \<le> e \<and> e < n"
  shows "high_runs n as = length (filter (\<lambda>i. odd (cnt as i)) [pos..<n])"
  using assms
proof (induction n as arbitrary: pos rule: high_runs.induct)
  case (1 n a b as)
  have le: "pos \<le> a" "a < b" "b < n" using 1(2,3) by auto
  have "[pos..<n] = [pos..<a] @ [a..<b] @ [b..<n]"
    using upt_add_eq_append [of pos a "n - a"] upt_add_eq_append [of a b "n - b"] le by simp
  moreover have c: "cnt (a # b # as) i = (if i < a then 0 else if i < b then 1 else Suc (Suc (cnt as i)))" for i
    using 1(2) by (auto simp: cnt_def filter_empty_conv)
  have "filter (\<lambda>i. odd (cnt (a # b # as) i)) [pos..<a] = []" "filter (\<lambda>i. odd (cnt (a # b # as) i)) [a..<b] = [a..<b]"
    "filter (\<lambda>i. odd (cnt (a # b # as) i)) [b..<n] = filter (\<lambda>i. odd (cnt as i)) [b..<n]"
    using le by (auto simp: c filter_empty_conv filter_id_conv intro!: filter_cong)
  moreover have "high_runs n as = length (filter (\<lambda>i. odd (cnt as i)) [b..<n])" using 1(2,3) by (intro 1(1)) auto
  ultimately show ?case by simp
next
  case (2 n a)
  have le: "pos \<le> a" "a < n" using 2 by auto
  have "[pos..<n] = [pos..<a] @ [a..<n]" using upt_add_eq_append [of pos a "n - a"] le by simp
  moreover have "filter (\<lambda>i. odd (cnt [a] i)) [pos..<a] = []" "filter (\<lambda>i. odd (cnt [a] i)) [a..<n] = [a..<n]"
    by (auto simp: cnt_def filter_empty_conv filter_id_conv)
  ultimately show ?case by simp
qed simp

lemma ones_bits:
  assumes "wf_line l"
  shows "ones l = length (filter (\<lambda>b. b) (bits_of l))"
proof -
  have s: "sorted_wrt (<) (el_At l)" "\<forall>e\<in>set (el_At l). 0 < e \<and> e < el_N l" using assms by (simp_all add: wf_line_def)
  have f: "length (filter (\<lambda>b. b) (bits_of l)) = length (filter (level l) [0..<el_N l])"
    by (simp add: bits_of_def filter_map comp_def)
  show ?thesis
  proof (cases "el_First l = 1")
    case True
    show ?thesis
    proof (cases "el_At l")
      case Nil
      then show ?thesis using True by (simp add: f ones_def level_def filter_id_conv)
    next
      case (Cons a as)
      have a: "a < el_N l" "sorted_wrt (<) as" "\<forall>e\<in>set as. a \<le> e \<and> e < el_N l" using s Cons by auto
      have "[0..<el_N l] = [0..<a] @ [a..<el_N l]" using upt_add_eq_append [of 0 a "el_N l - a"] a(1) by simp
      moreover have c: "cnt (a # as) i = (if i < a then 0 else Suc (cnt as i))" for i
        using s(1) Cons by (auto simp: cnt_def filter_empty_conv)
      have "filter (level l) [0..<a] = [0..<a]" "filter (level l) [a..<el_N l] = filter (\<lambda>i. odd (cnt as i)) [a..<el_N l]"
        using True by (auto simp: level_def Cons c filter_id_conv intro!: filter_cong)
      ultimately show ?thesis using True Cons high_runs_count [OF a(2,3)] by (simp add: f ones_def)
    qed
  next
    case False
    then have "el_First l = 0" using assms by (simp add: wf_line_def)
    then show ?thesis using high_runs_count [of "el_At l" 0 "el_N l"] s False by (simp add: f ones_def level_def [abs_def])
  qed
qed


section \<open>The digital stream's words\<close>

text \<open>Clearing the lowest set bit.\<close>

lemma lowest_bit:
  assumes "(t :: u32) \<noteq> 0"
  shows "bit t (TrailingZeros32 t)" "j < TrailingZeros32 t \<Longrightarrow> \<not> bit t j" "TrailingZeros32 t < 32"
proof -
  obtain k where k: "bit t k" using assms bit_eq_iff [of t 0] by auto
  have "k < 32" using k bit_imp_le_length [of t k] by simp
  then have "takeWhile (\<lambda>k. \<not> bit t k) [0..<32] \<noteq> [0..<32]" using k by (auto simp: takeWhile_eq_all_conv)
  then have l: "TrailingZeros32 t < 32" using length_takeWhile_le [of "\<lambda>k. \<not> bit t k" "[0..<32]"]
    unfolding TrailingZeros32_def by (metis (no_types, lifting) le_neq_implies_less length_upt minus_nat.diff_0 takeWhile_eq_take take_all_iff order_refl)
  then show "TrailingZeros32 t < 32" .
  show "bit t (TrailingZeros32 t)" using nth_length_takeWhile [of "\<lambda>k. \<not> bit t k" "[0..<32]"] l by (simp add: TrailingZeros32_def)
  show "j < TrailingZeros32 t \<Longrightarrow> \<not> bit t j" using takeWhile_nth [of j "\<lambda>k. \<not> bit t k" "[0..<32]"] l
    by (metis TrailingZeros32_def add_0 nth_mem nth_upt set_takeWhileD less_trans)
qed

lemma clear_lowest:
  assumes "(t :: u32) \<noteq> 0"
  shows "bit (t AND (t - 1)) j \<longleftrightarrow> bit t j \<and> j \<noteq> TrailingZeros32 t"
proof -
  let ?k = "TrailingZeros32 t"
  let ?u = "t AND NOT (mask (Suc ?k))"
  note low = lowest_bit [OF assms]
  have t: "t = ?u OR 2 ^ ?k"
    by (rule bit_eqI) (use low in \<open>auto simp: bit_simps less_Suc_eq\<close>)
  have d: "?u AND 2 ^ ?k = 0" "?u AND mask ?k = 0" by (rule bit_eqI, auto simp: bit_simps)+
  have "t = ?u + 2 ^ ?k" using t d(1) by (simp add: disjunctive_add_eq_or)
  then have "t - 1 = ?u + mask ?k" by (simp add: mask_eq_exp_minus_1 algebra_simps)
  also have "\<dots> = ?u OR mask ?k" using d(2) by (rule disjunctive_add_eq_or)
  finally have m: "t - 1 = ?u OR mask ?k" .
  have "bit t j \<Longrightarrow> j < 32" using bit_imp_le_length [of t j] by simp
  then show ?thesis unfolding m using low by (auto simp: bit_simps)
qed

lemma bit_edges_filter: "bit_edges base t = map (\<lambda>k. base + k) (filter (bit t) [0..<32])"
proof (induction base t rule: bit_edges.induct)
  case (1 base t)
  show ?case
  proof (cases "t = 0")
    case False
    let ?k = "TrailingZeros32 t"
    note low = lowest_bit [OF False]
    have "[0..<32] = [0..<?k] @ ?k # [Suc ?k..<32]" using low(3) upt_add_eq_append [of 0 ?k "32 - ?k"] upt_conv_Cons [of ?k 32] by simp
    moreover have "filter (bit t) [0..<?k] = []" "filter (bit (t AND (t - 1))) [0..<?k] = []"
      "filter (bit (t AND (t - 1))) [Suc ?k..<32] = filter (bit t) [Suc ?k..<32]"
      using low(2) by (auto simp: clear_lowest [OF False] filter_empty_conv simp del: bit_and_iff intro!: filter_cong)
    ultimately show ?thesis using 1 [OF False] low(1) False clear_lowest [OF False, of ?k]
      by (subst bit_edges.simps) (simp del: upt_Suc bit_and_iff)
  qed (simp add: bit_edges.simps)
qed


text \<open>One word: its sixteen bits, the lowest first, after the line's last level.\<close>

definition word_bits :: "u32 \<Rightarrow> bool list" where
  "word_bits w = map (bit w) [0..<16]"

definition bit_level :: "bool \<Rightarrow> byte" where
  "bit_level b = (if b then 1 else 0)"

definition word_block :: "u32 \<Rightarrow> edge_line" where
  "word_block w = block (bit_level (bit w 0)) (filter (\<lambda>k. bit w k \<noteq> bit w (k - 1)) [1..<16]) 16"

lemma word_block_wf: "wf_line (word_block w)"
  using sorted_wrt_filter [of "(<)" "[1..<16]" "\<lambda>k. bit w k \<noteq> bit w (k - 1)"]
  by (auto simp: word_block_def block_def wf_line_def bit_level_def)

lemma cnt_changes: "odd (cnt (filter (\<lambda>k. bit w k \<noteq> bit w (k - 1)) [1..<16]) i) = (bit w i \<noteq> bit w 0)" if "i < 16" for w :: u32
  using that
proof (induction i)
  case 0
  then show ?case by (simp add: cnt_none)
next
  case (Suc i)
  have "[1..<16] = [1..<Suc i] @ Suc i # [Suc (Suc i)..<16]"
    using Suc.prems upt_add_eq_append [of 1 "Suc i" "15 - i"] upt_conv_Cons [of "Suc i" 16] by simp
  then have f: "filter (\<lambda>k. bit w k \<noteq> bit w (k - 1)) [1..<16] = filter (\<lambda>k. bit w k \<noteq> bit w (k - 1)) [1..<Suc i]
      @ (if bit w (Suc i) \<noteq> bit w i then [Suc i] else []) @ filter (\<lambda>k. bit w k \<noteq> bit w (k - 1)) [Suc (Suc i)..<16]" by simp
  have "cnt (filter (\<lambda>k. bit w k \<noteq> bit w (k - 1)) [Suc (Suc i)..<16]) j = 0" if "j \<le> Suc i" for j using that by (intro cnt_none) auto
  moreover have "cnt (filter (\<lambda>k. bit w k \<noteq> bit w (k - 1)) [1..<Suc i]) (Suc i) = cnt (filter (\<lambda>k. bit w k \<noteq> bit w (k - 1)) [1..<Suc i]) i"
    by (subst (1 2) cnt_all) auto
  ultimately have "cnt (filter (\<lambda>k. bit w k \<noteq> bit w (k - 1)) [1..<16]) (Suc i) =
      cnt (filter (\<lambda>k. bit w k \<noteq> bit w (k - 1)) [1..<16]) i + (if bit w (Suc i) \<noteq> bit w i then 1 else 0)"
    unfolding f by (simp add: cnt_all cnt_none del: upt_Suc)
  then show ?case using Suc by auto
qed

lemma word_block_bits: "bits_of (word_block w) = word_bits w"
proof -
  have "level (word_block w) i = bit w i" if "i < 16" for i
    using cnt_changes [OF that, of w] by (auto simp: level_def word_block_def block_def bit_level_def)
  moreover have "el_N (word_block w) = 16" by (simp add: word_block_def block_def)
  ultimately show ?thesis by (simp add: bits_of_def word_bits_def)
qed

lemma Last_bits:
  assumes "wf_line l" and "el_N l \<noteq> 0"
  shows "Last l = bit_level (last (bits_of l))"
proof -
  have "cnt (el_At l) (el_N l - 1) = length (el_At l)" using assms(1) by (intro cnt_all) (auto simp: wf_line_def)
  then have "last (bits_of l) = level l (el_N l - 1)" "level l (el_N l - 1) = (Last l = 1)" "Last l \<in> {0, 1}"
    using assms bit_byte [of "el_First l" "length (el_At l)"] by (auto simp: bits_of_def last_map level_def Last_def wf_line_def)
  then show ?thesis by (auto simp: bit_level_def)
qed


text \<open>The edges the words add are those of their blocks, one after the other.\<close>

lemma bit_levels: "bit_level b \<in> {0, 1}" "(bit_level b = bit_level c) = (b = c)" "(bit_level b = 1) = b"
  by (simp_all add: bit_level_def)

definition word16 :: "u32 \<Rightarrow> bool" where
  "word16 w \<longleftrightarrow> (\<forall>k\<ge>16. \<not> bit w k)"

lemma low_filter:
  assumes t: "\<And>k. k < 32 \<Longrightarrow> bit t k = (k < 16 \<and> (if k = 0 then P else Q k))"
  shows "filter (bit (t :: u32)) [0..<32] = (if P then [0] else []) @ filter Q [1..<16]"
proof -
  have "[0..<32] = [0] @ [1..<16] @ [16..<32]" by (simp add: upt_rec)
  moreover have "filter (bit t) [16..<32] = []" using t by (intro filter_False ballI) (simp only: set_upt atLeastLessThan_iff, auto)
  moreover have "filter (bit t) [1..<16] = filter Q [1..<16]" using t by (intro filter_cong refl) (simp only: set_upt atLeastLessThan_iff, auto)
  ultimately show ?thesis using t [of 0] by (simp only: filter_append filter.simps) simp
qed

lemma word_edge_bits:
  assumes "word16 w"
  shows "bit_edges base ((w XOR (push_bit 1 w OR ucast (bit_level b))) AND 0xffff) =
    map (\<lambda>k. base + k) ((if bit w 0 \<noteq> b then [0] else []) @ filter (\<lambda>k. bit w k \<noteq> bit w (k - 1)) [1..<16])"
proof -
  let ?t = "(w XOR (push_bit 1 w OR ucast (bit_level b))) AND 0xffff"
  have m: "(0xffff :: u32) = mask 16" by (simp add: mask_eq_exp_minus_1)
  have pb: "bit (ucast (bit_level b) :: u32) k = (k = 0 \<and> b)" for k by (simp add: bit_level_def bit_1_iff)
  have t: "bit ?t k = (k < 16 \<and> (if k = 0 then bit w 0 \<noteq> b else bit w k \<noteq> bit w (k - 1)))" if "k < 32" for k
  proof -
    have "bit (push_bit 1 w) k = (0 < k \<and> bit w (k - 1))" using that by (simp only: bit_push_bit_iff) auto
    then show ?thesis unfolding m bit_and_iff bit_xor_iff bit_or_iff bit_mask_iff pb using that by (cases "k = 0") auto
  qed
  show ?thesis unfolding bit_edges_filter by (simp only: low_filter [OF t])
qed

lemma top_bit:
  assumes "word16 w"
  shows "drop_bit 15 w = ucast (bit_level (bit w 15))"
proof -
  have "bit w (15 + n) = (n = 0 \<and> bit w 15)" for n using assms by (cases n) (simp_all add: word16_def)
  then show ?thesis by (intro bit_eqI) (auto simp: bit_simps bit_1_iff bit_level_def)
qed

lemma extend_word:
  assumes "wf_line l" and "el_N l \<noteq> 0" and "Last l = bit_level b" and "word16 w"
  shows "extend (el_First (word_block w)) (el_At (word_block w)) 16 l =
    l\<lparr>el_At := el_At l @ bit_edges (el_N l) ((w XOR (push_bit 1 w OR ucast (bit_level b))) AND 0xffff), el_N := el_N l + 16\<rparr>"
  unfolding word_edge_bits [OF assms(4)] using assms(2,3) bit_levels(2) by (auto simp: extend_def start_cases Let_def word_block_def block_def)

lemma words_bits:
  assumes "wf_line l" and "el_N l \<noteq> 0" and "\<forall>w\<in>set ws. word16 w"
  shows "wf_line (l\<lparr>el_N := el_N l + 16 * length ws, el_At := el_At l @ word_edges (el_N l) (ucast (Last l)) ws\<rparr>)
    \<and> bits_of (l\<lparr>el_N := el_N l + 16 * length ws, el_At := el_At l @ word_edges (el_N l) (ucast (Last l)) ws\<rparr>) = bits_of l @ concat (map word_bits ws)"
  using assms
proof (induction ws arbitrary: l)
  case (Cons w ws)
  let ?l = "extend (el_First (word_block w)) (el_At (word_block w)) (el_N (word_block w)) l"
  obtain b where b: "Last l = bit_level b" using Last_bits [OF Cons.prems(1,2)] by blast
  have n: "el_N (word_block w) = 16" by (simp add: word_block_def block_def)
  have e: "wf_line ?l" "bits_of ?l = bits_of l @ word_bits w"
    using extend_line [OF Cons.prems(1) word_block_wf, of w] by (simp_all add: n word_block_bits)
  have w: "word16 w" using Cons.prems(3) by simp
  have f: "?l = l\<lparr>el_At := el_At l @ bit_edges (el_N l) ((w XOR (push_bit 1 w OR ucast (Last l))) AND 0xffff), el_N := el_N l + 16\<rparr>"
    unfolding n b using extend_word [OF Cons.prems(1,2) b w] .
  then have n0: "el_N ?l \<noteq> 0" by simp
  moreover have "last (bits_of ?l) = bit w 15" unfolding e(2) by (simp add: word_bits_def last_map)
  then have "Last ?l = bit_level (bit w 15)" by (simp only: Last_bits [OF e(1) n0])
  moreover note Cons.IH [OF e(1)]
  ultimately show ?case using Cons.prems(3) top_bit [OF w] e(2) unfolding f by (simp add: add.assoc)
qed simp


text \<open>The samples of a line in the stream's words.\<close>

definition stream_bits :: "byte list \<Rightarrow> nat \<Rightarrow> bool list" where
  "stream_bits raw ch = concat (map (\<lambda>i. word_bits (line_word raw (line_offset ch) i)) [0..<length raw div 4])"

lemma line_word_16: "word16 (line_word raw off i)"
proof -
  have "\<not> bit (b :: byte) k" if "8 \<le> k" for b k using that bit_imp_le_length [of b k] by auto
  then show ?thesis by (auto simp: word16_def line_word_def bit_simps)
qed

text \<open>The first words of an empty line.\<close>

lemma words_fresh:
  assumes "\<forall>w\<in>set (w # ws). word16 w"
  shows "\<lparr>el_N = 16 * length (w # ws), el_First = bit_level (bit w 0), el_At = word_edges 0 (ucast (bit_level (bit w 0))) (w # ws)\<rparr> =
    (word_block w)\<lparr>el_N := el_N (word_block w) + 16 * length ws,
      el_At := el_At (word_block w) @ word_edges (el_N (word_block w)) (ucast (Last (word_block w))) ws\<rparr>"
proof -
  have w: "word16 w" using assms by simp
  have n: "el_N (word_block w) = 16" by (simp add: word_block_def block_def)
  have "last (bits_of (word_block w)) = bit w 15" by (simp add: word_block_bits word_bits_def last_map)
  then have "Last (word_block w) = bit_level (bit w 15)" using Last_bits [OF word_block_wf, of w] n by simp
  moreover have "word_edges 0 (ucast (bit_level (bit w 0))) (w # ws) = el_At (word_block w) @ word_edges 16 (ucast (bit_level (bit w 15))) ws"
    unfolding word_edges.simps word_edge_bits [OF w] top_bit [OF w] by (simp add: word_block_def block_def map_idI del: upt.simps)
  ultimately show ?thesis unfolding n by (simp add: word_block_def block_def del: upt.simps word_edges.simps)
qed

lemma first_bit: "bit_level (bit (line_word raw off 0) 0) = raw ! off AND 1"
proof -
  have "bit (line_word raw off 0) 0 = bit (raw ! off) 0" unfolding line_word_def bit_or_iff bit_push_bit_iff bit_unsigned_iff by simp
  then show ?thesis by (simp add: bit_level_def bit_0 and_one_eq mod_2_eq_odd)
qed

lemma AppendWords_bits:
  assumes "wf_line l"
  shows "wf_line (AppendWords raw ch l) \<and> bits_of (AppendWords raw ch l) = bits_of l @ stream_bits raw ch"
proof (cases "length raw div 4 = 0")
  case False
  let ?ws = "map (line_word raw (line_offset ch)) [0..<length raw div 4]"
  have c: "stream_bits raw ch = concat (map word_bits ?ws)" by (simp add: stream_bits_def comp_def)
  have w16: "\<forall>w\<in>set ?ws. word16 w" by (simp add: line_word_16)
  show ?thesis
  proof (cases "el_N l = 0")
    case True
    have "[0..<length raw div 4] = 0 # [1..<length raw div 4]" using False by (simp add: upt_conv_Cons)
    then obtain ws where ws: "?ws = line_word raw (line_offset ch) 0 # ws" by simp
    let ?w = "line_word raw (line_offset ch) 0"
    have len: "length raw div 4 = Suc (length ws)" using arg_cong [OF ws, of length] by simp
    have "AppendWords raw ch l = \<lparr>el_N = 16 * length (?w # ws), el_First = bit_level (bit ?w 0), el_At = word_edges 0 (ucast (bit_level (bit ?w 0))) (?w # ws)\<rparr>"
      using False True ws len first_bit [of raw "line_offset ch"]
      by (cases l) (simp add: AppendWords_def Let_def parity_def del: word_edges.simps)
    then show ?thesis using words_bits [OF word_block_wf, of ?w ws] w16 True words_fresh [of ?w ws]
      unfolding c ws by (simp add: word_block_def block_def bits_of_def [of l] flip: word_block_bits)
  next
    case n: False
    have "Last l = el_First l XOR parity (length (el_At l))" using n by (simp add: Last_def)
    then have "AppendWords raw ch l = l\<lparr>el_N := el_N l + 16 * length ?ws, el_At := el_At l @ word_edges (el_N l) (ucast (Last l)) ?ws\<rparr>"
      using False n by (simp add: AppendWords_def Let_def)
    then show ?thesis using words_bits [OF assms n w16] by (simp only: c)
  qed
qed (use assms in \<open>simp add: AppendWords_def stream_bits_def Let_def\<close>)


section \<open>The refinement\<close>

text \<open>
  An edge line is its samples: each operation, the words' bit tricks and the binary searches included, keeps the
  line well-formed and does to the samples what its name says on a list; the samples and their count are
  read off the edges exactly.
\<close>

theorem edge_line_refines:
  assumes "wf_line l" and "wf_line src"
  shows "bits_of (AppendLevel lvl n l) = bits_of l @ replicate (nat n) (odd lvl)
    \<and> bits_of (AppendWords raw ch l) = bits_of l @ stream_bits raw ch
    \<and> bits_of (AppendRange src i j l) = bits_of l @ drop (nat i) (take (nat j) (bits_of src))
    \<and> bits_of (Drop n l) = drop (nat n) (bits_of l)
    \<and> wf_line (AppendLevel lvl n l) \<and> wf_line (AppendWords raw ch l) \<and> wf_line (AppendRange src i j l) \<and> wf_line (Drop n l)
    \<and> Samples l = map (\<lambda>b. if b then 255 else 0) (bits_of l) \<and> ones l = length (filter (\<lambda>b. b) (bits_of l))"
  by (intro conjI) (simp_all add: assms AppendLevel_bits AppendWords_bits AppendRange_bits Drop_bits Samples_bits ones_bits)

lemma edge_line_refines_witness:
  "Samples \<lparr>el_N = 5, el_First = 1, el_At = [2, 3]\<rparr> = [255, 255, 0, 255, 255] \<and> ones \<lparr>el_N = 5, el_First = 1, el_At = [2, 3]\<rparr> = 4
    \<and> bits_of (Drop 2 \<lparr>el_N = 5, el_First = 1, el_At = [2, 3]\<rparr>) = [False, True, True]"
proof -
  have "wf_line \<lparr>el_N = 5, el_First = 1, el_At = [2, 3]\<rparr>" by (simp add: wf_line_def)
  from edge_line_refines [OF this this, of 0 2] show ?thesis
    by (simp add: bits_of_def level_def cnt_def upt_rec)
qed

end
