(* ===== verification/StreamEdges.thy ===== *)
theory StreamEdges
  imports StreamFrames EdgeSamples
begin

text \<open>
  A stream held as edges is decoded as its samples are: the simulation of a decoder over edge lines by one over
  samples, operation by operation, and the properties of streams.
\<close>

section \<open>The samples' decoder of an edge decoder\<close>

definition sampled :: "sample_decode \<Rightarrow> decoder \<Rightarrow> decoder" where
  "sampled dec d = d\<lparr>sd_decode := dec, sd_edec := (\<lambda>_ _. []), sd_edges := False, sd_a := Samples (sd_ea d), sd_b := Samples (sd_eb d),
     sd_ea := no_line, sd_eb := no_line\<rparr>"

text \<open>The edge decoder reads its lines as the decoder of samples reads theirs.\<close>

definition reads_samples :: "edge_decode \<Rightarrow> sample_decode \<Rightarrow> bool" where
  "reads_samples edec dec \<longleftrightarrow> (\<forall>l. wf_line l \<longrightarrow> edec l None = dec (Samples l) None) \<and>
     (\<forall>l m. wf_line l \<longrightarrow> wf_line m \<longrightarrow> edec l (Some m) = dec (Samples l) (Some (Samples m)))"

definition edge_stream :: "sample_decode \<Rightarrow> decoder \<Rightarrow> bool" where
  "edge_stream dec d \<longleftrightarrow> sd_edges d \<and> wf_line (sd_ea d) \<and> wf_line (sd_eb d) \<and> reads_samples (sd_edec d) dec"

lemma length_Samples: "wf_line l \<Longrightarrow> length (Samples l) = el_N l"
  by (simp add: Samples_bits)

lemma sampled_fields [simp]:
  "sd_closeN (sampled dec d) = sd_closeN d" "sd_maxN (sampled dec d) = sd_maxN d" "sd_base (sampled dec d) = sd_base d"
  "sd_done (sampled dec d) = sd_done d" "sd_subframes (sampled dec d) = sd_subframes d" "sd_leadN (sampled dec d) = sd_leadN d"
  "sd_atStart (sampled dec d) = sd_atStart d" "sd_startAt (sampled dec d) = sd_startAt d"
  by (simp_all add: sampled_def)

lemma sampled_update [simp]:
  "sampled dec (d\<lparr>sd_atStart := b\<rparr>) = (sampled dec d)\<lparr>sd_atStart := b\<rparr>" "sampled dec (d\<lparr>sd_done := n\<rparr>) = (sampled dec d)\<lparr>sd_done := n\<rparr>"
  "sampled dec (d\<lparr>sd_base := n\<rparr>) = (sampled dec d)\<lparr>sd_base := n\<rparr>"
  by (simp_all add: sampled_def)

lemma edge_stream_update [simp]:
  "edge_stream dec (d\<lparr>sd_atStart := b\<rparr>) = edge_stream dec d" "edge_stream dec (d\<lparr>sd_done := n\<rparr>) = edge_stream dec d"
  by (simp_all add: edge_stream_def)

lemma sampled_Held: "edge_stream dec d \<Longrightarrow> Held (sampled dec d) = Held d"
  by (simp add: edge_stream_def Held_def sampled_def length_Samples)

lemma sampled_spans: "edge_stream dec d \<Longrightarrow> ordered_spans (sampled dec d) = ordered_spans d"
proof -
  assume e: "edge_stream dec d"
  then have "window_spans (sampled dec d) = window_spans d"
    using sampled_Held [OF e] by (auto simp: window_spans_def edge_stream_def reads_samples_def length_Samples) (simp_all add: sampled_def length_Samples)
  then show ?thesis by (simp add: ordered_spans_def new_spans_def sampled_Held [OF e])
qed

lemma sampled_start [simp]: "isFrameStart (sampled dec d) s = isFrameStart d s"
  by (simp add: isFrameStart_def)

lemma sampled_groups [simp]: "span_groups (sampled dec d) sp = span_groups d sp"
proof -
  have "group_step (sampled dec d) = group_step d" by (simp add: group_step_def fun_eq_iff)
  then show ?thesis by (simp add: span_groups_def)
qed

section \<open>One run\<close>

definition lift :: "sample_decode \<Rightarrow> decoder \<times> 'a \<Rightarrow> decoder \<times> 'a" where
  "lift dec = (\<lambda>(d, x). (sampled dec d, x))"

lemma lift_simps [simp]: "lift dec (d, x) = (sampled dec d, x)" "fst (lift dec st) = sampled dec (fst st)"
  by (simp_all add: lift_def split_beta)

lemma lift_take: "take_group sp g (lift dec st) = lift dec (take_group sp g st)"
  by (cases st) (simp add: take_group_def keepFirst_def)

lemma lift_whole: "take_whole n sp gs (lift dec st) = (fst (take_whole n sp gs st), lift dec (snd (take_whole n sp gs st)))"
  by (induction gs arbitrary: st) (simp_all add: lift_take)

lemma lift_settled: "take_settled n sp (gs, lift dec st) = (fst (take_settled n sp (gs, st)), lift dec (snd (take_settled n sp (gs, st))))"
  by (cases gs) (simp_all add: take_settled_def Let_def lift_take)

lemma edge_take: "edge_stream dec (fst st) \<Longrightarrow> edge_stream dec (fst (take_group sp g st))"
  using take_group_conf [of sp g st] by auto

lemma edge_whole: "edge_stream dec (fst st) \<Longrightarrow> edge_stream dec (fst (snd (take_whole n sp gs st)))"
proof (induction gs arbitrary: st)
  case (Cons g gs)
  then show ?case using edge_take [of dec st sp g] Cons.IH [of "take_group sp g st"] by simp
qed simp

lemma edge_settled: "edge_stream dec (fst st) \<Longrightarrow> edge_stream dec (fst (snd (take_settled n sp (gs, st))))"
  by (cases gs) (simp_all add: take_settled_def Let_def edge_take)

lemma Drop_Samples: "wf_line l \<Longrightarrow> Samples (Drop (int c) l) = drop c (Samples l) \<and> wf_line (Drop (int c) l)"
  using Drop_bits [of l "int c"] by (simp add: Samples_bits drop_map)

lemma sampled_drop:
  assumes "edge_stream dec d"
  shows "sampled dec (drop_window c n d) = drop_window c n (sampled dec d) \<and> edge_stream dec (drop_window c n d)"
proof
  have e: "sd_edges d" "wf_line (sd_ea d)" "wf_line (sd_eb d)" "reads_samples (sd_edec d) dec" using assms by (simp_all add: edge_stream_def)
  have D: "wf_line (Drop (int c) (sd_ea d))" "wf_line (Drop (int c) (sd_eb d))"
    "Samples (Drop (int c) (sd_ea d)) = drop c (Samples (sd_ea d))" "Samples (Drop (int c) (sd_eb d)) = drop c (Samples (sd_eb d))"
    using Drop_Samples e(2,3) by simp_all
  show "sampled dec (drop_window c n d) = drop_window c n (sampled dec d)"
    by (rule decoder.equality) (simp_all add: drop_window_def sampled_def e D length_Samples if_distrib [of Samples])
  show "edge_stream dec (drop_window c n d)" by (simp add: edge_stream_def drop_window_def e D)
qed

lemma cut_of_sampled: "cut_of n lst gs (sampled dec d) = cut_of n lst gs d"
  by (simp add: cut_of_def split: option.split)

lemma finish_sampled:
  assumes "edge_stream dec d"
  shows "finish_run n (gs, sampled dec d, out, lst) = (fst (finish_run n (gs, d, out, lst)), sampled dec (snd (finish_run n (gs, d, out, lst))))
    \<and> edge_stream dec (snd (finish_run n (gs, d, out, lst)))"
proof -
  have "drop_window c n ((sampled dec d)\<lparr>sd_done := x\<rparr>) = sampled dec (drop_window c n (d\<lparr>sd_done := x\<rparr>)) \<and> edge_stream dec (drop_window c n (d\<lparr>sd_done := x\<rparr>))"
    "drop_window c n (sampled dec d) = sampled dec (drop_window c n d) \<and> edge_stream dec (drop_window c n d)" for c n x
    using sampled_drop [of dec "d\<lparr>sd_done := x\<rparr>" c n] sampled_drop [OF assms, of c n] assms by simp_all
  then show ?thesis using assms by (simp add: finish_run_def Let_def cut_of_sampled)
qed

lemma run_sampled:
  assumes "edge_stream dec d"
  shows "run (sampled dec d) = (fst (run d), sampled dec (snd (run d))) \<and> edge_stream dec (snd (run d))"
proof (cases "Held d = 0")
  case False
  let ?sp = "ordered_spans d" and ?n = "int (Held d)"
  let ?w = "take_whole ?n ?sp (span_groups d ?sp) (d, [], -1)"
  let ?r = "take_settled ?n ?sp (fst ?w, snd ?w)"
  have e: "edge_stream dec (fst (snd ?r))" using assms by (intro edge_settled edge_whole) simp
  have r: "run d = finish_run ?n (fst ?r, fst (snd ?r), fst (snd (snd ?r)), snd (snd (snd ?r)))" using False by (simp add: run_def Let_def)
  have "take_whole ?n ?sp (span_groups d ?sp) (sampled dec d, [], -1) = (fst ?w, lift dec (snd ?w))"
    using lift_whole [of ?n ?sp "span_groups d ?sp" dec "(d, [], -1)"] by simp
  then have "run (sampled dec d) = finish_run ?n (fst ?r, lift dec (snd ?r))"
    using False assms by (simp add: run_def Let_def sampled_Held sampled_spans lift_settled)
  also have "\<dots> = finish_run ?n (fst ?r, sampled dec (fst (snd ?r)), fst (snd (snd ?r)), snd (snd (snd ?r)))"
    by (simp add: lift_def split_beta)
  finally show ?thesis unfolding r by (simp only: finish_sampled [OF e, of ?n "fst ?r" "fst (snd (snd ?r))" "snd (snd (snd ?r))"])
qed (use assms sampled_Held in \<open>simp add: run_def\<close>)


section \<open>A session\<close>

fun edge_op :: "stream_op \<Rightarrow> bool" where
  "edge_op (PushOp a b) = False"
| "edge_op (EdgesOp a b i j) \<longleftrightarrow> wf_line a \<and> (\<forall>l. b = Some l \<longrightarrow> wf_line l)"
| "edge_op _ = True"

fun sampled_op :: "stream_op \<Rightarrow> stream_op" where
  "sampled_op (EdgesOp a b i j) = PushOp (drop (nat i) (take (nat j) (Samples a))) (map_option (\<lambda>l. drop (nat i) (take (nat j) (Samples l))) b)"
| "sampled_op x = x"

lemma AppendRange_Samples:
  "wf_line src \<Longrightarrow> wf_line l \<Longrightarrow> Samples (AppendRange src i j l) = Samples l @ drop (nat i) (take (nat j) (Samples src)) \<and> wf_line (AppendRange src i j l)"
  using AppendRange_bits [of src l i j] by (simp add: Samples_bits take_map drop_map)

lemma push_sampled:
  assumes "edge_stream dec d" and "wf_line a" and "\<And>l. b = Some l \<Longrightarrow> wf_line l"
  shows "stream_step (sampled_op (EdgesOp a b i j)) (sampled dec d) =
      (fst (stream_step (EdgesOp a b i j) d), sampled dec (snd (stream_step (EdgesOp a b i j) d))) \<and> edge_stream dec (snd (stream_step (EdgesOp a b i j) d))"
proof -
  let ?d = "d\<lparr>sd_ea := AppendRange a i j (sd_ea d), sd_eb := (case b of None \<Rightarrow> sd_eb d | Some b \<Rightarrow> AppendRange b i j (sd_eb d))\<rparr>"
  have a: "Samples (AppendRange a i j (sd_ea d)) = Samples (sd_ea d) @ drop (nat i) (take (nat j) (Samples a))" "wf_line (AppendRange a i j (sd_ea d))"
    using AppendRange_Samples [of a "sd_ea d"] assms by (simp_all add: edge_stream_def)
  have b: "Samples (AppendRange l i j (sd_eb d)) = Samples (sd_eb d) @ drop (nat i) (take (nat j) (Samples l))" "wf_line (AppendRange l i j (sd_eb d))"
    if "b = Some l" for l using AppendRange_Samples [of l "sd_eb d"] assms that by (simp_all add: edge_stream_def)
  have "edge_stream dec ?d" using assms a b by (simp add: edge_stream_def split: option.split)
  moreover have "(sampled dec d)\<lparr>sd_a := sd_a (sampled dec d) @ drop (nat i) (take (nat j) (Samples a)),
      sd_b := (case map_option (\<lambda>l. drop (nat i) (take (nat j) (Samples l))) b of None \<Rightarrow> sd_b (sampled dec d) | Some b \<Rightarrow> sd_b (sampled dec d) @ b)\<rparr> = sampled dec ?d"
    using a b by (simp add: sampled_def split: option.split)
  ultimately show ?thesis using run_sampled [of dec ?d] by (simp add: Push_def PushEdges_def)
qed

lemma Skip_sampled: "edge_stream dec d \<Longrightarrow> Skip n (sampled dec d) = sampled dec (Skip n d) \<and> edge_stream dec (Skip n d)"
  by (simp add: Skip_def Let_def sampled_Held) (simp add: sampled_def edge_stream_def Samples_bits Reset_def no_line_def wf_line_def bits_of_def)

lemma stream_step_sampled:
  assumes "edge_stream dec d" and "edge_op x"
  shows "stream_step (sampled_op x) (sampled dec d) = (fst (stream_step x d), sampled dec (snd (stream_step x d))) \<and> edge_stream dec (snd (stream_step x d))"
proof (cases x)
  case (EdgesOp a b i j)
  then show ?thesis using push_sampled [of dec d a b i j] assms by simp
next
  case FlushOp
  then show ?thesis using run_sampled [OF assms(1)] Skip_sampled [of dec "snd (run d)" 0] by (simp add: Flush_def split_beta)
next
  case (CutOp n)
  then show ?thesis using assms by (simp add: CutStart_def sampled_def edge_stream_def)
qed (use assms Skip_sampled in auto)

lemma stream_session_sampled:
  assumes "edge_stream dec d" and "\<forall>x\<in>set xs. edge_op x"
  shows "fst (stream_session (map sampled_op xs) (sampled dec d)) = fst (stream_session xs d)"
  using assms
proof (induction xs arbitrary: d)
  case (Cons x xs)
  then show ?case using stream_step_sampled [of dec d x] by (simp add: split_beta)
qed simp

section \<open>Properties\<close>

text \<open>A new decoder with its settings.\<close>

definition set_up :: "int \<Rightarrow> bool \<Rightarrow> decoder \<Rightarrow> decoder" where
  "set_up lead subframes d = SetLead lead (SetSubframes subframes d)"

text \<open>
  C31: A stream held as edges hands out the frames its samples would: for a protocol decoder that reads lines of edges
  as it reads their samples, any session of pushes, skips, cuts and flushes over edge lines gives, operation by
  operation, exactly the frames of the same session over the samples.
\<close>

theorem edge_stream_is_sample_stream:
  assumes "reads_samples edec dec" and "\<forall>x\<in>set xs. edge_op x"
  shows "fst (stream_session xs (set_up lead sub (NewEdgeStreamDecoder edec closeN maxN))) =
    fst (stream_session (map sampled_op xs) (set_up lead sub (NewStreamDecoder dec closeN maxN)))"
proof -
  let ?d = "set_up lead sub (NewEdgeStreamDecoder edec closeN maxN)"
  have "edge_stream dec ?d" using assms(1)
    by (simp add: edge_stream_def set_up_def SetLead_def SetSubframes_def NewEdgeStreamDecoder_def NewStreamDecoder_def Let_def no_line_def wf_line_def)
  moreover have "sampled dec ?d = set_up lead sub (NewStreamDecoder dec closeN maxN)"
    by (simp add: sampled_def set_up_def SetLead_def SetSubframes_def NewEdgeStreamDecoder_def NewStreamDecoder_def Let_def Samples_def no_line_def)
  ultimately show ?thesis using stream_session_sampled [OF _ assms(2)] by metis
qed

text \<open>
  Whatever the protocol decoder reports of its windows, however the pushes cut the stream and wherever it is
  skipped or flushed, no span is handed out twice or out of order: each operation's spans start in order, and
  all of them after every span handed out before.
\<close>

theorem no_span_twice:
  assumes "stream_session xs d = (outs, d')"
  shows "sorted_wrt (\<lambda>f g. \<forall>y\<in>set (starts f). \<forall>z\<in>set (starts g). y < z) outs \<and> (\<forall>out\<in>set outs. sorted (starts out))"
  using stream_session_starts [OF assms] by simp

text \<open>
  C32: The window a stream decoder holds after any session is at most twice Max and the lead, even when the protocol
  decoder never lets a frame close.
\<close>

theorem stream_window_bounded:
  "int (Held (snd (stream_session xs (set_up lead sub (NewStreamDecoder dec closeN maxN))))) \<le> 2 * max maxN (4 * max closeN 2) + max lead 0"
proof -
  have "within (2 * max maxN (4 * max closeN 2) + max lead 0) (set_up lead sub (NewStreamDecoder dec closeN maxN))"
    by (auto simp: within_def set_up_def SetLead_def SetSubframes_def NewStreamDecoder_def Let_def sized_def window_limit_def Held_def)
  from stream_session_within [OF this, of xs] show ?thesis by (simp add: within_def)
qed


text \<open>A decoder that takes every rise of the first line for a one-sample frame.\<close>

definition rises :: "byte list \<Rightarrow> int list" where
  "rises a = map int (filter (\<lambda>i. 0 < i \<and> a ! i \<noteq> 0 \<and> a ! (i - 1) = 0) [0..<length a])"

definition rise_decode :: sample_decode where
  "rise_decode a b = map (\<lambda>i. \<lparr>sp_I0 = i, sp_I1 = i, sp_Text = [], sp_Kind = ''sof'', sp_Val = 0\<rparr>) (rises a)"

definition rise_edges :: edge_decode where
  "rise_edges l m = rise_decode (Samples l) (map_option Samples m)"

definition pulses :: edge_line where
  "pulses = \<lparr>el_N = 12, el_First = 0, el_At = [2, 3, 6, 7]\<rparr>"

definition pulse_session :: "stream_op list" where
  "pulse_session = [EdgesOp pulses None 0 5, EdgesOp pulses None 5 12, FlushOp]"

lemma edge_stream_is_sample_stream_witness:
  "map starts (fst (stream_session pulse_session (set_up 0 False (NewEdgeStreamDecoder rise_edges 2 8)))) = [[], [2, 6], []]
    \<and> fst (stream_session pulse_session (set_up 0 False (NewEdgeStreamDecoder rise_edges 2 8)))
      = fst (stream_session (map sampled_op pulse_session) (set_up 0 False (NewStreamDecoder rise_decode 2 8)))"
proof
  show "map starts (fst (stream_session pulse_session (set_up 0 False (NewEdgeStreamDecoder rise_edges 2 8)))) = [[], [2, 6], []]" by code_simp
  have "reads_samples rise_edges rise_decode" by (simp add: reads_samples_def rise_edges_def)
  moreover have "\<forall>x\<in>set pulse_session. edge_op x" by (simp add: pulse_session_def pulses_def wf_line_def)
  ultimately show "fst (stream_session pulse_session (set_up 0 False (NewEdgeStreamDecoder rise_edges 2 8)))
      = fst (stream_session (map sampled_op pulse_session) (set_up 0 False (NewStreamDecoder rise_decode 2 8)))"
    by (rule edge_stream_is_sample_stream)
qed

definition pulse_samples :: "stream_op list" where
  "pulse_samples = [PushOp [0, 0, 255, 0, 0, 0] None, PushOp [255, 0, 0, 0, 255] None, SkipOp 3, PushOp [0, 255, 0, 0, 0] None]"

lemma no_span_twice_witness:
  "\<exists>outs d'. stream_session pulse_samples (NewStreamDecoder rise_decode 2 8) = (outs, d') \<and> map starts outs = [[2], [6], [], [15]]
    \<and> sorted_wrt (\<lambda>f g. \<forall>y\<in>set (starts f). \<forall>z\<in>set (starts g). y < z) outs"
proof -
  obtain outs d' where s: "stream_session pulse_samples (NewStreamDecoder rise_decode 2 8) = (outs, d')" by (rule prod.exhaust)
  have "map starts (fst (stream_session pulse_samples (NewStreamDecoder rise_decode 2 8))) = [[2], [6], [], [15]]" by code_simp
  then show ?thesis using s no_span_twice [OF s] by auto
qed

end
