(* ===== verification/SerialMatch.thy ===== *)
theory SerialMatch
  imports StreamDecoder
begin

text \<open>
  The software matcher of the serial trigger (\<open>app/internal/engine/serial_sequence.go\<close>): the request as pattern
  elements, and the sequence matcher over decoded spans.

  The software matcher keeps, for every prefix of the pattern, where the partial match began. What it is meant to
  find is stated without that array: the spans are read as tokens, and a match is a run of consecutive tokens that
  fit the elements one by one. Go's \<open>int\<close> values of spans and patterns are integers; nothing here adds them.
\<close>

section \<open>The request\<close>

record pattern_elem =
  pe_Kind :: int
  pe_Value :: int
  pe_Mask :: int

text \<open>The fields of \<open>SerialParams\<close> the matchers read.\<close>

record serial_params =
  pr_Proto :: int
  pr_Bits :: int
  pr_Addr :: int
  pr_RW :: int
  pr_Bytes :: "int list"
  pr_Pattern :: "pattern_elem list"

definition patternStart :: int where "patternStart = 1"
definition patternData :: int where "patternData = 2"
definition patternError :: int where "patternError = 4"

lemmas pattern_kinds = patternStart_def patternData_def patternError_def

definition serI2C :: int where "serI2C = 2"
definition serManchester :: int where "serManchester = 4"
definition serMIL1553 :: int where "serMIL1553 = 7"
definition serARINC :: int where "serARINC = 8"
definition serLIN :: int where "serLIN = 11"
definition serMIDI :: int where "serMIDI = 13"

lemmas proto_ids = serI2C_def serManchester_def serMIL1553_def serARINC_def serLIN_def serMIDI_def

definition MILCommand :: int where "MILCommand = 65536"

definition unitFlags :: "serial_params \<Rightarrow> int" where
  "unitFlags p = (if pr_Proto p = serMIL1553 then MILCommand else 0)"

text \<open>CAN is 6, FlexRay 10.\<close>

definition nativeLimit :: "int \<Rightarrow> nat" where
  "nativeLimit proto = (if proto = serMIL1553 \<or> proto = serARINC then 1 else if proto = 6 \<or> proto = 10 then 8 else 4)"

definition sequenceNeeded :: "serial_params \<Rightarrow> bool" where
  "sequenceNeeded p \<longleftrightarrow> length (pr_Pattern p) \<noteq> 0 \<or> length (pr_Bytes p) > nativeLimit (pr_Proto p)"

text \<open>SENT 5, MDIO 29, Wiegand 30, IRMP 52, quadrature 31, stepper 32, OOK 35, cJTAG 49, S/PDIF 26, SWD 28.\<close>

definition unitMask :: "serial_params \<Rightarrow> int" where
  "unitMask p = (let pr = pr_Proto p in
     if pr = serMIL1553 then 0xffff
     else if pr = serARINC then 0x7ffff
     else if pr = 5 then 0xf
     else if pr = 29 \<or> pr = 30 \<or> pr = 52 then 0xffff
     else if pr = 31 \<or> pr = 32 then 1
     else if pr = 35 then 0xf
     else if pr = 49 then 0x7fffffff
     else if pr = 26 then 0xffffff
     else if pr = 28 then 0x7fffffff
     else if pr = serManchester then
       (let bits = (if pr_Bits p \<le> 0 \<or> pr_Bits p > 16 then 8 else pr_Bits p) in 2 ^ nat bits - 1)
     else 0xff)"

definition patternOf :: "serial_params \<Rightarrow> pattern_elem list" where
  "patternOf p = (if length (pr_Pattern p) \<noteq> 0 then pr_Pattern p
     else map (\<lambda>b. \<lparr>pe_Kind = patternData, pe_Value = b, pe_Mask = unitMask p\<rparr>) (pr_Bytes p))"

text \<open>USB is 9.\<close>

definition framedProtocol :: "int \<Rightarrow> bool" where
  "framedProtocol proto \<longleftrightarrow>
     proto = 6 \<or> proto = 10 \<or> proto = 9 \<or> proto = 5 \<or> proto = serManchester \<or> proto = serARINC
     \<or> (proto \<ge> serLIN \<and> proto \<noteq> serMIDI)"

definition data_only :: "pattern_elem list \<Rightarrow> bool" where
  "data_only elems \<longleftrightarrow> list_all (\<lambda>e. pe_Kind e = patternData) elems"

section \<open>The software matcher\<close>

text \<open>The direction text is empty for another \<open>RW\<close>.\<close>

definition i2cSelected :: "dspan list \<Rightarrow> nat \<Rightarrow> serial_params \<Rightarrow> bool option" where
  "i2cSelected sp i p =
    (if i < length sp then
       (let rw = (if pr_RW p = 0 then ''W'' else if pr_RW p = 1 then ''R'' else '''') in
        Some ((pr_Addr p < 0 \<or> sp_Val (sp ! i) = pr_Addr p)
          \<and> (pr_RW p = 2 \<or> (i + 1 < length sp \<and> sp_Kind (sp ! (i + 1)) = ''rw'' \<and> sp_Text (sp ! (i + 1)) = rw))))
     else None)"

record seq_match =
  sm_state :: "int list"
  sm_selected :: bool
  sm_command :: int
  sm_bad :: bool
  sm_hit :: int

definition sm_reset :: "seq_match \<Rightarrow> seq_match" where
  "sm_reset m = m\<lparr>sm_state := map (\<lambda>_. -1) (sm_state m)\<rparr>"

text \<open>\<open>finish\<close>: the hit of a packet that ended, if it had no error.\<close>

definition sm_finish :: "seq_match \<Rightarrow> (bool \<times> int) \<times> seq_match" where
  "sm_finish m = (if sm_hit m \<ge> 0 \<and> \<not> sm_bad m then ((True, sm_hit m), m)
     else ((False, -1), m\<lparr>sm_bad := False, sm_hit := -1\<rparr>))"

definition elem_ok :: "pattern_elem \<Rightarrow> int \<Rightarrow> int \<Rightarrow> bool" where
  "elem_ok e kind v \<longleftrightarrow> pe_Kind e = kind \<and> (kind \<noteq> patternData \<or> (v XOR pe_Value e) AND pe_Mask e = 0)"

text \<open>The descending loop over the partial matches, in place.\<close>

fun sm_advance :: "pattern_elem list \<Rightarrow> int \<Rightarrow> int \<Rightarrow> int \<Rightarrow> nat \<Rightarrow> int list \<Rightarrow> int list" where
  "sm_advance elems kind v i 0 st = st"
| "sm_advance elems kind v i (Suc k) st =
    (let start = (if k > 0 then st ! (k - 1) else i) in
     sm_advance elems kind v i k
       (st[k := (if elem_ok (elems ! k) kind v \<and> start \<ge> 0 then start else -1)]))"

definition is_bound :: "string \<Rightarrow> bool" where
  "is_bound k \<longleftrightarrow> k = ''gap'' \<or> k = ''start'' \<or> k = ''stop'' \<or> k = ''sof'' \<or> k = ''sync''"

definition is_error :: "string \<Rightarrow> bool" where
  "is_error k \<longleftrightarrow> k = ''frame-error'' \<or> k = ''parity-error''"

definition span_I0 :: "dspan list \<Rightarrow> int \<Rightarrow> int option" where
  "span_I0 sp i = (if 0 \<le> i \<and> nat i < length sp then Some (sp_I0 (sp ! nat i)) else None)"

text \<open>One event at span \<open>i\<close>: \<^term>\<open>Inl\<close> returns.\<close>

definition sm_event :: "dspan list \<Rightarrow> pattern_elem list \<Rightarrow> bool \<Rightarrow> nat \<Rightarrow> int \<Rightarrow> seq_match \<Rightarrow> ((bool \<times> int) + seq_match) option" where
  "sm_event sp elems qualify i kind m =
    (if kind = patternData \<and> \<not> sm_selected m then Some (Inr (sm_reset m))
     else (let m' = m\<lparr>sm_state := sm_advance elems kind (sp_Val (sp ! i) OR sm_command m) (int i) (length elems) (sm_state m)\<rparr>;
               at_i = sm_state m' ! (length elems - 1) in
       if at_i \<ge> 0 then
         (if \<not> qualify then map_option (\<lambda>x. Inl (True, x)) (span_I0 sp at_i)
          else if sm_hit m' < 0 then map_option (\<lambda>x. Inr (m'\<lparr>sm_hit := x\<rparr>)) (span_I0 sp at_i)
          else Some (Inr m'))
       else Some (Inr m')))"

definition sm_span :: "dspan list \<Rightarrow> pattern_elem list \<Rightarrow> bool \<Rightarrow> serial_params \<Rightarrow> nat \<Rightarrow> seq_match \<Rightarrow> ((bool \<times> int) + seq_match) option" where
  "sm_span sp elems qualify p i m =
    (let s = sp ! i; k = sp_Kind s in
     if k = ''data'' then sm_event sp elems qualify i patternData m
     else if is_error k then sm_event sp elems qualify i patternError (m\<lparr>sm_bad := True\<rparr>)
     else if is_bound k then
       (let m1 = sm_reset m; f = (if qualify then sm_finish m1 else ((False, -1), m1)) in
        if fst (fst f) then Some (Inl (fst f))
        else (let m2 = (if pr_Proto p = serI2C \<and> k = ''stop'' then (snd f)\<lparr>sm_selected := False\<rparr> else snd f);
                  m3 = (if pr_Proto p = serMIL1553
                        then m2\<lparr>sm_command := (if sp_Text s = ''csync'' then MILCommand else 0)\<rparr> else m2) in
          if k = ''gap'' \<or> k = ''stop'' then Some (Inr m3)
          else sm_event sp elems qualify i patternStart m3))
     else if k = ''addr'' then
       (if pr_Proto p \<noteq> serI2C then Some (Inr m)
        else map_option (\<lambda>sel. Inr ((sm_reset m)\<lparr>sm_selected := sel\<rparr>)) (i2cSelected sp i p))
     else Some (Inr m))"

text \<open>The loop over the spans from \<open>i\<close> on.\<close>

function sm_loop :: "dspan list \<Rightarrow> pattern_elem list \<Rightarrow> bool \<Rightarrow> serial_params \<Rightarrow> nat \<Rightarrow> seq_match \<Rightarrow> ((bool \<times> int) + seq_match) option" where
  "sm_loop sp elems qualify p i m =
    (if i < length sp then
       (case sm_span sp elems qualify p i m of
          None \<Rightarrow> None
        | Some (Inl r) \<Rightarrow> Some (Inl r)
        | Some (Inr m') \<Rightarrow> sm_loop sp elems qualify p (Suc i) m')
     else Some (Inr m))"
  by pat_completeness auto
termination by (relation "measure (\<lambda>(sp, _, _, _, i, _). length sp - i)") auto

declare sm_loop.simps [simp del]

definition matchSequence :: "dspan list \<Rightarrow> serial_params \<Rightarrow> (bool \<times> int) option" where
  "matchSequence sp p = (let elems = patternOf p in
     if length elems = 0 then Some (False, -1)
     else (let qualify = (data_only elems \<and> framedProtocol (pr_Proto p));
               m0 = \<lparr>sm_state = replicate (length elems) (-1), sm_selected = (pr_Proto p \<noteq> serI2C),
                     sm_command = 0, sm_bad = False, sm_hit = -1\<rparr> in
       case sm_loop sp elems qualify p 0 m0 of
         None \<Rightarrow> None
       | Some (Inl r) \<Rightarrow> Some r
       | Some (Inr m) \<Rightarrow> Some (if qualify then fst (sm_finish m) else (False, -1))))"

section \<open>What a match is\<close>

text \<open>
  The spans as tokens: an event of a kind with its value and its span, or a break in contiguity. A data unit
  outside a selected I2C transaction is a break.
\<close>

datatype tok = Brk | Tok (tk_kind: int) (tk_val: int) (tk_at: nat)

record tok_state =
  ts_selected :: bool
  ts_command :: int

definition span_toks :: "dspan list \<Rightarrow> serial_params \<Rightarrow> nat \<Rightarrow> tok_state \<Rightarrow> tok list \<times> tok_state" where
  "span_toks sp p i t =
    (let s = sp ! i; k = sp_Kind s; v = sp_Val s in
     if k = ''data'' then ([if ts_selected t then Tok patternData (v OR ts_command t) i else Brk], t)
     else if is_error k then ([Tok patternError (v OR ts_command t) i], t)
     else if is_bound k then
       (let cmd = (if pr_Proto p = serMIL1553 then (if sp_Text s = ''csync'' then MILCommand else 0) else ts_command t) in
        (Brk # (if k = ''gap'' \<or> k = ''stop'' then [] else [Tok patternStart (v OR cmd) i]),
         \<lparr>ts_selected = (ts_selected t \<and> \<not> (pr_Proto p = serI2C \<and> k = ''stop'')), ts_command = cmd\<rparr>))
     else if k = ''addr'' \<and> pr_Proto p = serI2C
       then ([Brk], t\<lparr>ts_selected := (i2cSelected sp i p = Some True)\<rparr>)
     else ([], t))"

function toks_from :: "dspan list \<Rightarrow> serial_params \<Rightarrow> nat \<Rightarrow> tok_state \<Rightarrow> tok list" where
  "toks_from sp p i t = (if i < length sp
     then (case span_toks sp p i t of (ts, t') \<Rightarrow> ts @ toks_from sp p (Suc i) t') else [])"
  by pat_completeness auto
termination by (relation "measure (\<lambda>(sp, _, i, _). length sp - i)") auto

declare toks_from.simps [simp del]

definition toks :: "dspan list \<Rightarrow> serial_params \<Rightarrow> tok list" where
  "toks sp p = toks_from sp p 0 \<lparr>ts_selected = (pr_Proto p \<noteq> serI2C), ts_command = 0\<rparr>"

definition tok_ok :: "pattern_elem \<Rightarrow> tok \<Rightarrow> bool" where
  "tok_ok e t = elem_ok e (tk_kind t) (tk_val t)"

text \<open>The elements fit the tokens that end at position \<open>t\<close>; the span of the first of them.\<close>

definition occ :: "pattern_elem list \<Rightarrow> tok list \<Rightarrow> nat \<Rightarrow> bool" where
  "occ elems ts t \<longleftrightarrow> length elems \<le> t \<and> t \<le> length ts \<and> list_all2 tok_ok elems (drop (t - length elems) (take t ts))"

definition first_occ :: "pattern_elem list \<Rightarrow> tok list \<Rightarrow> nat option" where
  "first_occ elems ts = map_option (\<lambda>t. tk_at (ts ! (t - length elems))) (List.find (occ elems ts) [0..<Suc (length ts)])"

text \<open>Contiguous tokens are the runs between breaks; on a framed protocol a run is a packet, and one with an error does
  not count for a data pattern.\<close>

fun packets :: "tok list \<Rightarrow> tok list list" where
  "packets [] = [[]]"
| "packets (Brk # ts) = [] # packets ts"
| "packets (Tok k v i # ts) = (case packets ts of [] \<Rightarrow> [[Tok k v i]] | pk # pks \<Rightarrow> (Tok k v i # pk) # pks)"

definition pk_clean :: "tok list \<Rightarrow> bool" where
  "pk_clean pk \<longleftrightarrow> list_all (\<lambda>t. tk_kind t \<noteq> patternError) pk"

definition find_match :: "bool \<Rightarrow> pattern_elem list \<Rightarrow> tok list \<Rightarrow> nat option" where
  "find_match qualify elems ts =
     Option.bind (List.find (\<lambda>pk. (\<not> qualify \<or> pk_clean pk) \<and> first_occ elems pk \<noteq> None) (packets ts)) (first_occ elems)"

definition span_answer :: "dspan list \<Rightarrow> nat option \<Rightarrow> bool \<times> int" where
  "span_answer sp r = (case r of None \<Rightarrow> (False, -1) | Some i \<Rightarrow> (True, sp_I0 (sp ! i)))"

definition sequence_spec :: "dspan list \<Rightarrow> serial_params \<Rightarrow> bool \<times> int" where
  "sequence_spec sp p = (let elems = patternOf p in
     if elems = [] then (False, -1)
     else span_answer sp (find_match (data_only elems \<and> framedProtocol (pr_Proto p)) elems (toks sp p)))"

section \<open>Occurrences\<close>

lemma occ_append [simp]: "t \<le> length ts \<Longrightarrow> occ elems (ts @ us) t = occ elems ts t"
  by (simp add: occ_def)

lemma occ_0: "elems \<noteq> [] \<Longrightarrow> \<not> occ elems ts 0"
  by (simp add: occ_def)

lemma occ_snoc:
  assumes "k < length elems"
  shows "occ (take (Suc k) elems) (ts @ [x]) (Suc (length ts)) \<longleftrightarrow> occ (take k elems) ts (length ts) \<and> tok_ok (elems ! k) x"
proof -
  have k: "take (Suc k) elems = take k elems @ [elems ! k]" using assms by (simp add: take_Suc_conv_app_nth)
  show ?thesis
  proof (cases "k \<le> length ts")
    case True
    then have "drop (length ts - k) (ts @ [x]) = drop (length ts - k) ts @ [x]" by simp
    then show ?thesis using True assms by (simp add: occ_def k list_all2_append)
  next
    case False
    then show ?thesis using assms by (simp add: occ_def)
  qed
qed

lemma find_snoc: "List.find P (xs @ [x]) = (case List.find P xs of Some y \<Rightarrow> Some y | None \<Rightarrow> if P x then Some x else None)"
  by (induction xs) auto

lemma find_occ_inside:
  assumes "elems \<noteq> []" "List.find (occ elems ts) [0..<Suc (length ts)] = Some t"
  shows "t - length elems < length ts"
proof -
  have "occ elems ts t" using assms(2) by (auto simp: find_Some_iff simp del: upt_Suc)
  then have "length elems \<le> t" "t \<le> length ts" by (auto simp: occ_def)
  moreover have "length elems > 0" using assms(1) by simp
  ultimately show ?thesis by linarith
qed

lemma first_occ_Nil [simp]: "elems \<noteq> [] \<Longrightarrow> first_occ elems [] = None"
  by (simp add: first_occ_def occ_0)

lemma find_occ_append:
  "List.find (occ elems (ts @ us)) [0..<Suc (length ts)] = List.find (occ elems ts) [0..<Suc (length ts)]"
  by (rule find_cong) auto

lemma first_occ_snoc:
  assumes "elems \<noteq> []"
  shows "first_occ elems (ts @ [x]) =
    (case first_occ elems ts of Some j \<Rightarrow> Some j
     | None \<Rightarrow> if occ elems (ts @ [x]) (Suc (length ts)) then Some (tk_at ((ts @ [x]) ! (Suc (length ts) - length elems))) else None)"
proof -
  have "List.find (occ elems (ts @ [x])) [0..<Suc (length (ts @ [x]))] =
      (case List.find (occ elems ts) [0..<Suc (length ts)] of Some y \<Rightarrow> Some y
       | None \<Rightarrow> if occ elems (ts @ [x]) (Suc (length ts)) then Some (Suc (length ts)) else None)"
    using find_snoc [of "occ elems (ts @ [x])" "[0..<Suc (length ts)]" "Suc (length ts)"] find_occ_append [of elems ts "[x]"] by simp
  then show ?thesis
    using find_occ_inside [OF assms, of ts]
    by (auto simp: first_occ_def nth_append simp del: upt_Suc split: option.splits)
qed

lemma first_occ_extend:
  assumes "elems \<noteq> []" "first_occ elems ts = Some j"
  shows "first_occ elems (ts @ us) = Some j"
proof (induction us rule: rev_induct)
  case Nil
  then show ?case using assms by simp
next
  case (snoc x us)
  then show ?case using first_occ_snoc [of elems "ts @ us" x] assms(1) by simp
qed

lemma first_occ_inside:
  assumes "elems \<noteq> []" "list_all (\<lambda>t. tk_at t < n) ts" "first_occ elems ts = Some j"
  shows "j < n"
proof -
  obtain t where "List.find (occ elems ts) [0..<Suc (length ts)] = Some t" "j = tk_at (ts ! (t - length elems))"
    using assms(3) by (auto simp: first_occ_def simp del: upt_Suc)
  then show ?thesis
    using find_occ_inside [OF assms(1)] assms(2) by (simp add: list_all_length)
qed

section \<open>Runs\<close>

definition brk_free :: "tok list \<Rightarrow> bool" where
  "brk_free ts \<longleftrightarrow> Brk \<notin> set ts"

lemma packets_cons: "packets ts \<noteq> []"
  by (induction ts rule: packets.induct) (auto split: list.splits)

lemma packets_prefix: "brk_free cur \<Longrightarrow> packets (cur @ ts) = (cur @ hd (packets ts)) # tl (packets ts)"
proof (induction cur)
  case Nil
  then show ?case using packets_cons [of ts] by simp
next
  case (Cons x cur)
  then show ?case by (cases x) (auto simp: brk_free_def)
qed

lemma find_match_Brk:
  assumes "brk_free cur"
  shows "find_match q elems (cur @ Brk # ts) =
    (if (\<not> q \<or> pk_clean cur) \<and> first_occ elems cur \<noteq> None then first_occ elems cur else find_match q elems ts)"
  using assms by (simp add: find_match_def packets_prefix)

lemma find_match_end:
  assumes "brk_free cur"
  shows "find_match q elems cur = (if (\<not> q \<or> pk_clean cur) then first_occ elems cur else None)"
  using packets_prefix [OF assms, of "[]"] by (auto simp: find_match_def)

lemma find_match_hit:
  assumes "brk_free cur" "elems \<noteq> []" "first_occ elems cur = Some j"
  shows "find_match False elems (cur @ ts) = Some j"
  using first_occ_extend [OF assms(2,3)] by (simp add: find_match_def packets_prefix [OF assms(1)])

section \<open>The partial matches\<close>

lemma length_sm_advance [simp]: "length (sm_advance elems kind v i n st) = length st"
  by (induction elems kind v i n st rule: sm_advance.induct) (auto simp: Let_def)

lemma sm_advance_nth:
  assumes "n \<le> length st" "j < length st"
  shows "sm_advance elems kind v i n st ! j =
    (if j < n then (let start = (if j > 0 then st ! (j - 1) else i) in
       if elem_ok (elems ! j) kind v \<and> start \<ge> 0 then start else -1) else st ! j)"
  using assms
proof (induction n arbitrary: st)
  case (Suc k)
  then show ?case by (cases "j < k") (auto simp: Let_def nth_list_update less_Suc_eq)
qed simp

definition st_inv :: "pattern_elem list \<Rightarrow> tok list \<Rightarrow> int list \<Rightarrow> bool" where
  "st_inv elems cur st \<longleftrightarrow> length st = length elems \<and>
     (\<forall>k<length elems. st ! k = (if occ (take (Suc k) elems) cur (length cur) then int (tk_at (cur ! (length cur - Suc k))) else -1))"

lemma st_inv_reset: "length st = length elems \<Longrightarrow> st_inv elems [] (map (\<lambda>_. -1) st)"
  by (simp add: st_inv_def occ_def)

lemma st_inv_start: "st_inv elems [] (replicate (length elems) (-1))"
  by (simp add: st_inv_def occ_def)

lemma st_inv_advance:
  assumes "st_inv elems cur st"
  shows "st_inv elems (cur @ [Tok kind v i]) (sm_advance elems kind v (int i) (length elems) st)"
proof -
  have len: "length st = length elems" using assms by (simp add: st_inv_def)
  have "sm_advance elems kind v (int i) (length elems) st ! k =
      (if occ (take (Suc k) elems) (cur @ [Tok kind v i]) (Suc (length cur))
       then int (tk_at ((cur @ [Tok kind v i]) ! (Suc (length cur) - Suc k))) else -1)" if k: "k < length elems" for k
  proof (cases k)
    case 0
    then show ?thesis
      using k len occ_snoc [OF k, of cur "Tok kind v i"] by (simp add: sm_advance_nth tok_ok_def occ_def Let_def)
  next
    case (Suc j)
    have st: "st ! j = (if occ (take (Suc j) elems) cur (length cur) then int (tk_at (cur ! (length cur - Suc j))) else -1)"
      using assms k Suc by (simp add: st_inv_def)
    have le: "occ (take (Suc j) elems) cur (length cur) \<Longrightarrow> Suc j \<le> length cur"
      using k Suc by (simp add: occ_def)
    show ?thesis
      using k len Suc st le occ_snoc [OF k, of cur "Tok kind v i"]
      by (auto simp: sm_advance_nth tok_ok_def Let_def nth_append)
  qed
  then show ?thesis using len by (simp add: st_inv_def)
qed

section \<open>The matcher finds the first match\<close>

definition hit_rel :: "dspan list \<Rightarrow> pattern_elem list \<Rightarrow> bool \<Rightarrow> tok list \<Rightarrow> int \<Rightarrow> bool" where
  "hit_rel sp elems q cur hit \<longleftrightarrow>
     (if q then hit = (case first_occ elems cur of None \<Rightarrow> -1 | Some j \<Rightarrow> sp_I0 (sp ! j)) else first_occ elems cur = None)"

definition run_rel :: "dspan list \<Rightarrow> pattern_elem list \<Rightarrow> bool \<Rightarrow> tok list \<Rightarrow> seq_match \<Rightarrow> bool" where
  "run_rel sp elems q cur m \<longleftrightarrow> brk_free cur \<and> list_all (\<lambda>t. tk_at t < length sp) cur
     \<and> st_inv elems cur (sm_state m) \<and> hit_rel sp elems q cur (sm_hit m)"

definition starts_ok :: "dspan list \<Rightarrow> bool" where
  "starts_ok sp \<longleftrightarrow> list_all (\<lambda>s. 0 \<le> sp_I0 s) sp"

text \<open>One event: the run grows by its token, or the unqualified match is complete.\<close>

lemma sm_event_run:
  assumes rel: "run_rel sp elems q cur m" and el: "elems \<noteq> []" and i: "i < length sp" and ok: "starts_ok sp"
    and sel: "kind = patternData \<longrightarrow> sm_selected m"
  defines "cur' \<equiv> cur @ [Tok kind (sp_Val (sp ! i) OR sm_command m) i]"
  shows "(\<exists>m'. sm_event sp elems q i kind m = Some (Inr m') \<and> run_rel sp elems q cur' m'
            \<and> sm_selected m' = sm_selected m \<and> sm_command m' = sm_command m \<and> sm_bad m' = sm_bad m)
       \<or> (\<not> q \<and> brk_free cur' \<and> (\<exists>j. first_occ elems cur' = Some j \<and> sm_event sp elems q i kind m = Some (Inl (True, sp_I0 (sp ! j)))))"
proof -
  let ?v = "sp_Val (sp ! i) OR sm_command m"
  let ?st = "sm_advance elems kind ?v (int i) (length elems) (sm_state m)"
  have st: "st_inv elems cur' ?st"
    using rel st_inv_advance by (simp add: run_rel_def cur'_def)
  have free: "brk_free cur'" "list_all (\<lambda>t. tk_at t < length sp) cur'"
    using rel i by (auto simp: run_rel_def cur'_def brk_free_def)
  have len: "length cur' = Suc (length cur)" by (simp add: cur'_def)
  have n: "length elems - 1 < length elems" "Suc (length elems - 1) = length elems" using el by auto
  have at_n: "?st ! (length elems - 1) =
      (if occ elems cur' (Suc (length cur)) then int (tk_at (cur' ! (Suc (length cur) - length elems))) else -1)"
    using st n len by (auto simp: st_inv_def)
  have fo: "first_occ elems cur' = (case first_occ elems cur of Some j \<Rightarrow> Some j
      | None \<Rightarrow> if occ elems cur' (Suc (length cur)) then Some (tk_at (cur' ! (Suc (length cur) - length elems))) else None)"
    unfolding cur'_def by (rule first_occ_snoc [OF el])
  show ?thesis
  proof (cases "occ elems cur' (Suc (length cur))")
    case True
    let ?j = "tk_at (cur' ! (Suc (length cur) - length elems))"
    have j: "?j < length sp" using free(2) len n el by (simp add: list_all_length)
    then have I0: "span_I0 sp (int ?j) = Some (sp_I0 (sp ! ?j))" "0 \<le> sp_I0 (sp ! ?j)"
      using ok by (auto simp: span_I0_def starts_ok_def list_all_length)
    show ?thesis
    proof (cases q)
      case False
      then show ?thesis
        using True at_n I0 fo free rel sel by (auto simp: sm_event_def Let_def run_rel_def hit_rel_def)
    next
      case qual: True
      show ?thesis
      proof (cases "first_occ elems cur")
        case None
        then show ?thesis
          using True qual at_n I0 fo free rel sel st by (auto simp: sm_event_def Let_def run_rel_def hit_rel_def)
      next
        case (Some jj)
        have "jj < length sp"
          using rel first_occ_inside [OF el _ Some] by (simp add: run_rel_def)
        then have "\<not> sm_hit m < 0"
          using rel qual Some ok by (auto simp: run_rel_def hit_rel_def starts_ok_def list_all_length)
        then show ?thesis
          using True qual at_n I0 fo free rel sel st Some by (auto simp: sm_event_def Let_def run_rel_def hit_rel_def)
      qed
    qed
  next
    case False
    then show ?thesis
      using at_n fo free rel sel st
      by (auto simp: sm_event_def Let_def run_rel_def hit_rel_def split: option.splits)
  qed
qed

text \<open>A break: the qualified hit of a clean packet is the answer, and otherwise a new run begins.\<close>

definition full_rel :: "dspan list \<Rightarrow> pattern_elem list \<Rightarrow> bool \<Rightarrow> tok list \<Rightarrow> seq_match \<Rightarrow> tok_state \<Rightarrow> bool" where
  "full_rel sp elems q cur m t \<longleftrightarrow> run_rel sp elems q cur m \<and> sm_selected m = ts_selected t \<and> sm_command m = ts_command t
     \<and> (q \<longrightarrow> (sm_bad m \<longleftrightarrow> \<not> pk_clean cur) \<and> ts_selected t)"

lemma run_rel_new:
  assumes "run_rel sp elems q cur m" "elems \<noteq> []" "q \<Longrightarrow> sm_hit m' = -1" "sm_state m' = sm_state (sm_reset m)"
  shows "run_rel sp elems q [] m'"
  using assms st_inv_reset [of "sm_state m" elems]
  by (auto simp: run_rel_def hit_rel_def brk_free_def sm_reset_def st_inv_def)

lemma sm_finish_run:
  assumes rel: "full_rel sp elems True cur m t" and el: "elems \<noteq> []" and ok: "starts_ok sp"
  shows "fst (sm_finish m) = span_answer sp (find_match True elems cur)"
    and "fst (fst (sm_finish m)) \<longleftrightarrow> pk_clean cur \<and> first_occ elems cur \<noteq> None"
proof -
  have free: "brk_free cur" and bad: "sm_bad m \<longleftrightarrow> \<not> pk_clean cur"
    and hit: "sm_hit m = (case first_occ elems cur of None \<Rightarrow> -1 | Some j \<Rightarrow> sp_I0 (sp ! j))"
    and inside: "list_all (\<lambda>t. tk_at t < length sp) cur"
    using rel by (auto simp: full_rel_def run_rel_def hit_rel_def)
  have pos: "0 \<le> sp_I0 (sp ! j)" if "first_occ elems cur = Some j" for j
    using first_occ_inside [OF el inside that] ok by (auto simp: starts_ok_def list_all_length)
  show "fst (sm_finish m) = span_answer sp (find_match True elems cur)"
    using free bad hit pos by (auto simp: sm_finish_def find_match_end span_answer_def split: option.splits)
  show "fst (fst (sm_finish m)) \<longleftrightarrow> pk_clean cur \<and> first_occ elems cur \<noteq> None"
    using bad hit pos by (auto simp: sm_finish_def split: option.splits)
qed

definition step_ok :: "dspan list \<Rightarrow> pattern_elem list \<Rightarrow> bool \<Rightarrow> tok list \<Rightarrow> tok list \<Rightarrow> tok_state
    \<Rightarrow> ((bool \<times> int) + seq_match) option \<Rightarrow> bool" where
  "step_ok sp elems q cur ts t' r \<longleftrightarrow>
     (\<exists>m' cur'. r = Some (Inr m') \<and> full_rel sp elems q cur' m' t'
        \<and> (\<forall>rest. find_match q elems (cur @ ts @ rest) = find_match q elems (cur' @ rest)))
   \<or> (\<exists>a. r = Some (Inl a) \<and> (\<forall>rest. a = span_answer sp (find_match q elems (cur @ ts @ rest))))"

lemma step_ok_event:
  assumes rel: "run_rel sp elems q cur m" "sm_selected m = ts_selected t" "sm_command m = ts_command t" "q \<longrightarrow> ts_selected t"
    and bad: "q \<longrightarrow> (sm_bad m \<longleftrightarrow> \<not> pk_clean (cur @ [Tok kind (sp_Val (sp ! i) OR sm_command m) i]))"
    and el: "elems \<noteq> []" and i: "i < length sp" and ok: "starts_ok sp" and sel: "kind = patternData \<longrightarrow> sm_selected m"
  shows "step_ok sp elems q cur [Tok kind (sp_Val (sp ! i) OR sm_command m) i] t (sm_event sp elems q i kind m)"
  using sm_event_run [where kind = kind, OF rel(1) el i ok sel]
proof (elim disjE exE conjE)
  fix m' assume "sm_event sp elems q i kind m = Some (Inr m')"
    "run_rel sp elems q (cur @ [Tok kind (sp_Val (sp ! i) OR sm_command m) i]) m'"
    "sm_selected m' = sm_selected m" "sm_command m' = sm_command m" "sm_bad m' = sm_bad m"
  then show ?thesis
    using rel bad by (auto simp: step_ok_def full_rel_def intro!: exI [of _ "cur @ [Tok kind (sp_Val (sp ! i) OR sm_command m) i]"])
next
  fix j assume q: "\<not> q" and free: "brk_free (cur @ [Tok kind (sp_Val (sp ! i) OR sm_command m) i])"
    and hit: "first_occ elems (cur @ [Tok kind (sp_Val (sp ! i) OR sm_command m) i]) = Some j"
    and r: "sm_event sp elems q i kind m = Some (Inl (True, sp_I0 (sp ! j)))"
  show ?thesis
    using q r find_match_hit [OF free el hit] by (simp add: step_ok_def span_answer_def)
qed

lemma step_ok_Brk:
  assumes rel: "full_rel sp elems q cur m t" and el: "elems \<noteq> []" and ok: "starts_ok sp"
    and f: "f = (if q then sm_finish (sm_reset m) else ((False, -1), sm_reset m))"
  shows "if fst (fst f) then \<forall>rest. fst f = span_answer sp (find_match q elems (cur @ Brk # rest))
     else run_rel sp elems q [] (snd f) \<and> sm_selected (snd f) = sm_selected m \<and> sm_command (snd f) = sm_command m
       \<and> (q \<longrightarrow> \<not> sm_bad (snd f)) \<and> (\<forall>rest. find_match q elems (cur @ Brk # rest) = find_match q elems rest)"
proof (cases q)
  case False
  then show ?thesis
    using rel el f run_rel_new [of sp elems q cur m "sm_reset m"]
    by (auto simp: full_rel_def run_rel_def hit_rel_def find_match_Brk sm_reset_def)
next
  case True
  have free: "brk_free cur" using rel by (simp add: full_rel_def run_rel_def)
  have same: "fst (sm_finish (sm_reset m)) = fst (sm_finish m)" by (simp add: sm_finish_def sm_reset_def)
  show ?thesis
  proof (cases "pk_clean cur \<and> first_occ elems cur \<noteq> None")
    case hit: True
    then show ?thesis
      using f True same free sm_finish_run [of sp elems cur m t] rel el ok
      by (simp add: find_match_Brk find_match_end)
  next
    case no: False
    then have fin: "\<not> fst (fst (sm_finish (sm_reset m)))"
      using True same sm_finish_run(2) [of sp elems cur m t] rel el ok by simp
    then have s: "snd (sm_finish (sm_reset m)) = (sm_reset m)\<lparr>sm_bad := False, sm_hit := -1\<rparr>"
      by (auto simp: sm_finish_def split: if_splits)
    have "run_rel sp elems q [] (snd f)"
      by (rule run_rel_new [of _ _ _ cur m]) (use rel el f True s in \<open>auto simp: full_rel_def\<close>)
    moreover have "find_match q elems (cur @ Brk # rest) = find_match q elems rest" for rest
      using no True free by (auto simp: find_match_Brk)
    ultimately show ?thesis
      using fin f True s by (simp add: sm_reset_def)
  qed
qed

lemma step_ok_after_Brk:
  assumes "\<And>rest. find_match q elems (cur @ Brk # rest) = find_match q elems rest" "step_ok sp elems q [] ts t' r"
  shows "step_ok sp elems q cur (Brk # ts) t' r"
  using assms by (simp add: step_ok_def)

text \<open>A boundary span: the break, then the event of a frame that opens.\<close>

lemma sm_span_bound:
  assumes rel: "full_rel sp elems q cur m t" and el: "elems \<noteq> []" and i: "i < length sp" and ok: "starts_ok sp"
    and fr: "q \<longrightarrow> pr_Proto p \<noteq> serI2C" and bound: "is_bound (sp_Kind (sp ! i))"
  shows "step_ok sp elems q cur (fst (span_toks sp p i t)) (snd (span_toks sp p i t)) (sm_span sp elems q p i m)"
proof -
  let ?s = "sp ! i" and ?k = "sp_Kind (sp ! i)"
  let ?t = "snd (span_toks sp p i t)"
  define f where "f = (if q then sm_finish (sm_reset m) else ((False, -1), sm_reset m))"
  define m2 where "m2 = (if pr_Proto p = serI2C \<and> ?k = ''stop'' then (snd f)\<lparr>sm_selected := False\<rparr> else snd f)"
  define m3 where "m3 = (if pr_Proto p = serMIL1553
    then m2\<lparr>sm_command := (if sp_Text ?s = ''csync'' then MILCommand else 0)\<rparr> else m2)"
  have k: "?k \<noteq> ''data''" "\<not> is_error ?k" "?k \<noteq> ''addr''" using bound by (auto simp: is_bound_def is_error_def)
  have span: "sm_span sp elems q p i m = (if fst (fst f) then Some (Inl (fst f))
      else if ?k = ''gap'' \<or> ?k = ''stop'' then Some (Inr m3) else sm_event sp elems q i patternStart m3)"
    using k bound unfolding sm_span_def f_def m2_def m3_def Let_def by simp
  have brk: "if fst (fst f) then \<forall>rest. fst f = span_answer sp (find_match q elems (cur @ Brk # rest))
     else run_rel sp elems q [] (snd f) \<and> sm_selected (snd f) = sm_selected m \<and> sm_command (snd f) = sm_command m
       \<and> (q \<longrightarrow> \<not> sm_bad (snd f)) \<and> (\<forall>rest. find_match q elems (cur @ Brk # rest) = find_match q elems rest)"
    by (rule step_ok_Brk [OF rel el ok f_def])
  show ?thesis
  proof (cases "fst (fst f)")
    case True
    then show ?thesis using brk k bound by (auto simp: span step_ok_def span_toks_def Let_def)
  next
    case False
    have same: "find_match q elems (cur @ Brk # rest) = find_match q elems rest" for rest using brk False by simp
    have m3: "run_rel sp elems q [] m3" "sm_selected m3 = ts_selected ?t" "sm_command m3 = ts_command ?t" "q \<longrightarrow> ts_selected ?t"
      "q \<longrightarrow> \<not> sm_bad m3"
      using brk False rel fr k bound
      by (auto simp: m3_def m2_def run_rel_def full_rel_def span_toks_def Let_def)
    show ?thesis
    proof (cases "?k = ''gap'' \<or> ?k = ''stop''")
      case True
      then have "step_ok sp elems q [] [] ?t (sm_span sp elems q p i m)"
        using False m3 by (auto simp: span step_ok_def full_rel_def pk_clean_def intro!: exI [of _ "[]"])
      then have "step_ok sp elems q cur [Brk] ?t (sm_span sp elems q p i m)" by (rule step_ok_after_Brk [OF same])
      moreover have "fst (span_toks sp p i t) = [Brk]" using True k bound by (auto simp: span_toks_def Let_def)
      ultimately show ?thesis by simp
    next
      case op: False
      let ?e = "Tok patternStart (sp_Val ?s OR sm_command m3) i"
      have "step_ok sp elems q [] [?e] ?t (sm_event sp elems q i patternStart m3)"
        by (rule step_ok_event) (use m3 el i ok in \<open>auto simp: pattern_kinds pk_clean_def\<close>)
      then have "step_ok sp elems q cur [Brk, ?e] ?t (sm_event sp elems q i patternStart m3)"
        by (rule step_ok_after_Brk [OF same])
      moreover have "fst (span_toks sp p i t) = [Brk, ?e]"
        using op k bound m3(3) by (auto simp: span_toks_def Let_def)
      ultimately show ?thesis using False op by (simp add: span)
    qed
  qed
qed

text \<open>Every span is a step of the tokens.\<close>

lemma sm_span_step:
  assumes rel: "full_rel sp elems q cur m t" and el: "elems \<noteq> []" and i: "i < length sp" and ok: "starts_ok sp"
    and fr: "q \<longrightarrow> pr_Proto p \<noteq> serI2C"
  shows "step_ok sp elems q cur (fst (span_toks sp p i t)) (snd (span_toks sp p i t)) (sm_span sp elems q p i m)"
proof -
  let ?k = "sp_Kind (sp ! i)"
  have r: "run_rel sp elems q cur m" "sm_selected m = ts_selected t" "sm_command m = ts_command t" "q \<longrightarrow> ts_selected t"
    "q \<longrightarrow> (sm_bad m \<longleftrightarrow> \<not> pk_clean cur)"
    using rel by (auto simp: full_rel_def)
  have free: "brk_free cur" using r(1) by (simp add: run_rel_def)
  consider (dat) "?k = ''data''" | (err) "is_error ?k" | (bound) "is_bound ?k" | (addr) "?k = ''addr''"
    | (other) "?k \<noteq> ''data''" "\<not> is_error ?k" "\<not> is_bound ?k" "?k \<noteq> ''addr''" by blast
  then show ?thesis
  proof cases
    case dat
    show ?thesis
    proof (cases "ts_selected t")
      case True
      then show ?thesis
        using step_ok_event [OF r(1-4), of patternData i] el i ok r dat
        by (simp add: sm_span_def span_toks_def pk_clean_def pattern_kinds)
    next
      case False
      then have q: "\<not> q" using r by blast
      have "run_rel sp elems q [] (sm_reset m)" by (rule run_rel_new [OF r(1) el]) (use q in auto)
      moreover have "first_occ elems cur = None" using r(1) q by (simp add: run_rel_def hit_rel_def)
      ultimately show ?thesis
        using False r q dat free
        by (auto simp: sm_span_def span_toks_def sm_event_def step_ok_def full_rel_def find_match_Brk sm_reset_def
            intro!: exI [of _ "[]"])
    qed
  next
    case err
    have k: "?k \<noteq> ''data''" using err by (auto simp: is_error_def)
    have "run_rel sp elems q cur (m\<lparr>sm_bad := True\<rparr>)" using r(1) by (simp add: run_rel_def)
    then show ?thesis
      using step_ok_event [of sp elems q cur "m\<lparr>sm_bad := True\<rparr>" t patternError i] el i ok r err k
      by (simp add: sm_span_def span_toks_def pk_clean_def pattern_kinds)
  next
    case addr
    have k: "\<not> is_error ''addr''" "\<not> is_bound ''addr''" by (auto simp: is_error_def is_bound_def)
    show ?thesis
    proof (cases "pr_Proto p = serI2C")
      case True
      then have q: "\<not> q" using fr by blast
      obtain sel where sel: "i2cSelected sp i p = Some sel" using i by (simp add: i2cSelected_def)
      have "run_rel sp elems q [] ((sm_reset m)\<lparr>sm_selected := sel\<rparr>)" by (rule run_rel_new [OF r(1) el]) (use q in auto)
      moreover have "first_occ elems cur = None" using r(1) q by (simp add: run_rel_def hit_rel_def)
      ultimately show ?thesis
        using True r q addr k free sel
        by (auto simp: sm_span_def span_toks_def step_ok_def full_rel_def find_match_Brk sm_reset_def intro!: exI [of _ "[]"])
    next
      case False
      then show ?thesis
        using rel addr k by (auto simp: sm_span_def span_toks_def step_ok_def)
    qed
  next
    case other
    then show ?thesis using rel by (auto simp: sm_span_def span_toks_def step_ok_def Let_def)
  next
    case bound
    show ?thesis by (rule sm_span_bound [OF rel el i ok fr bound])
  qed
qed

definition loop_answer :: "bool \<Rightarrow> ((bool \<times> int) + seq_match) option \<Rightarrow> (bool \<times> int) option" where
  "loop_answer q r = (case r of None \<Rightarrow> None | Some (Inl a) \<Rightarrow> Some a
     | Some (Inr m) \<Rightarrow> Some (if q then fst (sm_finish m) else (False, -1)))"

lemma sm_loop_finds:
  assumes "full_rel sp elems q cur m t" "elems \<noteq> []" "starts_ok sp" "q \<longrightarrow> pr_Proto p \<noteq> serI2C"
  shows "loop_answer q (sm_loop sp elems q p i m) = Some (span_answer sp (find_match q elems (cur @ toks_from sp p i t)))"
  using assms
proof (induction "length sp - i" arbitrary: i m t cur)
  case 0
  then have i: "\<not> i < length sp" by simp
  have free: "brk_free cur" and no: "\<not> q \<Longrightarrow> first_occ elems cur = None"
    using 0(2) by (auto simp: full_rel_def run_rel_def hit_rel_def)
  show ?case
    using i free no sm_finish_run(1) [of sp elems cur m t] 0(2,3,4)
    by (cases q) (simp_all add: loop_answer_def sm_loop.simps [of sp] toks_from.simps [of sp] find_match_end span_answer_def)
next
  case (Suc n)
  then have i: "i < length sp" by simp
  obtain ts t' where ts: "span_toks sp p i t = (ts, t')" by (rule prod.exhaust)
  have toks: "toks_from sp p i t = ts @ toks_from sp p (Suc i) t'"
    using i ts by (subst toks_from.simps) simp
  have "step_ok sp elems q cur ts t' (sm_span sp elems q p i m)"
    using sm_span_step [OF Suc(3,4) i Suc(5,6)] ts by simp
  then show ?case unfolding step_ok_def
  proof (elim disjE exE conjE)
    fix m' cur' assume m': "sm_span sp elems q p i m = Some (Inr m')" "full_rel sp elems q cur' m' t'"
      "\<forall>rest. find_match q elems (cur @ ts @ rest) = find_match q elems (cur' @ rest)"
    have "loop_answer q (sm_loop sp elems q p (Suc i) m') = Some (span_answer sp (find_match q elems (cur' @ toks_from sp p (Suc i) t')))"
      using Suc(1) [of "Suc i" cur' m' t'] Suc(2,4,5,6) m'(2) by simp
    then show ?thesis using m' i toks by (subst sm_loop.simps) simp
  next
    fix a assume "sm_span sp elems q p i m = Some (Inl a)"
      "\<forall>rest. a = span_answer sp (find_match q elems (cur @ ts @ rest))"
    then show ?thesis using i toks by (subst sm_loop.simps) (simp add: loop_answer_def)
  qed
qed

lemma matchSequence_spec:
  assumes "starts_ok sp"
  shows "matchSequence sp p = Some (sequence_spec sp p)"
proof (cases "patternOf p = []")
  case True
  then show ?thesis by (simp add: matchSequence_def sequence_spec_def)
next
  case False
  let ?elems = "patternOf p"
  let ?q = "data_only ?elems \<and> framedProtocol (pr_Proto p)"
  let ?m = "\<lparr>sm_state = replicate (length ?elems) (-1), sm_selected = (pr_Proto p \<noteq> serI2C), sm_command = 0, sm_bad = False, sm_hit = -1\<rparr>"
  have fr: "?q \<longrightarrow> pr_Proto p \<noteq> serI2C" by (auto simp: framedProtocol_def proto_ids)
  have "full_rel sp ?elems ?q [] ?m \<lparr>ts_selected = (pr_Proto p \<noteq> serI2C), ts_command = 0\<rparr>"
    using False fr st_inv_start by (auto simp: full_rel_def run_rel_def hit_rel_def brk_free_def pk_clean_def)
  from sm_loop_finds [OF this False assms fr, of 0] show ?thesis
    using False unfolding matchSequence_def sequence_spec_def toks_def loop_answer_def Let_def
    by (simp split: option.splits sum.splits)
qed

text \<open>
  C36: The software matcher finds what it is meant to: over spans with non-negative starts it never panics, and its
  answer is the first run of consecutive events (between breaks in contiguity; for a data pattern on a framed
  protocol, in the first packet without an error) that fits the pattern element by element.
\<close>

theorem match_is_the_first_run:
  assumes "starts_ok sp"
  shows "matchSequence sp p = Some (sequence_spec sp p)"
  by (rule matchSequence_spec [OF assms])

definition can_request :: serial_params where
  "can_request = \<lparr>pr_Proto = 6, pr_Bits = 0, pr_Addr = -1, pr_RW = 2, pr_Bytes = [0xaa, 0x0f], pr_Pattern = []\<rparr>"

definition can_span :: "int \<Rightarrow> string \<Rightarrow> int \<Rightarrow> dspan" where
  "can_span i k v = \<lparr>sp_I0 = i, sp_I1 = i, sp_Text = [], sp_Kind = k, sp_Val = v\<rparr>"

text \<open>Two packets carry AA 0F; the first ends in a CRC error.\<close>

definition can_spans :: "dspan list" where
  "can_spans = [can_span 0 ''sof'' 0, can_span 1 ''data'' 0x55, can_span 2 ''data'' 0xaa, can_span 3 ''data'' 0x0f,
     can_span 4 ''frame-error'' 0, can_span 10 ''sof'' 0, can_span 11 ''data'' 0xaa, can_span 12 ''data'' 0x0f,
     can_span 13 ''data'' 0xf0]"

lemma match_is_the_first_run_witness:
  "matchSequence can_spans can_request = Some (True, 11) \<and> sequence_spec can_spans can_request = (True, 11)"
proof -
  have "starts_ok can_spans" by code_simp
  moreover have "matchSequence can_spans can_request = Some (True, 11)" by code_simp
  ultimately show ?thesis
    using match_is_the_first_run [of can_spans can_request] by simp
qed

end
