(* ===== verification/SerialPlan.thy ===== *)
theory SerialPlan
  imports SerialMatch ArmConfig
begin

text \<open>
  The plan of a serial trigger for the fabric's sequence matcher (\<open>planSequence\<close> of
  \<open>app/internal/engine/serial_sequence.go\<close>) and one element of that matcher as the fabric compares it
  (\<open>element_match\<close> of \<open>fpga/trigger/event_sequence.v\<close>).
\<close>

section \<open>The plan for the fabric's matcher\<close>


definition SequenceStart :: byte where "SequenceStart = 1"
definition SequenceData :: byte where "SequenceData = 2"

definition zero_elem :: seq_elem where
  "zero_elem = \<lparr>sq_Kind = 0, sq_Value = 0, sq_Mask = 0\<rparr>"

definition zero_seq :: seq_cfg where
  "zero_seq = \<lparr>sq_Length = 0, sq_Qualify = False, sq_EndBadValue = False, sq_Elements = replicate 32 zero_elem\<rparr>"

text \<open>One element; \<^term>\<open>None\<close> where the plan is given up.\<close>

definition plan_elem :: "serial_params \<Rightarrow> pattern_elem \<Rightarrow> seq_elem option" where
  "plan_elem p e =
    (if pe_Kind e = patternStart then Some (zero_elem\<lparr>sq_Kind := SequenceStart\<rparr>)
     else if pe_Kind e = patternError then Some (zero_elem\<lparr>sq_Kind := SequenceError\<rparr>)
     else if pe_Kind e = patternData then
       (let allowed = unitMask p OR unitFlags p in
        if pe_Value e < 0 \<or> pe_Mask e < 0 \<or> pe_Value e AND NOT allowed \<noteq> 0 \<or> pe_Mask e AND NOT allowed \<noteq> 0 then None
        else (let value = word_of_int (pe_Value e AND pe_Mask e); m = word_of_int (pe_Mask e) in
          Some (if pr_Proto p = serARINC then \<lparr>sq_Kind = SequenceData, sq_Value = push_bit 10 value, sq_Mask = push_bit 10 m\<rparr>
                else if pr_Proto p = serI2C then \<lparr>sq_Kind = SequenceData, sq_Value = value, sq_Mask = m OR 0x100\<rparr>
                else \<lparr>sq_Kind = SequenceData, sq_Value = value, sq_Mask = m\<rparr>)))
     else None)"

definition planSequence :: "serial_params \<Rightarrow> seq_cfg" where
  "planSequence p = (let elems = patternOf p in
     if length elems = 0 \<or> length elems > 32 then zero_seq
     else case those (map (plan_elem p) elems) of
       None \<Rightarrow> zero_seq
     | Some es \<Rightarrow> \<lparr>sq_Length = word_of_nat (length elems),
         sq_Qualify = (data_only elems \<and> framedProtocol (pr_Proto p)),
         sq_EndBadValue = (pr_Proto p = serManchester \<or> pr_Proto p = serARINC),
         sq_Elements = es @ replicate (32 - length es) zero_elem\<rparr>)"

section \<open>The fabric's element\<close>

definition fabric_match :: "seq_elem \<Rightarrow> byte \<Rightarrow> u32 \<Rightarrow> bool" where
  "fabric_match e kind ev \<longleftrightarrow> (sq_Kind e = 0 \<or> sq_Kind e = kind) \<and> (ev XOR sq_Value e) AND sq_Mask e = 0"

text \<open>The unit an event value holds: ARINC's data field is at bits 10 to 28.\<close>

definition event_unit :: "serial_params \<Rightarrow> u32 \<Rightarrow> int" where
  "event_unit p ev = (if pr_Proto p = serARINC then uint (drop_bit 10 ev) else uint ev)"

section \<open>The plan asks what the request asks\<close>

lemma masked_eq:
  assumes "\<And>n. bit m n \<Longrightarrow> n < 32"
  shows "((w :: u32) XOR word_of_int (v AND m)) AND word_of_int m = 0 \<longleftrightarrow> (uint w XOR v) AND m = 0"
  using assms by (auto simp: bit_eq_iff bit_simps) 

lemma masked_eq_shifted:
  assumes "\<And>n. bit m n \<Longrightarrow> n < 22"
  shows "((w :: u32) XOR push_bit 10 (word_of_int (v AND m))) AND push_bit 10 (word_of_int m) = 0
     \<longleftrightarrow> (uint (drop_bit 10 w) XOR v) AND m = 0"
proof -
  have "((w :: u32) XOR push_bit 10 (word_of_int (v AND m))) AND push_bit 10 (word_of_int m) = 0
     \<longleftrightarrow> (\<forall>n<32. 10 \<le> n \<and> bit m (n - 10) \<longrightarrow> (bit w n \<longleftrightarrow> bit v (n - 10)))"
    by (auto simp: bit_eq_iff bit_simps)
  also have "\<dots> \<longleftrightarrow> (\<forall>n. bit m n \<longrightarrow> (bit w (n + 10) \<longleftrightarrow> bit v n))"
  proof
    assume all: "\<forall>n<32. 10 \<le> n \<and> bit m (n - 10) \<longrightarrow> (bit w n \<longleftrightarrow> bit v (n - 10))"
    show "\<forall>n. bit m n \<longrightarrow> (bit w (n + 10) \<longleftrightarrow> bit v n)"
      using assms all [rule_format, of "n + 10" for n] by force
  next
    assume all: "\<forall>n. bit m n \<longrightarrow> (bit w (n + 10) \<longleftrightarrow> bit v n)"
    show "\<forall>n<32. 10 \<le> n \<and> bit m (n - 10) \<longrightarrow> (bit w n \<longleftrightarrow> bit v (n - 10))"
      using all [rule_format, of "n - 10" for n] by force
  qed
  also have "\<dots> \<longleftrightarrow> (uint (drop_bit 10 w) XOR v) AND m = 0"
    using assms by (auto simp: bit_eq_iff bit_simps add.commute)
  finally show ?thesis .
qed

lemma bit_le_mask:
  assumes "0 \<le> (m :: int)" "m < 2 ^ k" "bit m n"
  shows "n < k"
proof -
  have "take_bit k m = m" using assms by (simp add: take_bit_int_eq_self)
  then have "bit (take_bit k m) n" using assms(3) by simp
  then show ?thesis by (simp add: bit_take_bit_iff)
qed

lemma masked_by:
  assumes "(m :: int) AND NOT allowed = 0" "bit m n"
  shows "bit allowed n"
proof -
  have "bit (m AND NOT allowed) n = False" using assms(1) by simp
  then show ?thesis using assms(2) by (simp add: bit_simps)
qed

lemma unitMask_bounds: "0 \<le> unitMask p" "unitMask p < 2 ^ 31" "pr_Proto p = serARINC \<Longrightarrow> unitMask p = 0x7ffff"
proof -
  have two: "2 ^ nat (pr_Bits p) \<le> (2 :: int) ^ 16" if "pr_Bits p \<le> 16"
    using that by (intro power_increasing) auto
  have pos: "0 < (2 :: int) ^ nat (pr_Bits p)" by simp
  show "0 \<le> unitMask p" using pos by (auto simp: unitMask_def Let_def)
  show "unitMask p < 2 ^ 31" using two by (auto simp: unitMask_def Let_def)
  show "pr_Proto p = serARINC \<Longrightarrow> unitMask p = 0x7ffff" by (simp add: unitMask_def proto_ids)
qed

lemma allowed_bits: "bit (unitMask p OR unitFlags p) n \<Longrightarrow> n < 31"
proof -
  assume "bit (unitMask p OR unitFlags p) n"
  then have "bit (unitMask p) n \<or> bit (65536 :: int) n" by (auto simp: unitFlags_def MILCommand_def bit_simps split: if_splits)
  then show ?thesis using bit_le_mask [of "unitMask p" 31 n] bit_le_mask [of "65536 :: int" 31 n] unitMask_bounds [of p] by auto
qed

lemma allowed_bits_ARINC: "pr_Proto p = serARINC \<Longrightarrow> bit (unitMask p OR unitFlags p) n \<Longrightarrow> n < 19"
  using bit_le_mask [of "unitMask p" 19 n] unitMask_bounds [of p] by (auto simp: unitFlags_def proto_ids)

lemma and_bit8: "(x :: u32) AND 0x100 = 0 \<longleftrightarrow> \<not> bit x 8"
proof -
  have "(0x100 :: u32) = push_bit 8 1" by simp
  then have e: "bit (0x100 :: u32) n \<longleftrightarrow> n = 8" for n by (simp only: bit_push_bit_iff) (auto simp: bit_1_iff)
  have "x AND 0x100 = 0 \<longleftrightarrow> (\<forall>n. \<not> (bit x n \<and> bit (0x100 :: u32) n))"
    by (simp only: bit_eq_iff bit_and_iff bit_0_eq) auto
  then show ?thesis by (simp only: e) auto
qed

lemma plan_elem_fits:
  assumes "plan_elem p e = Some s"
  shows "fabric_match s kind ev \<longleftrightarrow> elem_ok e (uint kind) (event_unit p ev)
    \<and> (pe_Kind e = patternData \<and> pr_Proto p = serI2C \<longrightarrow> \<not> bit ev 8)"
proof (cases "pe_Kind e = patternData")
  case False
  have "kind = 1 \<longleftrightarrow> uint kind = 1" "kind = 4 \<longleftrightarrow> uint kind = 4" by (simp_all add: word_uint_eq_iff)
  then show ?thesis
    using False assms
    by (auto simp: plan_elem_def fabric_match_def elem_ok_def zero_elem_def pattern_kinds SequenceStart_def SequenceError_def
        Let_def split: if_splits)
next
  case True
  let ?v = "pe_Value e" and ?m = "pe_Mask e"
  have m: "?m AND NOT (unitMask p OR unitFlags p) = 0"
    and s: "s = (if pr_Proto p = serARINC then \<lparr>sq_Kind = SequenceData, sq_Value = push_bit 10 (word_of_int (?v AND ?m)), sq_Mask = push_bit 10 (word_of_int ?m)\<rparr>
      else if pr_Proto p = serI2C then \<lparr>sq_Kind = SequenceData, sq_Value = word_of_int (?v AND ?m), sq_Mask = word_of_int ?m OR 0x100\<rparr>
      else \<lparr>sq_Kind = SequenceData, sq_Value = word_of_int (?v AND ?m), sq_Mask = word_of_int ?m\<rparr>)"
    using True assms by (auto simp: plan_elem_def pattern_kinds Let_def split: if_splits)
  have k: "kind = 2 \<longleftrightarrow> uint kind = 2" by (simp add: word_uint_eq_iff)
  have lt: "bit ?m n \<Longrightarrow> n < 32" for n using masked_by [OF m] allowed_bits by fastforce
  have lt19: "pr_Proto p = serARINC \<Longrightarrow> bit ?m n \<Longrightarrow> n < 22" for n using masked_by [OF m] allowed_bits_ARINC by fastforce
  consider (a) "pr_Proto p = serARINC" | (i) "pr_Proto p = serI2C" | (o) "pr_Proto p \<noteq> serARINC" "pr_Proto p \<noteq> serI2C" by blast
  then show ?thesis
  proof cases
    case a
    then show ?thesis
      using True s k masked_eq_shifted [where w = ev and v = ?v and m = ?m, OF lt19]
      by (auto simp: fabric_match_def elem_ok_def event_unit_def SequenceData_def pattern_kinds proto_ids)
  next
    case i
    have "(x AND (word_of_int ?m OR 0x100) = 0) \<longleftrightarrow> (x AND word_of_int ?m = 0 \<and> \<not> bit x 8)" for x :: u32
      by (simp only: bit.conj_disj_distrib or_eq_0_iff and_bit8)
    moreover have "bit ?m 8 \<Longrightarrow> bit (255 :: int) 8"
      using masked_by [OF m, of 8] i by (simp add: unitMask_def unitFlags_def proto_ids)
    moreover have "\<not> bit (255 :: int) 8" by (simp add: bit_iff_odd)
    ultimately show ?thesis
      using i True s k masked_eq [where w = ev and v = ?v and m = ?m, OF lt]
      by (auto simp: fabric_match_def elem_ok_def event_unit_def SequenceData_def pattern_kinds proto_ids bit_simps)
  next
    case o
    then show ?thesis
      using True s k masked_eq [where w = ev and v = ?v and m = ?m, OF lt]
      by (auto simp: fabric_match_def elem_ok_def event_unit_def SequenceData_def pattern_kinds)
  qed
qed

lemma those_map_length: "those (map f xs) = Some ys \<Longrightarrow> length ys = length xs"
  by (induction xs arbitrary: ys) (auto split: option.splits)

lemma those_map_nth: "those (map f xs) = Some ys \<Longrightarrow> k < length xs \<Longrightarrow> f (xs ! k) = Some (ys ! k)"
  by (induction xs arbitrary: ys k) (auto simp: nth_Cons split: option.splits nat.splits)

lemma plan_elem_kind: "plan_elem p e = Some s \<Longrightarrow> \<not> sq_Kind s > SequenceError"
  by (auto simp: plan_elem_def SequenceStart_def SequenceData_def SequenceError_def Let_def split: if_splits)

lemma planSequence_planned:
  assumes "sq_Length (planSequence p) \<noteq> 0"
  obtains es where "those (map (plan_elem p) (patternOf p)) = Some es" "length (patternOf p) \<le> 32"
    "sq_Length (planSequence p) = word_of_nat (length (patternOf p))"
    "sq_Elements (planSequence p) = es @ replicate (32 - length es) zero_elem"
  using assms by (auto simp: planSequence_def zero_seq_def Let_def split: if_splits option.splits)

text \<open>
  C37: A planned sequence asks the fabric exactly what the request asks: it has one element per pattern element, the
  configuration check accepts it, and an element fits an event exactly when the pattern element fits the event's unit
  in the decoder's own units (ARINC's data field in its place, an I2C unit never an address).
\<close>

theorem planned_sequence_asks_the_request:
  assumes "sq_Length (planSequence p) \<noteq> 0"
  shows "unat (sq_Length (planSequence p)) = length (patternOf p) \<and> seq_valid (planSequence p)
    \<and> (\<forall>k<length (patternOf p). \<forall>kind ev.
         fabric_match (sq_Elements (planSequence p) ! k) kind ev \<longleftrightarrow>
           elem_ok (patternOf p ! k) (uint kind) (event_unit p ev)
           \<and> (pe_Kind (patternOf p ! k) = patternData \<and> pr_Proto p = serI2C \<longrightarrow> \<not> bit ev 8))"
proof -
  obtain es where es: "those (map (plan_elem p) (patternOf p)) = Some es" "length (patternOf p) \<le> 32"
    "sq_Length (planSequence p) = word_of_nat (length (patternOf p))"
    "sq_Elements (planSequence p) = es @ replicate (32 - length es) zero_elem"
    using planSequence_planned [OF assms] by blast
  have n: "length es = length (patternOf p)" by (rule those_map_length [OF es(1)])
  have len: "unat (sq_Length (planSequence p)) = length (patternOf p)"
    using es(2,3) by (simp add: unat_of_nat take_bit_nat_eq_self)
  have pe: "plan_elem p (patternOf p ! k) = Some (es ! k)" if "k < length (patternOf p)" for k
    by (rule those_map_nth [OF es(1) that])
  have "list_all (\<lambda>e. \<not> sq_Kind e > SequenceError) es"
    using pe plan_elem_kind n by (fastforce simp: list_all_length)
  then have "seq_valid (planSequence p)"
    using len es(2,4) n by (simp add: seq_valid_def SequenceMax_def word_less_nat_alt)
  moreover have "fabric_match (sq_Elements (planSequence p) ! k) kind ev \<longleftrightarrow>
      elem_ok (patternOf p ! k) (uint kind) (event_unit p ev)
      \<and> (pe_Kind (patternOf p ! k) = patternData \<and> pr_Proto p = serI2C \<longrightarrow> \<not> bit ev 8)"
    if "k < length (patternOf p)" for k kind ev
    using plan_elem_fits [OF pe [OF that], of kind ev] that es(4) n by (simp add: nth_append)
  ultimately show ?thesis using len by blast
qed

definition arinc_request :: serial_params where
  "arinc_request = \<lparr>pr_Proto = 8, pr_Bits = 0, pr_Addr = -1, pr_RW = 2, pr_Bytes = [0x2abcd, 0x15a3f], pr_Pattern = []\<rparr>"

lemma planned_sequence_asks_the_request_witness:
  "unat (sq_Length (planSequence arinc_request)) = 2
    \<and> fabric_match (sq_Elements (planSequence arinc_request) ! 0) 2 (push_bit 10 0x2abcd OR 5)"
proof -
  have nz: "sq_Length (planSequence arinc_request) \<noteq> 0"
    by code_simp
  have p: "patternOf arinc_request = [\<lparr>pe_Kind = 2, pe_Value = 0x2abcd, pe_Mask = 0x7ffff\<rparr>, \<lparr>pe_Kind = 2, pe_Value = 0x15a3f, pe_Mask = 0x7ffff\<rparr>]"
    by code_simp
  have "elem_ok \<lparr>pe_Kind = 2, pe_Value = 0x2abcd, pe_Mask = 0x7ffff\<rparr> 2 (event_unit arinc_request (push_bit 10 0x2abcd OR 5))"
    by code_simp
  moreover have "pr_Proto arinc_request \<noteq> serI2C" by code_simp
  ultimately show ?thesis
    using planned_sequence_asks_the_request [OF nz] p by simp
qed

end
