(* ===== verification/SymbolTrigger.thy ===== *)
theory SymbolTrigger
  imports Prelude
begin

text \<open>
  The symbol trigger of the qualify image, clock for clock (\<open>SymbolTrigger\<close> of \<open>app/internal/decode/symbol_trigger.go\<close>).

  The block's registers are grouped as its stages: the run length counter, the classification pipeline, the unit
  sampler, and the frame and window matcher. \<open>Step\<close> computes every new register from the old ones, so each stage is a
  function of the old state and of the wires between the stages. An index out of range is \<^term>\<open>None\<close>.
\<close>

section \<open>Configuration and state\<close>

definition SymbolClass :: int where "SymbolClass = 0"
definition SymbolEdge :: int where "SymbolEdge = 2"
definition SymbolClockedMode :: int where "SymbolClockedMode = 3"

lemmas symbol_modes = SymbolClass_def SymbolEdge_def SymbolClockedMode_def

definition SymbolMaxCount :: u32 where "SymbolMaxCount = 2097151"

record sym_cfg =
  yc_InvA :: bool
  yc_InvB :: bool
  yc_AndAB :: bool
  yc_ClockFall :: bool
  yc_Mode :: int
  yc_LeadLen :: int
  yc_Prescale :: int
  yc_UnitQ8 :: u32
  yc_FrameUnits :: int
  yc_Period :: int
  yc_Phase0 :: int
  yc_K :: int
  yc_Pattern :: u64
  yc_Mask :: u64
  yc_Table :: "byte list"

record sym_run =
  yr_r0 :: bool
  yr_d0 :: bool
  yr_rp :: bool
  yr_primed :: bool
  yr_pc :: u32
  yr_cnt :: u32

record sym_pipe =
  yp_v1 :: bool
  yp_l1 :: bool
  yp_n1 :: u32
  yp_v2 :: bool
  yp_l2 :: bool
  yp_n2 :: u32
  yp_e2 :: u32
  yp_s2 :: u32
  yp_v3 :: bool
  yp_addr3 :: int
  yp_v4 :: bool
  yp_q4 :: byte
  yp_v5 :: bool
  yp_dEnd :: bool
  yp_dBit :: bool
  yp_dVal :: bool
  yp_dRestart :: bool
  yp_lSep :: bool
  yp_lStep :: "bool list"

record sym_units =
  yu_rr :: int
  yu_act :: bool
  yu_ef :: bool
  yu_fu :: int
  yu_sbV :: bool
  yu_sb :: bool
  yu_dv :: "bool list"
  yu_dbit :: "bool list"

record sym_frame =
  yf_inFrame :: bool
  yf_got :: int

record sym_window =
  yw_n :: int
  yw_ph :: int
  yw_sh :: u64
  yw_hitA :: bool
  yw_openA :: bool
  yw_partOK :: bool
  yw_hitB :: bool
  yw_openB :: bool
  yw_match :: bool

record sym =
  ys_run :: sym_run
  ys_pipe :: sym_pipe
  ys_units :: sym_units
  ys_frame :: sym_frame
  ys_window :: sym_window

section \<open>The table index of a run\<close>

text \<open>\<open>bits.Len32\<close>.\<close>

definition Len32 :: "u32 \<Rightarrow> nat" where
  "Len32 w = length (dropWhile Not (rev (map (bit w) [0..<32])))"

definition SymbolIndex :: "bool \<Rightarrow> u32 \<Rightarrow> int" where
  "SymbolIndex level count0 =
    (let count1 = (if count0 > SymbolMaxCount then SymbolMaxCount else count0);
         (e, sh) = (if count1 \<ge> 64 then (let top = Len32 count1 - 1 in (top - 5, top - 6)) else (0, 0));
         idx = push_bit 6 (int e) OR uint (drop_bit sh count1 AND 63)
     in if level then idx OR 1024 else idx)"

section \<open>The stages\<close>

definition NewSymbolTrigger :: "sym" where
  "NewSymbolTrigger = \<lparr>
     ys_run = \<lparr>yr_r0 = True, yr_d0 = True, yr_rp = True, yr_primed = False, yr_pc = 0, yr_cnt = 0\<rparr>,
     ys_pipe = \<lparr>yp_v1 = False, yp_l1 = False, yp_n1 = 0, yp_v2 = False, yp_l2 = False, yp_n2 = 0, yp_e2 = 0, yp_s2 = 0,
       yp_v3 = False, yp_addr3 = 0, yp_v4 = False, yp_q4 = 0, yp_v5 = False, yp_dEnd = False, yp_dBit = False,
       yp_dVal = False, yp_dRestart = False, yp_lSep = False, yp_lStep = replicate 4 False\<rparr>,
     ys_units = \<lparr>yu_rr = 0, yu_act = False, yu_ef = False, yu_fu = 0, yu_sbV = False, yu_sb = False,
       yu_dv = replicate 4 False, yu_dbit = replicate 4 False\<rparr>,
     ys_frame = \<lparr>yf_inFrame = False, yf_got = 0\<rparr>,
     ys_window = \<lparr>yw_n = 0, yw_ph = 0, yw_sh = 0, yw_hitA = False, yw_openA = False, yw_partOK = False,
       yw_hitB = False, yw_openB = False, yw_match = False\<rparr>\<rparr>"

definition edgeNow :: "sym_run \<Rightarrow> bool" where
  "edgeNow r \<longleftrightarrow> yr_primed r \<and> yr_r0 r \<noteq> yr_rp r"

text \<open>The run line and its length.\<close>

definition step_run :: "sym_cfg \<Rightarrow> bool \<Rightarrow> bool \<Rightarrow> bool \<Rightarrow> sym_run \<Rightarrow> sym_run" where
  "step_run c a b reset r =
    (let pmask = push_bit (nat (yc_Prescale c)) 1 - 1 :: u32;
         la = (a \<noteq> yc_InvA c); lb = (b \<noteq> yc_InvB c);
         (nprimed, npc, ncnt) =
           (if reset then (False, 0, 0)
            else if edgeNow r then (True, 0, 0)
            else (True, (yr_pc r + 1) AND 127,
              if yr_pc r AND pmask = pmask \<and> yr_cnt r \<noteq> SymbolMaxCount then yr_cnt r + 1 else yr_cnt r))
     in \<lparr>yr_r0 = (if yc_AndAB c then la \<and> lb else la), yr_d0 = lb, yr_rp = yr_r0 r, yr_primed = nprimed, yr_pc = npc,
         yr_cnt = ncnt\<rparr>)"

text \<open>The leading one of the count, bits 6 to 20: the last of the loop that is set.\<close>

definition lead_bit :: "u32 \<Rightarrow> u32" where
  "lead_bit n1 = fold (\<lambda>b top. if drop_bit b n1 AND 1 \<noteq> 0 then word_of_nat b else top) [6..<21] 0"

definition step_pipe :: "sym_cfg \<Rightarrow> bool \<Rightarrow> sym_run \<Rightarrow> sym_pipe \<Rightarrow> sym_pipe option" where
  "step_pipe c reset r p =
    (let (ne2, ns2) = (if drop_bit 6 (yp_n1 p) \<noteq> 0 then (let top = lead_bit (yp_n1 p) in (top - 5, top - 6)) else (0, 0));
         addr = push_bit 6 (uint (yp_e2 p)) OR uint (drop_bit (unat (yp_s2 p)) (yp_n2 p) AND 63);
         hi = drop_bit 4 (yp_q4 p); lo = yp_q4 p AND 15
     in if 0 \<le> yp_addr3 p \<and> nat (yp_addr3 p) < length (yc_Table c) then
       Some \<lparr>yp_v1 = (\<not> reset \<and> edgeNow r), yp_l1 = yr_rp r, yp_n1 = yr_cnt r,
         yp_v2 = (\<not> reset \<and> yp_v1 p), yp_l2 = yp_l1 p, yp_n2 = yp_n1 p, yp_e2 = ne2, yp_s2 = ns2,
         yp_v3 = (\<not> reset \<and> yp_v2 p), yp_addr3 = (if yp_l2 p then addr OR 1024 else addr),
         yp_v4 = (\<not> reset \<and> yp_v3 p), yp_q4 = yc_Table c ! nat (yp_addr3 p),
         yp_v5 = (\<not> reset \<and> yp_v4 p), yp_dEnd = (lo = 0), yp_dBit = (lo = 2 \<or> lo = 3), yp_dVal = (yp_q4 p AND 1 \<noteq> 0),
         yp_dRestart = (lo = 4), yp_lSep = (hi = 1), yp_lStep = [hi = 2, hi = 3, hi = 4, hi = 5]\<rparr>
     else None)"

text \<open>The frame state on this clock: the new state, whether a frame opened, and the bit, if one came.\<close>

definition step_frame :: "sym_cfg \<Rightarrow> sym_pipe \<Rightarrow> sym_units \<Rightarrow> sym_frame \<Rightarrow> sym_frame \<times> bool \<times> bool option" where
  "step_frame c p u f =
    (let (fIn, fGot, fOpen, bitv) =
       (if yp_v5 p then
         (if yf_inFrame f then
           (if yp_dEnd p then (if yc_LeadLen c = 0 then (True, yf_got f, True, None) else (False, 0, False, None))
            else if yp_dBit p then (True, yf_got f, False, if yc_Mode c = SymbolClass then Some (yp_dVal p) else None)
            else if yp_dRestart p then
              (if yc_LeadLen c \<le> 1 then (True, yf_got f, True, None) else (False, 1, False, None))
            else (True, yf_got f, False, None))
          else
           (if yf_got f < yc_LeadLen c \<and> yp_lStep p ! nat (yf_got f AND 3)
              then (False, yf_got f + 1, yf_got f + 1 = yc_LeadLen c, None)
            else if yp_lStep p ! 0 then (False, 1, yc_LeadLen c = 1, None)
            else if \<not> yp_lSep p then (False, 0, False, None)
            else (False, yf_got f, False, None)))
        else (yf_inFrame f, yf_got f, False, None));
       (fIn', fGot') = (if fOpen then (True, 0) else (fIn, fGot));
       bitv' = (if yc_Mode c \<noteq> SymbolClass \<and> yu_dv u ! 3 then (if fIn' then Some (yu_dbit u ! 3) else None) else bitv)
     in (\<lparr>yf_inFrame = fIn', yf_got = fGot'\<rparr>, fOpen, bitv'))"

text \<open>The unit sampler, or the clocked bits; and the delay line of the sampled bits.\<close>

definition step_units :: "sym_cfg \<Rightarrow> bool \<Rightarrow> sym_run \<Rightarrow> bool \<Rightarrow> sym_units \<Rightarrow> sym_units" where
  "step_units c reset r restartUnits u =
    (let half = uint (drop_bit 1 (yc_UnitQ8 c)); unitM256 = uint (yc_UnitQ8 c) - 256;
         (nrr, nact, nef, nfu, nsbV, nsb) =
       (if reset then (0, False, False, 0, False, yu_sb u)
        else if yc_Mode c = SymbolClockedMode
          then (yu_rr u, yu_act u, yu_ef u, yu_fu u, edgeNow r \<and> (yr_r0 r \<noteq> yc_ClockFall c), yr_d0 r)
        else
         (let (rr, act, ef, fu, sbV, sb) =
            (if edgeNow r then
               (half, True, True, if \<not> yu_act u then 0 else yu_fu u, False, yu_sb u)
             else if yu_act u then
               (if drop_bit 8 (yu_rr u) = 0 then
                 ((yu_rr u + unitM256) AND 0xfffffff,
                  \<not> (yc_FrameUnits c \<noteq> 0 \<and> (yu_fu u + 1) AND 63 = yc_FrameUnits c),
                  False, (yu_fu u + 1) AND 63, yc_Mode c \<noteq> SymbolClass,
                  if yc_Mode c = SymbolEdge then yu_ef u else yr_r0 r)
                else ((yu_rr u - 256) AND 0xfffffff, True, yu_ef u, yu_fu u, False, yu_sb u))
             else (yu_rr u, yu_act u, yu_ef u, yu_fu u, False, yu_sb u))
          in if restartUnits then (rr, True, ef, 0, sbV, sb) else (rr, act, ef, fu, sbV, sb)))
     in \<lparr>yu_rr = nrr, yu_act = nact, yu_ef = nef, yu_fu = nfu, yu_sbV = nsbV, yu_sb = nsb,
         yu_dv = [yu_sbV u \<and> \<not> reset, yu_dv u ! 0, yu_dv u ! 1, yu_dv u ! 2],
         yu_dbit = [yu_sb u, yu_dbit u ! 0, yu_dbit u ! 1, yu_dbit u ! 2]\<rparr>)"

text \<open>The window: the bits shifted in, their count and phase since the frame opened, and the compare two clocks on.\<close>

definition step_window :: "sym_cfg \<Rightarrow> bool \<Rightarrow> bool \<Rightarrow> bool option \<Rightarrow> sym_window \<Rightarrow> sym_window" where
  "step_window c reset fOpen bitv w =
    (let nBase = (if fOpen then 0 else yw_n w); phBase = (if fOpen then yc_Phase0 c else yw_ph w);
         nNext = (if nBase \<noteq> 1023 then nBase + 1 else nBase);
         ph1 = (phBase + 1) AND 63; phNext = (if ph1 = yc_Period c then 0 else ph1);
         (nn, nph, nsh, nhitA, nopenA) =
           (if reset then (0, yc_Phase0 c, 0, False, False)
            else case bitv of
              None \<Rightarrow> (if fOpen then 0 else yw_n w, if fOpen then yc_Phase0 c else yw_ph w, yw_sh w, False, fOpen \<and> yc_K c = 0)
            | Some b \<Rightarrow> (nNext, if yc_Period c = 0 then 0 else phNext,
                push_bit 1 (yw_sh w) OR (if b then 1 else 0), True, fOpen \<and> yc_K c = 0));
         cond = (if yc_Period c \<noteq> 0 then yw_n w \<ge> yc_K c \<and> yw_ph w = 0 else yw_n w = yc_K c)
     in \<lparr>yw_n = nn, yw_ph = nph, yw_sh = nsh, yw_hitA = nhitA, yw_openA = nopenA,
         yw_partOK = ((yw_sh w XOR yc_Pattern c) AND yc_Mask c = 0),
         yw_hitB = (yw_hitA w \<and> \<not> reset \<and> cond), yw_openB = (yw_openA w \<and> \<not> reset),
         yw_match = (\<not> reset \<and> ((yw_hitB w \<and> yw_partOK w) \<or> yw_openB w))\<rparr>)"

section \<open>A clock\<close>

text \<open>In reset the frame stage is in its idle state, in a frame when there is no leader.\<close>

definition Step :: "sym_cfg \<Rightarrow> bool \<Rightarrow> bool \<Rightarrow> bool \<Rightarrow> sym \<Rightarrow> (bool \<times> sym) option" where
  "Step c a b reset s =
    (if yc_Prescale c < 0 then None
     else case step_frame c (ys_pipe s) (ys_units s) (ys_frame s) of (f, fOpen, bitv) \<Rightarrow>
       (case step_pipe c reset (ys_run s) (ys_pipe s) of
          None \<Rightarrow> None
        | Some p \<Rightarrow>
          (let w = step_window c reset fOpen bitv (ys_window s) in
           Some (yw_match w, \<lparr>ys_run = step_run c a b reset (ys_run s), ys_pipe = p,
             ys_units = step_units c reset (ys_run s) (yp_v5 (ys_pipe s) \<and> fOpen) (ys_units s),
             ys_frame = (if reset then \<lparr>yf_inFrame = (yc_LeadLen c = 0), yf_got = 0\<rparr> else f), ys_window = w\<rparr>))))"

fun symbol_loop :: "sym_cfg \<Rightarrow> bool list \<Rightarrow> bool list \<Rightarrow> nat \<Rightarrow> nat \<Rightarrow> sym \<Rightarrow> nat list option" where
  "symbol_loop c [] b resetClocks i s = Some []"
| "symbol_loop c (x # a) b resetClocks i s =
    (case Step c x (if i < length b then b ! i else True) (i < resetClocks) s of
       None \<Rightarrow> None
     | Some (m, s') \<Rightarrow> map_option (\<lambda>out. if m then i # out else out) (symbol_loop c a b resetClocks (Suc i) s'))"

definition SymbolMatches :: "sym_cfg \<Rightarrow> bool list \<Rightarrow> bool list \<Rightarrow> nat \<Rightarrow> nat list option" where
  "SymbolMatches c a b resetClocks = symbol_loop c a b resetClocks 0 NewSymbolTrigger"

end
