(* ===== verification/SymbolClasses.thy ===== *)
theory SymbolClasses
  imports SymbolTrigger
begin

text \<open>
  The symbol trigger never indexes out of range, and its classification pipeline is the table lookup of
  \<open>SymbolIndex\<close>, five clocks late.
\<close>

section \<open>The leading one\<close>

lemma fold_lead:
  assumes "i \<le> t" "t < j" "P t" "\<And>b. t < b \<Longrightarrow> b < j \<Longrightarrow> \<not> P b"
  shows "fold (\<lambda>b top. if P b then f b else top) [i..<j] z = f t"
  using assms
proof (induction j)
  case (Suc j)
  show ?case
  proof (cases "t = j")
    case True
    then show ?thesis using Suc.prems by simp
  next
    case False
    then have "fold (\<lambda>b top. if P b then f b else top) [i..<j] z = f t" using Suc by auto
    then show ?thesis using Suc.prems False by (simp add: less_Suc_eq_le)
  qed
qed simp

lemma length_drop_lead:
  assumes "t < j" "P t" "\<And>b. t < b \<Longrightarrow> b < j \<Longrightarrow> \<not> P b"
  shows "length (dropWhile Not (rev (map P [0..<j]))) = Suc t"
  using assms
proof (induction j)
  case (Suc j)
  then show ?case by (cases "t = j") auto
qed simp

lemma lead_exists:
  assumes "(64 :: u32) \<le> n" "n \<le> SymbolMaxCount"
  obtains t where "6 \<le> t" "t < 21" "bit n t" "\<And>b. t < b \<Longrightarrow> \<not> bit n b"
proof -
  define t where "t = Max {b. bit n b}"
  have fin: "finite {b. bit n b}" by simp
  have small: "b < 21" if "bit n b" for b
  proof -
    have "unat n < 2 ^ 21" using assms(2) by (simp add: SymbolMaxCount_def word_le_nat_alt)
    then have "take_bit 21 (unat n) = unat n" by (simp add: take_bit_nat_eq_self)
    moreover have "bit (unat n) b" using that by (simp add: bit_unsigned_iff)
    ultimately have "bit (take_bit 21 (unat n)) b" by simp
    then show ?thesis by (simp add: bit_take_bit_iff)
  qed
  have "\<exists>b. bit n b \<and> 6 \<le> b"
  proof (rule ccontr)
    assume "\<not> ?thesis"
    then have "take_bit 6 n = n" by (auto simp: bit_eq_iff bit_take_bit_iff)
    then have "unat n = take_bit 6 (unat n)" by (metis unsigned_take_bit_eq)
    moreover have "take_bit 6 (unat n) < 64" using take_bit_nat_less_exp [of 6 "unat n"] by simp
    ultimately show False using assms(1) by (simp add: word_le_nat_alt)
  qed
  then obtain b where b: "bit n b" "6 \<le> b" by blast
  have "bit n t" using b Max_in [OF fin] by (auto simp: t_def)
  moreover have "6 \<le> t" using order.trans [OF b(2) Max_ge [OF fin, of b]] b(1) by (simp add: t_def)
  moreover have "\<not> bit n b'" if "t < b'" for b' using that Max_ge [OF fin, of b'] by (metis leD mem_Collect_eq t_def)
  ultimately show thesis using that small by blast
qed

lemma and_1_bit: "drop_bit b (n :: u32) AND 1 \<noteq> 0 \<longleftrightarrow> bit n b"
  by (simp add: and_one_eq bit_iff_odd_drop_bit odd_iff_mod_2_eq_one)

lemma drop6: "drop_bit 6 (n :: u32) \<noteq> 0 \<longleftrightarrow> 64 \<le> n"
proof -
  have "unat (drop_bit 6 n) = unat n div 64" by (simp add: drop_bit_eq_div unat_div)
  moreover have "unat (drop_bit 6 n) = 0 \<longleftrightarrow> drop_bit 6 n = 0" by (rule unsigned_eq_0_iff)
  moreover have "unat n div 64 = 0 \<longleftrightarrow> unat n < 64" by (simp add: div_eq_0_iff)
  ultimately have "drop_bit 6 n = 0 \<longleftrightarrow> unat n < 64" by simp
  then show ?thesis by (auto simp: word_le_nat_alt)
qed

lemma small_u32: "k < 21 \<Longrightarrow> unat (word_of_nat k :: u32) = k" "k < 21 \<Longrightarrow> uint (word_of_nat k :: u32) = int k"
proof -
  show u: "k < 21 \<Longrightarrow> unat (word_of_nat k :: u32) = k" by (simp add: unat_of_nat take_bit_nat_eq_self)
  show "k < 21 \<Longrightarrow> uint (word_of_nat k :: u32) = int k" by (simp only: uint_nat u)
qed

text \<open>Exponent and shift of a run of \<open>n\<close> ticks.\<close>

definition run_split :: "u32 \<Rightarrow> u32 \<times> u32" where
  "run_split n = (if drop_bit 6 n \<noteq> 0 then (lead_bit n - 5, lead_bit n - 6) else (0, 0))"

definition run_index :: "u32 \<times> u32 \<Rightarrow> u32 \<Rightarrow> bool \<Rightarrow> int" where
  "run_index es n level = (let addr = push_bit 6 (uint (fst es)) OR uint (drop_bit (unat (snd es)) n AND 63)
     in if level then addr OR 1024 else addr)"

lemma run_split_lead:
  assumes "64 \<le> n" "n \<le> SymbolMaxCount"
  obtains t where "6 \<le> t" "t < 21" "Len32 n = Suc t" "run_split n = (word_of_nat (t - 5), word_of_nat (t - 6))"
proof -
  obtain t where t: "6 \<le> t" "t < 21" "bit n t" "\<And>b. t < b \<Longrightarrow> \<not> bit n b" using lead_exists [OF assms] by blast
  have "lead_bit n = word_of_nat t"
    unfolding lead_bit_def and_1_bit by (rule fold_lead) (use t in auto)
  moreover have "Len32 n = Suc t"
    unfolding Len32_def by (rule length_drop_lead) (use t in auto)
  moreover have "(word_of_nat t :: u32) - 5 = word_of_nat (t - 5)" "(word_of_nat t :: u32) - 6 = word_of_nat (t - 6)"
    using t by (simp_all add: of_nat_diff)
  ultimately show thesis using that t assms by (simp add: run_split_def drop6)
qed

lemma run_index_is_SymbolIndex:
  assumes "n \<le> SymbolMaxCount"
  shows "run_index (run_split n) n level = SymbolIndex level n"
proof (cases "64 \<le> n")
  case True
  obtain t where t: "6 \<le> t" "t < 21" "Len32 n = Suc t" "run_split n = (word_of_nat (t - 5), word_of_nat (t - 6))"
    using run_split_lead [OF True assms] by blast
  have "uint (word_of_nat (t - 5) :: u32) = int (t - 5)" "unat (word_of_nat (t - 6) :: u32) = t - 6"
    by (rule small_u32; use t in simp)+
  moreover have "\<not> SymbolMaxCount < n" using assms by simp
  ultimately show ?thesis using True t by (simp add: SymbolIndex_def run_index_def Let_def)
next
  case False
  moreover have "\<not> SymbolMaxCount < n" using assms by simp
  ultimately show ?thesis by (simp add: SymbolIndex_def run_index_def run_split_def drop6 Let_def)
qed

lemma run_index_bounds:
  assumes "n \<le> SymbolMaxCount"
  shows "0 \<le> run_index (run_split n) n level \<and> run_index (run_split n) n level < 2048"
proof -
  have e: "uint (fst (run_split n)) < 16"
  proof (cases "64 \<le> n")
    case True
    obtain t where t: "6 \<le> t" "t < 21" "run_split n = (word_of_nat (t - 5), word_of_nat (t - 6))"
      using run_split_lead [OF True assms] by blast
    then show ?thesis using small_u32(2) [of "t - 5"] by simp
  qed (simp add: run_split_def drop6)
  let ?a = "push_bit 6 (uint (fst (run_split n)))" and ?b = "uint (drop_bit (unat (snd (run_split n))) n AND 63)"
  have a: "0 \<le> ?a" "?a < 2 ^ 10" using e by (simp_all add: push_bit_eq_mult)
  have "?b < 64" using AND_upper2 [of 63] by (simp add: uint_and)
  then have b: "0 \<le> ?b" "?b < 2 ^ 10" by simp_all
  have ab: "0 \<le> ?a OR ?b" "?a OR ?b < 2 ^ 10" using OR_upper [OF a b(2)] a b by simp_all
  have "(?a OR ?b) OR 1024 < 2 ^ 11" by (rule OR_upper) (use ab in simp_all)
  moreover have "0 \<le> (?a OR ?b) OR 1024" using ab by simp
  ultimately have hi: "0 \<le> (?a OR ?b) OR 1024 \<and> (?a OR ?b) OR 1024 < 2048" by simp
  have lo: "0 \<le> ?a OR ?b \<and> ?a OR ?b < 2048" using ab by simp
  show ?thesis unfolding run_index_def Let_def
    by (cases level) (simp_all only: if_True if_False hi lo)
qed

section \<open>No index out of range\<close>

definition cfg_ok :: "sym_cfg \<Rightarrow> bool" where
  "cfg_ok c \<longleftrightarrow> length (yc_Table c) = 2048 \<and> 0 \<le> yc_Prescale c \<and> yc_Prescale c \<le> 7 \<and> 0 \<le> yc_LeadLen c \<and> yc_LeadLen c \<le> 4
     \<and> 0 \<le> yc_FrameUnits c \<and> yc_FrameUnits c \<le> 63 \<and> 0 \<le> yc_Period c \<and> yc_Period c \<le> 63 \<and> 0 \<le> yc_Phase0 c
     \<and> yc_Phase0 c \<le> 63 \<and> (yc_Period c \<noteq> 0 \<longrightarrow> yc_Phase0 c < yc_Period c) \<and> 0 \<le> yc_K c \<and> yc_K c \<le> 1023"

definition pipe_ok :: "sym_cfg \<Rightarrow> sym_pipe \<Rightarrow> bool" where
  "pipe_ok c p \<longleftrightarrow> yp_n1 p \<le> SymbolMaxCount \<and> yp_n2 p \<le> SymbolMaxCount \<and> (yp_e2 p, yp_s2 p) = run_split (yp_n2 p)
     \<and> 0 \<le> yp_addr3 p \<and> yp_addr3 p < 2048 \<and> length (yp_lStep p) = 4"

text \<open>The frame stage counts leader steps below its length, and none in a frame.\<close>

definition frame_ok :: "sym_cfg \<Rightarrow> sym_frame \<Rightarrow> bool" where
  "frame_ok c f \<longleftrightarrow> 0 \<le> yf_got f \<and> (yf_got f = 0 \<or> (\<not> yf_inFrame f \<and> (yf_got f < yc_LeadLen c \<or> yf_got f = 1 \<and> yc_LeadLen c = 0)))"

definition units_ok :: "sym_units \<Rightarrow> bool" where
  "units_ok u \<longleftrightarrow> length (yu_dv u) = 4 \<and> length (yu_dbit u) = 4 \<and> 0 \<le> yu_rr u \<and> 0 \<le> yu_fu u \<and> yu_fu u < 64"

definition window_ok :: "sym_window \<Rightarrow> bool" where
  "window_ok w \<longleftrightarrow> 0 \<le> yw_n w \<and> yw_n w \<le> 1023 \<and> 0 \<le> yw_ph w \<and> yw_ph w < 64"

definition sym_ok :: "sym_cfg \<Rightarrow> sym \<Rightarrow> bool" where
  "sym_ok c s \<longleftrightarrow> yr_cnt (ys_run s) \<le> SymbolMaxCount \<and> pipe_ok c (ys_pipe s) \<and> frame_ok c (ys_frame s)
     \<and> units_ok (ys_units s) \<and> window_ok (ys_window s)"

lemma sym_ok_new: "cfg_ok c \<Longrightarrow> sym_ok c NewSymbolTrigger"
  by (simp add: sym_ok_def NewSymbolTrigger_def pipe_ok_def frame_ok_def units_ok_def window_ok_def run_split_def SymbolMaxCount_def)

lemma run_cnt_ok:
  assumes "yr_cnt r \<le> SymbolMaxCount"
  shows "yr_cnt (step_run c a b reset r) \<le> SymbolMaxCount"
proof -
  have "yr_cnt r + 1 \<le> SymbolMaxCount" if "yr_cnt r \<noteq> SymbolMaxCount"
    using assms that by (simp add: inc_le)
  then show ?thesis using assms by (auto simp: step_run_def Let_def)
qed

lemma step_pipe_ok:
  assumes "pipe_ok c p" "yr_cnt r \<le> SymbolMaxCount" "cfg_ok c"
  obtains p' where "step_pipe c reset r p = Some p'" "pipe_ok c p'"
proof -
  obtain e s where es: "run_split (yp_n1 p) = (e, s)" by (rule prod.exhaust)
  have idx: "run_index (yp_e2 p, yp_s2 p) (yp_n2 p) (yp_l2 p) \<ge> 0" "run_index (yp_e2 p, yp_s2 p) (yp_n2 p) (yp_l2 p) < 2048"
    using assms(1) run_index_bounds [of "yp_n2 p" "yp_l2 p"] by (auto simp: pipe_ok_def)
  have "0 \<le> yp_addr3 p" "yp_addr3 p < 2048" "length (yc_Table c) = 2048" using assms by (simp_all add: pipe_ok_def cfg_ok_def)
  then have "0 \<le> yp_addr3 p \<and> nat (yp_addr3 p) < length (yc_Table c)" by (simp add: nat_less_iff)
  then have "step_pipe c reset r p \<noteq> None" by (simp add: step_pipe_def Let_def case_prod_unfold)
  then obtain p' where p': "step_pipe c reset r p = Some p'" by blast
  have "yp_n1 p' = yr_cnt r" "yp_n2 p' = yp_n1 p" "(yp_e2 p', yp_s2 p') = run_split (yp_n1 p)" "length (yp_lStep p') = 4"
    "yp_addr3 p' = run_index (yp_e2 p, yp_s2 p) (yp_n2 p) (yp_l2 p)"
    using p' by (auto simp: step_pipe_def run_split_def run_index_def Let_def split: if_splits)
  then have "pipe_ok c p'" using assms idx by (simp add: pipe_ok_def)
  then show thesis using p' that by blast
qed

lemma step_frame_ok: "frame_ok c f \<Longrightarrow> cfg_ok c \<Longrightarrow> frame_ok c (fst (step_frame c p u f))"
  by (auto simp: step_frame_def frame_ok_def cfg_ok_def Let_def split: if_splits)

lemma and_63: "0 \<le> (x :: int) AND 63" "(x :: int) AND 63 < 64"
  using AND_upper2 [of 63 x] by simp_all

lemma step_units_ok: "units_ok u \<Longrightarrow> units_ok (step_units c reset r ru u)"
  using and_63 by (auto simp: step_units_def units_ok_def Let_def)

lemma step_window_ok: "window_ok w \<Longrightarrow> cfg_ok c \<Longrightarrow> window_ok (step_window c reset op bv w)"
  using and_63 by (auto simp: step_window_def window_ok_def cfg_ok_def Let_def split: option.splits)

lemma Step_ok:
  assumes "sym_ok c s" "cfg_ok c"
  obtains m s' where "Step c a b reset s = Some (m, s')" "sym_ok c s'"
proof -
  obtain p' where p': "step_pipe c reset (ys_run s) (ys_pipe s) = Some p'" "pipe_ok c p'"
    using assms step_pipe_ok [of c "ys_pipe s" "ys_run s" reset] by (auto simp: sym_ok_def)
  obtain f op bv where f: "step_frame c (ys_pipe s) (ys_units s) (ys_frame s) = (f, op, bv)" by (rule prod_cases3)
  have "frame_ok c f" using step_frame_ok [of c "ys_frame s" "ys_pipe s" "ys_units s"] assms f by (simp add: sym_ok_def)
  then show thesis
    using that assms p' f run_cnt_ok step_units_ok step_window_ok
    by (auto simp: Step_def Let_def sym_ok_def cfg_ok_def frame_ok_def)
qed

section \<open>The length of a run\<close>

definition line :: "sym_cfg \<Rightarrow> bool \<times> bool \<Rightarrow> bool" where
  "line c x = (let la = (fst x \<noteq> yc_InvA c); lb = (snd x \<noteq> yc_InvB c) in if yc_AndAB c then la \<and> lb else la)"

definition run_clock :: "sym_cfg \<Rightarrow> bool \<times> bool \<Rightarrow> sym_run \<Rightarrow> sym_run" where
  "run_clock c x r = step_run c (fst x) (snd x) False r"

lemma run_clock_fields [simp]:
  "yr_r0 (run_clock c x r) = line c x" "yr_rp (run_clock c x r) = yr_r0 r" "yr_primed (run_clock c x r)"
  by (auto simp: run_clock_def step_run_def line_def Let_def)

definition ticks :: "sym_cfg \<Rightarrow> nat \<Rightarrow> u32" where
  "ticks c k = word_of_nat (min 2097151 (k div 2 ^ nat (yc_Prescale c)))"

lemma pmask_test:
  assumes "p \<le> 7"
  shows "((word_of_nat (k mod 128) :: u32) AND (push_bit p 1 - 1) = push_bit p 1 - 1) \<longleftrightarrow> Suc k mod 2 ^ p = 0"
proof -
  have m: "(push_bit p 1 - 1 :: u32) = mask p" by (simp add: mask_eq_exp_minus_1 push_bit_eq_mult)
  have dvd: "(2 :: nat) ^ p dvd 128" using assms le_imp_power_dvd [of p 7 2] by simp
  have "unat ((word_of_nat (k mod 128) :: u32) AND mask p) = k mod 2 ^ p"
  proof -
    have "unat ((word_of_nat (k mod 128) :: u32) AND mask p) = take_bit p (unat (word_of_nat (k mod 128) :: u32))"
      by (simp add: take_bit_eq_mask [symmetric] unsigned_take_bit_eq)
    also have "\<dots> = take_bit p (k mod 128)"
      by (simp add: unat_of_nat take_bit_nat_eq_self)
    also have "\<dots> = k mod 2 ^ p" using dvd by (simp add: take_bit_eq_mod mod_mod_cancel)
    finally show ?thesis .
  qed
  moreover have "unat (mask p :: u32) = 2 ^ p - 1"
  proof -
    have "p \<in> {0, 1, 2, 3, 4, 5, 6, 7}" using assms by auto
    then show ?thesis by (auto simp: mask_eq_exp_minus_1)
  qed
  ultimately have "((word_of_nat (k mod 128) :: u32) AND mask p = mask p) \<longleftrightarrow> k mod 2 ^ p = 2 ^ p - 1"
    by (simp add: word_unat_eq_iff)
  also have "\<dots> \<longleftrightarrow> Suc k mod 2 ^ p = 0" by (auto simp: mod_Suc)
  finally show ?thesis using m by simp
qed

lemma pc_next: "(word_of_nat (k mod 128) :: u32) + 1 = word_of_nat (Suc (k mod 128))"
  by simp

lemma pc_wrap: "((word_of_nat (k mod 128) :: u32) + 1) AND 127 = word_of_nat (Suc k mod 128)"
proof -
  have m: "(127 :: u32) = mask 7" by (simp add: mask_eq_exp_minus_1)
  have "unat ((word_of_nat (Suc (k mod 128)) :: u32) AND mask 7) = take_bit 7 (Suc (k mod 128))"
    by (simp add: take_bit_eq_mask [symmetric] unsigned_take_bit_eq unat_of_nat take_bit_nat_eq_self del: of_nat_Suc)
  also have "\<dots> = Suc k mod 128" by (simp add: take_bit_eq_mod mod_Suc_eq)
  finally have "unat ((word_of_nat (Suc (k mod 128)) :: u32) AND mask 7) = unat (word_of_nat (Suc k mod 128) :: u32)"
    by (simp add: unat_of_nat take_bit_nat_eq_self del: of_nat_Suc)
  then show ?thesis unfolding m pc_next by (simp only: word_unat_eq_iff)
qed

lemma ticks_step:
  assumes "0 \<le> yc_Prescale c" "yc_Prescale c \<le> 7"
  shows "ticks c (Suc k) = (if (word_of_nat (k mod 128) :: u32) AND (push_bit (nat (yc_Prescale c)) 1 - 1) = push_bit (nat (yc_Prescale c)) 1 - 1
      \<and> ticks c k \<noteq> SymbolMaxCount then ticks c k + 1 else ticks c k)"
proof -
  let ?p = "nat (yc_Prescale c)"
  have p: "?p \<le> 7" using assms by simp
  have d: "Suc k div 2 ^ ?p = (if Suc k mod 2 ^ ?p = 0 then Suc (k div 2 ^ ?p) else k div 2 ^ ?p)" by (simp add: div_Suc)
  have mx: "ticks c k = SymbolMaxCount \<longleftrightarrow> 2097151 \<le> k div 2 ^ ?p"
    by (auto simp: ticks_def SymbolMaxCount_def word_unat_eq_iff unat_of_nat take_bit_nat_eq_self min_def)
  have top: "(word_of_nat (k div 2 ^ ?p) :: u32) = 2097150" if "2097150 \<le> k div 2 ^ ?p" "k div 2 ^ ?p < 2097151"
  proof -
    have "k div 2 ^ ?p = 2097150" using that by linarith
    then show ?thesis by simp
  qed
  show ?thesis
    unfolding pmask_test [OF p] using d mx by (auto simp: ticks_def min_def not_le SymbolMaxCount_def top)
qed

text \<open>While the line keeps its level after an edge, the counter counts ticks.\<close>

lemma steady_run:
  assumes "edgeNow r" "yr_r0 r = l" "\<forall>x\<in>set (y # xs). line c x = l" "0 \<le> yc_Prescale c" "yc_Prescale c \<le> 7"
  shows "let r' = fold (run_clock c) (y # xs) r in
    yr_r0 r' = l \<and> yr_rp r' = l \<and> yr_pc r' = word_of_nat (length xs mod 128) \<and> yr_cnt r' = ticks c (length xs)"
  using assms(3)
proof (induction xs rule: rev_induct)
  case Nil
  then show ?case using assms(1,2) by (simp add: run_clock_def step_run_def line_def ticks_def Let_def)
next
  case (snoc x xs)
  let ?r = "fold (run_clock c) (y # xs) r"
  have ih: "yr_r0 ?r = l" "yr_rp ?r = l" "yr_pc ?r = word_of_nat (length xs mod 128)" "yr_cnt ?r = ticks c (length xs)"
    using snoc by (simp_all add: Let_def)
  then have "\<not> edgeNow ?r" by (simp add: edgeNow_def)
  then have "yr_pc (run_clock c x ?r) = word_of_nat (Suc (length xs) mod 128)"
    "yr_cnt (run_clock c x ?r) = ticks c (Suc (length xs))"
    using ih pc_wrap [of "length xs"] ticks_step [OF assms(4,5), of "length xs"]
    by (simp_all add: run_clock_def step_run_def Let_def)
  then show ?case using ih snoc.prems by (simp add: Let_def)
qed

section \<open>A run and its code\<close>

fun Steps :: "sym_cfg \<Rightarrow> (bool \<times> bool) list \<Rightarrow> sym \<Rightarrow> sym option" where
  "Steps c [] s = Some s"
| "Steps c (x # xs) s = (case Step c (fst x) (snd x) False s of None \<Rightarrow> None | Some (m, s') \<Rightarrow> Steps c xs s')"

lemma Steps_append: "Steps c (xs @ ys) s = Option.bind (Steps c xs s) (Steps c ys)"
  by (induction xs arbitrary: s) (auto split: option.splits)

lemma Step_stages:
  assumes "Step c a b reset s = Some (m, s')"
  shows "ys_run s' = step_run c a b reset (ys_run s)" "step_pipe c reset (ys_run s) (ys_pipe s) = Some (ys_pipe s')"
  using assms by (auto simp: Step_def Let_def split: if_splits prod.splits option.splits)

lemma Steps_ok:
  assumes "sym_ok c s" "cfg_ok c"
  obtains s' where "Steps c xs s = Some s'" "sym_ok c s'" "ys_run s' = fold (run_clock c) xs (ys_run s)"
proof -
  have "\<exists>s'. Steps c xs s = Some s' \<and> sym_ok c s' \<and> ys_run s' = fold (run_clock c) xs (ys_run s)"
    using assms(1)
  proof (induction xs arbitrary: s)
    case (Cons x xs)
    obtain m s1 where s1: "Step c (fst x) (snd x) False s = Some (m, s1)" "sym_ok c s1"
      using Step_ok [OF Cons.prems assms(2), of "fst x" "snd x" False] by blast
    then show ?case using Cons.IH [OF s1(2)] Step_stages(1) [OF s1(1)] by (simp add: run_clock_def)
  qed simp
  then show thesis using that by blast
qed

text \<open>What the frame stage is told of a code.\<close>

definition classified :: "sym_pipe \<Rightarrow> byte \<Rightarrow> bool" where
  "classified p q \<longleftrightarrow> yp_dEnd p = (q AND 15 = 0) \<and> yp_dBit p = (q AND 15 = 2 \<or> q AND 15 = 3) \<and> yp_dVal p = (q AND 1 \<noteq> 0)
     \<and> yp_dRestart p = (q AND 15 = 4) \<and> yp_lSep p = (drop_bit 4 q = 1)
     \<and> yp_lStep p = [drop_bit 4 q = 2, drop_bit 4 q = 3, drop_bit 4 q = 4, drop_bit 4 q = 5]"

lemma step_pipe_fields:
  assumes "step_pipe c False r p = Some p'"
  shows "yp_v1 p' = edgeNow r" "yp_l1 p' = yr_rp r" "yp_n1 p' = yr_cnt r"
    "yp_v2 p' = yp_v1 p" "yp_l2 p' = yp_l1 p" "yp_n2 p' = yp_n1 p" "(yp_e2 p', yp_s2 p') = run_split (yp_n1 p)"
    "yp_v3 p' = yp_v2 p" "yp_addr3 p' = run_index (yp_e2 p, yp_s2 p) (yp_n2 p) (yp_l2 p)"
    "yp_v4 p' = yp_v3 p" "yp_q4 p' = yc_Table c ! nat (yp_addr3 p)" "yp_v5 p' = yp_v4 p" "classified p' (yp_q4 p)"
  using assms by (auto simp: step_pipe_def classified_def run_split_def run_index_def Let_def split: if_splits)

lemma five_clocks:
  assumes "step_pipe c False r0 p0 = Some p1" "step_pipe c False r1 p1 = Some p2" "step_pipe c False r2 p2 = Some p3"
    "step_pipe c False r3 p3 = Some p4" "step_pipe c False r4 p4 = Some p5" "yr_cnt r0 \<le> SymbolMaxCount"
  shows "yp_v5 p5 = edgeNow r0 \<and> classified p5 (yc_Table c ! nat (SymbolIndex (yr_rp r0) (yr_cnt r0)))"
proof -
  have "yp_addr3 p3 = SymbolIndex (yr_rp r0) (yr_cnt r0)"
    using step_pipe_fields [OF assms(1)] step_pipe_fields [OF assms(2)] step_pipe_fields [OF assms(3)]
      run_index_is_SymbolIndex [OF assms(6)] by simp
  then show ?thesis
    using step_pipe_fields [OF assms(1)] step_pipe_fields [OF assms(2)] step_pipe_fields [OF assms(3)]
      step_pipe_fields [OF assms(4)] step_pipe_fields [OF assms(5)] by simp
qed

lemma Steps_five:
  assumes "Steps c [x1, x2, x3, x4, x5] s = Some s'" "yr_cnt (ys_run s) \<le> SymbolMaxCount"
  shows "yp_v5 (ys_pipe s') = edgeNow (ys_run s)
    \<and> classified (ys_pipe s') (yc_Table c ! nat (SymbolIndex (yr_rp (ys_run s)) (yr_cnt (ys_run s))))"
  using assms(1) five_clocks [OF _ _ _ _ _ assms(2)]
  by (auto dest!: Step_stages(2) split: option.splits)

text \<open>
  C38: A run of the line is classified by its level and its length: however it began, five clocks after the line leaves
  a level it kept for some clocks, the code in front of the frame stage is the table's entry at \<open>SymbolIndex\<close> of that
  level and of the run's prescaled ticks, saturated as the counter saturates, and no index is out of range on the way.
\<close>

theorem run_is_classified:
  assumes "cfg_ok c" "sym_ok c s" "edgeNow (ys_run s)" "yr_r0 (ys_run s) = l" "\<forall>x\<in>set (y # xs). line c x = l"
    and "line c z = (\<not> l)" "length ws = 5"
  shows "\<exists>s'. Steps c ((y # xs) @ z # ws) s = Some s' \<and> yp_v5 (ys_pipe s')
    \<and> classified (ys_pipe s') (yc_Table c ! nat (SymbolIndex l (word_of_nat (min 2097151 (length (xs @ [z]) div 2 ^ nat (yc_Prescale c))))))"
proof -
  have pre: "0 \<le> yc_Prescale c" "yc_Prescale c \<le> 7" using assms(1) by (simp_all add: cfg_ok_def)
  obtain s1 where s1: "Steps c (y # xs) s = Some s1" "sym_ok c s1" "ys_run s1 = fold (run_clock c) (y # xs) (ys_run s)"
    using Steps_ok [OF assms(2,1)] by blast
  have r1: "yr_r0 (ys_run s1) = l" "yr_rp (ys_run s1) = l" "yr_pc (ys_run s1) = word_of_nat (length xs mod 128)"
    "yr_cnt (ys_run s1) = ticks c (length xs)"
    using steady_run [OF assms(3-5) pre] s1(3) by (simp_all add: Let_def)
  obtain s2 where s2: "Steps c [z] s1 = Some s2" "sym_ok c s2" "ys_run s2 = run_clock c z (ys_run s1)"
    using Steps_ok [OF s1(2) assms(1), of "[z]"] by auto
  have "\<not> edgeNow (ys_run s1)" using r1 by (simp add: edgeNow_def)
  then have r2: "yr_cnt (ys_run s2) = ticks c (length (xs @ [z]))"
    using r1 s2(3) ticks_step [OF pre, of "length xs"] by (simp add: run_clock_def step_run_def Let_def)
  have edge: "edgeNow (ys_run s2)" "yr_rp (ys_run s2) = l"
    using s2(3) r1(1) assms(6) by (simp_all add: edgeNow_def)
  obtain x1 x2 x3 x4 x5 where ws: "ws = [x1, x2, x3, x4, x5]"
    using assms(7) by (auto simp: length_Suc_conv numeral_eq_Suc)
  obtain s3 where s3: "Steps c ws s2 = Some s3"
    using Steps_ok [OF s2(2) assms(1)] by blast
  have "yr_cnt (ys_run s2) \<le> SymbolMaxCount" using s2(2) by (simp add: sym_ok_def)
  then have "yp_v5 (ys_pipe s3) \<and> classified (ys_pipe s3) (yc_Table c ! nat (SymbolIndex l (ticks c (length (xs @ [z])))))"
    using Steps_five [OF s3 [unfolded ws]] edge r2 by simp
  moreover have "Steps c ((y # xs) @ [z] @ ws) s = Some s3"
    by (simp only: Steps_append s1(1) s2(1) s3 bind.bind_lunit)
  ultimately show ?thesis unfolding ticks_def by auto
qed

definition demo_symbol_cfg :: sym_cfg where
  "demo_symbol_cfg = \<lparr>yc_InvA = False, yc_InvB = False, yc_AndAB = False, yc_ClockFall = False, yc_Mode = 0, yc_LeadLen = 0,
     yc_Prescale = 1, yc_UnitQ8 = 2048, yc_FrameUnits = 0, yc_Period = 0, yc_Phase0 = 0, yc_K = 1, yc_Pattern = 1,
     yc_Mask = 1, yc_Table = replicate 1024 2 @ replicate 1024 3\<rparr>"

definition demo_symbol_state :: sym where
  "demo_symbol_state = NewSymbolTrigger\<lparr>ys_run := \<lparr>yr_r0 = True, yr_d0 = True, yr_rp = False, yr_primed = True, yr_pc = 5, yr_cnt = 9\<rparr>\<rparr>"

lemma run_is_classified_witness:
  "\<exists>s'. Steps demo_symbol_cfg ([(True, True), (True, True), (True, True)] @ (False, True) # replicate 5 (False, True)) demo_symbol_state = Some s'
     \<and> yp_v5 (ys_pipe s') \<and> yp_dBit (ys_pipe s') \<and> yp_dVal (ys_pipe s')"
proof -
  have c: "cfg_ok demo_symbol_cfg" by (simp add: cfg_ok_def demo_symbol_cfg_def)
  have s: "sym_ok demo_symbol_cfg demo_symbol_state"
    by (simp add: sym_ok_def demo_symbol_state_def NewSymbolTrigger_def pipe_ok_def frame_ok_def units_ok_def window_ok_def
        run_split_def SymbolMaxCount_def)
  have e: "edgeNow (ys_run demo_symbol_state)" "yr_r0 (ys_run demo_symbol_state) = True"
    by (simp_all add: edgeNow_def demo_symbol_state_def)
  have l: "\<forall>x\<in>set [(True, True), (True, True), (True, True)]. line demo_symbol_cfg x = True"
    "line demo_symbol_cfg (False, True) = (\<not> True)"
    by (simp_all add: line_def demo_symbol_cfg_def)
  have i: "nat (SymbolIndex True (word_of_nat (min 2097151 (length [(True, True), (True, True), (False, True)] div 2 ^ nat (yc_Prescale demo_symbol_cfg))))) = 1025"
    by (simp add: SymbolIndex_def SymbolMaxCount_def demo_symbol_cfg_def Let_def word_le_nat_alt)
  have q: "yc_Table demo_symbol_cfg ! 1025 = 3" by (simp add: demo_symbol_cfg_def nth_append)
  have "length (replicate 5 (False, True)) = 5" by simp
  from run_is_classified [OF c s e l this] show ?thesis
    unfolding append_Cons append_Nil i q classified_def by auto
qed

end
