(* ===== verification/SymbolWindow.thy ===== *)
theory SymbolWindow
  imports SymbolClasses "HOL-Library.Sublist"
begin

text \<open>
  What the symbol trigger matches: the leader that opens a frame is a run of consecutive codes, and the pipelined
  window compare is a compare of the bits seen so far, two clocks after the bit or the opening it answers.
\<close>

section \<open>The leader\<close>

definition lead_of :: "byte \<Rightarrow> nat" where
  "lead_of q = unat (drop_bit 4 q)"

definition leader :: "sym_cfg \<Rightarrow> nat list" where
  "leader c = [2..<2 + nat (yc_LeadLen c)]"

text \<open>The frame stage over clocks, until a frame opens.\<close>

fun frame_run :: "sym_cfg \<Rightarrow> (sym_pipe \<times> sym_units) list \<Rightarrow> sym_frame \<Rightarrow> sym_frame \<times> bool" where
  "frame_run c [] f = (f, False)"
| "frame_run c (pu # ps) f = (case step_frame c (fst pu) (snd pu) f of
     (f', op, _) \<Rightarrow> if op then (f', True) else frame_run c ps f')"

definition shows_code :: "sym_pipe \<Rightarrow> byte option \<Rightarrow> bool" where
  "shows_code p oq = (case oq of None \<Rightarrow> \<not> yp_v5 p | Some q \<Rightarrow> yp_v5 p \<and> classified p q)"

text \<open>The leader codes seen, separators left out.\<close>

definition lead_codes :: "byte option list \<Rightarrow> nat list" where
  "lead_codes os = filter (\<lambda>h. h \<noteq> 1) (map (\<lambda>oq. lead_of (the oq)) (filter (\<lambda>oq. oq \<noteq> None) os))"

definition got_rel :: "nat \<Rightarrow> nat list \<Rightarrow> bool" where
  "got_rel g hs \<longleftrightarrow> suffix [2..<2 + g] hs \<and> (\<forall>j. 1 \<le> j \<longrightarrow> suffix [2..<2 + j] hs \<longrightarrow> j = g)"

lemma suffix_lead_snoc: "suffix [2..<2 + Suc j] (hs @ [h]) \<longleftrightarrow> h = j + 2 \<and> suffix [2..<2 + j] hs"
  by (auto simp: suffix_snoc)

lemma got_rel_snoc:
  assumes "got_rel g hs"
  shows "got_rel (if h = g + 2 then Suc g else if h = 2 then 1 else 0) (hs @ [h])"
proof -
  have uni: "j = (if h = g + 2 then Suc g else if h = 2 then 1 else 0)"
    if j: "1 \<le> j" "suffix [2..<2 + j] (hs @ [h])" for j
  proof -
    obtain i where i: "j = Suc i" using j(1) by (cases j) auto
    then have h: "h = i + 2" "suffix [2..<2 + i] hs" using j(2) suffix_lead_snoc by auto
    then show ?thesis using i assms by (cases i) (auto simp: got_rel_def)
  qed
  moreover have "suffix [2..<2 + (if h = g + 2 then Suc g else if h = 2 then 1 else 0)] (hs @ [h])"
  proof -
    have "suffix [2..<2 + g] hs" using assms unfolding got_rel_def by blast
    then have "h = g + 2 \<Longrightarrow> suffix [2..<2 + Suc g] (hs @ [h])" using suffix_lead_snoc by blast
    moreover have "suffix [2..<2 + 0] hs" by simp
    then have "h = 2 \<Longrightarrow> suffix [2..<2 + Suc 0] (hs @ [h])" using suffix_lead_snoc [of 0 hs h] by simp
    ultimately show ?thesis by simp
  qed
  ultimately show ?thesis unfolding got_rel_def by blast
qed

text \<open>One code outside a frame.\<close>

lemma step_frame_code:
  fixes u :: sym_units
  assumes "yp_v5 p" "classified p q" "1 \<le> yc_LeadLen c" "yc_LeadLen c \<le> 4" "g < nat (yc_LeadLen c)"
  defines "h \<equiv> lead_of q" and "r \<equiv> step_frame c p u \<lparr>yf_inFrame = False, yf_got = int g\<rparr>"
  shows "fst (snd r) \<longleftrightarrow> h \<noteq> 1 \<and> (if h = g + 2 then Suc g else if h = 2 then 1 else 0) = nat (yc_LeadLen c)"
    and "\<not> fst (snd r) \<Longrightarrow> fst r = \<lparr>yf_inFrame = False, yf_got = int (if h = 1 then g else if h = g + 2 then Suc g else if h = 2 then 1 else 0)\<rparr>"
proof -
  have hi: "drop_bit 4 q = v \<longleftrightarrow> h = unat v" for v by (simp add: h_def lead_of_def word_unat_eq_iff)
  have g: "g = 0 \<or> g = 1 \<or> g = 2 \<or> g = 3" using assms(4,5) by auto
  have "yp_lStep p = [h = unat (2 :: byte), h = unat (3 :: byte), h = unat (4 :: byte), h = unat (5 :: byte)]"
    "yp_lSep p \<longleftrightarrow> h = unat (1 :: byte)"
    using assms(2) by (simp_all only: classified_def hi)
  then have l: "yp_lStep p = [h = 2, h = 3, h = 4, h = 5]" "yp_lSep p \<longleftrightarrow> h = 1" by simp_all
  have a: "nat (int g AND 3) = g" using g by (elim disjE) simp_all
  have st: "yp_lStep p ! nat (int g AND 3) \<longleftrightarrow> h = g + 2" "yp_lStep p ! 0 \<longleftrightarrow> h = 2" "yp_lSep p \<longleftrightarrow> h = 1"
    using g by (elim disjE, simp_all only: a) (simp_all add: l, auto)
  have lt: "int g < yc_LeadLen c" using assms(5) by simp
  show "fst (snd r) \<longleftrightarrow> h \<noteq> 1 \<and> (if h = g + 2 then Suc g else if h = 2 then 1 else 0) = nat (yc_LeadLen c)"
    using assms(1,3,4) lt st by (auto simp: r_def step_frame_def Let_def)
  show "\<not> fst (snd r) \<Longrightarrow> fst r = \<lparr>yf_inFrame = False, yf_got = int (if h = 1 then g else if h = g + 2 then Suc g else if h = 2 then 1 else 0)\<rparr>"
    using assms(1,3,4) lt st by (auto simp: r_def step_frame_def Let_def split: if_splits)
qed

lemma step_frame_idle:
  assumes "\<not> yp_v5 p"
  shows "fst (step_frame c p u f) = f \<and> \<not> fst (snd (step_frame c p u f))"
  using assms by (simp add: step_frame_def Let_def)

lemma frame_run_leader:
  assumes "list_all2 (\<lambda>pu oq. shows_code (fst pu) oq) ps os" "1 \<le> yc_LeadLen c" "yc_LeadLen c \<le> 4"
    and "g < nat (yc_LeadLen c)" "got_rel g hs" "\<not> sublist (leader c) hs"
  shows "snd (frame_run c ps \<lparr>yf_inFrame = False, yf_got = int g\<rparr>) \<longleftrightarrow> sublist (leader c) (hs @ lead_codes os)"
  using assms(1,4-6)
proof (induction ps os arbitrary: g hs rule: list_all2_induct)
  case Nil
  then show ?case by (simp add: lead_codes_def)
next
  case (Cons pu ps oq os)
  obtain p u where pu: "pu = (p, u)" by (rule prod.exhaust)
  show ?case
  proof (cases oq)
    case None
    then show ?thesis
      using Cons step_frame_idle [of p c u "\<lparr>yf_inFrame = False, yf_got = int g\<rparr>"]
      by (auto simp: pu shows_code_def lead_codes_def split: prod.splits)
  next
    case (Some q)
    let ?h = "lead_of q" and ?r = "step_frame c p u \<lparr>yf_inFrame = False, yf_got = int g\<rparr>"
    let ?g = "if ?h = g + 2 then Suc g else if ?h = 2 then 1 else 0"
    have code: "yp_v5 p" "classified p q" using Cons.hyps(1) Some by (simp_all add: pu shows_code_def)
    note s = step_frame_code [OF code assms(2,3) Cons.prems(1), where u = u]
    obtain f' op bv where r: "?r = (f', op, bv)" by (rule prod_cases3)
    have run: "snd (frame_run c (pu # ps) \<lparr>yf_inFrame = False, yf_got = int g\<rparr>) \<longleftrightarrow> op \<or> snd (frame_run c ps f')"
      by (simp add: pu r)
    show ?thesis
    proof (cases "?h = 1")
      case True
      then have "\<not> op" "f' = \<lparr>yf_inFrame = False, yf_got = int g\<rparr>" using s r by auto
      moreover have "lead_codes (oq # os) = lead_codes os" using Some True by (simp add: lead_codes_def)
      ultimately show ?thesis using run Cons.IH [OF Cons.prems] by simp
    next
      case False
      have lc: "hs @ lead_codes (oq # os) = (hs @ [?h]) @ lead_codes os" using Some False by (simp add: lead_codes_def)
      have rel: "got_rel ?g (hs @ [?h])" by (rule got_rel_snoc [OF Cons.prems(2)])
      have pos: "1 \<le> nat (yc_LeadLen c)" using assms(2) by simp
      have suf: "suffix (leader c) (hs @ [?h]) \<longleftrightarrow> ?g = nat (yc_LeadLen c)"
        using rel pos by (auto simp: got_rel_def leader_def)
      then have opn: "op \<longleftrightarrow> sublist (leader c) (hs @ [?h])"
        using s(1) r False Cons.prems(3) by (simp add: sublist_snoc)
      show ?thesis
      proof (cases op)
        case True
        then have "sublist (leader c) ((hs @ [?h]) @ lead_codes os)" using opn by (metis sublist_appendI sublist_order.order.trans append_Nil)
        then show ?thesis using run True lc by simp
      next
        case no: False
        have "?g \<noteq> nat (yc_LeadLen c)" using no s(1) r False by simp
        then have lt: "?g < nat (yc_LeadLen c)" using Cons.prems(1) pos by (auto split: if_splits)
        have "f' = \<lparr>yf_inFrame = False, yf_got = int ?g\<rparr>" using s(2) r no False by simp
        then show ?thesis using run no lc Cons.IH [OF lt rel] opn by simp
      qed
    qed
  qed
qed

text \<open>
  C39: Outside a frame, whatever codes arrive and on whatever clocks, a frame opens exactly when the leader steps 0 to
  \<open>LeadLen\<close> - 1 have come as consecutive codes, separator codes between them not counted.
\<close>

theorem leader_opens_the_frame:
  assumes "1 \<le> yc_LeadLen c" "yc_LeadLen c \<le> 4" "list_all2 (\<lambda>pu oq. shows_code (fst pu) oq) ps os"
  shows "snd (frame_run c ps \<lparr>yf_inFrame = False, yf_got = 0\<rparr>) \<longleftrightarrow> sublist (leader c) (lead_codes os)"
proof -
  have "leader c \<noteq> []" using assms(1) by (simp add: leader_def)
  then have "\<not> sublist (leader c) []" by simp
  moreover have "got_rel 0 []" by (simp add: got_rel_def)
  ultimately show ?thesis
    using frame_run_leader [OF assms(3,1,2), of 0 "[]"] assms(1) by simp
qed

text \<open>Step 0, a separator, step 0 again and step 1 open a frame of a leader of two.\<close>

definition lead_pipe :: "byte \<Rightarrow> sym_pipe" where
  "lead_pipe q = (ys_pipe NewSymbolTrigger)\<lparr>yp_v5 := True, yp_dEnd := (q AND 15 = 0), yp_dBit := (q AND 15 = 2 \<or> q AND 15 = 3),
     yp_dVal := (q AND 1 \<noteq> 0), yp_dRestart := (q AND 15 = 4), yp_lSep := (drop_bit 4 q = 1),
     yp_lStep := [drop_bit 4 q = 2, drop_bit 4 q = 3, drop_bit 4 q = 4, drop_bit 4 q = 5]\<rparr>"

lemma leader_opens_the_frame_witness:
  "snd (frame_run (demo_symbol_cfg\<lparr>yc_LeadLen := 2\<rparr>) (map (\<lambda>q. (lead_pipe q, ys_units NewSymbolTrigger)) [0x21, 0x11, 0x21, 0x31])
     \<lparr>yf_inFrame = False, yf_got = 0\<rparr>)"
proof -
  let ?c = "demo_symbol_cfg\<lparr>yc_LeadLen := 2\<rparr>"
  have "list_all2 (\<lambda>pu oq. shows_code (fst pu) oq) (map (\<lambda>q. (lead_pipe q, ys_units NewSymbolTrigger)) [0x21, 0x11, 0x21, 0x31])
      (map Some [0x21, 0x11, 0x21, 0x31])"
    by (simp add: shows_code_def classified_def lead_pipe_def)
  moreover have "1 \<le> yc_LeadLen ?c" "yc_LeadLen ?c \<le> 4" by simp_all
  moreover have "sublist (leader ?c) (lead_codes (map Some [0x21, 0x11, 0x21, 0x31]))"
    by code_simp
  ultimately show ?thesis using leader_opens_the_frame by blast
qed

section \<open>The window\<close>

text \<open>A clock's frame event: whether a frame opened, and the bit. What they come to: all bits, and the count since the opening.\<close>

type_synonym sym_event = "bool \<times> bool option"

definition bits_event :: "sym_event \<Rightarrow> bool list \<times> nat \<Rightarrow> bool list \<times> nat" where
  "bits_event e hm = (let m = (if fst e then 0 else snd hm) in
     case snd e of None \<Rightarrow> (fst hm, m) | Some b \<Rightarrow> (fst hm @ [b], Suc m))"

definition bits_of :: "sym_event list \<Rightarrow> bool list \<times> nat" where
  "bits_of es = fold bits_event es ([], 0)"

text \<open>The last 64 bits, zeros before the first, under the mask; and the place of the compare.\<close>

definition bits_fit :: "sym_cfg \<Rightarrow> bool list \<Rightarrow> bool" where
  "bits_fit c h \<longleftrightarrow> (\<forall>i<64. bit (yc_Mask c) i \<longrightarrow> ((i < length h \<and> rev h ! i) \<longleftrightarrow> bit (yc_Pattern c) i))"

definition place_fits :: "sym_cfg \<Rightarrow> nat \<Rightarrow> bool" where
  "place_fits c m \<longleftrightarrow> (if yc_Period c \<noteq> 0 then int (min 1023 m) \<ge> yc_K c \<and> (yc_Phase0 c + int m) mod yc_Period c = 0
     else int (min 1023 m) = yc_K c)"

definition fires :: "sym_cfg \<Rightarrow> sym_event list \<Rightarrow> bool" where
  "fires c es \<longleftrightarrow> es \<noteq> [] \<and> ((fst (last es) \<and> yc_K c = 0)
     \<or> (snd (last es) \<noteq> None \<and> bits_fit c (fst (bits_of es)) \<and> place_fits c (snd (bits_of es))))"

definition window_rel :: "sym_cfg \<Rightarrow> sym_event list \<Rightarrow> sym_window \<Rightarrow> bool" where
  "window_rel c es w \<longleftrightarrow>
     (\<forall>i<64. bit (yw_sh w) i \<longleftrightarrow> (i < length (fst (bits_of es)) \<and> rev (fst (bits_of es)) ! i))
     \<and> yw_n w = int (min 1023 (snd (bits_of es)))
     \<and> (yc_Period c \<noteq> 0 \<longrightarrow> yw_ph w = (yc_Phase0 c + int (snd (bits_of es))) mod yc_Period c)
     \<and> yw_hitA w = (es \<noteq> [] \<and> snd (last es) \<noteq> None) \<and> yw_openA w = (es \<noteq> [] \<and> fst (last es) \<and> yc_K c = 0)
     \<and> (es \<noteq> [] \<longrightarrow> yw_partOK w = bits_fit c (fst (bits_of (butlast es))))
     \<and> yw_hitB w = (butlast es \<noteq> [] \<and> snd (last (butlast es)) \<noteq> None \<and> place_fits c (snd (bits_of (butlast es))))
     \<and> yw_openB w = (butlast es \<noteq> [] \<and> fst (last (butlast es)) \<and> yc_K c = 0)
     \<and> yw_match w = fires c (butlast (butlast es))"

lemma compare_bits:
  assumes "\<forall>i<64. bit (sh :: u64) i \<longleftrightarrow> (i < length h \<and> rev h ! i)"
  shows "((sh XOR yc_Pattern c) AND yc_Mask c = 0) \<longleftrightarrow> bits_fit c h"
proof -
  have "((sh XOR yc_Pattern c) AND yc_Mask c = 0) \<longleftrightarrow> (\<forall>i<64. bit (yc_Mask c) i \<longrightarrow> (bit sh i \<longleftrightarrow> bit (yc_Pattern c) i))"
    by (auto simp: bit_eq_iff bit_and_iff bit_xor_iff)
  then show ?thesis using assms by (simp add: bits_fit_def)
qed

lemma shift_in:
  assumes "\<forall>i<64. bit (sh :: u64) i \<longleftrightarrow> (i < length h \<and> rev h ! i)"
  shows "\<forall>i<64. bit (push_bit 1 sh OR (if b then 1 else 0)) i \<longleftrightarrow> (i < length (h @ [b]) \<and> rev (h @ [b]) ! i)"
proof (intro allI impI)
  fix i :: nat assume i: "i < 64"
  show "bit (push_bit 1 sh OR (if b then 1 else 0)) i \<longleftrightarrow> (i < length (h @ [b]) \<and> rev (h @ [b]) ! i)"
  proof (cases i)
    case 0
    then show ?thesis by (simp only: bit_or_iff bit_push_bit_iff) (auto simp: bit_1_iff)
  next
    case (Suc j)
    have "bit (push_bit 1 sh OR (if b then 1 else 0)) i \<longleftrightarrow> bit sh j"
      using i Suc by (simp only: bit_or_iff bit_push_bit_iff) (auto simp: bit_1_iff)
    then show ?thesis using assms i Suc by simp
  qed
qed

lemma phase_next:
  assumes "0 < per" "per \<le> 63" "0 \<le> x"
  shows "(if (x mod per + 1) AND 63 = per then 0 else (x mod per + 1) AND 63) = (x + 1) mod (per :: int)"
proof -
  have r: "0 \<le> x mod per" "x mod per < per" using assms by simp_all
  have "(x mod per + 1) AND 63 = take_bit 6 (x mod per + 1)" by (simp add: take_bit_eq_mask mask_eq_exp_minus_1)
  also have "\<dots> = x mod per + 1"
  proof (rule take_bit_int_eq_self)
    have "x mod per + 1 < 64" using r(2) assms(2) by linarith
    then show "x mod per + 1 < 2 ^ 6" by simp
  qed (use r in simp)
  finally have a: "(x mod per + 1) AND 63 = x mod per + 1" .
  have "(x + 1) mod per = (x mod per + 1) mod per" by (simp add: mod_add_left_eq)
  then show ?thesis using a r by (auto simp: zmod_trivial_iff)
qed

lemma bits_of_snoc: "bits_of (es @ [e]) = bits_event e (bits_of es)"
  by (simp add: bits_of_def)

lemma window_rel_step:
  assumes rel: "window_rel c es w" and ok: "cfg_ok c"
  shows "window_rel c (es @ [(op, bv)]) (step_window c False op bv w)"
proof -
  obtain h m where hm: "bits_of es = (h, m)" by (rule prod.exhaust)
  have sh: "\<forall>i<64. bit (yw_sh w) i \<longleftrightarrow> (i < length h \<and> rev h ! i)" and n: "yw_n w = int (min 1023 m)"
    and ph: "yc_Period c \<noteq> 0 \<Longrightarrow> yw_ph w = (yc_Phase0 c + int m) mod yc_Period c"
    using rel hm by (auto simp: window_rel_def)
  let ?w = "step_window c False op bv w"
  let ?m = "if op then 0 else m"
  have per: "yc_Period c \<noteq> 0 \<Longrightarrow> 0 < yc_Period c" "yc_Period c \<le> 63" "0 \<le> yc_Phase0 c" "yc_Period c \<noteq> 0 \<Longrightarrow> yc_Phase0 c < yc_Period c"
    using ok by (auto simp: cfg_ok_def)
  have base: "(if op then 0 else yw_n w) = int (min 1023 ?m)"
    "yc_Period c \<noteq> 0 \<Longrightarrow> (if op then yc_Phase0 c else yw_ph w) = (yc_Phase0 c + int ?m) mod yc_Period c"
    using n ph per by auto
  have next_n: "(if int (min 1023 ?m) \<noteq> 1023 then int (min 1023 ?m) + 1 else int (min 1023 ?m)) = int (min 1023 (Suc ?m))"
    by auto
  have next_ph: "(let p1 = ((yc_Phase0 c + int ?m) mod yc_Period c + 1) AND 63 in if p1 = yc_Period c then 0 else p1)
      = (yc_Phase0 c + int (Suc ?m)) mod yc_Period c" if p0: "yc_Period c \<noteq> 0"
  proof -
    have x: "0 \<le> yc_Phase0 c + int ?m" using per(3) by simp
    have e: "yc_Phase0 c + int (Suc ?m) = (yc_Phase0 c + int ?m) + 1" by simp
    show ?thesis unfolding Let_def e by (rule phase_next [OF per(1) [OF p0] per(2) x])
  qed
  have bits: "bits_of (es @ [(op, bv)]) = (case bv of None \<Rightarrow> (h, ?m) | Some b \<Rightarrow> (h @ [b], Suc ?m))"
    by (simp add: bits_of_snoc hm bits_event_def Let_def split: option.splits)
  have sh': "\<forall>i<64. bit (yw_sh ?w) i \<longleftrightarrow> (i < length (fst (bits_of (es @ [(op, bv)]))) \<and> rev (fst (bits_of (es @ [(op, bv)]))) ! i)"
  proof (cases bv)
    case None
    then show ?thesis using sh bits by (simp add: step_window_def Let_def)
  next
    case (Some b)
    have "yw_sh ?w = push_bit 1 (yw_sh w) OR (if b then 1 else 0)"
      unfolding step_window_def Let_def Some by (simp only: if_False option.case prod.case sym_window.select_convs)
    then show ?thesis using shift_in [OF sh, of b] bits by (simp add: Some)
  qed
  have n0: "yw_n ?w = (case bv of None \<Rightarrow> (if op then 0 else yw_n w)
      | Some _ \<Rightarrow> (if (if op then 0 else yw_n w) \<noteq> 1023 then (if op then 0 else yw_n w) + 1 else (if op then 0 else yw_n w)))"
    by (cases bv) (simp_all add: step_window_def Let_def)
  have n': "yw_n ?w = int (min 1023 (snd (bits_of (es @ [(op, bv)]))))"
    unfolding n0 base(1) next_n bits by (cases bv) simp_all
  have ph': "yw_ph ?w = (yc_Phase0 c + int (snd (bits_of (es @ [(op, bv)])))) mod yc_Period c" if p0: "yc_Period c \<noteq> 0"
  proof -
    have "yw_ph ?w = (case bv of None \<Rightarrow> (if op then yc_Phase0 c else yw_ph w)
        | Some _ \<Rightarrow> (let p1 = ((if op then yc_Phase0 c else yw_ph w) + 1) AND 63 in if p1 = yc_Period c then 0 else p1))"
      using p0 by (cases bv) (simp_all add: step_window_def Let_def)
    then show ?thesis unfolding base(2) [OF p0] next_ph [OF p0] bits by (cases bv) simp_all
  qed
  have place: "(if yc_Period c \<noteq> 0 then yw_n w \<ge> yc_K c \<and> yw_ph w = 0 else yw_n w = yc_K c) \<longleftrightarrow> place_fits c m"
    using n ph by (auto simp: place_fits_def)
  have hits: "yw_hitA ?w = (bv \<noteq> None)" "yw_openA ?w = (op \<and> yc_K c = 0)" "yw_partOK ?w = bits_fit c h"
    "yw_hitB ?w = (yw_hitA w \<and> place_fits c m)" "yw_openB ?w = yw_openA w" "yw_match ?w = ((yw_hitB w \<and> yw_partOK w) \<or> yw_openB w)"
    using compare_bits [OF sh] place by (simp_all add: step_window_def Let_def split: option.splits)
  have old: "yw_hitB w = (butlast es \<noteq> [] \<and> snd (last (butlast es)) \<noteq> None \<and> place_fits c (snd (bits_of (butlast es))))"
    "yw_openB w = (butlast es \<noteq> [] \<and> fst (last (butlast es)) \<and> yc_K c = 0)"
    "es \<noteq> [] \<longrightarrow> yw_partOK w = bits_fit c (fst (bits_of (butlast es)))"
    using rel unfolding window_rel_def by - (elim conjE, assumption)+
  have "yw_match ?w = fires c (butlast es)"
    unfolding hits(6) fires_def old(1,2) using old(3) by (cases "es = []") auto
  moreover have "yw_hitA w = (es \<noteq> [] \<and> snd (last es) \<noteq> None)" "yw_openA w = (es \<noteq> [] \<and> fst (last es) \<and> yc_K c = 0)"
    using rel unfolding window_rel_def by - (elim conjE, assumption)+
  ultimately show ?thesis
    unfolding window_rel_def butlast_snoc last_snoc hm fst_conv snd_conv
    using sh' n' ph' hits(1-5) by (intro conjI) simp_all
qed

lemma window_rel_reset: "cfg_ok c \<Longrightarrow> window_rel c [] (step_window c True op bv w)"
  by (simp add: window_rel_def step_window_def Let_def bits_of_def fires_def cfg_ok_def)

section \<open>The matches of a record\<close>

definition frame_event :: "sym_cfg \<Rightarrow> sym \<Rightarrow> sym_event" where
  "frame_event c s = snd (step_frame c (ys_pipe s) (ys_units s) (ys_frame s))"

text \<open>The frame events of the clocks of \<open>SymbolMatches\<close>.\<close>

fun symbol_events :: "sym_cfg \<Rightarrow> bool list \<Rightarrow> bool list \<Rightarrow> nat \<Rightarrow> nat \<Rightarrow> sym \<Rightarrow> sym_event list option" where
  "symbol_events c [] b r i s = Some []"
| "symbol_events c (x # a) b r i s =
    (case Step c x (if i < length b then b ! i else True) (i < r) s of
       None \<Rightarrow> None
     | Some (m, s') \<Rightarrow> map_option (\<lambda>es. frame_event c s # es) (symbol_events c a b r (Suc i) s'))"

lemma Step_window:
  assumes "Step c x y reset s = Some (m, s')"
  shows "m = yw_match (ys_window s')"
    "ys_window s' = step_window c reset (fst (frame_event c s)) (snd (frame_event c s)) (ys_window s)"
  using assms by (auto simp: Step_def frame_event_def Let_def split: if_splits prod.splits option.splits)

lemma running_loop:
  assumes "sym_ok c s" "cfg_ok c" "r \<le> i" "window_rel c es (ys_window s)" "length es = i - r"
  shows "\<exists>evs. symbol_events c a b r i s = Some evs \<and> length evs = length a \<and>
    symbol_loop c a b r i s = Some (filter (\<lambda>j. r + 2 \<le> j \<and> fires c (take (j - 1 - r) (es @ evs))) [i..<i + length a])"
  using assms
proof (induction a arbitrary: i s es)
  case (Cons x a)
  let ?y = "if i < length b then b ! i else True"
  obtain m s' where s': "Step c x ?y (i < r) s = Some (m, s')" "sym_ok c s'"
    using Step_ok [OF Cons.prems(1,2)] by blast
  let ?e = "frame_event c s"
  have nr: "\<not> i < r" using Cons.prems(3) by simp
  have w: "window_rel c (es @ [?e]) (ys_window s')"
    using window_rel_step [OF Cons.prems(4,2), of "fst ?e" "snd ?e"] Step_window(2) [OF s'(1)] nr by simp
  then have m: "m \<longleftrightarrow> fires c (butlast es)" using Step_window(1) [OF s'(1)] by (simp add: window_rel_def)
  obtain evs where evs: "symbol_events c a b r (Suc i) s' = Some evs" "length evs = length a"
    "symbol_loop c a b r (Suc i) s' = Some (filter (\<lambda>j. r + 2 \<le> j \<and> fires c (take (j - 1 - r) ((es @ [?e]) @ evs))) [Suc i..<Suc i + length a])"
  proof -
    have "r \<le> Suc i" "length (es @ [?e]) = Suc i - r" using Cons.prems(3,5) by simp_all
    from Cons.IH [OF s'(2) Cons.prems(2) this(1) w this(2)] that show ?thesis by blast
  qed
  have here: "m \<longleftrightarrow> r + 2 \<le> i \<and> fires c (take (i - 1 - r) (es @ ?e # evs))"
  proof (cases "r + 2 \<le> i")
    case True
    then have "take (i - 1 - r) (es @ ?e # evs) = butlast es" using Cons.prems(5) by (simp add: butlast_conv_take)
    then show ?thesis using m True by simp
  next
    case False
    then have "length es \<le> 1" using Cons.prems(5) by simp
    then have "butlast es = []" by (cases es) auto
    then show ?thesis using m False by (simp add: fires_def)
  qed
  have up: "[i..<Suc (i + length a)] = i # [Suc i..<Suc (i + length a)]" by (simp add: upt_conv_Cons del: upt_Suc)
  show ?case
    using evs s' here by (auto simp: up simp del: upt_Suc)
qed simp

lemma reset_loop:
  assumes "sym_ok c s" "cfg_ok c" "i \<le> r" "i = r \<longrightarrow> window_rel c [] (ys_window s)"
  shows "\<exists>evs. symbol_events c a b r i s = Some evs \<and> length evs = length a \<and>
    symbol_loop c a b r i s = Some (filter (\<lambda>j. r + 2 \<le> j \<and> fires c (take (j - 1 - r) (drop (r - i) evs))) [i..<i + length a])"
  using assms
proof (induction a arbitrary: i s)
  case (Cons x a)
  show ?case
  proof (cases "i = r")
    case True
    then show ?thesis using running_loop [OF Cons.prems(1,2), of r i "[]" "x # a" b] Cons.prems(4) by simp
  next
    case False
    let ?y = "if i < length b then b ! i else True"
    obtain m s' where s': "Step c x ?y (i < r) s = Some (m, s')" "sym_ok c s'"
      using Step_ok [OF Cons.prems(1,2)] by blast
    have lt: "i < r" using False Cons.prems(3) by simp
    have w: "window_rel c [] (ys_window s')"
      using Step_window(2) [OF s'(1)] lt window_rel_reset [OF Cons.prems(2)] by simp
    have m: "\<not> m" using Step_window [OF s'(1)] lt by (simp add: step_window_def Let_def)
    obtain evs where evs: "symbol_events c a b r (Suc i) s' = Some evs" "length evs = length a"
      "symbol_loop c a b r (Suc i) s' = Some (filter (\<lambda>j. r + 2 \<le> j \<and> fires c (take (j - 1 - r) (drop (r - Suc i) evs))) [Suc i..<Suc i + length a])"
    proof -
      have "Suc i \<le> r" "Suc i = r \<longrightarrow> window_rel c [] (ys_window s')" using lt w by simp_all
      from Cons.IH [OF s'(2) Cons.prems(2) this] that show ?thesis by blast
    qed
    have up: "[i..<Suc (i + length a)] = i # [Suc i..<Suc (i + length a)]" by (simp add: upt_conv_Cons del: upt_Suc)
    have "drop (r - i) (frame_event c s # evs) = drop (r - Suc i) evs" using lt by (simp add: drop_Cons')
    then show ?thesis using evs s' m lt by (auto simp: up simp del: upt_Suc)
  qed
qed simp

text \<open>
  C40: The trigger fires where it should and nowhere else: after a reset, for every input, it never indexes out of range
  and matches on exactly the clocks two after a frame event that answers the request, that is an opening with \<open>K\<close> = 0,
  or a bit with which the last 64 bits agree with the pattern under the mask and the count of bits since the frame
  opened is \<open>K\<close> (from \<open>K\<close> on, at the phase, with a period).
\<close>

theorem matches_are_the_windows_that_fit:
  assumes "cfg_ok c" "0 < r"
  shows "\<exists>evs. symbol_events c a b r 0 NewSymbolTrigger = Some evs \<and> length evs = length a \<and>
    SymbolMatches c a b r = Some (filter (\<lambda>j. r + 2 \<le> j \<and> fires c (take (j - 1 - r) (drop r evs))) [0..<length a])"
  using reset_loop [OF sym_ok_new [OF assms(1)] assms(1), of 0 r a b] assms(2) by (simp add: SymbolMatches_def)

lemma matches_are_the_windows_that_fit_witness:
  "\<exists>evs. symbol_events demo_symbol_cfg [True, True, False, False, True] [] 1 0 NewSymbolTrigger = Some evs
    \<and> SymbolMatches demo_symbol_cfg [True, True, False, False, True] [] 1
        = Some (filter (\<lambda>j. 3 \<le> j \<and> fires demo_symbol_cfg (take (j - 2) (drop 1 evs))) [0..<5])"
proof -
  have "cfg_ok demo_symbol_cfg" by (simp add: cfg_ok_def demo_symbol_cfg_def)
  then show ?thesis
    using matches_are_the_windows_that_fit [of demo_symbol_cfg 1 "[True, True, False, False, True]" "[]"]
    by (auto simp: numeral_eq_Suc simp del: upt_Suc)
qed

end
