(* ===== verification/StreamDrum.thy ===== *)
theory StreamDrum
  imports SramRecall BusDevice
begin

text \<open>
  The gap-free word stream (\<open>app/internal/sramcapture/stream.go\<close>): the drum's status and \<open>DrainStream\<close>, which copies
  one of the fabric's two banks to a sink and releases it.

  The bus's transfer path, the context and the sink are parameters: \<open>de_bytes\<close> says that the bus pops bytes,
  \<open>de_words\<close> that it pops halfwords in one call; the context is asked before and after the transfer. A sink may
  hand out the room its bytes are popped into (\<open>StreamReserver\<close>): two pieces where the room wraps.
\<close>

section \<open>The drum's status\<close>

record stream_status =
  st_Ready :: byte
  st_Tokens :: byte
  st_LastSingle :: byte
  st_Fault :: bool
  st_Finished :: bool
  st_Enabled :: bool
  st_BankOverrun :: bool
  st_InputOverrun :: bool
  st_ReadOverrun :: bool
  st_FIFOFull :: bool
  st_Backlog :: bool

definition decodeStreamStatus :: "u16 \<Rightarrow> stream_status" where
  "decodeStreamStatus v = \<lparr>st_Ready = ucast (v AND 3), st_Tokens = ucast (drop_bit 2 v AND 3), st_LastSingle = ucast (drop_bit 4 v AND 3),
     st_Fault = (v AND 64 \<noteq> 0), st_Finished = (v AND 128 \<noteq> 0), st_Enabled = (v AND 256 \<noteq> 0),
     st_BankOverrun = (v AND 512 \<noteq> 0), st_InputOverrun = (v AND 1024 \<noteq> 0), st_ReadOverrun = (v AND 2048 \<noteq> 0),
     st_FIFOFull = (v AND 4096 \<noteq> 0), st_Backlog = (v AND 8192 \<noteq> 0)\<rparr>"

definition StreamStatus :: "stream_status cap" where
  "StreamStatus = andThen (readMany [13, 32]) (\<lambda>v.
     if v ! 0 \<noteq> 11 then fail StreamRevision else ret (decodeStreamStatus (v ! 1)))"

definition StreamBacklog :: "bool cap" where
  "StreamBacklog = getc cp_streamBacklog"

text \<open>The drum's buffer: two banks of half its words each.\<close>

definition prepareStreamBuffers :: "unit cap" where
  "prepareStreamBuffers = andThen (read_reg 26) (\<lambda>words.
     if words \<noteq> 4096 \<and> words \<noteq> 5120 \<and> words \<noteq> 8192 then fail (BadBuffer words)
     else update (\<lambda>c. c\<lparr>cp_streamWords := words\<rparr>))"

section \<open>Draining a bank\<close>

record stream_block =
  sb_FirstWord :: u64
  sb_Words :: u32
  sb_Bank :: byte

record drain_env =
  de_bytes :: bool
  de_words :: bool
  de_live0 :: bool
  de_live1 :: bool

text \<open>\<open>sr_reserve\<close>: None for a sink that is no \<open>StreamReserver\<close>; else the bytes of the two pieces.\<close>

record 's stream_sink =
  sr_write :: "'s \<Rightarrow> byte list \<Rightarrow> nat \<times> bool \<times> 's"
  sr_reserve :: "('s \<Rightarrow> nat \<Rightarrow> cap_error + nat \<times> nat) option"
  sr_commit :: "'s \<Rightarrow> byte list \<Rightarrow> 's"

definition bank_bit :: "byte \<Rightarrow> nat \<Rightarrow> bool" where
  "bank_bit v bank \<longleftrightarrow> v AND push_bit bank 1 \<noteq> 0"

definition bank_first :: "nat \<Rightarrow> u64 cap" where
  "bank_first bank = andThen (read_all [35 + bank * 4, 36 + bank * 4, 37 + bank * 4, 38 + bank * 4]) (\<lambda>v.
     ret (ucast (v ! 0) OR push_bit 16 (ucast (v ! 1)) OR push_bit 32 (ucast (v ! 2)) OR push_bit 48 (ucast (v ! 3))))"

text \<open>The bank whose first word is the expected one.\<close>

fun find_bank :: "stream_status \<Rightarrow> u64 \<Rightarrow> nat list \<Rightarrow> nat cap" where
  "find_bank s expected [] = fail MissingWord"
| "find_bank s expected (bank # banks) =
    (if \<not> bank_bit (st_Ready s) bank then find_bank s expected banks
     else andThen (bank_first bank) (\<lambda>first. if first = expected then ret bank else find_bank s expected banks))"

text \<open>The bank's words, popped by the path the bus and the sink have.\<close>

definition pop_bank :: "drain_env \<Rightarrow> (nat \<Rightarrow> cap_error + nat \<times> nat) option \<Rightarrow> nat \<Rightarrow> byte list cap" where
  "pop_bank e reserve n =
    (if de_bytes e \<and> reserve \<noteq> None then
       (case the reserve n of Inl err \<Rightarrow> fail err
        | Inr (a, b) \<Rightarrow> andThen (bus_pop 25 (a div 2)) (\<lambda>ha.
            andThen (if b > 0 then bus_pop 25 (b div 2) else ret []) (\<lambda>hb. ret (half_bytes (ha @ hb)))))
     else andThen (if de_bytes e \<or> de_words e then bus_pop 25 (n div 2) else read_all (replicate (n div 2) 25))
       (\<lambda>h. ret (half_bytes h)))"

definition bank_changed :: "stream_status \<Rightarrow> nat \<Rightarrow> stream_status \<Rightarrow> bool" where
  "bank_changed s bank st \<longleftrightarrow> st_Fault st \<or> \<not> st_Enabled st \<or> \<not> bank_bit (st_Ready st) bank
     \<or> bank_bit (st_Tokens st XOR st_Tokens s) bank"

text \<open>The bank is still the host's after the transfer: a status that says otherwise is read once more.\<close>

definition still_ours :: "stream_status \<Rightarrow> nat \<Rightarrow> unit cap" where
  "still_ours s bank = andThen (read_reg 32) (\<lambda>raw.
     if bank_changed s bank (decodeStreamStatus raw) then andThen (read_reg 32) (\<lambda>raw.
       if bank_changed s bank (decodeStreamStatus raw) then fail StreamChanged else ret ())
     else ret ())"

definition bank_words :: "stream_status \<Rightarrow> nat \<Rightarrow> u16 \<Rightarrow> u32" where
  "bank_words s bank cnt = ucast cnt * 2 - (ucast (drop_bit bank (st_LastSingle s)) AND 1)"

definition bank_base :: "nat \<Rightarrow> u16 \<Rightarrow> u16" where
  "bank_base bank sw = word_of_nat bank * (sw div 2)"

text \<open>The transfer and its checks, from the bank found.\<close>

definition transfer :: "drain_env \<Rightarrow> (nat \<Rightarrow> cap_error + nat \<times> nat) option \<Rightarrow> u64 \<Rightarrow> stream_status \<Rightarrow> nat \<Rightarrow> u16 \<Rightarrow> u16
    \<Rightarrow> (stream_status \<times> stream_block \<times> byte list) cap" where
  "transfer env reserve expected s bank sw cnt =
    (let words = bank_words s bank cnt; base = bank_base bank sw in
     do1 (write_reg 16 base) (andThen (read_reg 17) (\<lambda>_.
     do1 (write_reg 17 (base * 2))
     (andThen (pop_bank env reserve (unat (words * 4))) (\<lambda>data.
      andThen (read_reg 27) (\<lambda>index.
        if (ucast index :: u32) \<noteq> (ucast base * 2 + words * 2) mod (ucast sw * 2) then fail (BurstPointer index) else
      do1 (still_ours s bank)
      (if \<not> de_live1 env then fail Cancelled
       else ret (s, \<lparr>sb_FirstWord = expected, sb_Words = words, sb_Bank = word_of_nat bank\<rparr>, data))))))))"

text \<open>The bank found: its buffer, its count, its words.\<close>

definition drain_bank :: "drain_env \<Rightarrow> (nat \<Rightarrow> cap_error + nat \<times> nat) option \<Rightarrow> u64 \<Rightarrow> stream_status \<Rightarrow> nat
    \<Rightarrow> (stream_status \<times> stream_block \<times> byte list) cap" where
  "drain_bank e reserve expected s bank =
     andThen (getc cp_streamWords) (\<lambda>sw. do1 (if sw = 0 then prepareStreamBuffers else ret ())
     (andThen (read_reg (33 + bank)) (\<lambda>cnt. andThen (getc cp_streamWords) (\<lambda>sw.
        if cnt = 0 \<or> cnt > sw div 4 then fail (BadCount cnt)
        else transfer e reserve expected s bank sw cnt))))"

text \<open>What the status says: a fault, no stream, no bank, or the bank that is expected.\<close>

definition drain_status :: "drain_env \<Rightarrow> (nat \<Rightarrow> cap_error + nat \<times> nat) option \<Rightarrow> u64 \<Rightarrow> stream_status
    \<Rightarrow> (stream_status \<times> stream_block \<times> byte list) cap" where
  "drain_status e reserve expected s =
     do1 (update (\<lambda>c. c\<lparr>cp_streamBacklog := st_Backlog s\<rparr>))
       (if st_Fault s then fail StreamFault else if \<not> st_Enabled s then fail StreamDisabled
        else if st_Ready s = 0 then fail NoStreamBlock
        else andThen (find_bank s expected [0, 1]) (drain_bank e reserve expected s))"

text \<open>Everything up to the sink: the status, the block and its bytes.\<close>

definition drain_read :: "drain_env \<Rightarrow> (nat \<Rightarrow> cap_error + nat \<times> nat) option \<Rightarrow> u64 \<Rightarrow> (stream_status \<times> stream_block \<times> byte list) cap" where
  "drain_read e reserve expected =
    (if \<not> de_live0 e then fail Cancelled else
     andThen (read_reg 13) (\<lambda>rev. if rev \<noteq> 11 then fail StreamRevision else
     andThen (read_reg 32) (\<lambda>raw. drain_status e reserve expected (decodeStreamStatus raw))))"

definition release_bank :: "stream_status \<Rightarrow> stream_block \<Rightarrow> unit cap" where
  "release_bank s blk = write_reg 20 (ucast (sb_Bank blk) OR push_bit 1 (ucast (drop_bit (unat (sb_Bank blk)) (st_Tokens s) AND 1)))"

definition DrainStream :: "drain_env \<Rightarrow> 's stream_sink \<Rightarrow> u64 \<Rightarrow> 's \<Rightarrow> fabric \<Rightarrow> capture \<Rightarrow> ((cap_error + stream_block) \<times> 's) \<times> capture" where
  "DrainStream e sk expected s b c =
    (case drain_read e (map_option (\<lambda>f. f s) (sr_reserve sk)) expected b c of
       (Inl err, c) \<Rightarrow> ((Inl err, s), c)
     | (Inr (st, blk, data), c) \<Rightarrow>
         (case (if de_bytes e \<and> sr_reserve sk \<noteq> None then (None, sr_commit sk s data)
                else (case sr_write sk s data of (n, err, s') \<Rightarrow>
                  (if err then Some SinkError else if n \<noteq> length data then Some ShortWrite else None, s'))) of
            (Some err, s') \<Rightarrow> ((Inl err, s'), c)
          | (None, s') \<Rightarrow> (case release_bank st blk b c of
              (Inl err, c) \<Rightarrow> ((Inl err, s'), c) | (Inr (), c) \<Rightarrow> ((Inr blk, s'), c))))"

end
