(* ===== verification/BusOutcome.thy ===== *)
theory BusOutcome
  imports SramRecall BusDevice
begin

text \<open>
  What an operation makes of a device, whether it fails or not: the counterpart of \<open>exec\<close> for operations whose
  outcome the device decides.
\<close>

section \<open>What an operation makes of the device, failing or not\<close>

context bus_device
begin

text \<open>
  \<open>tri P m Q\<close>: from a device and buffer size where \<open>P\<close> holds, \<open>m\<close> ends (with an error or a result) where \<open>Q\<close> holds.
\<close>

definition tri :: "(u16 \<Rightarrow> 'd \<Rightarrow> bool) \<Rightarrow> 'a cap \<Rightarrow> (cap_error + 'a \<Rightarrow> u16 \<Rightarrow> 'd \<Rightarrow> bool) \<Rightarrow> bool" where
  "tri P m Q \<longleftrightarrow> (\<forall>c. steady False c \<longrightarrow> P (cp_streamWords c) (dev_at c) \<longrightarrow>
     (case m dfab c of (r, c') \<Rightarrow> steady False c' \<and> Q r (cp_streamWords c') (dev_at c')))"

lemma tri_ret: "(\<And>w d. P w d \<Longrightarrow> Q (Inr x) w d) \<Longrightarrow> tri P (ret x) Q"
  by (simp add: tri_def ret_def)

lemma tri_fail: "(\<And>w d. P w d \<Longrightarrow> Q (Inl e) w d) \<Longrightarrow> tri P (fail e) Q"
  by (simp add: tri_def fail_def)

lemma tri_andThen:
  assumes "tri P m R" and "\<And>x. tri (\<lambda>w d. R (Inr x) w d) (f x) Q" and "\<And>e w d. R (Inl e) w d \<Longrightarrow> Q (Inl e) w d"
  shows "tri P (andThen m f) Q"
  unfolding tri_def
proof (intro allI impI)
  fix c assume c: "steady False c" "P (cp_streamWords c) (dev_at c)"
  obtain r c1 where m: "m dfab c = (r, c1)" by (rule prod.exhaust)
  have r: "steady False c1" "R r (cp_streamWords c1) (dev_at c1)"
    using assms(1) c m unfolding tri_def by auto
  show "case andThen m f dfab c of (r, c') \<Rightarrow> steady False c' \<and> Q r (cp_streamWords c') (dev_at c')"
  proof (cases r)
    case (Inl e)
    then show ?thesis using r m assms(3) by (simp add: andThen_def)
  next
    case (Inr x)
    then show ?thesis using r m assms(2) [of x] unfolding tri_def by (auto simp: andThen_def)
  qed
qed

lemma tri_conseq:
  assumes "tri P m Q" "\<And>w d. P' w d \<Longrightarrow> P w d" "\<And>r w d. Q r w d \<Longrightarrow> Q' r w d"
  shows "tri P' m Q'"
  using assms unfolding tri_def by (fastforce split: prod.splits)

lemma tri_read: "tri P (read_reg s) (\<lambda>r w d'. \<exists>d. P w d \<and> r = Inr (dread d s) \<and> d' = dop (BRead s) d)"
  by (auto simp: tri_def read_reg_def cached_def steady_def dev_at_def flush_all bus_read_def andThen_def dev_reads)

lemma tri_write: "tri P (write_reg s v) (\<lambda>r w d'. \<exists>d. P w d \<and> r = Inr () \<and> d' = dop (BWrite s v) d)"
  by (auto simp: tri_def write_reg_def steady_def dev_at_def RawWrite_def dev_writes)

lemma tri_getc_words: "(\<And>w d. P w d \<Longrightarrow> Q (Inr w) w d) \<Longrightarrow> tri P (getc cp_streamWords) Q"
  by (simp add: tri_def getc_def)

lemma tri_set_words: "(\<And>w d. P w d \<Longrightarrow> Q (Inr ()) v d) \<Longrightarrow> tri P (update (\<lambda>c. c\<lparr>cp_streamWords := v\<rparr>)) Q"
  by (auto simp: tri_def update_def steady_def dev_at_def)

lemma tri_set_backlog: "(\<And>w d. P w d \<Longrightarrow> Q (Inr ()) w d) \<Longrightarrow> tri P (update (\<lambda>c. c\<lparr>cp_streamBacklog := v\<rparr>)) Q"
  by (auto simp: tri_def update_def steady_def dev_at_def)

text \<open>The common shapes: a read or a write, then the rest, with an assertion every access keeps.\<close>

lemma tri_read_then:
  assumes "\<And>v. tri (\<lambda>w d'. \<exists>d. P w d \<and> v = dread d s \<and> d' = dop (BRead s) d) (f v) Q"
  shows "tri P (andThen (read_reg s) f) Q"
proof (rule tri_andThen [OF tri_read])
  fix v show "tri (\<lambda>w d'. \<exists>d. P w d \<and> (Inr v :: cap_error + u16) = Inr (dread d s) \<and> d' = dop (BRead s) d) (f v) Q"
    using assms [of v] by simp
qed simp

lemma tri_write_then:
  assumes "tri (\<lambda>w d'. \<exists>d. P w d \<and> d' = dop (BWrite s v) d) m Q"
  shows "tri P (do1 (write_reg s v) m) Q"
proof (rule tri_andThen [OF tri_write])
  fix x show "tri (\<lambda>w d'. \<exists>d. P w d \<and> (Inr x :: cap_error + unit) = Inr () \<and> d' = dop (BWrite s v) d) m Q"
    using assms by simp
qed simp

lemma tri_pop:
  "tri P (bus_pop s n) (\<lambda>r w d'. \<exists>d. P w d \<and> r = Inr (reads_of d (replicate n s)) \<and> d' = fold (\<lambda>s. dop (BRead s)) (replicate n s) d)"
proof (induction n arbitrary: P)
  case 0
  then show ?case by (auto simp: tri_def ret_def)
next
  case (Suc n)
  show ?case unfolding tri_def
  proof (intro allI impI)
    fix c assume c: "steady False c" "P (cp_streamWords c) (dev_at c)"
    define c1 where "c1 = c\<lparr>cp_trace := cp_trace c @ [BRead s]\<rparr>"
    have p: "cp_pending c = []" using c(1) by (simp add: steady_def)
    have c1: "steady False c1" "dev_at c1 = dop (BRead s) (dev_at c)" "cp_streamWords c1 = cp_streamWords c"
      using c(1) p by (simp_all add: c1_def steady_def dev_at_def)
    have r: "fb_read dfab (cp_trace c) s = Some (dread (dev_at c) s)" using p by (simp add: dev_reads dev_at_def)
    have "case bus_pop s n dfab c1 of (r, c') \<Rightarrow> steady False c' \<and> (\<exists>d. (cp_streamWords c' = cp_streamWords c1 \<and> d = dev_at c1)
        \<and> r = Inr (reads_of d (replicate n s)) \<and> dev_at c' = fold (\<lambda>s. dop (BRead s)) (replicate n s) d)"
      using Suc [of "\<lambda>w d. w = cp_streamWords c1 \<and> d = dev_at c1"] c1(1) unfolding tri_def by auto
    then show "case bus_pop s (Suc n) dfab c of (r, c') \<Rightarrow> steady False c' \<and> (\<exists>d. P (cp_streamWords c') d
        \<and> r = Inr (reads_of d (replicate (Suc n) s)) \<and> dev_at c' = fold (\<lambda>s. dop (BRead s)) (replicate (Suc n) s) d)"
      using c(2) c1 r by (auto simp: andThen_def ret_def c1_def [symmetric] split: prod.splits)
  qed
qed

lemma tri_read_all:
  "tri P (read_all ss) (\<lambda>r w d'. \<exists>d. P w d \<and> r = Inr (reads_of d ss) \<and> d' = fold (\<lambda>s. dop (BRead s)) ss d)"
proof (induction ss arbitrary: P)
  case Nil
  show ?case unfolding read_all.simps by (rule tri_ret) auto
next
  case (Cons s ss)
  show ?case unfolding read_all.simps
  proof (rule tri_read_then)
    fix v
    show "tri (\<lambda>w d'. \<exists>d. P w d \<and> v = dread d s \<and> d' = dop (BRead s) d)
        (andThen (read_all ss) (\<lambda>vs. ret (v # vs)))
        (\<lambda>r w d'. \<exists>d. P w d \<and> r = Inr (reads_of d (s # ss)) \<and> d' = fold (\<lambda>s. dop (BRead s)) (s # ss) d)"
      by (rule tri_andThen [OF Cons.IH]) (auto intro!: tri_ret)
  qed
qed

text \<open>Assertions that hold by rigid facts, and reads whose value the assertion fixes.\<close>

lemma tri_ex:
  assumes "\<And>x. tri (P x) m Q"
  shows "tri (\<lambda>w d. \<exists>x. P x w d) m Q"
  unfolding tri_def
proof (intro allI impI)
  fix c assume c: "steady False c" "\<exists>x. P x (cp_streamWords c) (dev_at c)"
  then obtain x where "P x (cp_streamWords c) (dev_at c)" by blast
  then show "case m dfab c of (r, c') \<Rightarrow> steady False c' \<and> Q r (cp_streamWords c') (dev_at c')"
    using assms [of x, unfolded tri_def] c(1) by simp
qed

lemma tri_pure: "(C \<Longrightarrow> tri P m Q) \<Longrightarrow> tri (\<lambda>w d. C \<and> P w d) m Q"
  by (auto simp: tri_def)

lemma tri_read_fixed:
  assumes "\<And>w d. P w d \<Longrightarrow> dread d s = v \<and> P w (dop (BRead s) d)" "tri P (f v) Q"
  shows "tri P (andThen (read_reg s) f) Q"
proof (rule tri_read_then)
  fix u
  have "tri (\<lambda>w d. u = v \<and> P w d) (f u) Q" by (rule tri_pure) (use assms(2) in simp)
  then show "tri (\<lambda>w d'. \<exists>d. P w d \<and> u = dread d s \<and> d' = dop (BRead s) d) (f u) Q"
    by (rule tri_conseq) (use assms(1) in auto)
qed

lemma tri_then_fixed:
  assumes "tri P m (\<lambda>r w d. r = Inr v \<and> P' w d)" "tri P' (f v) Q"
  shows "tri P (andThen m f) Q"
proof (rule tri_andThen [OF assms(1)])
  fix x
  have "tri (\<lambda>w d. x = v \<and> P' w d) (f x) Q" by (rule tri_pure) (use assms(2) in simp)
  then show "tri (\<lambda>w d. (Inr x :: cap_error + _) = Inr v \<and> P' w d) (f x) Q" by simp
qed simp

lemma tri_write_kept:
  assumes "\<And>w d. P w d \<Longrightarrow> P' w (dop (BWrite s v) d)" "tri P' m Q"
  shows "tri P (do1 (write_reg s v) m) Q"
  by (rule tri_write_then, rule tri_conseq [OF assms(2)]) (use assms(1) in auto)

end

end
