(* ===== verification/StreamDrain.thy ===== *)
theory StreamDrain
  imports StreamDrum BusOutcome RecallBurst
begin

text \<open>
  The stream arrives without a gap: the fabric's drum as the code and its comments describe it, publishing into its
  two banks whenever it likes, and the drains of a host that always asks for the word it is at.

  The accesses of a drain interleave with the fabric: after every register access it may publish a bank, as many
  words as its schedule says. A bank it has no room for is an overrun, which it reports as a fault from then on.
\<close>

section \<open>The drum\<close>

record drum_fabric =
  df_word :: "nat \<Rightarrow> u32"
  df_words :: u16
  df_other :: "nat \<Rightarrow> u16"

text \<open>
  Two banks: whether one is the host's, its first word, its length and its token; the next word to publish, the bank it
  goes to, the pop pointer, the fault, and what the fabric publishes after the accesses to come.
\<close>

record drum =
  dr_full :: "nat \<Rightarrow> bool"
  dr_start :: "nat \<Rightarrow> nat"
  dr_len :: "nat \<Rightarrow> nat"
  dr_tok :: "nat \<Rightarrow> bool"
  dr_next :: nat
  dr_turn :: nat
  dr_ptr :: nat
  dr_fault :: bool
  dr_sched :: "nat list"

definition publish :: "nat \<Rightarrow> drum \<Rightarrow> drum" where
  "publish n d = (if n = 0 then d else if dr_full d (dr_turn d) then d\<lparr>dr_fault := True\<rparr>
     else let b = dr_turn d in d\<lparr>dr_full := (dr_full d)(b := True), dr_start := (dr_start d)(b := dr_next d), dr_len := (dr_len d)(b := n),
       dr_tok := (dr_tok d)(b := \<not> dr_tok d b), dr_next := dr_next d + n, dr_turn := 1 - b\<rparr>)"

definition tick :: "drum \<Rightarrow> drum" where
  "tick d = (case dr_sched d of [] \<Rightarrow> d | n # ns \<Rightarrow> publish n (d\<lparr>dr_sched := ns\<rparr>))"

text \<open>The release names the bank and the token it was read with.\<close>

definition release :: "u16 \<Rightarrow> drum \<Rightarrow> drum" where
  "release v d = (let b = unat (v AND 1) in
     if dr_full d b \<and> dr_tok d b = bit v 1 then d\<lparr>dr_full := (dr_full d)(b := False)\<rparr> else d)"

fun drum_op :: "drum_fabric \<Rightarrow> bop \<Rightarrow> drum \<Rightarrow> drum" where
  "drum_op P (BRead s) d = tick (if s = 25 then d\<lparr>dr_ptr := Suc (dr_ptr d) mod (2 * unat (df_words P))\<rparr> else d)"
| "drum_op P (BWrite s v) d = tick (if s = 17 then d\<lparr>dr_ptr := unat v\<rparr> else if s = 20 then release v d else d)"
| "drum_op P (BWriteErr s v) d = tick d"

definition drum_status :: "drum \<Rightarrow> u16" where
  "drum_status d = (if dr_full d 0 then 1 else 0) OR (if dr_full d 1 then 2 else 0) OR (if dr_tok d 0 then 4 else 0)
     OR (if dr_tok d 1 then 8 else 0) OR (if odd (dr_len d 0) then 16 else 0) OR (if odd (dr_len d 1) then 32 else 0)
     OR (if dr_fault d then 64 else 0) OR 256"

definition drum_half :: "drum_fabric \<Rightarrow> drum \<Rightarrow> u16" where
  "drum_half P d = (let b = dr_ptr d div unat (df_words P); i = (dr_ptr d mod unat (df_words P)) div 2; w = df_word P (dr_start d b + i)
     in if even (dr_ptr d) then lo16 w else hi16 w)"

definition part16 :: "u64 \<Rightarrow> nat \<Rightarrow> u16" where
  "part16 v k = ucast (drop_bit (16 * k) v)"

definition drum_read :: "drum_fabric \<Rightarrow> drum \<Rightarrow> nat \<Rightarrow> u16" where
  "drum_read P d s =
     (if s = 13 then 11 else if s = 32 then drum_status d else if s = 26 then df_words P
      else if s = 33 \<or> s = 34 then word_of_nat ((dr_len d (s - 33) + 1) div 2)
      else if 35 \<le> s \<and> s < 43 then part16 (word_of_nat (dr_start d ((s - 35) div 4))) ((s - 35) mod 4)
      else if s = 25 then drum_half P d else if s = 27 then word_of_nat (dr_ptr d) else df_other P s)"

definition drum_bus :: "drum_fabric \<Rightarrow> drum \<Rightarrow> fabric" where
  "drum_bus P d = \<lparr>fb_read = (\<lambda>tr s. Some (drum_read P (fold (drum_op P) tr d) s)), fb_write = (\<lambda>tr s v. True)\<rparr>"

interpretation drum: bus_device "drum_read P" "drum_op P" d0 "drum_bus P d0" for P d0
  by unfold_locales (simp_all add: drum_bus_def)

section \<open>What the fabric and the host keep\<close>

text \<open>The banks the host has not drained are the stream from the host's word \<open>e\<close> on.\<close>

definition chain :: "nat \<Rightarrow> drum \<Rightarrow> bool" where
  "chain e d \<longleftrightarrow> (let t = dr_turn d; n = 1 - t in
     if dr_full d t then dr_full d n \<and> dr_start d t = e \<and> dr_start d n = e + dr_len d t \<and> dr_next d = dr_start d n + dr_len d n
     else if dr_full d n then dr_start d n = e \<and> dr_next d = e + dr_len d n
     else dr_next d = e)"

definition bank_ok :: "drum_fabric \<Rightarrow> drum \<Rightarrow> nat \<Rightarrow> bool" where
  "bank_ok P d b \<longleftrightarrow> (dr_full d b \<longrightarrow> 0 < dr_len d b \<and> dr_len d b \<le> unat (df_words P) div 2)"

definition drum_ok :: "drum_fabric \<Rightarrow> drum \<Rightarrow> bool" where
  "drum_ok P d \<longleftrightarrow> dr_turn d < 2 \<and> bank_ok P d 0 \<and> bank_ok P d 1
     \<and> list_all (\<lambda>n. n \<le> unat (df_words P) div 2) (dr_sched d) \<and> dr_next d + sum_list (dr_sched d) < 2 ^ 64"

definition buffer_ok :: "drum_fabric \<Rightarrow> bool" where
  "buffer_ok P \<longleftrightarrow> df_words P = 4096 \<or> df_words P = 5120 \<or> df_words P = 8192"

definition at_word :: "drum_fabric \<Rightarrow> nat \<Rightarrow> drum \<Rightarrow> bool" where
  "at_word P e d \<longleftrightarrow> drum_ok P d \<and> chain e d"

text \<open>Bank \<open>b\<close> is the host's, from word \<open>e\<close>, \<open>n\<close> words, with token \<open>t\<close>.\<close>

definition holds :: "drum_fabric \<Rightarrow> nat \<Rightarrow> nat \<Rightarrow> nat \<Rightarrow> bool \<Rightarrow> drum \<Rightarrow> bool" where
  "holds P e b n t d \<longleftrightarrow> at_word P e d \<and> b < 2 \<and> dr_full d b \<and> dr_start d b = e \<and> dr_len d b = n \<and> dr_tok d b = t"

lemma publish_at_word:
  assumes "at_word P e d" "n \<le> unat (df_words P) div 2" "dr_next d + n + sum_list (dr_sched d) < 2 ^ 64"
  shows "at_word P e (publish n d)"
proof (cases "n = 0 \<or> dr_full d (dr_turn d)")
  case True
  then show ?thesis using assms by (auto simp: at_word_def drum_ok_def bank_ok_def chain_def publish_def Let_def)
next
  case False
  have ok: "drum_ok P d" and ch: "chain e d" using assms(1) by (simp_all add: at_word_def)
  have "dr_turn d < 2" using ok by (simp add: drum_ok_def)
  then consider (a) "dr_turn d = 0" | (b) "dr_turn d = 1" by linarith
  then show ?thesis
  proof cases
    case a
    have "drum_ok P (publish n d)" using False ok a assms(2,3) by (simp add: drum_ok_def bank_ok_def publish_def Let_def)
    moreover have "chain e (publish n d)" using False ch a by (auto simp: chain_def publish_def Let_def split: if_splits)
    ultimately show ?thesis by (simp add: at_word_def)
  next
    case b
    have "drum_ok P (publish n d)" using False ok b assms(2,3) by (simp add: drum_ok_def bank_ok_def publish_def Let_def)
    moreover have "chain e (publish n d)" using False ch b by (auto simp: chain_def publish_def Let_def split: if_splits)
    ultimately show ?thesis by (simp add: at_word_def)
  qed
qed

lemma publish_keeps: "dr_full d b \<Longrightarrow> dr_full (publish n d) b \<and> dr_start (publish n d) b = dr_start d b \<and> dr_len (publish n d) b = dr_len d b
    \<and> dr_tok (publish n d) b = dr_tok d b"
  by (auto simp: publish_def Let_def)

lemma publish_ptr [simp]: "dr_ptr (publish n d) = dr_ptr d"
  by (simp add: publish_def Let_def)

lemma tick_ptr [simp]: "dr_ptr (tick d) = dr_ptr d"
  by (simp add: tick_def split: list.splits)

lemma tick_at_word: "at_word P e d \<Longrightarrow> at_word P e (tick d)"
proof (cases "dr_sched d")
  case (Cons n ns)
  assume a: "at_word P e d"
  have "at_word P e (d\<lparr>dr_sched := ns\<rparr>)" "n \<le> unat (df_words P) div 2" "dr_next d + n + sum_list ns < 2 ^ 64"
    using a Cons by (simp_all add: at_word_def drum_ok_def bank_ok_def chain_def Let_def)
  then show ?thesis using Cons publish_at_word [of P e "d\<lparr>dr_sched := ns\<rparr>" n] by (simp add: tick_def)
qed (simp add: tick_def)

lemma drum_tick_keeps: "dr_full d b \<Longrightarrow> dr_full (tick d) b \<and> dr_start (tick d) b = dr_start d b \<and> dr_len (tick d) b = dr_len d b \<and> dr_tok (tick d) b = dr_tok d b"
  using publish_keeps [of "d\<lparr>dr_sched := tl (dr_sched d)\<rparr>" b] by (cases "dr_sched d") (simp_all add: tick_def)

lemma ptr_at_word [simp]: "at_word P e (d\<lparr>dr_ptr := p\<rparr>) = at_word P e d"
  by (simp add: at_word_def drum_ok_def bank_ok_def chain_def Let_def)

text \<open>Every access but a release keeps the host's place and its banks.\<close>

definition keeps_banks :: "bop \<Rightarrow> bool" where
  "keeps_banks x \<longleftrightarrow> (case x of BWrite s v \<Rightarrow> s \<noteq> 20 | _ \<Rightarrow> True)"

lemma op_at_word: "at_word P e d \<Longrightarrow> keeps_banks x \<Longrightarrow> at_word P e (drum_op P x d)"
  by (cases x) (auto simp: keeps_banks_def intro!: tick_at_word)

lemma op_keeps:
  assumes "dr_full d b" "keeps_banks x"
  shows "dr_full (drum_op P x d) b \<and> dr_start (drum_op P x d) b = dr_start d b \<and> dr_len (drum_op P x d) b = dr_len d b
    \<and> dr_tok (drum_op P x d) b = dr_tok d b"
  using assms drum_tick_keeps [of "d\<lparr>dr_ptr := p\<rparr>" b for p] drum_tick_keeps [of d b] by (cases x) (auto simp: keeps_banks_def)

lemma tick_fault: "dr_fault d \<Longrightarrow> dr_fault (tick d)"
  by (simp add: tick_def publish_def Let_def split: list.splits)

lemma op_fault: "dr_fault d \<Longrightarrow> dr_fault (drum_op P x d)"
  by (cases x) (auto simp: release_def Let_def intro!: tick_fault)

lemma op_holds: "holds P e b n t d \<Longrightarrow> keeps_banks x \<Longrightarrow> holds P e b n t (drum_op P x d)"
  using op_at_word [of P e d x] op_keeps [of d b x P] by (simp add: holds_def)

section \<open>What the host reads of it\<close>

lemma decode_drum:
  "st_Fault (decodeStreamStatus (drum_status d)) = dr_fault d" "st_Enabled (decodeStreamStatus (drum_status d))"
  "bank_bit (st_Ready (decodeStreamStatus (drum_status d))) 0 = dr_full d 0" "bank_bit (st_Ready (decodeStreamStatus (drum_status d))) 1 = dr_full d 1"
  "bank_bit (st_Tokens (decodeStreamStatus (drum_status d))) 0 = dr_tok d 0" "bank_bit (st_Tokens (decodeStreamStatus (drum_status d))) 1 = dr_tok d 1"
  "st_LastSingle (decodeStreamStatus (drum_status d)) = (if odd (dr_len d 0) then 1 else 0) OR (if odd (dr_len d 1) then 2 else 0)"
  by (simp_all add: drum_status_def decodeStreamStatus_def bank_bit_def)

lemma ready_none: "st_Ready (decodeStreamStatus (drum_status d)) = 0 \<longleftrightarrow> \<not> dr_full d 0 \<and> \<not> dr_full d 1"
  by (simp add: drum_status_def decodeStreamStatus_def)

lemma bits_of_parts:
  "(ucast (part16 v 0) OR push_bit 16 (ucast (part16 v 1)) OR push_bit 32 (ucast (part16 v 2)) OR push_bit 48 (ucast (part16 v 3)) :: u64) = v"
proof (rule bit_word_eqI)
  fix n assume "n < LENGTH(64)"
  then have n: "n < 64" by simp
  have "n < 16 \<or> (16 \<le> n \<and> n < 32) \<or> (32 \<le> n \<and> n < 48) \<or> 48 \<le> n" by linarith
  then show "bit (ucast (part16 v 0) OR push_bit 16 (ucast (part16 v 1)) OR push_bit 32 (ucast (part16 v 2)) OR push_bit 48 (ucast (part16 v 3)) :: u64) n \<longleftrightarrow> bit v n"
    using n by (auto simp: part16_def bit_simps)
qed

text \<open>The reads of a bank's registers.\<close>

lemma read_parts:
  "b < 2 \<Longrightarrow> k < 4 \<Longrightarrow> drum_read P d (35 + k + b * 4) = part16 (word_of_nat (dr_start d b)) k"
  by (auto simp: drum_read_def less_2_cases_iff)

lemma read_part_sels:
  assumes "b < 2"
  shows "drum_read P d (35 + b * 4) = part16 (word_of_nat (dr_start d b)) 0" "drum_read P d (36 + b * 4) = part16 (word_of_nat (dr_start d b)) 1"
    "drum_read P d (37 + b * 4) = part16 (word_of_nat (dr_start d b)) 2" "drum_read P d (38 + b * 4) = part16 (word_of_nat (dr_start d b)) 3"
  using read_parts [OF assms, of 0 P d] read_parts [OF assms, of 1 P d] read_parts [OF assms, of 2 P d] read_parts [OF assms, of 3 P d] by simp_all

text \<open>Bank \<open>b\<close> is full with these: what any access but a release keeps.\<close>

definition full_bank :: "nat \<Rightarrow> nat \<Rightarrow> nat \<Rightarrow> bool \<Rightarrow> drum \<Rightarrow> bool" where
  "full_bank b st n t d \<longleftrightarrow> dr_full d b \<and> dr_start d b = st \<and> dr_len d b = n \<and> dr_tok d b = t"

lemma op_full_bank: "full_bank b st n t d \<Longrightarrow> keeps_banks x \<Longrightarrow> full_bank b st n t (drum_op P x d)"
  using op_keeps [of d b x P] by (simp add: full_bank_def)

lemma keeps_read [simp]: "keeps_banks (BRead s)"
  by (simp add: keeps_banks_def)

lemma keeps_write [simp]: "s \<noteq> 20 \<Longrightarrow> keeps_banks (BWrite s v)"
  by (simp add: keeps_banks_def)

lemma tri_read_all_fixed:
  assumes "\<And>w d s. P w d \<Longrightarrow> s \<in> set ss \<Longrightarrow> drum_read D d s = v s" "\<And>w d s. P w d \<Longrightarrow> P w (drum_op D (BRead s) d)"
  shows "drum.tri D d0 P (read_all ss) (\<lambda>r w d. r = Inr (map v ss) \<and> P w d)"
  using assms(1)
proof (induction ss)
  case Nil
  show ?case unfolding read_all.simps by (rule drum.tri_ret) simp
next
  case (Cons s ss)
  show ?case unfolding read_all.simps
  proof (rule drum.tri_read_fixed [where v = "v s"])
    fix w d assume p: "P w d"
    show "drum_read D d s = v s \<and> P w (drum_op D (BRead s) d)" using Cons.prems [OF p] assms(2) [OF p] by simp
  next
    have ih: "drum.tri D d0 P (read_all ss) (\<lambda>r w d. r = Inr (map v ss) \<and> P w d)" by (rule Cons.IH) (use Cons.prems in auto)
    show "drum.tri D d0 P (andThen (read_all ss) (\<lambda>vs. ret (v s # vs))) (\<lambda>r w d. r = Inr (map v (s # ss)) \<and> P w d)"
      by (rule drum.tri_andThen [OF ih]) (auto intro!: drum.tri_ret)
  qed
qed

lemma tri_bank_first:
  assumes "b < 2" "\<And>w d. P w d \<Longrightarrow> dr_start d b = st" "\<And>w d s. P w d \<Longrightarrow> P w (drum_op D (BRead s) d)"
  shows "drum.tri D d0 P (bank_first b) (\<lambda>r w d. r = Inr (word_of_nat st) \<and> P w d)"
proof -
  let ?ss = "[35 + b * 4, 36 + b * 4, 37 + b * 4, 38 + b * 4]"
  let ?v = "\<lambda>s. part16 (word_of_nat st) (s - 35 - b * 4)"
  have r: "drum.tri D d0 P (read_all ?ss) (\<lambda>r w d. r = Inr (map ?v ?ss) \<and> P w d)"
  proof (rule tri_read_all_fixed)
    fix w d s assume p: "P w d" "s \<in> set ?ss"
    then show "drum_read D d s = ?v s" using read_part_sels [OF assms(1), of D d] assms(2) [OF p(1)] by auto
  qed (rule assms(3))
  show ?thesis unfolding bank_first_def
    by (rule drum.tri_andThen [OF r]) (auto intro!: drum.tri_ret simp: bits_of_parts [unfolded One_nat_def])
qed

text \<open>The expected bank is found when it is there.\<close>

lemma tri_find_bank:
  assumes "(bank_bit (st_Ready s) 0 \<and> s0 = e) \<or> (bank_bit (st_Ready s) 1 \<and> s1 = e)" "s0 < 2 ^ 64" "s1 < 2 ^ 64" "e < 2 ^ 64"
    and P: "\<And>w d. P w d \<Longrightarrow> bank_bit (st_Ready s) 0 \<Longrightarrow> dr_start d 0 = s0" "\<And>w d. P w d \<Longrightarrow> bank_bit (st_Ready s) 1 \<Longrightarrow> dr_start d 1 = s1"
    and kept: "\<And>w d s. P w d \<Longrightarrow> P w (drum_op D (BRead s) d)"
    and f: "\<And>b. b < 2 \<Longrightarrow> bank_bit (st_Ready s) b \<Longrightarrow> (if b = 0 then s0 else s1) = e \<Longrightarrow> drum.tri D d0 P (f b) Q"
  shows "drum.tri D d0 P (andThen (find_bank s (word_of_nat e) [0, 1]) f) Q"
proof -
  have eq: "(word_of_nat a :: u64) = word_of_nat e \<longleftrightarrow> a = e" if "a < 2 ^ 64" for a
    using that assms(4) by (simp add: word_unat_eq_iff unat_of_nat take_bit_nat_eq_self)
  have one: "drum.tri D d0 P (andThen (find_bank s (word_of_nat e) [1]) f) Q" if "bank_bit (st_Ready s) 1" "s1 = e"
  proof -
    have "drum.tri D d0 P (bank_first 1) (\<lambda>r w d. r = Inr (word_of_nat s1) \<and> P w d)"
      by (rule tri_bank_first) (use P(2) kept that in auto)
    then have "drum.tri D d0 P (find_bank s (word_of_nat e) [1]) (\<lambda>r w d. r = Inr 1 \<and> P w d)"
      using that by (auto intro!: drum.tri_then_fixed drum.tri_ret)
    then show ?thesis by (rule drum.tri_then_fixed) (rule f, use that in auto)
  qed
  show ?thesis
  proof (cases "bank_bit (st_Ready s) 0")
    case True
    have first: "drum.tri D d0 P (bank_first 0) (\<lambda>r w d. r = Inr (word_of_nat s0) \<and> P w d)"
      by (rule tri_bank_first) (use P(1) kept True in auto)
    show ?thesis
    proof (cases "s0 = e")
      case hit: True
      have "drum.tri D d0 P (find_bank s (word_of_nat e) [0, 1]) (\<lambda>r w d. r = Inr 0 \<and> P w d)"
        using first True hit by (auto intro!: drum.tri_then_fixed drum.tri_ret)
      then show ?thesis by (rule drum.tri_then_fixed) (rule f, use True hit in auto)
    next
      case False
      have "andThen (find_bank s (word_of_nat e) [0, 1]) f
          = andThen (bank_first 0) (\<lambda>first. andThen (if first = word_of_nat e then ret 0 else find_bank s (word_of_nat e) [1]) f)"
        using True by (simp add: andThen_assoc del: One_nat_def)
      then show ?thesis
        using one assms(1) False eq [OF assms(2)] by (auto intro!: drum.tri_then_fixed [OF first])
    qed
  next
    case False
    then show ?thesis using one assms(1) by simp
  qed
qed

section \<open>The pop\<close>

definition word_bytes :: "drum_fabric \<Rightarrow> nat \<Rightarrow> nat \<Rightarrow> byte list" where
  "word_bytes P e n = concat (map (\<lambda>i. le_bytes 4 (unat (df_word P i))) [e..<e + n])"

lemma word_bytes_Suc: "word_bytes P e (Suc n) = le_bytes 4 (unat (df_word P e)) @ word_bytes P (Suc e) n"
  by (simp add: word_bytes_def upt_conv_Cons del: upt_Suc)

lemma length_word_bytes [simp]: "length (word_bytes P e n) = 4 * n"
  by (induction n arbitrary: e) (simp_all add: word_bytes_Suc, simp add: word_bytes_def)

lemma word_bytes_add: "word_bytes P e (m + n) = word_bytes P e m @ word_bytes P (e + m) n"
  using upt_add_eq_append [of e "e + m" n] by (simp add: word_bytes_def add.assoc)

lemma buffer_even: "buffer_ok P \<Longrightarrow> even (unat (df_words P)) \<and> 0 < unat (df_words P)"
  by (auto simp: buffer_ok_def)

lemma half_of_bank:
  assumes "buffer_ok P" "b < 2" "dr_start d b = e" "i < unat (df_words P)" "dr_ptr d = b * unat (df_words P) + i"
  shows "drum_read P d 25 = (if even i then lo16 (df_word P (e + i div 2)) else hi16 (df_word P (e + i div 2)))"
proof -
  let ?W = "unat (df_words P)"
  have "dr_ptr d div ?W = b" "dr_ptr d mod ?W = i" using assms(4,5) by simp_all
  moreover have "even (dr_ptr d) \<longleftrightarrow> even i" using buffer_even [OF assms(1)] assms(5) by simp
  ultimately show ?thesis using assms(3) by (simp add: drum_read_def drum_half_def Let_def)
qed

lemma pop_bank_words:
  assumes "buffer_ok P" "holds P e b n t d" "q + k \<le> n" "dr_ptr d = (b * unat (df_words P) + 2 * q) mod (2 * unat (df_words P))"
  shows "half_bytes (drum.reads_of P d (replicate (2 * k) 25)) = word_bytes P (e + q) k
    \<and> holds P e b n t (fold (\<lambda>s. drum_op P (BRead s)) (replicate (2 * k) 25) d)
    \<and> dr_ptr (fold (\<lambda>s. drum_op P (BRead s)) (replicate (2 * k) 25) d) = (b * unat (df_words P) + 2 * (q + k)) mod (2 * unat (df_words P))"
  using assms(2-4)
proof (induction k arbitrary: q d)
  case 0
  then show ?case by (simp add: half_bytes_def word_bytes_def)
next
  case (Suc k)
  let ?W = "unat (df_words P)"
  have W: "even ?W" "0 < ?W" using buffer_even [OF assms(1)] by auto
  have b: "b < 2" "dr_start d b = e" "n \<le> ?W div 2" using Suc.prems(1) by (auto simp: holds_def at_word_def drum_ok_def bank_ok_def less_2_cases_iff)
  then have q: "2 * q + 1 < ?W" using Suc.prems(2) by linarith
  have small: "b * ?W + 2 * q + 1 < 2 * ?W" using q b(1) by (cases b) auto
  have p0: "dr_ptr d = b * ?W + 2 * q" using Suc.prems(3) small by simp
  let ?d1 = "drum_op P (BRead 25) d" and ?d2 = "drum_op P (BRead 25) (drum_op P (BRead 25) d)"
  have h1: "holds P e b n t ?d1" by (rule op_holds [OF Suc.prems(1)]) simp
  have p1: "dr_ptr ?d1 = b * ?W + (2 * q + 1)" using p0 small by simp
  have h2: "holds P e b n t ?d2" by (rule op_holds [OF h1]) simp
  have p2: "dr_ptr ?d2 = (b * ?W + 2 * Suc q) mod (2 * ?W)" using p1 by (simp del: mod_less)
  have r1: "drum_read P d 25 = lo16 (df_word P (e + q))"
    using half_of_bank [OF assms(1) b(1,2) _ p0] q by simp
  have "dr_start ?d1 b = e" using h1 by (simp add: holds_def)
  then have r2: "drum_read P ?d1 25 = hi16 (df_word P (e + q))"
    using half_of_bank [OF assms(1) b(1) _ q p1] by simp
  have ih: "half_bytes (drum.reads_of P ?d2 (replicate (2 * k) 25)) = word_bytes P (e + Suc q) k
    \<and> holds P e b n t (fold (\<lambda>s. drum_op P (BRead s)) (replicate (2 * k) 25) ?d2)
    \<and> dr_ptr (fold (\<lambda>s. drum_op P (BRead s)) (replicate (2 * k) 25) ?d2) = (b * ?W + 2 * (Suc q + k)) mod (2 * ?W)"
    by (rule Suc.IH [OF h2 _ p2]) (use Suc.prems(2) in simp)
  have rep: "replicate (2 * Suc k) 25 = (25 :: nat) # 25 # replicate (2 * k) 25" by simp
  have "half_bytes (drum.reads_of P d (replicate (2 * Suc k) 25)) = half_bytes [lo16 (df_word P (e + q)), hi16 (df_word P (e + q))] @ word_bytes P (e + Suc q) k"
    unfolding rep drum.reads_of.simps r1 r2 using ih half_bytes_Cons by metis
  moreover have "fold (\<lambda>s. drum_op P (BRead s)) (replicate (2 * Suc k) 25) d = fold (\<lambda>s. drum_op P (BRead s)) (replicate (2 * k) 25) ?d2"
    unfolding rep fold_simps ..
  ultimately show ?case
    using ih by (simp only: word_bytes_Suc half_bytes_word add_Suc_right add_Suc simp_thms)
qed

lemma reads_of_append:
  "drum.reads_of P d (xs @ ys) = drum.reads_of P d xs @ drum.reads_of P (fold (\<lambda>s. drum_op P (BRead s)) xs d) ys"
  by (induction xs arbitrary: d) (simp_all del: drum_op.simps)

section \<open>A drain\<close>

text \<open>A reserver's pieces make up the room it was asked for, in whole halfwords.\<close>

definition reserve_ok :: "(nat \<Rightarrow> cap_error + nat \<times> nat) option \<Rightarrow> bool" where
  "reserve_ok r \<longleftrightarrow> (case r of None \<Rightarrow> True
     | Some f \<Rightarrow> \<forall>n a b. f n = Inr (a, b) \<longrightarrow> even n \<longrightarrow> a + b = n \<and> even a \<and> even b)"

definition reserve_error :: "(nat \<Rightarrow> cap_error + nat \<times> nat) option \<Rightarrow> cap_error \<Rightarrow> bool" where
  "reserve_error r err \<longleftrightarrow> (case r of None \<Rightarrow> False | Some f \<Rightarrow> \<exists>n. f n = Inl err)"

text \<open>After the pop: the bank still held, the pointer behind its words.\<close>

definition popped :: "drum_fabric \<Rightarrow> nat \<Rightarrow> nat \<Rightarrow> nat \<Rightarrow> bool \<Rightarrow> u16 \<Rightarrow> drum \<Rightarrow> bool" where
  "popped P e b n t w d \<longleftrightarrow> w = df_words P \<and> holds P e b n t d
     \<and> dr_ptr d = (b * unat (df_words P) + 2 * n) mod (2 * unat (df_words P))"

definition primed :: "drum_fabric \<Rightarrow> nat \<Rightarrow> nat \<Rightarrow> nat \<Rightarrow> bool \<Rightarrow> u16 \<Rightarrow> drum \<Rightarrow> bool" where
  "primed P e b n t w d \<longleftrightarrow> w = df_words P \<and> holds P e b n t d \<and> dr_ptr d = b * unat (df_words P)"

lemma primed_pop:
  assumes "buffer_ok P" "primed P e b n t w d"
  shows "half_bytes (drum.reads_of P d (replicate (2 * n) 25)) = word_bytes P e n
    \<and> popped P e b n t w (fold (\<lambda>s. drum_op P (BRead s)) (replicate (2 * n) 25) d)"
proof -
  have h: "holds P e b n t d" "w = df_words P" "b < 2" "dr_ptr d = b * unat (df_words P)"
    using assms(2) by (auto simp: primed_def holds_def)
  have "b * unat (df_words P) < 2 * unat (df_words P)" using h(3) buffer_even [OF assms(1)] by simp
  then have p: "dr_ptr d = (b * unat (df_words P) + 2 * 0) mod (2 * unat (df_words P))" using h(4) by simp
  show ?thesis
    using pop_bank_words [OF assms(1) h(1) _ p, of n] h(2) by (simp add: popped_def del: replicate.simps)
qed

lemma tri_pop_bank:
  assumes "buffer_ok P" "reserve_ok reserve"
  shows "drum.tri P d0 (primed P e b n t) (pop_bank env reserve (4 * n))
    (\<lambda>r w d. case r of Inl err \<Rightarrow> reserve_error reserve err \<and> at_word P e d \<and> w = df_words P
       | Inr data \<Rightarrow> data = word_bytes P e n \<and> popped P e b n t w d)"
    (is "drum.tri P d0 _ _ ?Q")
proof (cases "de_bytes env \<and> reserve \<noteq> None")
  case True
  then obtain f where f: "reserve = Some f" by blast
  show ?thesis
  proof (cases "f (4 * n)")
    case (Inl err)
    then show ?thesis using True f
      by (auto simp: pop_bank_def reserve_error_def primed_def holds_def intro!: drum.tri_fail)
  next
    case (Inr ab)
    obtain x y where xy: "f (4 * n) = Inr (x, y)" using Inr by (cases ab) auto
    have sum: "x div 2 + y div 2 = 2 * n"
    proof -
      have "x + y = 4 * n \<and> even x \<and> even y" using assms(2) xy f by (simp add: reserve_ok_def)
      then show ?thesis by (auto elim!: evenE)
    qed
    have body: "pop_bank env reserve (4 * n) = andThen (bus_pop 25 (x div 2)) (\<lambda>ha.
        andThen (if y > 0 then bus_pop 25 (y div 2) else ret []) (\<lambda>hb. ret (half_bytes (ha @ hb))))"
      using True f xy by (simp add: pop_bank_def)
    have second: "(if y > 0 then bus_pop 25 (y div 2) else ret []) = bus_pop 25 (y div 2)" by simp
    show ?thesis unfolding body second
    proof (rule drum.tri_andThen [OF drum.tri_pop])
      fix ha
      let ?R = "\<lambda>w d1. \<exists>d. primed P e b n t w d \<and> (Inr ha :: cap_error + u16 list) = Inr (drum.reads_of P d (replicate (x div 2) 25))
          \<and> d1 = fold (\<lambda>s. drum_op P (BRead s)) (replicate (x div 2) 25) d"
      show "drum.tri P d0 ?R (andThen (bus_pop 25 (y div 2)) (\<lambda>hb. ret (half_bytes (ha @ hb)))) ?Q"
      proof (rule drum.tri_andThen [OF drum.tri_pop])
        fix hb
        show "drum.tri P d0 (\<lambda>w d'. \<exists>d. ?R w d \<and> (Inr hb :: cap_error + u16 list) = Inr (drum.reads_of P d (replicate (y div 2) 25))
            \<and> d' = fold (\<lambda>s. drum_op P (BRead s)) (replicate (y div 2) 25) d) (ret (half_bytes (ha @ hb))) ?Q"
        proof (rule drum.tri_ret, elim exE conjE)
          fix w d' d1 d assume a: "primed P e b n t w d" "(Inr ha :: cap_error + u16 list) = Inr (drum.reads_of P d (replicate (x div 2) 25))"
            "d1 = fold (\<lambda>s. drum_op P (BRead s)) (replicate (x div 2) 25) d"
            "(Inr hb :: cap_error + u16 list) = Inr (drum.reads_of P d1 (replicate (y div 2) 25))"
            "d' = fold (\<lambda>s. drum_op P (BRead s)) (replicate (y div 2) 25) d1"
          have rep: "replicate (2 * n) (25 :: nat) = replicate (x div 2) 25 @ replicate (y div 2) 25"
            by (simp only: sum [symmetric] replicate_add)
          have "ha @ hb = drum.reads_of P d (replicate (2 * n) 25)"
            unfolding rep reads_of_append using a(2-4) by simp
          moreover have "d' = fold (\<lambda>s. drum_op P (BRead s)) (replicate (2 * n) 25) d"
            unfolding rep fold_append using a(3,5) by simp
          ultimately show "?Q (Inr (half_bytes (ha @ hb))) w d'" using primed_pop [OF assms(1) a(1)] by simp
        qed
      qed simp
    qed simp
  qed
next
  case False
  have pop: "drum.tri P d0 (primed P e b n t) (if de_bytes env \<or> de_words env then bus_pop 25 (4 * n div 2) else read_all (replicate (4 * n div 2) 25))
      (\<lambda>r w d'. \<exists>d. primed P e b n t w d \<and> r = Inr (drum.reads_of P d (replicate (2 * n) 25))
         \<and> d' = fold (\<lambda>s. drum_op P (BRead s)) (replicate (2 * n) 25) d)"
    using drum.tri_pop [of P d0 "primed P e b n t" 25 "2 * n"] drum.tri_read_all [of P d0 "primed P e b n t" "replicate (2 * n) 25"]
    by simp
  have body: "pop_bank env reserve (4 * n) = andThen (if de_bytes env \<or> de_words env then bus_pop 25 (4 * n div 2) else read_all (replicate (4 * n div 2) 25))
      (\<lambda>h. ret (half_bytes h))"
    using False by (auto simp: pop_bank_def)
  show ?thesis unfolding body
  proof (rule drum.tri_andThen [OF pop])
    fix h
    show "drum.tri P d0 (\<lambda>w d'. \<exists>d. primed P e b n t w d \<and> (Inr h :: cap_error + u16 list) = Inr (drum.reads_of P d (replicate (2 * n) 25))
         \<and> d' = fold (\<lambda>s. drum_op P (BRead s)) (replicate (2 * n) 25) d) (ret (half_bytes h)) ?Q"
      by (rule drum.tri_ret) (use primed_pop [OF assms(1)] in auto)
  qed simp
qed

text \<open>
  How a drain may end: with the stream's words from \<open>e\<close> on and the bank still held, or without them, and why; \<open>ready\<close>
  says that a bank was the host's when the drain began.
\<close>

definition drain_error :: "bool \<Rightarrow> drain_env \<Rightarrow> (nat \<Rightarrow> cap_error + nat \<times> nat) option \<Rightarrow> cap_error \<Rightarrow> drum \<Rightarrow> bool" where
  "drain_error ready env reserve err d \<longleftrightarrow> (err = NoStreamBlock \<and> \<not> ready) \<or> ((err = StreamFault \<or> err = StreamChanged) \<and> dr_fault d)
     \<or> (err = Cancelled \<and> \<not> (de_live0 env \<and> de_live1 env)) \<or> reserve_error reserve err"

definition drained :: "drum_fabric \<Rightarrow> bool \<Rightarrow> drain_env \<Rightarrow> nat \<Rightarrow> (nat \<Rightarrow> cap_error + nat \<times> nat) option
    \<Rightarrow> cap_error + stream_status \<times> stream_block \<times> byte list \<Rightarrow> u16 \<Rightarrow> drum \<Rightarrow> bool" where
  "drained P ready env e reserve r w d \<longleftrightarrow> (case r of
     Inl err \<Rightarrow> drain_error ready env reserve err d \<and> at_word P e d \<and> (w = 0 \<or> w = df_words P)
   | Inr (s, blk, data) \<Rightarrow> w = df_words P \<and> (\<exists>b n. holds P e b n (bank_bit (st_Tokens s) b) d \<and> data = word_bytes P e n
       \<and> blk = \<lparr>sb_FirstWord = word_of_nat e, sb_Words = word_of_nat n, sb_Bank = word_of_nat b\<rparr>))"

lemma buffer_values: "buffer_ok P \<Longrightarrow> unat (df_words P) = 4096 \<or> unat (df_words P) = 5120 \<or> unat (df_words P) = 8192"
  by (auto simp: buffer_ok_def)

lemma bank_facts:
  assumes "buffer_ok P" "holds P e b n t d"
  shows "b < 2" "0 < n" "n \<le> unat (df_words P) div 2" "n \<le> 4096"
proof -
  show b: "b < 2" and n: "0 < n" "n \<le> unat (df_words P) div 2"
    using assms(2) by (auto simp: holds_def at_word_def drum_ok_def bank_ok_def less_2_cases_iff)
  then show "n \<le> 4096" using buffer_values [OF assms(1)] by auto
qed

text \<open>The pointer the transfer must leave.\<close>

lemma index_right:
  assumes "buffer_ok P" "b < 2" "n \<le> unat (df_words P) div 2"
  shows "(ucast (word_of_nat ((b * unat (df_words P) + 2 * n) mod (2 * unat (df_words P))) :: u16) :: u32)
    = (ucast (bank_base b (df_words P)) * 2 + word_of_nat n * 2) mod (ucast (df_words P) * 2)"
proof -
  let ?W = "unat (df_words P)"
  have W: "?W = 4096 \<or> ?W = 5120 \<or> ?W = 8192" by (rule buffer_values [OF assms(1)])
  have n: "n \<le> 4096" using assms(3) W by auto
  define x where "x = b * (?W div 2)"
  have two: "x * 2 = b * ?W" using W by (auto simp: x_def)
  have bW: "b * ?W \<le> 8192" using W assms(2) by (auto simp: less_2_cases_iff)
  have "unat (bank_base b (df_words P)) = x"
    using assms(1,2) by (auto simp: buffer_ok_def bank_base_def less_2_cases_iff x_def)
  then have base: "unat (ucast (bank_base b (df_words P)) :: u32) = x"
    using two bW by (simp add: unsigned_ucast_eq take_bit_nat_eq_self)
  have "unat (word_of_nat n :: u32) = n" using n by (simp add: unat_of_nat take_bit_nat_eq_self)
  then have num: "unat (ucast (bank_base b (df_words P)) * 2 + word_of_nat n * 2 :: u32) = b * ?W + 2 * n"
    using base two bW n by (simp add: unat_word_ariths)
  have "unat (ucast (df_words P) :: u32) = ?W" using W by (auto simp: unsigned_ucast_eq take_bit_nat_eq_self)
  then have den: "unat (ucast (df_words P) * 2 :: u32) = 2 * ?W" using W by (auto simp: unat_word_ariths)
  have "(b * ?W + 2 * n) mod (2 * ?W) < 65536" using W by (intro order_less_le_trans [OF mod_less_divisor]) auto
  then have l: "unat (ucast (word_of_nat ((b * ?W + 2 * n) mod (2 * ?W)) :: u16) :: u32) = (b * ?W + 2 * n) mod (2 * ?W)"
    by (simp add: unsigned_ucast_eq unat_of_nat take_bit_nat_def)
  show ?thesis by (rule word_unat_eq_iff [THEN iffD2]) (simp only: l unat_mod_distrib num den)
qed

text \<open>Every drained status keeps the place; the bank goes on being the host's unless the fabric faulted.\<close>

lemma tri_still_ours:
  assumes keep: "\<And>w d. R w d \<Longrightarrow> holds P e b n (bank_bit (st_Tokens s) b) d" and b: "b < 2"
    and kept: "\<And>w d. R w d \<Longrightarrow> R w (drum_op P (BRead 32) d)"
    and m: "drum.tri P d0 R m Q" and err: "\<And>w d. R w d \<Longrightarrow> dr_fault d \<Longrightarrow> Q (Inl StreamChanged) w d"
  shows "drum.tri P d0 R (do1 (still_ours s b) m) Q"
proof -
  have changed: "dr_fault d" if "R w d" "bank_changed s b (decodeStreamStatus (drum_status d))" for w d
  proof -
    have "dr_full d b" "dr_tok d b = bank_bit (st_Tokens s) b" using keep [OF that(1)] by (simp_all add: holds_def)
    moreover have "bank_bit (x XOR y) b \<longleftrightarrow> bank_bit x b \<noteq> bank_bit y b" for x y
      by (simp add: bank_bit_def push_bit_eq_mult and_exp_eq_0_iff_not_bit bit_xor_iff)
    moreover have "bank_bit (st_Ready (decodeStreamStatus (drum_status d))) b = dr_full d b"
      "bank_bit (st_Tokens (decodeStreamStatus (drum_status d))) b = dr_tok d b"
      using b decode_drum(3-6) [of d] by (auto simp only: less_2_cases_iff One_nat_def)
    ultimately show ?thesis using that(2) decode_drum(1,2) [of d] by (simp only: bank_changed_def simp_thms)
  qed
  have status: "drum.tri P d0 R (andThen (read_reg 32) (\<lambda>raw. if bank_changed s b (decodeStreamStatus raw) then k raw else ret ())) Q'"
    if k: "\<And>raw. drum.tri P d0 (\<lambda>w d. R w d \<and> dr_fault d) (k raw) Q'" and ok: "\<And>w d. R w d \<Longrightarrow> Q' (Inr ()) w d" for k Q'
  proof (rule drum.tri_read_then)
    fix v
    show "drum.tri P d0 (\<lambda>w d'. \<exists>d. R w d \<and> v = drum_read P d 32 \<and> d' = drum_op P (BRead 32) d)
        (if bank_changed s b (decodeStreamStatus v) then k v else ret ()) Q'"
    proof (cases "bank_changed s b (decodeStreamStatus v)")
      case True
      have "drum.tri P d0 (\<lambda>w d'. \<exists>d. R w d \<and> v = drum_read P d 32 \<and> d' = drum_op P (BRead 32) d) (k v) Q'"
      proof (rule drum.tri_conseq [OF k])
        fix w d' assume "\<exists>d. R w d \<and> v = drum_read P d 32 \<and> d' = drum_op P (BRead 32) d"
        then obtain d where d: "R w d" "v = drum_status d" "d' = drum_op P (BRead 32) d" by (auto simp: drum_read_def)
        show "R w d' \<and> dr_fault d'" unfolding d(3) using kept [OF d(1)] changed [OF d(1)] True d(2) op_fault by blast
      qed
      then show ?thesis using True by simp
    next
      case False
      then show ?thesis using ok kept by (auto intro!: drum.tri_ret)
    qed
  qed
  have "drum.tri P d0 R (still_ours s b) (\<lambda>r w d. case r of Inl e \<Rightarrow> e = StreamChanged \<and> R w d \<and> dr_fault d | Inr _ \<Rightarrow> R w d)"
    unfolding still_ours_def
  proof (rule status)
    fix raw
    show "drum.tri P d0 (\<lambda>w d. R w d \<and> dr_fault d)
        (andThen (read_reg 32) (\<lambda>raw. if bank_changed s b (decodeStreamStatus raw) then fail StreamChanged else ret ()))
        (\<lambda>r w d. case r of Inl e \<Rightarrow> e = StreamChanged \<and> R w d \<and> dr_fault d | Inr _ \<Rightarrow> R w d)"
      by (rule drum.tri_conseq [OF status]) (auto intro!: drum.tri_fail)
  qed simp
  then show ?thesis
    by (rule drum.tri_andThen) (use m err in auto)
qed

lemma count_facts:
  assumes "buffer_ok P" "0 < n" "n \<le> unat (df_words P) div 2"
  shows "(word_of_nat ((n + 1) div 2) :: u16) \<noteq> 0" "\<not> (word_of_nat ((n + 1) div 2) :: u16) > df_words P div 4"
proof -
  have W: "unat (df_words P) = 4096 \<or> unat (df_words P) = 5120 \<or> unat (df_words P) = 8192" by (rule buffer_values [OF assms(1)])
  then have "(n + 1) div 2 < 65536" using assms(3) by auto
  then have u: "unat (word_of_nat ((n + 1) div 2) :: u16) = (n + 1) div 2" by (simp add: unat_of_nat take_bit_nat_eq_self)
  then show "(word_of_nat ((n + 1) div 2) :: u16) \<noteq> 0" using assms(2) by (auto simp: unsigned_eq_0_iff [symmetric])
  have "unat (df_words P div 4) = unat (df_words P) div 4" by (simp add: unat_div)
  then show "\<not> (word_of_nat ((n + 1) div 2) :: u16) > df_words P div 4"
    using W assms(3) u by (auto simp: word_less_nat_alt)
qed

lemma words_right:
  assumes "n \<le> 4096" "b < 2" "ucast (drop_bit b (st_LastSingle s)) AND (1 :: u32) = (if odd n then 1 else 0)" 
  shows "bank_words s b (word_of_nat ((n + 1) div 2)) = word_of_nat n"
proof -
  have "(n + 1) div 2 < 65536" using assms(1) by simp
  then have "unat (ucast (word_of_nat ((n + 1) div 2) :: u16) :: u32) = (n + 1) div 2"
    by (simp add: unsigned_ucast_eq unat_of_nat take_bit_nat_eq_self)
  then have c: "(ucast (word_of_nat ((n + 1) div 2) :: u16) :: u32) = word_of_nat ((n + 1) div 2)"
    using \<open>(n + 1) div 2 < 65536\<close> by (intro word_unat_eq_iff [THEN iffD2]) (simp add: unat_of_nat take_bit_nat_eq_self)
  have two: "(n + 1) div 2 * 2 = n + (if odd n then 1 else 0)" by (cases "even n") (auto elim!: evenE oddE)
  have "(word_of_nat ((n + 1) div 2) * 2 :: u32) = word_of_nat ((n + 1) div 2 * 2)" by simp
  also have "\<dots> = word_of_nat n + (if odd n then 1 else 0)" unfolding two by simp
  finally show ?thesis unfolding bank_words_def c assms(3) by simp
qed

text \<open>With the bank found: its count, the priming, the pop and the checks.\<close>

definition bank_here :: "drum_fabric \<Rightarrow> nat \<Rightarrow> nat \<Rightarrow> nat \<Rightarrow> bool \<Rightarrow> u16 \<Rightarrow> drum \<Rightarrow> bool" where
  "bank_here P e b n t w d \<longleftrightarrow> (w = 0 \<or> w = df_words P) \<and> holds P e b n t d"

lemma tri_words_then:
  assumes "drum.tri P d0 R m Q"
  shows "drum.tri P d0 R (do1 (update (\<lambda>c. c\<lparr>cp_streamBacklog := v\<rparr>)) m) Q"
  by (rule drum.tri_andThen [OF drum.tri_set_backlog [where Q = "\<lambda>r w d. R w d \<and> r = Inr ()" and P = R]]) (use assms in auto)

text \<open>The buffer size is read when it is not known yet.\<close>

lemma tri_sized:
  assumes "buffer_ok P" "drum.tri P d0 (\<lambda>w d. w = df_words P \<and> holds P e b n t d) m Q"
  shows "drum.tri P d0 (bank_here P e b n t) (andThen (getc cp_streamWords) (\<lambda>sw. do1 (if sw = 0 then prepareStreamBuffers else ret ()) m)) Q"
proof (rule drum.tri_andThen [where R = "\<lambda>r w d. r = Inr w \<and> bank_here P e b n t w d"])
  show "drum.tri P d0 (bank_here P e b n t) (getc cp_streamWords) (\<lambda>r w d. r = Inr w \<and> bank_here P e b n t w d)"
    by (rule drum.tri_getc_words) simp
next
  fix sw
  let ?R = "\<lambda>w d. (Inr sw :: cap_error + u16) = Inr w \<and> bank_here P e b n t w d"
  have "drum.tri P d0 ?R (if sw = 0 then prepareStreamBuffers else ret ()) (\<lambda>r w d. r = Inr () \<and> w = df_words P \<and> holds P e b n t d)"
  proof (cases "sw = 0")
    case True
    have "drum.tri P d0 (\<lambda>w d. holds P e b n t d) prepareStreamBuffers (\<lambda>r w d. r = Inr () \<and> w = df_words P \<and> holds P e b n t d)"
      unfolding prepareStreamBuffers_def
    proof (rule drum.tri_read_fixed [where v = "df_words P"])
      fix w :: u16 and d assume h: "holds P e b n t d"
      show "drum_read P d 26 = df_words P \<and> holds P e b n t (drum_op P (BRead 26) d)"
        using op_holds [OF h, of "BRead 26"] by (simp add: drum_read_def del: drum_op.simps)
    next
      have "\<not> (df_words P \<noteq> 4096 \<and> df_words P \<noteq> 5120 \<and> df_words P \<noteq> 8192)" using assms(1) by (auto simp: buffer_ok_def)
      then show "drum.tri P d0 (\<lambda>w d. holds P e b n t d)
          (if df_words P \<noteq> 4096 \<and> df_words P \<noteq> 5120 \<and> df_words P \<noteq> 8192 then fail (BadBuffer (df_words P))
           else update (\<lambda>c. c\<lparr>cp_streamWords := df_words P\<rparr>)) (\<lambda>r w d. r = Inr () \<and> w = df_words P \<and> holds P e b n t d)"
        by (simp only: if_False) (rule drum.tri_set_words, simp)
    qed
    then show ?thesis using True by (auto simp: bank_here_def elim!: drum.tri_conseq)
  next
    case False
    then show ?thesis by (auto simp: bank_here_def intro!: drum.tri_ret)
  qed
  then show "drum.tri P d0 ?R (do1 (if sw = 0 then prepareStreamBuffers else ret ()) m) Q"
    by (rule drum.tri_andThen) (use assms(2) in auto)
qed simp

lemma tri_getc_fixed:
  assumes "drum.tri P d0 (\<lambda>w d. w = v \<and> R d) (f v) Q"
  shows "drum.tri P d0 (\<lambda>w d. w = v \<and> R d) (andThen (getc cp_streamWords) f) Q"
proof (rule drum.tri_andThen [where R = "\<lambda>r w d. r = Inr v \<and> w = v \<and> R d"])
  show "drum.tri P d0 (\<lambda>w d. w = v \<and> R d) (getc cp_streamWords) (\<lambda>r w d. r = Inr v \<and> w = v \<and> R d)"
    by (rule drum.tri_getc_words) simp
next
  fix x
  show "drum.tri P d0 (\<lambda>w d. (Inr x :: cap_error + u16) = Inr v \<and> w = v \<and> R d) (f x) Q"
    by (cases "x = v") (use assms in \<open>simp_all add: drum.tri_def\<close>)
qed simp

text \<open>The transfer, on a bank that is held.\<close>

lemma tri_transfer:
  assumes P: "buffer_ok P" and r: "reserve_ok reserve" and b: "b < 2" "n \<le> unat (df_words P) div 2"
    and t: "t = bank_bit (st_Tokens s) b" and single: "ucast (drop_bit b (st_LastSingle s)) AND (1 :: u32) = (if odd n then 1 else 0)"
  shows "drum.tri P d0 (\<lambda>w d. w = df_words P \<and> holds P e b n t d)
    (transfer env reserve (word_of_nat e) s b (df_words P) (word_of_nat ((n + 1) div 2))) (drained P g env e reserve)"
proof -
  let ?W = "unat (df_words P)"
  let ?H = "\<lambda>w d. w = df_words P \<and> holds P e b n t d"
  have W: "?W = 4096 \<or> ?W = 5120 \<or> ?W = 8192" by (rule buffer_values [OF P])
  have n: "n \<le> 4096" using b(2) W by auto
  have words: "bank_words s b (word_of_nat ((n + 1) div 2)) = word_of_nat n" by (rule words_right [OF n b(1) single])
  have n4: "unat (word_of_nat n * 4 :: u32) = 4 * n"
    using n by (simp add: unat_word_ariths unat_of_nat take_bit_nat_eq_self)
  have base: "unat (bank_base b (df_words P) * 2) = b * ?W"
    using P b(1) by (auto simp: buffer_ok_def bank_base_def less_2_cases_iff)
  have keep: "?H w (drum_op P x d)" if "?H w d" "keeps_banks x" for w d x
    using that op_holds [of P e b n t d x] by simp
  have failed: "drained P g env e reserve (Inl err) w d" if "drain_error g env reserve err d" "w = df_words P" "at_word P e d" for err w d
    using that by (simp add: drained_def)
  have held: "?H w d \<Longrightarrow> at_word P e d" for w d by (simp add: holds_def)
  have last: "drum.tri P d0 ?H (do1 (still_ours s b) (if \<not> de_live1 env then fail Cancelled
      else ret (s, \<lparr>sb_FirstWord = word_of_nat e, sb_Words = word_of_nat n, sb_Bank = word_of_nat b\<rparr>, word_bytes P e n))) (drained P g env e reserve)"
  proof (rule tri_still_ours [where e = e and n = n])
    show "drum.tri P d0 ?H (if \<not> de_live1 env then fail Cancelled
      else ret (s, \<lparr>sb_FirstWord = word_of_nat e, sb_Words = word_of_nat n, sb_Bank = word_of_nat b\<rparr>, word_bytes P e n)) (drained P g env e reserve)"
    proof (cases "de_live1 env")
      case True
      then show ?thesis by (simp only: if_False not_True_eq_False) (rule drum.tri_ret, use t in \<open>auto simp: drained_def\<close>)
    next
      case False
      then show ?thesis
        by (simp only: if_True not_False_eq_True) (rule drum.tri_fail, use failed held in \<open>auto simp: drain_error_def\<close>)
    qed
    show "drained P g env e reserve (Inl StreamChanged) w d" if "?H w d" "dr_fault d" for w d
      using that failed held [OF that(1)] by (simp add: drain_error_def)
  qed (use b t keep [where x = "BRead 32"] in auto)
  have index: "drum.tri P d0 (popped P e b n t) (andThen (read_reg 27) (\<lambda>index.
        if (ucast index :: u32) \<noteq> (ucast (bank_base b (df_words P)) * 2 + word_of_nat n * 2) mod (ucast (df_words P) * 2) then fail (BurstPointer index) else
      do1 (still_ours s b) (if \<not> de_live1 env then fail Cancelled
        else ret (s, \<lparr>sb_FirstWord = word_of_nat e, sb_Words = word_of_nat n, sb_Bank = word_of_nat b\<rparr>, word_bytes P e n)))) (drained P g env e reserve)"
  proof (rule drum.tri_read_then)
    fix v :: u16
    let ?ok = "v = word_of_nat ((b * ?W + 2 * n) mod (2 * ?W))"
    have "drum.tri P d0 (\<lambda>w d. ?ok \<and> ?H w d) (if (ucast v :: u32) \<noteq> (ucast (bank_base b (df_words P)) * 2 + word_of_nat n * 2) mod (ucast (df_words P) * 2)
        then fail (BurstPointer v) else do1 (still_ours s b) (if \<not> de_live1 env then fail Cancelled
        else ret (s, \<lparr>sb_FirstWord = word_of_nat e, sb_Words = word_of_nat n, sb_Bank = word_of_nat b\<rparr>, word_bytes P e n))) (drained P g env e reserve)"
      by (rule drum.tri_pure) (use last index_right [OF P b] in simp)
    then show "drum.tri P d0 (\<lambda>w d'. \<exists>d. popped P e b n t w d \<and> v = drum_read P d 27 \<and> d' = drum_op P (BRead 27) d)
        (if (ucast v :: u32) \<noteq> (ucast (bank_base b (df_words P)) * 2 + word_of_nat n * 2) mod (ucast (df_words P) * 2)
        then fail (BurstPointer v) else do1 (still_ours s b) (if \<not> de_live1 env then fail Cancelled
        else ret (s, \<lparr>sb_FirstWord = word_of_nat e, sb_Words = word_of_nat n, sb_Bank = word_of_nat b\<rparr>, word_bytes P e n))) (drained P g env e reserve)"
      by (rule drum.tri_conseq) (use op_holds [where x = "BRead 27"] in \<open>auto simp: popped_def drum_read_def simp del: drum_op.simps\<close>)
  qed
  have pop: "drum.tri P d0 (primed P e b n t) (andThen (pop_bank env reserve (4 * n)) (\<lambda>data. andThen (read_reg 27) (\<lambda>index.
        if (ucast index :: u32) \<noteq> (ucast (bank_base b (df_words P)) * 2 + word_of_nat n * 2) mod (ucast (df_words P) * 2) then fail (BurstPointer index) else
      do1 (still_ours s b) (if \<not> de_live1 env then fail Cancelled
        else ret (s, \<lparr>sb_FirstWord = word_of_nat e, sb_Words = word_of_nat n, sb_Bank = word_of_nat b\<rparr>, data))))) (drained P g env e reserve)"
  proof (rule drum.tri_andThen [OF tri_pop_bank [OF P r]])
    fix data
    show "drum.tri P d0 (\<lambda>w d. case Inr data of Inl err \<Rightarrow> reserve_error reserve err \<and> at_word P e d \<and> w = df_words P
         | Inr data \<Rightarrow> data = word_bytes P e n \<and> popped P e b n t w d)
       (andThen (read_reg 27) (\<lambda>index.
        if (ucast index :: u32) \<noteq> (ucast (bank_base b (df_words P)) * 2 + word_of_nat n * 2) mod (ucast (df_words P) * 2) then fail (BurstPointer index) else
      do1 (still_ours s b) (if \<not> de_live1 env then fail Cancelled
        else ret (s, \<lparr>sb_FirstWord = word_of_nat e, sb_Words = word_of_nat n, sb_Bank = word_of_nat b\<rparr>, data)))) (drained P g env e reserve)"
      by (simp only: sum.case, rule drum.tri_pure, hypsubst) (rule index)
  next
    fix err w d
    assume "case Inl err of Inl err \<Rightarrow> reserve_error reserve err \<and> at_word P e d \<and> w = df_words P
       | Inr data \<Rightarrow> data = word_bytes P e n \<and> popped P e b n t w d"
    then show "drained P g env e reserve (Inl err) w d" using failed by (simp add: drain_error_def)
  qed
  show ?thesis
    unfolding transfer_def Let_def words n4
  proof (rule drum.tri_write_kept, rule keep, assumption, simp, rule drum.tri_read_then)
    fix v
    show "drum.tri P d0 (\<lambda>w d'. \<exists>d. ?H w d \<and> v = drum_read P d 17 \<and> d' = drum_op P (BRead 17) d)
      (do1 (write_reg 17 (bank_base b (df_words P) * 2)) (andThen (pop_bank env reserve (4 * n)) (\<lambda>data. andThen (read_reg 27) (\<lambda>index.
        if (ucast index :: u32) \<noteq> (ucast (bank_base b (df_words P)) * 2 + word_of_nat n * 2) mod (ucast (df_words P) * 2) then fail (BurstPointer index) else
      do1 (still_ours s b) (if \<not> de_live1 env then fail Cancelled
        else ret (s, \<lparr>sb_FirstWord = word_of_nat e, sb_Words = word_of_nat n, sb_Bank = word_of_nat b\<rparr>, data)))))) (drained P g env e reserve)"
    proof (rule drum.tri_write_kept [OF _ pop])
      fix w d' assume "\<exists>d. ?H w d \<and> v = drum_read P d 17 \<and> d' = drum_op P (BRead 17) d"
      then have h: "?H w d'" using keep [where x = "BRead 17"] by auto
      have "dr_ptr (drum_op P (BWrite 17 (bank_base b (df_words P) * 2)) d') = b * ?W" by (simp add: base)
      then show "primed P e b n t w (drum_op P (BWrite 17 (bank_base b (df_words P) * 2)) d')"
        using keep [OF h, of "BWrite 17 (bank_base b (df_words P) * 2)"] by (simp add: primed_def del: drum_op.simps)
    qed
  qed
qed

text \<open>What one status fixes: the banks it says are the host's, and that the host's word is in one of them.\<close>

definition status_fixes :: "drum_fabric \<Rightarrow> nat \<Rightarrow> drum \<Rightarrow> u16 \<Rightarrow> drum \<Rightarrow> bool" where
  "status_fixes P e d1 w d \<longleftrightarrow> (w = 0 \<or> w = df_words P) \<and> at_word P e d
     \<and> (dr_fault d1 \<longrightarrow> dr_fault d)
     \<and> (dr_full d1 0 \<longrightarrow> full_bank 0 (dr_start d1 0) (dr_len d1 0) (dr_tok d1 0) d)
     \<and> (dr_full d1 1 \<longrightarrow> full_bank 1 (dr_start d1 1) (dr_len d1 1) (dr_tok d1 1) d)"

lemma status_fixes_op: "status_fixes P e d1 w d \<Longrightarrow> keeps_banks x \<Longrightarrow> status_fixes P e d1 w (drum_op P x d)"
  using op_at_word op_full_bank op_fault by (auto simp: status_fixes_def)

lemma chain_bank:
  assumes "at_word P e d" "dr_full d 0 \<or> dr_full d 1"
  shows "(dr_full d 0 \<and> dr_start d 0 = e) \<or> (dr_full d 1 \<and> dr_start d 1 = e)"
proof -
  have "dr_turn d < 2" using assms(1) by (simp add: at_word_def drum_ok_def)
  then have "dr_turn d = 0 \<or> dr_turn d = 1" by linarith
  then show ?thesis using assms by (auto simp: at_word_def chain_def Let_def split: if_splits)
qed

lemma bank_below:
  assumes "at_word P e d" "dr_full d b" "b < 2"
  shows "dr_start d b + dr_len d b \<le> dr_next d" "dr_next d < 2 ^ 64"
proof -
  have "dr_turn d < 2" "dr_next d + sum_list (dr_sched d) < 2 ^ 64" using assms(1) by (simp_all add: at_word_def drum_ok_def)
  then show "dr_next d < 2 ^ 64" by linarith
  have "dr_turn d = 0 \<or> dr_turn d = 1" "b = 0 \<or> b = 1" using \<open>dr_turn d < 2\<close> assms(3) by linarith+
  then show "dr_start d b + dr_len d b \<le> dr_next d"
    using assms(1,2) by (auto simp: at_word_def chain_def Let_def split: if_splits)
qed

lemma single_bit:
  assumes "b < 2"
  shows "ucast (drop_bit b (st_LastSingle (decodeStreamStatus (drum_status d)))) AND (1 :: u32) = (if odd (dr_len d b) then 1 else 0)"
  using assms by (auto simp: less_2_cases_iff decode_drum(7))

lemma tri_found:
  assumes P: "buffer_ok P" and r: "reserve_ok reserve" and b: "b < 2" "dr_full d1 b" "dr_start d1 b = e"
    and n: "0 < dr_len d1 b" "dr_len d1 b \<le> unat (df_words P) div 2" and s: "s = decodeStreamStatus (drum_status d1)"
  shows "drum.tri P d0 (status_fixes P e d1) (drain_bank env reserve (word_of_nat e) s b) (drained P g env e reserve)"
proof -
  let ?n = "dr_len d1 b" and ?t = "dr_tok d1 b"
  let ?cnt = "word_of_nat ((?n + 1) div 2) :: u16"
  have t: "?t = bank_bit (st_Tokens s) b" using b(1) by (auto simp: s less_2_cases_iff decode_drum decode_drum [unfolded One_nat_def])
  have size: "drum.tri P d0 (\<lambda>w d. w = df_words P \<and> holds P e b ?n ?t d)
      (andThen (read_reg (33 + b)) (\<lambda>cnt. andThen (getc cp_streamWords) (\<lambda>sw.
            if cnt = 0 \<or> cnt > sw div 4 then fail (BadCount cnt) else transfer env reserve (word_of_nat e) s b sw cnt))) (drained P g env e reserve)"
  proof (rule drum.tri_read_fixed [where v = ?cnt])
    fix w d assume h: "w = df_words P \<and> holds P e b ?n ?t d"
    then have "dr_len d b = ?n" "b = 0 \<or> b = 1" using b(1) by (auto simp: holds_def less_2_cases_iff)
    then have "drum_read P d (33 + b) = ?cnt" by (auto simp: drum_read_def)
    then show "drum_read P d (33 + b) = ?cnt \<and> (w = df_words P \<and> holds P e b ?n ?t (drum_op P (BRead (33 + b)) d))"
      using h op_holds [of P e b ?n ?t d "BRead (33 + b)"] by (simp del: drum_op.simps)
  next
    have "\<not> (?cnt = 0 \<or> ?cnt > df_words P div 4)" using count_facts [OF P n] by simp
    then show "drum.tri P d0 (\<lambda>w d. w = df_words P \<and> holds P e b ?n ?t d) (andThen (getc cp_streamWords) (\<lambda>sw.
            if ?cnt = 0 \<or> ?cnt > sw div 4 then fail (BadCount ?cnt) else transfer env reserve (word_of_nat e) s b sw ?cnt)) (drained P g env e reserve)"
      by (intro tri_getc_fixed) (simp only: if_False tri_transfer [OF P r b(1) n(2) t single_bit [OF b(1), of d1, folded s]])
  qed
  show ?thesis unfolding drain_bank_def
  proof (rule drum.tri_conseq [OF tri_sized [OF P size]])
    fix w d assume f: "status_fixes P e d1 w d"
    have "full_bank b (dr_start d1 b) ?n ?t d" using f b(1,2) by (auto simp: status_fixes_def less_2_cases_iff)
    then show "bank_here P e b ?n ?t w d" using f b by (auto simp: bank_here_def status_fixes_def holds_def full_bank_def)
  qed
qed

text \<open>From the status on.\<close>

lemma tri_drain_status:
  assumes P: "buffer_ok P" and r: "reserve_ok reserve" and e: "e < 2 ^ 64" and at1: "at_word P e d1"
    and g: "g \<longrightarrow> dr_full d1 0 \<or> dr_full d1 1"
    and s: "s = decodeStreamStatus (drum_status d1)"
  shows "drum.tri P d0 (status_fixes P e d1) (drain_status env reserve (word_of_nat e) s) (drained P g env e reserve)"
  unfolding drain_status_def
proof (rule tri_words_then)
  let ?find = "andThen (find_bank s (word_of_nat e) [0, 1]) (drain_bank env reserve (word_of_nat e) s)"
  have en: "st_Enabled s" by (simp add: s decode_drum)
  show "drum.tri P d0 (status_fixes P e d1) (if st_Fault s then fail StreamFault else if \<not> st_Enabled s then fail StreamDisabled
      else if st_Ready s = 0 then fail NoStreamBlock else ?find) (drained P g env e reserve)"
  proof (cases "st_Fault s \<or> st_Ready s = 0")
    case True
    then show ?thesis
    proof (cases "st_Fault s")
      case False
      then have "st_Ready s = 0" using True by blast
      then have "\<not> g" using g ready_none [of d1] s by blast
      then show ?thesis using False en \<open>st_Ready s = 0\<close> by (auto simp: drained_def drain_error_def status_fixes_def intro!: drum.tri_fail)
    qed (use s in \<open>auto simp: drained_def drain_error_def status_fixes_def decode_drum intro!: drum.tri_fail\<close>)
  next
    case False
    have ready: "bank_bit (st_Ready s) 0 = dr_full d1 0" "bank_bit (st_Ready s) 1 = dr_full d1 1" by (simp_all only: s decode_drum)
    have some: "dr_full d1 0 \<or> dr_full d1 1" using False ready_none [of d1] by (simp add: s)
    define s0 where "s0 = (if dr_full d1 0 then dr_start d1 0 else 0)"
    define s1 where "s1 = (if dr_full d1 1 then dr_start d1 1 else 0)"
    have small: "s0 < 2 ^ 64" "s1 < 2 ^ 64"
      using bank_below [OF at1, of 0] bank_below [OF at1, of 1] by (auto simp: s0_def s1_def)
    have here: "(bank_bit (st_Ready s) 0 \<and> s0 = e) \<or> (bank_bit (st_Ready s) 1 \<and> s1 = e)"
      unfolding ready using chain_bank [OF at1 some] by (auto simp: s0_def s1_def)
    have "drum.tri P d0 (status_fixes P e d1) ?find (drained P g env e reserve)"
    proof (rule tri_find_bank [OF here small e])
      fix b assume b: "b < 2" "bank_bit (st_Ready s) b" "(if b = 0 then s0 else s1) = e"
      have full: "dr_full d1 b" "dr_start d1 b = e"
        using b ready by (auto simp: less_2_cases_iff s0_def s1_def split: if_splits)
      have "bank_ok P d1 b" using at1 b(1) by (auto simp: at_word_def drum_ok_def less_2_cases_iff)
      then have n: "0 < dr_len d1 b" "dr_len d1 b \<le> unat (df_words P) div 2" using full by (auto simp: bank_ok_def)
      show "drum.tri P d0 (status_fixes P e d1) (drain_bank env reserve (word_of_nat e) s b) (drained P g env e reserve)"
        by (rule tri_found [OF P r b(1) full n s])
    next
      fix w d assume f: "status_fixes P e d1 w d" and "bank_bit (st_Ready s) 0"
      then show "dr_start d 0 = s0" by (simp add: ready s0_def status_fixes_def full_bank_def)
    next
      fix w d assume f: "status_fixes P e d1 w d" and "bank_bit (st_Ready s) 1"
      then show "dr_start d 1 = s1" by (simp add: ready [unfolded One_nat_def] s1_def status_fixes_def full_bank_def)
    qed (rule status_fixes_op, assumption, simp)
    then show ?thesis using False en by simp
  qed
qed

definition host_ready :: "drum_fabric \<Rightarrow> bool \<Rightarrow> nat \<Rightarrow> u16 \<Rightarrow> drum \<Rightarrow> bool" where
  "host_ready P g e w d \<longleftrightarrow> (w = 0 \<or> w = df_words P) \<and> at_word P e d \<and> (g \<longrightarrow> dr_full d 0 \<or> dr_full d 1)"

lemma drain_read_ok:
  assumes P: "buffer_ok P" and r: "reserve_ok reserve" and e: "e < 2 ^ 64"
  shows "drum.tri P d0 (host_ready P g e) (drain_read env reserve (word_of_nat e)) (drained P g env e reserve)"
proof (cases "de_live0 env")
  case False
  then show ?thesis by (auto simp: drain_read_def drained_def drain_error_def host_ready_def intro!: drum.tri_fail)
next
  case True
  let ?A = "host_ready P g e"
  have rest: "drum.tri P d0 ?A (andThen (read_reg 32) (\<lambda>raw. drain_status env reserve (word_of_nat e) (decodeStreamStatus raw))) (drained P g env e reserve)"
  proof (rule drum.tri_read_then, rule drum.tri_conseq [OF drum.tri_ex])
    fix raw d1
    show "drum.tri P d0 (\<lambda>w d'. ((at_word P e d1 \<and> (g \<longrightarrow> dr_full d1 0 \<or> dr_full d1 1)) \<and> raw = drum_status d1) \<and> status_fixes P e d1 w d')
        (drain_status env reserve (word_of_nat e) (decodeStreamStatus raw)) (drained P g env e reserve)"
      by (rule drum.tri_pure, rule tri_drain_status [OF P r e]) auto
  next
    fix raw w d' assume "\<exists>d. ?A w d \<and> raw = drum_read P d 32 \<and> d' = drum_op P (BRead 32) d"
    then obtain d where d: "?A w d" "raw = drum_status d" "d' = drum_op P (BRead 32) d" by (auto simp: drum_read_def)
    have "status_fixes P e d w d" using d(1) by (simp add: status_fixes_def full_bank_def host_ready_def)
    then have "status_fixes P e d w d'" unfolding d(3) by (rule status_fixes_op) simp
    then show "\<exists>x. ((at_word P e x \<and> (g \<longrightarrow> dr_full x 0 \<or> dr_full x 1)) \<and> raw = drum_status x) \<and> status_fixes P e x w d'" using d by (auto simp: host_ready_def)
  qed
  have first: "drum_read P d 13 = 11 \<and> ?A w (drum_op P (BRead 13) d)" if "?A w d" for w d
    using that op_at_word [of P e d "BRead 13"] op_keeps [of d 0 "BRead 13" P] op_keeps [of d 1 "BRead 13" P]
    by (auto simp: drum_read_def host_ready_def simp del: drum_op.simps)
  have "drum.tri P d0 ?A (andThen (read_reg 13) (\<lambda>rev. if rev \<noteq> 11 then fail StreamRevision else
      andThen (read_reg 32) (\<lambda>raw. drain_status env reserve (word_of_nat e) (decodeStreamStatus raw)))) (drained P g env e reserve)"
    by (rule drum.tri_read_fixed [where v = 11], rule first, assumption) (use rest in simp)
  then show ?thesis unfolding drain_read_def using True by (simp only: not_True_eq_False if_False)
qed

section \<open>The release\<close>

lemma release_word:
  assumes "b < 2"
  shows "(ucast (word_of_nat b :: byte) OR push_bit 1 (ucast (drop_bit (unat (word_of_nat b :: byte)) (v :: byte) AND 1)) :: u16)
    = word_of_nat b OR (if bank_bit v b then 2 else 0)"
proof -
  have u: "unat (word_of_nat b :: byte) = b" using assms by (simp add: unat_of_nat take_bit_nat_eq_self)
  have c: "(ucast (word_of_nat b :: byte) :: u16) = word_of_nat b" using assms by (auto simp: less_2_cases_iff)
  have m: "bank_bit v b = bit v b" by (simp add: bank_bit_def push_bit_eq_mult bit_iff_odd_drop_bit [symmetric] and_exp_eq_0_iff_not_bit)
  have d: "drop_bit b v AND 1 = (if bit v b then 1 else 0)" by (simp add: and_one_eq bit_iff_odd_drop_bit odd_iff_mod_2_eq_one)
  show ?thesis unfolding u c m d by simp
qed

lemma release_at_word:
  assumes "holds P e b n t d"
  shows "at_word P (e + n) (release (word_of_nat b OR (if t then 2 else 0)) d)"
proof -
  have h: "at_word P e d" "b < 2" "dr_full d b" "dr_start d b = e" "dr_len d b = n" "dr_tok d b = t" using assms by (simp_all add: holds_def)
  have ok: "drum_ok P d" "chain e d" using h(1) by (simp_all add: at_word_def)
  have u: "unat ((word_of_nat b OR (if t then 2 else 0)) AND 1 :: u16) = b" "bit (word_of_nat b OR (if t then 2 else 0) :: u16) 1 = t"
    using h(2) by (auto simp: less_2_cases_iff)
  have r: "release (word_of_nat b OR (if t then 2 else 0)) d = d\<lparr>dr_full := (dr_full d)(b := False)\<rparr>"
    unfolding release_def u using h by simp
  have "dr_turn d < 2" using ok by (simp add: drum_ok_def)
  then have cs: "dr_turn d = 0 \<or> dr_turn d = 1" "b = 0 \<or> b = 1" using h(2) by linarith+
  have "drum_ok P (d\<lparr>dr_full := (dr_full d)(b := False)\<rparr>)" using ok(1) by (auto simp: drum_ok_def bank_ok_def)
  moreover have "chain (e + n) (d\<lparr>dr_full := (dr_full d)(b := False)\<rparr>)"
    using ok cs h(3-5) by (auto simp: chain_def drum_ok_def bank_ok_def Let_def split: if_splits)
  ultimately show ?thesis unfolding r at_word_def ..
qed

lemma tri_release:
  assumes "st = bank_bit (st_Tokens s) b" "b < 2"
  shows "drum.tri P d0 (\<lambda>w d. w = df_words P \<and> holds P e b n st d) (release_bank s \<lparr>sb_FirstWord = f, sb_Words = k, sb_Bank = word_of_nat b\<rparr>)
    (\<lambda>r w d. r = Inr () \<and> w = df_words P \<and> at_word P (e + n) d)"
  unfolding release_bank_def stream_block.simps release_word [OF assms(2)]
proof (rule drum.tri_conseq [OF drum.tri_write])
  fix r w d'
  assume "\<exists>d. (w = df_words P \<and> holds P e b n st d) \<and> r = Inr ()
    \<and> d' = drum_op P (BWrite 20 (word_of_nat b OR (if bank_bit (st_Tokens s) b then 2 else 0))) d"
  then obtain d where d: "w = df_words P" "holds P e b n st d" "r = Inr ()"
    "d' = tick (release (word_of_nat b OR (if st then 2 else 0)) d)" using assms(1) by auto
  then show "r = Inr () \<and> w = df_words P \<and> at_word P (e + n) d'" using tick_at_word [OF release_at_word [OF d(2)]] by simp
qed

text \<open>The sink that keeps every byte it is given, with or without room to hand out.\<close>

definition collect :: "(byte list \<Rightarrow> nat \<Rightarrow> cap_error + nat \<times> nat) option \<Rightarrow> byte list stream_sink" where
  "collect room = \<lparr>sr_write = (\<lambda>s d. (length d, False, s @ d)), sr_reserve = room, sr_commit = (\<lambda>s d. s @ d)\<rparr>"

definition room_ok :: "(byte list \<Rightarrow> nat \<Rightarrow> cap_error + nat \<times> nat) option \<Rightarrow> bool" where
  "room_ok room \<longleftrightarrow> (\<forall>s. reserve_ok (map_option (\<lambda>f. f s) room))"

text \<open>The host between two drains: its bus is quiet, and the drum is at the host's word.\<close>

definition host_at :: "drum_fabric \<Rightarrow> drum \<Rightarrow> nat \<Rightarrow> capture \<Rightarrow> bool" where
  "host_at P d0 e c \<longleftrightarrow> drum.steady False c \<and> (cp_streamWords c = 0 \<or> cp_streamWords c = df_words P) \<and> at_word P e (drum.dev_at P d0 c)"

lemma held_words:
  assumes "buffer_ok P" "holds P e b n t d"
  shows "0 < n" "n < 2 ^ 32" "e + n < 2 ^ 64" "b < 2"
proof -
  have h: "drum_ok P d" "at_word P e d" "b < 2" "dr_full d b" "dr_len d b = n" "dr_start d b = e" using assms(2) by (simp_all add: holds_def at_word_def)
  then have n: "0 < n \<and> n \<le> unat (df_words P) div 2" by (auto simp: drum_ok_def bank_ok_def less_2_cases_iff)
  then show "0 < n" "b < 2" using h by simp_all
  show "n < 2 ^ 32" using n buffer_values [OF assms(1)] by auto
  show "e + n < 2 ^ 64" using bank_below [OF h(2,4,3)] h(5,6) by simp
qed

lemma drain_ok:
  assumes P: "buffer_ok P" and room: "room_ok room" and c: "host_at P d0 e c" "e < 2 ^ 64"
    and g: "g \<longrightarrow> dr_full (drum.dev_at P d0 c) 0 \<or> dr_full (drum.dev_at P d0 c) 1"
    and run: "DrainStream env (collect room) (word_of_nat e) s (drum_bus P d0) c = ((r, s'), c')"
  shows "case r of Inl err \<Rightarrow> s' = s \<and> drain_error g env (map_option (\<lambda>f. f s) room) err (drum.dev_at P d0 c') \<and> host_at P d0 e c'
     | Inr blk \<Rightarrow> \<exists>n. 0 < n \<and> sb_Words blk = word_of_nat n \<and> n < 2 ^ 32 \<and> e + n < 2 ^ 64 \<and> s' = s @ word_bytes P e n \<and> host_at P d0 (e + n) c'"
proof -
  let ?res = "map_option (\<lambda>f. f s) room"
  obtain r1 c1 where read: "drain_read env ?res (word_of_nat e) (drum_bus P d0) c = (r1, c1)" by (rule prod.exhaust)
  have r: "reserve_ok ?res" using room by (simp add: room_ok_def)
  have d1: "drum.steady False c1" "drained P g env e ?res r1 (cp_streamWords c1) (drum.dev_at P d0 c1)"
    using drain_read_ok [OF P r c(2), of d0 g env, unfolded drum.tri_def, rule_format, of c] c(1) g read by (simp_all add: host_at_def host_ready_def)
  show ?thesis
  proof (cases r1)
    case (Inl err)
    then have "r = Inl err" "s' = s" "c' = c1" using run read by (simp_all add: DrainStream_def collect_def)
    then show ?thesis using d1 Inl by (simp add: drained_def host_at_def)
  next
    case (Inr x)
    obtain st blk data where x: "x = (st, blk, data)" by (cases x)
    obtain b n where bn: "holds P e b n (bank_bit (st_Tokens st) b) (drum.dev_at P d0 c1)" "data = word_bytes P e n"
      "blk = \<lparr>sb_FirstWord = word_of_nat e, sb_Words = word_of_nat n, sb_Bank = word_of_nat b\<rparr>" "cp_streamWords c1 = df_words P"
      using d1(2) unfolding Inr x drained_def by auto
    obtain r2 c2 where rel: "release_bank st blk (drum_bus P d0) c1 = (r2, c2)" by (rule prod.exhaust)
    have d2: "drum.steady False c2" "r2 = Inr ()" "cp_streamWords c2 = df_words P" "at_word P (e + n) (drum.dev_at P d0 c2)"
      using tri_release [OF refl held_words(4) [OF P bn(1)], of P d0 e n st "word_of_nat e" "word_of_nat n", unfolded drum.tri_def, rule_format, of c1]
        d1(1) bn rel by simp_all
    have "DrainStream env (collect room) (word_of_nat e) s (drum_bus P d0) c = ((Inr blk, s @ data), c2)"
      using read rel d2(2) unfolding DrainStream_def Inr x
      by (cases "de_bytes env \<and> room \<noteq> None") (auto simp: collect_def split: unit.split)
    then have "r = Inr blk" "s' = s @ word_bytes P e n" "c' = c2" using run bn(2) by simp_all
    then show ?thesis using d2 held_words [OF P bn(1)] bn(3) by (auto simp: host_at_def)
  qed
qed

section \<open>The stream\<close>

text \<open>A host that drains again and again, retrying after an error, and asks each time for the word behind its last.\<close>

fun pump :: "drain_env list \<Rightarrow> 's stream_sink \<Rightarrow> u64 \<Rightarrow> 's \<Rightarrow> fabric \<Rightarrow> capture \<Rightarrow> (u64 \<times> 's \<times> cap_error list) \<times> capture" where
  "pump [] sk expected s b c = ((expected, s, []), c)"
| "pump (env # envs) sk expected s b c =
    (case DrainStream env sk expected s b c of
       ((Inl err, s), c) \<Rightarrow> (case pump envs sk expected s b c of ((e, s, errs), c) \<Rightarrow> ((e, s, err # errs), c))
     | ((Inr blk, s), c) \<Rightarrow> pump envs sk (expected + ucast (sb_Words blk)) s b c)"

definition pump_error :: "(byte list \<Rightarrow> nat \<Rightarrow> cap_error + nat \<times> nat) option \<Rightarrow> cap_error \<Rightarrow> bool" where
  "pump_error room err \<longleftrightarrow> err \<in> {NoStreamBlock, StreamFault, StreamChanged, Cancelled} \<or> (\<exists>f s n. room = Some f \<and> f s n = Inl err)"

lemma pump_ok:
  assumes "buffer_ok P" "room_ok room" "host_at P d0 e c" "e < 2 ^ 64"
    and "pump envs (collect room) (word_of_nat e) s (drum_bus P d0) c = ((expected, s', errs), c')"
  shows "\<exists>n. expected = word_of_nat (e + n) \<and> e + n < 2 ^ 64 \<and> s' = s @ word_bytes P e n \<and> list_all (pump_error room) errs"
  using assms(3-5)
proof (induction envs arbitrary: e s c errs)
  case Nil
  then show ?case by (auto simp: word_bytes_def intro!: exI [where x = 0])
next
  case (Cons env envs)
  obtain r s1 c1 where d: "DrainStream env (collect room) (word_of_nat e) s (drum_bus P d0) c = ((r, s1), c1)" by (metis prod.exhaust)
  note ok = drain_ok [OF assms(1,2) Cons.prems(1,2) _ d, of False, simplified]
  show ?case
  proof (cases r)
    case (Inl err)
    obtain errs1 where p: "pump envs (collect room) (word_of_nat e) s (drum_bus P d0) c1 = ((expected, s', errs1), c')" "errs = err # errs1"
      using Cons.prems(3) d Inl ok by (auto split: prod.splits)
    have "pump_error room err" using ok Inl by (auto simp: drain_error_def reserve_error_def pump_error_def split: option.splits)
    then show ?thesis using Cons.IH [OF _ Cons.prems(2) p(1)] ok Inl p(2) by auto
  next
    case (Inr blk)
    obtain n where n: "sb_Words blk = word_of_nat n" "n < 2 ^ 32" "e + n < 2 ^ 64" "s1 = s @ word_bytes P e n" "host_at P d0 (e + n) c1"
      using ok Inr by auto
    have "(ucast (word_of_nat n :: u32) :: u64) = word_of_nat n"
      using n(2) by (intro word_unat_eq_iff [THEN iffD2]) (simp add: unsigned_ucast_eq unat_of_nat take_bit_nat_eq_self)
    then have "pump envs (collect room) (word_of_nat (e + n)) s1 (drum_bus P d0) c1 = ((expected, s', errs), c')"
      using Cons.prems(3) d Inr n(1) by simp
    from Cons.IH [OF n(5,3) this] obtain m where "expected = word_of_nat (e + n + m)" "e + n + m < 2 ^ 64"
      "s' = s1 @ word_bytes P (e + n) m" "list_all (pump_error room) errs" by blast
    then show ?thesis using n(4) by (intro exI [where x = "n + m"]) (simp add: word_bytes_add add.assoc)
  qed
qed

text \<open>
  C33: The stream the host collects has no gap, no repeat and no torn word. The fabric publishes banks of words whenever
  it likes, also in the middle of a drain, and may overrun; the host drains any number of times, by any of the bus's
  transfer paths, into a sink with or without room of its own, retrying after an error with the same word. Then what the
  sink holds is exactly the stream's words from the first to the one the host asks for next, and every error a drain
  gave is one of: no block ready, a fault, a bank that changed under it, the context's end, the sink's refusal. (So a
  drain of an honest drum never reports a missing word, a bad count or a wrong burst pointer.)
\<close>

theorem stream_has_no_gap:
  assumes "buffer_ok P" and "room_ok room" and "at_word P 0 d0"
    and "pump envs (collect room) 0 [] (drum_bus P d0) fresh_capture = ((expected, sink, errs), c)"
  shows "sink = word_bytes P 0 (unat expected) \<and> list_all (pump_error room) errs"
proof -
  have "host_at P d0 0 fresh_capture"
    using assms(3) by (simp add: host_at_def drum.steady_def drum.dev_at_def fresh_capture_def)
  from pump_ok [OF assms(1,2) this, of envs "[]" expected sink errs c] assms(4)
  obtain n where "expected = word_of_nat n" "n < 2 ^ 64" "sink = word_bytes P 0 n" "list_all (pump_error room) errs" by auto
  then show ?thesis by (simp add: unat_of_nat take_bit_nat_eq_self)
qed

definition sample_fabric :: drum_fabric where
  "sample_fabric = \<lparr>df_word = (\<lambda>i. word_of_nat (65537 * (i + 1))), df_words = 4096, df_other = (\<lambda>_. 0)\<rparr>"

definition sample_drum :: drum where
  "sample_drum = \<lparr>dr_full = (\<lambda>b. b = 1), dr_start = (\<lambda>_. 0), dr_len = (\<lambda>_. 3), dr_tok = (\<lambda>_. True), dr_next = 3, dr_turn = 0, dr_ptr = 0,
     dr_fault = False, dr_sched = []\<rparr>"

definition sample_env :: drain_env where
  "sample_env = \<lparr>de_bytes = False, de_words = True, de_live0 = True, de_live1 = True\<rparr>"

lemma sample_at_word: "at_word sample_fabric 0 (sample_drum\<lparr>dr_sched := [5, 0, 7, 2048]\<rparr>)" "at_word sample_fabric 0 sample_drum"
  by (simp_all add: at_word_def drum_ok_def bank_ok_def chain_def sample_fabric_def sample_drum_def)

lemma stream_has_no_gap_witness:
  "\<exists>expected sink errs c. pump [sample_env, sample_env] (collect None) 0 [] (drum_bus sample_fabric (sample_drum\<lparr>dr_sched := [5, 0, 7, 2048]\<rparr>)) fresh_capture
      = ((expected, sink, errs), c)
    \<and> sink = word_bytes sample_fabric 0 (unat expected) \<and> list_all (pump_error None) errs"
proof -
  let ?run = "pump [sample_env, sample_env] (collect None) 0 [] (drum_bus sample_fabric (sample_drum\<lparr>dr_sched := [5, 0, 7, 2048]\<rparr>)) fresh_capture"
  obtain expected sink errs c where run: "?run = ((expected, sink, errs), c)" by (metis prod.exhaust)
  have "buffer_ok sample_fabric" "room_ok None" by (simp_all add: buffer_ok_def sample_fabric_def room_ok_def reserve_ok_def)
  from stream_has_no_gap [OF this sample_at_word(1) run] show ?thesis using run by blast
qed

text \<open>
  C34: A bank that is ready is delivered. A host at word \<open>e\<close> of the stream, a bank its own when the drain begins, the
  context alive and the sink with room: the drain gives the sink that bank's words and leaves the host behind them, or
  the fabric has faulted and the sink is untouched. Nothing else stops a drain.
\<close>

theorem ready_bank_is_delivered:
  assumes "buffer_ok P" and "room_ok room" and "host_at P d0 e c" and "e < 2 ^ 64"
    and "dr_full (drum.dev_at P d0 c) 0 \<or> dr_full (drum.dev_at P d0 c) 1"
    and "de_live0 env" and "de_live1 env" and "\<forall>f k err. room = Some f \<longrightarrow> f s k \<noteq> Inl err"
  shows "(\<exists>n blk c'. DrainStream env (collect room) (word_of_nat e) s (drum_bus P d0) c = ((Inr blk, s @ word_bytes P e n), c')
        \<and> 0 < n \<and> sb_Words blk = word_of_nat n \<and> host_at P d0 (e + n) c')
    \<or> (\<exists>err c'. DrainStream env (collect room) (word_of_nat e) s (drum_bus P d0) c = ((Inl err, s), c') \<and> dr_fault (drum.dev_at P d0 c'))"
proof -
  obtain r s' c' where run: "DrainStream env (collect room) (word_of_nat e) s (drum_bus P d0) c = ((r, s'), c')" by (metis prod.exhaust)
  note ok = drain_ok [OF assms(1-4) impI [OF assms(5)] run]
  have "\<not> reserve_error (map_option (\<lambda>f. f s) room) err" for err using assms(8) by (auto simp: reserve_error_def split: option.splits)
  then have "dr_fault (drum.dev_at P d0 c')" if "drain_error True env (map_option (\<lambda>f. f s) room) err (drum.dev_at P d0 c')" for err
    using that assms(6,7) unfolding drain_error_def by simp
  then show ?thesis using ok run by (cases r) auto
qed

text \<open>A drum that publishes nothing more never faults.\<close>

lemma quiet_drum:
  assumes "dr_sched d = []" "\<not> dr_fault d"
  shows "dr_sched (fold (drum_op P) tr d) = [] \<and> \<not> dr_fault (fold (drum_op P) tr d)"
  using assms
proof (induction tr arbitrary: d)
  case (Cons x tr)
  then have "dr_sched (drum_op P x d) = []" "\<not> dr_fault (drum_op P x d)"
    by (cases x; simp add: tick_def release_def Let_def)+
  then show ?case using Cons.IH by (simp del: drum_op.simps)
qed simp

lemma ready_bank_is_delivered_witness:
  "\<exists>n blk c'. DrainStream sample_env (collect None) 0 [] (drum_bus sample_fabric sample_drum) fresh_capture
      = ((Inr blk, word_bytes sample_fabric 0 n), c') \<and> 0 < n \<and> sb_Words blk = word_of_nat n"
proof -
  have p: "buffer_ok sample_fabric" "room_ok None" by (simp_all add: buffer_ok_def sample_fabric_def room_ok_def reserve_ok_def)
  have h: "host_at sample_fabric sample_drum 0 fresh_capture"
    using sample_at_word(2) by (simp add: host_at_def drum.steady_def drum.dev_at_def fresh_capture_def)
  have full: "dr_full (drum.dev_at sample_fabric sample_drum fresh_capture) 1" by (simp add: drum.dev_at_def fresh_capture_def sample_drum_def)
  have "\<not> dr_fault (drum.dev_at sample_fabric sample_drum c')" for c'
    using quiet_drum [of sample_drum sample_fabric "cp_trace c' @ map (\<lambda>(s, v). BWrite s v) (cp_pending c')"] unfolding drum.dev_at_def
    by (simp add: sample_drum_def)
  moreover have "de_live0 sample_env" "de_live1 sample_env" by (simp_all add: sample_env_def)
  ultimately show ?thesis
    using ready_bank_is_delivered [OF p h _ disjI2 [OF full], of sample_env "[]"] by simp blast
qed

end
