(* ===== verification/StreamStart.thy ===== *)
theory StreamStart
  imports Arm SramStatus StreamDrum
begin

text \<open>
  Starting and stopping a stream (\<open>stream.go\<close>, \<open>stream_ring.go\<close> of \<open>app/internal/sramcapture/\<close>): the stream's pace, the
  record's stream, the history ring. A start that fails leaves no stream on; a stop switches it off whatever the halt said.

  As in \<open>Arm\<close> and \<open>Halt\<close>, the numbers bound the reads of the status within a command's deadline.
\<close>

section \<open>The pace\<close>

record stream_pace =
  pc_Words :: u32
  pc_RampClocks :: u16

definition streamPaceCapability :: u16 where "streamPaceCapability = 0x5241"

definition setStreamPace :: "stream_pace \<Rightarrow> unit cap" where
  "setStreamPace p =
    (if pc_Words p = 1 \<or> pc_Words p > push_bit 19 1 then fail BadPace
     else if pc_RampClocks p = 1 then fail BadPace
     else do1 (writeMany [(29, ucast (pc_Words p AND 0xffff)), (30, ucast (drop_bit 16 (pc_Words p))), (46, pc_RampClocks p)])
       (if p = \<lparr>pc_Words = 0, pc_RampClocks = 0\<rparr> then ret ()
        else andThen (readMany [65, 66, 67, 68]) (\<lambda>v.
          if v ! 0 \<noteq> streamPaceCapability then fail NotSupported
          else if ucast (v ! 1) OR push_bit 16 (ucast (v ! 2 AND 15)) \<noteq> pc_Words p \<or> v ! 3 \<noteq> pc_RampClocks p then fail BadPace
          else ret ())))"

section \<open>The start\<close>

definition stream_mode :: "bool \<Rightarrow> bool \<Rightarrow> u16" where
  "stream_mode cont peak = 1 OR (if cont then 2 else 0) OR (if peak then 4 else 0)"

definition stream_revision :: "unit cap" where
  "stream_revision = andThen (read_reg 13) (\<lambda>rev. if rev \<noteq> 11 then fail StreamRevision else ret ())"

text \<open>The arm, and the stream off again when it fails (best effort: the arm's error is the one reported).\<close>

definition arm_or_off :: "nat \<Rightarrow> arm_cfg \<Rightarrow> unit cap" where
  "arm_or_off n cfg = (\<lambda>b c. case Arm n cfg b c of
     (Inl err, c) \<Rightarrow> (Inl err, snd (write_reg 19 0 b c))
   | (Inr (), c) \<Rightarrow> (Inr (), c))"

definition StartStream :: "nat \<Rightarrow> arm_cfg \<Rightarrow> bool \<Rightarrow> bool \<Rightarrow> stream_pace \<Rightarrow> unit cap" where
  "StartStream n cfg cont peak pace =
    (if ar_DecimationLog2 cfg < 8 \<or> ar_DecimationLog2 cfg > 20 then fail BadStreamDecimation
     else do1 stream_revision (do1 prepareStreamBuffers (do1 (setStreamPace pace)
       (do1 (\<lambda>b c. case write_reg 19 (stream_mode cont peak) b c of (r, c) \<Rightarrow> (r, c\<lparr>cp_ringStream := False\<rparr>))
         (arm_or_off n cfg)))))"

definition StopStream :: "nat \<Rightarrow> nat \<Rightarrow> nat \<Rightarrow> nat \<Rightarrow> unit cap" where
  "StopStream n k n2 k2 = (\<lambda>b c.
     case (if cp_ringStream c then do1 (Halt n k) (Halt n2 k2) else Halt n k) b c of (r, c) \<Rightarrow>
       (case write_reg 19 0 b (c\<lparr>cp_ringStream := False\<rparr>) of (w, c) \<Rightarrow> (if r = Inr () then w else r, c)))"

section \<open>The history ring\<close>

definition streamRingCapability :: u16 where "streamRingCapability = 0x5247"
definition regStreamLog :: nat where "regStreamLog = 21"

definition StreamRingSupported :: "fabric \<Rightarrow> capture \<Rightarrow> bool \<times> capture" where
  "StreamRingSupported b c = (case read_reg 13 b c of
     (Inl _, c) \<Rightarrow> (False, c)
   | (Inr v, c) \<Rightarrow> if v \<noteq> 11 then (False, c)
       else (case read_reg 61 b c of (Inl _, c) \<Rightarrow> (False, c) | (Inr v, c) \<Rightarrow> (v = streamRingCapability, c)))"

definition ring_setup :: "byte \<Rightarrow> stream_pace \<Rightarrow> unit cap" where
  "ring_setup streamLog pace = do1 stream_revision
     (do1 (andThen (read_reg 61) (\<lambda>v. if v \<noteq> streamRingCapability then fail NotSupported else ret ()))
     (do1 prepareStreamBuffers (do1 (setStreamPace pace) (do1 (write_reg regStreamLog (ucast streamLog))
       (write_reg 19 (1 OR 2 OR 4 OR 32))))))"

definition StartStreamRing :: "nat \<Rightarrow> arm_cfg \<Rightarrow> byte \<Rightarrow> stream_pace \<Rightarrow> unit cap" where
  "StartStreamRing n cfg streamLog pace =
    (if ar_DecimationLog2 cfg < 8 \<or> ar_DecimationLog2 cfg > 20 then fail BadStreamDecimation
     else if streamLog < 8 \<or> streamLog > 20 then fail BadStreamDecimation
     else do1 (\<lambda>b c. case ring_setup streamLog pace b c of (r, c) \<Rightarrow> (r, c\<lparr>cp_ringStream := (r = Inr ())\<rparr>))
       (\<lambda>b c. case arm_or_off n cfg b c of (Inl err, c) \<Rightarrow> (Inl err, c\<lparr>cp_ringStream := False\<rparr>) | (Inr (), c) \<Rightarrow> (Inr (), c)))"

definition FreezeRing :: "nat \<Rightarrow> nat \<Rightarrow> (metadata \<times> u32) cap" where
  "FreezeRing n k = andThen (getc cp_ringStream) (\<lambda>ring. if \<not> ring then fail NotRunning else
     do1 (Halt n k) (andThen status (\<lambda>m.
       if \<not> md_Frozen m \<or> \<not> md_Ready m \<or> md_Length m = 0 then fail NotFrozen
       else andThen (read32 62) (\<lambda>v. ret (m, v)))))"

section \<open>What reaches register 19\<close>

text \<open>The stream's mode as the bus has it: the value of the last write of register 19 that it took.\<close>

definition mode_of :: "bop list \<Rightarrow> u16" where
  "mode_of tr = fold (\<lambda>x m. case x of BWrite s v \<Rightarrow> if s = 19 then v else m | _ \<Rightarrow> m) tr 0"

lemma mode_of_simps [simp]:
  "mode_of [] = 0" "mode_of (tr @ [BRead s]) = mode_of tr" "mode_of (tr @ [BWriteErr s v]) = mode_of tr"
  "mode_of (tr @ [BWrite s v]) = (if s = 19 then v else mode_of tr)"
  by (simp_all add: mode_of_def)

text \<open>\<open>calm\<close>: from an idle capture the operation leaves it idle and the stream's mode as it was, also when it fails.\<close>

definition calm :: "'a cap \<Rightarrow> bool" where
  "calm m \<longleftrightarrow> (\<forall>b c r c'. idle c \<longrightarrow> m b c = (r, c') \<longrightarrow>
     idle c' \<and> mode_of (cp_trace c') = mode_of (cp_trace c) \<and> cp_ringStream c' = cp_ringStream c)"

lemma calm_ret [intro!]: "calm (ret x)" by (simp add: calm_def ret_def)
lemma calm_fail [intro!]: "calm (fail e)" by (simp add: calm_def fail_def)

lemma calm_andThen [intro!]:
  assumes "calm m" "\<And>x. calm (f x)"
  shows "calm (andThen m f)"
  unfolding calm_def
proof (intro allI impI)
  fix b c r c' assume c: "idle c" "andThen m f b c = (r, c')"
  obtain x c1 where m: "m b c = (x, c1)" by (rule prod.exhaust)
  note 1 = assms(1) [unfolded calm_def, rule_format, OF c(1) m]
  show "idle c' \<and> mode_of (cp_trace c') = mode_of (cp_trace c) \<and> cp_ringStream c' = cp_ringStream c"
  proof (cases x)
    case (Inl e)
    then show ?thesis using c m 1 by (simp add: andThen_def)
  next
    case (Inr y)
    then have "f y b c1 = (r, c')" using c m by (simp add: andThen_def)
    then show ?thesis using 1 assms(2) [of y, unfolded calm_def] by fastforce
  qed
qed

lemma calm_if [intro!]: "(P \<Longrightarrow> calm m) \<Longrightarrow> (\<not> P \<Longrightarrow> calm m') \<Longrightarrow> calm (if P then m else m')"
  by simp

lemma calm_read [intro!]: "calm (read_reg s)"
  by (auto simp: calm_def read_reg_def cached_def idle_def flushWrites_def bus_read_def andThen_def split: option.splits)

lemma calm_read_all [intro!]: "calm (read_all ss)"
  by (induction ss) auto

lemma calm_readMany [intro!]: "calm (readMany ss)"
proof -
  have "calm flushWrites" by (auto simp: calm_def flushWrites_def idle_def)
  then show ?thesis unfolding readMany_def by blast
qed

lemma calm_raw [intro!]: "s \<noteq> 19 \<Longrightarrow> calm (RawWrite s v)"
  by (auto simp: calm_def RawWrite_def idle_def)

lemma calm_write [intro!]: "s \<noteq> 19 \<Longrightarrow> calm (write_reg s v)"
  by (auto simp: calm_def write_reg_def RawWrite_def idle_def)

lemma calm_send: "list_all (\<lambda>(s, v). s \<noteq> 19) rs \<Longrightarrow> calm (sendMany rs)"
  by (induction rs rule: sendMany.induct) auto

lemma calm_writeMany [intro!]:
  assumes "list_all (\<lambda>(s, v). s \<noteq> 19) rs"
  shows "calm (writeMany rs)"
  unfolding calm_def
proof (intro allI impI)
  fix b c r c' assume c: "idle c" "writeMany rs b c = (r, c')"
  then have "sendMany rs b c = (r, c')" by (simp add: writeMany_def idle_def)
  from calm_send [OF assms, unfolded calm_def, rule_format, OF c(1) this]
  show "idle c' \<and> mode_of (cp_trace c') = mode_of (cp_trace c) \<and> cp_ringStream c' = cp_ringStream c" .
qed

lemma calm_setup: "calm stream_revision" "calm prepareStreamBuffers" "calm (setStreamPace pace)"
proof -
  have "calm (update (\<lambda>c. c\<lparr>cp_streamWords := words\<rparr>))" for words by (auto simp: calm_def update_def idle_def)
  then show "calm prepareStreamBuffers" unfolding prepareStreamBuffers_def by (intro calm_andThen calm_read calm_if calm_fail)
next
  show "calm stream_revision" unfolding stream_revision_def by (intro calm_andThen calm_read calm_if calm_fail calm_ret)
  show "calm (setStreamPace pace)" unfolding setStreamPace_def
    by (intro calm_andThen calm_readMany calm_writeMany calm_if calm_fail calm_ret) simp
qed

text \<open>An arm ends with its writes going straight out again.\<close>

definition unqueued :: "capture \<Rightarrow> bool" where
  "unqueued c \<longleftrightarrow> \<not> cp_queueWrites c"

lemma send_queue: "sendMany rs b c = (r, c') \<Longrightarrow> cp_queueWrites c' = cp_queueWrites c"
proof (induction rs arbitrary: c)
  case (Cons x rs)
  then show ?case by (cases x) (auto simp: andThen_def RawWrite_def split: if_splits prod.splits sum.splits)
qed (simp add: ret_def)

lemma flush_queue: "flushWrites b c = (r, c') \<Longrightarrow> cp_queueWrites c' = cp_queueWrites c"
  by (auto simp: flushWrites_def split: if_splits prod.splits dest: send_queue)

lemma Arm_unqueued:
  assumes "idle c" "Arm n cfg b c = (r, c')"
  shows "\<not> cp_queueWrites c'"
proof (cases "Check cfg = None \<and> n \<noteq> 0")
  case False
  then show ?thesis using assms by (auto simp: Arm_def fail_def idle_def split: option.splits if_splits)
next
  case True
  obtain x c1 where m: "readMany armSels b c = (x, c1)" by (rule prod.exhaust)
  have c1: "idle c1" using calm_readMany [of armSels, unfolded calm_def, rule_format, OF assms(1) m] by simp
  show ?thesis
  proof (cases x)
    case (Inl e)
    then show ?thesis using assms(2) True m c1 by (simp add: Arm_def andThen_def idle_def)
  next
    case (Inr regs)
    obtain r2 c2 where b2: "arm_body n cfg b (c1\<lparr>cp_armRead := regs, cp_armReady := True, cp_queueWrites := True\<rparr>) = (r2, c2)" by (rule prod.exhaust)
    obtain w c3 where f: "flushWrites b (c2\<lparr>cp_armReady := False, cp_queueWrites := False\<rparr>) = (w, c3)" by (rule prod.exhaust)
    have "c' = c3" using assms(2) True m Inr b2 f by (cases w) (simp_all add: Arm_def andThen_def update_def)
    then show ?thesis using flush_queue [OF f] by simp
  qed
qed

lemma off_last:
  assumes "\<not> cp_queueWrites c" "write_reg 19 0 b c = (r, c')"
  shows "mode_of (cp_trace c') = 0 \<or> (\<exists>tr. cp_trace c' = tr @ [BWriteErr 19 0])" "cp_ringStream c' = cp_ringStream c"
  using assms by (auto simp: write_reg_def RawWrite_def split: if_splits)

section \<open>The properties\<close>

text \<open>
  What a failed operation leaves of the stream: the mode that was there before, or none, unless the bus refused the
  very write that switches the stream off.
\<close>

definition no_stream_started :: "capture \<Rightarrow> capture \<Rightarrow> bool" where
  "no_stream_started c c' \<longleftrightarrow> mode_of (cp_trace c') = mode_of (cp_trace c) \<or> mode_of (cp_trace c') = 0
     \<or> (\<exists>tr. cp_trace c' = tr @ [BWriteErr 19 0])"

lemma arm_or_off_error:
  assumes "idle c" "arm_or_off n cfg b c = (Inl err, c')"
  shows "mode_of (cp_trace c') = 0 \<or> (\<exists>tr. cp_trace c' = tr @ [BWriteErr 19 0])"
proof -
  obtain r c1 where a: "Arm n cfg b c = (r, c1)" by (rule prod.exhaust)
  obtain w c2 where w: "write_reg 19 0 b c1 = (w, c2)" by (rule prod.exhaust)
  have "c' = c2" using assms(2) a w by (cases r) (auto simp: arm_or_off_def split: unit.splits)
  then show ?thesis using off_last(1) [OF Arm_unqueued [OF assms(1) a] w] by simp
qed

text \<open>A calm step that fails, or what comes after it.\<close>

lemma calm_step:
  assumes "calm m" "idle c" "andThen m f b c = (r, c')"
  shows "(\<exists>e. r = Inl e \<and> mode_of (cp_trace c') = mode_of (cp_trace c) \<and> cp_ringStream c' = cp_ringStream c)
    \<or> (\<exists>x c1. f x b c1 = (r, c') \<and> idle c1 \<and> mode_of (cp_trace c1) = mode_of (cp_trace c) \<and> cp_ringStream c1 = cp_ringStream c)"
proof -
  obtain x c1 where m: "m b c = (x, c1)" by (rule prod.exhaust)
  note 1 = assms(1) [unfolded calm_def, rule_format, OF assms(2) m]
  show ?thesis using 1 assms(3) m by (cases x) (auto simp: andThen_def)
qed

lemma StartStream_error:
  assumes "idle c" "StartStream n cfg cont peak pace b c = (Inl err, c')"
  shows "no_stream_started c c'"
proof (cases "ar_DecimationLog2 cfg < 8 \<or> ar_DecimationLog2 cfg > 20")
  case True
  then show ?thesis using assms by (simp add: StartStream_def fail_def no_stream_started_def)
next
  case False
  let ?mode = "\<lambda>b c. case write_reg 19 (stream_mode cont peak) b c of (r, c) \<Rightarrow> (r, c\<lparr>cp_ringStream := False\<rparr>)"
  have run: "do1 (do1 stream_revision (do1 prepareStreamBuffers (setStreamPace pace))) (do1 ?mode (arm_or_off n cfg)) b c = (Inl err, c')"
    using assms(2) False by (simp add: StartStream_def andThen_assoc)
  have calm: "calm (do1 stream_revision (do1 prepareStreamBuffers (setStreamPace pace)))" using calm_setup by blast
  from calm_step [OF calm assms(1) run] show ?thesis
  proof (elim disjE exE conjE)
    fix c1 assume c1: "do1 ?mode (arm_or_off n cfg) b c1 = (Inl err, c')" "idle c1" "mode_of (cp_trace c1) = mode_of (cp_trace c)"
    obtain r c2 where w: "write_reg 19 (stream_mode cont peak) b c1 = (r, c2)" by (rule prod.exhaust)
    have w2: "idle c2" "r = Inl e \<Longrightarrow> mode_of (cp_trace c2) = mode_of (cp_trace c1)" for e
      using w c1(2) by (auto simp: write_reg_def RawWrite_def idle_def split: if_splits)
    show ?thesis
    proof (cases r)
      case (Inl e)
      then show ?thesis using c1 w w2 by (auto simp: andThen_def no_stream_started_def)
    next
      case (Inr u)
      then have "arm_or_off n cfg b (c2\<lparr>cp_ringStream := False\<rparr>) = (Inl err, c')" using c1(1) w by (simp add: andThen_def)
      then show ?thesis using arm_or_off_error [of "c2\<lparr>cp_ringStream := False\<rparr>"] w2(1) by (auto simp: no_stream_started_def idle_def)
    qed
  qed (simp add: no_stream_started_def)
qed

lemma arm_or_off_ring:
  assumes "StartStreamRing n cfg streamLog pace b c = (Inl err, c')" "8 \<le> ar_DecimationLog2 cfg" "ar_DecimationLog2 cfg \<le> 20"
    "8 \<le> streamLog" "streamLog \<le> 20"
  shows "(\<exists>c1. ring_setup streamLog pace b c = (Inl err, c1) \<and> c' = c1\<lparr>cp_ringStream := False\<rparr>)
    \<or> (\<exists>c1 c2. ring_setup streamLog pace b c = (Inr (), c1) \<and> arm_or_off n cfg b (c1\<lparr>cp_ringStream := True\<rparr>) = (Inl err, c2)
        \<and> c' = c2\<lparr>cp_ringStream := False\<rparr>)"
proof -
  obtain r c1 where s: "ring_setup streamLog pace b c = (r, c1)" by (rule prod.exhaust)
  obtain a c2 where a: "arm_or_off n cfg b (c1\<lparr>cp_ringStream := True\<rparr>) = (a, c2)" by (rule prod.exhaust)
  have "\<not> (ar_DecimationLog2 cfg < 8 \<or> ar_DecimationLog2 cfg > 20)" "\<not> (streamLog < 8 \<or> streamLog > 20)" using assms(2-5) by auto
  then have run: "do1 (\<lambda>b c. case ring_setup streamLog pace b c of (r, c) \<Rightarrow> (r, c\<lparr>cp_ringStream := (r = Inr ())\<rparr>))
       (\<lambda>b c. case arm_or_off n cfg b c of (Inl err, c) \<Rightarrow> (Inl err, c\<lparr>cp_ringStream := False\<rparr>) | (Inr (), c) \<Rightarrow> (Inr (), c)) b c = (Inl err, c')"
    using assms(1) unfolding StartStreamRing_def by (simp only: if_False)
  show ?thesis
  proof (cases r)
    case (Inl e)
    then show ?thesis using run s by (auto simp: andThen_def)
  next
    case (Inr u)
    then have "(case arm_or_off n cfg b (c1\<lparr>cp_ringStream := True\<rparr>) of (Inl err, c) \<Rightarrow> (Inl err, c\<lparr>cp_ringStream := False\<rparr>)
        | (Inr (), c) \<Rightarrow> (Inr (), c)) = (Inl err, c')" using run s by (simp add: andThen_def)
    then have "a = Inl err" "c' = c2\<lparr>cp_ringStream := False\<rparr>" using a by (cases a; auto split: unit.splits)+
    moreover have "ring_setup streamLog pace b c = (Inr (), c1)" using s Inr by simp
    ultimately show ?thesis using a by blast
  qed
qed

lemma ring_setup_modes:
  assumes "idle c" "ring_setup streamLog pace b c = (r, c')"
  shows "idle c'" "r = Inl e \<Longrightarrow> mode_of (cp_trace c') = mode_of (cp_trace c)"
proof -
  let ?first = "do1 stream_revision (do1 (andThen (read_reg 61) (\<lambda>v. if v \<noteq> streamRingCapability then fail NotSupported else ret ()))
     (do1 prepareStreamBuffers (do1 (setStreamPace pace) (write_reg regStreamLog (ucast streamLog)))))"
  have calm: "calm ?first"
    by (rule calm_andThen [OF calm_setup(1)], rule calm_andThen, intro calm_andThen calm_read calm_if calm_fail calm_ret,
        rule calm_andThen [OF calm_setup(2)], rule calm_andThen [OF calm_setup(3)], rule calm_write) (simp add: regStreamLog_def)
  have run: "do1 ?first (write_reg 19 (1 OR 2 OR 4 OR 32)) b c = (r, c')"
    using assms(2) by (simp only: ring_setup_def andThen_assoc)
  obtain x c1 where f: "?first b c = (x, c1)" by (rule prod.exhaust)
  note 1 = calm [unfolded calm_def, rule_format, OF assms(1) f]
  have "idle c' \<and> (r = Inl e \<longrightarrow> mode_of (cp_trace c') = mode_of (cp_trace c))"
  proof (cases x)
    case (Inl e1)
    then show ?thesis using run f 1 unfolding andThen_def [of ?first] by simp
  next
    case (Inr u)
    then have "write_reg 19 (1 OR 2 OR 4 OR 32) b c1 = (r, c')" using run f unfolding andThen_def [of ?first] by simp
    then show ?thesis using 1 by (auto simp: write_reg_def RawWrite_def idle_def split: if_splits)
  qed
  then show "idle c'" "r = Inl e \<Longrightarrow> mode_of (cp_trace c') = mode_of (cp_trace c)" by simp_all
qed

lemma StartStreamRing_error:
  assumes "idle c" "StartStreamRing n cfg streamLog pace b c = (Inl err, c')"
  shows "no_stream_started c c' \<and> (c' = c \<or> \<not> cp_ringStream c')"
proof (cases "8 \<le> ar_DecimationLog2 cfg \<and> ar_DecimationLog2 cfg \<le> 20 \<and> 8 \<le> streamLog \<and> streamLog \<le> 20")
  case False
  then have "c' = c" using assms(2) by (auto simp: StartStreamRing_def fail_def not_le split: if_splits)
  then show ?thesis by (simp add: no_stream_started_def)
next
  case True
  then have "(\<exists>c1. ring_setup streamLog pace b c = (Inl err, c1) \<and> c' = c1\<lparr>cp_ringStream := False\<rparr>)
    \<or> (\<exists>c1 c2. ring_setup streamLog pace b c = (Inr (), c1) \<and> arm_or_off n cfg b (c1\<lparr>cp_ringStream := True\<rparr>) = (Inl err, c2)
        \<and> c' = c2\<lparr>cp_ringStream := False\<rparr>)" using arm_or_off_ring [OF assms(2)] by blast
  then show ?thesis
  proof (elim conjE disjE exE)
    fix c1 assume "ring_setup streamLog pace b c = (Inl err, c1)" "c' = c1\<lparr>cp_ringStream := False\<rparr>"
    then show ?thesis using ring_setup_modes(2) [OF assms(1)] by (simp add: no_stream_started_def)
  next
    fix c1 c2
    assume r: "ring_setup streamLog pace b c = (Inr (), c1)" "arm_or_off n cfg b (c1\<lparr>cp_ringStream := True\<rparr>) = (Inl err, c2)"
      "c' = c2\<lparr>cp_ringStream := False\<rparr>"
    have "idle (c1\<lparr>cp_ringStream := True\<rparr>)" using ring_setup_modes(1) [OF assms(1) r(1)] by (simp add: idle_def)
    then show ?thesis using arm_or_off_error [OF _ r(2)] r(3) by (auto simp: no_stream_started_def)
  qed
qed

lemma calm_halt: "calm (Halt n k)"
proof -
  have "calm (ack_loop n op ack)" for n op ack
    by (induction n) (simp_all add: calm_fail calm_andThen calm_read calm_if calm_ret)
  moreover have "calm (wait_mask k msk)" for msk
    by (induction k) (simp_all add: calm_fail calm_andThen calm_read calm_if calm_ret)
  ultimately show ?thesis unfolding Halt_def commandIn_def
    by (intro calm_andThen calm_if calm_read calm_fail calm_write) simp_all
qed

lemma StopStream_off:
  assumes "idle c" "StopStream n k n2 k2 b c = (r, c')"
  shows "(mode_of (cp_trace c') = 0 \<or> (\<exists>tr. cp_trace c' = tr @ [BWriteErr 19 0])) \<and> \<not> cp_ringStream c'"
proof -
  let ?halt = "if cp_ringStream c then do1 (Halt n k) (Halt n2 k2) else Halt n k"
  obtain h c1 where h: "?halt b c = (h, c1)" by (rule prod.exhaust)
  have "calm ?halt" by (intro calm_if calm_andThen calm_halt)
  then have "idle c1" using h assms(1) unfolding calm_def by blast
  then have q: "\<not> cp_queueWrites (c1\<lparr>cp_ringStream := False\<rparr>)" by (simp add: idle_def)
  obtain w c2 where w: "write_reg 19 0 b (c1\<lparr>cp_ringStream := False\<rparr>) = (w, c2)" by (rule prod.exhaust)
  have "c' = c2" using assms(2) h w by (auto simp: StopStream_def split: if_splits)
  then show ?thesis using off_last [OF q w] by simp
qed

text \<open>
  C35: No stream is left on by a start that failed, nor by a stop. From an idle capture, whatever the fabric answers:
  a record's stream or a ring's that does not start leaves register 19 with the mode it had, or zero; a refused one
  leaves the capture's ring off (or did not touch it); a stop leaves zero and the ring off, whatever became of the
  halt. The one exception is a bus that refuses the very write of the zero, the last access then.
\<close>

theorem no_stream_left_on:
  assumes "idle c"
  shows "(StartStream n cfg cont peak pace b c = (Inl err, c') \<longrightarrow> no_stream_started c c')
    \<and> (StartStreamRing n cfg streamLog pace b c = (Inl err, c') \<longrightarrow> no_stream_started c c' \<and> (c' = c \<or> \<not> cp_ringStream c'))
    \<and> (StopStream n k n2 k2 b c = (r, c') \<longrightarrow>
        (mode_of (cp_trace c') = 0 \<or> (\<exists>tr. cp_trace c' = tr @ [BWriteErr 19 0])) \<and> \<not> cp_ringStream c')"
  by (intro conjI impI; elim StartStream_error [OF assms] StartStreamRing_error [OF assms, THEN conjunct1]
      StartStreamRing_error [OF assms, THEN conjunct2] StopStream_off [OF assms, THEN conjunct1] StopStream_off [OF assms, THEN conjunct2])

text \<open>A fabric of revision 11 whose status refuses the run: the stream was on when the arm failed.\<close>

definition refusing_fabric :: fabric where
  "refusing_fabric = \<lparr>fb_read = (\<lambda>tr s. Some (if s = 13 then 11 else if s = 26 then 4096 else 0)), fb_write = (\<lambda>tr s v. True)\<rparr>"

lemma start_refused:
  "case StartStream 5 (edge_cfg\<lparr>ar_DecimationLog2 := 8\<rparr>) True False \<lparr>pc_Words = 0, pc_RampClocks = 0\<rparr> refusing_fabric fresh_capture of
     (r, c') \<Rightarrow> r = Inl NotHalted \<and> bus_writes (cp_trace c') = [(29, 0), (30, 0), (46, 0), (19, 3), (19, 0)]"
  by code_simp

lemma no_stream_left_on_witness:
  "\<exists>c'. StartStream 5 (edge_cfg\<lparr>ar_DecimationLog2 := 8\<rparr>) True False \<lparr>pc_Words = 0, pc_RampClocks = 0\<rparr> refusing_fabric fresh_capture = (Inl NotHalted, c')
     \<and> no_stream_started fresh_capture c'"
proof -
  obtain c' where "StartStream 5 (edge_cfg\<lparr>ar_DecimationLog2 := 8\<rparr>) True False \<lparr>pc_Words = 0, pc_RampClocks = 0\<rparr> refusing_fabric fresh_capture = (Inl NotHalted, c')"
    using start_refused by (auto split: prod.splits)
  moreover have "idle fresh_capture" by (simp add: idle_def fresh_capture_def)
  ultimately show ?thesis using no_stream_left_on [of fresh_capture] by blast
qed

end
