(* ===== verification/Spec2Isabelle.thy ===== *)
theory Spec2Isabelle
  imports LineWire Handlers Takeover Saver MatchEditor FpgaLoad Watchdog Upload Arm TriggerReadback SramVerify RecallCorrect EventFifo Vxi11 StreamEdges SerialPlan SymbolWindow StreamDrain StreamStart
begin

text \<open>
  A verification library for the SDS1000CML oscilloscope firmware.

  \<^bold>\<open>The program.\<close> Two Go programs run on the instrument, a 32-bit ARM board with an FPGA behind a memory-mapped
  register bus and a USB stick as its disk. The \<^emph>\<open>agent\<close> (\<open>src/ota\<close>) is started by the boot anchor: it takes the
  instrument over from the factory firmware, keeps the hardware watchdog petted, supervises the oscilloscope
  application, and answers requests that upload and install new binaries into one of two slots. The
  \<^emph>\<open>application\<close> (\<open>src/app\<close>) loads the FPGA image, arms acquisitions, reads the records back, decodes serial
  buses, and serves the panel, the display, the network and the stick. The library models the logic that
  decides what those programs do to the disk, to the processes and to the FPGA, as functions on explicit
  state; a theory is named after the part it models and its definitions after the functions of the source.

  \<^bold>\<open>Prelude and interfaces.\<close>
  \<^item> \<open>Prelude\<close>: the machine integers, byte buffers, little-endian integers and number formatting. A run-time
    panic is \<^term>\<open>None\<close>; an error a function returns is a value of an error datatype in a sum.
  \<^item> \<open>GoText\<close>: the functions of \<open>strings\<close> and \<open>strconv\<close> the components share.
  \<^item> \<open>SlotPointer\<close> (locale \<open>slot_pointer\<close>): a persistent pointer under failing writes; interpreted in
    \<open>SlotStore\<close> on the active and the confirmed pointer.
  \<^item> \<open>BoundedLog\<close> (locale \<open>bounded_log\<close>): a bounded history with absolute indices; interpreted in
    \<open>Transcript\<close> on the transcript's ring.
  \<^item> \<open>BusDevice\<close> (locale \<open>bus_device\<close>): a device behind the register bus; interpreted in \<open>RecallDevice\<close> on the
    fabric with a frozen record, in \<open>EventFifo\<close> on the decoded-event FIFO and in \<open>StreamDrain\<close> on the stream's drum.
    \<open>BusOutcome\<close> extends it with rules for operations whose outcome the device decides (\<open>tri\<close>).
  \<^item> \<open>Vxi11Query\<close> (locale \<open>link_peer\<close>): an instrument server with a live link; interpreted in \<open>Vxi11\<close>.

  \<^bold>\<open>The agent\<close> (\<open>src/ota/internal\<close>).
  \<^item> \<open>Stick\<close>: the file system as the \<open>os\<close> package shows it. Every call may fail; an oracle in the state says which
    do and how much of a write arrived, so a theorem over all states covers all faults and power cuts. Beside the
    files a process reads, the state holds what a boot may find per path if the power goes: data that was not
    synced may be found as anything, a rename may not have reached the stick, and the one promise assumed is that
    a directory entry being renamed over is found old or new.
  \<^item> \<open>SlotStore\<close> (\<open>slots/slots.go\<close>): the pointers, installing a binary, the status with its hash cache. Installing
    is all or nothing, for the agent and for a boot; pointers stay valid slots, but a pointer just set may be lost.
  \<^item> \<open>StateFile\<close> (\<open>agent/state.go\<close>), \<open>Upload\<close> (\<open>agent/upload.go\<close>), \<open>Health\<close> (\<open>agent/health.go\<close>),
    \<open>Watchdog\<close> (\<open>watchdog/watchdog.go\<close>, its interleavings as an inductive step relation).
  \<^item> \<open>Supervise\<close> (\<open>agent/supervise.go\<close>): one generation of the application after another; the
    environment of each generation (how it starts, the ticks, health reports and requests of its run, how it ends)
    is an argument. A crashing run is told by its events alone: it ends before the app was both seen healthy and
    \<open>Stable\<close> old. \<open>Handlers\<close> (\<open>agent/handlers.go\<close>): the requests. The end-to-end property, that a bad update is
    undone, whichever app ran when it came, spans
    \<open>Handlers\<close>, \<open>Supervise\<close>, \<open>StateFile\<close> and \<open>SlotStore\<close>.
  \<^item> \<open>Takeover\<close> (\<open>agent/takeover.go\<close>): the takeover as a sequence of recorded steps over an arbitrary process table.

  \<^bold>\<open>The application\<close> (\<open>src/app/internal\<close>).
  \<^item> \<open>DecodedEvent\<close> (\<open>sramcapture/decoded_event.go\<close>), \<open>Transcript\<close> and \<open>LineWire\<close> (\<open>decodedlines/lines.go\<close>):
    the decoded event, the transcript built of events, and its wire format.
  \<^item> \<open>Saver\<close> (\<open>settings/saver.go\<close>); \<open>MatchEditor\<close> (\<open>panel/match_editor.go\<close>): the serial match editor.
  \<^item> \<open>FpgaLoad\<close> (\<open>fpgaload\<close>): the passive-serial configuration of the FPGA over an arbitrary board.
  \<^item> \<open>SramBus\<close>, \<open>TriggerBlocks\<close>, \<open>ArmConfig\<close>, \<open>Arm\<close> (\<open>sramcapture/capture.go\<close> and one file per trigger block):
    the register bus with its write queue, the blocks' registers, the configuration's rules and the arm.
    The abstract specification of the arm is the register program of its configuration (\<open>arm_program\<close> and the
    functions below it); \<open>Arm\<close> is proved to write exactly that. \<open>TriggerReadback\<close> reads the registers back.
  \<^item> \<open>SramStatus\<close>, \<open>SramRecall\<close>, \<open>SramReads\<close>: the status, the recall of a frozen record, and its users. \<open>RecallSpans\<close>
    proves the cut of a window into spans, \<open>RecallDevice\<close> states the fabric, \<open>RecallBurst\<close> one burst on it,
    \<open>RecallCorrect\<close> the whole recall; \<open>SramVerify\<close> the start-up counter check.
  \<^item> \<open>EventStream\<close>, \<open>EventFifo\<close> (\<open>sramcapture/decoded_event_stream.go\<close>): the decoded events read from the fabric.
  \<^item> \<open>StreamDrum\<close>, \<open>StreamStart\<close> (\<open>sramcapture/stream.go\<close>, \<open>stream_ring.go\<close>): the gap-free word stream, the drain of one
    of its banks, its pace, start and stop, and the history ring. \<open>StreamDrain\<close> states the fabric's drum, which publishes
    between any two accesses, and proves that the sink gets the stream without a gap.
  \<^item> \<open>SerialMatch\<close>, \<open>SerialPlan\<close> (\<open>engine/serial_sequence.go\<close>): the serial trigger's sequence over decoded spans, proved to
    find the first contiguous run of events that fits the pattern, and its plan for the fabric's matcher.
  \<^item> \<open>SymbolTrigger\<close> (\<open>decode/symbol_trigger.go\<close>): the symbol trigger block, clock for clock. \<open>SymbolClasses\<close> proves what a run
    of the line is classified as and that no index leaves its range, \<open>SymbolWindow\<close> when a frame opens and that the
    matches are the bit windows that answer the request.
  \<^item> \<open>EdgeLine\<close> (\<open>decode/edgeline.go\<close>): a digital line held as its edges; \<open>EdgeSamples\<close> proves every operation to be
    the list operation on the samples. \<open>StreamDecoder\<close> (\<open>decode/stream.go\<close>): the window over a continuous stream and
    the frames handed out of it, over an arbitrary protocol decoder; \<open>StreamFrames\<close> proves that spans come once and
    in order and that the window is bounded, \<open>StreamEdges\<close> that a stream of edges is decoded as its samples.

  \<^bold>\<open>Both.\<close> \<open>Vxi11Wire\<close>, \<open>Vxi11Server\<close> (\<open>app/internal/vxi11srv/server.go\<close>), \<open>Vxi11Client\<close> (\<open>ota/internal/vxi11/vxi11.go\<close>): instrument
  control over the network, on both ends; offsets are 32-bit \<open>int\<close>s and a slice bound out of range is a panic.
  \<open>Vxi11Marks\<close> treats the record marks, \<open>Vxi11Session\<close> the messages that panic
  and the exclusive link, \<open>Vxi11Query\<close> the client under a server that answers (locale \<open>link_peer\<close>), which \<open>Vxi11\<close>
  interprets on the application's server.

  \<^bold>\<open>Bounds and fuel.\<close> Integers that wrap or are compared at a width are words (\<open>int\<close> is 32 bits on the
  target). Polling loops with a deadline take the number of polls as an argument; properties hold for every
  number, and those that promise an outcome say how many polls are enough (the device's latency). Loops
  without a bound are \<open>partial_function\<close>s with \<^term>\<open>None\<close> for not ending, and are proved to end where they do.

  \<^bold>\<open>Not modelled.\<close> Code on floating-point numbers (scales, measurements, analyses, most decoders, drawing),
  goroutines' scheduling beyond the step relations above, the network and web servers, process-level
  start-up, and the tests. Code outside the repository (the kernel, the factory firmware, the FPGA) is an
  argument of the definitions that use it.
\<close>

end
